(* ===== verification/Prelude.thy ===== *)
theory Prelude
  imports Main "HOL-Library.Word"
begin

text \<open>
  Shared layer of the development: the exceptions of the program as a datatype, a small
  result monad over sums, checked list indexing and integer division as Python performs
  them, Python's slices of a list, and the generic list lemmas the components share.

  Python integers are HOL's unbounded \<open>int\<close>; a Python sequence is a HOL list; a call that
  may raise returns \<open>Inl e\<close> for the exception \<open>e\<close> and \<open>Inr v\<close> for the value \<open>v\<close>.
  Exception messages are not modelled, only their classes.
\<close>

section \<open>Exceptions and results\<close>

datatype py_error =
    KeyError
  | ValueError
  | IndexError
  | TypeError
  | LookupError
  | RuntimeError
  | OverflowError
  | ZeroDivisionError
  | NotImplementedError
  | FileNotFoundError
  | ImportError
  | ConnectionError
  | AttributeError
  | StructError
  | StopIteration
  | OSError
  | PanicException
  | AssertionError
  | JSONDecodeError
  | NameError

type_synonym 'a res = "py_error + 'a"

named_theorems res_iff "when a computation of the result monad returns or raises"

definition rbind :: "'e + 'a \<Rightarrow> ('a \<Rightarrow> 'e + 'b) \<Rightarrow> 'e + 'b" where
  "rbind m f = (case m of Inl e \<Rightarrow> Inl e | Inr x \<Rightarrow> f x)"

definition rmap :: "('a \<Rightarrow> 'b) \<Rightarrow> 'e + 'a \<Rightarrow> 'e + 'b" where
  "rmap f m = (case m of Inl e \<Rightarrow> Inl e | Inr x \<Rightarrow> Inr (f x))"

definition guard_or :: "bool \<Rightarrow> 'e \<Rightarrow> 'e + unit" where
  "guard_or b e = (if b then Inr () else Inl e)"

fun rmapM :: "('a \<Rightarrow> 'e + 'b) \<Rightarrow> 'a list \<Rightarrow> 'e + 'b list" where
  "rmapM f [] = Inr []"
| "rmapM f (x # xs) =
     (case f x of Inl e \<Rightarrow> Inl e
      | Inr y \<Rightarrow> (case rmapM f xs of Inl e \<Rightarrow> Inl e | Inr ys \<Rightarrow> Inr (y # ys)))"

fun rfoldM :: "('a \<Rightarrow> 's \<Rightarrow> 'e + 's) \<Rightarrow> 'a list \<Rightarrow> 's \<Rightarrow> 'e + 's" where
  "rfoldM f [] s = Inr s"
| "rfoldM f (x # xs) s = (case f x s of Inl e \<Rightarrow> Inl e | Inr s' \<Rightarrow> rfoldM f xs s')"

lemma rbind_simps [simp]:
  "rbind (Inl e) f = Inl e"
  "rbind (Inr x) f = f x"
  by (simp_all add: rbind_def)

lemma rmap_simps [simp]:
  "rmap g (Inl e) = Inl e"
  "rmap g (Inr x) = Inr (g x)"
  by (simp_all add: rmap_def)

lemma guard_or_simps [simp]:
  "guard_or True e = Inr ()"
  "guard_or False e = Inl e"
  by (simp_all add: guard_or_def)

lemma rbind_Inr_iff [res_iff]: "rbind m f = Inr y \<longleftrightarrow> (\<exists>x. m = Inr x \<and> f x = Inr y)"
  by (cases m) simp_all

lemma rbind_Inl_iff [res_iff]:
  "rbind m f = Inl e \<longleftrightarrow> m = Inl e \<or> (\<exists>x. m = Inr x \<and> f x = Inl e)"
  by (cases m) simp_all

lemma rmap_Inr_iff [res_iff]: "rmap g m = Inr y \<longleftrightarrow> (\<exists>x. m = Inr x \<and> y = g x)"
  by (cases m) auto

lemma rmap_Inl_iff [res_iff]: "rmap g m = Inl e \<longleftrightarrow> m = Inl e"
  by (cases m) auto

lemma guard_or_iff [res_iff]:
  "guard_or b e = Inr u \<longleftrightarrow> b"
  "guard_or b e = Inl e' \<longleftrightarrow> \<not> b \<and> e' = e"
  by (auto simp: guard_or_def)

lemma rbind_cong [fundef_cong]:
  "m = m' \<Longrightarrow> (\<And>x. m' = Inr x \<Longrightarrow> f x = f' x) \<Longrightarrow> rbind m f = rbind m' f'"
  by (cases m') simp_all

lemma rbind_assoc: "rbind (rbind m f) g = rbind m (\<lambda>x. rbind (f x) g)"
  by (cases m) simp_all

subsection \<open>Loops that stop at the first error\<close>

lemma rmapM_Inr: "(\<And>x. x \<in> set xs \<Longrightarrow> f x = Inr (g x)) \<Longrightarrow> rmapM f xs = Inr (map g xs)"
  by (induction xs) simp_all

lemma rmapM_cong [fundef_cong]:
  "xs = ys \<Longrightarrow> (\<And>x. x \<in> set ys \<Longrightarrow> f x = g x) \<Longrightarrow> rmapM f xs = rmapM g ys"
proof (induction ys arbitrary: xs)
  case (Cons y ys)
  have "rmapM f ys = rmapM g ys" using Cons.prems(2) by (intro Cons.IH) auto
  with Cons.prems show ?case by (cases "g y") simp_all
qed simp

lemma rmapM_Inr_iff [res_iff]:
  "rmapM f xs = Inr ys \<longleftrightarrow> list_all2 (\<lambda>x y. f x = Inr y) xs ys"
proof (induction xs arbitrary: ys)
  case (Cons x xs)
  show ?case
  proof (cases "rmapM f xs")
    case (Inl e)
    then have "\<not> list_all2 (\<lambda>x y. f x = Inr y) xs zs" for zs using Cons.IH [of zs] by simp
    with Inl show ?thesis by (auto simp: list_all2_Cons1 split: sum.splits)
  next
    case (Inr zs)
    then have "list_all2 (\<lambda>x y. f x = Inr y) xs vs \<longleftrightarrow> vs = zs" for vs
      using Cons.IH [of vs] by auto
    with Inr show ?thesis by (auto simp: list_all2_Cons1 split: sum.splits)
  qed
qed auto

lemma rmapM_length: "rmapM f xs = Inr ys \<Longrightarrow> length ys = length xs"
  by (simp add: rmapM_Inr_iff list_all2_lengthD)

lemma rmapM_append:
  "rmapM f (xs @ ys) = rbind (rmapM f xs) (\<lambda>us. rbind (rmapM f ys) (\<lambda>vs. Inr (us @ vs)))"
  by (induction xs) (auto split: sum.splits simp: rbind_def)

lemma rmapM_Inl: "rmapM f xs = Inl e \<Longrightarrow> \<exists>x \<in> set xs. f x = Inl e"
  by (induction xs) (auto split: sum.splits)

lemma rfoldM_Inr:
  "(\<And>x s. x \<in> set xs \<Longrightarrow> f x s = Inr (g x s)) \<Longrightarrow> rfoldM f xs s = Inr (fold g xs s)"
  by (induction xs arbitrary: s) simp_all

lemma rfoldM_invariant:
  assumes "rfoldM f xs s = Inr t" and "P s"
    and "\<And>x s s'. x \<in> set xs \<Longrightarrow> P s \<Longrightarrow> f x s = Inr s' \<Longrightarrow> P s'"
  shows "P t"
  using assms
proof (induction xs arbitrary: s)
  case (Cons x xs)
  from Cons.prems(1) obtain s' where s': "f x s = Inr s'" "rfoldM f xs s' = Inr t"
    by (auto split: sum.splits)
  from Cons.prems(2,3) s'(1) have "P s'" by (meson list.set_intros(1))
  then show ?case using Cons.IH [OF s'(2)] Cons.prems(3) by (meson list.set_intros(2))
qed simp

section \<open>Checked indexing, division and slices\<close>

definition py_nth :: "'a list \<Rightarrow> nat \<Rightarrow> 'a res" where
  "py_nth xs i = (if i < length xs then Inr (xs ! i) else Inl IndexError)"

definition py_mod :: "int \<Rightarrow> int \<Rightarrow> int res" where
  "py_mod a b = (if b = 0 then Inl ZeroDivisionError else Inr (a mod b))"

definition py_div :: "int \<Rightarrow> int \<Rightarrow> int res" where
  "py_div a b = (if b = 0 then Inl ZeroDivisionError else Inr (a div b))"

text \<open>\<open>xs[-n:]\<close> for \<open>n > 0\<close>: the last \<open>n\<close> elements, all of them when there are fewer.\<close>

definition last_n :: "nat \<Rightarrow> 'a list \<Rightarrow> 'a list" where
  "last_n n xs = drop (length xs - n) xs"

text \<open>\<open>xs[i * w : (i + 1) * w]\<close>.\<close>

definition py_slice :: "nat \<Rightarrow> nat \<Rightarrow> 'a list \<Rightarrow> 'a list" where
  "py_slice i w xs = take w (drop (i * w) xs)"

text \<open>A list cut into consecutive pieces of \<open>w\<close> elements, as a \<open>range(0, len, w)\<close> loop does.\<close>

function chunks :: "nat \<Rightarrow> 'a list \<Rightarrow> 'a list list" where
  "chunks w xs = (if w = 0 \<or> xs = [] then [] else take w xs # chunks w (drop w xs))"
  by pat_completeness auto
termination
  by (relation "measure (\<lambda>(w, xs). length xs)") auto

declare chunks.simps [simp del]

lemma py_nth_Inr [simp]: "i < length xs \<Longrightarrow> py_nth xs i = Inr (xs ! i)"
  by (simp add: py_nth_def)

lemma py_nth_iff [res_iff]: "py_nth xs i = Inr x \<longleftrightarrow> i < length xs \<and> x = xs ! i"
  by (auto simp: py_nth_def)

lemma py_mod_Inr [simp]: "b \<noteq> 0 \<Longrightarrow> py_mod a b = Inr (a mod b)"
  by (simp add: py_mod_def)

lemma last_n_append [simp]: "length ys = n \<Longrightarrow> last_n n (xs @ ys) = ys"
  by (simp add: last_n_def)

lemma last_n_all [simp]: "length xs \<le> n \<Longrightarrow> last_n n xs = xs"
  by (simp add: last_n_def)

lemma length_last_n [simp]: "length (last_n n xs) = min n (length xs)"
  by (auto simp: last_n_def)

lemma last_n_suffix: "\<exists>us. xs = us @ last_n n xs"
  by (metis append_take_drop_id last_n_def)

lemma last_n_nonempty: "0 < n \<Longrightarrow> xs \<noteq> [] \<Longrightarrow> last_n n xs \<noteq> []"
  using length_last_n [of n xs] by (metis length_greater_0_conv min_less_iff_conj)

lemma last_last_n: "last_n n xs \<noteq> [] \<Longrightarrow> last (last_n n xs) = last xs"
  by (simp add: last_n_def last_drop)

lemma last_n_append_long: "n \<le> length ys \<Longrightarrow> last_n n (xs @ ys) = last_n n ys"
  by (simp add: last_n_def)

lemma last_n_last_n_append:
  "last_n n (last_n n xs @ ys) = last_n n (xs @ ys)"
proof (cases "n \<le> length ys")
  case True
  then show ?thesis by (simp add: last_n_append_long)
next
  case False
  have "length xs - n + (length xs - (length xs - n) + length ys - n) = length xs + length ys - n"
    if "n \<le> length xs"
    using that by simp
  with False show ?thesis by (cases "n \<le> length xs") (simp_all add: last_n_def add.commute)
qed

lemma length_py_slice [simp]: "length (py_slice i w xs) = min w (length xs - i * w)"
  by (simp add: py_slice_def)

lemma chunks_Nil [simp]: "chunks w [] = []"
  by (simp add: chunks.simps)

lemma chunks_append:
  "length us = w \<Longrightarrow> 0 < w \<Longrightarrow> chunks w (us @ vs) = us # chunks w vs"
  by (subst chunks.simps) auto

lemma chunks_concat:
  "0 < w \<Longrightarrow> (\<And>x. x \<in> set xss \<Longrightarrow> length x = w) \<Longrightarrow> chunks w (concat xss) = xss"
  by (induction xss) (simp_all add: chunks_append)

lemma concat_chunks: "0 < w \<Longrightarrow> concat (chunks w xs) = xs"
proof (induction w xs rule: chunks.induct)
  case (1 w xs)
  then show ?case by (simp add: chunks.simps [of w xs])
qed

lemma length_concat_const:
  "(\<And>x. x \<in> set xss \<Longrightarrow> length x = w) \<Longrightarrow> length (concat xss) = length xss * w"
  by (induction xss) (simp_all add: algebra_simps)

lemma py_slice_concat:
  "i < length xss \<Longrightarrow> (\<And>x. x \<in> set xss \<Longrightarrow> length x = w) \<Longrightarrow> py_slice i w (concat xss) = xss ! i"
proof (induction xss arbitrary: i)
  case (Cons x xss)
  show ?case
  proof (cases i)
    case 0
    with Cons.prems show ?thesis by (simp add: py_slice_def)
  next
    case (Suc j)
    with Cons.prems have "py_slice j w (concat xss) = xss ! j" by (intro Cons.IH) auto
    moreover have "length x = w" using Cons.prems by simp
    ultimately show ?thesis using Suc by (simp add: py_slice_def add.commute)
  qed
qed simp

section \<open>Falsy values\<close>

text \<open>\<open>x or d\<close> for a list: \<open>None\<close> and the empty list both select the default.\<close>

definition list_or :: "'a list option \<Rightarrow> 'a list \<Rightarrow> 'a list" where
  "list_or x d = (case x of None \<Rightarrow> d | Some xs \<Rightarrow> (if xs = [] then d else xs))"

text \<open>\<open>x or d\<close> for an integer: \<open>None\<close> and \<open>0\<close> both select the default.\<close>

definition int_or :: "int option \<Rightarrow> int \<Rightarrow> int" where
  "int_or x d = (case x of None \<Rightarrow> d | Some v \<Rightarrow> (if v = 0 then d else v))"

lemma list_or_simps [simp]:
  "list_or None d = d"
  "list_or (Some []) d = d"
  "xs \<noteq> [] \<Longrightarrow> list_or (Some xs) d = xs"
  by (simp_all add: list_or_def)

lemma int_or_simps [simp]:
  "int_or None d = d"
  "int_or (Some 0) d = d"
  "v \<noteq> 0 \<Longrightarrow> int_or (Some v) d = v"
  by (simp_all add: int_or_def)

end
