(* ===== verification/PleMath.thy ===== *)
theory PleMath
  imports Prelude
begin

text \<open>
  The deterministic n-gram row addressing of \<open>python/engramdb/ple_math.py\<close> (the same code is
  repeated in \<open>ple_adapter.py\<close>): trial-division primes, the per-head vocabulary sizes and
  offsets, the padded table size, the EOS-segmented shift, and \<open>ple_rowids\<close>.
  The lemmas give each loop a closed form, show that \<open>nth_prime_after\<close> terminates and counts
  primes, that heads own disjoint row ranges, and that the row ids of a token depend only on
  the token and its \<open>ngram_size - 1\<close> predecessors, which is what streaming relies on.
\<close>

unbundle bit_operations_syntax

section \<open>Constants\<close>

definition PLE_EOS :: int where "PLE_EOS = 248044"
definition PLE_NGRAM_SIZE :: nat where "PLE_NGRAM_SIZE = 3"
definition PLE_HEADS_PER_NGRAM :: nat where "PLE_HEADS_PER_NGRAM = 8"
definition PLE_HEADS :: nat where "PLE_HEADS = 16"
definition PLE_BASE :: int where "PLE_BASE = 20000000"
definition PLE_DIVISOR :: int where "PLE_DIVISOR = 128"

definition DEFAULT_MULTIPLIERS :: "int list" where
  "DEFAULT_MULTIPLIERS = [23703573157769, 20109073645365, 8052911324071]"

lemmas ple_consts = PLE_EOS_def PLE_NGRAM_SIZE_def PLE_HEADS_PER_NGRAM_def PLE_HEADS_def
  PLE_BASE_def PLE_DIVISOR_def DEFAULT_MULTIPLIERS_def

section \<open>Primes\<close>

text \<open>The \<open>while d * d <= v\<close> loop of \<open>_is_prime\<close>.\<close>

function trial_division :: "int \<Rightarrow> int \<Rightarrow> bool" where
  "trial_division v d =
     (if d * d \<le> v then (if v mod d = 0 then False else trial_division v (d + 2)) else True)"
  by pat_completeness auto
termination
proof (relation "measure (\<lambda>(v, d). nat (v + 1 - d))")
  fix v d :: int
  assume "d * d \<le> v"
  moreover have "d \<le> d * d" by (cases "d \<le> 0") (auto intro: order_trans simp: mult_le_cancel_right1)
  ultimately show "((v, d + 2), v, d) \<in> measure (\<lambda>(v, d). nat (v + 1 - d))" by simp
qed simp

declare trial_division.simps [simp del]

definition is_prime :: "int \<Rightarrow> bool" where
  "is_prime v = (if v < 2 then False else if v mod 2 = 0 then v = 2 else trial_division v 3)"

text \<open>Primality in the mathematical sense, against which the loop is checked.\<close>

definition prime_number :: "int \<Rightarrow> bool" where
  "prime_number v \<longleftrightarrow> 2 \<le> v \<and> (\<forall>e \<in> {2..<v}. \<not> e dvd v)"

lemma trial_division_iff:
  assumes "0 < d"
  shows "trial_division v d \<longleftrightarrow> (\<forall>k::nat. (d + 2 * int k) * (d + 2 * int k) \<le> v \<longrightarrow> \<not> (d + 2 * int k) dvd v)"
  using assms
proof (induction v d rule: trial_division.induct)
  case (1 v d)
  let ?Q = "\<lambda>d k. (d + 2 * int k) * (d + 2 * int k) \<le> v \<longrightarrow> \<not> (d + 2 * int k) dvd v"
  have shift: "(\<forall>k. ?Q d k) \<longleftrightarrow> ?Q d 0 \<and> (\<forall>k. ?Q (d + 2) k)"
  proof -
    have "?Q (d + 2) k \<longleftrightarrow> ?Q d (Suc k)" for k by (simp add: algebra_simps)
    then show ?thesis by (metis not0_implies_Suc)
  qed
  show ?case
  proof (cases "d * d \<le> v")
    case True
    show ?thesis
    proof (cases "v mod d = 0")
      case True
      then have "\<not> ?Q d 0" using \<open>d * d \<le> v\<close> by (simp add: dvd_eq_mod_eq_0)
      then show ?thesis using True \<open>d * d \<le> v\<close> shift by (simp add: trial_division.simps [of v d])
    next
      case False
      then have "?Q d 0" by (simp add: dvd_eq_mod_eq_0)
      then show ?thesis
        using False \<open>d * d \<le> v\<close> shift "1" by (simp add: trial_division.simps [of v d])
    qed
  next
    case False
    have "\<not> (d + 2 * int k) * (d + 2 * int k) \<le> v" for k
    proof -
      have "d * d \<le> (d + 2 * int k) * (d + 2 * int k)" using "1.prems" by (intro mult_mono) auto
      with False show ?thesis by linarith
    qed
    with False show ?thesis by (simp add: trial_division.simps [of v d])
  qed
qed

lemma composite_small_divisor:
  assumes "2 \<le> v" "\<not> prime_number v"
  obtains e where "2 \<le> e" "e * e \<le> v" "e dvd v"
proof -
  from assms obtain e where e: "2 \<le> e" "e < v" "e dvd v" by (auto simp: prime_number_def)
  then obtain c where c: "v = e * c" by (auto elim: dvdE)
  have "0 < c" using assms(1) e(1) c by (smt (verit) mult_nonneg_nonpos)
  moreover have "c \<noteq> 1" using e(2) c by auto
  ultimately have "2 \<le> c" by simp
  show ?thesis
  proof (cases "e \<le> c")
    case True
    then have "e * e \<le> v" using c e(1) by (simp add: mult_left_mono)
    then show ?thesis using that e by blast
  next
    case False
    then have "c * c \<le> v" using c \<open>2 \<le> c\<close> by (simp add: mult_right_mono)
    moreover have "c dvd v" using c by simp
    ultimately show ?thesis using that \<open>2 \<le> c\<close> by blast
  qed
qed

lemma is_prime_iff: "is_prime v \<longleftrightarrow> prime_number v"
proof (cases "v < 2 \<or> v mod 2 = 0")
  case True
  have "prime_number v \<longleftrightarrow> v = 2" if "\<not> v < 2" "v mod 2 = 0"
  proof -
    have "2 dvd v" using that by presburger
    then show ?thesis using that by (auto simp: prime_number_def)
  qed
  moreover have "\<not> prime_number v" if "v < 2" using that by (simp add: prime_number_def)
  ultimately show ?thesis using True by (auto simp: is_prime_def)
next
  case False
  then have v: "2 < v" "odd v" by presburger+
  have "trial_division v 3 \<longleftrightarrow> prime_number v"
  proof
    assume t: "trial_division v 3"
    show "prime_number v"
    proof (rule ccontr)
      assume "\<not> prime_number v"
      then obtain e where e: "2 \<le> e" "e * e \<le> v" "e dvd v"
        using composite_small_divisor v(1) by (metis less_imp_le)
      have "odd e" using e(3) v(2) dvd_trans by blast
      with e(1) have "3 \<le> e" by presburger
      obtain m where "e = 2 * m + 1" using \<open>odd e\<close> by (rule oddE)
      then have "e = 3 + 2 * int (nat (m - 1))" using \<open>3 \<le> e\<close> by simp
      then obtain k :: nat where "e = 3 + 2 * int k" by blast
      then show False using t e(2,3) by (auto simp: trial_division_iff)
    qed
  next
    assume p: "prime_number v"
    have "\<not> (3 + 2 * int k) dvd v" if "(3 + 2 * int k) * (3 + 2 * int k) \<le> v" for k
    proof -
      define x where "x = 3 + 2 * int k"
      have "3 \<le> x" by (simp add: x_def)
      then have "3 * x \<le> x * x" by (intro mult_right_mono) auto
      with that \<open>3 \<le> x\<close> have "x < v" unfolding x_def [symmetric] by linarith
      then have "3 + 2 * int k < v" by (simp add: x_def)
      then show ?thesis using p by (auto simp: prime_number_def)
    qed
    then show "trial_division v 3" by (auto simp: trial_division_iff)
  qed
  then show ?thesis using False by (simp add: is_prime_def)
qed

text \<open>
  The search for the next prime: \<open>while not _is_prime(p): p += 1\<close>. It stops because there
  is a prime above every number: the least divisor of \<open>n! + 1\<close> that is at least 2 is one.
\<close>

lemma exists_prime_above: "\<exists>k::nat. is_prime (p + int k)"
proof -
  define n where "n = nat (max p 1)"
  let ?N = "(fact n :: nat) + 1"
  have N: "2 \<le> ?N" using fact_ge_1 [of n, where ?'a = nat] by linarith
  define q where "q = (LEAST q. 2 \<le> q \<and> q dvd ?N)"
  have q: "2 \<le> q \<and> q dvd ?N" unfolding q_def by (rule LeastI [of _ ?N]) (use N in simp)
  have least: "\<not> e dvd ?N" if "2 \<le> e" "e < q" for e
    using not_less_Least [of e "\<lambda>q. 2 \<le> q \<and> q dvd ?N"] that unfolding q_def by blast
  have "n < q"
  proof (rule ccontr)
    assume "\<not> n < q"
    then have "q dvd fact n" using q by (intro dvd_fact) auto
    moreover have "q dvd fact n + 1" using q by simp
    ultimately have "q dvd 1" by (metis dvd_add_right_iff)
    then show False using q by simp
  qed
  have "\<not> e dvd int q" if "e \<in> {2..<int q}" for e
  proof
    assume "e dvd int q"
    then have "nat e dvd q" using that by (simp add: nat_dvd_iff)
    then have "nat e dvd ?N" using q dvd_trans by blast
    moreover have "2 \<le> nat e" "nat e < q" using that by auto
    ultimately show False using least by blast
  qed
  then have "is_prime (int q)" using q by (auto simp: is_prime_iff prime_number_def)
  moreover have "p \<le> int q" using \<open>n < q\<close> by (simp add: n_def)
  ultimately show ?thesis by (metis zle_iff_zadd)
qed

function next_prime_from :: "int \<Rightarrow> int" where
  "next_prime_from p = (if is_prime p then p else next_prime_from (p + 1))"
  by pat_completeness auto
termination
proof (relation "measure (\<lambda>p. LEAST k. is_prime (p + int k))")
  fix p :: int
  assume "\<not> is_prime p"
  obtain k where "is_prime (p + int k)" using exists_prime_above by blast
  then have L: "is_prime (p + int (LEAST k. is_prime (p + int k)))"
    by (rule LeastI [where P = "\<lambda>k. is_prime (p + int k)"])
  have "(LEAST k. is_prime (p + int k)) \<noteq> 0"
  proof
    assume "(LEAST k. is_prime (p + int k)) = 0"
    with L have "is_prime (p + int 0)" by (simp only:)
    with \<open>\<not> is_prime p\<close> show False by simp
  qed
  then obtain j where j: "(LEAST k. is_prime (p + int k)) = Suc j"
    by (cases "LEAST k. is_prime (p + int k)") simp_all
  have "is_prime (p + int (Suc j))" using L unfolding j .
  then have "is_prime (p + 1 + int j)" by (simp add: add.assoc)
  then have "(LEAST k. is_prime (p + 1 + int k)) \<le> j" by (rule Least_le)
  with j show "(p + 1, p) \<in> measure (\<lambda>p. LEAST k. is_prime (p + int k))" by simp
qed simp

declare next_prime_from.simps [simp del]

fun nth_prime_after :: "int \<Rightarrow> nat \<Rightarrow> int" where
  "nth_prime_after p 0 = p"
| "nth_prime_after p (Suc count) = nth_prime_after (next_prime_from (p + 1)) count"

lemma next_prime_from_spec:
  "p \<le> next_prime_from p \<and> is_prime (next_prime_from p) \<and> (\<forall>q. p \<le> q \<and> q < next_prime_from p \<longrightarrow> \<not> is_prime q)"
proof (induction p rule: next_prime_from.induct)
  case (1 p)
  show ?case
  proof (cases "is_prime p")
    case True
    then show ?thesis by (auto simp: next_prime_from.simps [of p])
  next
    case False
    have "\<not> is_prime q" if "p \<le> q" "q < next_prime_from (p + 1)" for q
      using "1" [OF False] False that by (cases "q = p") auto
    with "1" [OF False] False show ?thesis by (auto simp: next_prime_from.simps [of p])
  qed
qed

lemma nth_prime_after_Suc: "nth_prime_after p (Suc n) = next_prime_from (nth_prime_after p n + 1)"
  by (induction n arbitrary: p) simp_all

lemma nth_prime_after_strict: "nth_prime_after p n < nth_prime_after p (Suc n)"
  using next_prime_from_spec [of "nth_prime_after p n + 1"] by (simp add: nth_prime_after_Suc del: nth_prime_after.simps)

lemma nth_prime_after_is_prime: "0 < n \<Longrightarrow> is_prime (nth_prime_after p n)"
  using next_prime_from_spec by (cases n) (simp_all add: nth_prime_after_Suc del: nth_prime_after.simps)

lemma nth_prime_after_mono: "m < n \<Longrightarrow> nth_prime_after p m < nth_prime_after p n"
  by (rule lift_Suc_mono_less [of "nth_prime_after p"]) (rule nth_prime_after_strict)

text \<open>The primes above \<open>p\<close> up to the \<open>n\<close>-th one are exactly the first \<open>n\<close>.\<close>

lemma primes_up_to_nth:
  "{q. p < q \<and> q \<le> nth_prime_after p n \<and> prime_number q} = nth_prime_after p ` {1..n}"
proof (induction n)
  case 0
  then show ?case by auto
next
  case (Suc n)
  let ?f = "nth_prime_after p"
  have step: "q \<le> ?f (Suc n) \<and> prime_number q \<longleftrightarrow> (q \<le> ?f n \<and> prime_number q) \<or> q = ?f (Suc n)" for q
  proof -
    have b: "is_prime (?f (Suc n))" by (rule nth_prime_after_is_prime) simp
    have gap: "\<not> is_prime q" if "?f n < q" "q < ?f (Suc n)" for q
      using next_prime_from_spec [of "?f n + 1"] that unfolding nth_prime_after_Suc by auto
    show ?thesis
      using b gap [of q] nth_prime_after_strict [of p n] unfolding is_prime_iff by fastforce
  qed
  have "p < ?f (Suc n)" using nth_prime_after_mono [of 0 "Suc n" p] by simp
  then have "{q. p < q \<and> q \<le> ?f (Suc n) \<and> prime_number q}
      = insert (?f (Suc n)) {q. p < q \<and> q \<le> ?f n \<and> prime_number q}"
    using step by blast
  also have "\<dots> = insert (?f (Suc n)) (?f ` {1..n})" by (simp only: Suc.IH)
  also have "\<dots> = ?f ` {1..Suc n}" by (simp add: atLeastAtMostSuc_conv del: nth_prime_after.simps)
  finally show ?case .
qed

section \<open>Head sizes, offsets and the padded table\<close>

definition head_vocab_sizes :: "int \<Rightarrow> nat \<Rightarrow> int list" where
  "head_vocab_sizes base heads = map (\<lambda>i. nth_prime_after (base - 1) (i + 1)) [0..<heads]"

text \<open>\<open>sizes or head_vocab_sizes()\<close>.\<close>

definition sizes_or :: "int list option \<Rightarrow> int list" where
  "sizes_or sizes =
     (case sizes of None \<Rightarrow> head_vocab_sizes PLE_BASE PLE_HEADS
      | Some xs \<Rightarrow> (if xs = [] then head_vocab_sizes PLE_BASE PLE_HEADS else xs))"

lemma sizes_or_Some [simp]: "xs \<noteq> [] \<Longrightarrow> sizes_or (Some xs) = xs"
  by (simp add: sizes_or_def)

definition head_offsets :: "int list option \<Rightarrow> int list" where
  "head_offsets sizes =
     (let sizes = sizes_or sizes
      in foldl (\<lambda>offsets s. offsets @ [last offsets + s]) [0] (butlast sizes))"

definition padded_vocab_size :: "int list option \<Rightarrow> int \<Rightarrow> int res" where
  "padded_vocab_size sizes divisor =
     (let sizes = sizes_or sizes; total = sum_list sizes
      in rmap (\<lambda>q. q * divisor) (py_div (total + divisor - 1) divisor))"

lemma length_head_vocab_sizes [simp]: "length (head_vocab_sizes base heads) = heads"
  by (simp add: head_vocab_sizes_def)

lemma head_vocab_sizes_nth:
  "i < heads \<Longrightarrow> head_vocab_sizes base heads ! i = nth_prime_after (base - 1) (Suc i)"
  by (simp add: head_vocab_sizes_def)

lemma head_vocab_sizes_prime: "s \<in> set (head_vocab_sizes base heads) \<Longrightarrow> prime_number s"
  by (auto simp: head_vocab_sizes_def is_prime_iff [symmetric] simp del: nth_prime_after.simps
      intro!: nth_prime_after_is_prime)

lemma head_vocab_sizes_pos: "s \<in> set (head_vocab_sizes base heads) \<Longrightarrow> 2 \<le> s"
  using head_vocab_sizes_prime by (auto simp: prime_number_def)

lemma offsets_loop:
  "acc \<noteq> [] \<Longrightarrow>
   foldl (\<lambda>offsets s. offsets @ [last offsets + s]) acc xs
     = acc @ map (\<lambda>i. last acc + sum_list (take (Suc i) xs)) [0..<length xs]"
proof (induction xs arbitrary: acc)
  case (Cons x xs)
  have "[0..<length (x # xs)] = 0 # map Suc [0..<length xs]"
    by (simp add: map_Suc_upt upt_conv_Cons del: upt_Suc)
  then show ?case using Cons.IH [of "acc @ [last acc + x]"] Cons.prems
    by (simp add: comp_def add.assoc del: upt_Suc)
qed simp

lemma head_offsets_closed:
  assumes "sizes \<noteq> []"
  shows "head_offsets (Some sizes) = map (\<lambda>i. sum_list (take i sizes)) [0..<length sizes]"
proof -
  have "map (\<lambda>i. sum_list (take i sizes)) [0..<length sizes]
      = 0 # map (\<lambda>i. sum_list (take (Suc i) sizes)) [0..<length sizes - 1]"
    using assms by (cases "length sizes") (simp_all add: map_Suc_upt [symmetric] upt_conv_Cons comp_def del: upt_Suc)
  also have "map (\<lambda>i. sum_list (take (Suc i) sizes)) [0..<length sizes - 1]
      = map (\<lambda>i. sum_list (take (Suc i) (butlast sizes))) [0..<length sizes - 1]"
    by (auto simp: take_butlast)
  finally show ?thesis using assms by (simp add: head_offsets_def offsets_loop)
qed

lemma length_head_offsets [simp]: "sizes \<noteq> [] \<Longrightarrow> length (head_offsets (Some sizes)) = length sizes"
  by (simp add: head_offsets_closed)

lemma head_offsets_nth:
  "i < length sizes \<Longrightarrow> head_offsets (Some sizes) ! i = sum_list (take i sizes)"
  by (subst head_offsets_closed) auto

lemma sum_take_mono:
  assumes "\<And>s. s \<in> set xs \<Longrightarrow> (0::int) \<le> s" "i \<le> j"
  shows "sum_list (take i xs) \<le> sum_list (take j xs)"
proof -
  have "take j xs = take i xs @ take (j - i) (drop i xs)"
    using assms(2) by (metis le_add_diff_inverse take_add)
  moreover have "0 \<le> sum_list (take (j - i) (drop i xs))"
    using assms(1) by (intro sum_list_nonneg) (meson in_set_dropD in_set_takeD)
  ultimately show ?thesis by simp
qed

lemma head_ranges_disjoint:
  assumes pos: "\<And>s. s \<in> set sizes \<Longrightarrow> 0 < s"
    and ij: "i < j" "j < length sizes" and r: "0 \<le> r" "r < sizes ! i" and r': "0 \<le> r'"
  shows "r + head_offsets (Some sizes) ! i < r' + head_offsets (Some sizes) ! j"
proof -
  have "sum_list (take (Suc i) sizes) \<le> sum_list (take j sizes)"
    using pos ij by (intro sum_take_mono) (auto intro: less_imp_le)
  moreover have "sum_list (take (Suc i) sizes) = sum_list (take i sizes) + sizes ! i"
    using ij by (simp add: take_Suc_conv_app_nth)
  ultimately show ?thesis using ij r r' by (simp add: head_offsets_nth)
qed

lemma head_range_in_table:
  assumes pos: "\<And>s. s \<in> set sizes \<Longrightarrow> 0 < s"
    and i: "i < length sizes" and r: "0 \<le> r" "r < sizes ! i"
  shows "0 \<le> r + head_offsets (Some sizes) ! i \<and> r + head_offsets (Some sizes) ! i < sum_list sizes"
proof -
  have nn: "\<And>s. s \<in> set sizes \<Longrightarrow> 0 \<le> s" using pos by (auto intro: less_imp_le)
  have "sum_list (take (Suc i) sizes) \<le> sum_list (take (length sizes) sizes)"
    using nn i by (intro sum_take_mono) auto
  moreover have "sum_list (take (Suc i) sizes) = sum_list (take i sizes) + sizes ! i"
    using i by (simp add: take_Suc_conv_app_nth)
  moreover have "0 \<le> sum_list (take i sizes)"
    using nn by (intro sum_list_nonneg) (auto dest: in_set_takeD)
  ultimately show ?thesis using i r by (simp add: head_offsets_nth)
qed

lemma padded_vocab_size_bounds:
  assumes "padded_vocab_size (Some sizes) d = Inr p" "0 < d" "sizes \<noteq> []"
  shows "sum_list sizes \<le> p \<and> p < sum_list sizes + d \<and> d dvd p"
proof -
  let ?t = "sum_list sizes"
  have p: "p = (?t + d - 1) div d * d"
    using assms by (auto simp: padded_vocab_size_def py_div_def)
  have "(?t + d - 1) div d * d = (?t + d - 1) - (?t + d - 1) mod d"
    by (simp add: minus_mod_eq_div_mult [symmetric])
  moreover have "0 \<le> (?t + d - 1) mod d" "(?t + d - 1) mod d < d" using assms(2) by simp_all
  ultimately show ?thesis using p by simp
qed

section \<open>The EOS-segmented shift\<close>

text \<open>
  The first loop of \<open>_shift_right_ignore_eos\<close>: the index of the last EOS so far, or -1.
  The functions of this section only compare and move tokens; they are stated for any token
  type, and used at \<open>int\<close> for the Python code and at 32-bit words for the native one.
\<close>

fun prev_incl_loop :: "'a \<Rightarrow> nat \<Rightarrow> int \<Rightarrow> 'a list \<Rightarrow> int list" where
  "prev_incl_loop eos i l [] = []"
| "prev_incl_loop eos i l (x # hist) =
     (let last' = (if x = eos then int i else l)
      in last' # prev_incl_loop eos (Suc i) last' hist)"

definition shift_right_ignore_eos :: "'a list \<Rightarrow> nat \<Rightarrow> 'a \<Rightarrow> 'a list" where
  "shift_right_ignore_eos hist shift eos =
     (if shift = 0 then hist
      else let n = length hist; prev_incl = prev_incl_loop eos 0 (-1) hist
        in map (\<lambda>i.
             let seg_start = (if i = 0 then 0 else prev_incl ! (i - 1) + 1);
                 pos_in_seg = int i - seg_start;
                 src = int i - int shift;
                 valid = (int shift \<le> pos_in_seg \<and> 0 \<le> src)
             in if valid then hist ! nat src else eos) [0..<n])"

text \<open>What one entry of the shifted list is: the token \<open>s\<close> places back, unless an EOS (or the
  start) lies between.\<close>

definition shifted_token :: "'a \<Rightarrow> 'a list \<Rightarrow> nat \<Rightarrow> nat \<Rightarrow> 'a" where
  "shifted_token eos hist s i =
     (if s \<le> i \<and> eos \<notin> set (take s (drop (i - s) hist)) then hist ! (i - s) else eos)"

lemma length_prev_incl_loop [simp]: "length (prev_incl_loop eos i l hist) = length hist"
  by (induction hist arbitrary: i l) (simp_all add: Let_def)

lemma prev_incl_loop_less:
  assumes "l < int i" "k < length hist"
  shows "prev_incl_loop eos i l hist ! k < b \<longleftrightarrow> l < b \<and> (\<forall>j\<le>k. hist ! j = eos \<longrightarrow> int (i + j) < b)"
  using assms
proof (induction hist arbitrary: i l k)
  case (Cons x hist)
  let ?l = "if x = eos then int i else l"
  show ?case
  proof (cases k)
    case 0
    then show ?thesis using Cons.prems by (auto simp: Let_def)
  next
    case (Suc k')
    have "?l < int (Suc i)" using Cons.prems by simp
    then have IH: "prev_incl_loop eos (Suc i) ?l hist ! k' < b
        \<longleftrightarrow> ?l < b \<and> (\<forall>j\<le>k'. hist ! j = eos \<longrightarrow> int (i + Suc j) < b)"
      using Cons.IH [of ?l "Suc i" k'] Suc Cons.prems by simp
    have all: "(\<forall>j\<le>Suc k'. P j) \<longleftrightarrow> P 0 \<and> (\<forall>j\<le>k'. P (Suc j))" for P
      by (metis Suc_le_mono le0 old.nat.exhaust)
    have "prev_incl_loop eos i l (x # hist) ! k < b
        \<longleftrightarrow> ?l < b \<and> (\<forall>j\<le>k'. hist ! j = eos \<longrightarrow> int (i + Suc j) < b)"
      using IH Suc by (simp add: Let_def)
    also have "\<dots> \<longleftrightarrow> (l < b \<and> (x = eos \<longrightarrow> int i < b)) \<and> (\<forall>j\<le>k'. hist ! j = eos \<longrightarrow> int (i + Suc j) < b)"
      using Cons.prems by auto
    also have "\<dots> \<longleftrightarrow> l < b \<and> (\<forall>j\<le>k. (x # hist) ! j = eos \<longrightarrow> int (i + j) < b)"
      unfolding Suc all by simp
    finally show ?thesis .
  qed
qed simp

lemma in_take_drop_iff:
  assumes "i \<le> length xs" "s \<le> i"
  shows "x \<in> set (take s (drop (i - s) xs)) \<longleftrightarrow> (\<exists>j. i - s \<le> j \<and> j < i \<and> xs ! j = x)"
proof -
  have "set (take s (drop (i - s) xs)) = {xs ! j | j. i - s \<le> j \<and> j < i}"
  proof -
    have "take s (drop (i - s) xs) = map ((!) xs) [i - s..<i]"
      using assms by (intro nth_equalityI) auto
    then show ?thesis by auto
  qed
  then show ?thesis by auto
qed

lemma shift_right_ignore_eos_closed:
  "shift_right_ignore_eos hist s eos = map (shifted_token eos hist s) [0..<length hist]"
proof (cases "s = 0")
  case True
  then show ?thesis
    by (auto simp: shift_right_ignore_eos_def shifted_token_def intro!: nth_equalityI)
next
  case False
  have entry: "(let seg_start = (if i = 0 then 0 else prev_incl_loop eos 0 (-1) hist ! (i - 1) + 1);
           pos_in_seg = int i - seg_start; src = int i - int s;
           valid = (int s \<le> pos_in_seg \<and> 0 \<le> src)
       in if valid then hist ! nat src else eos) = shifted_token eos hist s i"
    if i: "i < length hist" for i
  proof (cases "s \<le> i")
    case True
    then have "0 < i" using False by simp
    let ?p = "prev_incl_loop eos 0 (-1) hist ! (i - 1)"
    have "int s \<le> int i - (?p + 1) \<longleftrightarrow> ?p < int (i - s)"
      using True by (simp add: of_nat_diff) linarith
    also have "\<dots> \<longleftrightarrow> (\<forall>j\<le>i - 1. hist ! j = eos \<longrightarrow> j < i - s)"
      using i \<open>0 < i\<close> by (subst prev_incl_loop_less) auto
    also have "\<dots> \<longleftrightarrow> \<not> (\<exists>j. i - s \<le> j \<and> j < i \<and> hist ! j = eos)"
    proof -
      have "j \<le> i - 1 \<longleftrightarrow> j < i" for j using \<open>0 < i\<close> by auto
      then show ?thesis by (metis linorder_not_less)
    qed
    also have "\<dots> \<longleftrightarrow> eos \<notin> set (take s (drop (i - s) hist))"
      using i True by (subst in_take_drop_iff) auto
    finally show ?thesis
      using True \<open>0 < i\<close> by (simp add: shifted_token_def Let_def nat_diff_distrib)
  next
    case False
    then show ?thesis by (simp add: shifted_token_def Let_def)
  qed
  show ?thesis
    unfolding shift_right_ignore_eos_def using False entry by (simp add: Let_def)
qed

lemma shifted_token_prefix:
  "i < length hist \<Longrightarrow> shifted_token eos (hist @ vs) s i = shifted_token eos hist s i"
  by (auto simp: shifted_token_def nth_append)

lemma shifted_token_local:
  assumes "s \<le> i"
  shows "shifted_token eos (us @ hist) s (length us + i) = shifted_token eos hist s i"
proof -
  have "length us + i - s = length us + (i - s)" using assms by simp
  then have "(us @ hist) ! (length us + i - s) = hist ! (i - s)"
    and "drop (length us + i - s) (us @ hist) = drop (i - s) hist"
    by (simp_all only: nth_append_length_plus drop_append) simp_all
  with assms show ?thesis by (simp add: shifted_token_def)
qed

text \<open>Behind a run of EOS padding the length of the run does not matter.\<close>

lemma shifted_token_padding:
  assumes "i < length t"
  shows "shifted_token eos (replicate k eos @ t) s (k + i) = shifted_token eos t s i"
proof (cases "s \<le> i")
  case True
  then show ?thesis using shifted_token_local [of s i eos "replicate k eos" t] by simp
next
  case False
  have "shifted_token eos (replicate k eos @ t) s (k + i) = eos"
  proof (cases "s \<le> k + i")
    case True
    with False have "k + i - s < k" by simp
    then have "(replicate k eos @ t) ! (k + i - s) = eos" by (simp add: nth_append)
    then show ?thesis by (simp add: shifted_token_def)
  qed (simp add: shifted_token_def)
  with False show ?thesis by (simp add: shifted_token_def)
qed

section \<open>Row ids of a token sequence\<close>

text \<open>The hash of one n-gram: the inner loop over \<open>order\<close> of \<open>ple_rowids\<close>.\<close>

definition gram_mixed :: "int list list \<Rightarrow> int list \<Rightarrow> nat \<Rightarrow> nat \<Rightarrow> int res" where
  "gram_mixed shifted multipliers pos ngram =
     rbind (py_nth shifted 0) (\<lambda>s0. rbind (py_nth s0 pos) (\<lambda>x0.
     rbind (py_nth multipliers 0) (\<lambda>m0.
       rfoldM (\<lambda>order mixed.
         rbind (py_nth shifted order) (\<lambda>so. rbind (py_nth so pos) (\<lambda>x.
         rbind (py_nth multipliers order) (\<lambda>m. Inr (mixed XOR (x * m))))))
         [1..<ngram] (x0 * m0))))"

definition head_rid :: "int list \<Rightarrow> int list \<Rightarrow> int \<Rightarrow> nat \<Rightarrow> int res" where
  "head_rid sizes offsets mixed h =
     rbind (py_nth sizes h) (\<lambda>size. rbind (py_mod mixed size) (\<lambda>r.
     rbind (py_nth offsets h) (\<lambda>off. Inr (r + off))))"

definition position_row ::
  "int list list \<Rightarrow> int list \<Rightarrow> int list \<Rightarrow> int list \<Rightarrow> nat \<Rightarrow> nat \<Rightarrow> nat \<Rightarrow> int list res" where
  "position_row shifted multipliers sizes offsets ngram_size heads_per_ngram pos =
     rmap concat (rmapM (\<lambda>ngram.
       let start = (ngram - 2) * heads_per_ngram; end' = start + heads_per_ngram
       in rbind (gram_mixed shifted multipliers pos ngram)
            (\<lambda>mixed. rmapM (head_rid sizes offsets mixed) [start..<end']))
       [2..<ngram_size + 1])"

definition ple_rowids ::
  "int list \<Rightarrow> int list \<Rightarrow> int \<Rightarrow> int list option \<Rightarrow> int list option \<Rightarrow> nat \<Rightarrow> nat
     \<Rightarrow> int list option \<Rightarrow> int list list res" where
  "ple_rowids tokens multipliers eos sizes offsets ngram_size heads_per_ngram history =
     (let sizes = sizes_or sizes;
          offsets = list_or offsets (head_offsets (Some sizes));
          hist = (case history of None \<Rightarrow> [eos, eos] @ tokens | Some h \<Rightarrow> h @ tokens);
          shifted = map (\<lambda>sh. shift_right_ignore_eos hist sh eos) [0..<ngram_size]
      in rmap (\<lambda>ids_all. if tokens = [] then [] else last_n (length tokens) ids_all)
           (rmapM (position_row shifted multipliers sizes offsets ngram_size heads_per_ngram)
              [0..<length hist]))"

text \<open>The closed form of a row, and the parameters for which no index or division fails.\<close>

definition gram_hash :: "int \<Rightarrow> int list \<Rightarrow> int list \<Rightarrow> nat \<Rightarrow> nat \<Rightarrow> int" where
  "gram_hash eos multipliers hist i ngram =
     fold (\<lambda>order mixed. mixed XOR (shifted_token eos hist order i * multipliers ! order))
       [1..<ngram] (shifted_token eos hist 0 i * multipliers ! 0)"

definition row_of ::
  "int \<Rightarrow> int list \<Rightarrow> int list \<Rightarrow> int list \<Rightarrow> nat \<Rightarrow> nat \<Rightarrow> int list \<Rightarrow> nat \<Rightarrow> int list" where
  "row_of eos multipliers sizes offsets ngram_size heads_per_ngram hist i =
     concat (map (\<lambda>ngram. map (\<lambda>h. gram_hash eos multipliers hist i ngram mod sizes ! h + offsets ! h)
         [(ngram - 2) * heads_per_ngram..<(ngram - 2) * heads_per_ngram + heads_per_ngram])
       [2..<ngram_size + 1])"

definition ple_params_ok :: "int list \<Rightarrow> int list \<Rightarrow> int list \<Rightarrow> nat \<Rightarrow> nat \<Rightarrow> bool" where
  "ple_params_ok multipliers sizes offsets ngram_size heads_per_ngram \<longleftrightarrow>
     2 \<le> ngram_size \<and> ngram_size \<le> length multipliers
     \<and> sizes \<noteq> [] \<and> offsets \<noteq> []
     \<and> (ngram_size - 1) * heads_per_ngram \<le> length sizes
     \<and> (ngram_size - 1) * heads_per_ngram \<le> length offsets
     \<and> (\<forall>s \<in> set sizes. 0 < s)"

lemma gram_mixed_closed:
  assumes "pos < length hist" "1 \<le> ngram" "ngram \<le> ngram_size" "ngram_size \<le> length ms"
  shows "gram_mixed (map (\<lambda>sh. shift_right_ignore_eos hist sh eos) [0..<ngram_size]) ms pos ngram
       = Inr (gram_hash eos ms hist pos ngram)"
proof -
  let ?sh = "map (\<lambda>sh. shift_right_ignore_eos hist sh eos) [0..<ngram_size]"
  have nth: "py_nth ?sh o' = Inr (shift_right_ignore_eos hist o' eos)" if "o' < ngram_size" for o'
    using that by simp
  have at: "py_nth (shift_right_ignore_eos hist o' eos) pos = Inr (shifted_token eos hist o' pos)" for o'
    using assms(1) by (simp add: shift_right_ignore_eos_closed)
  have "rfoldM (\<lambda>order mixed.
         rbind (py_nth ?sh order) (\<lambda>so. rbind (py_nth so pos) (\<lambda>x.
         rbind (py_nth ms order) (\<lambda>m. Inr (mixed XOR (x * m)))))) [1..<ngram] s
      = Inr (fold (\<lambda>order mixed. mixed XOR (shifted_token eos hist order pos * ms ! order)) [1..<ngram] s)" for s
    using assms nth by (intro rfoldM_Inr) (simp add: at)
  moreover have "0 < length ms" using assms by linarith
  ultimately show ?thesis using assms nth [of 0] by (simp add: gram_mixed_def gram_hash_def at)
qed

lemma position_row_closed:
  assumes "pos < length hist" "ple_params_ok ms sizes offsets ngram_size H"
  shows "position_row (map (\<lambda>sh. shift_right_ignore_eos hist sh eos) [0..<ngram_size]) ms sizes offsets
       ngram_size H pos = Inr (row_of eos ms sizes offsets ngram_size H hist pos)"
proof -
  have h: "head_rid sizes offsets mixed h = Inr (mixed mod sizes ! h + offsets ! h)"
    if "h < (ngram_size - 1) * H" for h mixed
  proof -
    have "h < length sizes" "h < length offsets" using that assms(2) by (auto simp: ple_params_ok_def)
    moreover have "sizes ! h \<noteq> 0"
      using assms(2) \<open>h < length sizes\<close> by (auto simp: ple_params_ok_def dest: bspec [OF _ nth_mem])
    ultimately show ?thesis by (simp add: head_rid_def)
  qed
  have bound: "h < (ngram_size - 1) * H"
    if "ngram \<in> set [2..<ngram_size + 1]" "h < (ngram - 2) * H + H" for ngram h
  proof -
    have "(ngram - 2) * H + H = (ngram - 1) * H"
    proof -
      have "2 \<le> ngram" using that(1) by auto
      then obtain k where "ngram = k + 2" by (metis le_iff_add add.commute)
      then show ?thesis by simp
    qed
    also have "\<dots> \<le> (ngram_size - 1) * H" using that(1) by (intro mult_right_mono) auto
    finally show ?thesis using that(2) by simp
  qed
  have "rmapM (\<lambda>ngram.
       let start = (ngram - 2) * H; end' = start + H
       in rbind (gram_mixed (map (\<lambda>sh. shift_right_ignore_eos hist sh eos) [0..<ngram_size]) ms pos ngram)
            (\<lambda>mixed. rmapM (head_rid sizes offsets mixed) [start..<end'])) [2..<ngram_size + 1]
    = Inr (map (\<lambda>ngram. map (\<lambda>h. gram_hash eos ms hist pos ngram mod sizes ! h + offsets ! h)
         [(ngram - 2) * H..<(ngram - 2) * H + H]) [2..<ngram_size + 1])"
  proof (rule rmapM_Inr)
    fix ngram assume ng: "ngram \<in> set [2..<ngram_size + 1]"
    then have "gram_mixed (map (\<lambda>sh. shift_right_ignore_eos hist sh eos) [0..<ngram_size]) ms pos ngram
        = Inr (gram_hash eos ms hist pos ngram)"
      using assms by (intro gram_mixed_closed) (auto simp: ple_params_ok_def)
    moreover have "rmapM (head_rid sizes offsets mixed) [(ngram - 2) * H..<(ngram - 2) * H + H]
        = Inr (map (\<lambda>h. mixed mod sizes ! h + offsets ! h) [(ngram - 2) * H..<(ngram - 2) * H + H])" for mixed
      by (rule rmapM_Inr) (use h bound [OF ng] in auto)
    ultimately show "(let start = (ngram - 2) * H; end' = start + H
       in rbind (gram_mixed (map (\<lambda>sh. shift_right_ignore_eos hist sh eos) [0..<ngram_size]) ms pos ngram)
            (\<lambda>mixed. rmapM (head_rid sizes offsets mixed) [start..<end']))
      = Inr (map (\<lambda>h. gram_hash eos ms hist pos ngram mod sizes ! h + offsets ! h)
         [(ngram - 2) * H..<(ngram - 2) * H + H])" by (simp add: Let_def)
  qed
  then show ?thesis by (simp only: position_row_def row_of_def rmap_simps)
qed

text \<open>The history that \<open>ple_rowids\<close> puts in front of the tokens.\<close>

definition history_of :: "int \<Rightarrow> int list option \<Rightarrow> int list" where
  "history_of eos history = (case history of None \<Rightarrow> [eos, eos] | Some h \<Rightarrow> h)"

lemma ple_rowids_closed:
  assumes ok: "ple_params_ok ms sizes offsets ngram_size H"
  shows "ple_rowids tokens ms eos (Some sizes) (Some offsets) ngram_size H history
       = Inr (map (\<lambda>i. row_of eos ms sizes offsets ngram_size H (history_of eos history @ tokens)
               (length (history_of eos history) + i)) [0..<length tokens])"
proof -
  let ?h = "history_of eos history" and ?row = "row_of eos ms sizes offsets ngram_size H"
  have sel: "sizes_or (Some sizes) = sizes" "list_or (Some offsets) d' = offsets" for d'
    using ok by (auto simp: ple_params_ok_def)
  have hist: "(case history of None \<Rightarrow> [eos, eos] @ tokens | Some h \<Rightarrow> h @ tokens) = ?h @ tokens"
    by (simp add: history_of_def split: option.split)
  have rows: "rmapM (position_row (map (\<lambda>sh. shift_right_ignore_eos (?h @ tokens) sh eos) [0..<ngram_size])
        ms sizes offsets ngram_size H) [0..<length (?h @ tokens)]
      = Inr (map (?row (?h @ tokens)) [0..<length (?h @ tokens)])"
    by (rule rmapM_Inr) (use position_row_closed [OF _ ok] in auto)
  have "last_n (length tokens) (map (?row (?h @ tokens)) [0..<length (?h @ tokens)])
      = map (\<lambda>i. ?row (?h @ tokens) (length ?h + i)) [0..<length tokens]"
    by (auto simp: last_n_def intro!: nth_equalityI)
  then show ?thesis
    unfolding ple_rowids_def sel hist Let_def rows by auto
qed

section \<open>Locality\<close>

lemma gram_hash_cong:
  assumes "\<And>s. s < ngram \<Longrightarrow> shifted_token eos hist s i = shifted_token eos hist' s i'" "1 \<le> ngram"
  shows "gram_hash eos ms hist i ngram = gram_hash eos ms hist' i' ngram"
  unfolding gram_hash_def using assms by (intro fold_cong) auto

lemma row_of_cong:
  assumes "\<And>s. s < ngram_size \<Longrightarrow> shifted_token eos hist s i = shifted_token eos hist' s i'"
  shows "row_of eos ms sizes offsets ngram_size H hist i = row_of eos ms sizes offsets ngram_size H hist' i'"
proof -
  have "gram_hash eos ms hist i ngram = gram_hash eos ms hist' i' ngram"
    if "ngram \<in> set [2..<ngram_size + 1]" for ngram
    using assms that by (intro gram_hash_cong) auto
  then show ?thesis unfolding row_of_def by (intro arg_cong [where f = concat] map_cong) auto
qed

text \<open>A row depends on the last \<open>ngram_size - 1\<close> tokens before it only.\<close>

lemma row_of_drop_prefix:
  assumes "ngram_size - 1 \<le> length h"
  shows "row_of eos ms sizes offsets ngram_size H (us @ h @ t) (length us + length h + i)
       = row_of eos ms sizes offsets ngram_size H (h @ t) (length h + i)"
  using assms shifted_token_local [of _ "length h + i" eos us "h @ t"]
  by (intro row_of_cong) (auto simp: add.assoc)

lemma row_of_drop_suffix:
  "i < length hist \<Longrightarrow>
   row_of eos ms sizes offsets ngram_size H (hist @ vs) i = row_of eos ms sizes offsets ngram_size H hist i"
  by (intro row_of_cong shifted_token_prefix)

lemma row_of_padding:
  assumes "i < length t"
  shows "row_of eos ms sizes offsets ngram_size H (replicate k eos @ t) (k + i)
       = row_of eos ms sizes offsets ngram_size H (replicate k' eos @ t) (k' + i)"
  using assms by (intro row_of_cong) (simp add: shifted_token_padding)

text \<open>The rows of a batch in the context of everything before it, as a function of the context.\<close>

definition rows_after ::
  "int \<Rightarrow> int list \<Rightarrow> int list \<Rightarrow> int list \<Rightarrow> nat \<Rightarrow> nat \<Rightarrow> int list \<Rightarrow> int list \<Rightarrow> int list list" where
  "rows_after eos ms sizes offsets ngram_size H ctx t =
     map (\<lambda>i. row_of eos ms sizes offsets ngram_size H (ctx @ t) (length ctx + i)) [0..<length t]"

lemma ple_rowids_rows_after:
  "ple_params_ok ms sizes offsets ngram_size H \<Longrightarrow>
   ple_rowids t ms eos (Some sizes) (Some offsets) ngram_size H history
     = Inr (rows_after eos ms sizes offsets ngram_size H (history_of eos history) t)"
  by (simp add: ple_rowids_closed rows_after_def)

lemma length_rows_after [simp]: "length (rows_after eos ms sizes offsets ngram_size H ctx t) = length t"
  by (simp add: rows_after_def)

lemma rows_after_append:
  "rows_after eos ms sizes offsets ngram_size H ctx (t @ t')
     = rows_after eos ms sizes offsets ngram_size H ctx t
       @ rows_after eos ms sizes offsets ngram_size H (ctx @ t) t'"
proof (rule nth_equalityI)
  fix i assume "i < length (rows_after eos ms sizes offsets ngram_size H ctx (t @ t'))"
  then have i: "i < length t + length t'" by simp
  show "rows_after eos ms sizes offsets ngram_size H ctx (t @ t') ! i
      = (rows_after eos ms sizes offsets ngram_size H ctx t
         @ rows_after eos ms sizes offsets ngram_size H (ctx @ t) t') ! i"
  proof (cases "i < length t")
    case True
    then show ?thesis
      using row_of_drop_suffix [of "length ctx + i" "ctx @ t" eos ms sizes offsets ngram_size H t']
      by (simp add: rows_after_def nth_append)
  next
    case False
    then have "i - length t < length t'" using i by auto
    then have "[0..<length t'] ! (i - length t) = i - length t" by simp
    with False i show ?thesis by (simp add: rows_after_def nth_append)
  qed
qed simp

lemma rows_after_last_n:
  assumes "ngram_size - 1 \<le> n"
  shows "rows_after eos ms sizes offsets ngram_size H (last_n n ctx) t
       = rows_after eos ms sizes offsets ngram_size H ctx t"
proof (cases "n \<le> length ctx")
  case True
  obtain us where us: "ctx = us @ last_n n ctx" using last_n_suffix by blast
  have "row_of eos ms sizes offsets ngram_size H (ctx @ t) (length ctx + i)
      = row_of eos ms sizes offsets ngram_size H (last_n n ctx @ t) (length (last_n n ctx) + i)" for i
    using row_of_drop_prefix [of ngram_size "last_n n ctx" eos ms sizes offsets H us t i] True assms us
    by (metis append.assoc length_append length_last_n min.absorb1)
  then show ?thesis by (simp add: rows_after_def)
qed simp

lemma rows_after_padding:
  "rows_after eos ms sizes offsets ngram_size H (replicate k eos) t
     = rows_after eos ms sizes offsets ngram_size H (replicate k' eos) t"
  using row_of_padding by (auto simp: rows_after_def)

lemma shifted_token_map:
  assumes "inj f" "i < length hist"
  shows "shifted_token (f eos) (map f hist) s i = f (shifted_token eos hist s i)"
proof -
  have "f eos \<notin> set (take s (drop (i - s) (map f hist))) \<longleftrightarrow> eos \<notin> set (take s (drop (i - s) hist))"
    using assms(1) by (simp add: drop_map take_map inj_image_mem_iff)
  then show ?thesis using assms(2) by (auto simp: shifted_token_def)
qed

lemma concat_blocks:
  "concat (map (\<lambda>k. map (f k) [k * H..<k * H + H]) [0..<m]) = map (\<lambda>h. f (h div H) h) [0..<m * H]"
proof (induction m)
  case (Suc m)
  have "f (h div H) h = f m h" if "h \<in> set [m * H..<m * H + H]" for h
  proof -
    have "h div H = m" using that by (intro div_nat_eqI) (auto simp: mult.commute)
    then show ?thesis by simp
  qed
  then have "map (f m) [m * H..<m * H + H] = map (\<lambda>h. f (h div H) h) [m * H..<m * H + H]"
    by (intro map_cong) auto
  moreover have "[0..<Suc m * H] = [0..<m * H] @ [m * H..<m * H + H]"
    using upt_add_eq_append [of 0 "m * H" H] by (simp add: add.commute)
  ultimately show ?case using Suc.IH by simp
qed simp

text \<open>A row as one list over the global head index.\<close>

lemma row_of_flat:
  assumes "2 \<le> ngram_size"
  shows "row_of eos ms sizes offsets ngram_size H hist i
    = map (\<lambda>h. gram_hash eos ms hist i (h div H + 2) mod sizes ! h + offsets ! h) [0..<(ngram_size - 1) * H]"
proof -
  have "[2..<ngram_size + 1] = map (\<lambda>k. k + 2) [0..<ngram_size - 1]"
    using assms map_add_upt [of 2 "ngram_size - 1"] by (simp add: add.commute del: upt_Suc)
  then show ?thesis
    using concat_blocks [of "\<lambda>k h. gram_hash eos ms hist i (k + 2) mod sizes ! h + offsets ! h" H "ngram_size - 1"]
    by (simp add: row_of_def comp_def)
qed

section \<open>Properties\<close>

text \<open>
  C1: the four nested loops of \<open>ple_rowids\<close> compute the declarative n-gram address: for every
  valid parameter set the call returns one row per token, whose entries are, head by head, the
  EOS-segmented n-gram hash modulo the head's size plus the head's offset.
\<close>

theorem ple_rowids_functional:
  assumes "ple_params_ok ms sizes offsets ngram_size H"
  shows "ple_rowids tokens ms eos (Some sizes) (Some offsets) ngram_size H history
       = Inr (map (\<lambda>i. row_of eos ms sizes offsets ngram_size H (history_of eos history @ tokens)
               (length (history_of eos history) + i)) [0..<length tokens])"
  using assms by (rule ple_rowids_closed)

theorem ple_rowids_functional_witness:
  "ple_rowids [7, 248044, 9] [3, 5] 248044 (Some [11, 13]) (Some [0, 11]) 2 2 None
     = Inr (map (\<lambda>i. row_of 248044 [3, 5] [11, 13] [0, 11] 2 2
         (history_of 248044 None @ [7, 248044, 9]) (length (history_of 248044 None) + i)) [0..<length [7, 248044, 9 :: int]])"
  by (rule ple_rowids_functional) (simp add: ple_params_ok_def)

text \<open>
  C2: streaming. Feeding a token batch after a first one, with only the last
  \<open>ngram_size - 1\<close> tokens of everything seen so far as history, produces exactly the rows that
  one call over the concatenated batch produces, for any starting history.
\<close>

theorem ple_rowids_streaming:
  assumes "ple_params_ok ms sizes offsets ngram_size H"
  shows "ple_rowids (t1 @ t2) ms eos (Some sizes) (Some offsets) ngram_size H history
       = rbind (ple_rowids t1 ms eos (Some sizes) (Some offsets) ngram_size H history) (\<lambda>rows1.
         rbind (ple_rowids t2 ms eos (Some sizes) (Some offsets) ngram_size H
             (Some (last_n (ngram_size - 1) (history_of eos history @ t1)))) (\<lambda>rows2.
         Inr (rows1 @ rows2)))"
  using assms
  by (simp add: ple_rowids_rows_after rows_after_append rows_after_last_n history_of_def)

theorem ple_rowids_streaming_witness:
  "ple_rowids ([7, 8] @ [9]) [3, 5, 7] 0 (Some [11, 13]) (Some [0, 11]) 3 1 None
     = rbind (ple_rowids [7, 8] [3, 5, 7] 0 (Some [11, 13]) (Some [0, 11]) 3 1 None) (\<lambda>rows1.
       rbind (ple_rowids [9] [3, 5, 7] 0 (Some [11, 13]) (Some [0, 11]) 3 1
           (Some (last_n (3 - 1) (history_of 0 None @ [7, 8])))) (\<lambda>rows2.
       Inr (rows1 @ rows2)))"
  by (rule ple_rowids_streaming) (simp add: ple_params_ok_def)

text \<open>
  C19: with the sizes and offsets the module computes, the row id of every head \<open>h\<close>, the last one included, lies in the
  head's own range, the \<open>sizes ! h\<close> rows that follow those of the heads before it, and inside the padded table; the ids
  of a row increase from head to head: heads never collide and no lookup leaves the table.
\<close>

theorem ple_rowids_in_table:
  assumes ok: "ple_params_ok ms sizes offsets ngram_size H"
    and offs: "offsets = head_offsets (Some sizes)"
    and pad: "padded_vocab_size (Some sizes) d = Inr padded" "0 < d"
    and rows: "ple_rowids tokens ms eos (Some sizes) (Some offsets) ngram_size H history = Inr rows"
    and row: "row \<in> set rows"
  shows "length row = (ngram_size - 1) * H
    \<and> list_all (\<lambda>h. sum_list (take h sizes) \<le> row ! h \<and> row ! h < sum_list (take h sizes) + sizes ! h
        \<and> 0 \<le> row ! h \<and> row ! h < padded) [0..<length row]
    \<and> sorted_wrt (<) row"
proof -
  obtain hist i where r: "row = row_of eos ms sizes offsets ngram_size H hist i"
    using row rows ple_rowids_closed [OF ok, of tokens eos history] by auto
  let ?g = "\<lambda>h. gram_hash eos ms hist i (h div H + 2)"
  have row_nth: "row = map (\<lambda>h. gram_hash eos ms hist i (h div H + 2) mod sizes ! h + offsets ! h) [0..<(ngram_size - 1) * H]"
    unfolding r by (rule row_of_flat) (use ok in \<open>simp add: ple_params_ok_def\<close>)
  have pos: "\<And>s. s \<in> set sizes \<Longrightarrow> 0 < s" and ne: "sizes \<noteq> []"
    and len: "(ngram_size - 1) * H \<le> length sizes" using ok by (auto simp: ple_params_ok_def)
  have entry: "row ! k = ?g k mod sizes ! k + head_offsets (Some sizes) ! k"
      "k < length sizes" "0 \<le> ?g k mod sizes ! k" "?g k mod sizes ! k < sizes ! k"
    if "k < length row" for k
    using that len pos [of "sizes ! k"] by (auto simp: row_nth offs)
  have "sum_list (take h sizes) \<le> row ! h \<and> row ! h < sum_list (take h sizes) + sizes ! h \<and> 0 \<le> row ! h \<and> row ! h < padded"
    if h: "h < length row" for h
    using entry [OF h] head_range_in_table [OF pos entry(2) [OF h], of "?g h mod sizes ! h"]
      padded_vocab_size_bounds [OF pad ne] by (simp add: head_offsets_nth)
  moreover have "row ! h < row ! h'" if hh': "h < h'" "h' < length row" for h h'
    using entry [of h] entry [OF hh'(2)] head_ranges_disjoint [OF pos hh'(1) entry(2) [OF hh'(2)], of "?g h mod sizes ! h"] hh'
    by auto
  ultimately show ?thesis by (simp add: list_all_iff sorted_wrt_iff_nth_less row_nth)
qed

theorem ple_rowids_in_table_witness:
  "length [4, 18 :: int] = (3 - 1) * 1
   \<and> list_all (\<lambda>h. sum_list (take h [11, 13]) \<le> [4, 18 :: int] ! h \<and> [4, 18 :: int] ! h < sum_list (take h [11, 13]) + [11, 13] ! h
        \<and> 0 \<le> [4, 18 :: int] ! h \<and> [4, 18 :: int] ! h < 24) [0..<length [4, 18 :: int]]
   \<and> sorted_wrt (<) [4, 18 :: int]"
proof (rule ple_rowids_in_table)
  show "ple_params_ok [3, 5, 7] [11, 13] (head_offsets (Some [11, 13])) 3 1"
    by (simp add: ple_params_ok_def head_offsets_def)
  show "padded_vocab_size (Some [11, 13]) 8 = Inr 24" by (simp add: padded_vocab_size_def py_div_def)
  show "ple_rowids [7, 8] [3, 5, 7] 0 (Some [11, 13]) (Some (head_offsets (Some [11, 13]))) 3 1 None = Inr [[10, 19], [4, 18]]"
    by code_simp
qed simp_all

text \<open>
  \<open>nth_prime_after\<close> terminates for every start (there is always a next prime) and counts:
  the primes above \<open>p\<close> that are at most \<open>nth_prime_after p n\<close> are exactly the first \<open>n\<close>
  values of the function.
\<close>

theorem nth_prime_after_counts:
  "{q. p < q \<and> q \<le> nth_prime_after p n \<and> prime_number q} = nth_prime_after p ` {1..n}"
  by (rule primes_up_to_nth)

text \<open>
  The trial division of \<open>_is_prime\<close> (odd divisors up to the square root) decides primality.
\<close>

theorem is_prime_correct: "is_prime v \<longleftrightarrow> prime_number v"
  by (rule is_prime_iff)

end
