(* ===== verification/Bytes.thy ===== *)
theory Bytes
  imports Prelude
begin

text \<open>
  Byte strings and the fixed-width integer encodings of Python's \<open>struct\<close> and
  \<open>int.from_bytes\<close>/\<open>to_bytes\<close>: little- and big-endian, unsigned and two's complement.
  The lemmas are the round trips, the lengths and injectivity.
\<close>

type_synonym byte = "8 word"
type_synonym bytes = "byte list"

section \<open>Little- and big-endian integers\<close>

fun le_bytes :: "nat \<Rightarrow> nat \<Rightarrow> bytes" where
  "le_bytes 0 x = []"
| "le_bytes (Suc n) x = word_of_nat x # le_bytes n (x div 256)"

fun from_le :: "bytes \<Rightarrow> nat" where
  "from_le [] = 0"
| "from_le (b # bs) = unat b + 256 * from_le bs"

definition be_bytes :: "nat \<Rightarrow> nat \<Rightarrow> bytes" where
  "be_bytes n x = rev (le_bytes n x)"

definition from_be :: "bytes \<Rightarrow> nat" where
  "from_be bs = from_le (rev bs)"

text \<open>Two's complement reading of an \<open>n\<close>-byte little-endian integer.\<close>

definition from_le_signed :: "bytes \<Rightarrow> int" where
  "from_le_signed bs =
     (let v = int (from_le bs); m = 256 ^ length bs in if m \<le> 2 * v then v - m else v)"

text \<open>\<open>struct.pack("<Q", x)\<close>: out of range is a \<open>struct.error\<close>.\<close>

definition pack_u64 :: "int \<Rightarrow> bytes res" where
  "pack_u64 x = (if 0 \<le> x \<and> x < 2 ^ 64 then Inr (le_bytes 8 (nat x)) else Inl StructError)"

text \<open>\<open>x.to_bytes(4, "big")\<close>: out of range is an \<open>OverflowError\<close>.\<close>

definition to_bytes4_be :: "nat \<Rightarrow> bytes res" where
  "to_bytes4_be x = (if x < 2 ^ 32 then Inr (be_bytes 4 x) else Inl OverflowError)"

lemma length_le_bytes [simp]: "length (le_bytes n x) = n"
  by (induction n arbitrary: x) simp_all

lemma length_be_bytes [simp]: "length (be_bytes n x) = n"
  by (simp add: be_bytes_def)

lemma unat_byte_less: "unat (b :: byte) < 256"
  using unsigned_less [of b, where ?'a = nat] by simp

lemma unat_byte_of_nat: "unat (word_of_nat x :: byte) = x mod 256"
  by (simp add: unat_of_nat)

lemma from_le_le_bytes: "from_le (le_bytes n x) = x mod 256 ^ n"
proof (induction n arbitrary: x)
  case (Suc n)
  have "x mod 256 ^ Suc n = x mod 256 + 256 * (x div 256 mod 256 ^ n)"
    by (simp add: mod_mult2_eq)
  then show ?case using Suc.IH [of "x div 256"] by (simp add: unat_byte_of_nat)
qed simp

lemma from_le_bound: "from_le bs < 256 ^ length bs"
proof (induction bs)
  case (Cons b bs)
  have "unat b < 256" by (rule unat_byte_less)
  then show ?case using Cons.IH by simp
qed simp

lemma le_bytes_from_le: "le_bytes (length bs) (from_le bs) = bs"
proof (induction bs)
  case (Cons b bs)
  have b: "unat b < 256" by (rule unat_byte_less)
  have "(word_of_nat (unat b + 256 * from_le bs) :: byte) = b"
    by (rule word_unat_eq_iff [THEN iffD2]) (use b in \<open>simp only: unat_byte_of_nat mod_mult_self2 mod_less\<close>)
  moreover have "(unat b + 256 * from_le bs) div 256 = from_le bs" using b by simp
  ultimately show ?case using Cons.IH by simp
qed simp

lemma from_le_le_bytes_id: "x < 256 ^ n \<Longrightarrow> from_le (le_bytes n x) = x"
  by (simp add: from_le_le_bytes)

lemma from_be_be_bytes: "x < 256 ^ n \<Longrightarrow> from_be (be_bytes n x) = x"
  by (simp add: from_be_def be_bytes_def from_le_le_bytes)

lemma le_bytes_inj: "x < 256 ^ n \<Longrightarrow> y < 256 ^ n \<Longrightarrow> le_bytes n x = le_bytes n y \<Longrightarrow> x = y"
  by (metis from_le_le_bytes_id)

lemma from_le_inj: "length bs = length cs \<Longrightarrow> from_le bs = from_le cs \<Longrightarrow> bs = cs"
  by (metis le_bytes_from_le)

lemma pack_u64_length: "pack_u64 x = Inr bs \<Longrightarrow> length bs = 8"
  by (auto simp: pack_u64_def split: if_splits)

lemma pack_u64_from_le: "pack_u64 x = Inr bs \<Longrightarrow> int (from_le bs) = x"
  by (auto simp: pack_u64_def from_le_le_bytes split: if_splits)

lemma pack_u64_iff: "pack_u64 x = Inr bs \<longleftrightarrow> 0 \<le> x \<and> x < 2 ^ 64 \<and> bs = le_bytes 8 (nat x)"
  by (auto simp: pack_u64_def)

lemma pack_u64_inj: "pack_u64 x = Inr bs \<Longrightarrow> pack_u64 y = Inr bs \<Longrightarrow> x = y"
  by (metis pack_u64_from_le)

text \<open>The encoding of a two's complement value, and its round trip.\<close>

lemma from_le_signed_round:
  assumes "- (256 ^ n) \<le> 2 * x" "2 * x < 256 ^ n"
  shows "from_le_signed (le_bytes n (nat (x mod 256 ^ n))) = x"
proof -
  let ?m = "256 ^ n :: int"
  have m: "0 < ?m" by simp
  have r: "0 \<le> x mod ?m" "x mod ?m < ?m" using m by simp_all
  have "int (from_le (le_bytes n (nat (x mod ?m)))) = x mod ?m"
  proof -
    have "nat (x mod ?m) < 256 ^ n" using r by (simp add: nat_less_iff)
    then show ?thesis using r by (simp add: from_le_le_bytes)
  qed
  moreover have "x mod ?m = (if x < 0 then x + ?m else x)"
  proof (cases "x < 0")
    case True
    then have "(x + ?m) mod ?m = x + ?m" using assms by (intro mod_pos_pos_trivial) auto
    then show ?thesis using True by simp
  next
    case False
    then show ?thesis using assms by simp
  qed
  ultimately show ?thesis using assms by (auto simp: from_le_signed_def Let_def)
qed

section \<open>Concatenations of fixed-width pieces\<close>

lemma concat_fixed_inj:
  assumes "length xss = length yss" "\<And>x. x \<in> set xss \<Longrightarrow> length x = w"
    "\<And>y. y \<in> set yss \<Longrightarrow> length y = w" "concat xss = concat yss"
  shows "xss = yss"
  using assms
proof (induction xss yss rule: list_induct2)
  case (Cons x xs y ys)
  then have "length x = length y" by simp
  with Cons.prems(3) have "x = y" "concat xs = concat ys" by (simp_all add: append_eq_append_conv)
  with Cons show ?case by simp
qed simp

end
