(* ===== verification/PyDict.thy ===== *)
theory PyDict
  imports Prelude "HOL-Library.AList"
begin

text \<open>
  Python's insertion-ordered \<open>dict\<close> and \<open>OrderedDict\<close> as association lists without duplicate
  keys: assignment keeps the position of an existing key and appends a new one, \<open>move_to_end\<close>,
  \<open>popitem(last=False)\<close>, \<open>pop\<close>, and the eviction loops the caches of the program use.
  A cache is coherent with a source when every entry equals what the source gives for its key;
  the lemmas say which operations keep a dictionary well formed, coherent and bounded.
\<close>

type_synonym ('k, 'v) dict = "('k \<times> 'v) list"

definition dict_wf :: "('k, 'v) dict \<Rightarrow> bool" where
  "dict_wf d \<longleftrightarrow> distinct (map fst d)"

definition dict_get :: "('k, 'v) dict \<Rightarrow> 'k \<Rightarrow> 'v option" where
  "dict_get d k = map_of d k"

definition dict_set :: "'k \<Rightarrow> 'v \<Rightarrow> ('k, 'v) dict \<Rightarrow> ('k, 'v) dict" where
  "dict_set k v d = AList.update k v d"

definition dict_del :: "'k \<Rightarrow> ('k, 'v) dict \<Rightarrow> ('k, 'v) dict" where
  "dict_del k d = filter (\<lambda>p. fst p \<noteq> k) d"

definition dict_update :: "('k, 'v) dict \<Rightarrow> ('k, 'v) dict \<Rightarrow> ('k, 'v) dict" where
  "dict_update d other = fold (\<lambda>(k, v). dict_set k v) other d"

definition move_to_end :: "'k \<Rightarrow> ('k, 'v) dict \<Rightarrow> ('k, 'v) dict" where
  "move_to_end k d = (case map_of d k of None \<Rightarrow> d | Some v \<Rightarrow> dict_del k d @ [(k, v)])"

definition popitem_first :: "('k, 'v) dict \<Rightarrow> ('k, 'v) dict res" where
  "popitem_first d = (case d of [] \<Rightarrow> Inl KeyError | p # ps \<Rightarrow> Inr ps)"

text \<open>\<open>while len(d) > cap: d.popitem(last=False)\<close>, and the number of evictions it makes.\<close>

function evict :: "nat \<Rightarrow> ('k, 'v) dict \<Rightarrow> ('k, 'v) dict" where
  "evict cap d = (if cap < length d then evict cap (tl d) else d)"
  by pat_completeness auto
termination
  by (relation "measure (\<lambda>(cap, d). length d)") auto

declare evict.simps [simp del]

definition coherent :: "('k \<Rightarrow> 'v) \<Rightarrow> ('k, 'v) dict \<Rightarrow> bool" where
  "coherent src d \<longleftrightarrow> (\<forall>(k, v) \<in> set d. v = src k)"

named_theorems dict_inv "operations that keep a dictionary well formed or coherent"

lemma evict_closed: "evict cap d = drop (length d - cap) d"
proof (induction cap d rule: evict.induct)
  case (1 cap d)
  show ?case
  proof (cases "cap < length d")
    case True
    then obtain p ps where d: "d = p # ps" by (cases d) auto
    have "evict cap d = evict cap ps" using True by (subst evict.simps) (simp add: d)
    also have "\<dots> = drop (length ps - cap) ps" using "1" [OF True] by (simp add: d)
    also have "\<dots> = drop (length d - cap) d" using True by (simp add: d Suc_diff_le)
    finally show ?thesis .
  qed (simp add: evict.simps [of cap d])
qed

lemma length_evict: "length (evict cap d) = min cap (length d)"
  by (simp add: evict_closed)

lemma dict_get_set [simp]:
  "dict_get (dict_set k v d) k' = (if k' = k then Some v else dict_get d k')"
  by (simp add: dict_get_def dict_set_def update_conv')

lemma dict_get_del [simp]:
  "dict_get (dict_del k d) k' = (if k' = k then None else dict_get d k')"
  by (induction d) (auto simp: dict_get_def dict_del_def)

lemma dict_get_Nil [simp]: "dict_get [] k = None"
  by (simp add: dict_get_def)

lemma dict_get_in: "dict_get d k = Some v \<Longrightarrow> (k, v) \<in> set d"
  by (simp add: dict_get_def map_of_SomeD)

lemma dict_get_None_iff: "dict_get d k = None \<longleftrightarrow> k \<notin> fst ` set d"
  by (simp add: dict_get_def map_of_eq_None_iff)

lemma dict_get_Some_iff: "dict_wf d \<Longrightarrow> dict_get d k = Some v \<longleftrightarrow> (k, v) \<in> set d"
  by (simp add: dict_get_def dict_wf_def)

lemma keys_dict_set: "fst ` set (dict_set k v d) = insert k (fst ` set d)"
  using dom_update [of k v d] by (simp add: dict_set_def)

lemma keys_dict_del: "fst ` set (dict_del k d) = fst ` set d - {k}"
  by (auto simp: dict_del_def)

lemma dict_wf_Nil [simp, dict_inv]: "dict_wf []"
  by (simp add: dict_wf_def)

lemma dict_wf_set [dict_inv]: "dict_wf d \<Longrightarrow> dict_wf (dict_set k v d)"
  unfolding dict_wf_def dict_set_def by (rule distinct_update)

lemma dict_wf_del [dict_inv]: "dict_wf d \<Longrightarrow> dict_wf (dict_del k d)"
  by (simp add: dict_wf_def dict_del_def distinct_map_filter)

lemma dict_wf_drop [dict_inv]: "dict_wf d \<Longrightarrow> dict_wf (drop n d)"
  by (simp add: dict_wf_def drop_map [symmetric])

lemma dict_wf_evict [dict_inv]: "dict_wf d \<Longrightarrow> dict_wf (evict cap d)"
  by (simp add: evict_closed dict_wf_drop)

lemma dict_wf_move_to_end [dict_inv]: "dict_wf d \<Longrightarrow> dict_wf (move_to_end k d)"
  using dict_wf_del [of d k] keys_dict_del [of k d]
  by (auto simp: move_to_end_def dict_wf_def split: option.split)

lemma dict_wf_update [dict_inv]: "dict_wf d \<Longrightarrow> dict_wf (dict_update d other)"
  unfolding dict_update_def by (induction other arbitrary: d) (auto simp: dict_wf_set)

lemma dict_get_move_to_end [simp]: "dict_get (move_to_end k d) k' = dict_get d k'"
proof (cases "map_of d k")
  case None
  then show ?thesis by (simp add: move_to_end_def)
next
  case (Some v)
  have "dict_get (dict_del k d @ [(k, v)]) k' = dict_get d k'"
    using dict_get_del [of k d k'] Some by (auto simp: dict_get_def map_add_def split: option.split)
  then show ?thesis using Some by (simp add: move_to_end_def)
qed

lemma keys_move_to_end [simp]: "fst ` set (move_to_end k d) = fst ` set d"
  by (metis (no_types) dict_get_None_iff dict_get_move_to_end subsetI subset_antisym option.distinct(1))

lemma length_dict_del: "dict_wf d \<Longrightarrow> dict_get d k = Some v \<Longrightarrow> Suc (length (dict_del k d)) = length d"
proof (induction d)
  case (Cons p d)
  show ?case
  proof (cases "fst p = k")
    case True
    with Cons.prems have "k \<notin> fst ` set d" by (auto simp: dict_wf_def)
    then have "dict_del k d = d" by (auto simp: dict_del_def filter_id_conv)
    with True show ?thesis by (simp add: dict_del_def)
  next
    case False
    with Cons.prems have "dict_wf d" "dict_get d k = Some v" by (cases p; simp add: dict_wf_def dict_get_def)+
    with Cons.IH False show ?thesis by (simp add: dict_del_def)
  qed
qed simp

lemma length_move_to_end: "dict_wf d \<Longrightarrow> length (move_to_end k d) = length d"
  using length_dict_del [of d k] by (auto simp: move_to_end_def dict_get_def split: option.split)

lemma length_dict_set:
  "length (dict_set k v d) = (if k \<in> fst ` set d then length d else Suc (length d))"
  unfolding dict_set_def by (induction d) auto

lemma dict_set_new: "dict_get d k = None \<Longrightarrow> dict_set k v d = d @ [(k, v)]"
  unfolding dict_set_def dict_get_def by (induction d) (auto split: if_splits)


lemma dict_update_Nil [simp]: "dict_update d [] = d"
  by (simp add: dict_update_def)

lemma dict_update_Cons [simp]: "dict_update d (p # other) = dict_update (dict_set (fst p) (snd p) d) other"
  by (simp add: dict_update_def case_prod_beta)

lemma keys_dict_update: "fst ` set (dict_update d other) = fst ` set d \<union> fst ` set other"
proof (induction other arbitrary: d)
  case (Cons p other)
  show ?case unfolding dict_update_Cons Cons.IH keys_dict_set by auto
qed simp

lemma dict_get_Cons: "dict_get (p # d) k = (if fst p = k then Some (snd p) else dict_get d k)"
  by (simp add: dict_get_def)

lemma dict_get_update:
  "dict_wf other \<Longrightarrow>
   dict_get (dict_update d other) k = (case dict_get other k of None \<Rightarrow> dict_get d k | Some v \<Rightarrow> Some v)"
proof (induction other arbitrary: d)
  case (Cons p other)
  then have "dict_wf other" "dict_get other (fst p) = None"
    by (auto simp: dict_wf_def dict_get_None_iff)
  then show ?case
    by (auto simp: Cons.IH dict_get_Cons split: option.split)
qed simp

subsection \<open>Coherence of a cache with its source\<close>

lemma coherent_Nil [simp, dict_inv]: "coherent src []"
  by (simp add: coherent_def)

lemma coherentD: "coherent src d \<Longrightarrow> dict_get d k = Some v \<Longrightarrow> v = src k"
  by (auto simp: coherent_def dest: dict_get_in)

lemma coherent_in: "coherent src d \<Longrightarrow> (k, v) \<in> set d \<Longrightarrow> v = src k"
  by (auto simp: coherent_def)

lemma coherent_subset: "coherent src d \<Longrightarrow> set d' \<subseteq> set d \<Longrightarrow> coherent src d'"
  by (auto simp: coherent_def)

lemma coherent_drop [dict_inv]: "coherent src d \<Longrightarrow> coherent src (drop n d)"
  by (rule coherent_subset) (auto dest: in_set_dropD)

lemma coherent_evict [dict_inv]: "coherent src d \<Longrightarrow> coherent src (evict cap d)"
  by (simp add: evict_closed coherent_drop)

lemma coherent_del [dict_inv]: "coherent src d \<Longrightarrow> coherent src (dict_del k d)"
  by (rule coherent_subset) (auto simp: dict_del_def)

lemma coherent_move_to_end [dict_inv]: "coherent src d \<Longrightarrow> coherent src (move_to_end k d)"
  by (rule coherent_subset) (auto simp: move_to_end_def dict_del_def dest: map_of_SomeD split: option.split)

lemma set_dict_set_subset: "set (dict_set k v d) \<subseteq> insert (k, v) (set d)"
  unfolding dict_set_def by (induction d) auto

lemma coherent_set [dict_inv]: "coherent src d \<Longrightarrow> v = src k \<Longrightarrow> coherent src (dict_set k v d)"
  using set_dict_set_subset [of k v d] by (fastforce simp: coherent_def)

lemma coherent_Cons: "coherent src (p # d) \<longleftrightarrow> snd p = src (fst p) \<and> coherent src d"
  by (cases p) (auto simp: coherent_def)

lemma coherent_append: "coherent src (d @ d') \<longleftrightarrow> coherent src d \<and> coherent src d'"
  by (auto simp: coherent_def)

lemma coherent_update [dict_inv]: "coherent src d \<Longrightarrow> coherent src other \<Longrightarrow> coherent src (dict_update d other)"
  by (induction other arbitrary: d) (simp_all add: coherent_Cons coherent_set)

end
