(* ===== verification/RowStore.thy ===== *)
theory RowStore
  imports Bytes "HOL-Library.Product_Lexorder"
begin

text \<open>
  The native readers behind the Python classes \<open>Store\<close> and \<open>View\<close>
  (\<open>crates/engramdb-pyo3/src/lib.rs\<close>, \<open>engramdb-io/src/batch.rs\<close>, \<open>engramdb-io/src/view.rs\<close>):
  the sharded row file read through one cached page per shard, and the fixed-slot view file.
  The locale \<open>row_store\<close> is the contract the Python layers rely on: a fetch of valid rows is
  the concatenation of the rows in request order.  Both readers are interpretations of it.

  Files are immutable byte strings here (the store is read-only), a short read at the end of
  a file returns what is there, and 64-bit offsets are not wrapped (a file is shorter
  than \<open>2 ^ 64\<close> bytes).
\<close>

section \<open>The contract of a row source\<close>

locale row_store =
  fixes fetch :: "int list \<Rightarrow> bytes res"
    and valid :: "int \<Rightarrow> bool"
    and row :: "int \<Rightarrow> bytes"
    and width :: nat
  assumes fetch_rows: "list_all valid rs \<Longrightarrow> fetch rs = Inr (concat (map row rs))"
    and row_length: "valid r \<Longrightarrow> length (row r) = width"
begin

lemma fetch_length: "list_all valid rs \<Longrightarrow> fetch rs = Inr bs \<Longrightarrow> length bs = length rs * width"
proof -
  assume "list_all valid rs" "fetch rs = Inr bs"
  moreover have "list_all valid rs \<Longrightarrow> length (concat (map row rs)) = length (map row rs) * width"
    by (rule length_concat_const) (auto simp: list_all_iff row_length)
  ultimately show ?thesis by (simp add: fetch_rows)
qed

lemma fetch_append:
  "list_all valid rs \<Longrightarrow> list_all valid ss \<Longrightarrow>
   fetch (rs @ ss) = rbind (fetch rs) (\<lambda>a. rbind (fetch ss) (\<lambda>b. Inr (a @ b)))"
  by (simp add: fetch_rows)

lemma fetch_slice:
  assumes "list_all valid rs" "fetch rs = Inr bs" "i < length rs"
  shows "py_slice i width bs = row (rs ! i)"
proof -
  have "py_slice i width (concat (map row rs)) = map row rs ! i"
    using assms by (intro py_slice_concat) (auto simp: list_all_iff row_length)
  then show ?thesis using assms by (simp add: fetch_rows)
qed

lemma fetch_chunks:
  assumes "list_all valid rs" "fetch rs = Inr bs" "0 < width"
  shows "chunks width bs = map row rs"
  using assms by (auto simp: fetch_rows list_all_iff row_length intro!: chunks_concat)

lemma fetch_inj_rows:
  assumes "list_all valid rs" "list_all valid ss" "length rs = length ss" "fetch rs = fetch ss"
  shows "map row rs = map row ss"
  using assms by (intro concat_fixed_inj [of _ _ width]) (auto simp: fetch_rows list_all_iff row_length)

end

section \<open>The sharded row store\<close>

definition PAGE :: nat where "PAGE = 4096"

record native_store =
  ns_files :: "bytes list"
  ns_rows_per_shard :: nat
  ns_width :: nat

text \<open>\<open>Store::new\<close>: one file per shard must exist, else an \<open>IOError\<close>.\<close>

definition store_open :: "(nat \<Rightarrow> bytes option) \<Rightarrow> nat \<Rightarrow> nat \<Rightarrow> nat \<Rightarrow> native_store res" where
  "store_open dir shards rows_per_shard width =
     rmap (\<lambda>fs. \<lparr>ns_files = fs, ns_rows_per_shard = rows_per_shard, ns_width = width\<rparr>)
       (rmapM (\<lambda>i. case dir i of None \<Rightarrow> Inl OSError | Some f \<Rightarrow> Inr f) [0..<shards])"

definition total_rows :: "native_store \<Rightarrow> nat" where
  "total_rows s = length (ns_files s) * ns_rows_per_shard s"

definition pread :: "bytes \<Rightarrow> nat \<Rightarrow> nat \<Rightarrow> bytes" where
  "pread f off n = take n (drop off f)"

definition overlay :: "bytes \<Rightarrow> bytes \<Rightarrow> bytes" where
  "overlay buf bs = bs @ drop (length bs) buf"

text \<open>One shard of \<open>gather_pp\<close>: the page buffer is kept between keys and reread when the page changes.\<close>

fun gather_rows :: "bytes \<Rightarrow> nat \<Rightarrow> nat \<Rightarrow> (nat \<times> nat) list \<Rightarrow> nat option \<Rightarrow> bytes \<Rightarrow> (nat \<times> bytes) list" where
  "gather_rows f rb rps [] last_page page = []"
| "gather_rows f rb rps ((k, oi) # pairs) last_page page =
     (let byte_off = (k mod rps) * rb;
          page_id = byte_off - byte_off mod PAGE;
          page = (if last_page \<noteq> Some page_id then overlay page (pread f page_id (PAGE + rb)) else page);
          in_page = byte_off - page_id;
          row = (if in_page + rb \<le> PAGE then take rb (drop in_page page)
                 else overlay (replicate rb 0) (pread f byte_off rb))
      in (oi, row) # gather_rows f rb rps pairs (Some page_id) page)"

definition gather_tasks :: "nat \<Rightarrow> nat list \<Rightarrow> (nat \<times> (nat \<times> nat) list) list" where
  "gather_tasks rps keys =
     (let pairs = zip keys [0..<length keys]
      in map (\<lambda>s. (s, sort (filter (\<lambda>p. fst p div rps = s) pairs)))
           (sort (remdups (map (\<lambda>k. k div rps) keys))))"

definition write_rows :: "(nat \<times> bytes) list \<Rightarrow> bytes list \<Rightarrow> bytes list" where
  "write_rows results out = fold (\<lambda>(oi, row) out. out[oi := row]) results out"

text \<open>No key (\<open>div_ceil\<close> by zero workers) and zero rows per shard divide by zero and panic.\<close>

definition gather_pp :: "native_store \<Rightarrow> nat list \<Rightarrow> bytes res" where
  "gather_pp s keys =
     (let rb = ns_width s; rps = ns_rows_per_shard s
      in if keys = [] \<or> rps = 0 then Inl PanicException
         else rbind (rmapM (\<lambda>(shard, pairs).
                  if shard < length (ns_files s)
                  then Inr (gather_rows (ns_files s ! shard) rb rps pairs None (replicate (PAGE + 2 * rb) 0))
                  else Inl PanicException) (gather_tasks rps keys)) (\<lambda>results.
              Inr (concat (write_rows (concat results) (replicate (length keys) (replicate rb 0))))))"

text \<open>\<open>Store.fetch\<close>: PyO3 converts the ids to \<open>u64\<close> first, an empty request reads nothing.\<close>

definition to_u64 :: "int \<Rightarrow> nat res" where
  "to_u64 r = (if 0 \<le> r \<and> r < 2 ^ 64 then Inr (nat r) else Inl OverflowError)"

definition store_fetch :: "native_store \<Rightarrow> int list \<Rightarrow> bytes res" where
  "store_fetch s rowids =
     rbind (rmapM to_u64 rowids) (\<lambda>ids. if ids = [] then Inr [] else gather_pp s ids)"

definition store_fetch_one :: "native_store \<Rightarrow> int \<Rightarrow> bytes res" where
  "store_fetch_one s rowid = store_fetch s [rowid]"

text \<open>The specification: the bytes of a row, and the rows the files hold completely.\<close>

definition store_row :: "native_store \<Rightarrow> int \<Rightarrow> bytes" where
  "store_row s r =
     pread (ns_files s ! (nat r div ns_rows_per_shard s))
       (nat r mod ns_rows_per_shard s * ns_width s) (ns_width s)"

definition store_valid :: "native_store \<Rightarrow> int \<Rightarrow> bool" where
  "store_valid s r \<longleftrightarrow>
     0 \<le> r \<and> r < 2 ^ 64 \<and> nat r < total_rows s \<and>
     (nat r mod ns_rows_per_shard s + 1) * ns_width s
       \<le> length (ns_files s ! (nat r div ns_rows_per_shard s))"

lemma length_overlay: "length bs \<le> length buf \<Longrightarrow> length (overlay buf bs) = length buf"
  by (simp add: overlay_def)

lemma pread_full: "off + n \<le> length f \<Longrightarrow> length (pread f off n) = n"
  by (simp add: pread_def)

lemma overlay_full: "length bs = length buf \<Longrightarrow> overlay buf bs = bs"
  by (simp add: overlay_def)

lemma overlay_read:
  assumes "i + n \<le> PAGE" "p + i + n \<le> length f"
  shows "take n (drop i (overlay page (pread f p (PAGE + rb)))) = pread f (p + i) n"
proof -
  have "take n (drop i (overlay page (pread f p (PAGE + rb)))) = take n (drop i (pread f p (PAGE + rb)))"
    using assms by (simp add: overlay_def pread_def)
  also have "\<dots> = pread f (p + i) n"
    using assms by (simp add: pread_def drop_take add.commute min_def)
  finally show ?thesis .
qed

lemma gather_rows_correct:
  assumes "\<And>k oi. (k, oi) \<in> set pairs \<Longrightarrow> (k mod rps + 1) * rb \<le> length f"
    and "\<And>p. last_page = Some p \<Longrightarrow> \<exists>page0. page = overlay page0 (pread f p (PAGE + rb))"
  shows "gather_rows f rb rps pairs last_page page = map (\<lambda>(k, oi). (oi, pread f (k mod rps * rb) rb)) pairs"
  using assms
proof (induction f rb rps pairs last_page page rule: gather_rows.induct)
  case (2 f rb rps k oi pairs last_page page)
  define byte_off where "byte_off = k mod rps * rb"
  define page_id where "page_id = byte_off - byte_off mod PAGE"
  define page' where "page' = (if last_page \<noteq> Some page_id then overlay page (pread f page_id (PAGE + rb)) else page)"
  define in_page where "in_page = byte_off - page_id"
  have fits: "byte_off + rb \<le> length f" using "2.prems"(1) [of k oi] by (simp add: byte_off_def)
  have le: "page_id + in_page = byte_off" by (simp add: page_id_def in_page_def)
  obtain page0 where page0: "page' = overlay page0 (pread f page_id (PAGE + rb))"
    using "2.prems"(2) [of page_id] by (cases "last_page = Some page_id") (auto simp: page'_def)
  have row: "(if in_page + rb \<le> PAGE then take rb (drop in_page page')
      else overlay (replicate rb 0) (pread f byte_off rb)) = pread f byte_off rb"
  proof (cases "in_page + rb \<le> PAGE")
    case True
    then show ?thesis using overlay_read [of in_page rb page_id f page0 rb] fits le by (simp add: page0 add.assoc)
  next
    case False
    then show ?thesis using fits by (simp add: overlay_full pread_full)
  qed
  have "gather_rows f rb rps pairs (Some page_id) page' = map (\<lambda>(k, oi). (oi, pread f (k mod rps * rb) rb)) pairs"
    using "2.prems"(1) page0
    by (intro "2.IH" [of byte_off page_id page' in_page])
      (auto simp: byte_off_def page_id_def page'_def in_page_def)
  moreover have "gather_rows f rb rps ((k, oi) # pairs) last_page page
      = (oi, if in_page + rb \<le> PAGE then take rb (drop in_page page')
             else overlay (replicate rb 0) (pread f byte_off rb)) # gather_rows f rb rps pairs (Some page_id) page'"
    by (simp only: gather_rows.simps Let_def byte_off_def page_id_def page'_def in_page_def)
  ultimately show ?case using row by (simp add: byte_off_def)
qed simp

lemma write_rows_Nil [simp]: "write_rows [] out = out"
  by (simp add: write_rows_def)

lemma write_rows_Cons [simp]: "write_rows (p # ps) out = write_rows ps (out[fst p := snd p])"
  by (simp add: write_rows_def case_prod_beta)

lemma length_write_rows [simp]: "length (write_rows ps out) = length out"
  by (induction ps arbitrary: out) simp_all

text \<open>Writing rows that agree with one function, each slot at least once, gives that function.\<close>

lemma write_rows_nth:
  assumes "\<forall>(i, row) \<in> set ps. row = f i" "j < length out"
  shows "write_rows ps out ! j = (if j \<in> fst ` set ps then f j else out ! j)"
  using assms by (induction ps arbitrary: out) (auto simp: nth_list_update)

lemma gather_tasks_sound:
  assumes "(s, pairs) \<in> set (gather_tasks rps keys)" "(k, i) \<in> set pairs"
  shows "i < length keys \<and> k = keys ! i \<and> s = k div rps"
  using assms by (auto simp: gather_tasks_def Let_def in_set_zip)

lemma gather_tasks_complete:
  assumes "i < length keys"
  shows "\<exists>pairs. (keys ! i div rps, pairs) \<in> set (gather_tasks rps keys) \<and> (keys ! i, i) \<in> set pairs"
proof -
  have "(keys ! i, i) \<in> set (zip keys [0..<length keys])"
    using assms by (auto simp: in_set_zip intro!: exI [of _ i])
  moreover have "keys ! i div rps \<in> (\<lambda>k. k div rps) ` set keys" using assms by auto
  ultimately show ?thesis by (force simp: gather_tasks_def Let_def image_iff)
qed

lemma gather_pp_correct:
  assumes "\<And>k. k \<in> set keys \<Longrightarrow> store_valid s (int k)" and False: "keys \<noteq> []"
  shows "gather_pp s keys = Inr (concat (map (\<lambda>k. store_row s (int k)) keys))"
proof -
  let ?rps = "ns_rows_per_shard s" and ?w = "ns_width s"
  have rps: "0 < ?rps"
    using assms(1) [of "hd keys"] False by (cases "?rps = 0") (auto simp: store_valid_def total_rows_def)
  define task where "task = (\<lambda>(shard, pairs :: (nat \<times> nat) list).
    map (\<lambda>(k, oi). (oi, pread (ns_files s ! shard) (k mod ?rps * ?w) ?w)) pairs)"
  have shard: "k div ?rps < length (ns_files s)" if "k \<in> set keys" for k
    using assms(1) [OF that] rps by (auto simp: store_valid_def total_rows_def div_less_iff_less_mult)
  have run: "(\<lambda>(shard, pairs). if shard < length (ns_files s)
      then Inr (gather_rows (ns_files s ! shard) ?w ?rps pairs None (replicate (PAGE + 2 * ?w) 0))
      else Inl PanicException) t = Inr (task t)" if t: "t \<in> set (gather_tasks ?rps keys)" for t
  proof -
    obtain sh pairs where tt: "t = (sh, pairs)" by (cases t)
    have sound: "\<And>k i. (k, i) \<in> set pairs \<Longrightarrow> k \<in> set keys \<and> sh = k div ?rps"
      using gather_tasks_sound t tt by (metis nth_mem)
    have "sh \<in> (\<lambda>k. k div ?rps) ` set keys" using t tt by (auto simp: gather_tasks_def Let_def)
    then have "sh < length (ns_files s)" using shard by auto
    moreover have "gather_rows (ns_files s ! sh) ?w ?rps pairs None (replicate (PAGE + 2 * ?w) 0) = task t"
      unfolding task_def tt prod.case
      by (rule gather_rows_correct) (use sound assms in \<open>auto simp: store_valid_def\<close>)
    ultimately show ?thesis by (simp add: tt)
  qed
  define results where "results = concat (map task (gather_tasks ?rps keys))"
  have agree: "\<forall>(i, row) \<in> set results. row = store_row s (int (keys ! i))"
    using gather_tasks_sound by (fastforce simp: results_def task_def store_row_def)
  have cover: "j \<in> fst ` set results" if "j < length keys" for j
    using gather_tasks_complete [OF that, of ?rps] by (force simp: results_def task_def)
  have "write_rows results (replicate (length keys) (replicate ?w 0)) = map (\<lambda>k. store_row s (int k)) keys"
    using write_rows_nth [OF agree] cover by (intro nth_equalityI) auto
  moreover note rmapM_Inr [where xs = "gather_tasks ?rps keys", OF run]
  ultimately show ?thesis using rps False by (simp add: gather_pp_def Let_def results_def)
qed

lemma store_fetch_correct:
  assumes "list_all (store_valid s) rs"
  shows "store_fetch s rs = Inr (concat (map (store_row s) rs))"
proof (cases "rs = []")
  case False
  have ids: "rmapM to_u64 rs = Inr (map nat rs)"
    using assms by (intro rmapM_Inr) (auto simp: to_u64_def list_all_iff store_valid_def)
  have "gather_pp s (map nat rs) = Inr (concat (map (\<lambda>k. store_row s (int k)) (map nat rs)))"
    using assms False by (intro gather_pp_correct) (auto simp: list_all_iff store_valid_def)
  also have "map (\<lambda>k. store_row s (int k)) (map nat rs) = map (store_row s) rs"
    using assms by (auto simp: list_all_iff store_valid_def)
  finally show ?thesis using False ids by (simp add: store_fetch_def)
qed (simp add: store_fetch_def)

lemma store_row_length: "store_valid s r \<Longrightarrow> length (store_row s r) = ns_width s"
  by (simp add: store_row_def store_valid_def pread_full)

interpretation native: row_store "store_fetch s" "store_valid s" "store_row s" "ns_width s" for s
  by unfold_locales (simp_all add: store_fetch_correct store_row_length)

text \<open>A small store of four rows of two bytes, for the examples.\<close>

definition demo_store :: native_store where
  "demo_store = \<lparr>ns_files = [[1, 2, 3, 4], [5, 6, 7, 8]], ns_rows_per_shard = 2, ns_width = 2\<rparr>"

lemma demo_store_simps [simp]:
  "ns_width demo_store = 2"
  "store_valid demo_store 0" "store_valid demo_store 1" "store_valid demo_store 2" "store_valid demo_store 3"
  by (simp_all add: demo_store_def store_valid_def total_rows_def)

section \<open>The view reader\<close>

record view =
  vw_file :: bytes
  vw_slot_bytes :: nat
  vw_count :: nat

text \<open>\<open>ViewReader::open\<close>: the record count is bounded by the file, and by the manifest when it has one.\<close>

definition view_open :: "bytes \<Rightarrow> nat \<Rightarrow> nat \<Rightarrow> view" where
  "view_open f slot_bytes manifest_grans =
     (let count_file = length f div slot_bytes
      in \<lparr>vw_file = f, vw_slot_bytes = slot_bytes,
          vw_count = (if 0 < manifest_grans then min count_file manifest_grans else count_file)\<rparr>)"

definition read_record :: "view \<Rightarrow> int \<Rightarrow> bytes res" where
  "read_record v index =
     rbind (to_u64 index) (\<lambda>i.
       if vw_count v \<le> i then Inl OSError
       else if length (vw_file v) < (i + 1) * vw_slot_bytes v then Inl OSError
       else Inr (pread (vw_file v) (i * vw_slot_bytes v) (vw_slot_bytes v)))"

text \<open>\<open>read_records\<close>: every index is checked before anything is read.\<close>

definition read_records :: "view \<Rightarrow> int list \<Rightarrow> bytes res" where
  "read_records v indices =
     rbind (rmapM to_u64 indices) (\<lambda>is.
       if \<exists>i \<in> set is. vw_count v \<le> i then Inl OSError
       else rmap concat (rmapM (read_record v) indices))"

definition view_valid :: "view \<Rightarrow> int \<Rightarrow> bool" where
  "view_valid v i \<longleftrightarrow>
     0 \<le> i \<and> i < 2 ^ 64 \<and> nat i < vw_count v \<and> vw_count v * vw_slot_bytes v \<le> length (vw_file v)"

definition view_row :: "view \<Rightarrow> int \<Rightarrow> bytes" where
  "view_row v i = pread (vw_file v) (nat i * vw_slot_bytes v) (vw_slot_bytes v)"

lemma view_open_wf: "vw_count (view_open f w g) * vw_slot_bytes (view_open f w g) \<le> length f"
proof -
  have "min (length f div w) g * w \<le> length f div w * w" by (intro mult_right_mono) auto
  also have "\<dots> \<le> length f" by (rule div_times_less_eq_dividend)
  finally show ?thesis by (auto simp: view_open_def Let_def)
qed

lemma view_valid_fits: "view_valid v i \<Longrightarrow> (nat i + 1) * vw_slot_bytes v \<le> length (vw_file v)"
proof -
  assume v: "view_valid v i"
  then have "(nat i + 1) * vw_slot_bytes v \<le> vw_count v * vw_slot_bytes v"
    by (intro mult_right_mono) (auto simp: view_valid_def)
  with v show ?thesis by (simp add: view_valid_def)
qed

lemma read_record_correct: "view_valid v i \<Longrightarrow> read_record v i = Inr (view_row v i)"
  using view_valid_fits [of v i] by (auto simp: read_record_def view_row_def view_valid_def to_u64_def)

lemma read_records_correct:
  assumes "list_all (view_valid v) is"
  shows "read_records v is = Inr (concat (map (view_row v) is))"
proof -
  have ids: "rmapM to_u64 is = Inr (map nat is)"
    using assms by (intro rmapM_Inr) (auto simp: to_u64_def list_all_iff view_valid_def)
  have "rmapM (read_record v) is = Inr (map (view_row v) is)"
    using assms by (intro rmapM_Inr read_record_correct) (simp add: list_all_iff)
  then show ?thesis using ids assms by (auto simp: read_records_def list_all_iff view_valid_def)
qed

lemma view_row_length: "view_valid v i \<Longrightarrow> length (view_row v i) = vw_slot_bytes v"
  using view_valid_fits [of v i] by (simp add: view_row_def pread_def)

interpretation nview: row_store "read_records v" "view_valid v" "view_row v" "vw_slot_bytes v" for v
  by unfold_locales (simp_all add: read_records_correct view_row_length)

section \<open>Properties\<close>

text \<open>
  C4: the sharded, page-cached gather returns exactly the requested rows, in request order and
  with repetitions, for every request of rows the shard files hold: grouping by shard, sorting,
  the page buffer and the rows that straddle a page do not show in the result.
\<close>

theorem store_fetch_functional:
  assumes "list_all (store_valid s) rs"
  shows "store_fetch s rs = Inr (concat (map (store_row s) rs))"
  using assms by (rule native.fetch_rows)

theorem store_fetch_functional_witness:
  "store_fetch demo_store [3, 0, 3]
     = Inr (concat (map (store_row demo_store) [3, 0, 3]))"
  by (rule store_fetch_functional) simp

text \<open>
  Reading view records returns the requested slots in order when every index is in range,
  where the range is the one \<open>ViewReader::open\<close> derives from the file size and the manifest.
\<close>

theorem view_records_functional:
  assumes "v = view_open f slot_bytes grans" "\<And>i. i \<in> set is \<Longrightarrow> 0 \<le> i \<and> i < int (vw_count v) \<and> i < 2 ^ 64"
  shows "read_records v is = Inr (concat (map (\<lambda>i. take slot_bytes (drop (nat i * slot_bytes) f)) is))"
proof -
  have "list_all (view_valid v) is"
    using assms(2) view_open_wf [of f slot_bytes grans]
    by (auto simp: list_all_iff view_valid_def assms(1) view_open_def Let_def nat_less_iff)
  then show ?thesis
    by (simp add: nview.fetch_rows view_row_def [abs_def] pread_def) (simp add: assms(1) view_open_def Let_def)
qed

theorem view_records_functional_witness:
  "read_records (view_open [1, 2, 3, 4, 5, 6, 7] 2 0) [2, 0]
     = Inr (concat (map (\<lambda>i. take 2 (drop (nat i * 2) [1, 2, 3, 4, 5, 6, 7])) [2, 0]))"
  by (rule view_records_functional) (auto simp: view_open_def)

end
