(* ===== verification/PrimeTable.thy ===== *)
theory PrimeTable
  imports PleMath
begin

text \<open>
  The sixteen default head sizes evaluated: the primes from \<open>PLE_BASE\<close> on.  A sieve checks all
  sixteen candidates against one odd divisor at a time (one remainder of \<open>PLE_BASE\<close> per
  divisor, up to 4471, whose successor squares above the last candidate).  They give the exact
  size of the default table and the bounds the 32-bit row ids of the native code rely on.
\<close>

definition table_gaps :: "int list" where
  "table_gaps = [3, 23, 33, 47, 59, 63, 69, 77, 81, 93, 107, 147, 153, 159, 161, 171]"

definition divisor_ok :: "int \<Rightarrow> bool" where
  "divisor_ok d =
     (let r = (- 20000000) mod d
      in if 171 < r then True else list_all (\<lambda>k. k mod d \<noteq> r) table_gaps)"

lemma divisor_ok_not_dvd:
  assumes "divisor_ok d" "0 < d" "k \<in> set table_gaps"
  shows "\<not> d dvd 20000000 + k"
proof
  assume "d dvd 20000000 + k"
  then have "d dvd k - (- 20000000)" by (simp add: add.commute)
  then have eq: "k mod d = (- 20000000) mod d" by (simp only: mod_eq_dvd_iff)
  moreover have "0 \<le> k" "k \<le> 171" using assms(3) by (auto simp: table_gaps_def)
  moreover have "k mod d \<le> k" using \<open>0 \<le> k\<close> assms(2) by (simp add: zmod_le_nonneg_dividend)
  ultimately have "\<not> 171 < (- 20000000) mod d" by linarith
  then show False using assms eq by (auto simp: divisor_ok_def Let_def list_all_iff)
qed

lemma divisors_ok_0: "list_all (\<lambda>i. divisor_ok (2 * i + 3)) [0..300]" by code_simp
lemma divisors_ok_1: "list_all (\<lambda>i. divisor_ok (2 * i + 3)) [301..600]" by code_simp
lemma divisors_ok_2: "list_all (\<lambda>i. divisor_ok (2 * i + 3)) [601..900]" by code_simp
lemma divisors_ok_3: "list_all (\<lambda>i. divisor_ok (2 * i + 3)) [901..1200]" by code_simp
lemma divisors_ok_4: "list_all (\<lambda>i. divisor_ok (2 * i + 3)) [1201..1500]" by code_simp
lemma divisors_ok_5: "list_all (\<lambda>i. divisor_ok (2 * i + 3)) [1501..1800]" by code_simp
lemma divisors_ok_6: "list_all (\<lambda>i. divisor_ok (2 * i + 3)) [1801..2100]" by code_simp
lemma divisors_ok_7: "list_all (\<lambda>i. divisor_ok (2 * i + 3)) [2101..2234]" by code_simp

lemma divisors_ok: "0 \<le> i \<Longrightarrow> i \<le> 2234 \<Longrightarrow> divisor_ok (2 * i + 3)"
  using divisors_ok_0 divisors_ok_1 divisors_ok_2 divisors_ok_3 divisors_ok_4 divisors_ok_5
    divisors_ok_6 divisors_ok_7
  unfolding list_all_iff set_upto
  by (cases "i \<le> 300"; cases "i \<le> 600"; cases "i \<le> 900"; cases "i \<le> 1200"; cases "i \<le> 1500";
      cases "i \<le> 1800"; cases "i \<le> 2100") simp_all

lemma table_candidate_prime:
  assumes "k \<in> set table_gaps"
  shows "is_prime (20000000 + k)"
proof -
  have b: "0 \<le> k" "k \<le> 171" using assms by (auto simp: table_gaps_def)
  have "\<not> (3 + 2 * int j) dvd 20000000 + k" if "(3 + 2 * int j) * (3 + 2 * int j) \<le> 20000000 + k" for j
  proof -
    have "int j \<le> 2234"
    proof (rule ccontr)
      assume "\<not> int j \<le> 2234"
      then have "4473 * 4473 \<le> (3 + 2 * int j) * (3 + 2 * int j)" by (intro mult_mono) auto
      with that b show False by simp
    qed
    then have "divisor_ok (2 * int j + 3)" by (intro divisors_ok) auto
    then show ?thesis using divisor_ok_not_dvd [of "2 * int j + 3" k] assms by (simp add: add.commute)
  qed
  then have "trial_division (20000000 + k) 3" by (simp add: trial_division_iff)
  moreover have "(20000000 + k) mod 2 \<noteq> 0" using assms by (auto simp: table_gaps_def)
  ultimately show ?thesis using b by (simp add: is_prime_def)
qed

text \<open>Every other number of the range, with a proper divisor.\<close>

definition table_composites :: "(int \<times> int) list" where
  "table_composites =
    [(0, 2), (1, 3), (2, 2), (4, 2), (5, 5), (6, 2), (7, 3), (8, 2), (9, 61), (10, 2),
     (11, 173), (12, 2), (13, 3), (14, 2), (15, 5), (16, 2), (17, 37), (18, 2), (19, 3), (20, 2),
     (21, 233), (22, 2), (24, 2), (25, 3), (26, 2), (27, 19), (28, 2), (29, 7), (30, 2), (31, 3),
     (32, 2), (34, 2), (35, 5), (36, 2), (37, 3), (38, 2), (39, 347), (40, 2), (41, 17), (42, 2),
     (43, 3), (44, 2), (45, 5), (46, 2), (48, 2), (49, 3), (50, 2), (51, 47), (52, 2), (53, 29),
     (54, 2), (55, 3), (56, 2), (57, 7), (58, 2), (60, 2), (61, 3), (62, 2), (64, 2), (65, 5),
     (66, 2), (67, 3), (68, 2), (70, 2), (71, 7), (72, 2), (73, 3), (74, 2), (75, 5), (76, 2),
     (78, 2), (79, 3), (80, 2), (82, 2), (83, 109), (84, 2), (85, 3), (86, 2), (87, 23), (88, 2),
     (89, 3217), (90, 2), (91, 3), (92, 2), (94, 2), (95, 5), (96, 2), (97, 3), (98, 2), (99, 7),
     (100, 2), (101, 11), (102, 2), (103, 3), (104, 2), (105, 5), (106, 2), (108, 2), (109, 3), (110, 2),
     (111, 29), (112, 2), (113, 7), (114, 2), (115, 3), (116, 2), (117, 43), (118, 2), (119, 107), (120, 2),
     (121, 3), (122, 2), (123, 11), (124, 2), (125, 5), (126, 2), (127, 3), (128, 2), (129, 307), (130, 2),
     (131, 61), (132, 2), (133, 3), (134, 2), (135, 5), (136, 2), (137, 509), (138, 2), (139, 3), (140, 2),
     (141, 7), (142, 2), (143, 17), (144, 2), (145, 3), (146, 2), (148, 2), (149, 13), (150, 2), (151, 3),
     (152, 2), (154, 2), (155, 5), (156, 2), (157, 3), (158, 2), (160, 2), (162, 2), (163, 3), (164, 2),
     (165, 5), (166, 2), (167, 11), (168, 2), (169, 3), (170, 2)]"

lemma composites_have_divisors:
  "list_all (\<lambda>(k, d). (20000000 + k) mod d = 0 \<and> 2 \<le> d \<and> d < 20000000) table_composites"
  by code_simp

lemma composites_cover: "list_all (\<lambda>k. k \<in> set table_gaps \<or> k \<in> fst ` set table_composites) [0..171]"
  by code_simp

lemma table_composite:
  assumes "0 \<le> k" "k \<le> 171" "k \<notin> set table_gaps"
  shows "\<not> is_prime (20000000 + k)"
proof -
  have "k \<in> fst ` set table_composites" using composites_cover assms unfolding list_all_iff set_upto by (metis atLeastAtMost_iff)
  then obtain d where "(k, d) \<in> set table_composites" by auto
  then have d: "(20000000 + k) mod d = 0" "2 \<le> d" "d < 20000000"
    using composites_have_divisors by (auto simp: list_all_iff)
  then have "d dvd 20000000 + k" by (simp add: dvd_eq_mod_eq_0)
  moreover have "d \<in> {2..<20000000 + k}" using d(2,3) assms(1) by simp
  ultimately show ?thesis unfolding is_prime_iff prime_number_def by blast
qed

lemma next_prime_from_eqI:
  assumes "p \<le> q" "is_prime q" "\<And>x. p \<le> x \<Longrightarrow> x < q \<Longrightarrow> \<not> is_prime x"
  shows "next_prime_from p = q"
proof (rule linorder_cases [of "next_prime_from p" q])
  assume "next_prime_from p < q"
  then show ?thesis using next_prime_from_spec [of p] assms(3) by blast
next
  assume "q < next_prime_from p"
  then show ?thesis using next_prime_from_spec [of p] assms(1,2) by blast
qed

lemma next_from_table:
  assumes "0 \<le> k" "k \<le> g" "g \<in> set table_gaps" "\<forall>x \<in> set table_gaps. k \<le> x \<longrightarrow> g \<le> x"
  shows "next_prime_from (20000000 + k) = 20000000 + g"
proof (rule next_prime_from_eqI)
  show "is_prime (20000000 + g)" using assms(3) by (rule table_candidate_prime)
  fix x assume x: "20000000 + k \<le> x" "x < 20000000 + g"
  have "g \<le> 171" using assms(3) by (auto simp: table_gaps_def)
  then have "\<not> is_prime (20000000 + (x - 20000000))"
    using x assms by (intro table_composite) auto
  then show "\<not> is_prime x" by simp
qed (use assms in simp)

lemma next_prime_table:
    "next_prime_from 20000000 = 20000003"
    "next_prime_from 20000004 = 20000023"
    "next_prime_from 20000024 = 20000033"
    "next_prime_from 20000034 = 20000047"
    "next_prime_from 20000048 = 20000059"
    "next_prime_from 20000060 = 20000063"
    "next_prime_from 20000064 = 20000069"
    "next_prime_from 20000070 = 20000077"
    "next_prime_from 20000078 = 20000081"
    "next_prime_from 20000082 = 20000093"
    "next_prime_from 20000094 = 20000107"
    "next_prime_from 20000108 = 20000147"
    "next_prime_from 20000148 = 20000153"
    "next_prime_from 20000154 = 20000159"
    "next_prime_from 20000160 = 20000161"
    "next_prime_from 20000162 = 20000171"
  subgoal by (rule next_from_table [of 0 3, simplified]) (auto simp: table_gaps_def)
  subgoal by (rule next_from_table [of 4 23, simplified]) (auto simp: table_gaps_def)
  subgoal by (rule next_from_table [of 24 33, simplified]) (auto simp: table_gaps_def)
  subgoal by (rule next_from_table [of 34 47, simplified]) (auto simp: table_gaps_def)
  subgoal by (rule next_from_table [of 48 59, simplified]) (auto simp: table_gaps_def)
  subgoal by (rule next_from_table [of 60 63, simplified]) (auto simp: table_gaps_def)
  subgoal by (rule next_from_table [of 64 69, simplified]) (auto simp: table_gaps_def)
  subgoal by (rule next_from_table [of 70 77, simplified]) (auto simp: table_gaps_def)
  subgoal by (rule next_from_table [of 78 81, simplified]) (auto simp: table_gaps_def)
  subgoal by (rule next_from_table [of 82 93, simplified]) (auto simp: table_gaps_def)
  subgoal by (rule next_from_table [of 94 107, simplified]) (auto simp: table_gaps_def)
  subgoal by (rule next_from_table [of 108 147, simplified]) (auto simp: table_gaps_def)
  subgoal by (rule next_from_table [of 148 153, simplified]) (auto simp: table_gaps_def)
  subgoal by (rule next_from_table [of 154 159, simplified]) (auto simp: table_gaps_def)
  subgoal by (rule next_from_table [of 160 161, simplified]) (auto simp: table_gaps_def)
  subgoal by (rule next_from_table [of 162 171, simplified]) (auto simp: table_gaps_def)
  done

definition table_sizes :: "int list" where
  "table_sizes = map (\<lambda>k. 20000000 + k) table_gaps"

lemma head_vocab_sizes_default: "head_vocab_sizes PLE_BASE PLE_HEADS = table_sizes"
  by (simp add: head_vocab_sizes_def PLE_BASE_def PLE_HEADS_def table_sizes_def table_gaps_def
      eval_nat_numeral next_prime_table)

lemma sum_table_sizes: "sum_list table_sizes = 320001446"
  by (simp add: table_sizes_def table_gaps_def)

section \<open>Properties\<close>

text \<open>
  The default table closes: the sixteen default head sizes sum to 320001446 and the
  padded table has 320001536 rows, which is the shard grid of 128 files of 2500012 rows.
\<close>

theorem default_table_size:
  "sum_list (head_vocab_sizes PLE_BASE PLE_HEADS) = 320001446
   \<and> padded_vocab_size None PLE_DIVISOR = Inr (128 * 2500012)"
  by (simp add: padded_vocab_size_def sizes_or_def head_vocab_sizes_default sum_table_sizes
      PLE_DIVISOR_def py_div_def)

end
