(* ===== verification/Keygen.thy ===== *)
theory Keygen
  imports PrimeTable
begin

text \<open>
  The native row addressing (\<open>crates/engramdb-keygen/src/lib.rs\<close>: \<open>PleSpec\<close>, 64-bit wrapping hashes
  and 32-bit tokens and row ids) and the Python entry points that choose between it and the
  reference (\<open>python/engramdb/__init__.py\<close>: \<open>abi_version\<close>, \<open>rowids_for_seq\<close>,
  \<open>rowids_for_seq_with_history\<close>, \<open>__getattr__\<close>).  The lemmas show that the words do not wrap
  for tokens below \<open>native_token_limit\<close>, so that both paths give the same rows.
\<close>

type_synonym u32 = "32 word"
type_synonym u64 = "64 word"

section \<open>The native specification\<close>

record ple_spec =
  sp_multipliers :: "u64 list"
  sp_divisors :: "u64 list"
  sp_offsets :: "u64 list"
  sp_eos :: u32

fun acc_offsets :: "u64 \<Rightarrow> u64 list \<Rightarrow> u64 list" where
  "acc_offsets acc [] = []"
| "acc_offsets acc (s # ss) = acc # acc_offsets (acc + s) ss"

definition spec_of :: "int list \<Rightarrow> int list \<Rightarrow> int \<Rightarrow> ple_spec" where
  "spec_of multipliers sizes eos =
     \<lparr>sp_multipliers = map word_of_int multipliers, sp_divisors = map word_of_int sizes,
      sp_offsets = acc_offsets 0 (map word_of_int sizes), sp_eos = word_of_int eos\<rparr>"

definition real_spec :: ple_spec where
  "real_spec = spec_of DEFAULT_MULTIPLIERS (head_vocab_sizes PLE_BASE PLE_HEADS) PLE_EOS"

definition native_mixed :: "ple_spec \<Rightarrow> u32 list list \<Rightarrow> nat \<Rightarrow> nat \<Rightarrow> u64" where
  "native_mixed spec shifted pos ngram_order =
     fold (\<lambda>k mixed. mixed XOR (ucast (shifted ! k ! pos) * sp_multipliers spec ! k))
       [1..<ngram_order] (ucast (shifted ! 0 ! pos) * sp_multipliers spec ! 0)"

definition native_position_row :: "ple_spec \<Rightarrow> u32 list list \<Rightarrow> nat \<Rightarrow> u32 list" where
  "native_position_row spec shifted pos =
     concat (map (\<lambda>ngram_order.
       let mixed = native_mixed spec shifted pos ngram_order
       in map (\<lambda>h. let gi = (ngram_order - 2) * PLE_HEADS_PER_NGRAM + h
            in ucast (mixed mod sp_divisors spec ! gi + sp_offsets spec ! gi)) [0..<PLE_HEADS_PER_NGRAM])
       [2, 3])"

definition native_rowids :: "ple_spec \<Rightarrow> u32 list \<Rightarrow> u32 list \<Rightarrow> u32 list list" where
  "native_rowids spec history tokens =
     (let hist = history @ tokens;
          shifted = map (\<lambda>sh. shift_right_ignore_eos hist sh (sp_eos spec)) [0..<PLE_NGRAM_SIZE];
          ids_all = map (native_position_row spec shifted) [0..<length hist]
      in drop (length hist - length tokens) ids_all)"

section \<open>The entry points\<close>

definition PLE_QWEN_V1 :: int where "PLE_QWEN_V1 = 1"
definition ENG_DEEPSEEK_V1 :: int where "ENG_DEEPSEEK_V1 = 2"

definition abi_version :: "int option \<Rightarrow> int" where
  "abi_version native = (case native of Some v \<Rightarrow> v | None \<Rightarrow> 1)"

definition to_u32 :: "int \<Rightarrow> u32 res" where
  "to_u32 x = (if 0 \<le> x \<and> x < 2 ^ 32 then Inr (word_of_int x) else Inl OverflowError)"

definition native_rowids_for_seq :: "int list \<Rightarrow> int list \<Rightarrow> int \<Rightarrow> int list list res" where
  "native_rowids_for_seq history tokens ple_spec =
     rbind (rmapM to_u32 history) (\<lambda>h. rbind (rmapM to_u32 tokens) (\<lambda>t.
       if ple_spec \<noteq> 1 then Inl NotImplementedError
       else Inr (map (map uint) (native_rowids real_spec h t))))"

text \<open>The multiplier lists a discovery dictionary may carry, in the order they are tried.\<close>

definition multiplier_keys :: "string list" where
  "multiplier_keys = [''layer_multipliers'', ''rowid_multipliers'', ''multipliers'']"

fun first_present :: "(string \<Rightarrow> 'a option) \<Rightarrow> string list \<Rightarrow> 'a option" where
  "first_present info [] = None"
| "first_present info (k # ks) = (case info k of Some v \<Rightarrow> Some v | None \<Rightarrow> first_present info ks)"

definition rowids_for_seq ::
  "bool \<Rightarrow> int list \<Rightarrow> int \<Rightarrow> int list option \<Rightarrow> (string \<Rightarrow> int list option) option \<Rightarrow> int list list res" where
  "rowids_for_seq has_native tokens ple_spec multipliers info =
     (if ple_spec \<noteq> PLE_QWEN_V1 then Inl NotImplementedError
      else let info_multipliers = (case info of None \<Rightarrow> None | Some d \<Rightarrow> first_present d multiplier_keys);
               custom = (multipliers \<noteq> None \<or> info_multipliers \<noteq> None)
        in if \<not> custom \<and> has_native
           then native_rowids_for_seq [PLE_EOS, PLE_EOS] tokens ple_spec
           else let effective = (case multipliers of Some m \<Rightarrow> m | None \<Rightarrow>
                      (case info_multipliers of Some m \<Rightarrow> m | None \<Rightarrow> DEFAULT_MULTIPLIERS))
             in ple_rowids tokens effective PLE_EOS None None PLE_NGRAM_SIZE PLE_HEADS_PER_NGRAM None)"

definition rowids_for_seq_with_history :: "bool \<Rightarrow> int list \<Rightarrow> int list \<Rightarrow> int \<Rightarrow> int list list res" where
  "rowids_for_seq_with_history has_native history tokens ple_spec =
     (if ple_spec \<noteq> PLE_QWEN_V1 then Inl NotImplementedError
      else if has_native then native_rowids_for_seq history tokens ple_spec
      else ple_rowids tokens DEFAULT_MULTIPLIERS PLE_EOS None None PLE_NGRAM_SIZE PLE_HEADS_PER_NGRAM
             (Some history))"

text \<open>The lazy attributes of the package: the submodule each name is taken from.\<close>

definition lazy_modules :: "(string \<times> string) list" where
  "lazy_modules =
    [(''DiskPleNGramEmbedding'', ''ple_adapter''),
     (''PleMemory'', ''ple_memory''), (''PleSequence'', ''ple_memory''),
     (''PleSequenceStore'', ''ple_memory''), (''PleStep'', ''ple_memory''),
     (''ple_memory_from_discovery'', ''ple_memory''),
     (''BundleManifest'', ''bundle''), (''bundle_manifest_from_path'', ''bundle''),
     (''TargetReaderRegistry'', ''target_reader''), (''ReaderSpec'', ''target_reader''),
     (''PleMemoryAdapter'', ''adapter''), (''TargetReaderHook'', ''adapter''),
     (''install_target_reader_hook'', ''adapter''), (''install_bundle_adapter'', ''adapter''),
     (''install_vllm_target_reader'', ''adapter''), (''install_sglang_target_reader'', ''adapter'')]"

definition getattr :: "string \<Rightarrow> (string \<times> string) res" where
  "getattr name =
     (case map_of lazy_modules name of Some m \<Rightarrow> Inr (m, name) | None \<Rightarrow> Inl AttributeError)"

section \<open>Words that do not wrap\<close>

definition native_token_limit :: int where "native_token_limit = 778226"

lemma uint_fold_xor:
  "uint (fold (\<lambda>k mixed. mixed XOR f k) ks s) = fold (\<lambda>k mixed. mixed XOR uint (f k)) ks (uint (s :: u64))"
  by (induction ks arbitrary: s) (simp_all add: unsigned_xor_eq)

lemma uint_ucast_up: "uint (ucast (x :: u32) :: u64) = uint x"
  by (rule uint_up_ucast) (simp add: is_up)

lemma uint_mult_no_wrap:
  "uint (x :: u32) * uint m < 2 ^ 64 \<Longrightarrow> uint (ucast x * m :: u64) = uint x * uint m"
  by (simp add: uint_word_ariths(3) uint_ucast_up)

lemma shifted_token_uint:
  "i < length hist \<Longrightarrow> shifted_token (uint eos) (map uint hist) s i = uint (shifted_token (eos :: u32) hist s i)"
  by (rule shifted_token_map) (simp_all add: inj_on_def word_uint_eq_iff)

lemma shifted_token_in: "i < length hist \<Longrightarrow> shifted_token eos hist s i \<in> insert eos (set hist)"
  by (auto simp: shifted_token_def)

lemma acc_offsets_closed:
  "acc_offsets acc (map word_of_int ss) = map (\<lambda>i. acc + word_of_int (sum_list (take i ss))) [0..<length ss]"
proof (induction ss arbitrary: acc)
  case (Cons s ss)
  have "[0..<length (s # ss)] = 0 # map Suc [0..<length ss]"
    by (simp add: map_Suc_upt upt_conv_Cons del: upt_Suc)
  then show ?case by (simp add: Cons.IH comp_def add.assoc del: upt_Suc)
qed simp

text \<open>
  The hypotheses under which one native specification computes what the reference computes:
  no product of a token and a multiplier reaches \<open>2 ^ 64\<close>, and the table has fewer than
  \<open>2 ^ 32\<close> rows.
\<close>

definition spec_fits :: "int list \<Rightarrow> int list \<Rightarrow> int \<Rightarrow> u32 list \<Rightarrow> bool" where
  "spec_fits ms sizes eos hist \<longleftrightarrow>
     length ms = 3 \<and> length sizes = 16 \<and> (\<forall>s \<in> set sizes. 0 < s) \<and> sum_list sizes < 2 ^ 32
     \<and> 0 \<le> eos \<and> eos < 2 ^ 32
     \<and> (\<forall>m \<in> set ms. 0 \<le> m \<and> m < 2 ^ 64 \<and> (\<forall>x \<in> insert (word_of_int eos) (set hist). uint x * m < 2 ^ 64))"

lemma uint_word_of_int_id: "0 \<le> x \<Longrightarrow> x < 2 ^ LENGTH('a::len) \<Longrightarrow> uint (word_of_int x :: 'a word) = x"
  by (simp add: unsigned_of_int take_bit_int_eq_self)

lemma native_mixed_closed:
  assumes "spec_fits ms sizes eos hist" "i < length hist" "n \<le> 3" "1 \<le> n"
  shows "uint (native_mixed (spec_of ms sizes eos)
      (map (\<lambda>sh. shift_right_ignore_eos hist sh (word_of_int eos)) [0..<3]) i n)
    = gram_hash eos ms (map uint hist) i n"
proof -
  have eos: "uint (word_of_int eos :: u32) = eos"
    using assms(1) by (intro uint_word_of_int_id) (auto simp: spec_fits_def)
  have prod: "uint (ucast (shifted_token (word_of_int eos) hist k i) * (word_of_int (ms ! k) :: u64))
      = shifted_token eos (map uint hist) k i * ms ! k" if "k < 3" for k
  proof -
    let ?x = "shifted_token (word_of_int eos :: u32) hist k i"
    have x: "?x \<in> insert (word_of_int eos) (set hist)" using assms(2) by (rule shifted_token_in)
    have "ms ! k \<in> set ms" using that assms(1) by (auto simp: spec_fits_def)
    then have m: "0 \<le> ms ! k" "ms ! k < 2 ^ 64" "uint ?x * ms ! k < 2 ^ 64"
      using assms(1) x by (auto simp: spec_fits_def)
    then have "uint (word_of_int (ms ! k) :: u64) = ms ! k" by (intro uint_word_of_int_id) auto
    with m have "uint (ucast ?x * (word_of_int (ms ! k) :: u64)) = uint ?x * ms ! k"
      by (subst uint_mult_no_wrap) simp_all
    also have "uint ?x = shifted_token eos (map uint hist) k i"
      using shifted_token_uint [OF assms(2), of "word_of_int eos" k] eos by simp
    finally show ?thesis .
  qed
  have len: "length ms = 3" using assms(1) by (simp add: spec_fits_def)
  have step: "sp_multipliers (spec_of ms sizes eos) ! k = word_of_int (ms ! k)" if "k < 3" for k
    using that len by (simp add: spec_of_def)
  show ?thesis
    unfolding native_mixed_def gram_hash_def uint_fold_xor
    by (intro fold_cong) (use assms(2,3) in \<open>auto simp: shift_right_ignore_eos_closed step prod\<close>)
qed

lemma offset_word:
  assumes "length sizes = 16" "\<forall>s \<in> set sizes. 0 < s" "sum_list sizes < 2 ^ 32" "h < 16"
  shows "uint (acc_offsets 0 (map word_of_int sizes) ! h) = head_offsets (Some sizes) ! h"
proof -
  have nn: "\<And>s. s \<in> set sizes \<Longrightarrow> 0 \<le> s" using assms(2) by (auto intro: less_imp_le)
  have "sum_list (take h sizes) \<le> sum_list (take (length sizes) sizes)"
    using assms nn by (intro sum_take_mono) auto
  moreover have "0 \<le> sum_list (take h sizes)"
    using nn by (intro sum_list_nonneg) (auto dest: in_set_takeD)
  ultimately show ?thesis
    using assms by (simp add: acc_offsets_closed head_offsets_nth uint_word_of_int_id)
qed

lemma native_rid:
  assumes "0 < n" "n + off < 2 ^ 32" "0 \<le> off" "uint (sz :: u64) = n" "uint (o' :: u64) = off"
  shows "uint (ucast (mixed mod sz + o') :: u32) = uint mixed mod n + off"
proof -
  have r: "0 \<le> uint mixed mod n" "uint mixed mod n < n" using assms(1) by simp_all
  have "uint (mixed mod sz + o') = uint mixed mod n + off"
  proof -
    have "uint mixed mod n + off < 2 ^ 32" using r assms by linarith
    then have "uint mixed mod n + off < 2 ^ 64" by (rule less_trans) simp
    moreover have "0 \<le> uint mixed mod n + off" using r assms by simp
    ultimately have "(uint mixed mod n + off) mod 2 ^ 64 = uint mixed mod n + off"
      by (intro mod_pos_pos_trivial)
    then show ?thesis using assms(4,5) by (simp add: uint_word_ariths(1) uint_mod)
  qed
  then have "uint (ucast (mixed mod sz + o') :: u32) = (uint mixed mod n + off) mod 2 ^ 32"
    by (simp add: unsigned_ucast_eq take_bit_eq_mod)
  also have "\<dots> = uint mixed mod n + off" using r assms by (intro mod_pos_pos_trivial) linarith+
  finally show ?thesis .
qed

lemma native_position_row_closed:
  assumes fits: "spec_fits ms sizes eos hist" and i: "i < length hist"
  shows "map uint (native_position_row (spec_of ms sizes eos)
      (map (\<lambda>sh. shift_right_ignore_eos hist sh (word_of_int eos)) [0..<3]) i)
    = row_of eos ms sizes (head_offsets (Some sizes)) 3 8 (map uint hist) i"
proof -
  let ?spec = "spec_of ms sizes eos"
  let ?sh = "map (\<lambda>sh. shift_right_ignore_eos hist sh (word_of_int eos)) [0..<3]"
  have sizes: "length sizes = 16" "\<forall>s \<in> set sizes. 0 < s" "sum_list sizes < 2 ^ 32"
    using fits by (auto simp: spec_fits_def)
  have rid: "uint (ucast (native_mixed ?spec ?sh i n mod sp_divisors ?spec ! h + sp_offsets ?spec ! h) :: u32)
      = gram_hash eos ms (map uint hist) i n mod sizes ! h + head_offsets (Some sizes) ! h"
    if "h < 16" "1 \<le> n" "n \<le> 3" for h n
  proof -
    have pos: "0 < sizes ! h" using that sizes by auto
    have le: "0 \<le> sizes ! h - 1 + head_offsets (Some sizes) ! h
        \<and> sizes ! h - 1 + head_offsets (Some sizes) ! h < sum_list sizes"
      by (rule head_range_in_table) (use sizes that pos in auto)
    have off: "0 \<le> head_offsets (Some sizes) ! h"
      using head_range_in_table [of sizes h 0] sizes that pos by auto
    have "sizes ! h < 2 ^ 32" using le off sizes by linarith
    then have "uint (word_of_int (sizes ! h) :: u64) = sizes ! h"
      using pos by (intro uint_word_of_int_id) auto
    then show ?thesis
      using that sizes pos le off offset_word [OF sizes that(1)] native_mixed_closed [OF fits i, of n]
      by (subst native_rid [where n = "sizes ! h" and off = "head_offsets (Some sizes) ! h"])
        (auto simp: spec_of_def)
  qed
  show ?thesis
    using rid by (simp add: native_position_row_def row_of_def Let_def PLE_HEADS_PER_NGRAM_def
        upt_conv_Cons eval_nat_numeral del: upt_Suc)
qed

lemma native_rowids_closed:
  assumes "spec_fits ms sizes eos (history @ tokens)"
  shows "map (map uint) (native_rowids (spec_of ms sizes eos) history tokens)
    = rows_after eos ms sizes (head_offsets (Some sizes)) 3 8 (map uint history) (map uint tokens)"
proof -
  let ?h = "history @ tokens"
  let ?sh = "map (\<lambda>sh. shift_right_ignore_eos ?h sh (word_of_int eos)) [0..<3]"
  have "sp_eos (spec_of ms sizes eos) = word_of_int eos" by (simp add: spec_of_def)
  moreover have "drop (length history) (map (native_position_row (spec_of ms sizes eos) ?sh) [0..<length ?h])
      = map (\<lambda>i. native_position_row (spec_of ms sizes eos) ?sh (length history + i)) [0..<length tokens]"
    by (auto intro!: nth_equalityI)
  ultimately have "native_rowids (spec_of ms sizes eos) history tokens
      = map (\<lambda>i. native_position_row (spec_of ms sizes eos) ?sh (length history + i)) [0..<length tokens]"
    unfolding native_rowids_def Let_def PLE_NGRAM_SIZE_def by simp
  then show ?thesis
    using native_position_row_closed [OF assms] by (simp add: rows_after_def)
qed

lemma ple_rowids_defaults:
  "ple_rowids t ms eos None None n H history
     = ple_rowids t ms eos (Some (head_vocab_sizes PLE_BASE PLE_HEADS))
         (Some (head_offsets (Some (head_vocab_sizes PLE_BASE PLE_HEADS)))) n H history"
proof -
  have ne: "head_vocab_sizes PLE_BASE PLE_HEADS \<noteq> []" by (simp add: head_vocab_sizes_def PLE_HEADS_def)
  then have "head_offsets (Some (head_vocab_sizes PLE_BASE PLE_HEADS)) \<noteq> []"
    by (metis length_0_conv length_head_offsets)
  with ne show ?thesis by (simp add: ple_rowids_def sizes_or_def Let_def)
qed

lemma rmapM_to_u32: "\<forall>x \<in> set xs. 0 \<le> x \<and> x < 2 ^ 32 \<Longrightarrow> rmapM to_u32 xs = Inr (map word_of_int xs)"
  by (rule rmapM_Inr) (simp add: to_u32_def)

lemma map_uint_word_of_int: "\<forall>x \<in> set xs. 0 \<le> x \<and> x < 2 ^ 32 \<Longrightarrow> map (\<lambda>x. uint (word_of_int x :: u32)) xs = xs"
  by (rule map_idI) (simp add: uint_word_of_int_id)

lemma spec_fits_real:
  assumes "\<forall>x \<in> set hist. 0 \<le> x \<and> x < native_token_limit"
  shows "spec_fits DEFAULT_MULTIPLIERS (head_vocab_sizes PLE_BASE PLE_HEADS) PLE_EOS (map word_of_int hist)"
proof -
  have tok: "uint (word_of_int x :: u32) = x" if "x \<in> insert PLE_EOS (set hist)" for x
    using that assms by (intro uint_word_of_int_id) (auto simp: native_token_limit_def PLE_EOS_def)
  have "0 \<le> x \<and> x \<le> 778225" if "x \<in> insert PLE_EOS (set hist)" for x
    using that assms by (auto simp: native_token_limit_def PLE_EOS_def)
  then have "x * m < 2 ^ 64" if "x \<in> insert PLE_EOS (set hist)" "m \<in> set DEFAULT_MULTIPLIERS" for x m
    using that by (fastforce simp: DEFAULT_MULTIPLIERS_def)
  then have "\<forall>m \<in> set DEFAULT_MULTIPLIERS. 0 \<le> m \<and> m < 2 ^ 64
      \<and> (\<forall>x \<in> insert (word_of_int PLE_EOS) (set (map word_of_int hist)). uint (x :: u32) * m < 2 ^ 64)"
    using tok by (auto simp: DEFAULT_MULTIPLIERS_def)
  moreover have "\<forall>s \<in> set (head_vocab_sizes PLE_BASE PLE_HEADS). 0 < s"
    using head_vocab_sizes_pos by fastforce
  moreover have "sum_list (head_vocab_sizes PLE_BASE PLE_HEADS) < 2 ^ 32"
    by (simp add: head_vocab_sizes_default sum_table_sizes)
  moreover have "length DEFAULT_MULTIPLIERS = 3" "length (head_vocab_sizes PLE_BASE PLE_HEADS) = 16"
    "0 \<le> PLE_EOS" "PLE_EOS < 2 ^ 32"
    by (simp_all add: DEFAULT_MULTIPLIERS_def PLE_HEADS_def PLE_EOS_def)
  ultimately show ?thesis unfolding spec_fits_def by blast
qed

lemma ple_params_ok_default:
  "ple_params_ok DEFAULT_MULTIPLIERS (head_vocab_sizes PLE_BASE PLE_HEADS)
     (head_offsets (Some (head_vocab_sizes PLE_BASE PLE_HEADS))) PLE_NGRAM_SIZE PLE_HEADS_PER_NGRAM"
proof -
  let ?s = "head_vocab_sizes PLE_BASE PLE_HEADS"
  have l: "length ?s = 16" by (simp add: PLE_HEADS_def)
  then have ne: "?s \<noteq> []" by (metis list.size(3) zero_neq_numeral)
  then have "length (head_offsets (Some ?s)) = 16" using l by simp
  moreover from this have "head_offsets (Some ?s) \<noteq> []" by (metis list.size(3) zero_neq_numeral)
  moreover have "\<forall>s \<in> set ?s. 0 < s" using head_vocab_sizes_pos by fastforce
  ultimately show ?thesis
    using l ne by (simp add: ple_params_ok_def PLE_NGRAM_SIZE_def PLE_HEADS_PER_NGRAM_def DEFAULT_MULTIPLIERS_def)
qed

lemma native_rowids_for_seq_reference:
  assumes "\<forall>x \<in> set (history @ tokens). 0 \<le> x \<and> x < native_token_limit"
  shows "native_rowids_for_seq history tokens 1
    = ple_rowids tokens DEFAULT_MULTIPLIERS PLE_EOS None None PLE_NGRAM_SIZE PLE_HEADS_PER_NGRAM (Some history)"
proof -
  have lim: "native_token_limit < 2 ^ 32" by (simp add: native_token_limit_def)
  have small: "\<forall>x \<in> set history. 0 \<le> x \<and> x < 2 ^ 32" "\<forall>x \<in> set tokens. 0 \<le> x \<and> x < 2 ^ 32"
    using assms lim by (auto intro: less_trans)
  have fits: "spec_fits DEFAULT_MULTIPLIERS (head_vocab_sizes PLE_BASE PLE_HEADS) PLE_EOS
      (map word_of_int history @ map word_of_int tokens)"
    using spec_fits_real [OF assms] by simp
  have "native_rowids_for_seq history tokens 1
      = Inr (rows_after PLE_EOS DEFAULT_MULTIPLIERS (head_vocab_sizes PLE_BASE PLE_HEADS)
          (head_offsets (Some (head_vocab_sizes PLE_BASE PLE_HEADS))) 3 8 history tokens)"
    unfolding native_rowids_for_seq_def rmapM_to_u32 [OF small(1)] rmapM_to_u32 [OF small(2)]
    using native_rowids_closed [OF fits] map_uint_word_of_int [OF small(1)] map_uint_word_of_int [OF small(2)]
    by (simp add: real_spec_def comp_def)
  also have "\<dots> = ple_rowids tokens DEFAULT_MULTIPLIERS PLE_EOS None None PLE_NGRAM_SIZE PLE_HEADS_PER_NGRAM (Some history)"
    unfolding ple_rowids_defaults
    using ple_rowids_rows_after [OF ple_params_ok_default, of tokens PLE_EOS "Some history"]
    by (simp add: history_of_def PLE_NGRAM_SIZE_def PLE_HEADS_PER_NGRAM_def)
  finally show ?thesis .
qed

section \<open>Properties\<close>

text \<open>
  C3: the native path and the Python reference agree: with a history and tokens below
  \<open>native_token_limit\<close> (which every vocabulary of the model satisfies) having the native module
  or not does not change what \<open>rowids_for_seq_with_history\<close> returns, so the 64-bit hash never
  wraps and the 32-bit row ids never truncate.
\<close>

theorem native_reference_agree:
  assumes "\<forall>x \<in> set (history @ tokens). 0 \<le> x \<and> x < native_token_limit"
  shows "rowids_for_seq_with_history True history tokens ple_spec
       = rowids_for_seq_with_history False history tokens ple_spec"
  using native_rowids_for_seq_reference [OF assms]
  by (simp add: rowids_for_seq_with_history_def PLE_QWEN_V1_def)

theorem native_reference_agree_witness:
  "rowids_for_seq_with_history True [248044, 7] [778225, 0] 1
     = rowids_for_seq_with_history False [248044, 7] [778225, 0] 1"
  by (rule native_reference_agree) (simp add: native_token_limit_def)

text \<open>
  \<open>rowids_for_seq\<close> with the default multipliers starts every sequence behind EOS padding:
  it returns what \<open>rowids_for_seq_with_history\<close> returns for a history of two EOS tokens, on
  either path, and passing the default multipliers explicitly changes nothing.
\<close>

theorem rowids_for_seq_cold_start:
  assumes "\<forall>x \<in> set tokens. 0 \<le> x \<and> x < native_token_limit"
    and "multipliers = None \<or> multipliers = Some DEFAULT_MULTIPLIERS"
  shows "rowids_for_seq has_native tokens ple_spec multipliers None
       = rowids_for_seq_with_history has_native' [PLE_EOS, PLE_EOS] tokens ple_spec"
proof -
  have "\<forall>x \<in> set ([PLE_EOS, PLE_EOS] @ tokens). 0 \<le> x \<and> x < native_token_limit"
    using assms(1) by (auto simp: PLE_EOS_def native_token_limit_def)
  note native = native_rowids_for_seq_reference [OF this]
  have "ple_rowids tokens ms PLE_EOS None None n H None
      = ple_rowids tokens ms PLE_EOS None None n H (Some [PLE_EOS, PLE_EOS])" for ms n H
    by (simp add: ple_rowids_def)
  with native assms(2) show ?thesis
    by (auto simp: rowids_for_seq_def rowids_for_seq_with_history_def PLE_QWEN_V1_def)
qed

theorem rowids_for_seq_cold_start_witness:
  "rowids_for_seq True [5, 6] 1 None None = rowids_for_seq_with_history False [PLE_EOS, PLE_EOS] [5, 6] 1"
  by (rule rowids_for_seq_cold_start) (simp_all add: native_token_limit_def)

end
