(* ===== verification/Tensor.thy ===== *)
theory Tensor
  imports Bytes Complex_Main
begin

text \<open>
  What the Python code uses of PyTorch, as a parameter: a tensor is its shape and its elements
  in row-major order, and the record \<open>torch\<close> holds the operations the code calls
  (\<open>frombuffer\<close> with the dtype conversion, \<open>empty\<close>, \<open>reshape\<close>, indexing by a list of rows,
  multiplication by a scalar).  The predicate \<open>torch_laws\<close> states their documented behaviour for an
  element of \<open>k\<close> bytes that decodes by \<open>dec\<close>; \<open>list_torch\<close> is a concrete instance, used by
  the witnesses.  A float that scales is a rational.
\<close>

record 'f tensor =
  t_shape :: "nat list"
  t_data :: "'f list"

record 'f torch =
  tc_frombuffer :: "bytes \<Rightarrow> 'f tensor res"
  tc_empty :: "nat list \<Rightarrow> 'f tensor"
  tc_reshape :: "nat list \<Rightarrow> 'f tensor \<Rightarrow> 'f tensor res"
  tc_index :: "'f tensor \<Rightarrow> nat list \<Rightarrow> 'f tensor res"
  tc_mul :: "'f tensor \<Rightarrow> rat \<Rightarrow> 'f tensor"

definition torch_laws :: "nat \<Rightarrow> (bytes \<Rightarrow> 'f) \<Rightarrow> (rat \<Rightarrow> 'f \<Rightarrow> 'f) \<Rightarrow> 'f torch \<Rightarrow> bool" where
  "torch_laws k dec mul T \<longleftrightarrow>
     0 < k
     \<and> (\<forall>bs. tc_frombuffer T bs =
          (if bs = [] \<or> length bs mod k \<noteq> 0 then Inl ValueError
           else Inr \<lparr>t_shape = [length bs div k], t_data = map dec (chunks k bs)\<rparr>))
     \<and> (\<forall>sh. 0 \<in> set sh \<longrightarrow> tc_empty T sh = \<lparr>t_shape = sh, t_data = []\<rparr>)
     \<and> (\<forall>sh t. tc_reshape T sh t =
          (if prod_list sh = length (t_data t) then Inr \<lparr>t_shape = sh, t_data = t_data t\<rparr>
           else Inl RuntimeError))
     \<and> (\<forall>n d xs idx. length xs = n * d \<longrightarrow> (\<forall>i \<in> set idx. i < n) \<longrightarrow>
          tc_index T \<lparr>t_shape = [n, d], t_data = xs\<rparr> idx
            = Inr \<lparr>t_shape = [length idx, d], t_data = concat (map (\<lambda>i. py_slice i d xs) idx)\<rparr>)
     \<and> (\<forall>t c. tc_mul T t c = \<lparr>t_shape = t_shape t, t_data = map (mul c) (t_data t)\<rparr>)"

text \<open>An instance on lists, for elements of one byte.\<close>

definition list_torch :: "(byte \<Rightarrow> 'f) \<Rightarrow> (rat \<Rightarrow> 'f \<Rightarrow> 'f) \<Rightarrow> 'f torch" where
  "list_torch dec mul =
     \<lparr>tc_frombuffer = (\<lambda>bs. if bs = [] then Inl ValueError
        else Inr \<lparr>t_shape = [length bs], t_data = map dec bs\<rparr>),
      tc_empty = (\<lambda>sh. \<lparr>t_shape = sh, t_data = []\<rparr>),
      tc_reshape = (\<lambda>sh t. if prod_list sh = length (t_data t)
        then Inr \<lparr>t_shape = sh, t_data = t_data t\<rparr> else Inl RuntimeError),
      tc_index = (\<lambda>t idx. Inr \<lparr>t_shape = [length idx, t_shape t ! 1],
        t_data = concat (map (\<lambda>i. py_slice i (t_shape t ! 1) (t_data t)) idx)\<rparr>),
      tc_mul = (\<lambda>t c. \<lparr>t_shape = t_shape t, t_data = map (mul c) (t_data t)\<rparr>)\<rparr>"

lemma chunks_one: "chunks (Suc 0) xs = map (\<lambda>x. [x]) xs"
  by (induction xs) (simp_all add: chunks.simps [of "Suc 0"])

lemma list_torch_laws: "torch_laws 1 (\<lambda>bs. dec (hd bs)) mul (list_torch dec mul)"
  by (simp add: torch_laws_def list_torch_def chunks_one comp_def)

lemma torch_frombuffer:
  "torch_laws k dec mul T \<Longrightarrow> bs \<noteq> [] \<Longrightarrow> length bs mod k = 0 \<Longrightarrow>
   tc_frombuffer T bs = Inr \<lparr>t_shape = [length bs div k], t_data = map dec (chunks k bs)\<rparr>"
  by (simp add: torch_laws_def)

lemma torch_reshape:
  "torch_laws k dec mul T \<Longrightarrow> prod_list sh = length (t_data t) \<Longrightarrow>
   tc_reshape T sh t = Inr \<lparr>t_shape = sh, t_data = t_data t\<rparr>"
  by (simp add: torch_laws_def)

lemma torch_index:
  "torch_laws k dec mul T \<Longrightarrow> length xs = n * d \<Longrightarrow> \<forall>i \<in> set idx. i < n \<Longrightarrow>
   tc_index T \<lparr>t_shape = [n, d], t_data = xs\<rparr> idx
     = Inr \<lparr>t_shape = [length idx, d], t_data = concat (map (\<lambda>i. py_slice i d xs) idx)\<rparr>"
  by (simp add: torch_laws_def)

lemma torch_mul:
  "torch_laws k dec mul T \<Longrightarrow> tc_mul T t c = \<lparr>t_shape = t_shape t, t_data = map (mul c) (t_data t)\<rparr>"
  by (simp add: torch_laws_def)

lemma torch_empty:
  "torch_laws k dec mul T \<Longrightarrow> 0 \<in> set sh \<Longrightarrow> tc_empty T sh = \<lparr>t_shape = sh, t_data = []\<rparr>"
  by (simp add: torch_laws_def)

lemma length_chunks:
  "length xs = n * w \<Longrightarrow> 0 < w \<Longrightarrow> length (chunks w xs) = n"
proof (induction n arbitrary: xs)
  case (Suc n)
  then have "xs \<noteq> []" "length (drop w xs) = n * w" by auto
  with Suc show ?case by (simp add: chunks.simps [of w xs])
qed simp

lemma chunk_length: "length xs = n * w \<Longrightarrow> 0 < w \<Longrightarrow> b \<in> set (chunks w xs) \<Longrightarrow> length b = w"
proof (induction n arbitrary: xs)
  case (Suc n)
  then have xs: "xs \<noteq> []" "length (drop w xs) = n * w" "w \<le> length xs" by auto
  then have "chunks w xs = take w xs # chunks w (drop w xs)" using Suc.prems(2) by (subst chunks.simps) simp
  then have "b = take w xs \<or> b \<in> set (chunks w (drop w xs))" using Suc.prems(3) by simp
  then show ?case using Suc.IH [OF xs(2) Suc.prems(2)] xs(3) by auto
qed simp

text \<open>Decoding is compatible with cutting a buffer into records.\<close>

lemma chunks_append_dvd:
  assumes "0 < k" "length xs mod k = 0"
  shows "chunks k (xs @ ys) = chunks k xs @ chunks k ys"
  using assms
proof (induction k xs rule: chunks.induct)
  case (1 k xs)
  show ?case
  proof (cases "xs = []")
    case False
    have le: "k \<le> length xs" using "1.prems" False
      by (metis length_0_conv linorder_not_less mod_less)
    then have "length (drop k xs) mod k = 0" using "1.prems" by (simp add: le_mod_geq)
    then have "chunks k (drop k xs @ ys) = chunks k (drop k xs) @ chunks k ys"
      using "1" False by simp
    then show ?thesis
      using False "1.prems" le by (simp add: chunks.simps [of k xs] chunks.simps [of k "xs @ ys"])
  qed simp
qed

lemma chunks_concat_dvd:
  assumes "0 < k" "\<And>x. x \<in> set xss \<Longrightarrow> length x mod k = 0"
  shows "chunks k (concat xss) = concat (map (chunks k) xss)"
  using assms(2) by (induction xss) (simp_all add: chunks_append_dvd [OF assms(1)])

end
