(* ===== verification/Gather.thy ===== *)
theory Gather
  imports RowStore Tensor
begin

text \<open>
  The gather helpers of \<open>python/engramdb/vllm.py\<close>: \<open>fetch_e_t_tensor\<close> (with and without
  deduplication) and \<open>PleDiskGather\<close>.  The store is any object with a \<open>fetch\<close>; the lemmas are
  proved in the context of the locale \<open>row_store\<close> and used at the native store.
\<close>

section \<open>First-seen deduplication\<close>

text \<open>The loop \<open>for r in rowids: if r not in seen: seen.add(r); unique.append(r)\<close>.\<close>

fun first_seen_loop :: "'a list \<Rightarrow> 'a list \<Rightarrow> 'a list" where
  "first_seen_loop [] unique = unique"
| "first_seen_loop (r # rs) unique =
     (if r \<in> set unique then first_seen_loop rs unique else first_seen_loop rs (unique @ [r]))"

definition first_seen :: "'a list \<Rightarrow> 'a list" where
  "first_seen rs = first_seen_loop rs []"

text \<open>\<open>{r: i for i, r in enumerate(unique)}\<close>, read at a key it holds.\<close>

fun index_of :: "'a list \<Rightarrow> 'a \<Rightarrow> nat res" where
  "index_of [] r = Inl KeyError"
| "index_of (x # xs) r =
     (case index_of xs r of Inr i \<Rightarrow> Inr (Suc i) | Inl e \<Rightarrow> (if x = r then Inr 0 else Inl e))"

lemma first_seen_loop_spec:
  "distinct unique \<Longrightarrow>
   distinct (first_seen_loop rs unique) \<and> set (first_seen_loop rs unique) = set unique \<union> set rs"
  by (induction rs arbitrary: unique) auto

lemma distinct_first_seen [simp]: "distinct (first_seen rs)"
  by (simp add: first_seen_def first_seen_loop_spec)

lemma set_first_seen [simp]: "set (first_seen rs) = set rs"
  by (simp add: first_seen_def first_seen_loop_spec)

lemma first_seen_Nil_iff: "first_seen rs = [] \<longleftrightarrow> rs = []"
  by (metis set_empty set_first_seen)

lemma index_of_correct:
  "r \<in> set xs \<Longrightarrow> \<exists>i. index_of xs r = Inr i \<and> i < length xs \<and> xs ! i = r"
proof (induction xs)
  case (Cons x xs)
  show ?case
  proof (cases "r \<in> set xs")
    case True
    with Cons.IH obtain i where "index_of xs r = Inr i" "i < length xs" "xs ! i = r" by blast
    then show ?thesis by (intro exI [of _ "Suc i"]) simp
  next
    case False
    have "r \<notin> set ys \<Longrightarrow> \<exists>e. index_of ys r = Inl e" for ys by (induction ys) auto
    then obtain e where "index_of xs r = Inl e" using False by blast
    with Cons.prems False show ?thesis by (intro exI [of _ 0]) simp
  qed
qed simp

section \<open>Tensor fetch\<close>

definition scale_tensor :: "'f torch \<Rightarrow> rat \<Rightarrow> 'f tensor \<Rightarrow> 'f tensor" where
  "scale_tensor T scale arr = (if scale \<noteq> 1 then tc_mul T arr scale else arr)"

definition fetch_e_t_tensor ::
  "'f torch \<Rightarrow> (int list \<Rightarrow> bytes res) \<Rightarrow> int list \<Rightarrow> rat \<Rightarrow> nat \<Rightarrow> nat option \<Rightarrow> bool \<Rightarrow> 'f tensor res" where
  "fetch_e_t_tensor T fetch rowids scale num_heads head_dim dedup =
     (let n_rows = length rowids; n_heads = (if num_heads = 0 then 1 else num_heads)
      in if n_rows = 0
         then (case head_dim of None \<Rightarrow> Inl TypeError | Some d \<Rightarrow> Inr (tc_empty T [0, n_heads, d]))
         else if n_rows mod n_heads \<noteq> 0 then Inl ValueError
         else let n_tokens = n_rows div n_heads
           in rbind (if dedup
                     then let unique = first_seen rowids
                       in rbind (fetch unique) (\<lambda>raw. rbind (tc_frombuffer T raw) (\<lambda>batch.
                          rbind (case head_dim of None \<Rightarrow> Inr batch
                                 | Some d \<Rightarrow> tc_reshape T [length unique, d] batch) (\<lambda>batch.
                          rbind (rmapM (index_of unique) rowids) (\<lambda>idx. tc_index T batch idx))))
                     else rbind (fetch rowids) (tc_frombuffer T)) (\<lambda>arr.
              let arr = scale_tensor T scale arr
              in case head_dim of None \<Rightarrow> Inr arr | Some d \<Rightarrow> tc_reshape T [n_tokens, n_heads, d] arr))"

section \<open>\<open>PleDiskGather\<close>\<close>

record gather =
  ga_fetch :: "int list \<Rightarrow> bytes res"
  ga_row_bytes :: nat

definition gather_fetch :: "gather \<Rightarrow> int list \<Rightarrow> bytes res" where
  "gather_fetch g rowids =
     (if rowids = [] then Inr []
      else rbind (ga_fetch g rowids) (\<lambda>raw.
        if length raw \<noteq> length rowids * ga_row_bytes g then Inl RuntimeError else Inr raw))"

definition gather_fetch_tensor ::
  "'f torch \<Rightarrow> gather \<Rightarrow> int list \<Rightarrow> rat \<Rightarrow> nat \<Rightarrow> nat option \<Rightarrow> bool \<Rightarrow> 'f tensor res" where
  "gather_fetch_tensor T g rowids scale num_heads head_dim dedup =
     fetch_e_t_tensor T (ga_fetch g) rowids scale num_heads
       (Some (case head_dim of None \<Rightarrow> ga_row_bytes g | Some d \<Rightarrow> d)) dedup"

definition gather_fetch_unique :: "gather \<Rightarrow> int list \<Rightarrow> bytes res" where
  "gather_fetch_unique g rowids = ga_fetch g (first_seen rowids)"

section \<open>Correctness over any row source\<close>

context row_store
begin

text \<open>The elements of a list of rows.\<close>

lemma rows_bytes:
  assumes "list_all valid rs" "width = d * k" "0 < k"
  shows "length (concat (map row rs)) = length rs * d * k"
    and "chunks k (concat (map row rs)) = concat (map (\<lambda>r. chunks k (row r)) rs)"
    and "r \<in> set rs \<Longrightarrow> length (chunks k (row r)) = d"
proof -
  have len: "length (row r) = d * k" if "r \<in> set rs" for r
    using assms that by (auto simp: list_all_iff row_length)
  then show "length (concat (map row rs)) = length rs * d * k"
    using length_concat_const [of "map row rs" "d * k"] by (auto simp: mult.assoc)
  show "chunks k (concat (map row rs)) = concat (map (\<lambda>r. chunks k (row r)) rs)"
    by (subst chunks_concat_dvd) (use assms(3) len in \<open>auto simp: comp_def\<close>)
  show "r \<in> set rs \<Longrightarrow> length (chunks k (row r)) = d"
    using len assms(3) by (simp add: length_chunks)
qed

text \<open>The value of the fetch, with and without deduplication.\<close>

definition et_data :: "(bytes \<Rightarrow> 'f) \<Rightarrow> nat \<Rightarrow> int list \<Rightarrow> 'f list" where
  "et_data dec k rs = concat (map (\<lambda>r. map dec (chunks k (row r))) rs)"

lemma frombuffer_rows:
  assumes "torch_laws k dec mul T" "list_all valid rs" "rs \<noteq> []" "width = d * k" "0 < d"
  shows "rbind (fetch rs) (tc_frombuffer T) = Inr \<lparr>t_shape = [length rs * d], t_data = et_data dec k rs\<rparr>"
proof -
  have k: "0 < k" using assms(1) by (simp add: torch_laws_def)
  note rb = rows_bytes [OF assms(2,4) k]
  have "length (concat (map row rs)) mod k = 0" "length (concat (map row rs)) div k = length rs * d"
    using rb(1) k by simp_all
  moreover have "concat (map row rs) \<noteq> []"
    using rb(1) k assms(3,5) by (metis length_greater_0_conv nat_0_less_mult_iff)
  ultimately show ?thesis
    using assms(1,2) by (simp add: fetch_rows torch_frombuffer rb(2) et_data_def map_concat comp_def)
qed

lemma length_et_data:
  assumes "list_all valid rs" "width = d * k" "0 < k"
  shows "length (et_data dec k rs) = length rs * d"
proof -
  have "length x = d" if "x \<in> set (map (\<lambda>r. map dec (chunks k (row r))) rs)" for x
    using that rows_bytes(3) [OF assms] by auto
  then show ?thesis using length_concat_const [of "map (\<lambda>r. map dec (chunks k (row r))) rs" d]
    by (simp add: et_data_def)
qed

lemma et_data_slice:
  assumes "list_all valid rs" "width = d * k" "0 < k" "i < length rs"
  shows "py_slice i d (et_data dec k rs) = map dec (chunks k (row (rs ! i)))"
proof -
  have "length x = d" if "x \<in> set (map (\<lambda>r. map dec (chunks k (row r))) rs)" for x
    using that rows_bytes(3) [OF assms(1-3)] by auto
  then show ?thesis
    unfolding et_data_def using assms(4) by (subst py_slice_concat) auto
qed

lemma dedup_rows:
  assumes "torch_laws k dec mul T" "list_all valid rs" "rs \<noteq> []" "width = d * k" "0 < d"
  shows "rbind (fetch (first_seen rs)) (\<lambda>raw. rbind (tc_frombuffer T raw) (\<lambda>batch.
       rbind (tc_reshape T [length (first_seen rs), d] batch) (\<lambda>batch.
       rbind (rmapM (index_of (first_seen rs)) rs) (\<lambda>idx. tc_index T batch idx))))
     = Inr \<lparr>t_shape = [length rs, d], t_data = et_data dec k rs\<rparr>"
proof -
  let ?u = "first_seen rs"
  have k: "0 < k" using assms(1) by (simp add: torch_laws_def)
  have u: "list_all valid ?u" "?u \<noteq> []" using assms(2,3) by (simp_all add: list_all_iff first_seen_Nil_iff)
  define ix where "ix r = (SOME i. index_of ?u r = Inr i \<and> i < length ?u \<and> ?u ! i = r)" for r
  have ix: "index_of ?u r = Inr (ix r) \<and> ix r < length ?u \<and> ?u ! ix r = r" if "r \<in> set rs" for r
    unfolding ix_def by (rule someI_ex) (use index_of_correct [of r ?u] that in simp)
  have idx: "rmapM (index_of ?u) rs = Inr (map ix rs)" using ix by (intro rmapM_Inr) simp
  have shape: "prod_list [length ?u, d] = length (et_data dec k ?u)"
    using length_et_data [OF u(1) assms(4) k, where dec = dec] by simp
  have resh: "tc_reshape T [length ?u, d] \<lparr>t_shape = [length ?u * d], t_data = et_data dec k ?u\<rparr>
      = Inr \<lparr>t_shape = [length ?u, d], t_data = et_data dec k ?u\<rparr>"
    using torch_reshape [OF assms(1), of "[length ?u, d]" "\<lparr>t_shape = [length ?u * d], t_data = et_data dec k ?u\<rparr>"] shape
    by simp
  have "map (\<lambda>i. py_slice i d (et_data dec k ?u)) (map ix rs) = map (\<lambda>r. map dec (chunks k (row r))) rs"
    using ix et_data_slice [OF u(1) assms(4) k, where dec = dec] by auto
  then have "concat (map (\<lambda>i. py_slice i d (et_data dec k ?u)) (map ix rs)) = et_data dec k rs"
    by (simp only: et_data_def)
  then have "tc_index T \<lparr>t_shape = [length ?u, d], t_data = et_data dec k ?u\<rparr> (map ix rs)
      = Inr \<lparr>t_shape = [length rs, d], t_data = et_data dec k rs\<rparr>"
    using torch_index [OF assms(1) length_et_data [OF u(1) assms(4) k], where idx = "map ix rs" and dec1 = dec] ix by simp
  moreover obtain raw where "fetch ?u = Inr raw"
      "tc_frombuffer T raw = Inr \<lparr>t_shape = [length ?u * d], t_data = et_data dec k ?u\<rparr>"
    using frombuffer_rows [OF assms(1) u assms(4,5)] by (auto simp: rbind_Inr_iff)
  ultimately show ?thesis using idx resh by simp
qed

lemma fetch_e_t_tensor_value:
  assumes T: "torch_laws k dec mul T" and rs: "list_all valid rs" "rs \<noteq> []"
    and w: "width = d * k" "0 < d" and h: "0 < h" "length rs mod h = 0"
  shows "fetch_e_t_tensor T fetch rs scale h (Some d) dedup
    = Inr \<lparr>t_shape = [length rs div h, h, d],
           t_data = (if scale \<noteq> 1 then map (mul scale) (et_data dec k rs) else et_data dec k rs)\<rparr>"
proof -
  have k: "0 < k" using T by (simp add: torch_laws_def)
  have n: "prod_list [length rs div h, h, d] = length (et_data dec k rs)"
    using h length_et_data [OF rs(1) w(1) k, where dec = dec] by (auto simp: mult.assoc [symmetric] div_mult_mod_eq)
  have "\<exists>sh. (if dedup then let unique = first_seen rs
           in rbind (fetch unique) (\<lambda>raw. rbind (tc_frombuffer T raw) (\<lambda>batch.
              rbind (tc_reshape T [length unique, d] batch) (\<lambda>batch.
              rbind (rmapM (index_of unique) rs) (\<lambda>idx. tc_index T batch idx))))
       else rbind (fetch rs) (tc_frombuffer T)) = Inr \<lparr>t_shape = sh, t_data = et_data dec k rs\<rparr>"
    using dedup_rows [OF T rs w] frombuffer_rows [OF T rs w] by (cases dedup) (auto simp: Let_def)
  then obtain sh where sh: "(if dedup then let unique = first_seen rs
           in rbind (fetch unique) (\<lambda>raw. rbind (tc_frombuffer T raw) (\<lambda>batch.
              rbind (tc_reshape T [length unique, d] batch) (\<lambda>batch.
              rbind (rmapM (index_of unique) rs) (\<lambda>idx. tc_index T batch idx))))
       else rbind (fetch rs) (tc_frombuffer T)) = Inr \<lparr>t_shape = sh, t_data = et_data dec k rs\<rparr>" by blast
  show ?thesis
    unfolding fetch_e_t_tensor_def using rs(2) h sh n
    by (auto simp: Let_def scale_tensor_def torch_mul [OF T] torch_reshape [OF T])
qed

lemma gather_fetch_rows:
  "list_all valid rs \<Longrightarrow>
   gather_fetch \<lparr>ga_fetch = fetch, ga_row_bytes = width\<rparr> rs = Inr (concat (map row rs))"
  using fetch_length [of rs "concat (map row rs)"] by (auto simp: gather_fetch_def fetch_rows)

lemma gather_unique_expand:
  assumes "list_all valid rs"
  shows "rbind (gather_fetch_unique \<lparr>ga_fetch = fetch, ga_row_bytes = width\<rparr> rs) (\<lambda>raw.
      rmap (\<lambda>idx. concat (map (\<lambda>i. py_slice i width raw) idx)) (rmapM (index_of (first_seen rs)) rs))
    = gather_fetch \<lparr>ga_fetch = fetch, ga_row_bytes = width\<rparr> rs"
proof -
  let ?u = "first_seen rs"
  have u: "list_all valid ?u" using assms by (simp add: list_all_iff)
  define ix where "ix r = (SOME i. index_of ?u r = Inr i \<and> i < length ?u \<and> ?u ! i = r)" for r
  have ix: "index_of ?u r = Inr (ix r) \<and> ix r < length ?u \<and> ?u ! ix r = r" if "r \<in> set rs" for r
    unfolding ix_def by (rule someI_ex) (use index_of_correct [of r ?u] that in simp)
  have idx: "rmapM (index_of ?u) rs = Inr (map ix rs)" using ix by (intro rmapM_Inr) simp
  have "map (\<lambda>i. py_slice i width (concat (map row ?u))) (map ix rs) = map row rs"
    using ix fetch_slice [OF u] fetch_rows [OF u] by auto
  then have "concat (map (\<lambda>i. py_slice i width (concat (map row ?u))) (map ix rs)) = concat (map row rs)"
    by (simp only:)
  then show ?thesis
    using idx by (simp add: gather_fetch_unique_def gather_fetch_rows [OF assms] fetch_rows [OF u])
qed

end

section \<open>Properties\<close>

text \<open>
  Fetching through the native store gives the same tensor with and without deduplication:
  reading only the distinct rows and expanding them by index in torch is not observable.
\<close>

theorem fetch_dedup_equiv:
  assumes "torch_laws k dec mul T" "list_all (store_valid s) rs"
    and "ns_width s = d * k" "0 < d" "0 < h" "length rs mod h = 0"
  shows "fetch_e_t_tensor T (store_fetch s) rs scale h (Some d) True
       = fetch_e_t_tensor T (store_fetch s) rs scale h (Some d) False"
proof (cases "rs = []")
  case True
  then show ?thesis by (simp add: fetch_e_t_tensor_def)
next
  case False
  show ?thesis unfolding native.fetch_e_t_tensor_value [OF assms(1,2) False assms(3-6)] ..
qed

theorem fetch_dedup_equiv_witness:
  "fetch_e_t_tensor (list_torch uint (\<lambda>c x. x)) (store_fetch demo_store)
       [1, 0, 1, 1] 2 2 (Some 2) True
   = fetch_e_t_tensor (list_torch uint (\<lambda>c x. x)) (store_fetch demo_store)
       [1, 0, 1, 1] 2 2 (Some 2) False"
  by (rule fetch_dedup_equiv [OF list_torch_laws]) simp_all

text \<open>
  The values: the tensor has shape \<open>[tokens, heads, head_dim]\<close> and its elements are, row after
  row in request order, the decoded elements of the stored rows, scaled when the scale is not 1.
\<close>

theorem fetch_e_t_functional:
  assumes "torch_laws k dec mul T" "list_all (store_valid s) rs" "rs \<noteq> []"
    and "ns_width s = d * k" "0 < d" "0 < h" "length rs mod h = 0"
  shows "fetch_e_t_tensor T (store_fetch s) rs scale h (Some d) dedup
    = Inr \<lparr>t_shape = [length rs div h, h, d],
           t_data = map (if scale = 1 then id else mul scale)
             (concat (map (\<lambda>r. map dec (chunks k (store_row s r))) rs))\<rparr>"
  unfolding native.fetch_e_t_tensor_value [OF assms] native.et_data_def by simp

theorem fetch_e_t_functional_witness:
  "fetch_e_t_tensor (list_torch uint (\<lambda>c x. 2 * x)) (store_fetch demo_store)
       [1, 0] 2 2 (Some 2) True
   = Inr \<lparr>t_shape = [length [1, 0 :: int] div 2, 2, 2], t_data = map (if (2 :: rat) = 1 then id else (\<lambda>c x. 2 * x) 2)
       (concat (map (\<lambda>r. map (\<lambda>bs. uint (hd bs)) (chunks 1 (store_row demo_store r))) [1, 0]))\<rparr>"
  by (rule fetch_e_t_functional [OF list_torch_laws [where mul = "\<lambda>c x. 2 * x"]]) simp_all

text \<open>
  \<open>PleDiskGather\<close>: expanding the unique rows of \<open>fetch_unique\<close> by first-seen index gives
  the bytes of \<open>fetch\<close>, for every request of rows the store holds.
\<close>

theorem gather_unique_expands:
  assumes "list_all (store_valid s) rs"
  shows "rbind (gather_fetch_unique \<lparr>ga_fetch = store_fetch s, ga_row_bytes = ns_width s\<rparr> rs) (\<lambda>raw.
      rmap (\<lambda>idx. concat (map (\<lambda>i. py_slice i (ns_width s) raw) idx)) (rmapM (index_of (first_seen rs)) rs))
    = gather_fetch \<lparr>ga_fetch = store_fetch s, ga_row_bytes = ns_width s\<rparr> rs"
  using assms by (rule native.gather_unique_expand)

theorem gather_unique_expands_witness:
  "rbind (gather_fetch_unique \<lparr>ga_fetch = store_fetch demo_store, ga_row_bytes = ns_width demo_store\<rparr> [1, 0, 1 :: int]) (\<lambda>raw.
      rmap (\<lambda>idx. concat (map (\<lambda>i. py_slice i (ns_width demo_store) raw) idx)) (rmapM (index_of (first_seen [1, 0, 1 :: int])) [1, 0, 1 :: int]))
    = gather_fetch \<lparr>ga_fetch = store_fetch demo_store, ga_row_bytes = ns_width demo_store\<rparr> [1, 0, 1 :: int]"
  by (rule gather_unique_expands) simp

end
