(* ===== verification/PleMemory.thy ===== *)
theory PleMemory
  imports Keygen Gather
begin

text \<open>
  \<open>PleMemory\<close> and \<open>ple_memory_from_discovery\<close> of \<open>python/engramdb/ple_memory.py\<close>: the validated
  constructor, row ids of a token batch, and the raw and tensor fetch from a row store
  (Store-I) or from a view through a slot index (Store-P).

  A store, a view and a slot index are the objects the constructor receives: records of the
  methods the code calls.  A method that may be missing is an option.
\<close>

section \<open>The memory\<close>

record store_obj =
  so_fetch :: "int list \<Rightarrow> bytes res"
  so_width :: "int option"

record view_obj =
  vo_read_records :: "(int list \<Rightarrow> bytes res) option"
  vo_read_record :: "int \<Rightarrow> bytes res"
  vo_slot_bytes :: "int res"

record slot_index_obj =
  sx_lookup :: "int list \<Rightarrow> int res"
  sx_stats :: "(string \<times> int) list option"

text \<open>The keyword arguments of the constructor, with the defaults of the signature.\<close>

record memory_args =
  pa_store :: "store_obj option"
  pa_view :: "view_obj option"
  pa_slot_index :: "slot_index_obj option"
  pa_head_dim :: "int option"
  pa_num_heads :: "int option"
  pa_ngram_size :: "int option"
  pa_heads_per_ngram :: "int option"
  pa_multipliers :: "int list option"
  pa_scale :: rat
  pa_eos :: "int option"
  pa_prime_sizes :: "int list option"
  pa_offsets :: "int list option"
  pa_divisor :: int
  pa_sequential_view :: bool
  pa_start_slot :: int

definition default_args :: memory_args where
  "default_args = \<lparr>pa_store = None, pa_view = None, pa_slot_index = None, pa_head_dim = None,
     pa_num_heads = None, pa_ngram_size = None, pa_heads_per_ngram = None, pa_multipliers = None,
     pa_scale = 1, pa_eos = None, pa_prime_sizes = None, pa_offsets = None, pa_divisor = PLE_DIVISOR,
     pa_sequential_view = False, pa_start_slot = 0\<rparr>"

record memory =
  pm_store :: "store_obj option"
  pm_view :: "view_obj option"
  pm_slot_index :: "slot_index_obj option"
  pm_num_heads :: int
  pm_head_dim :: int
  pm_ngram_size :: int
  pm_heads_per_ngram :: int
  pm_eos :: int
  pm_multipliers :: "int list"
  pm_scale :: rat
  pm_divisor :: int
  pm_sequential_view :: bool
  pm_start_slot :: int
  pm_prime_sizes :: "int list"
  pm_offsets :: "int list"

text \<open>\<open>_default_head_dim\<close>: the store's width, or the view's slot split among the heads.\<close>

definition default_head_dim :: "store_obj option \<Rightarrow> view_obj option \<Rightarrow> int \<Rightarrow> int res" where
  "default_head_dim store view num_heads =
     (case store of
        Some s \<Rightarrow> Inr (case so_width s of None \<Rightarrow> 0 | Some w \<Rightarrow> w)
      | None \<Rightarrow> (case view of
          Some v \<Rightarrow> rbind (vo_slot_bytes v) (\<lambda>slot_bytes.
            let heads = int_or (Some num_heads) (int PLE_HEADS)
            in if slot_bytes mod heads \<noteq> 0 then Inl ValueError else Inr (slot_bytes div heads))
        | None \<Rightarrow> Inr 160))"

definition prime_sizes_or :: "int list option \<Rightarrow> int \<Rightarrow> int list" where
  "prime_sizes_or sizes num_heads =
     (case sizes of None \<Rightarrow> head_vocab_sizes PLE_BASE (nat num_heads) | Some xs \<Rightarrow> xs)"

definition offsets_or :: "int list option \<Rightarrow> int list \<Rightarrow> int list" where
  "offsets_or offsets sizes = (case offsets of None \<Rightarrow> head_offsets (Some sizes) | Some xs \<Rightarrow> xs)"

definition ple_memory_init :: "memory_args \<Rightarrow> memory res" where
  "ple_memory_init a =
     rbind (guard_or ((pa_store a = None) \<noteq> (pa_view a = None)) ValueError) (\<lambda>_.
     let num_heads = int_or (pa_num_heads a) (int PLE_HEADS)
     in rbind (case pa_head_dim a of Some d \<Rightarrow> Inr d
               | None \<Rightarrow> default_head_dim (pa_store a) (pa_view a) num_heads) (\<lambda>head_dim.
     rbind (guard_or (0 < head_dim) ValueError) (\<lambda>_.
     let ngram_size = int_or (pa_ngram_size a) (int PLE_NGRAM_SIZE);
         heads_per_ngram = int_or (pa_heads_per_ngram a) (int PLE_HEADS_PER_NGRAM)
     in rbind (guard_or (2 \<le> ngram_size) ValueError) (\<lambda>_.
     let expected_heads = (ngram_size - 1) * heads_per_ngram
     in rbind (guard_or (num_heads = expected_heads) ValueError) (\<lambda>_.
     let prime_sizes = prime_sizes_or (pa_prime_sizes a) num_heads;
         offsets = offsets_or (pa_offsets a) prime_sizes
     in rbind (guard_or (int (length prime_sizes) = num_heads) ValueError) (\<lambda>_.
     rbind (guard_or (int (length offsets) = num_heads) ValueError) (\<lambda>_.
     rbind (guard_or (pa_view a = None \<or> pa_slot_index a \<noteq> None \<or> pa_sequential_view a) ValueError) (\<lambda>_.
     Inr \<lparr>pm_store = pa_store a, pm_view = pa_view a, pm_slot_index = pa_slot_index a,
          pm_num_heads = num_heads, pm_head_dim = head_dim, pm_ngram_size = ngram_size,
          pm_heads_per_ngram = heads_per_ngram,
          pm_eos = (case pa_eos a of None \<Rightarrow> PLE_EOS | Some e \<Rightarrow> e),
          pm_multipliers = (case pa_multipliers a of None \<Rightarrow> DEFAULT_MULTIPLIERS | Some m \<Rightarrow> m),
          pm_scale = pa_scale a, pm_divisor = pa_divisor a,
          pm_sequential_view = pa_sequential_view a, pm_start_slot = pa_start_slot a,
          pm_prime_sizes = prime_sizes, pm_offsets = offsets\<rparr>))))))))"

definition memory_source :: "memory \<Rightarrow> string" where
  "memory_source mem = (if pm_view mem \<noteq> None then ''view'' else ''store'')"

definition record_bytes :: "memory \<Rightarrow> int" where
  "record_bytes mem = pm_num_heads mem * pm_head_dim mem"

definition as_int_list :: "int list option \<Rightarrow> int list" where
  "as_int_list values = (case values of None \<Rightarrow> [] | Some xs \<Rightarrow> xs)"

text \<open>\<open>rowids_for_tokens\<close>: an empty history is a fresh, EOS-padded context.\<close>

definition rowids_for_tokens :: "memory \<Rightarrow> int list option \<Rightarrow> int list option \<Rightarrow> int list list res" where
  "rowids_for_tokens mem tokens history =
     (let tok = as_int_list tokens; hist = as_int_list history
      in ple_rowids tok (pm_multipliers mem) (pm_eos mem) (Some (pm_prime_sizes mem))
           (Some (pm_offsets mem)) (nat (pm_ngram_size mem)) (nat (pm_heads_per_ngram mem))
           (if hist \<noteq> [] then Some hist else None))"

definition coerce_rows :: "memory \<Rightarrow> int list list \<Rightarrow> int list list res" where
  "coerce_rows mem rows =
     rmapM (\<lambda>r. if int (length r) \<noteq> pm_num_heads mem then Inl ValueError else Inr r) rows"

text \<open>The slots of a view: looked up, or counted from \<open>start_slot\<close>.\<close>

definition view_slots :: "memory \<Rightarrow> int list list \<Rightarrow> int list res" where
  "view_slots mem rows =
     (case pm_slot_index mem of
        Some ix \<Rightarrow> rmapM (sx_lookup ix) rows
      | None \<Rightarrow> Inr (map (\<lambda>i. pm_start_slot mem + int i) [0..<length rows]))"

definition view_read :: "view_obj \<Rightarrow> int list \<Rightarrow> bytes res" where
  "view_read v slots =
     (case vo_read_records v of
        Some rd \<Rightarrow> rd slots
      | None \<Rightarrow> rmap concat (rmapM (vo_read_record v) slots))"

definition fetch_raw :: "memory \<Rightarrow> int list list \<Rightarrow> bytes res" where
  "fetch_raw mem rowid_tuples =
     rbind (coerce_rows mem rowid_tuples) (\<lambda>rows.
       if rows = [] then Inr []
       else rbind (case pm_view mem of
                Some v \<Rightarrow> rbind (view_slots mem rows) (view_read v)
              | None \<Rightarrow> (case pm_store mem of
                  Some s \<Rightarrow> so_fetch s (concat rows)
                | None \<Rightarrow> Inl AttributeError)) (\<lambda>raw.
            if int (length raw) \<noteq> int (length rows) * record_bytes mem then Inl RuntimeError
            else Inr raw))"

definition tensor_from_raw :: "'f torch \<Rightarrow> memory \<Rightarrow> bytes \<Rightarrow> nat \<Rightarrow> 'f tensor res" where
  "tensor_from_raw T mem raw count =
     (let shape = [count, nat (pm_num_heads mem), nat (pm_head_dim mem)]
      in if count = 0 then Inr (tc_empty T [0, nat (pm_num_heads mem), nat (pm_head_dim mem)])
         else if int (length raw) \<noteq> int count * record_bytes mem then Inl RuntimeError
         else rbind (tc_frombuffer T raw) (\<lambda>arr. rbind (tc_reshape T shape arr) (\<lambda>arr.
              Inr (scale_tensor T (pm_scale mem) arr))))"

definition fetch_tensor :: "'f torch \<Rightarrow> memory \<Rightarrow> int list list \<Rightarrow> 'f tensor res" where
  "fetch_tensor T mem rowid_tuples =
     rbind (coerce_rows mem rowid_tuples) (\<lambda>rows.
       if rows = [] then Inr (tc_empty T [0, nat (pm_num_heads mem), nat (pm_head_dim mem)])
       else rbind (fetch_raw mem rows) (\<lambda>raw. tensor_from_raw T mem raw (length rows)))"

definition memory_fetch :: "'f torch \<Rightarrow> memory \<Rightarrow> int list list \<Rightarrow> bool \<Rightarrow> (bytes + 'f tensor) res" where
  "memory_fetch T mem rowid_tuples as_tensor =
     (if as_tensor then rmap Inr (fetch_tensor T mem rowid_tuples)
      else rmap Inl (fetch_raw mem rowid_tuples))"

record memory_stats =
  ms_source :: string
  ms_num_heads :: int
  ms_head_dim :: int
  ms_record_bytes :: int
  ms_ngram_size :: int
  ms_heads_per_ngram :: int
  ms_scale :: rat
  ms_slot_index :: "(string \<times> int) list option"

definition ple_memory_stats :: "memory \<Rightarrow> memory_stats" where
  "ple_memory_stats mem = \<lparr>ms_source = memory_source mem, ms_num_heads = pm_num_heads mem,
     ms_head_dim = pm_head_dim mem, ms_record_bytes = record_bytes mem,
     ms_ngram_size = pm_ngram_size mem, ms_heads_per_ngram = pm_heads_per_ngram mem,
     ms_scale = pm_scale mem, ms_slot_index = Option.bind (pm_slot_index mem) sx_stats\<rparr>"

section \<open>Construction from discovery metadata\<close>

record discovery =
  di_ngram_size :: "int option"
  di_heads_per_ngram :: "int option"
  di_ple_embed_dim :: "int option"
  di_ngram_vocab_size_base :: "int option"
  di_divisible_by :: "int option"
  di_multipliers :: "string \<Rightarrow> int list option"
  di_weight_scale :: "rat option"

definition rat_or :: "rat option \<Rightarrow> rat \<Rightarrow> rat" where
  "rat_or x d = (case x of None \<Rightarrow> d | Some v \<Rightarrow> (if v = 0 then d else v))"

definition ple_memory_from_discovery ::
  "discovery option \<Rightarrow> memory_args \<Rightarrow> int option \<Rightarrow> rat option \<Rightarrow> memory res" where
  "ple_memory_from_discovery info kwargs head_dim scale =
     (case info of None \<Rightarrow> Inl ValueError
      | Some info \<Rightarrow>
        let ngram_size = int_or (di_ngram_size info) (int PLE_NGRAM_SIZE);
            heads_per_ngram = int_or (di_heads_per_ngram info) (int PLE_HEADS_PER_NGRAM);
            num_heads = (ngram_size - 1) * heads_per_ngram;
            ple_embed_dim = int_or (di_ple_embed_dim info) 0
        in if ple_embed_dim \<le> 0 then Inl ValueError
           else rbind (case head_dim of Some d \<Rightarrow> Inr d | None \<Rightarrow> py_div ple_embed_dim num_heads) (\<lambda>head_dim.
             let base = int_or (di_ngram_vocab_size_base info) PLE_BASE;
                 prime_sizes = head_vocab_sizes base (nat num_heads)
             in ple_memory_init (kwargs\<lparr>pa_head_dim := Some head_dim, pa_num_heads := Some num_heads,
                  pa_ngram_size := Some ngram_size, pa_heads_per_ngram := Some heads_per_ngram,
                  pa_multipliers := first_present (di_multipliers info) multiplier_keys,
                  pa_scale := (case scale of Some c \<Rightarrow> c | None \<Rightarrow> rat_or (di_weight_scale info) 1),
                  pa_prime_sizes := Some prime_sizes,
                  pa_offsets := Some (head_offsets (Some prime_sizes))\<rparr>)))"

section \<open>What the constructor guarantees\<close>

definition memory_ok :: "memory \<Rightarrow> bool" where
  "memory_ok mem \<longleftrightarrow>
     (pm_store mem = None) \<noteq> (pm_view mem = None)
     \<and> 0 < pm_head_dim mem \<and> 2 \<le> pm_ngram_size mem
     \<and> pm_num_heads mem = (pm_ngram_size mem - 1) * pm_heads_per_ngram mem
     \<and> 0 < pm_num_heads mem \<and> 0 < pm_heads_per_ngram mem
     \<and> int (length (pm_prime_sizes mem)) = pm_num_heads mem
     \<and> int (length (pm_offsets mem)) = pm_num_heads mem
     \<and> (pm_view mem \<noteq> None \<longrightarrow> pm_slot_index mem \<noteq> None \<or> pm_sequential_view mem)"

lemma int_or_nonzero: "d \<noteq> 0 \<Longrightarrow> int_or x d \<noteq> 0"
  by (simp add: int_or_def split: option.split)

lemma ple_memory_init_Inr:
  assumes "ple_memory_init a = Inr mem"
  shows "pm_store mem = pa_store a \<and> pm_view mem = pa_view a
    \<and> (pa_store a = None) \<noteq> (pa_view a = None)
    \<and> (pa_view a = None \<or> pa_slot_index a \<noteq> None \<or> pa_sequential_view a)
    \<and> pm_slot_index mem = pa_slot_index a \<and> pm_sequential_view mem = pa_sequential_view a
    \<and> pm_num_heads mem = int_or (pa_num_heads a) (int PLE_HEADS)
    \<and> pm_ngram_size mem = int_or (pa_ngram_size a) (int PLE_NGRAM_SIZE)
    \<and> pm_heads_per_ngram mem = int_or (pa_heads_per_ngram a) (int PLE_HEADS_PER_NGRAM)
    \<and> pm_num_heads mem = (pm_ngram_size mem - 1) * pm_heads_per_ngram mem
    \<and> 2 \<le> pm_ngram_size mem \<and> 0 < pm_head_dim mem
    \<and> (\<forall>d. pa_head_dim a = Some d \<longrightarrow> pm_head_dim mem = d)
    \<and> pm_prime_sizes mem = prime_sizes_or (pa_prime_sizes a) (pm_num_heads mem)
    \<and> pm_offsets mem = offsets_or (pa_offsets a) (pm_prime_sizes mem)
    \<and> int (length (pm_prime_sizes mem)) = pm_num_heads mem
    \<and> int (length (pm_offsets mem)) = pm_num_heads mem"
  using assms unfolding ple_memory_init_def Let_def rbind_Inr_iff guard_or_iff
  by (elim exE conjE) (simp only: sum.inject, hypsubst, simp, clarsimp)

lemma ple_memory_init_ok:
  assumes "ple_memory_init a = Inr mem"
  shows "memory_ok mem"
proof -
  note f = ple_memory_init_Inr [OF assms]
  have "int_or (pa_num_heads a) (int PLE_HEADS) \<noteq> 0" by (rule int_or_nonzero) (simp add: PLE_HEADS_def)
  moreover have "pm_num_heads mem = int_or (pa_num_heads a) (int PLE_HEADS)" using f by blast
  moreover have "int (length (pm_prime_sizes mem)) = pm_num_heads mem" using f by blast
  ultimately have pos: "0 < pm_num_heads mem" by linarith
  moreover have "pm_num_heads mem = (pm_ngram_size mem - 1) * pm_heads_per_ngram mem"
      "2 \<le> pm_ngram_size mem" using f by blast+
  ultimately have "0 < pm_heads_per_ngram mem" by (simp add: zero_less_mult_iff)
  with f pos show ?thesis unfolding memory_ok_def by metis
qed

text \<open>With enough multipliers and positive sizes the row ids never fail.\<close>

definition memory_hash_ok :: "memory \<Rightarrow> bool" where
  "memory_hash_ok mem \<longleftrightarrow>
     pm_ngram_size mem \<le> int (length (pm_multipliers mem)) \<and> (\<forall>s \<in> set (pm_prime_sizes mem). 0 < s)"

abbreviation memory_rows :: "memory \<Rightarrow> int list \<Rightarrow> int list \<Rightarrow> int list list" where
  "memory_rows mem ctx t \<equiv>
     rows_after (pm_eos mem) (pm_multipliers mem) (pm_prime_sizes mem) (pm_offsets mem)
       (nat (pm_ngram_size mem)) (nat (pm_heads_per_ngram mem)) ctx t"

lemma int_nat_pred: "2 \<le> n \<Longrightarrow> int (nat n - Suc 0) = n - 1"
  by linarith

lemma memory_params_ok:
  assumes "memory_ok mem" "memory_hash_ok mem"
  shows "ple_params_ok (pm_multipliers mem) (pm_prime_sizes mem) (pm_offsets mem)
    (nat (pm_ngram_size mem)) (nat (pm_heads_per_ngram mem))"
proof -
  have "int ((nat (pm_ngram_size mem) - 1) * nat (pm_heads_per_ngram mem)) = pm_num_heads mem"
    using assms(1) by (simp add: memory_ok_def int_nat_pred)
  then have "(nat (pm_ngram_size mem) - 1) * nat (pm_heads_per_ngram mem) = length (pm_prime_sizes mem)"
      "length (pm_offsets mem) = length (pm_prime_sizes mem)" "0 < length (pm_prime_sizes mem)"
    using assms(1) unfolding memory_ok_def by linarith+
  with assms show ?thesis by (auto simp: ple_params_ok_def memory_ok_def memory_hash_ok_def)
qed

lemma rowids_for_tokens_rows:
  assumes "memory_ok mem" "memory_hash_ok mem"
  shows "rowids_for_tokens mem (Some t) history
    = Inr (memory_rows mem (if as_int_list history = [] then [pm_eos mem, pm_eos mem] else as_int_list history) t)"
  using ple_rowids_rows_after [OF memory_params_ok [OF assms]]
  by (auto simp: rowids_for_tokens_def as_int_list_def history_of_def Let_def)

lemma length_row_of:
  "2 \<le> n \<Longrightarrow> length (row_of eos ms sizes offsets n H hist i) = (n - 1) * H"
  by (simp add: row_of_flat)

lemma memory_rows_heads:
  assumes "memory_ok mem" "r \<in> set (memory_rows mem ctx t)"
  shows "int (length r) = pm_num_heads mem"
  using assms by (auto simp: rows_after_def length_row_of memory_ok_def nat_diff_distrib)

lemma coerce_rows_ok:
  "(\<And>r. r \<in> set rows \<Longrightarrow> int (length r) = pm_num_heads mem) \<Longrightarrow> coerce_rows mem rows = Inr rows"
  unfolding coerce_rows_def by (subst rmapM_Inr [where g = id]) auto

lemma coerce_rows_iff:
  "coerce_rows mem rows = Inr rs \<longleftrightarrow> rs = rows \<and> (\<forall>r \<in> set rows. int (length r) = pm_num_heads mem)"
proof (cases "\<forall>r \<in> set rows. int (length r) = pm_num_heads mem")
  case True
  then show ?thesis using coerce_rows_ok [of rows mem] by auto
next
  case False
  then have "coerce_rows mem rows \<noteq> Inr rs" for rs
    by (auto simp: coerce_rows_def rmapM_Inr_iff list_all2_conv_all_nth in_set_conv_nth split: if_splits)
  with False show ?thesis by simp
qed

section \<open>Fetching\<close>

lemma concat_concat_map: "concat (concat (map (map f) xss)) = concat (map (\<lambda>xs. concat (map f xs)) xss)"
  by (induction xss) simp_all

text \<open>Every successful fetch returns exactly one record per row, whatever the source does.\<close>

lemma fetch_raw_length:
  assumes "fetch_raw mem rows = Inr raw"
  shows "int (length raw) = int (length rows) * record_bytes mem"
  using assms by (auto simp: fetch_raw_def coerce_rows_iff res_iff split: if_splits)

context row_store
begin

text \<open>Store-I: the head rows of every tuple, in order.\<close>

lemma fetch_raw_store:
  assumes "memory_ok mem" "pm_store mem = Some s" "so_fetch s = fetch" "int width = pm_head_dim mem"
    and "\<And>r. r \<in> set rows \<Longrightarrow> int (length r) = pm_num_heads mem \<and> list_all valid r"
  shows "fetch_raw mem rows = Inr (concat (map (\<lambda>r. concat (map row r)) rows))"
proof (cases "rows = []")
  case True
  then show ?thesis by (simp add: fetch_raw_def coerce_rows_def)
next
  case False
  have view: "pm_view mem = None" using assms(1,2) by (simp add: memory_ok_def)
  have v: "list_all valid (concat rows)" using assms(5) by (auto simp: list_all_iff)
  have n: "length (concat rows) = length rows * nat (pm_num_heads mem)"
    using assms(5) by (intro length_concat_const) fastforce
  have "int (length (concat (map row (concat rows)))) = int (length (concat rows)) * int width"
    using fetch_length [OF v fetch_rows [OF v]] by simp
  also have "\<dots> = int (length rows) * record_bytes mem"
    using n assms(1,4) by (simp add: record_bytes_def memory_ok_def)
  finally have "int (length (concat (map row (concat rows)))) = int (length rows) * record_bytes mem" .
  then show ?thesis
    using False view assms(2,3) fetch_rows [OF v] coerce_rows_ok [of rows mem] assms(5)
    by (simp add: fetch_raw_def map_concat concat_concat_map)
qed

text \<open>Store-P: the records of the slots the index gives.\<close>

lemma fetch_raw_view:
  assumes "memory_ok mem" "pm_view mem = Some v" "vo_read_records v = Some fetch"
    and "pm_slot_index mem = Some ix" "int width = record_bytes mem"
    and "\<And>r. r \<in> set rows \<Longrightarrow> int (length r) = pm_num_heads mem \<and> sx_lookup ix r = Inr (slot r) \<and> valid (slot r)"
  shows "fetch_raw mem rows = Inr (concat (map (\<lambda>r. row (slot r)) rows))"
proof (cases "rows = []")
  case True
  then show ?thesis by (simp add: fetch_raw_def coerce_rows_def)
next
  case False
  have v: "list_all valid (map slot rows)" using assms(6) by (auto simp: list_all_iff)
  have "view_slots mem rows = Inr (map slot rows)"
    using assms(4,6) by (simp add: view_slots_def rmapM_Inr [where g = slot])
  moreover have "int (length (concat (map row (map slot rows)))) = int (length rows) * record_bytes mem"
    using fetch_length [OF v fetch_rows [OF v]] assms(5) by simp
  ultimately show ?thesis
    using False assms(2,3) fetch_rows [OF v] coerce_rows_ok [of rows mem] assms(6)
    by (simp add: fetch_raw_def view_read_def comp_def)
qed

end

text \<open>A tensor read through the memory is the tensor of the raw bytes of the same rows.\<close>

lemma fetch_tensor_raw:
  assumes "rows \<noteq> []" "fetch_raw mem rows = Inr raw"
  shows "fetch_tensor T mem rows = tensor_from_raw T mem raw (length rows)"
proof -
  have "coerce_rows mem rows = Inr rows"
    using assms(2) by (auto simp: fetch_raw_def coerce_rows_iff rbind_Inr_iff)
  with assms show ?thesis by (simp add: fetch_tensor_def)
qed

lemma fetch_tensor_error:
  assumes "fetch_raw mem rows = Inl e"
  shows "fetch_tensor T mem rows = Inl e"
proof (cases "coerce_rows mem rows")
  case (Inl e')
  with assms show ?thesis by (simp add: fetch_raw_def fetch_tensor_def)
next
  case (Inr rs)
  then have "rs = rows" by (simp add: coerce_rows_iff)
  with Inr assms show ?thesis by (auto simp: fetch_tensor_def fetch_raw_def)
qed

lemma tensor_from_raw_shape:
  assumes "torch_laws k dec mul T" "tensor_from_raw T mem raw count = Inr t"
  shows "t_shape t = [count, nat (pm_num_heads mem), nat (pm_head_dim mem)]"
  using assms(2) torch_empty [OF assms(1), of "[0, nat (pm_num_heads mem), nat (pm_head_dim mem)]"]
  by (auto simp: tensor_from_raw_def Let_def res_iff scale_tensor_def torch_mul [OF assms(1)]
      torch_laws_def [THEN iffD1, OF assms(1)] split: if_splits)

lemma discovery_memory:
  assumes "ple_memory_from_discovery (Some info) kwargs head_dim scale = Inr mem"
  shows "memory_ok mem
    \<and> pm_prime_sizes mem = head_vocab_sizes (int_or (di_ngram_vocab_size_base info) PLE_BASE) (nat (pm_num_heads mem))
    \<and> pm_offsets mem = head_offsets (Some (pm_prime_sizes mem))
    \<and> 0 < int_or (di_ple_embed_dim info) 0
    \<and> (head_dim = None \<longrightarrow> pm_head_dim mem = int_or (di_ple_embed_dim info) 0 div pm_num_heads mem)"
proof -
  let ?n = "int_or (di_ngram_size info) (int PLE_NGRAM_SIZE)"
  let ?h = "int_or (di_heads_per_ngram info) (int PLE_HEADS_PER_NGRAM)"
  let ?m = "(?n - 1) * ?h" and ?e = "int_or (di_ple_embed_dim info) 0"
  let ?ps = "head_vocab_sizes (int_or (di_ngram_vocab_size_base info) PLE_BASE) (nat ?m)"
  define A where "A d = kwargs\<lparr>pa_head_dim := Some d, pa_num_heads := Some ?m, pa_ngram_size := Some ?n,
        pa_heads_per_ngram := Some ?h, pa_multipliers := first_present (di_multipliers info) multiplier_keys,
        pa_scale := (case scale of Some c \<Rightarrow> c | None \<Rightarrow> rat_or (di_weight_scale info) 1),
        pa_prime_sizes := Some ?ps, pa_offsets := Some (head_offsets (Some ?ps))\<rparr>" for d
  have run: "(if ?e \<le> 0 then Inl ValueError
      else rbind (case head_dim of Some d \<Rightarrow> Inr d | None \<Rightarrow> py_div ?e ?m) (\<lambda>d. ple_memory_init (A d))) = Inr mem"
    using assms unfolding ple_memory_from_discovery_def Let_def option.case A_def .
  then have e: "0 < ?e" by (cases "?e \<le> 0") simp_all
  with run obtain d where d: "(case head_dim of Some d \<Rightarrow> Inr d | None \<Rightarrow> py_div ?e ?m) = Inr d"
    and init: "ple_memory_init (A d) = Inr mem" by (auto simp only: rbind_Inr_iff split: if_splits)
  note f = ple_memory_init_Inr [OF init]
  have "?n \<noteq> 0" "?h \<noteq> 0"
    by (rule int_or_nonzero, simp add: PLE_NGRAM_SIZE_def PLE_HEADS_PER_NGRAM_def)+
  then have "pm_num_heads mem = ?m" using f by (simp add: A_def int_or_def)
  moreover have "pm_head_dim mem = d" "pm_prime_sizes mem = ?ps" "pm_offsets mem = head_offsets (Some ?ps)"
    using f by (simp_all add: A_def prime_sizes_or_def offsets_or_def)
  moreover have "head_dim = None \<longrightarrow> d = ?e div ?m" using d by (auto simp: py_div_def split: if_splits)
  ultimately show ?thesis using e ple_memory_init_ok [OF init] by simp
qed

section \<open>A small memory\<close>

text \<open>Two heads of two bytes over the four-row store, for the examples.\<close>

definition demo_args :: memory_args where
  "demo_args = default_args\<lparr>pa_store := Some \<lparr>so_fetch = store_fetch demo_store, so_width = Some 2\<rparr>,
     pa_num_heads := Some 2, pa_heads_per_ngram := Some 1, pa_multipliers := Some [1, 1, 1],
     pa_eos := Some 0, pa_prime_sizes := Some [2, 2], pa_offsets := Some [0, 2]\<rparr>"

definition demo_memory :: memory where
  "demo_memory = \<lparr>pm_store = Some \<lparr>so_fetch = store_fetch demo_store, so_width = Some 2\<rparr>,
     pm_view = None, pm_slot_index = None, pm_num_heads = 2, pm_head_dim = 2, pm_ngram_size = 3,
     pm_heads_per_ngram = 1, pm_eos = 0, pm_multipliers = [1, 1, 1], pm_scale = 1,
     pm_divisor = PLE_DIVISOR, pm_sequential_view = False, pm_start_slot = 0,
     pm_prime_sizes = [2, 2], pm_offsets = [0, 2]\<rparr>"

lemma demo_memory_init: "ple_memory_init demo_args = Inr demo_memory"
  by (simp add: ple_memory_init_def demo_args_def default_args_def demo_memory_def Let_def
      default_head_dim_def prime_sizes_or_def offsets_or_def PLE_NGRAM_SIZE_def)

lemma demo_memory_ok [simp]: "memory_ok demo_memory" "memory_hash_ok demo_memory"
  by (simp_all add: demo_memory_def memory_ok_def memory_hash_ok_def)

section \<open>Properties\<close>

text \<open>
  C26: every memory the constructor returns is consistent: exactly one source, a positive head
  width, \<open>num_heads = (ngram_size - 1) * heads_per_ngram > 0\<close>, one prime size and one offset per
  head, and a way to find slots when the source is a view.
\<close>

theorem memory_init_invariant:
  assumes "ple_memory_init a = Inr mem"
  shows "memory_ok mem"
  using assms by (rule ple_memory_init_ok)

theorem memory_init_invariant_witness: "memory_ok demo_memory"
  by (rule memory_init_invariant [OF demo_memory_init])

text \<open>
  Whatever the source returns, a fetch that does not raise gives one full record per row
  tuple: a short or long answer of the store, the view or the slot index never gets through,
  and a tuple with the wrong number of heads is refused before anything is read.
\<close>

theorem fetch_raw_full_records:
  assumes "fetch_raw mem rows = Inr raw"
  shows "int (length raw) = int (length rows) * record_bytes mem
    \<and> list_all (\<lambda>r. int (length r) = pm_num_heads mem) rows"
  using fetch_raw_length [OF assms] assms
  by (auto simp: fetch_raw_def coerce_rows_iff rbind_Inr_iff list_all_iff)

theorem fetch_raw_full_records_witness:
  "int (length [3, 4, 5, 6 :: byte]) = int (length [[1, 2 :: int]]) * record_bytes demo_memory
    \<and> list_all (\<lambda>r. int (length r) = pm_num_heads demo_memory) [[1, 2 :: int]]"
proof (rule fetch_raw_full_records)
  show "fetch_raw demo_memory [[1, 2]] = Inr [3, 4, 5, 6]"
  proof -
    have "fetch_raw demo_memory [[1, 2]] = Inr (concat (map (\<lambda>r. concat (map (store_row demo_store) r)) [[1, 2]]))"
      by (rule native.fetch_raw_store) (auto simp: demo_memory_def memory_ok_def)
    then show ?thesis by (simp add: store_row_def demo_store_def pread_def)
  qed
qed

text \<open>
  In Store-P mode over the native view reader, a fetch returns, row tuple by row tuple, the
  record of the slot the index names for it.
\<close>

theorem fetch_raw_view_records:
  assumes "memory_ok mem" "pm_view mem = Some v" "vo_read_records v = Some (read_records w)"
    and "pm_slot_index mem = Some ix" "int (vw_slot_bytes w) = record_bytes mem"
    and "\<And>r. r \<in> set rows \<Longrightarrow> int (length r) = pm_num_heads mem \<and> sx_lookup ix r = Inr (slot r) \<and> view_valid w (slot r)"
  shows "fetch_raw mem rows = Inr (concat (map (\<lambda>r. view_row w (slot r)) rows))"
  using assms by (rule nview.fetch_raw_view)

definition demo_view :: view where
  "demo_view = view_open [1, 2, 3, 4, 5, 6, 7, 8] 4 0"

definition demo_view_memory :: memory where
  "demo_view_memory = demo_memory\<lparr>pm_store := None,
     pm_view := Some \<lparr>vo_read_records = Some (read_records demo_view), vo_read_record = read_record demo_view,
       vo_slot_bytes = Inr 4\<rparr>,
     pm_slot_index := Some \<lparr>sx_lookup = (\<lambda>r. if r = [9, 9] then Inr 1 else Inl KeyError), sx_stats = None\<rparr>\<rparr>"

theorem fetch_raw_view_records_witness:
  "fetch_raw demo_view_memory [[9, 9]] = Inr (concat (map (\<lambda>r. view_row demo_view 1) [[9, 9 :: int]]))"
  by (rule fetch_raw_view_records)
    (auto simp: demo_view_memory_def demo_memory_def memory_ok_def record_bytes_def demo_view_def
      view_open_def view_valid_def)

text \<open>
  A memory built from discovery metadata uses prime head sizes with the offsets of their
  prefix sums (so that the heads' row ranges are disjoint), and a record of at most
  \<open>ple_embed_dim\<close> bytes when the head width is derived.
\<close>

theorem discovery_memory_wellformed:
  assumes "ple_memory_from_discovery (Some info) kwargs None scale = Inr mem"
  shows "memory_ok mem \<and> list_all prime_number (pm_prime_sizes mem)
    \<and> pm_offsets mem = head_offsets (Some (pm_prime_sizes mem))
    \<and> record_bytes mem \<le> int_or (di_ple_embed_dim info) 0"
proof -
  note d = discovery_memory [OF assms]
  then have ok: "memory_ok mem" by blast
  have "record_bytes mem \<le> int_or (di_ple_embed_dim info) 0"
    using d ok by (simp add: record_bytes_def memory_ok_def minus_mod_eq_mult_div [symmetric])
  moreover have "list_all prime_number (pm_prime_sizes mem)"
    using d head_vocab_sizes_prime unfolding list_all_iff by metis
  ultimately show ?thesis using d ok by blast
qed

lemma head_vocab_sizes_tiny: "head_vocab_sizes 2 2 = [2, 3]"
  by code_simp

definition demo_info :: discovery where
  "demo_info = \<lparr>di_ngram_size = None, di_heads_per_ngram = Some 1, di_ple_embed_dim = Some 5,
     di_ngram_vocab_size_base = Some 2, di_divisible_by = None, di_multipliers = (\<lambda>_. None), di_weight_scale = None\<rparr>"

theorem discovery_memory_wellformed_witness:
  "memory_ok (demo_memory\<lparr>pm_eos := PLE_EOS, pm_multipliers := DEFAULT_MULTIPLIERS, pm_prime_sizes := [2, 3], pm_offsets := [0, 2]\<rparr>)
   \<and> list_all prime_number (pm_prime_sizes (demo_memory\<lparr>pm_eos := PLE_EOS, pm_multipliers := DEFAULT_MULTIPLIERS, pm_prime_sizes := [2, 3], pm_offsets := [0, 2]\<rparr>))
   \<and> pm_offsets (demo_memory\<lparr>pm_eos := PLE_EOS, pm_multipliers := DEFAULT_MULTIPLIERS, pm_prime_sizes := [2, 3], pm_offsets := [0, 2]\<rparr>)
      = head_offsets (Some (pm_prime_sizes (demo_memory\<lparr>pm_eos := PLE_EOS, pm_multipliers := DEFAULT_MULTIPLIERS, pm_prime_sizes := [2, 3], pm_offsets := [0, 2]\<rparr>)))
   \<and> record_bytes (demo_memory\<lparr>pm_eos := PLE_EOS, pm_multipliers := DEFAULT_MULTIPLIERS, pm_prime_sizes := [2, 3], pm_offsets := [0, 2]\<rparr>)
      \<le> int_or (di_ple_embed_dim demo_info) 0"
proof (rule discovery_memory_wellformed)
  show "ple_memory_from_discovery (Some demo_info)
      (default_args\<lparr>pa_store := Some \<lparr>so_fetch = store_fetch demo_store, so_width = Some 2\<rparr>\<rparr>) None None
    = Inr (demo_memory\<lparr>pm_eos := PLE_EOS, pm_multipliers := DEFAULT_MULTIPLIERS, pm_prime_sizes := [2, 3], pm_offsets := [0, 2]\<rparr>)"
    by (simp add: ple_memory_from_discovery_def demo_info_def Let_def PLE_NGRAM_SIZE_def py_div_def
        head_vocab_sizes_tiny ple_memory_init_def default_args_def prime_sizes_or_def offsets_or_def
        head_offsets_def multiplier_keys_def demo_memory_def rat_or_def)
qed

end
