(* ===== verification/PleSequence.thy ===== *)
theory PleSequence
  imports PleMemory PyDict
begin

text \<open>
  \<open>PleStep\<close>, \<open>PleSequence\<close> and \<open>PleSequenceStore\<close> of \<open>python/engramdb/ple_memory.py\<close>: the
  per-request n-gram history, the bounded queue of steps, and the container of sequences with
  least-recently-used eviction.  The memory is shared and immutable, so it is an argument.
  A method that mutates a sequence returns the new one; when it raises, the sequence is unchanged.
\<close>

section \<open>A sequence\<close>

record 'f step =
  st_tokens :: "int list"
  st_rowids :: "int list list"
  st_raw :: bytes
  st_e_t :: "'f tensor option"

record 'f sequence =
  sq_keep_steps :: nat
  sq_history :: "int list"
  sq_tokens :: "int list"
  sq_steps :: "'f step list"
  sq_last :: "'f step option"

definition fresh_history :: "memory \<Rightarrow> int list" where
  "fresh_history mem = replicate (nat (pm_ngram_size mem - 1)) (pm_eos mem)"

definition sequence_init :: "memory \<Rightarrow> int list option \<Rightarrow> int \<Rightarrow> 'f sequence" where
  "sequence_init mem history keep_steps =
     \<lparr>sq_keep_steps = nat (max 0 keep_steps),
      sq_history = (case history of Some h \<Rightarrow> h | None \<Rightarrow> fresh_history mem),
      sq_tokens = [], sq_steps = [], sq_last = None\<rparr>"

text \<open>\<open>deque(maxlen=keep).append\<close>.\<close>

definition push_step :: "nat \<Rightarrow> 'f step \<Rightarrow> 'f step list \<Rightarrow> 'f step list" where
  "push_step keep s steps = last_n keep (steps @ [s])"

definition seq_feed :: "'f torch \<Rightarrow> memory \<Rightarrow> 'f sequence \<Rightarrow> int list option \<Rightarrow> bool \<Rightarrow> ('f step \<times> 'f sequence) res" where
  "seq_feed T mem seq tokens as_tensor =
     (let tok = as_int_list tokens
      in if tok = []
         then let step = \<lparr>st_tokens = [], st_rowids = [], st_raw = [], st_e_t = None\<rparr>
           in Inr (step, seq\<lparr>sq_steps := push_step (sq_keep_steps seq) step (sq_steps seq), sq_last := Some step\<rparr>)
         else rbind (rowids_for_tokens mem (Some tok) (Some (sq_history seq))) (\<lambda>rows.
              rbind (fetch_raw mem rows) (\<lambda>raw.
              rbind (if as_tensor then rmap Some (tensor_from_raw T mem raw (length rows)) else Inr None) (\<lambda>e_t.
              let step = \<lparr>st_tokens = tok, st_rowids = rows, st_raw = raw, st_e_t = e_t\<rparr>;
                  keep = nat (max 1 (pm_ngram_size mem - 1))
              in Inr (step, seq\<lparr>sq_tokens := sq_tokens seq @ tok,
                   sq_history := last_n keep (sq_history seq @ tok),
                   sq_steps := push_step (sq_keep_steps seq) step (sq_steps seq),
                   sq_last := Some step\<rparr>)))))"

definition new_sequence ::
  "'f torch \<Rightarrow> memory \<Rightarrow> int list option \<Rightarrow> int list option \<Rightarrow> 'f sequence res" where
  "new_sequence T mem initial_tokens history =
     (let seq = sequence_init mem history 32
      in if initial_tokens \<noteq> None then rmap snd (seq_feed T mem seq initial_tokens False) else Inr seq)"

definition current_rowids :: "'f sequence \<Rightarrow> int list list res" where
  "current_rowids seq = (case sq_last seq of None \<Rightarrow> Inl RuntimeError | Some s \<Rightarrow> Inr (st_rowids s))"

definition current_raw :: "'f sequence \<Rightarrow> bytes res" where
  "current_raw seq = (case sq_last seq of None \<Rightarrow> Inl RuntimeError | Some s \<Rightarrow> Inr (st_raw s))"

text \<open>
  \<open>current_e_t\<close> computes a missing tensor and stores it in the last step; the same object is the
  last one of the queue, when the queue keeps any.
\<close>

definition current_e_t :: "'f torch \<Rightarrow> memory \<Rightarrow> 'f sequence \<Rightarrow> ('f tensor \<times> 'f sequence) res" where
  "current_e_t T mem seq =
     (case sq_last seq of None \<Rightarrow> Inl RuntimeError
      | Some s \<Rightarrow> (case st_e_t s of Some t \<Rightarrow> Inr (t, seq)
          | None \<Rightarrow> rbind (fetch_tensor T mem (st_rowids s)) (\<lambda>t.
              let s' = s\<lparr>st_e_t := Some t\<rparr>
              in Inr (t, seq\<lparr>sq_last := Some s',
                   sq_steps := (if sq_steps seq = [] then [] else butlast (sq_steps seq) @ [s'])\<rparr>))))"

definition seq_reset :: "memory \<Rightarrow> 'f sequence \<Rightarrow> 'f sequence" where
  "seq_reset mem seq = seq\<lparr>sq_history := fresh_history mem, sq_tokens := [], sq_steps := [], sq_last := None\<rparr>"

definition seq_length :: "'f sequence \<Rightarrow> nat" where
  "seq_length seq = length (sq_tokens seq)"

text \<open>Feeding a list of batches one after the other.\<close>

fun feed_all :: "'f torch \<Rightarrow> memory \<Rightarrow> 'f sequence \<Rightarrow> int list list \<Rightarrow> ('f step list \<times> 'f sequence) res" where
  "feed_all T mem seq [] = Inr ([], seq)"
| "feed_all T mem seq (b # bs) =
     rbind (seq_feed T mem seq (Some b) False) (\<lambda>(step, seq').
     rbind (feed_all T mem seq' bs) (\<lambda>(steps, seq''). Inr (step # steps, seq'')))"

section \<open>The store of sequences\<close>

record ('id, 'f) seq_store =
  ss_max_sequences :: "int option"
  ss_keep_steps :: int
  ss_seqs :: "('id, 'f sequence) dict"

definition seq_store_init :: "int option \<Rightarrow> int \<Rightarrow> ('id, 'f) seq_store" where
  "seq_store_init max_sequences keep_steps =
     \<lparr>ss_max_sequences = max_sequences, ss_keep_steps = max 0 keep_steps, ss_seqs = []\<rparr>"

text \<open>At the limit the least recently used entry goes; an empty dictionary cannot give one.\<close>

definition make_room :: "int option \<Rightarrow> ('id, 'v) dict \<Rightarrow> ('id, 'v) dict res" where
  "make_room max_sequences d =
     (case max_sequences of
        Some m \<Rightarrow> (if m \<le> int (length d) then popitem_first d else Inr d)
      | None \<Rightarrow> Inr d)"

definition get_or_create ::
  "memory \<Rightarrow> ('id, 'f) seq_store \<Rightarrow> 'id \<Rightarrow> int list option \<Rightarrow> int option \<Rightarrow> ('f sequence \<times> ('id, 'f) seq_store) res" where
  "get_or_create mem ss seq_id history keep_steps =
     (case dict_get (ss_seqs ss) seq_id of
        Some seq \<Rightarrow> Inr (seq, ss\<lparr>ss_seqs := move_to_end seq_id (ss_seqs ss)\<rparr>)
      | None \<Rightarrow>
          rbind (make_room (ss_max_sequences ss) (ss_seqs ss)) (\<lambda>seqs.
          let seq = sequence_init mem history (case keep_steps of None \<Rightarrow> ss_keep_steps ss | Some k \<Rightarrow> k)
          in Inr (seq, ss\<lparr>ss_seqs := dict_set seq_id seq seqs\<rparr>)))"

text \<open>
  \<open>PleSequenceStore.feed\<close>: the sequence is created or moved first, and stays so when the feed
  itself raises; a feed that returns mutates the stored object.
\<close>

definition store_feed ::
  "'f torch \<Rightarrow> memory \<Rightarrow> ('id, 'f) seq_store \<Rightarrow> 'id \<Rightarrow> int list option \<Rightarrow> bool \<Rightarrow> 'f step res \<times> ('id, 'f) seq_store" where
  "store_feed T mem ss seq_id tokens as_tensor =
     (case get_or_create mem ss seq_id None None of
        Inl e \<Rightarrow> (Inl e, ss)
      | Inr (seq, ss') \<Rightarrow>
          (case seq_feed T mem seq tokens as_tensor of
             Inl e \<Rightarrow> (Inl e, ss')
           | Inr (step, seq') \<Rightarrow> (Inr step, ss'\<lparr>ss_seqs := dict_set seq_id seq' (ss_seqs ss')\<rparr>)))"

definition store_get :: "('id, 'f) seq_store \<Rightarrow> 'id \<Rightarrow> ('f sequence \<times> ('id, 'f) seq_store) res" where
  "store_get ss seq_id =
     (case dict_get (ss_seqs ss) seq_id of
        None \<Rightarrow> Inl KeyError
      | Some seq \<Rightarrow> Inr (seq, ss\<lparr>ss_seqs := move_to_end seq_id (ss_seqs ss)\<rparr>))"

definition store_current_e_t ::
  "'f torch \<Rightarrow> memory \<Rightarrow> ('id, 'f) seq_store \<Rightarrow> 'id \<Rightarrow> 'f tensor res \<times> ('id, 'f) seq_store" where
  "store_current_e_t T mem ss seq_id =
     (case store_get ss seq_id of
        Inl e \<Rightarrow> (Inl e, ss)
      | Inr (seq, ss') \<Rightarrow>
          (case current_e_t T mem seq of
             Inl e \<Rightarrow> (Inl e, ss')
           | Inr (t, seq') \<Rightarrow> (Inr t, ss'\<lparr>ss_seqs := dict_set seq_id seq' (ss_seqs ss')\<rparr>)))"

definition store_current_raw :: "('id, 'f) seq_store \<Rightarrow> 'id \<Rightarrow> bytes res \<times> ('id, 'f) seq_store" where
  "store_current_raw ss seq_id =
     (case store_get ss seq_id of Inl e \<Rightarrow> (Inl e, ss) | Inr (seq, ss') \<Rightarrow> (current_raw seq, ss'))"

definition store_remove :: "('id, 'f) seq_store \<Rightarrow> 'id \<Rightarrow> ('id, 'f) seq_store" where
  "store_remove ss seq_id = ss\<lparr>ss_seqs := dict_del seq_id (ss_seqs ss)\<rparr>"

definition store_clear :: "('id, 'f) seq_store \<Rightarrow> ('id, 'f) seq_store" where
  "store_clear ss = ss\<lparr>ss_seqs := []\<rparr>"

record store_stats =
  ws_sequences :: nat
  ws_max_sequences :: "int option"
  ws_keep_steps :: int
  ws_memory_source :: string

definition seq_store_stats :: "memory \<Rightarrow> ('id, 'f) seq_store \<Rightarrow> store_stats" where
  "seq_store_stats mem ss =
     \<lparr>ws_sequences = length (ss_seqs ss), ws_max_sequences = ss_max_sequences ss,
      ws_keep_steps = ss_keep_steps ss, ws_memory_source = memory_source mem\<rparr>"

section \<open>Streaming\<close>

text \<open>The context a history stands for: an empty one is EOS padding.\<close>

definition context_of :: "memory \<Rightarrow> int list \<Rightarrow> int list" where
  "context_of mem h = (if h = [] then [pm_eos mem, pm_eos mem] else h)"

text \<open>
  The invariant of a sequence that started with history \<open>h0\<close>: for every continuation the short
  history gives the rows that \<open>h0\<close> and all tokens so far give, and the queue is bounded and ends with
  the last step.
\<close>

definition seq_inv :: "memory \<Rightarrow> int list \<Rightarrow> 'f sequence \<Rightarrow> bool" where
  "seq_inv mem h0 seq \<longleftrightarrow>
     (\<forall>t. memory_rows mem (context_of mem (sq_history seq)) t
        = memory_rows mem (context_of mem h0 @ sq_tokens seq) t)
     \<and> length (sq_steps seq) \<le> sq_keep_steps seq
     \<and> (sq_steps seq \<noteq> [] \<longrightarrow> sq_last seq = Some (last (sq_steps seq)))"

lemma rows_after_cont:
  assumes "\<And>t. rows_after eos ms sizes offs n H c t = rows_after eos ms sizes offs n H c' t"
  shows "rows_after eos ms sizes offs n H (c @ u) t = rows_after eos ms sizes offs n H (c' @ u) t"
  using assms [of "u @ t"] assms [of u] by (simp add: rows_after_append)

lemma rows_after_context:
  "memory_rows mem (h @ tok) t = memory_rows mem (context_of mem h @ tok) t"
proof (cases "h = []")
  case True
  have "rows_after eos ms sizes offs n H ([] @ tok) t = rows_after eos ms sizes offs n H ([eos, eos] @ tok) t"
    for eos ms sizes offs n H
    using rows_after_padding [of eos ms sizes offs n H 0 _ 2]
    by (intro rows_after_cont) (simp add: numeral_2_eq_2)
  with True show ?thesis by (simp add: context_of_def)
qed (simp add: context_of_def)

lemma push_step_props:
  "length (push_step k s steps) \<le> k" "push_step k s steps \<noteq> [] \<Longrightarrow> last (push_step k s steps) = s"
  using last_last_n [of k "steps @ [s]"] by (simp_all add: push_step_def)

lemma seq_feed_inv:
  assumes ok: "memory_ok mem" "memory_hash_ok mem" and inv: "seq_inv mem h0 seq"
    and feed: "seq_feed T mem seq tokens as_tensor = Inr (step, seq')"
  shows "seq_inv mem h0 seq' \<and> sq_tokens seq' = sq_tokens seq @ as_int_list tokens
    \<and> st_rowids step = memory_rows mem (context_of mem h0 @ sq_tokens seq) (as_int_list tokens)
    \<and> sq_last seq' = Some step"
proof (cases "as_int_list tokens = []")
  case True
  with feed inv show ?thesis
    by (auto simp: seq_feed_def Let_def seq_inv_def push_step_props rows_after_def)
next
  case False
  let ?tok = "as_int_list tokens"
  obtain rows raw e_t where rows: "rowids_for_tokens mem (Some ?tok) (Some (sq_history seq)) = Inr rows"
    and step: "step = \<lparr>st_tokens = ?tok, st_rowids = rows, st_raw = raw, st_e_t = e_t\<rparr>"
    and seq': "seq' = seq\<lparr>sq_tokens := sq_tokens seq @ ?tok,
        sq_history := last_n (nat (max 1 (pm_ngram_size mem - 1))) (sq_history seq @ ?tok),
        sq_steps := push_step (sq_keep_steps seq) step (sq_steps seq), sq_last := Some step\<rparr>"
    using feed False by (auto simp: seq_feed_def Let_def rbind_Inr_iff)
  have "rows = memory_rows mem (context_of mem (sq_history seq)) ?tok"
    using rows rowids_for_tokens_rows [OF ok, of ?tok "Some (sq_history seq)"]
    by (simp add: as_int_list_def context_of_def)
  then have rowids: "st_rowids step = memory_rows mem (context_of mem h0 @ sq_tokens seq) ?tok"
    using inv by (simp add: step seq_inv_def)
  have "memory_rows mem (context_of mem (sq_history seq')) t
      = memory_rows mem (context_of mem h0 @ sq_tokens seq') t" for t
  proof -
    have n: "2 \<le> pm_ngram_size mem" using ok(1) by (simp add: memory_ok_def)
    have ne: "sq_history seq' \<noteq> []"
      using False last_n_nonempty [of "nat (max 1 (pm_ngram_size mem - 1))" "sq_history seq @ ?tok"]
      by (simp add: seq')
    have "nat (pm_ngram_size mem) - 1 = nat (max 1 (pm_ngram_size mem - 1))" using n by linarith
    then have "memory_rows mem (sq_history seq') t = memory_rows mem (sq_history seq @ ?tok) t"
      using rows_after_last_n [of "nat (pm_ngram_size mem)" "nat (max 1 (pm_ngram_size mem - 1))"]
      by (simp add: seq')
    also have "\<dots> = memory_rows mem (context_of mem (sq_history seq) @ ?tok) t"
      by (rule rows_after_context)
    also have "\<dots> = memory_rows mem ((context_of mem h0 @ sq_tokens seq) @ ?tok) t"
      using inv by (intro rows_after_cont) (simp add: seq_inv_def)
    finally show ?thesis using ne by (simp add: context_of_def seq')
  qed
  then have "seq_inv mem h0 seq'"
    using inv by (simp add: seq_inv_def seq' push_step_props)
  with rowids show ?thesis by (simp add: seq')
qed

lemma sequence_init_inv: "seq_inv mem (sq_history (sequence_init mem history k :: 'f sequence)) (sequence_init mem history k :: 'f sequence)"
  by (simp add: seq_inv_def sequence_init_def)

text \<open>The bytes a memory over a row store returns for a list of row tuples.\<close>

context row_store
begin

definition tuple_bytes :: "int list list \<Rightarrow> bytes" where
  "tuple_bytes rows = concat (map (\<lambda>r. concat (map row r)) rows)"

lemma seq_feed_total:
  assumes ok: "memory_ok mem" "memory_hash_ok mem" and inv: "seq_inv mem h0 seq"
    and s: "pm_store mem = Some s" "so_fetch s = fetch" "int width = pm_head_dim mem"
    and valid: "\<And>r. r \<in> set (memory_rows mem (context_of mem h0 @ sq_tokens seq) tok) \<Longrightarrow> list_all valid r"
  shows "\<exists>step seq'. seq_feed T mem seq (Some tok) False = Inr (step, seq')
    \<and> st_raw step = tuple_bytes (memory_rows mem (context_of mem h0 @ sq_tokens seq) tok)"
proof (cases "tok = []")
  case True
  then show ?thesis by (simp add: seq_feed_def as_int_list_def Let_def rows_after_def tuple_bytes_def)
next
  case False
  let ?rows = "memory_rows mem (context_of mem h0 @ sq_tokens seq) tok"
  have "rowids_for_tokens mem (Some tok) (Some (sq_history seq))
      = Inr (memory_rows mem (context_of mem (sq_history seq)) tok)"
    using rowids_for_tokens_rows [OF ok] by (simp add: as_int_list_def context_of_def)
  then have "rowids_for_tokens mem (Some tok) (Some (sq_history seq)) = Inr ?rows"
    using inv by (simp add: seq_inv_def)
  moreover have "fetch_raw mem ?rows = Inr (tuple_bytes ?rows)"
    unfolding tuple_bytes_def
    by (rule fetch_raw_store [OF ok(1) s]) (use memory_rows_heads [OF ok(1)] valid in auto)
  ultimately show ?thesis using False by (simp add: seq_feed_def as_int_list_def Let_def)
qed

lemma feed_all_total:
  assumes ok: "memory_ok mem" "memory_hash_ok mem" and inv: "seq_inv mem h0 seq"
    and s: "pm_store mem = Some s" "so_fetch s = fetch" "int width = pm_head_dim mem"
    and valid: "\<And>r. r \<in> set (memory_rows mem (context_of mem h0 @ sq_tokens seq) (concat bs)) \<Longrightarrow> list_all valid r"
  shows "\<exists>steps seq'. feed_all T mem seq bs = Inr (steps, seq')
    \<and> concat (map st_rowids steps) = memory_rows mem (context_of mem h0 @ sq_tokens seq) (concat bs)
    \<and> concat (map st_raw steps) = tuple_bytes (memory_rows mem (context_of mem h0 @ sq_tokens seq) (concat bs))
    \<and> sq_tokens seq' = sq_tokens seq @ concat bs \<and> seq_inv mem h0 seq'"
  using inv valid
proof (induction bs arbitrary: seq)
  case Nil
  then show ?case by (simp add: rows_after_def tuple_bytes_def)
next
  case (Cons b bs)
  let ?ctx = "context_of mem h0 @ sq_tokens seq"
  have split: "memory_rows mem ?ctx (concat (b # bs)) = memory_rows mem ?ctx b @ memory_rows mem (?ctx @ b) (concat bs)"
    by (simp add: rows_after_append)
  obtain step seq' where feed: "seq_feed T mem seq (Some b) False = Inr (step, seq')"
    and raw: "st_raw step = tuple_bytes (memory_rows mem ?ctx b)"
    using seq_feed_total [OF ok Cons.prems(1) s, of b T] Cons.prems(2) split by auto
  note f = seq_feed_inv [OF ok Cons.prems(1) feed]
  have tok: "sq_tokens seq' = sq_tokens seq @ b" using f by (simp add: as_int_list_def)
  have "\<And>r. r \<in> set (memory_rows mem (context_of mem h0 @ sq_tokens seq') (concat bs)) \<Longrightarrow> list_all valid r"
    using Cons.prems(2) split tok by simp
  with Cons.IH [of seq'] f obtain steps seq'' where rest: "feed_all T mem seq' bs = Inr (steps, seq'')"
      "concat (map st_rowids steps) = memory_rows mem (?ctx @ b) (concat bs)"
      "concat (map st_raw steps) = tuple_bytes (memory_rows mem (?ctx @ b) (concat bs))"
      "sq_tokens seq'' = sq_tokens seq' @ concat bs" "seq_inv mem h0 seq''"
    using tok by auto
  then show ?case
    unfolding split using feed f raw tok by (simp add: as_int_list_def tuple_bytes_def)
qed

end

section \<open>The tensor of the last step\<close>

lemma current_e_t_after_feed:
  assumes "seq_feed T mem seq tokens False = Inr (step, seq')" "as_int_list tokens \<noteq> []"
  shows "rmap fst (current_e_t T mem seq')
    = rbind (seq_feed T mem seq tokens True) (\<lambda>(step, seq''). rmap fst (current_e_t T mem seq''))"
proof -
  obtain rows raw where r: "rowids_for_tokens mem (Some (as_int_list tokens)) (Some (sq_history seq)) = Inr rows"
      "fetch_raw mem rows = Inr raw" and last: "sq_last seq' = Some step"
      "st_rowids step = rows" "st_e_t step = None"
    using assms by (auto simp: seq_feed_def Let_def rbind_Inr_iff)
  have ne: "rows \<noteq> [] \<Longrightarrow> fetch_tensor T mem rows = tensor_from_raw T mem raw (length rows)"
    using r(2) by (rule fetch_tensor_raw [rotated])
  have e: "rows = [] \<Longrightarrow> fetch_tensor T mem rows = tensor_from_raw T mem raw (length rows)"
    by (simp add: fetch_tensor_def coerce_rows_def tensor_from_raw_def Let_def)
  have "rmap fst (current_e_t T mem seq') = tensor_from_raw T mem raw (length rows)"
    using last ne e
    by (cases "rows = []"; cases "tensor_from_raw T mem raw (length rows)") (simp_all add: current_e_t_def Let_def)
  moreover have "rbind (seq_feed T mem seq tokens True) (\<lambda>(step, seq''). rmap fst (current_e_t T mem seq''))
      = tensor_from_raw T mem raw (length rows)"
    using r assms(2)
    by (cases "tensor_from_raw T mem raw (length rows)") (simp_all add: seq_feed_def Let_def current_e_t_def)
  ultimately show ?thesis by simp
qed

section \<open>The bounded store\<close>

definition seq_store_inv :: "('id, 'f) seq_store \<Rightarrow> bool" where
  "seq_store_inv ss \<longleftrightarrow> dict_wf (ss_seqs ss)
     \<and> (\<forall>m. ss_max_sequences ss = Some m \<longrightarrow> 1 \<le> m \<longrightarrow> int (length (ss_seqs ss)) \<le> m)"

lemma make_room_Inr:
  assumes "make_room mx d = Inr d'"
  shows "(\<exists>n. d' = drop n d) \<and> (mx = Some m \<longrightarrow> 1 \<le> m \<longrightarrow> int (length d) \<le> m \<longrightarrow> int (length d') < m)"
proof (cases mx)
  case None
  then have "d' = drop 0 d" using assms by (simp add: make_room_def)
  with None show ?thesis by blast
next
  case (Some l)
  show ?thesis
  proof (cases "l \<le> int (length d)")
    case True
    then obtain p ps where "d = p # ps" "d' = ps"
      using assms Some by (cases d) (simp_all add: make_room_def popitem_first_def)
    then have "d' = drop 1 d" "length d = Suc (length d')" by simp_all
    then show ?thesis using Some by auto
  next
    case False
    then have d': "d' = d" using assms Some by (simp add: make_room_def)
    then have "d' = drop 0 d" by simp
    then have "\<exists>n. d' = drop n d" by blast
    then show ?thesis using False Some d' by auto
  qed
qed

lemma get_or_create_new:
  assumes "get_or_create mem ss i h k = Inr (seq, ss')" "dict_get (ss_seqs ss) i = None"
  obtains seqs where "make_room (ss_max_sequences ss) (ss_seqs ss) = Inr seqs"
    "ss' = ss\<lparr>ss_seqs := dict_set i seq seqs\<rparr>"
  using assms by (auto simp: get_or_create_def rbind_Inr_iff Let_def)

lemma get_or_create_old:
  assumes "get_or_create mem ss i h k = Inr (seq, ss')" "dict_get (ss_seqs ss) i = Some s"
  shows "seq = s \<and> ss' = ss\<lparr>ss_seqs := move_to_end i (ss_seqs ss)\<rparr>"
  using assms by (simp add: get_or_create_def)

lemma get_or_create_inv:
  assumes "seq_store_inv ss" "get_or_create mem ss i h k = Inr (seq, ss')"
  shows "seq_store_inv ss' \<and> dict_get (ss_seqs ss') i = Some seq \<and> ss_max_sequences ss' = ss_max_sequences ss"
proof (cases "dict_get (ss_seqs ss) i")
  case (Some s)
  with get_or_create_old [OF assms(2)] assms(1) show ?thesis
    by (simp add: seq_store_inv_def dict_wf_move_to_end length_move_to_end)
next
  case None
  obtain seqs where seqs: "make_room (ss_max_sequences ss) (ss_seqs ss) = Inr seqs"
    and ss': "ss' = ss\<lparr>ss_seqs := dict_set i seq seqs\<rparr>"
    using get_or_create_new [OF assms(2) None] .
  have wf: "dict_wf seqs"
    using make_room_Inr [OF seqs, of 0] assms(1) dict_wf_drop by (auto simp: seq_store_inv_def)
  have "int (length (dict_set i seq seqs)) \<le> m" if "ss_max_sequences ss = Some m" "1 \<le> m" for m
  proof -
    have "int (length seqs) < m"
      using make_room_Inr [OF seqs, of m] that assms(1) by (simp add: seq_store_inv_def)
    then show ?thesis by (simp add: length_dict_set)
  qed
  with wf show ?thesis by (simp add: ss' seq_store_inv_def dict_wf_set)
qed

lemma seq_store_inv_set:
  assumes "seq_store_inv ss" "dict_get (ss_seqs ss) i = Some s"
  shows "seq_store_inv (ss\<lparr>ss_seqs := dict_set i s' (ss_seqs ss)\<rparr>)"
proof -
  have "i \<in> fst ` set (ss_seqs ss)" using assms(2) dict_get_None_iff by (metis option.distinct(1))
  with assms(1) show ?thesis by (simp add: seq_store_inv_def dict_wf_set length_dict_set)
qed

lemma store_feed_cases:
  obtains (refused) e where "get_or_create mem ss i None None = Inl e" "store_feed T mem ss i tokens as_tensor = (Inl e, ss)"
  | (failed) seq ss' e where "get_or_create mem ss i None None = Inr (seq, ss')"
      "seq_feed T mem seq tokens as_tensor = Inl e" "store_feed T mem ss i tokens as_tensor = (Inl e, ss')"
  | (fed) seq ss' step seq' where "get_or_create mem ss i None None = Inr (seq, ss')"
      "seq_feed T mem seq tokens as_tensor = Inr (step, seq')"
      "store_feed T mem ss i tokens as_tensor = (Inr step, ss'\<lparr>ss_seqs := dict_set i seq' (ss_seqs ss')\<rparr>)"
proof (cases "get_or_create mem ss i None None")
  case (Inl e)
  then show ?thesis using refused by (simp add: store_feed_def)
next
  case (Inr r)
  then obtain seq ss' where r: "get_or_create mem ss i None None = Inr (seq, ss')" by (cases r) simp
  show ?thesis
  proof (cases "seq_feed T mem seq tokens as_tensor")
    case (Inl e)
    with r failed show ?thesis by (simp add: store_feed_def)
  next
    case (Inr q)
    then obtain step seq' where "seq_feed T mem seq tokens as_tensor = Inr (step, seq')" by (cases q) simp
    with r fed show ?thesis by (simp add: store_feed_def)
  qed
qed

lemma store_feed_inv:
  assumes "seq_store_inv ss"
  shows "seq_store_inv (snd (store_feed T mem ss i tokens as_tensor))"
proof (cases rule: store_feed_cases [of mem ss i T tokens as_tensor])
  case (refused e)
  with assms show ?thesis by simp
next
  case (failed seq ss' e)
  with get_or_create_inv [OF assms failed(1)] show ?thesis by simp
next
  case (fed seq ss' step seq')
  with get_or_create_inv [OF assms fed(1)] show ?thesis by (simp add: seq_store_inv_set)
qed

text \<open>Feeding one sequence leaves every other sequence as it was, or evicts it.\<close>

lemma dict_get_drop: "dict_wf d \<Longrightarrow> dict_get (drop n d) k = Some v \<Longrightarrow> dict_get d k = Some v"
  by (auto simp: dict_get_Some_iff dict_wf_drop dest: in_set_dropD)

lemma get_or_create_other:
  assumes "dict_wf (ss_seqs ss)" "get_or_create mem ss i h k = Inr (seq, ss')" "j \<noteq> i"
    "dict_get (ss_seqs ss') j = Some s"
  shows "dict_get (ss_seqs ss) j = Some s"
proof (cases "dict_get (ss_seqs ss) i")
  case None
  obtain seqs where seqs: "make_room (ss_max_sequences ss) (ss_seqs ss) = Inr seqs"
    and ss': "ss' = ss\<lparr>ss_seqs := dict_set i seq seqs\<rparr>"
    using get_or_create_new [OF assms(2) None] .
  obtain n where "seqs = drop n (ss_seqs ss)" using make_room_Inr [OF seqs] by blast
  moreover have "dict_get seqs j = Some s" using assms(3,4) by (simp add: ss')
  ultimately show ?thesis using dict_get_drop [OF assms(1)] by simp
next
  case (Some s')
  with get_or_create_old [OF assms(2)] assms(4) show ?thesis by simp
qed

lemma store_feed_other:
  assumes "dict_wf (ss_seqs ss)" "j \<noteq> i"
    "dict_get (ss_seqs (snd (store_feed T mem ss i tokens as_tensor))) j = Some s"
  shows "dict_get (ss_seqs ss) j = Some s"
proof (cases rule: store_feed_cases [of mem ss i T tokens as_tensor])
  case (refused e)
  with assms show ?thesis by simp
next
  case (failed seq ss' e)
  with get_or_create_other [OF assms(1) failed(1) assms(2)] assms(3) show ?thesis by simp
next
  case (fed seq ss' step seq')
  with get_or_create_other [OF assms(1) fed(1) assms(2)] assms(2,3) show ?thesis by simp
qed

section \<open>Properties\<close>

text \<open>
  C7: streaming over the native store: for any split of a token stream into batches every feed
  succeeds when the store holds the rows the stream addresses, and the batches' row ids and
  bytes, put together, are the ones of a single request for the whole stream; the short history
  the sequence keeps loses nothing.
\<close>

theorem feed_batches_one_shot:
  fixes T :: "'f torch"
  assumes "memory_ok mem" "memory_hash_ok mem"
    and "pm_store mem = Some \<lparr>so_fetch = store_fetch s, so_width = w\<rparr>" "int (ns_width s) = pm_head_dim mem"
    and "rowids_for_tokens mem (Some (concat batches)) history = Inr rows"
    and "\<And>r. r \<in> set rows \<Longrightarrow> list_all (store_valid s) r"
  shows "\<exists>steps seq. feed_all T mem (sequence_init mem history keep) batches = Inr (steps, seq)
    \<and> concat (map st_rowids steps) = rows
    \<and> Inr (concat (map st_raw steps)) = fetch_raw mem rows
    \<and> sq_tokens seq = concat batches"
proof -
  let ?seq = "sequence_init mem history keep :: 'f sequence"
  have ctx: "memory_rows mem (context_of mem (sq_history ?seq)) t = memory_rows mem (context_of mem (as_int_list history)) t" for t
  proof (cases history)
    case None
    have "context_of mem (fresh_history mem) = replicate (nat (pm_ngram_size mem - 1)) (pm_eos mem)"
      using assms(1) by (auto simp: context_of_def fresh_history_def memory_ok_def)
    moreover have "context_of mem [] = replicate 2 (pm_eos mem)"
      by (simp add: context_of_def numeral_2_eq_2)
    ultimately show ?thesis using None rows_after_padding by (simp add: sequence_init_def as_int_list_def)
  qed (simp add: sequence_init_def as_int_list_def)
  have rows: "rows = memory_rows mem (context_of mem (sq_history ?seq) @ sq_tokens ?seq) (concat batches)"
    using ctx [of "concat batches"] rowids_for_tokens_rows [OF assms(1,2), of "concat batches" history] assms(5)
    by (simp add: context_of_def [of mem "as_int_list history"]) (simp add: sequence_init_def)
  have "\<exists>steps seq'. feed_all T mem ?seq batches = Inr (steps, seq')
      \<and> concat (map st_rowids steps) = rows \<and> concat (map st_raw steps) = native.tuple_bytes s rows
      \<and> sq_tokens seq' = sq_tokens ?seq @ concat batches \<and> seq_inv mem (sq_history ?seq) seq'"
    unfolding rows
    by (rule native.feed_all_total [OF assms(1,2) sequence_init_inv assms(3)])
      (use assms(4,6) rows in auto)
  moreover have "fetch_raw mem rows = Inr (native.tuple_bytes s rows)"
    unfolding native.tuple_bytes_def
    by (rule native.fetch_raw_store [OF assms(1,3)])
      (use assms(4,6) rows memory_rows_heads [OF assms(1)] in auto)
  ultimately show ?thesis by (auto simp: sequence_init_def)
qed

theorem feed_batches_one_shot_witness:
  "\<exists>steps seq. feed_all (list_torch uint (\<lambda>c x. x)) demo_memory (sequence_init demo_memory None 1) [[5, 6], [], [7]] = Inr (steps, seq)
    \<and> concat (map st_rowids steps) = [[1, 3], [1, 3], [1, 2]]
    \<and> Inr (concat (map st_raw steps)) = fetch_raw demo_memory [[1, 3], [1, 3], [1, 2]]
    \<and> sq_tokens seq = concat [[5, 6], [], [7]]"
proof (rule feed_batches_one_shot [where s = demo_store and w = "Some 2"])
  show "rowids_for_tokens demo_memory (Some (concat [[5, 6], [], [7]])) None = Inr [[1, 3], [1, 3], [1, 2]]"
    by (simp add: demo_memory_def rowids_for_tokens_def as_int_list_def) code_simp
qed (simp, simp, auto simp: demo_memory_def)

text \<open>
  Continuous batching: after any interleaving of feeds to any sequence ids, failing ones
  included, a store created with a positive limit holds at most that many sequences, each
  under one key.
\<close>

definition run_feeds ::
  "'f torch \<Rightarrow> memory \<Rightarrow> ('id \<times> int list) list \<Rightarrow> ('id, 'f) seq_store \<Rightarrow> ('id, 'f) seq_store" where
  "run_feeds T mem ops ss = fold (\<lambda>(i, toks) ss. snd (store_feed T mem ss i (Some toks) False)) ops ss"

lemma run_feeds_inv: "seq_store_inv ss \<Longrightarrow> seq_store_inv (run_feeds T mem ops ss)"
  unfolding run_feeds_def by (induction ops arbitrary: ss) (auto simp: store_feed_inv)

lemma store_feed_max: "ss_max_sequences (snd (store_feed T mem ss i tokens as_tensor)) = ss_max_sequences ss"
  by (auto simp: store_feed_def get_or_create_def rbind_def Let_def split: sum.splits prod.splits option.splits)

lemma run_feeds_max: "ss_max_sequences (run_feeds T mem ops ss) = ss_max_sequences ss"
  unfolding run_feeds_def by (induction ops arbitrary: ss) (auto simp: store_feed_max)

theorem sequence_store_bounded:
  assumes "1 \<le> m"
  shows "int (length (ss_seqs (run_feeds T mem ops (seq_store_init (Some m) keep)))) \<le> m
    \<and> dict_wf (ss_seqs (run_feeds T mem ops (seq_store_init (Some m) keep)))"
proof -
  have "seq_store_inv (seq_store_init (Some m) keep)" by (simp add: seq_store_inv_def seq_store_init_def)
  from run_feeds_inv [OF this, of T mem ops] assms show ?thesis
    by (simp add: seq_store_inv_def run_feeds_max) (simp add: seq_store_init_def)
qed

theorem sequence_store_bounded_witness:
  "int (length (ss_seqs (run_feeds (list_torch uint (\<lambda>c x. x)) demo_memory [(1 :: nat, [5]), (2, [6]), (1, [7])] (seq_store_init (Some 1) 4)))) \<le> 1
    \<and> dict_wf (ss_seqs (run_feeds (list_torch uint (\<lambda>c x. x)) demo_memory [(1 :: nat, [5]), (2, [6]), (1, [7])] (seq_store_init (Some 1) 4)))"
  by (rule sequence_store_bounded) simp

text \<open>
  Isolation: feeding a stored sequence through the container returns the step the sequence
  itself would return, stores exactly the sequence it would become, and leaves every other
  sequence untouched.
\<close>

theorem sequence_store_isolated:
  assumes "dict_get (ss_seqs ss) i = Some seq" "seq_feed T mem seq tokens as_tensor = Inr (step, seq')"
  shows "\<exists>ss'. store_feed T mem ss i tokens as_tensor = (Inr step, ss')
    \<and> (\<forall>j. dict_get (ss_seqs ss') j = (if j = i then Some seq' else dict_get (ss_seqs ss) j))"
  using assms by (simp add: store_feed_def get_or_create_def)

theorem sequence_store_isolated_witness:
  "\<exists>ss'. store_feed (list_torch uint (\<lambda>c x. x)) demo_memory
        \<lparr>ss_max_sequences = None, ss_keep_steps = 4, ss_seqs = [(1 :: nat, sequence_init demo_memory None 4)]\<rparr> 1 (Some []) False
      = (Inr \<lparr>st_tokens = [], st_rowids = [], st_raw = [], st_e_t = None\<rparr>, ss')
    \<and> (\<forall>j. dict_get (ss_seqs ss') j = (if j = 1 then Some ((sequence_init demo_memory None 4)
          \<lparr>sq_steps := push_step 4 \<lparr>st_tokens = [], st_rowids = [], st_raw = [], st_e_t = None\<rparr> [],
           sq_last := Some \<lparr>st_tokens = [], st_rowids = [], st_raw = [], st_e_t = None\<rparr>\<rparr>)
        else dict_get (ss_seqs \<lparr>ss_max_sequences = None, ss_keep_steps = (4 :: int),
            ss_seqs = [(1 :: nat, sequence_init demo_memory None 4)]\<rparr>) j))"
  by (rule sequence_store_isolated, simp add: dict_get_def,
      unfold seq_feed_def as_int_list_def sequence_init_def Let_def, simp)

text \<open>
  \<open>current_e_t\<close> after a raw feed computes the tensor that feeding the same batch with
  \<open>as_tensor\<close> would have attached to the step.
\<close>

theorem lazy_tensor_equiv:
  assumes "seq_feed T mem seq tokens False = Inr (step, seq')" "as_int_list tokens \<noteq> []"
  shows "rmap fst (current_e_t T mem seq')
    = rbind (seq_feed T mem seq tokens True) (\<lambda>(step, seq''). rmap fst (current_e_t T mem seq''))"
  using assms by (rule current_e_t_after_feed)

lemma demo_feed:
  "\<exists>step seq'. seq_feed (T :: 'f torch) demo_memory (sequence_init demo_memory None 1) (Some [5]) False = Inr (step, seq')"
proof -
  have r: "rowids_for_tokens demo_memory (Some [5]) (Some (fresh_history demo_memory)) = Inr [[1, 3]]"
    by (simp add: demo_memory_def rowids_for_tokens_def as_int_list_def fresh_history_def) code_simp
  have "fetch_raw demo_memory [[1, 3]] = Inr (concat (map (\<lambda>r. concat (map (store_row demo_store) r)) [[1, 3]]))"
    by (rule native.fetch_raw_store) (auto simp: demo_memory_def memory_ok_def)
  with r show ?thesis by (simp add: seq_feed_def as_int_list_def sequence_init_def Let_def)
qed

theorem lazy_tensor_equiv_witness:
  "\<exists>step seq'. seq_feed (list_torch uint (\<lambda>c x. x)) demo_memory (sequence_init demo_memory None 1) (Some [5]) False = Inr (step, seq')
    \<and> rmap fst (current_e_t (list_torch uint (\<lambda>c x. x)) demo_memory seq')
      = rbind (seq_feed (list_torch uint (\<lambda>c x. x)) demo_memory (sequence_init demo_memory None 1) (Some [5]) True)
          (\<lambda>(step, seq''). rmap fst (current_e_t (list_torch uint (\<lambda>c x. x)) demo_memory seq''))"
proof -
  obtain step seq' where "seq_feed (list_torch uint (\<lambda>c x. x)) demo_memory (sequence_init demo_memory None 1) (Some [5]) False = Inr (step, seq')"
    using demo_feed by blast
  with lazy_tensor_equiv [OF this] show ?thesis by (simp add: as_int_list_def)
qed

end
