(* ===== verification/SlotLookup.thy ===== *)
theory SlotLookup
  imports PleMemory
begin

text \<open>
  The contract of a slot index (\<open>SlotIndex\<close> and \<open>DiskSlotIndex\<close>), as a locale: an index with some
  invariant holds entries (row tuple, slot); a lookup returns the slot of an entry with that
  tuple, raises \<open>KeyError\<close> when there is none, and leaves the entries and the invariant as
  they were.  The lemmas about the operations both classes build on \<open>lookup\<close>, and about a
  \<open>PleMemory\<close> reading a view through an index, are proved once, inside the locale.

  Also here: what both classes read from files of row ids, and lists sorted by a total order.
\<close>

section \<open>Integer lines\<close>

definition is_space :: "char \<Rightarrow> bool" where
  "is_space c \<longleftrightarrow> c \<in> {CHR '' '', CHR 0x09, CHR 0x0A, CHR 0x0B, CHR 0x0C, CHR 0x0D}"

definition strip :: "string \<Rightarrow> string" where
  "strip s = rev (dropWhile is_space (rev (dropWhile is_space s)))"

definition digit_value :: "char \<Rightarrow> int option" where
  "digit_value c = (let n = of_char c :: int in if 48 \<le> n \<and> n \<le> 57 then Some (n - 48) else None)"

text \<open>Digits, with single underscores between them, as \<open>int()\<close> accepts.\<close>

fun int_digits :: "int \<Rightarrow> string \<Rightarrow> int res" where
  "int_digits acc [] = Inr acc"
| "int_digits acc [c] = (case digit_value c of Some d \<Rightarrow> Inr (acc * 10 + d) | None \<Rightarrow> Inl ValueError)"
| "int_digits acc (c # c' # cs) =
     (case digit_value c of
        Some d \<Rightarrow> if c' = CHR ''_''
          then (if cs = [] then Inl ValueError else int_digits (acc * 10 + d) cs)
          else int_digits (acc * 10 + d) (c' # cs)
      | None \<Rightarrow> Inl ValueError)"

definition py_int :: "string \<Rightarrow> int res" where
  "py_int s =
     (case strip s of [] \<Rightarrow> Inl ValueError
      | c # cs \<Rightarrow>
          if c = CHR ''-'' then (if cs = [] then Inl ValueError else rmap uminus (int_digits 0 cs))
          else if c = CHR ''+'' then (if cs = [] then Inl ValueError else int_digits 0 cs)
          else int_digits 0 (c # cs))"

section \<open>Sorted by a total order\<close>

definition total_order :: "('a \<Rightarrow> 'a \<Rightarrow> bool) \<Rightarrow> bool" where
  "total_order le \<longleftrightarrow> (\<forall>x. le x x) \<and> (\<forall>x y z. le x y \<longrightarrow> le y z \<longrightarrow> le x z)
     \<and> (\<forall>x y. le x y \<longrightarrow> le y x \<longrightarrow> x = y) \<and> (\<forall>x y. le x y \<or> le y x)"

lemma sorted_split:
  assumes "total_order le" "sorted_wrt le xs"
  shows "xs = filter (\<lambda>x. \<not> le k x) xs @ filter (\<lambda>x. x = k) xs @ filter (\<lambda>x. \<not> le x k) xs"
  using assms(2)
proof (induction xs)
  case (Cons x xs)
  have le: "\<And>y. y \<in> set xs \<Longrightarrow> le x y" using Cons.prems by simp
  note to = assms(1) [unfolded total_order_def]
  consider (lt) "\<not> le k x" | (eq) "x = k" | (gt) "\<not> le x k" using to by blast
  then show ?case
  proof cases
    case lt
    then have "x \<noteq> k" "le x k" using to by auto
    with lt Cons show ?thesis by simp
  next
    case eq
    then have "filter (\<lambda>y. \<not> le k y) xs = []" using le by (simp add: filter_empty_conv)
    with eq Cons to show ?thesis by simp
  next
    case gt
    then have "filter (\<lambda>y. \<not> le k y) (x # xs) = []" "filter (\<lambda>y. y = k) (x # xs) = []"
      using le to by (auto simp: filter_empty_conv)
    moreover have "filter (\<lambda>y. \<not> le y k) (x # xs) = x # xs"
    proof -
      have "\<not> le y k" if "y \<in> set (x # xs)" for y using that le gt to by (metis set_ConsD)
      then show ?thesis by (simp add: filter_id_conv)
    qed
    ultimately show ?thesis by simp
  qed
qed simp

lemma sorted_search:
  fixes k :: 'a
  assumes "total_order le" "sorted_wrt le xs"
  defines "l \<equiv> length (filter (\<lambda>x. \<not> le k x) xs)" and "r \<equiv> length (filter (\<lambda>x. le x k) xs)"
  shows "take (r - l) (drop l xs) = filter (\<lambda>x. x = k) xs" "l < length xs \<and> xs ! l = k \<longleftrightarrow> k \<in> set xs"
    "l \<le> r" "r - l = length (filter (\<lambda>x. x = k) xs)" "r \<le> length xs"
proof -
  let ?A = "filter (\<lambda>x. \<not> le k x) xs" and ?B = "filter (\<lambda>x. x = k) xs" and ?C = "filter (\<lambda>x. \<not> le x k) xs"
  have split: "xs = ?A @ ?B @ ?C" by (rule sorted_split [OF assms(1,2)])
  note to = assms(1) [unfolded total_order_def]
  have "filter (\<lambda>x. le x k) xs = filter (\<lambda>x. le x k) (?A @ ?B @ ?C)" using split by simp
  also have "\<dots> = ?A @ ?B"
  proof -
    have "\<And>x. \<not> le k x \<Longrightarrow> le x k" using to by blast
    then have "filter (\<lambda>x. le x k) ?A = ?A" by (subst filter_id_conv) simp
    moreover have "filter (\<lambda>x. le x k) ?B = ?B" using to by (subst filter_id_conv) simp
    moreover have "filter (\<lambda>x. le x k) ?C = []" by (auto simp: filter_empty_conv)
    ultimately show ?thesis by (simp only: filter_append append_Nil2)
  qed
  finally have r: "r = length ?A + length ?B" by (simp add: r_def)
  then show "l \<le> r" "r - l = length ?B" by (simp_all add: l_def)
  have drop: "drop l xs = ?B @ ?C" using split by (metis append_eq_conv_conj l_def)
  then show "take (r - l) (drop l xs) = ?B" using \<open>r - l = length ?B\<close> by simp
  show "r \<le> length xs" by (simp add: r_def)
  show "l < length xs \<and> xs ! l = k \<longleftrightarrow> k \<in> set xs"
  proof
    assume "k \<in> set xs"
    then have "?B \<noteq> []" by (simp add: filter_empty_conv)
    then have "hd (drop l xs) = k" "drop l xs \<noteq> []"
      using drop hd_in_set [of ?B] by (auto simp: hd_append)
    then show "l < length xs \<and> xs ! l = k" by (simp add: hd_drop_conv_nth)
  qed auto
qed

section \<open>The contract\<close>

locale slot_lookup =
  fixes inv :: "'ix \<Rightarrow> bool"
    and lookup :: "'ix \<Rightarrow> int list \<Rightarrow> int res \<times> 'ix"
    and entries :: "'ix \<Rightarrow> (int list \<times> int) list"
    and well_typed :: "'ix \<Rightarrow> int list \<Rightarrow> bool"
  assumes lookup_found: "inv ix \<Longrightarrow> well_typed ix r \<Longrightarrow> r \<in> fst ` set (entries ix) \<Longrightarrow>
      \<exists>s. fst (lookup ix r) = Inr s \<and> (r, s) \<in> set (entries ix)"
    and lookup_missing: "inv ix \<Longrightarrow> well_typed ix r \<Longrightarrow> r \<notin> fst ` set (entries ix) \<Longrightarrow>
      fst (lookup ix r) = Inl KeyError"
    and lookup_inv: "inv ix \<Longrightarrow> inv (snd (lookup ix r)) \<and> entries (snd (lookup ix r)) = entries ix
      \<and> well_typed (snd (lookup ix r)) = well_typed ix"
    and entries_typed: "inv ix \<Longrightarrow> (r, s) \<in> set (entries ix) \<Longrightarrow> well_typed ix r"
begin

text \<open>\<open>to_slots\<close>: one lookup per row, stopping at the first that raises.\<close>

fun to_slots :: "'ix \<Rightarrow> int list list \<Rightarrow> int list res \<times> 'ix" where
  "to_slots ix [] = (Inr [], ix)"
| "to_slots ix (r # rs) =
     (case lookup ix r of
        (Inl e, ix') \<Rightarrow> (Inl e, ix')
      | (Inr s, ix') \<Rightarrow> (case to_slots ix' rs of
          (Inl e, ix'') \<Rightarrow> (Inl e, ix'')
        | (Inr ss, ix'') \<Rightarrow> (Inr (s # ss), ix'')))"

lemma lookup_Inr_iff:
  assumes "inv ix" "well_typed ix r"
  shows "(\<exists>s. fst (lookup ix r) = Inr s) \<longleftrightarrow> r \<in> fst ` set (entries ix)"
  using lookup_found [OF assms] lookup_missing [OF assms] by fastforce

lemma lookup_sound:
  assumes "inv ix" "well_typed ix r" "fst (lookup ix r) = Inr s"
  shows "(r, s) \<in> set (entries ix)"
proof -
  have "r \<in> fst ` set (entries ix)" using lookup_Inr_iff [OF assms(1,2)] assms(3) by blast
  with lookup_found [OF assms(1,2)] assms(3) show ?thesis by auto
qed

lemma to_slots_correct:
  assumes "inv ix" "\<And>r. r \<in> set rs \<Longrightarrow> r \<in> fst ` set (entries ix)"
  shows "\<exists>ss ix'. to_slots ix rs = (Inr ss, ix') \<and> inv ix' \<and> entries ix' = entries ix
    \<and> list_all2 (\<lambda>r s. (r, s) \<in> set (entries ix)) rs ss"
  using assms
proof (induction rs arbitrary: ix)
  case (Cons r rs)
  obtain s' where "(r, s') \<in> set (entries ix)" using Cons.prems(2) [of r] by auto
  then have t: "well_typed ix r" using entries_typed Cons.prems(1) by blast
  obtain s where s: "fst (lookup ix r) = Inr s" "(r, s) \<in> set (entries ix)"
    using lookup_found [OF Cons.prems(1) t] Cons.prems(2) by auto
  obtain ix' where ix': "lookup ix r = (Inr s, ix')" using s(1) by (cases "lookup ix r") simp
  have inv': "inv ix'" "entries ix' = entries ix" using lookup_inv [OF Cons.prems(1), of r] ix' by auto
  with Cons.IH [of ix'] Cons.prems(2) show ?case using ix' s(2) by fastforce
qed simp

lemma to_slots_missing:
  assumes "inv ix" "\<And>r. r \<in> set rs \<Longrightarrow> well_typed ix r" "r \<in> set rs" "r \<notin> fst ` set (entries ix)"
  shows "fst (to_slots ix rs) = Inl KeyError"
  using assms
proof (induction rs arbitrary: ix)
  case (Cons q rs)
  have t: "well_typed ix q" using Cons.prems(2) by simp
  obtain res ix' where l: "lookup ix q = (res, ix')" by (cases "lookup ix q") simp
  have inv': "inv ix'" "entries ix' = entries ix" "well_typed ix' = well_typed ix"
    using lookup_inv [OF Cons.prems(1), of q] l by auto
  show ?case
  proof (cases "q \<in> fst ` set (entries ix)")
    case False
    with lookup_missing [OF Cons.prems(1) t] l show ?thesis by simp
  next
    case True
    then obtain s where s: "res = Inr s" using lookup_found [OF Cons.prems(1) t] l by auto
    have "r \<in> set rs" using True Cons.prems(3,4) by auto
    then have "fst (to_slots ix' rs) = Inl KeyError"
      using Cons.IH [of ix'] inv' Cons.prems(2,4) by simp
    then show ?thesis using l s by (auto split: prod.splits sum.splits)
  qed
qed simp

text \<open>
  A memory reading a view through an index: when every entry names a slot that holds the record
  of its row tuple, a fetch of indexed tuples returns exactly those records, whichever of
  several equal slots the index picks.
\<close>

lemma memory_view_fetch:
  assumes "inv ix" "memory_ok mem" "pm_view mem = Some v" "vo_read_records v = Some (read_records w)"
    and "pm_slot_index mem = Some \<lparr>sx_lookup = (\<lambda>r. fst (lookup ix r)), sx_stats = st\<rparr>"
    and "int (vw_slot_bytes w) = record_bytes mem"
    and rows: "\<And>r. r \<in> set rows \<Longrightarrow> int (length r) = pm_num_heads mem \<and> r \<in> fst ` set (entries ix)"
    and slots: "\<And>r s. (r, s) \<in> set (entries ix) \<Longrightarrow> view_valid w s \<and> view_row w s = record r"
  shows "fetch_raw mem rows = Inr (concat (map record rows))"
proof -
  define slot where "slot r = projr (fst (lookup ix r))" for r
  have found: "fst (lookup ix r) = Inr (slot r) \<and> (r, slot r) \<in> set (entries ix)" if "r \<in> set rows" for r
  proof -
    have "r \<in> fst ` set (entries ix)" using rows that by blast
    then obtain s' where "(r, s') \<in> set (entries ix)" by auto
    then have "well_typed ix r" using entries_typed assms(1) by blast
    with lookup_found [OF assms(1)] \<open>r \<in> fst ` set (entries ix)\<close>
    obtain s where "fst (lookup ix r) = Inr s" "(r, s) \<in> set (entries ix)" by blast
    then show ?thesis by (simp add: slot_def)
  qed
  have "fetch_raw mem rows = Inr (concat (map (\<lambda>r. view_row w (slot r)) rows))"
    by (rule nview.fetch_raw_view [OF assms(2-5)]) (use assms(6) rows found slots in auto)
  also have "map (\<lambda>r. view_row w (slot r)) rows = map record rows" using found slots by auto
  finally show ?thesis .
qed

end

end
