(* ===== verification/SlotIndex.thy ===== *)
theory SlotIndex
  imports SlotLookup "HOL-Library.List_Lexorder" "HOL-Library.Multiset"
begin

text \<open>
  \<open>SlotIndex\<close> of \<open>python/engramdb/slot_index.py\<close>: the in-memory index from row tuples to view
  slots.  NumPy is a parameter: \<open>argsort\<close> and \<open>searchsorted\<close> on byte keys, with the laws of a
  stable sort and of a binary search for one total order on keys (\<open>numpy_laws\<close>); \<open>list_numpy\<close> is an
  instance.  A two-dimensional array is its number of columns and its rows.
\<close>

section \<open>NumPy\<close>

record numpy =
  np_argsort :: "bytes list \<Rightarrow> nat list"
  np_search_left :: "bytes list \<Rightarrow> bytes \<Rightarrow> nat"
  np_search_right :: "bytes list \<Rightarrow> bytes \<Rightarrow> nat"

definition numpy_laws :: "(bytes \<Rightarrow> bytes \<Rightarrow> bool) \<Rightarrow> numpy \<Rightarrow> bool" where
  "numpy_laws le N \<longleftrightarrow> total_order le
     \<and> (\<forall>ks. set (np_argsort N ks) = {0..<length ks} \<and> distinct (np_argsort N ks)
          \<and> sorted_wrt (\<lambda>i j. le (ks ! i) (ks ! j) \<and> (ks ! i = ks ! j \<longrightarrow> i < j)) (np_argsort N ks))
     \<and> (\<forall>ks k. sorted_wrt le ks \<longrightarrow>
          np_search_left N ks k = length (filter (\<lambda>x. \<not> le k x) ks)
          \<and> np_search_right N ks k = length (filter (\<lambda>x. le x k) ks))"

definition list_numpy :: numpy where
  "list_numpy =
     \<lparr>np_argsort = (\<lambda>ks. map snd (sort (zip ks [0..<length ks]))),
      np_search_left = (\<lambda>ks k. length (filter (\<lambda>x. \<not> k \<le> x) ks)),
      np_search_right = (\<lambda>ks k. length (filter (\<lambda>x. x \<le> k) ks))\<rparr>"

lemma list_numpy_laws: "numpy_laws (\<le>) list_numpy"
proof -
  have sorted: "sorted_wrt (\<lambda>i j. ks ! i \<le> ks ! j \<and> (ks ! i = ks ! j \<longrightarrow> i < j)) (map snd (sort (zip ks [0..<length ks])))"
    for ks :: "bytes list"
  proof -
    let ?z = "sort (zip ks [0..<length ks])"
    have "sorted ?z" "distinct ?z" by (simp_all add: distinct_zipI2)
    then have "sorted_wrt (<) ?z" by (simp add: strict_sorted_iff)
    moreover have "fst p = ks ! snd p" if "p \<in> set ?z" for p using that by (auto simp: in_set_zip)
    then have "\<And>p q. p \<in> set ?z \<Longrightarrow> q \<in> set ?z \<Longrightarrow> p < q \<Longrightarrow>
        ks ! snd p \<le> ks ! snd q \<and> (ks ! snd p = ks ! snd q \<longrightarrow> snd p < snd q)"
      by (auto simp: less_prod_def less_imp_le)
    ultimately show ?thesis
      unfolding sorted_wrt_map by (metis (mono_tags, lifting) sorted_wrt_mono_rel)
  qed
  have perm: "distinct (map snd (sort (zip ks [0..<length ks])))"
    "set (map snd (sort (zip ks [0..<length ks]))) = {0..<length ks}" for ks :: "bytes list"
  proof -
    have "mset (map snd (sort (zip ks [0..<length ks]))) = mset [0..<length ks]"
      by (metis diff_zero length_upt map_snd_zip mset_map mset_sort)
    then show "distinct (map snd (sort (zip ks [0..<length ks])))"
      "set (map snd (sort (zip ks [0..<length ks]))) = {0..<length ks}"
      by (metis distinct_upt mset_eq_imp_distinct_iff, metis atLeastLessThan_upt set_mset_mset)
  qed
  show ?thesis
    using sorted perm by (auto simp: numpy_laws_def list_numpy_def total_order_def)
qed

section \<open>Construction\<close>

record slot_index =
  si_rowids :: "int list list"
  si_heads :: nat
  si_slots :: "int list"
  si_sorted_keys :: "bytes list"
  si_sorted_slots :: "int list"

record matrix =
  mx_cols :: nat
  mx_rows :: "int list list"

definition is_int64 :: "int \<Rightarrow> bool" where
  "is_int64 x \<longleftrightarrow> - (2 ^ 63) \<le> x \<and> x < 2 ^ 63"

text \<open>\<open>np.asarray(rows, dtype=np.int64)\<close> of a rectangular array.\<close>

definition as_int64 :: "int list \<Rightarrow> int list res" where
  "as_int64 xs = (if list_all is_int64 xs then Inr xs else Inl OverflowError)"

definition as_int64_matrix :: "matrix \<Rightarrow> int list list res" where
  "as_int64_matrix m =
     (if \<not> list_all (\<lambda>r. length r = mx_cols m) (mx_rows m) then Inl ValueError
      else rmapM as_int64 (mx_rows m))"

definition void_key :: "int list \<Rightarrow> bytes" where
  "void_key row = concat (map (\<lambda>x. le_bytes 8 (nat (x mod 2 ^ 64))) row)"

definition rebuild_sorted :: "numpy \<Rightarrow> int list list \<Rightarrow> int list \<Rightarrow> bytes list \<times> int list" where
  "rebuild_sorted N rowids slots =
     (if rowids = [] then ([], [])
      else let keys = map void_key rowids; order = np_argsort N keys
        in (map ((!) keys) order, map ((!) slots) order))"

definition slot_index_init :: "numpy \<Rightarrow> matrix \<Rightarrow> int list option \<Rightarrow> int option \<Rightarrow> slot_index res" where
  "slot_index_init N rowids slots heads =
     rbind (as_int64_matrix rowids) (\<lambda>arr.
     rbind (guard_or (mx_cols rowids \<noteq> 0) ValueError) (\<lambda>_.
     rbind (guard_or (case heads of None \<Rightarrow> True | Some h \<Rightarrow> h = int (mx_cols rowids)) ValueError) (\<lambda>_.
     rbind (as_int64 (case slots of None \<Rightarrow> map int [0..<length arr] | Some s \<Rightarrow> s)) (\<lambda>slots.
     rbind (guard_or (length slots = length arr) ValueError) (\<lambda>_.
     let (sk, ss) = rebuild_sorted N arr slots
     in Inr \<lparr>si_rowids = arr, si_heads = mx_cols rowids, si_slots = slots,
          si_sorted_keys = sk, si_sorted_slots = ss\<rparr>)))))"

definition from_rowids :: "numpy \<Rightarrow> matrix \<Rightarrow> int list option \<Rightarrow> int option \<Rightarrow> slot_index res" where
  "from_rowids N rowids slots heads = slot_index_init N rowids slots heads"

text \<open>The lines of a keys file, blank ones skipped.\<close>

definition read_keys_file :: "string list \<Rightarrow> int list res" where
  "read_keys_file lines = rmapM py_int (filter (\<lambda>l. l \<noteq> []) (map strip lines))"

definition from_keys_file ::
  "numpy \<Rightarrow> (string \<Rightarrow> string list option) \<Rightarrow> string \<Rightarrow> nat \<Rightarrow> int list option \<Rightarrow> slot_index res" where
  "from_keys_file N files path heads slots =
     (case files path of None \<Rightarrow> Inl FileNotFoundError
      | Some lines \<Rightarrow>
        rbind (read_keys_file lines) (\<lambda>values.
        if heads = 0 then Inl ZeroDivisionError
        else if length values mod heads \<noteq> 0 then Inl ValueError
        else from_rowids N \<lparr>mx_cols = heads, mx_rows = chunks heads values\<rparr> slots (Some (int heads))))"

definition from_view_manifest ::
  "numpy \<Rightarrow> (string \<Rightarrow> string list option) \<Rightarrow> (string \<Rightarrow> string option) option \<Rightarrow> nat \<Rightarrow> int list option \<Rightarrow> slot_index res" where
  "from_view_manifest N files manifest heads slots =
     (case manifest of None \<Rightarrow> Inl FileNotFoundError
      | Some data \<Rightarrow>
          (case list_or (data ''keys_out'') (list_or (data ''keys'') []) of
             [] \<Rightarrow> Inl ValueError
           | k # ks \<Rightarrow> from_keys_file N files (k # ks) heads slots))"

section \<open>Lookup\<close>

definition key_for :: "slot_index \<Rightarrow> int list \<Rightarrow> bytes res" where
  "key_for ix row =
     rbind (as_int64 row) (\<lambda>arr. if length arr \<noteq> si_heads ix then Inl ValueError else Inr (void_key arr))"

definition lookup :: "numpy \<Rightarrow> slot_index \<Rightarrow> int list \<Rightarrow> int res" where
  "lookup N ix row =
     rbind (key_for ix row) (\<lambda>key.
       let pos = np_search_left N (si_sorted_keys ix) key
       in if pos < length (si_sorted_keys ix) \<and> si_sorted_keys ix ! pos = key
          then Inr (si_sorted_slots ix ! pos) else Inl KeyError)"

definition lookup_all :: "numpy \<Rightarrow> slot_index \<Rightarrow> int list \<Rightarrow> int list res" where
  "lookup_all N ix row =
     rbind (key_for ix row) (\<lambda>key.
       let start = np_search_left N (si_sorted_keys ix) key;
           stop = np_search_right N (si_sorted_keys ix) key
       in if start = stop then Inl KeyError else Inr (take (stop - start) (drop start (si_sorted_slots ix))))"

definition to_slots :: "numpy \<Rightarrow> slot_index \<Rightarrow> matrix \<Rightarrow> int list res" where
  "to_slots N ix rowids =
     rbind (as_int64_matrix rowids) (\<lambda>rows.
       if mx_cols rowids \<noteq> si_heads ix then Inl ValueError else rmapM (lookup N ix) rows)"

definition semantic_slot_indices :: "numpy \<Rightarrow> slot_index \<Rightarrow> int list \<Rightarrow> matrix \<Rightarrow> (int list \<times> int list list) res" where
  "semantic_slot_indices N ix tokens rowids =
     rbind (as_int64_matrix rowids) (\<lambda>rows.
       if length rows \<noteq> length tokens then Inl ValueError
       else rmap (\<lambda>s. (s, rows)) (to_slots N ix rowids))"

definition contains :: "numpy \<Rightarrow> slot_index \<Rightarrow> int list \<Rightarrow> bool res" where
  "contains N ix row =
     (case lookup N ix row of Inr _ \<Rightarrow> Inr True | Inl e \<Rightarrow> (if e = KeyError then Inr False else Inl e))"

definition memory_bytes :: "slot_index \<Rightarrow> nat" where
  "memory_bytes ix = 8 * si_heads ix * length (si_rowids ix) + 8 * length (si_slots ix)
     + 8 * si_heads ix * length (si_sorted_keys ix) + 8 * length (si_sorted_slots ix)"

section \<open>The archive\<close>

record npz =
  nz_rowids :: matrix
  nz_slots :: "int list"
  nz_heads :: "int option"

definition save :: "slot_index \<Rightarrow> npz" where
  "save ix = \<lparr>nz_rowids = \<lparr>mx_cols = si_heads ix, mx_rows = si_rowids ix\<rparr>, nz_slots = si_slots ix,
     nz_heads = Some (int (si_heads ix))\<rparr>"

definition load :: "numpy \<Rightarrow> npz \<Rightarrow> slot_index res" where
  "load N z = slot_index_init N (nz_rowids z) (Some (nz_slots z))
     (Some (case nz_heads z of Some h \<Rightarrow> h | None \<Rightarrow> int (mx_cols (nz_rowids z))))"

definition si_as_dict :: "slot_index \<Rightarrow> (string \<times> int list) list" where
  "si_as_dict ix = [(''heads'', [int (si_heads ix)]), (''count'', [int (length (si_rowids ix))]),
     (''rowids_shape'', [int (length (si_rowids ix)), int (si_heads ix)]),
     (''slots_shape'', [int (length (si_slots ix))])]"

section \<open>Correctness\<close>

definition si_entries :: "slot_index \<Rightarrow> (int list \<times> int) list" where
  "si_entries ix = zip (si_rowids ix) (si_slots ix)"

definition si_typed :: "slot_index \<Rightarrow> int list \<Rightarrow> bool" where
  "si_typed ix r \<longleftrightarrow> length r = si_heads ix \<and> list_all is_int64 r"

definition slot_index_inv :: "(bytes \<Rightarrow> bytes \<Rightarrow> bool) \<Rightarrow> numpy \<Rightarrow> slot_index \<Rightarrow> bool" where
  "slot_index_inv le N ix \<longleftrightarrow> numpy_laws le N
     \<and> length (si_slots ix) = length (si_rowids ix) \<and> list_all is_int64 (si_slots ix)
     \<and> list_all (si_typed ix) (si_rowids ix) \<and> 0 < si_heads ix
     \<and> (si_sorted_keys ix, si_sorted_slots ix) = rebuild_sorted N (si_rowids ix) (si_slots ix)"

lemma as_int64_iff [res_iff]: "as_int64 xs = Inr ys \<longleftrightarrow> list_all is_int64 xs \<and> ys = xs"
  by (auto simp: as_int64_def)

lemma as_int64_matrix_iff [res_iff]:
  "as_int64_matrix m = Inr rows \<longleftrightarrow>
   rows = mx_rows m \<and> list_all (\<lambda>r. length r = mx_cols m \<and> list_all is_int64 r) (mx_rows m)"
proof -
  have "list_all2 (\<lambda>x y. list_all is_int64 x \<and> y = x) xs ys \<longleftrightarrow> ys = xs \<and> list_all (list_all is_int64) xs" for xs ys
    by (induction xs arbitrary: ys) (auto simp: list_all2_Cons1)
  then show ?thesis by (auto simp: as_int64_matrix_def rmapM_Inr_iff as_int64_iff list_all_iff)
qed

lemma slot_index_init_inv:
  assumes "numpy_laws le N" "slot_index_init N m slots heads = Inr ix"
  shows "slot_index_inv le N ix \<and> si_rowids ix = mx_rows m \<and> si_heads ix = mx_cols m
    \<and> si_slots ix = (case slots of None \<Rightarrow> map int [0..<length (mx_rows m)] | Some s \<Rightarrow> s)"
  using assms
  by (auto simp: slot_index_init_def slot_index_inv_def rbind_Inr_iff guard_or_iff as_int64_iff
      as_int64_matrix_iff si_typed_def list_all_iff split: prod.splits)

lemma le_bytes_int64_inj:
  assumes "is_int64 x" "is_int64 y" "le_bytes 8 (nat (x mod 2 ^ 64)) = le_bytes 8 (nat (y mod 2 ^ 64))"
  shows "x = y"
proof -
  have r: "from_le_signed (le_bytes 8 (nat (z mod 2 ^ 64))) = z" if "is_int64 z" for z
    using from_le_signed_round [of 8 z] that by (simp add: is_int64_def)
  show ?thesis using r [OF assms(1)] r [OF assms(2)] assms(3) by metis
qed

lemma void_key_inj:
  assumes "void_key r = void_key q" "length r = length q" "list_all is_int64 r" "list_all is_int64 q"
  shows "r = q"
proof -
  let ?f = "\<lambda>x. le_bytes 8 (nat (x mod 2 ^ 64))"
  have "map ?f r = map ?f q"
    using assms(1,2) unfolding void_key_def by (intro concat_fixed_inj [of _ _ 8]) auto
  then show ?thesis
    using assms(2-4) by (auto simp: list_eq_iff_nth_eq list_all_length intro!: le_bytes_int64_inj)
qed

lemma void_key_eq_iff:
  assumes "slot_index_inv le N ix" "si_typed ix r" "q \<in> set (si_rowids ix)"
  shows "void_key q = void_key r \<longleftrightarrow> q = r"
  using assms void_key_inj [of q r] by (auto simp: slot_index_inv_def si_typed_def list_all_iff)

text \<open>A stable sort keeps the order of equal keys.\<close>

lemma argsort_filter:
  assumes "numpy_laws le N"
  shows "filter (\<lambda>i. ks ! i = k) (np_argsort N ks) = filter (\<lambda>i. ks ! i = k) [0..<length ks]"
proof (rule sorted_distinct_set_unique)
  let ?p = "np_argsort N ks"
  have s: "sorted_wrt (\<lambda>i j. le (ks ! i) (ks ! j) \<and> (ks ! i = ks ! j \<longrightarrow> i < j)) ?p"
    using assms by (simp add: numpy_laws_def)
  have "sorted_wrt (\<lambda>i j. i \<le> j) (filter (\<lambda>i. ks ! i = k) ?p)"
  proof (rule sorted_wrt_mono_rel [rotated])
    show "sorted_wrt (\<lambda>i j. le (ks ! i) (ks ! j) \<and> (ks ! i = ks ! j \<longrightarrow> i < j)) (filter (\<lambda>i. ks ! i = k) ?p)"
      using s by (rule sorted_wrt_filter)
  qed auto
  then show "sorted (filter (\<lambda>i. ks ! i = k) ?p)" .
  show "distinct (filter (\<lambda>i. ks ! i = k) ?p)" using assms by (simp add: numpy_laws_def)
  show "set (filter (\<lambda>i. ks ! i = k) ?p) = set (filter (\<lambda>i. ks ! i = k) [0..<length ks])"
    using assms by (auto simp: numpy_laws_def)
qed (simp_all add: sorted_wrt_filter)

text \<open>All slots of a row tuple, in the order of the rows.\<close>

definition slots_of :: "slot_index \<Rightarrow> int list \<Rightarrow> int list" where
  "slots_of ix r = map snd (filter (\<lambda>p. fst p = r) (si_entries ix))"

lemma filter_zip_nth:
  "length xs = length ys \<Longrightarrow>
   map ((!) ys) (filter (\<lambda>i. P (xs ! i)) [0..<length xs]) = map snd (filter (\<lambda>p. P (fst p)) (zip xs ys))"
proof (induction xs ys rule: list_induct2)
  case (Cons x xs y ys)
  have "[0..<length (x # xs)] = 0 # map Suc [0..<length xs]"
    by (simp add: map_Suc_upt upt_conv_Cons del: upt_Suc)
  then show ?case using Cons.IH by (simp add: filter_map comp_def del: upt_Suc)
qed simp

lemma segment_filter:
  assumes "take n (drop m (map f p)) = filter P (map f p)"
  shows "take n (drop m p) = filter (\<lambda>x. P (f x)) p"
proof -
  let ?A = "take m p" and ?S = "take n (drop m p)" and ?C = "drop n (drop m p)"
  have split: "p = ?A @ ?S @ ?C" by (metis append_take_drop_id)
  have map: "map f ?S = map f (filter (\<lambda>x. P (f x)) p)"
    using assms by (simp add: drop_map take_map filter_map comp_def)
  have "P (f x)" if "x \<in> set ?S" for x
  proof -
    have "f x \<in> set (map f ?S)" using that by simp
    then show ?thesis unfolding map by auto
  qed
  then have S: "filter (\<lambda>x. P (f x)) ?S = ?S" by (simp add: filter_id_conv)
  have f: "filter (\<lambda>x. P (f x)) p = filter (\<lambda>x. P (f x)) ?A @ ?S @ filter (\<lambda>x. P (f x)) ?C"
    by (subst (1) split) (simp only: filter_append S)
  moreover have "length (filter (\<lambda>x. P (f x)) p) = length ?S" using map by (metis length_map)
  ultimately have "length (filter (\<lambda>x. P (f x)) ?A) = 0" "length (filter (\<lambda>x. P (f x)) ?C) = 0"
    by simp_all
  then show ?thesis using f by simp
qed

lemma lookup_positions:
  assumes inv: "slot_index_inv le N ix" and r: "si_typed ix r"
  defines "start \<equiv> np_search_left N (si_sorted_keys ix) (void_key r)"
    and "stop \<equiv> np_search_right N (si_sorted_keys ix) (void_key r)"
  shows "take (stop - start) (drop start (si_sorted_slots ix)) = slots_of ix r"
    "start = stop \<longleftrightarrow> slots_of ix r = []"
    "start < length (si_sorted_keys ix) \<and> si_sorted_keys ix ! start = void_key r \<longleftrightarrow> slots_of ix r \<noteq> []"
    "slots_of ix r \<noteq> [] \<Longrightarrow> si_sorted_slots ix ! start = hd (slots_of ix r)"
proof -
  let ?keys = "map void_key (si_rowids ix)"
  let ?p = "np_argsort N ?keys"
  have laws: "numpy_laws le N" and len: "length (si_slots ix) = length (si_rowids ix)"
    using inv by (simp_all add: slot_index_inv_def)
  have p: "set ?p = {0..<length ?keys}" "distinct ?p" using laws by (simp_all add: numpy_laws_def)
  have ne: "?p = []" if "si_rowids ix = []" using p(1) that by simp
  have sk: "si_sorted_keys ix = map ((!) ?keys) ?p" "si_sorted_slots ix = map ((!) (si_slots ix)) ?p"
    using inv ne by (auto simp: slot_index_inv_def rebuild_sorted_def Let_def split: if_splits)
  have "sorted_wrt (\<lambda>i j. le (?keys ! i) (?keys ! j) \<and> (?keys ! i = ?keys ! j \<longrightarrow> i < j)) ?p"
    using laws by (simp only: numpy_laws_def) 
  then have sorted: "sorted_wrt le (si_sorted_keys ix)"
    unfolding sk sorted_wrt_map by (rule sorted_wrt_mono_rel [rotated]) auto
  have to: "total_order le" using laws by (simp add: numpy_laws_def)
  have l: "start = length (filter (\<lambda>x. \<not> le (void_key r) x) (si_sorted_keys ix))"
    and s: "stop = length (filter (\<lambda>x. le x (void_key r)) (si_sorted_keys ix))"
    using laws sorted by (simp_all add: numpy_laws_def start_def stop_def)
  note ss = sorted_search [OF to sorted, of "void_key r", folded l s]
  have eq: "filter (\<lambda>i. ?keys ! i = void_key r) [0..<length ?keys] = filter (\<lambda>i. si_rowids ix ! i = r) [0..<length ?keys]"
    using void_key_eq_iff [OF inv r] by (intro filter_cong) auto
  have slots: "map ((!) (si_slots ix)) (filter (\<lambda>i. ?keys ! i = void_key r) ?p) = slots_of ix r"
    unfolding argsort_filter [OF laws] eq
    using filter_zip_nth [of "si_rowids ix" "si_slots ix" "\<lambda>x. x = r"] len
    by (simp add: slots_of_def si_entries_def)
  have seg: "take (stop - start) (drop start (map ((!) ?keys) ?p)) = filter (\<lambda>x. x = void_key r) (map ((!) ?keys) ?p)"
    using ss(1) by (simp only: sk)
  have seg_p: "take (stop - start) (drop start ?p) = filter (\<lambda>i. ?keys ! i = void_key r) ?p"
    using seg by (rule segment_filter)
  show seg_slots: "take (stop - start) (drop start (si_sorted_slots ix)) = slots_of ix r"
    unfolding sk slots [symmetric] seg_p [symmetric] by (simp add: drop_map take_map)
  have n: "stop - start = length (slots_of ix r)"
    using ss(4) by (simp add: slots [symmetric] sk filter_map comp_def)
  then show "start = stop \<longleftrightarrow> slots_of ix r = []" using ss(3) by (metis diff_is_0_eq diff_self_eq_0 le_antisym length_0_conv)
  show "start < length (si_sorted_keys ix) \<and> si_sorted_keys ix ! start = void_key r \<longleftrightarrow> slots_of ix r \<noteq> []"
    using ss(2,4) n by (metis (mono_tags, lifting) filter_empty_conv length_0_conv)
  show "slots_of ix r \<noteq> [] \<Longrightarrow> si_sorted_slots ix ! start = hd (slots_of ix r)"
  proof -
    assume ne: "slots_of ix r \<noteq> []"
    then have "drop start (si_sorted_slots ix) \<noteq> []" "0 < stop - start"
      using seg_slots n by auto
    then have "hd (slots_of ix r) = hd (drop start (si_sorted_slots ix))"
      unfolding seg_slots [symmetric] by (simp add: hd_take)
    then show ?thesis using \<open>drop start (si_sorted_slots ix) \<noteq> []\<close> by (simp add: hd_drop_conv_nth)
  qed
qed

lemma key_for_typed: "si_typed ix r \<Longrightarrow> key_for ix r = Inr (void_key r)"
  by (simp add: key_for_def si_typed_def as_int64_def)

lemma lookup_correct:
  assumes "slot_index_inv le N ix" "si_typed ix r"
  shows "lookup N ix r = (case slots_of ix r of [] \<Rightarrow> Inl KeyError | s # _ \<Rightarrow> Inr s)"
  using lookup_positions(3,4) [OF assms] by (auto simp: lookup_def key_for_typed [OF assms(2)] Let_def split: list.split)

lemma lookup_all_correct:
  assumes "slot_index_inv le N ix" "si_typed ix r"
  shows "lookup_all N ix r = (if slots_of ix r = [] then Inl KeyError else Inr (slots_of ix r))"
  using lookup_positions(1,2) [OF assms] by (simp add: lookup_all_def key_for_typed [OF assms(2)] Let_def)

lemma slots_of_entries: "s \<in> set (slots_of ix r) \<longleftrightarrow> (r, s) \<in> set (si_entries ix)"
  by (force simp: slots_of_def)

interpretation si: slot_lookup "slot_index_inv le N" "\<lambda>ix r. (lookup N ix r, ix)" si_entries si_typed
  for le N
proof
  fix ix r assume inv: "slot_index_inv le N ix" and t: "si_typed ix r"
  show "\<exists>s. fst (lookup N ix r, ix) = Inr s \<and> (r, s) \<in> set (si_entries ix)" if "r \<in> fst ` set (si_entries ix)"
  proof -
    from that obtain s where "(r, s) \<in> set (si_entries ix)" by auto
    then have "s \<in> set (slots_of ix r)" by (simp add: slots_of_entries)
    then obtain s' ss where "slots_of ix r = s' # ss" by (cases "slots_of ix r") auto
    then show ?thesis using lookup_correct [OF inv t] slots_of_entries [of s' ix r] by auto
  qed
  show "fst (lookup N ix r, ix) = Inl KeyError" if "r \<notin> fst ` set (si_entries ix)"
  proof -
    have "slots_of ix r = []" using that slots_of_entries [of _ ix r] by (cases "slots_of ix r") force+
    then show ?thesis using lookup_correct [OF inv t] by simp
  qed
next
  fix ix r s assume "slot_index_inv le N ix" "(r, s) \<in> set (si_entries ix)"
  then show "si_typed ix r" by (auto simp: slot_index_inv_def si_entries_def list_all_iff dest: set_zip_leftD)
qed auto

lemma load_save: "slot_index_inv le N ix \<Longrightarrow> load N (save ix) = Inr ix"
proof -
  assume inv: "slot_index_inv le N ix"
  have "rmapM as_int64 (si_rowids ix) = Inr (map id (si_rowids ix))"
    using inv by (intro rmapM_Inr) (auto simp: slot_index_inv_def si_typed_def list_all_iff as_int64_def)
  moreover have "rebuild_sorted N (si_rowids ix) (si_slots ix) = (si_sorted_keys ix, si_sorted_slots ix)"
    using inv by (simp add: slot_index_inv_def)
  ultimately show ?thesis
    using inv by (simp add: load_def save_def slot_index_init_def as_int64_matrix_def slot_index_inv_def
        si_typed_def list_all_iff as_int64_def Let_def)
qed

section \<open>Properties\<close>

text \<open>
  For every index the constructor returns, \<open>lookup\<close> gives the slot of the first row (in slot
  order) equal to the tuple and raises \<open>KeyError\<close> exactly when no row is; \<open>lookup_all\<close> gives the
  slots of all equal rows, in slot order.
\<close>

theorem slot_index_lookup:
  assumes "numpy_laws le N" "slot_index_init N m slots heads = Inr ix"
    and "length r = mx_cols m" "list_all is_int64 r"
  shows "lookup N ix r = (case slots_of ix r of [] \<Rightarrow> Inl KeyError | s # _ \<Rightarrow> Inr s)
    \<and> lookup_all N ix r = (if slots_of ix r = [] then Inl KeyError else Inr (slots_of ix r))
    \<and> si_entries ix = zip (mx_rows m) (case slots of None \<Rightarrow> map int [0..<length (mx_rows m)] | Some s \<Rightarrow> s)"
proof -
  note i = slot_index_init_inv [OF assms(1,2)]
  then have "si_typed ix r" using assms(3,4) by (simp add: si_typed_def)
  with i have "lookup N ix r = (case slots_of ix r of [] \<Rightarrow> Inl KeyError | s # _ \<Rightarrow> Inr s)"
    "lookup_all N ix r = (if slots_of ix r = [] then Inl KeyError else Inr (slots_of ix r))"
    using lookup_correct lookup_all_correct by blast+
  then show ?thesis using i by (simp add: si_entries_def)
qed

definition demo_index :: slot_index where
  "demo_index = \<lparr>si_rowids = [[5], [3], [5]], si_heads = 1, si_slots = [0, 1, 2],
     si_sorted_keys = [void_key [3], void_key [5], void_key [5]], si_sorted_slots = [1, 0, 2]\<rparr>"

lemma demo_index_init: "slot_index_init list_numpy \<lparr>mx_cols = 1, mx_rows = [[5], [3], [5]]\<rparr> None None = Inr demo_index"
  by code_simp

theorem slot_index_lookup_witness:
  "lookup list_numpy demo_index [5] = (case slots_of demo_index [5] of [] \<Rightarrow> Inl KeyError | s # _ \<Rightarrow> Inr s)
    \<and> lookup_all list_numpy demo_index [5]
      = (if slots_of demo_index [5] = [] then Inl KeyError else Inr (slots_of demo_index [5]))
    \<and> si_entries demo_index = zip (mx_rows \<lparr>mx_cols = 1, mx_rows = [[5], [3], [5]]\<rparr>)
        (case None of None \<Rightarrow> map int [0..<length (mx_rows \<lparr>mx_cols = 1, mx_rows = [[5], [3], [5]]\<rparr>)] | Some s \<Rightarrow> s)"
  by (rule slot_index_lookup [OF list_numpy_laws demo_index_init]) (simp_all add: is_int64_def)

text \<open>
  Saving an index and loading the archive gives the same index, sorted arrays included.
\<close>

theorem slot_index_roundtrip:
  assumes "numpy_laws le N" "slot_index_init N m slots heads = Inr ix"
  shows "load N (save ix) = Inr ix"
  using slot_index_init_inv [OF assms] load_save by blast

theorem slot_index_roundtrip_witness: "load list_numpy (save demo_index) = Inr demo_index"
  by (rule slot_index_roundtrip [OF list_numpy_laws demo_index_init])

end
