(* ===== verification/DiskSlotIndex.thy ===== *)
theory DiskSlotIndex
  imports SlotIndex PyDict "HOL-Library.List_Lexorder" "HOL-Library.Multiset"
begin

text \<open>
  \<open>DiskSlotIndex\<close> of \<open>python/engramdb/disk_slot_index.py\<close>: the two-pass build (bucket counts, then
  placement by offset), the sorted bucket files of formats v1 and v2 and the single file of v3,
  and the lookups through a bounded LRU of loaded buckets with a binary search on byte records.

  The directory of an index is a record of its files.  The BLAKE2b digest of the standard
  library is the parameter \<open>blake\<close>, any function on bytes; FNV-1a is modelled.
\<close>

unbundle bit_operations_syntax

section \<open>Keys and buckets\<close>

definition RECORD_BYTES :: nat where "RECORD_BYTES = 16 * 8 + 8"
definition FNV_OFFSET :: nat where "FNV_OFFSET = 0xCBF29CE484222325"
definition FNV_PRIME :: nat where "FNV_PRIME = 0x100000001B3"

text \<open>\<open>struct.pack("<16Q", *row)\<close>.\<close>

definition row_key :: "int list \<Rightarrow> bytes res" where
  "row_key row = (if length row \<noteq> 16 then Inl StructError else rmap concat (rmapM pack_u64 row))"

definition fnv1a :: "bytes \<Rightarrow> nat" where
  "fnv1a key = fold (\<lambda>b h. ((h XOR unat b) * FNV_PRIME) mod 2 ^ 64) key FNV_OFFSET"

definition bucket_id :: "(bytes \<Rightarrow> bytes) \<Rightarrow> bytes \<Rightarrow> nat \<Rightarrow> string \<Rightarrow> nat res" where
  "bucket_id blake key num_buckets hash_name =
     (if num_buckets = 0 then Inl ZeroDivisionError
      else if hash_name = ''fnv1a-64'' then Inr (fnv1a key mod num_buckets)
      else Inr (from_le (blake key) mod num_buckets))"

section \<open>The files of an index\<close>

record index_meta =
  im_format :: string
  im_hash :: "string option"
  im_heads :: int
  im_num_buckets :: nat
  im_count :: int
  im_cache_buckets :: int
  im_single_file :: bool

record index_dir =
  dd_meta :: "index_meta option"
  dd_buckets :: "nat \<Rightarrow> bytes option"
  dd_data :: "bytes option"
  dd_offsets :: "bytes option"

definition empty_dir :: index_dir where
  "empty_dir = \<lparr>dd_meta = None, dd_buckets = (\<lambda>_. None), dd_data = None, dd_offsets = None\<rparr>"

definition FORMAT :: string where "FORMAT = ''engramdb-disk-slot-index-v1''"
definition FORMAT_V2 :: string where "FORMAT_V2 = ''engramdb-disk-slot-index-v2''"
definition FORMAT_V3 :: string where "FORMAT_V3 = ''engramdb-disk-slot-index-v3''"

section \<open>An open index\<close>

record disk_index =
  dx_dir :: index_dir
  dx_format :: string
  dx_hash_name :: string
  dx_heads :: int
  dx_num_buckets :: nat
  dx_count :: int
  dx_cache_buckets :: nat
  dx_cache :: "(nat, bytes list) dict"
  dx_closed :: bool
  dx_data_file :: "bytes option"
  dx_offsets :: "nat list option"

text \<open>\<open>__init__\<close>: reads the metadata and, for v3, the offsets.\<close>

definition disk_index_open :: "index_dir \<Rightarrow> int \<Rightarrow> disk_index res" where
  "disk_index_open dir cache_buckets =
     (case dd_meta dir of None \<Rightarrow> Inl FileNotFoundError
      | Some meta \<Rightarrow>
        if im_format meta \<notin> {FORMAT, FORMAT_V2, FORMAT_V3} then Inl ValueError
        else let ix = \<lparr>dx_dir = dir, dx_format = im_format meta,
               dx_hash_name = (case im_hash meta of None \<Rightarrow> ''blake2b'' | Some h \<Rightarrow> h),
               dx_heads = im_heads meta, dx_num_buckets = im_num_buckets meta, dx_count = im_count meta,
               dx_cache_buckets = nat (max 1 cache_buckets), dx_cache = [], dx_closed = False,
               dx_data_file = None, dx_offsets = None\<rparr>
          in if im_format meta \<noteq> FORMAT_V3 then Inr ix
             else (case dd_data dir of None \<Rightarrow> Inl FileNotFoundError
               | Some data \<Rightarrow> (case dd_offsets dir of None \<Rightarrow> Inl FileNotFoundError
                   | Some off_data \<Rightarrow>
                     if length off_data mod 8 \<noteq> 0 then Inl ValueError
                     else let offsets = map from_le (chunks 8 off_data)
                       in if length offsets \<noteq> im_num_buckets meta + 1 then Inl ValueError
                          else Inr (ix\<lparr>dx_data_file := Some data, dx_offsets := Some offsets\<rparr>))))"

section \<open>Building\<close>

text \<open>Pass 1: every record to the raw file, with the bucket occupancy.\<close>

fun pass1 ::
  "(bytes \<Rightarrow> bytes) \<Rightarrow> nat \<Rightarrow> string \<Rightarrow> int list list \<Rightarrow> nat \<Rightarrow> int list option \<Rightarrow> bytes \<times> nat list \<Rightarrow> (bytes \<times> nat list) res" where
  "pass1 blake nb hash [] i slot_iter st = Inr st"
| "pass1 blake nb hash (row # rows) i slot_iter (raw, counts) =
     rbind (row_key row) (\<lambda>key.
     rbind (case slot_iter of None \<Rightarrow> Inr (int i, None)
            | Some [] \<Rightarrow> Inl StopIteration | Some (s # ss) \<Rightarrow> Inr (s, Some ss)) (\<lambda>(slot, slot_iter').
     rbind (bucket_id blake key nb hash) (\<lambda>bucket.
     rbind (pack_u64 slot) (\<lambda>packed.
       pass1 blake nb hash rows (Suc i) slot_iter' (raw @ key @ packed, counts[bucket := Suc (counts ! bucket)])))))"

fun cumsum :: "nat \<Rightarrow> nat list \<Rightarrow> nat list" where
  "cumsum acc [] = []"
| "cumsum acc (c # cs) = (acc + c) # cumsum (acc + c) cs"

definition region_offsets :: "nat list \<Rightarrow> nat list" where
  "region_offsets counts = 0 # cumsum 0 (map (\<lambda>c. c * RECORD_BYTES) counts)"

definition pwrite :: "bytes \<Rightarrow> bytes \<Rightarrow> nat \<Rightarrow> bytes" where
  "pwrite f bs pos = take pos f @ bs @ drop (pos + length bs) f"

text \<open>Pass 2: each record of the raw file to the next free place of its bucket's region.\<close>

fun pass2 ::
  "(bytes \<Rightarrow> bytes) \<Rightarrow> nat \<Rightarrow> string \<Rightarrow> nat list \<Rightarrow> bytes list \<Rightarrow> bytes \<times> nat list \<Rightarrow> (bytes \<times> nat list) res" where
  "pass2 blake nb hash offsets [] st = Inr st"
| "pass2 blake nb hash offsets (rec # recs) (grouped, cursor) =
     rbind (bucket_id blake (take 128 rec) nb hash) (\<lambda>bucket.
       let pos = offsets ! bucket + cursor ! bucket * RECORD_BYTES
       in pass2 blake nb hash offsets recs (pwrite grouped rec pos, cursor[bucket := Suc (cursor ! bucket)]))"

text \<open>The sorted records of one bucket's region.\<close>

definition bucket_region :: "nat list \<Rightarrow> bytes \<Rightarrow> nat \<Rightarrow> bytes list" where
  "bucket_region offsets grouped bucket =
     (let start = offsets ! bucket; stop = offsets ! Suc bucket
      in sort (chunks RECORD_BYTES (take (stop - start) (drop start grouped))))"

definition write_buckets :: "nat list \<Rightarrow> bytes \<Rightarrow> nat \<Rightarrow> (nat \<Rightarrow> bytes option) \<Rightarrow> nat \<Rightarrow> bytes option" where
  "write_buckets offsets grouped nb files =
     fold (\<lambda>bucket files. if offsets ! bucket = offsets ! Suc bucket then files
        else files(bucket := Some (concat (bucket_region offsets grouped bucket)))) [0..<nb] files"

definition write_single :: "nat list \<Rightarrow> bytes \<Rightarrow> nat \<Rightarrow> bytes \<times> nat list" where
  "write_single offsets grouped nb =
     fold (\<lambda>bucket (data, data_offsets).
        if offsets ! bucket = offsets ! Suc bucket then (data, data_offsets @ [last data_offsets])
        else let buf = concat (bucket_region offsets grouped bucket)
          in (data @ buf, data_offsets @ [last data_offsets + length buf])) [0..<nb] ([], [0])"

definition disk_index_build ::
  "(bytes \<Rightarrow> bytes) \<Rightarrow> index_dir \<Rightarrow> int list list \<Rightarrow> int \<Rightarrow> nat \<Rightarrow> int \<Rightarrow> int list option \<Rightarrow> string \<Rightarrow> bool
     \<Rightarrow> (index_dir \<times> disk_index) res" where
  "disk_index_build blake dir rowids heads nb cache_buckets slots hash_name single_file =
     (if heads \<noteq> 16 then Inl NotImplementedError
      else if hash_name \<notin> {''blake2b'', ''fnv1a-64''} then Inl ValueError
      else let fmt = (if single_file then FORMAT_V3 else if hash_name = ''fnv1a-64'' then FORMAT_V2 else FORMAT)
        in rbind (pass1 blake nb hash_name rowids 0 slots ([], replicate nb 0)) (\<lambda>(raw, counts).
           let offsets = region_offsets counts
           in rbind (pass2 blake nb hash_name offsets (chunks RECORD_BYTES raw)
                  (replicate (last offsets) 0, replicate nb 0)) (\<lambda>(grouped, cursor).
              let meta = \<lparr>im_format = fmt, im_hash = Some hash_name, im_heads = heads, im_num_buckets = nb,
                    im_count = int (length rowids), im_cache_buckets = cache_buckets,
                    im_single_file = single_file\<rparr>
              in rbind (if single_file
                    then let (data, data_offsets) = write_single offsets grouped nb
                      in rmap (\<lambda>off. dir\<lparr>dd_data := Some data, dd_offsets := Some (concat off)\<rparr>)
                           (rmapM (\<lambda>off. pack_u64 (int off)) data_offsets)
                    else Inr (dir\<lparr>dd_buckets := write_buckets offsets grouped nb (dd_buckets dir)\<rparr>)) (\<lambda>dir.
                 let dir = dir\<lparr>dd_meta := Some meta\<rparr>
                 in rmap (\<lambda>ix. (dir, ix)) (disk_index_open dir cache_buckets)))))"

text \<open>
  The rows of a keys file: complete tuples of \<open>heads\<close> values.  The generator is run to its end
  before the build consumes it, so of a malformed line and an unpackable value in one file the
  model reports the malformed line.
\<close>

definition keys_file_rows :: "nat \<Rightarrow> string list \<Rightarrow> int list list res" where
  "keys_file_rows heads lines =
     rbind (rmapM py_int (filter (\<lambda>l. l \<noteq> []) (map strip lines))) (\<lambda>values.
       if length values mod heads \<noteq> 0 then Inl ValueError else Inr (chunks heads values))"

definition build_from_keys_file ::
  "(bytes \<Rightarrow> bytes) \<Rightarrow> index_dir \<Rightarrow> string list option \<Rightarrow> int \<Rightarrow> nat \<Rightarrow> int \<Rightarrow> string \<Rightarrow> bool \<Rightarrow> (index_dir \<times> disk_index) res" where
  "build_from_keys_file blake dir keys_file heads nb cache_buckets hash_name single_file =
     (if heads \<noteq> 16 then Inl NotImplementedError
      else if hash_name \<notin> {''blake2b'', ''fnv1a-64''} then Inl ValueError
      else case keys_file of None \<Rightarrow> Inl FileNotFoundError
      | Some lines \<Rightarrow> rbind (keys_file_rows (nat heads) lines) (\<lambda>rows.
          disk_index_build blake dir rows heads nb cache_buckets None hash_name single_file))"

section \<open>Lookup\<close>

definition load_bucket :: "disk_index \<Rightarrow> nat \<Rightarrow> bytes list \<times> disk_index" where
  "load_bucket ix bucket =
     (case dict_get (dx_cache ix) bucket of
        Some records \<Rightarrow> (records, ix\<lparr>dx_cache := move_to_end bucket (dx_cache ix)\<rparr>)
      | None \<Rightarrow>
          let loaded = (case (dx_offsets ix, dx_data_file ix) of
                (Some offsets, Some data) \<Rightarrow>
                  let start = offsets ! bucket; stop = offsets ! Suc bucket
                  in Some (if start = stop then []
                     else chunks RECORD_BYTES (take (stop - start) (drop start data)))
              | _ \<Rightarrow> (case dd_buckets (dx_dir ix) bucket of None \<Rightarrow> None
                  | Some data \<Rightarrow> Some (chunks RECORD_BYTES data)))
          in (case loaded of None \<Rightarrow> ([], ix)
              | Some records \<Rightarrow>
                  let cache = dict_set bucket records (dx_cache ix)
                  in (records, ix\<lparr>dx_cache := (if dx_cache_buckets ix < length cache then tl cache else cache)\<rparr>)))"

text \<open>\<open>bisect.bisect_left\<close>.\<close>

function bisect_left :: "('a :: linorder) list \<Rightarrow> 'a \<Rightarrow> nat \<Rightarrow> nat \<Rightarrow> nat" where
  "bisect_left xs key lo hi =
     (if lo < hi
      then let mid = (lo + hi) div 2
        in if xs ! mid < key then bisect_left xs key (mid + 1) hi else bisect_left xs key lo mid
      else lo)"
  by pat_completeness auto
termination
  by (relation "measure (\<lambda>(xs, key, lo, hi). hi - lo)") auto

declare bisect_left.simps [simp del]

definition starts_with :: "bytes \<Rightarrow> bytes \<Rightarrow> bool" where
  "starts_with rec key \<longleftrightarrow> take (length key) rec = key"

definition disk_lookup :: "(bytes \<Rightarrow> bytes) \<Rightarrow> disk_index \<Rightarrow> int list \<Rightarrow> int res \<times> disk_index" where
  "disk_lookup blake ix row =
     (if dx_closed ix then (Inl ValueError, ix)
      else case rbind (row_key row) (\<lambda>key. rmap (\<lambda>b. (key, b)) (bucket_id blake key (dx_num_buckets ix) (dx_hash_name ix))) of
        Inl e \<Rightarrow> (Inl e, ix)
      | Inr (key, bucket) \<Rightarrow>
          let (records, ix') = load_bucket ix bucket;
              idx = bisect_left records key 0 (length records)
          in (if idx < length records \<and> starts_with (records ! idx) key
              then Inr (int (from_le (drop 128 (records ! idx)))) else Inl KeyError, ix'))"

text \<open>The scan of \<open>lookup_all\<close> from the first match on.\<close>

definition disk_lookup_all :: "(bytes \<Rightarrow> bytes) \<Rightarrow> disk_index \<Rightarrow> int list \<Rightarrow> int list res \<times> disk_index" where
  "disk_lookup_all blake ix row =
     (if dx_closed ix then (Inl ValueError, ix)
      else case rbind (row_key row) (\<lambda>key. rmap (\<lambda>b. (key, b)) (bucket_id blake key (dx_num_buckets ix) (dx_hash_name ix))) of
        Inl e \<Rightarrow> (Inl e, ix)
      | Inr (key, bucket) \<Rightarrow>
          let (records, ix') = load_bucket ix bucket;
              idx = bisect_left records key 0 (length records);
              out = map (\<lambda>rec. int (from_le (drop 128 rec))) (takeWhile (\<lambda>rec. starts_with rec key) (drop idx records))
          in (if out = [] then Inl KeyError else Inr out, ix'))"

definition disk_memory_bytes :: "disk_index \<Rightarrow> nat" where
  "disk_memory_bytes ix = sum_list (map (\<lambda>(b, records). length records * RECORD_BYTES) (dx_cache ix))"

definition disk_stats :: "disk_index \<Rightarrow> (string \<times> int) list" where
  "disk_stats ix = [(''count'', dx_count ix), (''num_buckets'', int (dx_num_buckets ix)),
     (''cached_buckets'', int (length (dx_cache ix))), (''cached_bytes'', int (disk_memory_bytes ix))]"

definition disk_close :: "disk_index \<Rightarrow> disk_index" where
  "disk_close ix = ix\<lparr>dx_data_file := None, dx_cache := [], dx_closed := True\<rparr>"

fun disk_lookups :: "(bytes \<Rightarrow> bytes) \<Rightarrow> disk_index \<Rightarrow> int list list \<Rightarrow> int list res \<times> disk_index" where
  "disk_lookups blake ix [] = (Inr [], ix)"
| "disk_lookups blake ix (r # rs) =
     (case disk_lookup blake ix r of
        (Inl e, ix') \<Rightarrow> (Inl e, ix')
      | (Inr s, ix') \<Rightarrow> (case disk_lookups blake ix' rs of
          (Inl e, ix'') \<Rightarrow> (Inl e, ix'')
        | (Inr ss, ix'') \<Rightarrow> (Inr (s # ss), ix'')))"

definition disk_to_slots :: "(bytes \<Rightarrow> bytes) \<Rightarrow> disk_index \<Rightarrow> matrix \<Rightarrow> int list res \<times> disk_index" where
  "disk_to_slots blake ix rowids =
     (case as_int64_matrix rowids of Inl e \<Rightarrow> (Inl e, ix) | Inr rows \<Rightarrow> disk_lookups blake ix rows)"

section \<open>Binary search and prefixes\<close>

lemma total_order_le: "total_order ((\<le>) :: 'a :: linorder \<Rightarrow> 'a \<Rightarrow> bool)"
  by (auto simp: total_order_def)

abbreviation below :: "('a :: linorder) list \<Rightarrow> 'a \<Rightarrow> nat" where
  "below xs key \<equiv> length (filter (\<lambda>x. x < key) xs)"

lemma dropWhile_sorted: "sorted xs \<Longrightarrow> drop (below xs key) xs = dropWhile (\<lambda>x. x < key) xs"
proof (induction xs)
  case (Cons x xs)
  show ?case
  proof (cases "x < key")
    case False
    then have "filter (\<lambda>x. x < key) (x # xs) = []" using Cons.prems by (auto simp: filter_empty_conv)
    with False show ?thesis by (simp only: list.size drop0) simp
  qed (use Cons in simp)
qed simp

lemma below_nth:
  assumes "sorted xs" "i < length xs"
  shows "xs ! i < key \<longleftrightarrow> i < below xs key"
proof
  assume "xs ! i < key"
  then have "\<forall>j \<le> i. xs ! j < key" using assms by (meson le_less_trans sorted_nth_mono)
  then have "takeWhile (\<lambda>x. x < key) (take (Suc i) xs) = take (Suc i) xs"
    using assms(2) by (auto simp: takeWhile_eq_all_conv in_set_conv_nth)
  then have "length (filter (\<lambda>x. x < key) (take (Suc i) xs)) = Suc i"
    using assms(2) by (metis (no_types) filter_id_conv length_take min.absorb2 Suc_leI set_takeWhileD)
  moreover have "below xs key = length (filter (\<lambda>x. x < key) (take (Suc i) xs)) + length (filter (\<lambda>x. x < key) (drop (Suc i) xs))"
    by (metis append_take_drop_id filter_append length_append)
  ultimately show "i < below xs key" by simp
next
  assume i: "i < below xs key"
  show "xs ! i < key"
  proof (rule ccontr)
    assume "\<not> xs ! i < key"
    then have "key \<le> xs ! i" by simp
    moreover have "xs ! i \<le> x" if x: "x \<in> set (drop i xs)" for x
    proof -
      obtain j where "x = xs ! (i + j)" "i + j < length xs" using x by (auto simp: in_set_conv_nth)
      then show ?thesis using assms(1) by (simp add: sorted_nth_mono)
    qed
    ultimately have "\<not> x < key" if "x \<in> set (drop i xs)" for x
      using that by (meson leD order_trans)
    then have "filter (\<lambda>x. x < key) (drop i xs) = []" by (simp add: filter_empty_conv)
    then have "below xs key = length (filter (\<lambda>x. x < key) (take i xs))"
      by (metis append_Nil2 append_take_drop_id filter_append)
    also have "\<dots> \<le> i" by (metis le_trans length_filter_le length_take min.cobounded2)
    finally show False using i by simp
  qed
qed

lemma bisect_left_correct:
  "sorted xs \<Longrightarrow> lo \<le> below xs key \<Longrightarrow> below xs key \<le> hi \<Longrightarrow> hi \<le> length xs \<Longrightarrow>
   bisect_left xs key lo hi = below xs key"
proof (induction xs key lo hi rule: bisect_left.induct)
  case (1 xs key lo hi)
  show ?case
  proof (cases "lo < hi")
    case True
    let ?mid = "(lo + hi) div 2"
    have mid: "?mid < length xs" "lo \<le> ?mid" "?mid < hi" using True "1.prems" by auto
    show ?thesis
    proof (cases "xs ! ?mid < key")
      case True
      then have "?mid < below xs key" using below_nth mid "1.prems" by blast
      then show ?thesis
        using "1.IH"(1) [OF \<open>lo < hi\<close> refl True] "1.prems" True \<open>lo < hi\<close>
        by (simp add: bisect_left.simps [of xs key lo hi] Let_def)
    next
      case False
      then have "below xs key \<le> ?mid" using below_nth mid "1.prems" by (metis not_less)
      then show ?thesis
        using "1.IH"(2) [OF \<open>lo < hi\<close> refl False] "1.prems" False \<open>lo < hi\<close> mid
        by (simp add: bisect_left.simps [of xs key lo hi] Let_def)
    qed
  next
    case False
    with "1.prems" show ?thesis by (simp add: bisect_left.simps [of xs key lo hi])
  qed
qed

lemma prefix_le: "starts_with x key \<Longrightarrow> key \<le> x"
  unfolding starts_with_def
proof (induction key arbitrary: x)
  case (Cons k ks)
  then obtain xs where "x = k # xs" "take (length ks) xs = ks" by (cases x) auto
  with Cons.IH [of xs] show ?case by simp
qed simp

lemma prefix_convex:
  "key \<le> x \<Longrightarrow> x \<le> y \<Longrightarrow> starts_with y key \<Longrightarrow> starts_with x key"
  unfolding starts_with_def
proof (induction key arbitrary: x y)
  case (Cons k ks)
  obtain ys where y: "y = k # ys" "take (length ks) ys = ks" using Cons.prems(3) by (cases y) auto
  obtain a as where x: "x = a # as" using Cons.prems(1) by (cases x) auto
  have "k \<le> a" "a \<le> k" using Cons.prems(1,2) x y by auto
  then have "a = k" by simp
  with Cons show ?case using x y by auto
qed simp

lemma prefix_scan:
  assumes "sorted recs"
  shows "takeWhile (\<lambda>r. starts_with r key) (drop (below recs key) recs) = filter (\<lambda>r. starts_with r key) recs"
  unfolding dropWhile_sorted [OF assms]
  using assms
proof (induction recs)
  case (Cons x xs)
  show ?case
  proof (cases "x < key")
    case True
    then have "\<not> starts_with x key" using prefix_le by fastforce
    with True Cons show ?thesis by simp
  next
    case ge: False
    have none: "\<not> starts_with y key" if "\<not> starts_with x key" "y \<in> set xs" for y
    proof -
      have "key \<le> x" "x \<le> y" using ge Cons.prems that(2) by (simp_all add: not_less)
      then show ?thesis using prefix_convex that(1) by blast
    qed
    have "takeWhile (\<lambda>r. starts_with r key) xs = filter (\<lambda>r. starts_with r key) xs" if "starts_with x key"
    proof -
      have "dropWhile (\<lambda>r. r < key) xs = xs"
        using ge Cons.prems by (cases xs) auto
      with Cons show ?thesis by simp
    qed
    with ge none show ?thesis by (auto simp: filter_empty_conv)
  qed
qed simp

section \<open>Records\<close>

text \<open>A record decoded: its row tuple and its slot.\<close>

definition rec_row :: "bytes \<Rightarrow> int list" where
  "rec_row rec = map (\<lambda>b. int (from_le b)) (chunks 8 (take 128 rec))"

definition rec_slot :: "bytes \<Rightarrow> int" where
  "rec_slot rec = int (from_le (drop 128 rec))"

definition row_ok :: "int list \<Rightarrow> bool" where
  "row_ok row \<longleftrightarrow> length row = 16 \<and> list_all (\<lambda>x. 0 \<le> x \<and> x < 2 ^ 64) row"

definition key_of :: "int list \<Rightarrow> bytes" where
  "key_of row = concat (map (\<lambda>x. le_bytes 8 (nat x)) row)"

lemma row_key_iff: "row_key row = Inr key \<longleftrightarrow> row_ok row \<and> key = key_of row"
proof -
  have "rmapM pack_u64 row = Inr ks \<longleftrightarrow> list_all (\<lambda>x. 0 \<le> x \<and> x < 2 ^ 64) row \<and> ks = map (\<lambda>x. le_bytes 8 (nat x)) row" for ks
    unfolding rmapM_Inr_iff by (induction row arbitrary: ks) (auto simp: list_all2_Cons1 pack_u64_iff)
  then show ?thesis by (auto simp: row_key_def row_ok_def key_of_def rmap_Inr_iff)
qed

lemma length_key_of: "length row = 16 \<Longrightarrow> length (key_of row) = 128"
  unfolding key_of_def by (subst length_concat_const [of _ 8]) auto

lemma row_of_key: "row_ok row \<Longrightarrow> map (\<lambda>b. int (from_le b)) (chunks 8 (key_of row)) = row"
  unfolding key_of_def
  by (subst chunks_concat) (auto simp: row_ok_def list_all_iff from_le_le_bytes_id nat_less_iff intro!: map_idI)

lemma key_of_row: "length key = 128 \<Longrightarrow> key_of (map (\<lambda>b. int (from_le b)) (chunks 8 key)) = key
  \<and> row_ok (map (\<lambda>b. int (from_le b)) (chunks 8 key))"
proof -
  assume len: "length key = 128"
  have n: "length (chunks 8 key) = 16" using len by (intro length_chunks) simp_all
  have w: "length b = 8" if "b \<in> set (chunks 8 key)" for b
    using chunk_length [of key 16 8 b] that len by simp
  have "map (\<lambda>x. le_bytes 8 (nat x)) (map (\<lambda>b. int (from_le b)) (chunks 8 key)) = chunks 8 key"
  proof -
    have "le_bytes 8 (from_le b) = b" if "b \<in> set (chunks 8 key)" for b
      using le_bytes_from_le [of b] w [OF that] by simp
    then show ?thesis by (simp add: map_idI)
  qed
  then have "key_of (map (\<lambda>b. int (from_le b)) (chunks 8 key)) = key"
    unfolding key_of_def by (simp only: concat_chunks)
  moreover have "from_le b < 2 ^ 64" if "b \<in> set (chunks 8 key)" for b
    using from_le_bound [of b] w [OF that] by simp
  then have "row_ok (map (\<lambda>b. int (from_le b)) (chunks 8 key))"
    using n by (auto simp: row_ok_def list_all_iff)
  ultimately show ?thesis by simp
qed

lemma starts_with_rec_row:
  assumes "row_ok row" "length rec = 136"
  shows "starts_with rec (key_of row) \<longleftrightarrow> rec_row rec = row"
proof -
  have len: "length (key_of row) = 128" "length (take 128 rec) = 128"
    using assms by (simp_all add: row_ok_def length_key_of)
  show ?thesis
    using key_of_row [OF len(2)] row_of_key [OF assms(1)] len(1) by (auto simp: starts_with_def rec_row_def)
qed

section \<open>What an open index holds\<close>

definition bucket_records :: "disk_index \<Rightarrow> nat \<Rightarrow> bytes list" where
  "bucket_records ix b =
     (case (dx_offsets ix, dx_data_file ix) of
        (Some offsets, Some data) \<Rightarrow> chunks RECORD_BYTES (take (offsets ! Suc b - offsets ! b) (drop (offsets ! b) data))
      | _ \<Rightarrow> (case dd_buckets (dx_dir ix) b of None \<Rightarrow> [] | Some data \<Rightarrow> chunks RECORD_BYTES data))"

definition disk_entries :: "disk_index \<Rightarrow> (int list \<times> int) list" where
  "disk_entries ix = concat (map (\<lambda>b. map (\<lambda>rec. (rec_row rec, rec_slot rec)) (bucket_records ix b)) [0..<dx_num_buckets ix])"

definition bucket_ok :: "(bytes \<Rightarrow> bytes) \<Rightarrow> disk_index \<Rightarrow> nat \<Rightarrow> bool" where
  "bucket_ok blake ix b \<longleftrightarrow> sorted (bucket_records ix b)
     \<and> list_all (\<lambda>rec. length rec = 136
         \<and> bucket_id blake (take 128 rec) (dx_num_buckets ix) (dx_hash_name ix) = Inr b) (bucket_records ix b)"

definition disk_inv :: "(bytes \<Rightarrow> bytes) \<Rightarrow> disk_index \<Rightarrow> bool" where
  "disk_inv blake ix \<longleftrightarrow> \<not> dx_closed ix \<and> 0 < dx_num_buckets ix \<and> 0 < dx_cache_buckets ix
     \<and> dict_wf (dx_cache ix) \<and> length (dx_cache ix) \<le> dx_cache_buckets ix
     \<and> coherent (bucket_records ix) (dx_cache ix)
     \<and> (\<forall>b < dx_num_buckets ix. bucket_ok blake ix b)"

lemma bucket_records_cache [simp]: "bucket_records (ix\<lparr>dx_cache := c\<rparr>) = bucket_records ix"
  by (rule ext) (simp add: bucket_records_def split: option.split)

lemma disk_entries_cache [simp]: "disk_entries (ix\<lparr>dx_cache := c\<rparr>) = disk_entries ix"
  by (simp add: disk_entries_def)

text \<open>Loading a bucket: the records are the file's, only the cache changes, and it stays coherent and bounded.\<close>

lemma load_bucket_spec:
  assumes "dict_wf (dx_cache ix)" "length (dx_cache ix) \<le> dx_cache_buckets ix" "0 < dx_cache_buckets ix"
    "coherent (bucket_records ix) (dx_cache ix)"
  shows "\<exists>c. load_bucket ix b = (bucket_records ix b, ix\<lparr>dx_cache := c\<rparr>)
    \<and> dict_wf c \<and> length c \<le> dx_cache_buckets ix \<and> coherent (bucket_records ix) c"
proof (cases "dict_get (dx_cache ix) b")
  case (Some records)
  have "records = bucket_records ix b" using assms(4) Some by (rule coherentD)
  then have "load_bucket ix b = (bucket_records ix b, ix\<lparr>dx_cache := move_to_end b (dx_cache ix)\<rparr>)"
    using Some by (simp only: load_bucket_def option.case)
  moreover have "dict_wf (move_to_end b (dx_cache ix))" using assms(1) by (rule dict_wf_move_to_end)
  moreover have "length (move_to_end b (dx_cache ix)) \<le> dx_cache_buckets ix"
    using assms(1,2) by (simp add: length_move_to_end)
  moreover have "coherent (bucket_records ix) (move_to_end b (dx_cache ix))"
    using assms(4) by (rule coherent_move_to_end)
  ultimately show ?thesis by blast
next
  case None
  let ?c = "dict_set b (bucket_records ix b) (dx_cache ix)"
  let ?c' = "if dx_cache_buckets ix < length ?c then tl ?c else ?c"
  have wf: "dict_wf ?c" "coherent (bucket_records ix) ?c" using assms(1,4) by (simp_all add: dict_wf_set coherent_set)
  have tl: "tl ?c = drop 1 ?c" by (simp add: drop_Suc)
  have len: "length ?c \<le> Suc (length (dx_cache ix))" by (simp add: length_dict_set)
  have c': "dict_wf ?c'" "length ?c' \<le> dx_cache_buckets ix" "coherent (bucket_records ix) ?c'"
  proof -
    show "dict_wf ?c'" unfolding tl using wf(1) dict_wf_drop by (cases "dx_cache_buckets ix < length ?c") simp_all
    show "coherent (bucket_records ix) ?c'"
      unfolding tl using wf(2) coherent_drop by (cases "dx_cache_buckets ix < length ?c") simp_all
    show "length ?c' \<le> dx_cache_buckets ix" using len assms(2) by (cases "dx_cache_buckets ix < length ?c") simp_all
  qed
  have cases: "load_bucket ix b = (bucket_records ix b, ix) \<or>
      load_bucket ix b = (bucket_records ix b, ix\<lparr>dx_cache := ?c'\<rparr>)"
    using None by (auto simp: load_bucket_def bucket_records_def Let_def split: option.split)
  then show ?thesis
  proof
    assume "load_bucket ix b = (bucket_records ix b, ix)"
    then show ?thesis using assms by (intro exI [of _ "dx_cache ix"]) simp
  next
    assume "load_bucket ix b = (bucket_records ix b, ix\<lparr>dx_cache := ?c'\<rparr>)"
    then show ?thesis using c' by (intro exI [of _ ?c']) simp
  qed
qed

lemma disk_inv_cache:
  "disk_inv blake ix \<Longrightarrow> dict_wf c \<Longrightarrow> length c \<le> dx_cache_buckets ix \<Longrightarrow> coherent (bucket_records ix) c \<Longrightarrow>
   disk_inv blake (ix\<lparr>dx_cache := c\<rparr>)"
  by (simp add: disk_inv_def bucket_ok_def)

text \<open>The slots of a row tuple: its records in its bucket, in byte order.\<close>

definition row_slots :: "(bytes \<Rightarrow> bytes) \<Rightarrow> disk_index \<Rightarrow> int list \<Rightarrow> int list" where
  "row_slots blake ix row =
     (case bucket_id blake (key_of row) (dx_num_buckets ix) (dx_hash_name ix) of
        Inl e \<Rightarrow> []
      | Inr b \<Rightarrow> map rec_slot (filter (\<lambda>rec. rec_row rec = row) (bucket_records ix b)))"

lemma bucket_id_less: "bucket_id blake key nb h = Inr b \<Longrightarrow> b < nb"
  by (auto simp: bucket_id_def split: if_splits)

lemma lookup_parts:
  assumes inv: "disk_inv blake ix" and row: "row_ok row"
  obtains b c where
    "bucket_id blake (key_of row) (dx_num_buckets ix) (dx_hash_name ix) = Inr b" "b < dx_num_buckets ix"
    "load_bucket ix b = (bucket_records ix b, ix\<lparr>dx_cache := c\<rparr>)" "disk_inv blake (ix\<lparr>dx_cache := c\<rparr>)"
    "bisect_left (bucket_records ix b) (key_of row) 0 (length (bucket_records ix b)) = below (bucket_records ix b) (key_of row)"
    "takeWhile (\<lambda>rec. starts_with rec (key_of row)) (drop (below (bucket_records ix b) (key_of row)) (bucket_records ix b))
      = filter (\<lambda>rec. rec_row rec = row) (bucket_records ix b)"
proof -
  have "\<exists>b. bucket_id blake (key_of row) (dx_num_buckets ix) (dx_hash_name ix) = Inr b"
    using inv by (simp add: bucket_id_def disk_inv_def)
  then obtain b where b: "bucket_id blake (key_of row) (dx_num_buckets ix) (dx_hash_name ix) = Inr b" ..
  note lt = bucket_id_less [OF b]
  obtain c where c: "load_bucket ix b = (bucket_records ix b, ix\<lparr>dx_cache := c\<rparr>)"
      "dict_wf c" "length c \<le> dx_cache_buckets ix" "coherent (bucket_records ix) c"
    using load_bucket_spec [of ix b] inv by (auto simp: disk_inv_def)
  have ok: "bucket_ok blake ix b" using inv lt by (simp add: disk_inv_def)
  then have s: "sorted (bucket_records ix b)" by (simp add: bucket_ok_def)
  have bis: "bisect_left (bucket_records ix b) (key_of row) 0 (length (bucket_records ix b)) = below (bucket_records ix b) (key_of row)"
    by (rule bisect_left_correct [OF s]) simp_all
  have "filter (\<lambda>rec. starts_with rec (key_of row)) (bucket_records ix b) = filter (\<lambda>rec. rec_row rec = row) (bucket_records ix b)"
    using ok starts_with_rec_row [OF row] by (intro filter_cong) (auto simp: bucket_ok_def list_all_iff)
  then show ?thesis
    using that [OF b lt c(1) disk_inv_cache [OF inv c(2-4)] bis] prefix_scan [OF s] by simp
qed

lemma disk_lookup_all_spec:
  assumes "disk_inv blake ix" "row_ok row"
  shows "\<exists>c. disk_lookup_all blake ix row
      = (if row_slots blake ix row = [] then Inl KeyError else Inr (row_slots blake ix row), ix\<lparr>dx_cache := c\<rparr>)
    \<and> disk_inv blake (ix\<lparr>dx_cache := c\<rparr>)"
proof (rule lookup_parts [OF assms])
  fix b c
  assume *: "bucket_id blake (key_of row) (dx_num_buckets ix) (dx_hash_name ix) = Inr b" "b < dx_num_buckets ix"
    "load_bucket ix b = (bucket_records ix b, ix\<lparr>dx_cache := c\<rparr>)" "disk_inv blake (ix\<lparr>dx_cache := c\<rparr>)"
    "bisect_left (bucket_records ix b) (key_of row) 0 (length (bucket_records ix b)) = below (bucket_records ix b) (key_of row)"
    "takeWhile (\<lambda>rec. starts_with rec (key_of row)) (drop (below (bucket_records ix b) (key_of row)) (bucket_records ix b))
      = filter (\<lambda>rec. rec_row rec = row) (bucket_records ix b)"
  have "row_key row = Inr (key_of row)" using assms(2) by (simp add: row_key_iff)
  then show ?thesis
    using * assms(1) by (intro exI [of _ c]) (simp add: disk_lookup_all_def disk_inv_def row_slots_def rec_slot_def [abs_def])
qed

lemma disk_lookup_spec:
  assumes "disk_inv blake ix" "row_ok row"
  shows "\<exists>c. disk_lookup blake ix row
      = (case row_slots blake ix row of [] \<Rightarrow> Inl KeyError | s # _ \<Rightarrow> Inr s, ix\<lparr>dx_cache := c\<rparr>)
    \<and> disk_inv blake (ix\<lparr>dx_cache := c\<rparr>)"
proof (rule lookup_parts [OF assms])
  fix b c
  assume *: "bucket_id blake (key_of row) (dx_num_buckets ix) (dx_hash_name ix) = Inr b" "b < dx_num_buckets ix"
    "load_bucket ix b = (bucket_records ix b, ix\<lparr>dx_cache := c\<rparr>)" "disk_inv blake (ix\<lparr>dx_cache := c\<rparr>)"
    "bisect_left (bucket_records ix b) (key_of row) 0 (length (bucket_records ix b)) = below (bucket_records ix b) (key_of row)"
    "takeWhile (\<lambda>rec. starts_with rec (key_of row)) (drop (below (bucket_records ix b) (key_of row)) (bucket_records ix b))
      = filter (\<lambda>rec. rec_row rec = row) (bucket_records ix b)"
  let ?recs = "bucket_records ix b" and ?key = "key_of row"
  let ?l = "below ?recs ?key"
  have key: "row_key row = Inr ?key" using assms(2) by (simp add: row_key_iff)
  have hit: "(if ?l < length ?recs \<and> starts_with (?recs ! ?l) ?key then Inr (int (from_le (drop 128 (?recs ! ?l)))) else Inl KeyError)
      = (case row_slots blake ix row of [] \<Rightarrow> Inl KeyError | s # _ \<Rightarrow> Inr s)"
  proof (cases "drop ?l ?recs")
    case Nil
    then show ?thesis using *(1,6) by (simp add: row_slots_def)
  next
    case (Cons r rs)
    then have r: "?recs ! ?l = r" "?l < length ?recs"
      by (metis list.sel(1) hd_drop_conv_nth drop_eq_Nil linorder_not_less list.distinct(1))+
    show ?thesis
      using Cons r *(1) *(6) [symmetric] by (simp add: row_slots_def rec_slot_def)
  qed
  then show ?thesis
    using * key assms(1) by (intro exI [of _ c]) (simp add: disk_lookup_def disk_inv_def)
qed

lemma row_slots_entries:
  assumes "disk_inv blake ix" "row_ok row"
  shows "s \<in> set (row_slots blake ix row) \<longleftrightarrow> (row, s) \<in> set (disk_entries ix)"
proof -
  obtain b where b: "bucket_id blake (key_of row) (dx_num_buckets ix) (dx_hash_name ix) = Inr b" "b < dx_num_buckets ix"
    using lookup_parts [OF assms] by metis
  have same: "b' = b" if "b' < dx_num_buckets ix" "rec \<in> set (bucket_records ix b')" "rec_row rec = row" for b' rec
  proof -
    have "bucket_ok blake ix b'" using assms(1) that by (simp add: disk_inv_def)
    then have l: "length rec = 136" "bucket_id blake (take 128 rec) (dx_num_buckets ix) (dx_hash_name ix) = Inr b'"
      using that(2) by (auto simp: bucket_ok_def list_all_iff)
    then have "take 128 rec = key_of row"
      using key_of_row [of "take 128 rec"] that(3) by (simp add: rec_row_def)
    with l b show ?thesis by simp
  qed
  have "s \<in> set (row_slots blake ix row) \<longleftrightarrow> (\<exists>rec \<in> set (bucket_records ix b). rec_row rec = row \<and> s = rec_slot rec)"
    using b(1) by (auto simp: row_slots_def)
  also have "\<dots> \<longleftrightarrow> (\<exists>b' < dx_num_buckets ix. \<exists>rec \<in> set (bucket_records ix b'). rec_row rec = row \<and> s = rec_slot rec)"
    using b(2) same by blast
  also have "\<dots> \<longleftrightarrow> (row, s) \<in> set (disk_entries ix)" by (auto simp: disk_entries_def)
  finally show ?thesis .
qed

lemma disk_entries_ok:
  assumes "disk_inv blake ix" "(row, s) \<in> set (disk_entries ix)"
  shows "row_ok row"
proof -
  obtain b rec where r: "b < dx_num_buckets ix" "rec \<in> set (bucket_records ix b)" "row = rec_row rec"
    using assms(2) by (auto simp: disk_entries_def)
  then have "length (take 128 rec) = 128"
    using assms(1) by (fastforce simp: disk_inv_def bucket_ok_def list_all_iff)
  with key_of_row [of "take 128 rec"] r(3) show ?thesis by (simp add: rec_row_def)
qed

lemma disk_lookup_inv:
  assumes "disk_inv blake ix"
  shows "disk_inv blake (snd (disk_lookup blake ix r)) \<and> disk_entries (snd (disk_lookup blake ix r)) = disk_entries ix"
proof (cases "row_ok r")
  case True
  with disk_lookup_spec [OF assms] show ?thesis by (metis disk_entries_cache snd_conv)
next
  case False
  then obtain e where "row_key r = Inl e" using row_key_iff by (metis sum.exhaust)
  with assms show ?thesis by (simp add: disk_lookup_def)
qed

interpretation disk: slot_lookup "disk_inv blake" "disk_lookup blake" disk_entries "\<lambda>_. row_ok" for blake
proof
  fix ix r assume inv: "disk_inv blake ix" and t: "row_ok r"
  show "\<exists>s. fst (disk_lookup blake ix r) = Inr s \<and> (r, s) \<in> set (disk_entries ix)" if "r \<in> fst ` set (disk_entries ix)"
  proof -
    from that obtain s where "s \<in> set (row_slots blake ix r)" using row_slots_entries [OF inv t] by auto
    then obtain s' ss where s': "row_slots blake ix r = s' # ss" by (cases "row_slots blake ix r") auto
    then have "(r, s') \<in> set (disk_entries ix)" using row_slots_entries [OF inv t, of s'] by simp
    then show ?thesis using disk_lookup_spec [OF inv t] s' by auto
  qed
  show "fst (disk_lookup blake ix r) = Inl KeyError" if "r \<notin> fst ` set (disk_entries ix)"
  proof -
    have "s \<notin> set (row_slots blake ix r)" for s
      using that row_slots_entries [OF inv t, of s] by (metis fst_conv image_eqI)
    then have "row_slots blake ix r = []" by (cases "row_slots blake ix r") auto
    then show ?thesis using disk_lookup_spec [OF inv t] by auto
  qed
qed (simp_all add: disk_lookup_inv disk_entries_ok)

end
