(* ===== verification/DiskIndexBuild.thy ===== *)
theory DiskIndexBuild
  imports DiskSlotIndex
begin

text \<open>
  The two-pass build of \<open>DiskSlotIndex.build\<close> is a counting sort of the records by bucket: the
  lemmas follow the raw file, the placement by offset and cursor, and the bucket files, and
  conclude that the index that is opened holds exactly the rows it was built from.
\<close>

section \<open>Pass 1\<close>

definition record_of :: "int list \<Rightarrow> int \<Rightarrow> bytes" where
  "record_of row slot = key_of row @ le_bytes 8 (nat slot)"

definition slot_ok :: "int \<Rightarrow> bool" where
  "slot_ok s \<longleftrightarrow> 0 \<le> s \<and> s < 2 ^ 64"

definition bucket_of :: "(bytes \<Rightarrow> bytes) \<Rightarrow> nat \<Rightarrow> string \<Rightarrow> bytes \<Rightarrow> nat" where
  "bucket_of blake nb hash rec =
     (if hash = ''fnv1a-64'' then fnv1a (take 128 rec) mod nb else from_le (blake (take 128 rec)) mod nb)"

lemma bucket_id_eq: "0 < nb \<Longrightarrow> bucket_id blake (take 128 rec) nb hash = Inr (bucket_of blake nb hash rec)"
  by (simp add: bucket_id_def bucket_of_def)

lemma bucket_of_less: "0 < nb \<Longrightarrow> bucket_of blake nb hash rec < nb"
  by (simp add: bucket_of_def)

lemma record_of_props:
  assumes "row_ok row" "slot_ok s"
  shows "length (record_of row s) = 136" "take 128 (record_of row s) = key_of row"
    "rec_row (record_of row s) = row" "rec_slot (record_of row s) = s"
proof -
  have l: "length (key_of row) = 128" using assms(1) by (simp add: row_ok_def length_key_of)
  then show "length (record_of row s) = 136" "take 128 (record_of row s) = key_of row"
    by (simp_all add: record_of_def)
  then show "rec_row (record_of row s) = row" using assms(1) by (simp add: rec_row_def row_of_key)
  show "rec_slot (record_of row s) = s"
    using l assms(2) by (simp add: rec_slot_def record_of_def from_le_le_bytes_id slot_ok_def nat_less_iff)
qed

text \<open>The slots pass 1 pairs with the rows.\<close>

definition row_slots_from :: "nat \<Rightarrow> int list option \<Rightarrow> nat \<Rightarrow> int list" where
  "row_slots_from i slot_iter n = (case slot_iter of None \<Rightarrow> map int [i..<i + n] | Some ss \<Rightarrow> take n ss)"

definition count_buckets :: "(bytes \<Rightarrow> nat) \<Rightarrow> nat \<Rightarrow> bytes list \<Rightarrow> nat list" where
  "count_buckets bk nb recs = map (\<lambda>b. length (filter (\<lambda>r. bk r = b) recs)) [0..<nb]"

lemma count_buckets_step:
  assumes "bk r < nb"
  shows "(count_buckets bk nb recs)[bk r := Suc (count_buckets bk nb recs ! bk r)] = count_buckets bk nb (recs @ [r])"
  using assms by (auto intro!: nth_equalityI simp: count_buckets_def nth_list_update)

lemma pass1_records:
  assumes nb: "0 < nb" and rows: "list_all row_ok rows"
    and slots: "length (row_slots_from i slot_iter (length rows)) = length rows"
    and ok: "list_all slot_ok (row_slots_from i slot_iter (length rows))"
    and counts: "counts = count_buckets (bucket_of blake nb hash) nb recs0"
  defines "recs \<equiv> map2 record_of rows (row_slots_from i slot_iter (length rows))"
  shows "pass1 blake nb hash rows i slot_iter (concat recs0, counts)
    = Inr (concat (recs0 @ recs), count_buckets (bucket_of blake nb hash) nb (recs0 @ recs))"
  using rows slots ok counts unfolding recs_def
proof (induction rows arbitrary: i slot_iter recs0 counts)
  case (Cons row rows)
  let ?bk = "bucket_of blake nb hash"
  obtain s it where s: "(case slot_iter of None \<Rightarrow> Inr (int i, None)
      | Some [] \<Rightarrow> Inl StopIteration | Some (s # ss) \<Rightarrow> Inr (s, Some ss)) = Inr (s, it)"
    "row_slots_from i slot_iter (length (row # rows)) = s # row_slots_from (Suc i) it (length rows)"
  proof (cases slot_iter)
    case None
    then show ?thesis using that by (simp add: row_slots_from_def upt_conv_Cons del: upt_Suc)
  next
    case (Some ss)
    then have "ss \<noteq> []" using Cons.prems(2) by (auto simp: row_slots_from_def)
    then obtain a as where "ss = a # as" by (cases ss) auto
    with Some show ?thesis using that by (simp add: row_slots_from_def)
  qed
  have row: "row_ok row" "list_all row_ok rows" and slot: "slot_ok s" using Cons.prems s(2) by auto
  let ?r = "record_of row s"
  have key: "row_key row = Inr (key_of row)" using row(1) by (simp add: row_key_iff)
  have b: "bucket_id blake (key_of row) nb hash = Inr (?bk ?r)"
    using bucket_id_eq [OF nb, of blake ?r hash] record_of_props(2) [OF row(1) slot] by simp
  have p: "pack_u64 s = Inr (le_bytes 8 (nat s))" using slot by (simp add: pack_u64_def slot_ok_def)
  have lt: "?bk ?r < nb" using nb by (rule bucket_of_less)
  have c: "counts[?bk ?r := Suc (counts ! ?bk ?r)] = count_buckets ?bk nb (recs0 @ [?r])"
    unfolding Cons.prems(4) using lt by (rule count_buckets_step)
  have "pass1 blake nb hash (row # rows) i slot_iter (concat recs0, counts)
      = pass1 blake nb hash rows (Suc i) it (concat (recs0 @ [?r]), count_buckets ?bk nb (recs0 @ [?r]))"
    using key s(1) b p c by (simp add: record_of_def)
  also have "\<dots> = Inr (concat ((recs0 @ [?r]) @ map2 record_of rows (row_slots_from (Suc i) it (length rows))),
      count_buckets ?bk nb ((recs0 @ [?r]) @ map2 record_of rows (row_slots_from (Suc i) it (length rows))))"
    using Cons.prems s(2) row(2) by (intro Cons.IH) auto
  finally show ?case using s(2) by simp
qed (simp add: row_slots_from_def)

section \<open>Offsets\<close>

lemma cumsum_nth: "i < length cs \<Longrightarrow> cumsum acc cs ! i = acc + sum_list (take (Suc i) cs)"
  by (induction cs arbitrary: acc i) (auto simp: nth_Cons' add.assoc split: nat.split)

lemma length_cumsum [simp]: "length (cumsum acc cs) = length cs"
  by (induction cs arbitrary: acc) auto

lemma region_offsets_nth:
  "b \<le> length counts \<Longrightarrow> region_offsets counts ! b = sum_list (take b counts) * 136"
proof (cases b)
  case (Suc j)
  assume "b \<le> length counts"
  moreover have "sum_list (map (\<lambda>c. c * 136) xs) = sum_list xs * 136" for xs :: "nat list"
    by (induction xs) (simp_all add: algebra_simps)
  ultimately show ?thesis
    using Suc by (simp add: region_offsets_def cumsum_nth RECORD_BYTES_def take_map)
qed (simp add: region_offsets_def)

lemma region_offsets_last: "last (region_offsets counts) = sum_list counts * 136"
proof -
  have "length (region_offsets counts) = Suc (length counts)" "region_offsets counts \<noteq> []"
    by (simp_all add: region_offsets_def)
  then have "last (region_offsets counts) = region_offsets counts ! length counts"
    using last_conv_nth [of "region_offsets counts"] by (simp del: last_conv_nth)
  then show ?thesis by (simp add: region_offsets_nth)
qed

section \<open>Pass 2\<close>

lemma pwrite_concat:
  assumes "\<And>x. x \<in> set gs \<Longrightarrow> length x = w" "length r = w" "j < length gs"
  shows "pwrite (concat gs) r (j * w) = concat (gs[j := r])"
proof -
  have split: "gs = take j gs @ gs ! j # drop (Suc j) gs" using assms(3) by (rule id_take_nth_drop)
  have "length (concat (take j gs)) = j * w"
    using length_concat_const [of "take j gs" w] assms(1,3) by (auto dest: in_set_takeD)
  moreover have "length (gs ! j) = w" using assms(1,3) by simp
  moreover have "concat gs = concat (take j gs) @ gs ! j @ concat (drop (Suc j) gs)"
    by (subst split) simp
  moreover have "gs[j := r] = take j gs @ r # drop (Suc j) gs" using assms(3) by (simp add: upd_conv_take_nth_drop)
  ultimately show ?thesis using assms(2) by (simp add: pwrite_def)
qed

text \<open>The start of a bucket's region, in records.\<close>

definition region_start :: "(bytes \<Rightarrow> nat) \<Rightarrow> bytes list \<Rightarrow> nat \<Rightarrow> nat" where
  "region_start bk recs b = sum_list (map (\<lambda>b. length (filter (\<lambda>r. bk r = b) recs)) [0..<b])"

lemma region_start_Suc: "region_start bk recs (Suc b) = region_start bk recs b + length (filter (\<lambda>r. bk r = b) recs)"
  by (simp add: region_start_def)

lemma region_start_mono: "b \<le> c \<Longrightarrow> region_start bk recs b \<le> region_start bk recs c"
  by (rule lift_Suc_mono_le [of "region_start bk recs"]) (simp_all add: region_start_Suc)

lemma region_start_total:
  assumes "\<And>r. r \<in> set recs \<Longrightarrow> bk r < nb"
  shows "region_start bk recs nb = length recs"
  using assms
proof (induction recs)
  case (Cons r recs)
  have "region_start bk (r # recs) b = region_start bk recs b + (if bk r < b then 1 else 0)" for b
    by (induction b) (auto simp: region_start_Suc region_start_def)
  with Cons show ?case by simp
qed (simp add: region_start_def)

lemma region_offsets_start:
  assumes "b \<le> nb"
  shows "region_offsets (count_buckets bk nb recs) ! b = region_start bk recs b * 136"
proof -
  have "take b (count_buckets bk nb recs) = map (\<lambda>b. length (filter (\<lambda>r. bk r = b) recs)) [0..<b]"
    using assms by (simp add: count_buckets_def take_map)
  then show ?thesis using assms by (subst region_offsets_nth) (simp_all add: count_buckets_def region_start_def)
qed

text \<open>
  The invariant of the placement: after the records \<open>dn\<close>, bucket \<open>b\<close>'s cursor counts its
  records and its region starts with them, in order.
\<close>

definition placed :: "(bytes \<Rightarrow> nat) \<Rightarrow> nat \<Rightarrow> bytes list \<Rightarrow> bytes list \<Rightarrow> bytes list \<Rightarrow> bool" where
  "placed bk nb recs dn gs \<longleftrightarrow> length gs = length recs \<and> list_all (\<lambda>g. length g = 136) gs
     \<and> (\<forall>b < nb. \<forall>k < length (filter (\<lambda>r. bk r = b) dn).
          gs ! (region_start bk recs b + k) = filter (\<lambda>r. bk r = b) dn ! k)"

lemma region_index_inj:
  assumes "k < length (filter (\<lambda>r. bk r = b) recs)" "l < length (filter (\<lambda>r. bk r = c) recs)"
    "region_start bk recs b + k = region_start bk recs c + l"
  shows "b = c \<and> k = l"
proof -
  have "b = c"
  proof (rule ccontr)
    assume "b \<noteq> c"
    then consider "Suc b \<le> c" | "Suc c \<le> b" by linarith
    then show False
      using region_start_mono [of "Suc b" c bk recs] region_start_mono [of "Suc c" b bk recs] assms
      by cases (simp_all add: region_start_Suc)
  qed
  with assms(3) show ?thesis by simp
qed

lemma pass2_placed:
  assumes nb: "0 < nb" and recs: "recs = dn @ todo" and len: "list_all (\<lambda>r. length r = 136) recs"
    and placed: "placed (bucket_of blake nb hash) nb recs dn gs"
  shows "\<exists>gs'. pass2 blake nb hash (region_offsets (count_buckets (bucket_of blake nb hash) nb recs)) todo
        (concat gs, count_buckets (bucket_of blake nb hash) nb dn)
      = Inr (concat gs', count_buckets (bucket_of blake nb hash) nb recs)
    \<and> placed (bucket_of blake nb hash) nb recs recs gs'"
  using recs placed
proof (induction todo arbitrary: dn gs)
  case Nil
  then show ?case by auto
next
  case (Cons r todo)
  let ?bk = "bucket_of blake nb hash"
  let ?b = "?bk r" and ?off = "region_offsets (count_buckets (bucket_of blake nb hash) nb recs)"
  let ?c = "length (filter (\<lambda>q. ?bk q = ?b) dn)"
  let ?j = "region_start ?bk recs ?b + ?c"
  have lt: "?b < nb" using nb by (rule bucket_of_less)
  have r: "length r = 136" using len Cons.prems(1) by simp
  have c: "?c < length (filter (\<lambda>q. ?bk q = ?b) recs)" using Cons.prems(1) by simp
  have "?j < region_start ?bk recs (Suc ?b)" using c by (simp add: region_start_Suc)
  also have "\<dots> \<le> region_start ?bk recs nb" using lt by (intro region_start_mono) simp
  also have "\<dots> = length recs" using bucket_of_less [OF nb] by (intro region_start_total)
  finally have j: "?j < length gs" using Cons.prems(2) by (simp add: placed_def)
  have pos: "?off ! ?b + count_buckets ?bk nb dn ! ?b * RECORD_BYTES = ?j * 136"
    using lt by (simp add: region_offsets_start RECORD_BYTES_def algebra_simps) (simp add: count_buckets_def)
  have wr: "pwrite (concat gs) r (?j * 136) = concat (gs[?j := r])"
    using Cons.prems(2) r j by (intro pwrite_concat) (auto simp: placed_def list_all_iff)
  have cur: "(count_buckets ?bk nb dn)[?b := Suc (count_buckets ?bk nb dn ! ?b)] = count_buckets ?bk nb (dn @ [r])"
    using lt by (rule count_buckets_step)
  have "placed ?bk nb recs (dn @ [r]) (gs[?j := r])"
    unfolding placed_def
  proof (intro conjI allI impI)
    show "length (gs[?j := r]) = length recs" using Cons.prems(2) by (simp add: placed_def)
    show "list_all (\<lambda>g. length g = 136) (gs[?j := r])"
      using Cons.prems(2) r by (auto simp: placed_def list_all_iff dest!: set_update_subset_insert [THEN subsetD])
    fix b k assume b: "b < nb" and k: "k < length (filter (\<lambda>q. ?bk q = b) (dn @ [r]))"
    have k': "k < length (filter (\<lambda>q. ?bk q = b) recs)" using k Cons.prems(1) by (auto split: if_splits)
    show "gs[?j := r] ! (region_start ?bk recs b + k) = filter (\<lambda>q. ?bk q = b) (dn @ [r]) ! k"
    proof (cases "b = ?b \<and> k = ?c")
      case True
      with j show ?thesis by simp
    next
      case False
      then have ne: "region_start ?bk recs b + k \<noteq> ?j" using region_index_inj [OF k' c] by blast
      have "k < length (filter (\<lambda>q. ?bk q = b) dn)" using k False by (auto split: if_splits)
      then show ?thesis using Cons.prems(2) b ne by (simp add: placed_def nth_append)
    qed
  qed
  then obtain gs' where "pass2 blake nb hash ?off todo (concat (gs[?j := r]), count_buckets ?bk nb (dn @ [r]))
      = Inr (concat gs', count_buckets ?bk nb recs)" "placed ?bk nb recs recs gs'"
    using Cons.IH [of "dn @ [r]" "gs[?j := r]"] Cons.prems(1) by auto
  moreover have "pass2 blake nb hash ?off (r # todo) (concat gs, count_buckets ?bk nb dn)
      = pass2 blake nb hash ?off todo (concat (gs[?j := r]), count_buckets ?bk nb (dn @ [r]))"
    using bucket_id_eq [OF nb, of blake r hash] pos wr cur by (simp add: Let_def)
  ultimately show ?case by auto
qed

lemma bucket_region_sorted:
  assumes "placed bk nb recs recs gs" "b < nb" "\<And>r. r \<in> set recs \<Longrightarrow> bk r < nb"
  shows "bucket_region (region_offsets (count_buckets bk nb recs)) (concat gs) b = sort (filter (\<lambda>r. bk r = b) recs)"
proof -
  let ?s = "region_start bk recs b" and ?f = "filter (\<lambda>r. bk r = b) recs"
  have len: "\<And>g. g \<in> set gs \<Longrightarrow> length g = 136" "length gs = length recs" using assms(1) by (auto simp: placed_def list_all_iff)
  have e: "region_offsets (count_buckets bk nb recs) ! b = ?s * 136"
      "region_offsets (count_buckets bk nb recs) ! Suc b = (?s + length ?f) * 136"
    using assms(2) by (simp_all add: region_offsets_start region_start_Suc)
  have "region_start bk recs (Suc b) \<le> region_start bk recs nb" using assms(2) by (intro region_start_mono) simp
  also have "\<dots> = length recs" using assms(3) by (rule region_start_total)
  finally have fits: "?s + length ?f \<le> length gs" using len(2) by (simp add: region_start_Suc)
  have drop: "drop (n * 136) (concat xs) = concat (drop n xs)" "take (n * 136) (concat xs) = concat (take n xs)"
    if "n \<le> length xs" "\<And>g. g \<in> set xs \<Longrightarrow> length g = 136" for n and xs :: "bytes list"
  proof -
    have "length (concat (take n xs)) = n * 136"
      using length_concat_const [of "take n xs" 136] that by (auto dest: in_set_takeD)
    moreover have "concat xs = concat (take n xs) @ concat (drop n xs)"
      by (metis append_take_drop_id concat_append)
    ultimately show "drop (n * 136) (concat xs) = concat (drop n xs)" "take (n * 136) (concat xs) = concat (take n xs)"
      by simp_all
  qed
  have d: "drop (?s * 136) (concat gs) = concat (drop ?s gs)"
    by (rule drop(1)) (use fits len(1) in auto)
  have "take (length ?f * 136) (concat (drop ?s gs)) = concat (take (length ?f) (drop ?s gs))"
    by (rule drop(2)) (use fits len(1) in \<open>auto dest: in_set_dropD\<close>)
  with d have "take (length ?f * 136) (drop (?s * 136) (concat gs)) = concat (take (length ?f) (drop ?s gs))"
    by (simp only:)
  moreover have "take (length ?f) (drop ?s gs) = ?f"
    using assms(1,2) fits by (intro nth_equalityI) (auto simp: placed_def)
  moreover have "chunks 136 (concat ?f) = ?f"
  proof (rule chunks_concat)
    show "length x = 136" if "x \<in> set ?f" for x
      using that calculation(2) len(1) by (metis in_set_dropD in_set_takeD)
  qed simp
  ultimately show ?thesis by (simp add: bucket_region_def Let_def e RECORD_BYTES_def)
qed

section \<open>The bucket files\<close>

lemma write_buckets_get:
  "write_buckets offsets grouped nb files b
    = (if b < nb \<and> offsets ! b \<noteq> offsets ! Suc b then Some (concat (bucket_region offsets grouped b)) else files b)"
proof (induction nb)
  case (Suc nb)
  have "write_buckets offsets grouped (Suc nb) files = (if offsets ! nb = offsets ! Suc nb
      then write_buckets offsets grouped nb files
      else (write_buckets offsets grouped nb files)(nb := Some (concat (bucket_region offsets grouped nb))))"
    by (simp add: write_buckets_def)
  with Suc show ?case by (auto simp: less_Suc_eq)
qed (simp add: write_buckets_def)

definition region_bytes :: "nat list \<Rightarrow> bytes \<Rightarrow> nat \<Rightarrow> bytes" where
  "region_bytes offsets grouped b = concat (bucket_region offsets grouped b)"

definition data_upto :: "nat list \<Rightarrow> bytes \<Rightarrow> nat \<Rightarrow> bytes" where
  "data_upto offsets grouped b = concat (map (region_bytes offsets grouped) [0..<b])"

lemma write_single_closed:
  "write_single offsets grouped nb
    = (data_upto offsets grouped nb, map (\<lambda>b. length (data_upto offsets grouped b)) [0..<Suc nb])"
proof (induction nb)
  case (Suc nb)
  have empty: "region_bytes offsets grouped nb = []" if "offsets ! nb = offsets ! Suc nb"
    using that by (simp add: region_bytes_def bucket_region_def)
  have "write_single offsets grouped (Suc nb) = (\<lambda>(data, data_offsets).
        if offsets ! nb = offsets ! Suc nb then (data, data_offsets @ [last data_offsets])
        else let buf = concat (bucket_region offsets grouped nb)
          in (data @ buf, data_offsets @ [last data_offsets + length buf])) (write_single offsets grouped nb)"
    by (simp add: write_single_def)
  also have "\<dots> = (data_upto offsets grouped (Suc nb), map (\<lambda>b. length (data_upto offsets grouped b)) [0..<Suc (Suc nb)])"
    using empty unfolding Suc by (simp add: Let_def data_upto_def region_bytes_def [symmetric])
  finally show ?case .
qed (simp add: write_single_def data_upto_def)

lemma data_slice:
  assumes "b < nb"
  shows "take (length (data_upto offsets grouped (Suc b)) - length (data_upto offsets grouped b))
      (drop (length (data_upto offsets grouped b)) (data_upto offsets grouped nb)) = region_bytes offsets grouped b"
proof -
  let ?f = "region_bytes offsets grouped"
  have "[0..<nb] = [0..<b] @ b # [Suc b..<nb]"
    using assms upt_add_eq_append [of 0 b "nb - b"] by (simp add: upt_conv_Cons del: upt_Suc)
  then have "data_upto offsets grouped nb = data_upto offsets grouped b @ ?f b @ concat (map ?f [Suc b..<nb])"
    by (simp add: data_upto_def)
  then show ?thesis by (simp add: data_upto_def)
qed

section \<open>The opened index\<close>

lemma mset_buckets:
  "mset (concat (map (\<lambda>b. filter (\<lambda>r. bk r = b) recs) [0..<n])) = filter_mset (\<lambda>r. bk r < n) (mset recs)"
proof (induction n)
  case (Suc n)
  have "filter_mset (\<lambda>r. bk r < n) (mset recs) + filter_mset (\<lambda>r. bk r = n) (mset recs)
      = filter_mset (\<lambda>r. bk r < Suc n) (mset recs)"
    by (rule multiset_eqI) auto
  with Suc show ?case by simp
qed simp

lemma image_mset_concat_map:
  "mset (concat (map (\<lambda>b. map f (g b)) bs)) = image_mset f (mset (concat (map g bs)))"
  by (induction bs) simp_all

lemma mset_concat_sort:
  "mset (concat (map (\<lambda>b. sort (g b)) bs)) = mset (concat (map g bs))"
  by (induction bs) simp_all

text \<open>What a successful build leaves, for either file layout.\<close>

definition built_from :: "(bytes \<Rightarrow> bytes) \<Rightarrow> bytes list \<Rightarrow> disk_index \<Rightarrow> bool" where
  "built_from blake recs ix \<longleftrightarrow> \<not> dx_closed ix \<and> 0 < dx_num_buckets ix \<and> 0 < dx_cache_buckets ix \<and> dx_cache ix = []
     \<and> (\<forall>b < dx_num_buckets ix. bucket_records ix b
          = sort (filter (\<lambda>r. bucket_of blake (dx_num_buckets ix) (dx_hash_name ix) r = b) recs))"

lemma built_from_inv:
  assumes "built_from blake recs ix" "list_all (\<lambda>r. length r = 136) recs"
  shows "disk_inv blake ix"
  using assms bucket_id_eq [of "dx_num_buckets ix" blake _ "dx_hash_name ix"]
  by (auto simp: built_from_def disk_inv_def bucket_ok_def list_all_iff)

lemma built_from_entries:
  assumes "built_from blake recs ix"
  shows "mset (disk_entries ix) = mset (map (\<lambda>rec. (rec_row rec, rec_slot rec)) recs)"
proof -
  let ?bk = "bucket_of blake (dx_num_buckets ix) (dx_hash_name ix)"
  have "disk_entries ix = concat (map (\<lambda>b. map (\<lambda>rec. (rec_row rec, rec_slot rec)) (sort (filter (\<lambda>r. ?bk r = b) recs))) [0..<dx_num_buckets ix])"
    unfolding disk_entries_def using assms by (intro arg_cong [where f = concat] map_cong) (auto simp: built_from_def)
  then have "mset (disk_entries ix) = image_mset (\<lambda>rec. (rec_row rec, rec_slot rec)) (filter_mset (\<lambda>r. ?bk r < dx_num_buckets ix) (mset recs))"
    by (simp only: image_mset_concat_map mset_concat_sort mset_buckets)
  also have "filter_mset (\<lambda>r. ?bk r < dx_num_buckets ix) (mset recs) = mset recs"
    using assms bucket_of_less by (auto simp: built_from_def filter_mset_eq_conv)
  finally show ?thesis by simp
qed

lemma parse_offsets:
  assumes "list_all (\<lambda>n. n < 2 ^ 64) ns"
  shows "rmapM (\<lambda>off. pack_u64 (int off)) ns = Inr (map (le_bytes 8) ns)"
    "map from_le (chunks 8 (concat (map (le_bytes 8) ns))) = ns"
    "length (concat (map (le_bytes 8) ns)) mod 8 = 0"
proof -
  show "rmapM (\<lambda>off. pack_u64 (int off)) ns = Inr (map (le_bytes 8) ns)"
  proof (rule rmapM_Inr)
    fix n assume "n \<in> set ns"
    then have "n < 2 ^ 64" using assms by (simp add: list_all_iff)
    then have "int n < 2 ^ 64" by (metis of_nat_less_iff of_nat_numeral of_nat_power)
    then show "pack_u64 (int n) = Inr (le_bytes 8 n)" by (simp add: pack_u64_def)
  qed
  have "chunks 8 (concat (map (le_bytes 8) ns)) = map (le_bytes 8) ns" by (rule chunks_concat) auto
  then show "map from_le (chunks 8 (concat (map (le_bytes 8) ns))) = ns"
    using assms by (auto simp: list_all_iff from_le_le_bytes intro!: map_idI)
  have "length (concat (map (le_bytes 8) ns)) = length (map (le_bytes 8) ns) * 8" by (rule length_concat_const) auto
  then show "length (concat (map (le_bytes 8) ns)) mod 8 = 0" by simp
qed

lemma sort_Nil_iff: "sort xs = [] \<longleftrightarrow> xs = []"
  by (metis length_0_conv length_sort)

lemma chunks_sorted_records:
  assumes "list_all (\<lambda>r. length r = 136) recs"
  shows "chunks RECORD_BYTES (concat (sort (filter P recs))) = sort (filter P recs)"
  using assms by (auto simp: RECORD_BYTES_def list_all_iff intro!: chunks_concat)

lemma records_length:
  "list_all row_ok rows \<Longrightarrow> list_all slot_ok ss \<Longrightarrow> list_all (\<lambda>r. length r = 136) (map2 record_of rows ss)"
  by (induction rows ss rule: list_induct2') (simp_all add: record_of_props)

lemma records_decode:
  "length rows = length ss \<Longrightarrow> list_all row_ok rows \<Longrightarrow> list_all slot_ok ss \<Longrightarrow>
   map (\<lambda>rec. (rec_row rec, rec_slot rec)) (map2 record_of rows ss) = zip rows ss"
  by (induction rows ss rule: list_induct2) (simp_all add: record_of_props)

lemma disk_index_build_built:
  assumes nb: "0 < nb" and hash: "hash \<in> {''blake2b'', ''fnv1a-64''}"
    and rows: "list_all row_ok rows" and slots: "length (row_slots_from 0 slots (length rows)) = length rows"
    and ok: "list_all slot_ok (row_slots_from 0 slots (length rows))"
    and fresh: "dd_buckets dir = (\<lambda>_. None)" and size: "length rows * 136 < 2 ^ 64"
  shows "\<exists>dir' ix. disk_index_build blake dir rows 16 nb cache slots hash single = Inr (dir', ix)
    \<and> built_from blake (map2 record_of rows (row_slots_from 0 slots (length rows))) ix
    \<and> dx_num_buckets ix = nb \<and> dx_hash_name ix = hash \<and> dx_count ix = int (length rows)"
proof -
  let ?bk = "bucket_of blake nb hash"
  define recs where "recs = map2 record_of rows (row_slots_from 0 slots (length rows))"
  define offs where "offs = region_offsets (count_buckets ?bk nb recs)"
  have len: "list_all (\<lambda>r. length r = 136) recs"
    unfolding recs_def using rows ok by (rule records_length)
  have lt: "\<And>r. r \<in> set recs \<Longrightarrow> ?bk r < nb" using bucket_of_less [OF nb] by blast
  have p1: "pass1 blake nb hash rows 0 slots ([], replicate nb 0) = Inr (concat recs, count_buckets ?bk nb recs)"
    using pass1_records [OF nb rows slots ok, of "count_buckets ?bk nb []" blake hash "[]"]
    by (simp add: recs_def count_buckets_def map_replicate_const)
  have chunks: "chunks RECORD_BYTES (concat recs) = recs"
    using len by (auto simp: RECORD_BYTES_def list_all_iff intro!: chunks_concat)
  have total: "last offs = length recs * 136"
  proof -
    have "last offs = region_offsets (count_buckets ?bk nb recs) ! nb"
      by (simp add: offs_def region_offsets_last region_offsets_nth count_buckets_def)
    also have "\<dots> = region_start ?bk recs nb * 136" by (rule region_offsets_start) simp
    finally show ?thesis using region_start_total [of recs ?bk nb] lt by simp
  qed
  have zero: "replicate (last offs) 0 = concat (replicate (length recs) (replicate 136 (0 :: byte)))"
  proof -
    have "replicate (n * 136) (0 :: byte) = concat (replicate n (replicate 136 0))" for n
      by (induction n) (simp_all add: replicate_add)
    then show ?thesis by (simp only: total)
  qed
  have "placed ?bk nb recs [] (replicate (length recs) (replicate 136 0))"
    by (simp add: placed_def list_all_iff)
  then obtain gs where p2: "pass2 blake nb hash offs recs (replicate (last offs) 0, replicate nb 0)
      = Inr (concat gs, count_buckets ?bk nb recs)" and placed: "placed ?bk nb recs recs gs"
    using pass2_placed [OF nb _ len, where dn = "[]" and todo = recs and hash = hash and blake = blake] zero
    by (auto simp: offs_def count_buckets_def map_replicate_const)
  have region: "bucket_region offs (concat gs) b = sort (filter (\<lambda>r. ?bk r = b) recs)" if "b < nb" for b
    unfolding offs_def using placed that lt by (rule bucket_region_sorted)
  show ?thesis
  proof (cases single)
    case False
    define dir' where "dir' = dir\<lparr>dd_buckets := write_buckets offs (concat gs) nb (dd_buckets dir),
      dd_meta := Some \<lparr>im_format = (if hash = ''fnv1a-64'' then FORMAT_V2 else FORMAT), im_hash = Some hash,
        im_heads = 16, im_num_buckets = nb, im_count = int (length rows), im_cache_buckets = cache, im_single_file = False\<rparr>\<rparr>"
    define ix where "ix = \<lparr>dx_dir = dir', dx_format = (if hash = ''fnv1a-64'' then FORMAT_V2 else FORMAT),
      dx_hash_name = hash, dx_heads = 16, dx_num_buckets = nb, dx_count = int (length rows),
      dx_cache_buckets = nat (max 1 cache), dx_cache = [], dx_closed = False, dx_data_file = None, dx_offsets = None\<rparr>"
    have build: "disk_index_build blake dir rows 16 nb cache slots hash single = Inr (dir', ix)"
      using hash False p1 p2 chunks
      by (simp add: disk_index_build_def Let_def offs_def [symmetric])
        (auto simp: disk_index_open_def dir'_def ix_def FORMAT_def FORMAT_V2_def FORMAT_V3_def)
    have "bucket_records ix b = sort (filter (\<lambda>r. ?bk r = b) recs)" if b: "b < nb" for b
    proof -
      have "bucket_records ix b = (case write_buckets offs (concat gs) nb (\<lambda>_. None) b of None \<Rightarrow> [] | Some data \<Rightarrow> chunks RECORD_BYTES data)"
        by (simp add: bucket_records_def ix_def dir'_def fresh)
      also have "\<dots> = sort (filter (\<lambda>r. ?bk r = b) recs)"
      proof (cases "offs ! b = offs ! Suc b")
        case True
        then have "sort (filter (\<lambda>r. ?bk r = b) recs) = []" using region [OF b] by (simp add: bucket_region_def)
        with True show ?thesis by (simp add: write_buckets_get)
      next
        case False
        with b show ?thesis by (simp add: write_buckets_get region [OF b] chunks_sorted_records [OF len])
      qed
      finally show ?thesis .
    qed
    then have "built_from blake recs ix" using nb by (simp add: built_from_def) (simp add: ix_def)
    with build show ?thesis by (auto simp: recs_def ix_def)
  next
    case True
    define lens where "lens = map (\<lambda>b. length (data_upto offs (concat gs) b)) [0..<Suc nb]"
    have bytes: "region_bytes offs (concat gs) b = concat (sort (filter (\<lambda>r. ?bk r = b) recs))" if "b < nb" for b
      using region [OF that] by (simp add: region_bytes_def)
    have data: "length (data_upto offs (concat gs) b) \<le> length recs * 136" if "b \<le> nb" for b
    proof -
      have "length (region_bytes offs (concat gs) i) = length (filter (\<lambda>r. ?bk r = i) recs) * 136" if "i < nb" for i
        unfolding bytes [OF that] using len length_concat_const [of "sort (filter (\<lambda>r. ?bk r = i) recs)" 136]
        by (auto simp: list_all_iff)
      then have "length (data_upto offs (concat gs) b) = region_start ?bk recs b * 136"
        using that by (induction b) (auto simp: data_upto_def region_start_def algebra_simps)
      then show ?thesis using region_start_mono [OF that, of ?bk recs] region_start_total [of recs ?bk nb] lt by simp
    qed
    have "length recs \<le> length rows" by (simp add: recs_def)
    then have total: "length recs * 136 < 2 ^ 64" using size by linarith
    have small: "list_all (\<lambda>n. n < 2 ^ 64) lens"
      unfolding lens_def list_all_iff
    proof
      fix n assume "n \<in> set (map (\<lambda>b. length (data_upto offs (concat gs) b)) [0..<Suc nb])"
      then obtain b where "n = length (data_upto offs (concat gs) b)" "b \<le> nb" by auto
      then show "n < 2 ^ 64" using data [of b] total by linarith
    qed
    note parse = parse_offsets [OF small]
    define dir' where "dir' = dir\<lparr>dd_data := Some (data_upto offs (concat gs) nb), dd_offsets := Some (concat (map (le_bytes 8) lens)),
      dd_meta := Some \<lparr>im_format = FORMAT_V3, im_hash = Some hash,
        im_heads = 16, im_num_buckets = nb, im_count = int (length rows), im_cache_buckets = cache, im_single_file = True\<rparr>\<rparr>"
    define ix where "ix = \<lparr>dx_dir = dir', dx_format = FORMAT_V3,
      dx_hash_name = hash, dx_heads = 16, dx_num_buckets = nb, dx_count = int (length rows),
      dx_cache_buckets = nat (max 1 cache), dx_cache = [], dx_closed = False,
      dx_data_file = Some (data_upto offs (concat gs) nb), dx_offsets = Some lens\<rparr>"
    have n: "length lens = nb + 1" by (simp add: lens_def)
    have w: "write_single offs (concat gs) nb = (data_upto offs (concat gs) nb, lens)"
      by (simp add: write_single_closed lens_def del: upt_Suc)
    have build: "disk_index_build blake dir rows 16 nb cache slots hash single = Inr (dir', ix)"
      using hash True p1 p2 chunks parse n
      by (simp add: disk_index_build_def Let_def offs_def [symmetric] w)
        (auto simp: disk_index_open_def dir'_def ix_def FORMAT_def FORMAT_V2_def FORMAT_V3_def)
    have "bucket_records ix b = sort (filter (\<lambda>r. ?bk r = b) recs)" if b: "b < nb" for b
    proof -
      have "lens ! b = length (data_upto offs (concat gs) b)" "lens ! Suc b = length (data_upto offs (concat gs) (Suc b))"
        using b by (simp_all add: lens_def nth_append del: upt_Suc)
      then have "bucket_records ix b = chunks RECORD_BYTES (region_bytes offs (concat gs) b)"
        using data_slice [OF b, of offs "concat gs"] by (simp add: bucket_records_def ix_def)
      then show ?thesis using bytes [OF b] chunks_sorted_records [OF len] by simp
    qed
    then have "built_from blake recs ix" using nb by (simp add: built_from_def) (simp add: ix_def)
    with build show ?thesis by (auto simp: recs_def ix_def)
  qed
qed

lemma built_row_slots:
  assumes "built_from blake recs ix" "list_all (\<lambda>r. length r = 136) recs" "row_ok row"
  shows "mset (row_slots blake ix row) = mset (map rec_slot (filter (\<lambda>rec. rec_row rec = row) recs))"
proof -
  let ?bk = "bucket_of blake (dx_num_buckets ix) (dx_hash_name ix)"
  have nb: "0 < dx_num_buckets ix" using assms(1) by (simp add: built_from_def)
  obtain b where b: "bucket_id blake (key_of row) (dx_num_buckets ix) (dx_hash_name ix) = Inr b" "b < dx_num_buckets ix"
    using lookup_parts [OF built_from_inv [OF assms(1,2)] assms(3)] by metis
  have "?bk rec = b" if "rec \<in> set recs" "rec_row rec = row" for rec
  proof -
    have "length (take 128 rec) = 128" using assms(2) that(1) by (auto simp: list_all_iff)
    then have "take 128 rec = key_of row" using key_of_row [of "take 128 rec"] that(2) by (simp add: rec_row_def)
    with b(1) bucket_id_eq [OF nb, of blake rec "dx_hash_name ix"] show ?thesis by simp
  qed
  then have f: "filter (\<lambda>rec. rec_row rec = row) (filter (\<lambda>r. ?bk r = b) recs) = filter (\<lambda>rec. rec_row rec = row) recs"
    unfolding filter_filter by (intro filter_cong) auto
  have "mset (filter P (sort xs)) = mset (filter P xs)" for P and xs :: "bytes list" by simp
  moreover have "row_slots blake ix row = map rec_slot (filter (\<lambda>rec. rec_row rec = row) (sort (filter (\<lambda>r. ?bk r = b) recs)))"
    using b assms(1) by (simp add: row_slots_def built_from_def)
  ultimately show ?thesis by (metis f mset_map)
qed

text \<open>The slots given to the rows equal to \<open>r\<close>.\<close>

definition slots_given :: "int list list \<Rightarrow> int list option \<Rightarrow> int list \<Rightarrow> int list" where
  "slots_given rows slots r = map snd (filter (\<lambda>p. fst p = r) (zip rows (row_slots_from 0 slots (length rows))))"

definition build_input_ok :: "nat \<Rightarrow> string \<Rightarrow> int list list \<Rightarrow> int list option \<Rightarrow> bool" where
  "build_input_ok nb hash rows slots \<longleftrightarrow> 0 < nb \<and> hash \<in> {''blake2b'', ''fnv1a-64''}
     \<and> list_all row_ok rows \<and> length (row_slots_from 0 slots (length rows)) = length rows
     \<and> list_all slot_ok (row_slots_from 0 slots (length rows)) \<and> length rows * 136 < 2 ^ 64"

lemma build_index:
  assumes "build_input_ok nb hash rows slots" "dd_buckets dir = (\<lambda>_. None)"
  obtains dir' ix where "disk_index_build blake dir rows 16 nb cache slots hash single = Inr (dir', ix)"
    "disk_inv blake ix" "dx_cache ix = []" "dx_num_buckets ix = nb" "dx_hash_name ix = hash"
    "\<And>r. row_ok r \<Longrightarrow> mset (row_slots blake ix r) = mset (slots_given rows slots r)"
    "\<And>b. b < nb \<Longrightarrow> bucket_records ix b = sort (filter (\<lambda>r. bucket_of blake nb hash r = b) (map2 record_of rows (row_slots_from 0 slots (length rows))))"
proof -
  let ?ss = "row_slots_from 0 slots (length rows)"
  let ?recs = "map2 record_of rows ?ss"
  have i: "0 < nb" "hash \<in> {''blake2b'', ''fnv1a-64''}" "list_all row_ok rows" "length ?ss = length rows"
      "list_all slot_ok ?ss" "length rows * 136 < 2 ^ 64" using assms(1) by (simp_all add: build_input_ok_def)
  obtain dir' ix where b: "disk_index_build blake dir rows 16 nb cache slots hash single = Inr (dir', ix)"
    and built: "built_from blake ?recs ix" and nb: "dx_num_buckets ix = nb" "dx_hash_name ix = hash"
    using disk_index_build_built [OF i(1-5) assms(2) i(6), of blake cache single] by blast
  have len: "list_all (\<lambda>r. length r = 136) ?recs" using i(3,5) by (rule records_length)
  have "mset (row_slots blake ix r) = mset (slots_given rows slots r)" if "row_ok r" for r
  proof -
    have "map rec_slot (filter (\<lambda>rec. rec_row rec = r) ?recs)
        = map snd (filter (\<lambda>p. fst p = r) (map (\<lambda>rec. (rec_row rec, rec_slot rec)) ?recs))"
      by (simp add: filter_map comp_def)
    also have "map (\<lambda>rec. (rec_row rec, rec_slot rec)) ?recs = zip rows ?ss"
      using i(3-5) by (intro records_decode) simp_all
    finally show ?thesis using built_row_slots [OF built len that] by (simp add: slots_given_def)
  qed
  then show ?thesis
    using that [OF b built_from_inv [OF built len]] built nb by (simp add: built_from_def)
qed

section \<open>Histories of lookups\<close>

lemma row_slots_cache [simp]: "row_slots blake (ix\<lparr>dx_cache := c\<rparr>) = row_slots blake ix"
  by (rule ext) (simp add: row_slots_def split: sum.split)

definition run_lookups :: "(bytes \<Rightarrow> bytes) \<Rightarrow> int list list \<Rightarrow> disk_index \<Rightarrow> disk_index" where
  "run_lookups blake rs ix = fold (\<lambda>r ix. snd (disk_lookup blake ix r)) rs ix"

lemma disk_lookup_cache:
  assumes "disk_inv blake ix"
  shows "\<exists>c. snd (disk_lookup blake ix r) = ix\<lparr>dx_cache := c\<rparr>"
proof (cases "row_ok r")
  case True
  with disk_lookup_spec [OF assms] show ?thesis by (metis snd_conv)
next
  case False
  then obtain e where "row_key r = Inl e" using row_key_iff by (metis sum.exhaust)
  then have "snd (disk_lookup blake ix r) = ix\<lparr>dx_cache := dx_cache ix\<rparr>"
    using assms by (simp add: disk_lookup_def)
  then show ?thesis by blast
qed

lemma run_lookups_cache:
  assumes "disk_inv blake ix"
  shows "\<exists>c. run_lookups blake rs ix = ix\<lparr>dx_cache := c\<rparr> \<and> disk_inv blake (ix\<lparr>dx_cache := c\<rparr>)"
  using assms
proof (induction rs arbitrary: ix)
  case Nil
  then show ?case by (intro exI [of _ "dx_cache ix"]) (simp add: run_lookups_def)
next
  case (Cons r rs)
  obtain c where c: "snd (disk_lookup blake ix r) = ix\<lparr>dx_cache := c\<rparr>" using disk_lookup_cache [OF Cons.prems] by blast
  then have "disk_inv blake (ix\<lparr>dx_cache := c\<rparr>)" using disk_lookup_inv [OF Cons.prems, of r] by simp
  from Cons.IH [OF this] show ?case by (simp add: run_lookups_def c)
qed

lemma lookup_after_lookups:
  assumes "disk_inv blake ix" "row_ok r"
  shows "fst (disk_lookup blake (run_lookups blake rs ix) r) = (case row_slots blake ix r of [] \<Rightarrow> Inl KeyError | s # _ \<Rightarrow> Inr s)
    \<and> length (dx_cache (run_lookups blake rs ix)) \<le> dx_cache_buckets ix"
proof -
  obtain c where "run_lookups blake rs ix = ix\<lparr>dx_cache := c\<rparr>" "disk_inv blake (ix\<lparr>dx_cache := c\<rparr>)"
    using run_lookups_cache [OF assms(1)] by blast
  with disk_lookup_spec [OF _ assms(2), of blake "ix\<lparr>dx_cache := c\<rparr>"] show ?thesis
    by (auto simp: disk_inv_def)
qed

section \<open>Properties\<close>

text \<open>
  C10: the two-pass build and the lookups are exact: for rows of sixteen 64-bit ids, any slots, any
  number of buckets and either hash and file layout, the index that \<open>build\<close> opens answers
  \<open>lookup_all\<close> with all slots of the rows equal to the tuple (and \<open>lookup\<close> with one of them), and
  with \<open>KeyError\<close> exactly when no row is equal.
\<close>

theorem disk_index_exact:
  assumes "build_input_ok nb hash rows slots" "dd_buckets dir = (\<lambda>_. None)" "row_ok r"
  shows "\<exists>dir' ix ss. disk_index_build blake dir rows 16 nb cache slots hash single = Inr (dir', ix)
    \<and> mset ss = mset (slots_given rows slots r)
    \<and> fst (disk_lookup_all blake ix r) = (if ss = [] then Inl KeyError else Inr ss)
    \<and> fst (disk_lookup blake ix r) = (if ss = [] then Inl KeyError else Inr (hd ss))"
proof (rule build_index [OF assms(1,2), of blake cache single])
  fix dir' ix
  assume b: "disk_index_build blake dir rows 16 nb cache slots hash single = Inr (dir', ix)" "disk_inv blake ix"
    and m: "\<And>r. row_ok r \<Longrightarrow> mset (row_slots blake ix r) = mset (slots_given rows slots r)"
  show ?thesis
    using b m [OF assms(3)] disk_lookup_all_spec [OF b(2) assms(3)] disk_lookup_spec [OF b(2) assms(3)]
    by (intro exI [of _ dir'] exI [of _ ix] exI [of _ "row_slots blake ix r"]) (auto split: list.splits)
qed

definition demo_row :: "int \<Rightarrow> int list" where
  "demo_row x = x # replicate 15 0"

lemma demo_row_ok: "0 \<le> x \<Longrightarrow> x < 2 ^ 64 \<Longrightarrow> row_ok (demo_row x)"
  by (simp add: row_ok_def demo_row_def list_all_iff)

lemma demo_input_ok: "build_input_ok 4 ''fnv1a-64'' [demo_row 7, demo_row 9, demo_row 7] (Some [5, 6, 8])"
  by (simp add: build_input_ok_def demo_row_ok row_slots_from_def slot_ok_def)

theorem disk_index_exact_witness:
  "\<exists>dir' ix ss. disk_index_build (\<lambda>k. []) empty_dir [demo_row 7, demo_row 9, demo_row 7] 16 4 2 (Some [5, 6, 8]) ''fnv1a-64'' True = Inr (dir', ix)
    \<and> mset ss = mset (slots_given [demo_row 7, demo_row 9, demo_row 7] (Some [5, 6, 8]) (demo_row 7))
    \<and> fst (disk_lookup_all (\<lambda>k. []) ix (demo_row 7)) = (if ss = [] then Inl KeyError else Inr ss)
    \<and> fst (disk_lookup (\<lambda>k. []) ix (demo_row 7)) = (if ss = [] then Inl KeyError else Inr (hd ss))"
  by (rule disk_index_exact [OF demo_input_ok]) (simp_all add: empty_dir_def demo_row_ok)

text \<open>
  C21: the bucket cache is invisible and bounded: after any history of lookups, failing ones
  included, a lookup answers what it answers on the freshly built index, and the cache never
  holds more than \<open>cache_buckets\<close> buckets.
\<close>

theorem disk_cache_transparent:
  assumes "build_input_ok nb hash rows slots" "dd_buckets dir = (\<lambda>_. None)" "row_ok r"
    and "disk_index_build blake dir rows 16 nb cache slots hash single = Inr (dir', ix)"
  shows "fst (disk_lookup blake (run_lookups blake history ix) r) = fst (disk_lookup blake ix r)
    \<and> length (dx_cache (run_lookups blake history ix)) \<le> dx_cache_buckets ix"
proof (rule build_index [OF assms(1,2), of blake cache single])
  fix dir2 ix2
  assume "disk_index_build blake dir rows 16 nb cache slots hash single = Inr (dir2, ix2)" "disk_inv blake ix2"
  then have "disk_inv blake ix" using assms(4) by simp
  from lookup_after_lookups [OF this assms(3), of history] lookup_after_lookups [OF this assms(3), of "[]"]
  show ?thesis by (simp add: run_lookups_def)
qed

theorem disk_cache_transparent_witness:
  "\<exists>dir' ix. disk_index_build (\<lambda>k. []) empty_dir [demo_row 7, demo_row 9, demo_row 7] 16 4 1 (Some [5, 6, 8]) ''fnv1a-64'' False = Inr (dir', ix)
    \<and> fst (disk_lookup (\<lambda>k. []) (run_lookups (\<lambda>k. []) [demo_row 9, demo_row 1] ix) (demo_row 7)) = fst (disk_lookup (\<lambda>k. []) ix (demo_row 7))
    \<and> length (dx_cache (run_lookups (\<lambda>k. []) [demo_row 9, demo_row 1] ix)) \<le> dx_cache_buckets ix"
proof (rule build_index [OF demo_input_ok, of empty_dir "\<lambda>k. []" 1 False])
  fix dir' ix
  assume b: "disk_index_build (\<lambda>k. []) empty_dir [demo_row 7, demo_row 9, demo_row 7] 16 4 1 (Some [5, 6, 8]) ''fnv1a-64'' False = Inr (dir', ix)"
  have "fst (disk_lookup (\<lambda>k. []) (run_lookups (\<lambda>k. []) [demo_row 9, demo_row 1] ix) (demo_row 7)) = fst (disk_lookup (\<lambda>k. []) ix (demo_row 7))
    \<and> length (dx_cache (run_lookups (\<lambda>k. []) [demo_row 9, demo_row 1] ix)) \<le> dx_cache_buckets ix"
    by (rule disk_cache_transparent [OF demo_input_ok _ _ b]) (simp_all add: empty_dir_def demo_row_ok)
  with b show ?thesis by blast
qed (simp add: empty_dir_def)

text \<open>
  The single-file layout (v3) and the bucket-file layouts (v1, v2) are interchangeable: built
  from the same rows with the same hash, they answer every lookup the same way.
\<close>

theorem disk_layouts_equiv:
  assumes "build_input_ok nb hash rows slots" "dd_buckets dir = (\<lambda>_. None)" "row_ok r"
    and "disk_index_build blake dir rows 16 nb cache slots hash True = Inr (dir1, ix1)"
    and "disk_index_build blake dir rows 16 nb cache' slots hash False = Inr (dir2, ix2)"
  shows "fst (disk_lookup blake ix1 r) = fst (disk_lookup blake ix2 r)
    \<and> fst (disk_lookup_all blake ix1 r) = fst (disk_lookup_all blake ix2 r)"
proof -
  let ?recs = "map2 record_of rows (row_slots_from 0 slots (length rows))"
  have facts: "disk_inv blake ix \<and> dx_num_buckets ix = nb \<and> dx_hash_name ix = hash
      \<and> (\<forall>b < nb. bucket_records ix b = sort (filter (\<lambda>r. bucket_of blake nb hash r = b) ?recs))"
    if "disk_index_build blake dir rows 16 nb c slots hash single = Inr (d, ix)" for c single d ix
    by (rule build_index [OF assms(1,2), of blake c single]) (use that in auto)
  note f1 = facts [OF assms(4)] and f2 = facts [OF assms(5)]
  have "row_slots blake ix1 r = row_slots blake ix2 r"
    using f1 f2 bucket_id_less by (auto simp: row_slots_def split: sum.split)
  then show ?thesis
    using disk_lookup_spec [of blake ix1 r] disk_lookup_spec [of blake ix2 r]
      disk_lookup_all_spec [of blake ix1 r] disk_lookup_all_spec [of blake ix2 r] f1 f2 assms(3) by auto
qed

theorem disk_layouts_equiv_witness:
  "\<exists>d1 ix1 d2 ix2.
     disk_index_build (\<lambda>k. []) empty_dir [demo_row 7, demo_row 9, demo_row 7] 16 4 1 (Some [5, 6, 8]) ''fnv1a-64'' True = Inr (d1, ix1)
     \<and> disk_index_build (\<lambda>k. []) empty_dir [demo_row 7, demo_row 9, demo_row 7] 16 4 1 (Some [5, 6, 8]) ''fnv1a-64'' False = Inr (d2, ix2)
     \<and> fst (disk_lookup (\<lambda>k. []) ix1 (demo_row 7)) = fst (disk_lookup (\<lambda>k. []) ix2 (demo_row 7))
     \<and> fst (disk_lookup_all (\<lambda>k. []) ix1 (demo_row 7)) = fst (disk_lookup_all (\<lambda>k. []) ix2 (demo_row 7))"
proof -
  obtain d1 ix1 where b1: "disk_index_build (\<lambda>k. []) empty_dir [demo_row 7, demo_row 9, demo_row 7] 16 4 1 (Some [5, 6, 8]) ''fnv1a-64'' True = Inr (d1, ix1)"
    by (rule build_index [OF demo_input_ok, of empty_dir "\<lambda>k. []" 1 True]) (auto simp: empty_dir_def)
  obtain d2 ix2 where b2: "disk_index_build (\<lambda>k. []) empty_dir [demo_row 7, demo_row 9, demo_row 7] 16 4 1 (Some [5, 6, 8]) ''fnv1a-64'' False = Inr (d2, ix2)"
    by (rule build_index [OF demo_input_ok, of empty_dir "\<lambda>k. []" 1 False]) (auto simp: empty_dir_def)
  have "fst (disk_lookup (\<lambda>k. []) ix1 (demo_row 7)) = fst (disk_lookup (\<lambda>k. []) ix2 (demo_row 7))
     \<and> fst (disk_lookup_all (\<lambda>k. []) ix1 (demo_row 7)) = fst (disk_lookup_all (\<lambda>k. []) ix2 (demo_row 7))"
    by (rule disk_layouts_equiv [OF demo_input_ok _ _ b1 b2]) (simp_all add: empty_dir_def demo_row_ok)
  with b1 b2 show ?thesis by blast
qed

end
