(* ===== verification/DiskTable.thy ===== *)
theory DiskTable
  imports Gather PyDict
begin

text \<open>
  \<open>DiskPleEmbedding\<close> of \<open>python/engramdb/vllm_plugin.py\<close>: an embedding module over a row store
  with a bounded row cache and background prefetches.

  The state is the record \<open>disk_table\<close>; a method returns its result (or exception) and the
  state it leaves, also when it raises.  A prefetch is a future that is running or finished;
  the executor is the environment: an \<open>arrival\<close> says for each outstanding future whether it
  arrives before the wait for it ends, after that but before the results are collected, or
  not yet, and whether the background read failed.  Wall-clock statistics are not modelled,
  the counters are.  Calls are sequential, as the class has no lock.
\<close>

section \<open>State\<close>

datatype future = Running | Finished "(int, bytes) dict res"

datatype arrival = NotYet | InTime "py_error option" | Late "py_error option"

record table_stats =
  tst_calls :: nat
  tst_hits :: nat
  tst_misses :: nat
  tst_inserts :: nat
  tst_evictions :: nat
  tst_prefetch_issued :: nat
  tst_prefetch_errors :: nat
  tst_prefetch_timeouts :: nat

definition zero_stats :: table_stats where
  "zero_stats = \<lparr>tst_calls = 0, tst_hits = 0, tst_misses = 0, tst_inserts = 0, tst_evictions = 0,
     tst_prefetch_issued = 0, tst_prefetch_errors = 0, tst_prefetch_timeouts = 0\<rparr>"

record disk_table =
  dt_num_embeddings :: int
  dt_embedding_dim :: nat
  dt_itemsize :: nat
  dt_cache_size :: int
  dt_timed :: bool
  dt_cache :: "(int, bytes) dict"
  dt_prefetched :: "(int, bytes) dict"
  dt_pending :: "(int list \<times> future) list"
  dt_pending_rows :: "int set"
  dt_closed :: bool
  dt_stats :: table_stats

definition disk_table_init :: "int \<Rightarrow> nat \<Rightarrow> nat \<Rightarrow> int \<Rightarrow> bool \<Rightarrow> disk_table" where
  "disk_table_init num_embeddings embedding_dim itemsize cache_size timed =
     \<lparr>dt_num_embeddings = num_embeddings, dt_embedding_dim = embedding_dim, dt_itemsize = itemsize,
      dt_cache_size = cache_size, dt_timed = timed, dt_cache = [], dt_prefetched = [],
      dt_pending = [], dt_pending_rows = {}, dt_closed = False, dt_stats = zero_stats\<rparr>"

definition dt_row_bytes :: "disk_table \<Rightarrow> nat" where
  "dt_row_bytes t = dt_embedding_dim t * dt_itemsize t"

definition reset_stats :: "disk_table \<Rightarrow> disk_table" where
  "reset_stats t = t\<lparr>dt_stats := zero_stats\<rparr>"

definition get_stats :: "disk_table \<Rightarrow> table_stats" where
  "get_stats t = dt_stats t"

text \<open>
  \<open>get_wait_distribution\<close> over the samples, in any linear order: the percentiles of the sorted
  samples.  \<open>int(n * 0.90)\<close> is the floor of the exact product.
\<close>

definition wait_distribution :: "'a::{linorder, zero} list \<Rightarrow> 'a list \<times> nat" where
  "wait_distribution wait_samples =
     (let samples = sort wait_samples; n = length samples
      in if samples = [] then ([0, 0, 0, 0], 0)
         else ([samples ! (n div 2), samples ! min (n - 1) (n * 90 div 100),
                samples ! min (n - 1) (n * 99 div 100), last samples], n))"

definition table_close :: "disk_table \<Rightarrow> disk_table" where
  "table_close t =
     (if dt_closed t then t
      else t\<lparr>dt_closed := True, dt_pending := [], dt_pending_rows := {}, dt_prefetched := []\<rparr>)"

section \<open>Reading rows\<close>

definition rows_dict :: "nat \<Rightarrow> int list \<Rightarrow> bytes \<Rightarrow> (int, bytes) dict" where
  "rows_dict w missing raw =
     fold (\<lambda>i d. dict_set (missing ! i) (py_slice i w raw) d) [0..<length missing] []"

definition fetch_table_rows :: "(int list \<Rightarrow> bytes res) \<Rightarrow> disk_table \<Rightarrow> int list \<Rightarrow> (int, bytes) dict res" where
  "fetch_table_rows fetch t missing =
     rbind (fetch missing) (\<lambda>raw.
       if length raw \<noteq> length missing * dt_row_bytes t then Inl RuntimeError
       else Inr (rows_dict (dt_row_bytes t) missing raw))"

text \<open>\<open>self._cache.update(fetched)\<close>, the insert counter, and the eviction loop.\<close>

definition cache_rows :: "(int, bytes) dict \<Rightarrow> disk_table \<Rightarrow> disk_table" where
  "cache_rows fetched t =
     (let cache = dict_update (dt_cache t) fetched; cap = nat (dt_cache_size t); s = dt_stats t
      in t\<lparr>dt_cache := evict cap cache,
           dt_stats := s\<lparr>tst_inserts := tst_inserts s + length fetched,
             tst_evictions := tst_evictions s + (length cache - cap)\<rparr>\<rparr>)"

section \<open>Prefetching\<close>

text \<open>The loops that collect the rows to read: those not skipped, first occurrence only.\<close>

fun missing_loop :: "(int \<Rightarrow> bool) \<Rightarrow> int list \<Rightarrow> int list \<Rightarrow> int list" where
  "missing_loop skip [] missing = missing"
| "missing_loop skip (r # rs) missing =
     (if skip r \<or> r \<in> set missing then missing_loop skip rs missing
      else missing_loop skip rs (missing @ [r]))"

definition in_dict :: "('k, 'v) dict \<Rightarrow> 'k \<Rightarrow> bool" where
  "in_dict d k \<longleftrightarrow> dict_get d k \<noteq> None"

text \<open>\<open>prefetch\<close>: the rows of the new future, or \<open>None\<close> when there is nothing to read.\<close>

definition table_prefetch :: "int list \<Rightarrow> disk_table \<Rightarrow> int list option res \<times> disk_table" where
  "table_prefetch rowids t =
     (if dt_closed t then (Inl RuntimeError, t)
      else let missing = missing_loop (\<lambda>r. in_dict (dt_cache t) r \<or> r \<in> dt_pending_rows t) rowids [];
               s = dt_stats t
        in if missing = [] then (Inr None, t)
           else (Inr (Some missing),
                 t\<lparr>dt_pending_rows := dt_pending_rows t \<union> set missing,
                   dt_stats := s\<lparr>tst_prefetch_issued := tst_prefetch_issued s + length missing\<rparr>,
                   dt_pending := dt_pending t @ [(missing, Running)]\<rparr>))"

text \<open>
  \<open>except Exception\<close> catches every exception class of the model except the panic of the native
  extension, which derives from \<open>BaseException\<close>.
\<close>

definition catchable :: "py_error \<Rightarrow> bool" where
  "catchable e \<longleftrightarrow> e \<noteq> PanicException"

text \<open>What the executor does to one outstanding future; without a timeout every wait lasts until it ends.\<close>

definition arrive :: "(int list \<Rightarrow> bytes res) \<Rightarrow> disk_table \<Rightarrow> arrival \<Rightarrow> int list \<times> future \<Rightarrow> bool \<times> int list \<times> future" where
  "arrive fetch t a p =
     (case p of (missing, fut) \<Rightarrow>
       let done_with = (\<lambda>err. Finished (case err of Some e \<Rightarrow> Inl e | None \<Rightarrow> fetch_table_rows fetch t missing))
       in case fut of
            Finished r \<Rightarrow> (False, missing, Finished r)
          | Running \<Rightarrow> (case a of
                InTime err \<Rightarrow> (False, missing, done_with err)
              | Late err \<Rightarrow> (dt_timed t, missing, done_with err)
              | NotYet \<Rightarrow> (if dt_timed t then (True, missing, Running) else (False, missing, done_with None))))"

text \<open>The loop over \<open>fut.result(...)\<close>: a timed-out wait is counted, an exception of the read is passed over.\<close>

fun wait_loop :: "(bool \<times> int list \<times> future) list \<Rightarrow> table_stats \<Rightarrow> unit res \<times> table_stats" where
  "wait_loop [] s = (Inr (), s)"
| "wait_loop ((timed_out, missing, fut) # ps) s =
     (if timed_out then wait_loop ps (s\<lparr>tst_prefetch_timeouts := tst_prefetch_timeouts s + 1\<rparr>)
      else case fut of
        Finished (Inl e) \<Rightarrow> (if catchable e then wait_loop ps s else (Inl e, s))
      | _ \<Rightarrow> wait_loop ps s)"

text \<open>\<open>_settle_prefetches\<close>: the queue is replaced only when the loop reaches its end.\<close>

fun settle_loop ::
  "(int list \<times> future) list \<Rightarrow> (int list \<times> future) list \<Rightarrow> disk_table \<Rightarrow> (int list \<times> future) list res \<times> disk_table" where
  "settle_loop [] alive t = (Inr alive, t)"
| "settle_loop ((missing, fut) # ps) alive t =
     (case fut of
        Running \<Rightarrow> settle_loop ps (alive @ [(missing, fut)]) t
      | Finished (Inl e) \<Rightarrow>
          (if catchable e
           then let s = dt_stats t
             in settle_loop ps alive (t\<lparr>dt_stats := s\<lparr>tst_prefetch_errors := tst_prefetch_errors s + 1\<rparr>,
                  dt_pending_rows := dt_pending_rows t - set missing\<rparr>)
           else (Inl e, t))
      | Finished (Inr fetched) \<Rightarrow>
          let t = t\<lparr>dt_pending_rows := dt_pending_rows t - fst ` set fetched\<rparr>
          in settle_loop ps alive
               (if 0 < dt_cache_size t then cache_rows fetched t
                else t\<lparr>dt_prefetched := dict_update (dt_prefetched t) fetched\<rparr>))"

definition settle_prefetches :: "disk_table \<Rightarrow> unit res \<times> disk_table" where
  "settle_prefetches t =
     (if dt_pending t = [] then (Inr (), t)
      else case settle_loop (dt_pending t) [] t of
        (Inl e, t') \<Rightarrow> (Inl e, t')
      | (Inr alive, t') \<Rightarrow> (Inr (), t'\<lparr>dt_pending := alive\<rparr>))"

definition await_prefetches :: "(int list \<Rightarrow> bytes res) \<Rightarrow> (nat \<Rightarrow> arrival) \<Rightarrow> disk_table \<Rightarrow> unit res \<times> disk_table" where
  "await_prefetches fetch env t =
     (if dt_pending t = [] then (Inr (), t)
      else let ps = map (\<lambda>i. arrive fetch t (env i) (dt_pending t ! i)) [0..<length (dt_pending t)];
               (r, s) = wait_loop ps (dt_stats t);
               t = t\<lparr>dt_pending := map snd ps, dt_stats := s\<rparr>
        in case r of Inl e \<Rightarrow> (Inl e, t) | Inr _ \<Rightarrow> settle_prefetches t)"

section \<open>Lookup and forward\<close>

text \<open>The rest of \<open>_get_missing\<close>, after the outstanding prefetches have been collected.\<close>

definition read_missing :: "(int list \<Rightarrow> bytes res) \<Rightarrow> int list \<Rightarrow> disk_table \<Rightarrow> (int, bytes) dict res \<times> disk_table" where
  "read_missing fetch flat t =
     (let use_prefetched = (dt_cache_size t \<le> 0 \<and> dt_prefetched t \<noteq> []);
          fetched = (if use_prefetched then dict_update [] (dt_prefetched t) else []);
          t = (if use_prefetched then t\<lparr>dt_prefetched := []\<rparr> else t);
          known = (\<lambda>r. in_dict (dt_cache t) r \<or> in_dict fetched r);
          missing = missing_loop known flat [];
          s = dt_stats t;
          t = t\<lparr>dt_stats := s\<lparr>tst_hits := tst_hits s + length (filter known flat),
                tst_misses := tst_misses s + length (filter (\<lambda>r. \<not> known r) flat),
                tst_calls := tst_calls s + 1\<rparr>\<rparr>
      in if missing = [] then (Inr fetched, t)
         else case fetch_table_rows fetch t missing of
             Inl e \<Rightarrow> (Inl e, t)
           | Inr new \<Rightarrow>
               let fetched = dict_update fetched new
               in (Inr fetched, if 0 < dt_cache_size t then cache_rows fetched t else t))"

definition get_missing ::
  "(int list \<Rightarrow> bytes res) \<Rightarrow> (nat \<Rightarrow> arrival) \<Rightarrow> int list \<Rightarrow> disk_table \<Rightarrow> (int, bytes) dict res \<times> disk_table" where
  "get_missing fetch env flat t =
     (case await_prefetches fetch env t of
        (Inl e, t') \<Rightarrow> (Inl e, t')
      | (Inr _, t') \<Rightarrow> read_missing fetch flat t')"

definition dict_at :: "('k, 'v) dict \<Rightarrow> 'k \<Rightarrow> 'v res" where
  "dict_at d k = (case dict_get d k of None \<Rightarrow> Inl KeyError | Some v \<Rightarrow> Inr v)"

text \<open>The length check and the conversion at the end of \<open>forward\<close>.\<close>

definition table_tensor :: "'f torch \<Rightarrow> disk_table \<Rightarrow> int tensor \<Rightarrow> bytes \<Rightarrow> 'f tensor res" where
  "table_tensor T t indices raw =
     (if length raw \<noteq> prod_list (t_shape indices) * dt_embedding_dim t * dt_itemsize t then Inl RuntimeError
      else rbind (tc_frombuffer T raw) (tc_reshape T (t_shape indices @ [dt_embedding_dim t])))"

definition table_forward ::
  "'f torch \<Rightarrow> (int list \<Rightarrow> bytes res) \<Rightarrow> (nat \<Rightarrow> arrival) \<Rightarrow> int tensor \<Rightarrow> disk_table \<Rightarrow> 'f tensor res \<times> disk_table" where
  "table_forward T fetch env indices t =
     (let flat = t_data indices
      in if dt_cache_size t \<le> 0 \<and> dt_pending t = [] \<and> dt_prefetched t = []
         then case fetch flat of
             Inl e \<Rightarrow> (Inl e, t)
           | Inr raw \<Rightarrow>
               let s = dt_stats t;
                   t = t\<lparr>dt_stats := s\<lparr>tst_calls := tst_calls s + 1, tst_misses := tst_misses s + length flat\<rparr>\<rparr>
               in (table_tensor T t indices raw, t)
         else case get_missing fetch env flat t of
             (Inl e, t) \<Rightarrow> (Inl e, t)
           | (Inr fetched, t) \<Rightarrow>
               (rbind (rmapM (dict_at (if dt_cache_size t \<le> 0 then fetched else dt_cache t)) flat)
                  (\<lambda>rows. table_tensor T t indices (concat rows)), t))"

section \<open>Lemmas on the pieces\<close>

lemma missing_loop_spec:
  "distinct missing \<Longrightarrow> distinct (missing_loop skip rs missing)
     \<and> set (missing_loop skip rs missing) = set missing \<union> {r \<in> set rs. \<not> skip r}"
  by (induction rs arbitrary: missing) auto

lemma missing_loop_Nil:
  "distinct (missing_loop skip rs [])" "set (missing_loop skip rs []) = {r \<in> set rs. \<not> skip r}"
  using missing_loop_spec [of "[]" skip rs] by auto

lemma in_dict_iff: "in_dict d k \<longleftrightarrow> k \<in> fst ` set d"
  using dict_get_None_iff [of d k] by (auto simp: in_dict_def)

lemma dict_wf_length: "dict_wf d \<Longrightarrow> length d = card (fst ` set d)"
  unfolding dict_wf_def by (metis distinct_card length_map list.set_map)

lemma evict_id: "length d \<le> cap \<Longrightarrow> evict cap d = d"
  by (simp add: evict_closed)

lemma set_evict: "set (evict cap d) \<subseteq> set d"
  by (simp add: evict_closed set_drop_subset)

lemma coherent_at: "coherent src d \<Longrightarrow> k \<in> fst ` set d \<Longrightarrow> dict_at d k = Inr (src k)"
  using dict_get_None_iff [of d k] by (auto simp: dict_at_def dest: coherentD split: option.split)

lemma dict_at_out: "k \<notin> fst ` set d \<Longrightarrow> dict_at d k = Inl KeyError"
  using dict_get_None_iff [of d k] by (auto simp: dict_at_def)

lemma rows_dict_map:
  assumes "distinct ms" "\<And>i. i < length ms \<Longrightarrow> py_slice i w raw = f (ms ! i)"
  shows "rows_dict w ms raw = map (\<lambda>r. (r, f r)) ms"
proof -
  have "n \<le> length ms \<Longrightarrow>
      fold (\<lambda>i d. dict_set (ms ! i) (py_slice i w raw) d) [0..<n] [] = map (\<lambda>r. (r, f r)) (take n ms)" for n
  proof (induction n)
    case (Suc n)
    let ?d = "map (\<lambda>r. (r, f r)) (take n ms)"
    have "ms ! n \<notin> set (take n ms)"
      using assms(1) Suc.prems by (auto simp: in_set_conv_nth nth_eq_iff_index_eq)
    then have "dict_get ?d (ms ! n) = None" by (auto simp: dict_get_None_iff)
    then show ?case
      using Suc assms(2) [of n] by (simp add: dict_set_new take_Suc_conv_app_nth)
  qed simp
  from this [of "length ms"] show ?thesis by (simp add: rows_dict_def)
qed

lemma coherent_map: "coherent f (map (\<lambda>r. (r, f r)) ms)"
  by (auto simp: coherent_def)

text \<open>The fields no operation but \<open>close\<close> changes.\<close>

definition same_config :: "disk_table \<Rightarrow> disk_table \<Rightarrow> bool" where
  "same_config t t' \<longleftrightarrow>
     dt_embedding_dim t' = dt_embedding_dim t \<and> dt_itemsize t' = dt_itemsize t
     \<and> dt_cache_size t' = dt_cache_size t \<and> dt_timed t' = dt_timed t
     \<and> dt_num_embeddings t' = dt_num_embeddings t \<and> dt_closed t' = dt_closed t"

lemma same_config_refl [simp]: "same_config t t"
  by (simp add: same_config_def)

lemma same_config_trans: "same_config t t' \<Longrightarrow> same_config t' t'' \<Longrightarrow> same_config t t''"
  by (simp add: same_config_def)

lemma same_config_row_bytes: "same_config t t' \<Longrightarrow> dt_row_bytes t' = dt_row_bytes t"
  by (simp add: same_config_def dt_row_bytes_def)

lemma cache_rows_fields [simp]:
  "same_config t (cache_rows d t)"
  "dt_prefetched (cache_rows d t) = dt_prefetched t"
  "dt_pending (cache_rows d t) = dt_pending t"
  "dt_pending_rows (cache_rows d t) = dt_pending_rows t"
  "dt_cache (cache_rows d t) = evict (nat (dt_cache_size t)) (dict_update (dt_cache t) d)"
  by (simp_all add: cache_rows_def Let_def same_config_def)

text \<open>Background reads fail with exceptions the code handles.\<close>

definition env_ok :: "(nat \<Rightarrow> arrival) \<Rightarrow> bool" where
  "env_ok env \<longleftrightarrow> (\<forall>i e. env i = InTime (Some e) \<or> env i = Late (Some e) \<longrightarrow> catchable e)"

lemma arrive_missing [simp]: "fst (snd (arrive fetch t a p)) = fst p"
  by (auto simp: arrive_def Let_def split: prod.split future.split arrival.split)

section \<open>The invariant\<close>

context row_store
begin

definition cache_inv :: "disk_table \<Rightarrow> bool" where
  "cache_inv t \<longleftrightarrow>
     dt_row_bytes t = width
     \<and> dict_wf (dt_cache t) \<and> coherent row (dt_cache t) \<and> length (dt_cache t) \<le> nat (dt_cache_size t)
     \<and> dict_wf (dt_prefetched t) \<and> coherent row (dt_prefetched t)
     \<and> (0 < dt_cache_size t \<longrightarrow> dt_prefetched t = [])"

definition future_ok :: "int list \<times> future \<Rightarrow> bool" where
  "future_ok p \<longleftrightarrow> list_all valid (fst p) \<and> distinct (fst p)
     \<and> (case snd p of Running \<Rightarrow> True
        | Finished (Inl e) \<Rightarrow> catchable e
        | Finished (Inr d) \<Rightarrow> dict_wf d \<and> coherent row d \<and> fst ` set d = set (fst p))"

definition pending_inv :: "(int list \<times> future) list \<Rightarrow> int set \<Rightarrow> bool" where
  "pending_inv ps rows \<longleftrightarrow>
     (\<forall>p \<in> set ps. future_ok p) \<and> distinct (concat (map fst ps)) \<and> rows = set (concat (map fst ps))"

definition table_inv :: "disk_table \<Rightarrow> bool" where
  "table_inv t \<longleftrightarrow> cache_inv t \<and> pending_inv (dt_pending t) (dt_pending_rows t)"

lemma table_inv_init:
  "embedding_dim * itemsize = width \<Longrightarrow> table_inv (disk_table_init n embedding_dim itemsize cache_size timed)"
  by (simp add: table_inv_def cache_inv_def pending_inv_def disk_table_init_def dt_row_bytes_def)

lemma table_inv_close: "table_inv t \<Longrightarrow> table_inv (table_close t)"
  by (simp add: table_inv_def cache_inv_def pending_inv_def table_close_def dt_row_bytes_def)

lemma table_inv_reset: "table_inv t \<Longrightarrow> table_inv (reset_stats t)"
  by (simp add: table_inv_def cache_inv_def pending_inv_def reset_stats_def dt_row_bytes_def)

lemma fetch_table_rows_valid:
  assumes "dt_row_bytes t = width" "list_all valid ms" "distinct ms"
  shows "fetch_table_rows fetch t ms = Inr (map (\<lambda>r. (r, row r)) ms)"
proof -
  have "rows_dict width ms (concat (map row ms)) = map (\<lambda>r. (r, row r)) ms"
    using assms fetch_slice [OF assms(2) fetch_rows [OF assms(2)]] by (intro rows_dict_map) auto
  then show ?thesis
    using assms fetch_length [OF assms(2) fetch_rows [OF assms(2)]]
    by (simp add: fetch_table_rows_def fetch_rows [OF assms(2)])
qed

lemma cache_inv_cache_rows:
  assumes "cache_inv t" "0 < dt_cache_size t" "coherent row d"
  shows "cache_inv (cache_rows d t)"
  using assms same_config_row_bytes [of t "cache_rows d t"]
  by (auto simp: cache_inv_def length_evict cache_rows_def Let_def dt_row_bytes_def intro!: dict_inv)

text \<open>Settling: completed futures go to the cache or the buffer, the others stay.\<close>

lemma settle_loop_inv:
  assumes "cache_inv t" "pending_inv (alive @ ps) (dt_pending_rows t)"
  shows "\<exists>alive' t'. settle_loop ps alive t = (Inr alive', t') \<and> same_config t t' \<and> cache_inv t'
    \<and> pending_inv alive' (dt_pending_rows t')
    \<and> fst ` set (dt_cache t') \<union> dt_pending_rows t' \<subseteq> fst ` set (dt_cache t) \<union> dt_pending_rows t"
  using assms
proof (induction ps arbitrary: alive t)
  case Nil
  then show ?case by simp
next
  case (Cons p ps)
  obtain m f where p: "p = (m, f)" by (cases p)
  have ok: "future_ok (m, f)" and sep: "set m \<inter> set (concat (map fst (alive @ ps))) = {}"
    and rows: "dt_pending_rows t = set m \<union> set (concat (map fst (alive @ ps)))"
    and rest: "pending_inv (alive @ ps) (set (concat (map fst (alive @ ps))))"
    using Cons.prems(2) by (auto simp: p pending_inv_def)
  have drop_rows: "dt_pending_rows t - set m = set (concat (map fst (alive @ ps)))"
    using sep rows by blast
  have step: ?case
    if s: "settle_loop (p # ps) alive t = settle_loop ps alive t1" and c: "same_config t t1" and i: "cache_inv t1"
      "pending_inv (alive @ ps) (dt_pending_rows t1)"
      and k: "fst ` set (dt_cache t1) \<union> dt_pending_rows t1 \<subseteq> fst ` set (dt_cache t) \<union> dt_pending_rows t" for t1
  proof -
    obtain alive' t' where t': "settle_loop ps alive t1 = (Inr alive', t')" "same_config t1 t'"
        "cache_inv t'" "pending_inv alive' (dt_pending_rows t')"
        "fst ` set (dt_cache t') \<union> dt_pending_rows t' \<subseteq> fst ` set (dt_cache t1) \<union> dt_pending_rows t1"
      using Cons.IH [OF i] by blast
    show ?thesis
      using s t'(1,3,4) same_config_trans [OF c t'(2)] subset_trans [OF t'(5) k]
      by (intro exI [of _ alive'] exI [of _ t'] conjI) simp_all
  qed
  show ?case
  proof (cases f)
    case Running
    then show ?thesis using Cons.IH [of t "alive @ [(m, f)]"] Cons.prems by (simp add: p)
  next
    case (Finished r)
    show ?thesis
    proof (cases r)
      case (Inl e)
      define t1 where "t1 = t\<lparr>dt_stats := (dt_stats t)\<lparr>tst_prefetch_errors := tst_prefetch_errors (dt_stats t) + 1\<rparr>,
        dt_pending_rows := dt_pending_rows t - set m\<rparr>"
      have "cache_inv t1" "same_config t t1" "pending_inv (alive @ ps) (dt_pending_rows t1)"
        "dt_pending_rows t1 \<subseteq> dt_pending_rows t" "dt_cache t1 = dt_cache t"
        using Cons.prems(1) rest drop_rows rows
        by (auto simp: t1_def cache_inv_def same_config_def dt_row_bytes_def)
      moreover have "settle_loop (p # ps) alive t = settle_loop ps alive t1"
        using ok by (simp add: p Finished Inl future_ok_def t1_def Let_def)
      ultimately show ?thesis by (intro step) auto
    next
      case (Inr d)
      define t0 where "t0 = t\<lparr>dt_pending_rows := dt_pending_rows t - fst ` set d\<rparr>"
      define t1 where "t1 = (if 0 < dt_cache_size t0 then cache_rows d t0
        else t0\<lparr>dt_prefetched := dict_update (dt_prefetched t0) d\<rparr>)"
      have d: "dict_wf d" "coherent row d" "fst ` set d = set m"
        using ok by (simp_all add: Finished Inr future_ok_def)
      have c0: "cache_inv t0" using Cons.prems(1) by (simp add: t0_def cache_inv_def dt_row_bytes_def)
      have c1: "cache_inv t1"
        using cache_inv_cache_rows [OF c0 _ d(2)] c0 d
        by (auto simp: t1_def cache_inv_def dt_row_bytes_def intro!: dict_inv)
      have conf: "same_config t t1"
        using cache_rows_fields(1) [of t0 d] by (auto simp: t1_def t0_def same_config_def)
      have pr: "dt_pending_rows t1 = set (concat (map fst (alive @ ps)))"
        using drop_rows d(3) by (simp add: t1_def t0_def)
      then have p1: "pending_inv (alive @ ps) (dt_pending_rows t1)" using rest by simp
      have "fst ` set (evict (nat (dt_cache_size t)) (dict_update (dt_cache t) d))
          \<subseteq> fst ` set (dict_update (dt_cache t) d)" by (intro image_mono set_evict)
      then have keys: "fst ` set (dt_cache t1) \<subseteq> fst ` set (dt_cache t) \<union> set m"
        by (auto simp: t1_def t0_def keys_dict_update d(3) [symmetric])
      have "settle_loop (p # ps) alive t = settle_loop ps alive t1"
        by (simp add: p Finished Inr t1_def t0_def Let_def)
      moreover have "fst ` set (dt_cache t1) \<union> dt_pending_rows t1 \<subseteq> fst ` set (dt_cache t) \<union> dt_pending_rows t"
        using keys pr rows by blast
      ultimately show ?thesis using conf c1 p1 by (intro step)
    qed
  qed
qed

lemma arrive_ok:
  assumes "env_ok env" "dt_row_bytes t = width" "future_ok p"
  shows "future_ok (snd (arrive fetch t (env i) p))"
proof -
  obtain m f where p: "p = (m, f)" by (cases p)
  have m: "list_all valid m" "distinct m" using assms(3) by (simp_all add: p future_ok_def)
  have "future_ok (m, Finished (case err of Some e \<Rightarrow> Inl e | None \<Rightarrow> fetch_table_rows fetch t m))"
    if "\<And>e. err = Some e \<Longrightarrow> catchable e" for err
    using m that fetch_table_rows_valid [OF assms(2) m]
    by (cases err) (simp_all add: future_ok_def coherent_map dict_wf_def comp_def image_comp)
  from this [of None] this show ?thesis
    using assms(1,3) m
    by (cases f; cases "env i")
      (auto simp: p arrive_def env_ok_def future_ok_def fetch_table_rows_valid [OF assms(2) m]
        coherent_map dict_wf_def comp_def image_comp split: option.split)
qed

lemma wait_loop_ok:
  "(\<And>p. p \<in> set ps \<Longrightarrow> future_ok (snd p)) \<Longrightarrow> \<exists>s'. wait_loop ps s = (Inr (), s')"
proof (induction ps s rule: wait_loop.induct)
  case (2 timed_out missing fut ps s)
  have "future_ok (missing, fut)" using "2.prems" [of "(timed_out, missing, fut)"] by simp
  with 2 show ?case by (auto simp: future_ok_def split: future.split sum.split)
qed simp

lemma await_inv:
  assumes "table_inv t" "env_ok env"
  shows "\<exists>t'. await_prefetches fetch env t = (Inr (), t') \<and> table_inv t' \<and> same_config t t'
    \<and> fst ` set (dt_cache t') \<union> dt_pending_rows t' \<subseteq> fst ` set (dt_cache t) \<union> dt_pending_rows t"
proof (cases "dt_pending t = []")
  case True
  then show ?thesis using assms by (simp add: await_prefetches_def)
next
  case False
  define ps where "ps = map (\<lambda>i. arrive fetch t (env i) (dt_pending t ! i)) [0..<length (dt_pending t)]"
  have w: "dt_row_bytes t = width" using assms(1) by (simp add: table_inv_def cache_inv_def)
  have ok: "future_ok (snd p)" if elem: "p \<in> set ps" for p
  proof -
    have "\<forall>p \<in> set (dt_pending t). future_ok p" using assms(1) by (simp add: table_inv_def pending_inv_def)
    moreover obtain i where "i < length (dt_pending t)" "p = arrive fetch t (env i) (dt_pending t ! i)"
      using elem by (auto simp: ps_def)
    ultimately show ?thesis using arrive_ok [OF assms(2) w, of "dt_pending t ! i" i] by simp
  qed
  have same: "map fst (map snd ps) = map fst (dt_pending t)"
    by (rule nth_equalityI) (simp_all add: ps_def)
  obtain s' where s': "wait_loop ps (dt_stats t) = (Inr (), s')" using wait_loop_ok [OF ok] by blast
  define t1 where "t1 = t\<lparr>dt_pending := map snd ps, dt_stats := s'\<rparr>"
  have i1: "cache_inv t1" "pending_inv ([] @ map snd ps) (dt_pending_rows t1)"
    using assms(1) ok same
    by (auto simp: table_inv_def cache_inv_def pending_inv_def t1_def dt_row_bytes_def)
  from settle_loop_inv [OF i1] obtain alive t' where t':
      "settle_loop (map snd ps) [] t1 = (Inr alive, t')" "same_config t1 t'" "cache_inv t'"
      "pending_inv alive (dt_pending_rows t')"
      "fst ` set (dt_cache t') \<union> dt_pending_rows t' \<subseteq> fst ` set (dt_cache t1) \<union> dt_pending_rows t1" by blast
  have "ps \<noteq> []" using False by (simp add: ps_def)
  then have "await_prefetches fetch env t = (Inr (), t'\<lparr>dt_pending := alive\<rparr>)"
    using False s' t'(1)
    by (simp add: await_prefetches_def ps_def [symmetric] settle_prefetches_def t1_def [symmetric])
  moreover have "table_inv (t'\<lparr>dt_pending := alive\<rparr>)" "same_config t (t'\<lparr>dt_pending := alive\<rparr>)"
    using t' by (simp_all add: table_inv_def cache_inv_def t1_def same_config_def dt_row_bytes_def)
  ultimately show ?thesis using t'(5) by (simp add: t1_def)
qed

lemma prefetch_inv:
  assumes "table_inv t" "list_all valid rowids"
  shows "table_inv (snd (table_prefetch rowids t))"
proof -
  define m where "m = missing_loop (\<lambda>r. in_dict (dt_cache t) r \<or> r \<in> dt_pending_rows t) rowids []"
  have m: "distinct m" "set m \<subseteq> set rowids" "set m \<inter> dt_pending_rows t = {}"
    using missing_loop_Nil [of "\<lambda>r. in_dict (dt_cache t) r \<or> r \<in> dt_pending_rows t" rowids]
    by (auto simp: m_def)
  have "future_ok (m, Running)" using m assms(2) by (auto simp: future_ok_def list_all_iff)
  moreover have "rows = set (concat (map fst ps)) \<Longrightarrow> set m \<inter> rows = {} \<Longrightarrow> pending_inv ps rows \<Longrightarrow>
      future_ok (m, Running) \<Longrightarrow> pending_inv (ps @ [(m, Running)]) (rows \<union> set m)" for ps rows
    using m(1) by (auto simp: pending_inv_def)
  ultimately have "pending_inv (dt_pending t @ [(m, Running)]) (dt_pending_rows t \<union> set m)"
    using assms(1) m(3) by (simp add: table_inv_def pending_inv_def)
  then show ?thesis
    using assms(1) by (simp add: table_prefetch_def m_def [symmetric] Let_def table_inv_def cache_inv_def dt_row_bytes_def)
qed

lemma cache_capacity:
  assumes "cache_inv t" "0 < dt_cache_size t" "coherent row d"
    and "card (fst ` set (dt_cache t) \<union> fst ` set d) \<le> nat (dt_cache_size t)"
  shows "fst ` set (dt_cache (cache_rows d t)) = fst ` set (dt_cache t) \<union> fst ` set d"
proof -
  have wf: "dict_wf (dict_update (dt_cache t) d)" using assms(1) by (simp add: cache_inv_def dict_wf_update)
  have "length (dict_update (dt_cache t) d) \<le> nat (dt_cache_size t)"
    using assms(4) unfolding dict_wf_length [OF wf] keys_dict_update .
  then show ?thesis by (simp add: evict_id keys_dict_update)
qed

text \<open>
  Reading what is missing: the buffered case returns every row, the cached case leaves every
  requested row in the cache when the capacity suffices.
\<close>

lemma read_missing_spec:
  assumes inv: "table_inv t" and valid: "list_all valid flat"
  shows "\<exists>fetched t'. read_missing fetch flat t = (Inr fetched, t') \<and> table_inv t' \<and> same_config t t'
    \<and> coherent row fetched
    \<and> (dt_cache_size t \<le> 0 \<longrightarrow> set flat \<subseteq> fst ` set fetched)
    \<and> (0 < dt_cache_size t \<longrightarrow> card (fst ` set (dt_cache t) \<union> set flat) \<le> nat (dt_cache_size t)
        \<longrightarrow> set flat \<subseteq> fst ` set (dt_cache t'))"
proof -
  define use where "use \<longleftrightarrow> dt_cache_size t \<le> 0 \<and> dt_prefetched t \<noteq> []"
  define f0 where "f0 = (if use then dict_update [] (dt_prefetched t) else [])"
  define t0 where "t0 = (if use then t\<lparr>dt_prefetched := []\<rparr> else t)"
  define known where "known = (\<lambda>r. in_dict (dt_cache t0) r \<or> in_dict f0 r)"
  define m where "m = missing_loop known flat []"
  define t1 where "t1 = t0\<lparr>dt_stats := (dt_stats t0)\<lparr>tst_hits := tst_hits (dt_stats t0) + length (filter known flat),
      tst_misses := tst_misses (dt_stats t0) + length (filter (\<lambda>r. \<not> known r) flat),
      tst_calls := tst_calls (dt_stats t0) + 1\<rparr>\<rparr>"
  have c: "cache_inv t" using inv by (simp add: table_inv_def)
  have f0: "coherent row f0" using c by (auto simp: f0_def cache_inv_def intro: dict_inv)
  have t1: "table_inv t1" "same_config t t1" "dt_cache t1 = dt_cache t" "dt_cache_size t1 = dt_cache_size t"
    using inv by (auto simp: t1_def t0_def table_inv_def cache_inv_def same_config_def dt_row_bytes_def)
  have m: "distinct m" "set m = {r \<in> set flat. \<not> known r}" "list_all valid m"
    using missing_loop_Nil [of known flat] valid by (auto simp: m_def list_all_iff)
  have known: "known r \<longleftrightarrow> r \<in> fst ` set (dt_cache t) \<or> r \<in> fst ` set f0" for r
    by (auto simp: known_def in_dict_iff t0_def)
  have nocache: "dt_cache_size t \<le> 0 \<Longrightarrow> dt_cache t = []" using c by (simp add: cache_inv_def)
  have nof0: "0 < dt_cache_size t \<Longrightarrow> f0 = []" by (simp add: f0_def use_def)
  define t2 where "t2 d = (if 0 < dt_cache_size t1 then cache_rows (dict_update f0 d) t1 else t1)" for d
  have run: "read_missing fetch flat t
      = (if m = [] then (Inr f0, t1)
         else case fetch_table_rows fetch t1 m of Inl e \<Rightarrow> (Inl e, t1)
           | Inr new \<Rightarrow> (Inr (dict_update f0 new), t2 new))"
    unfolding read_missing_def Let_def m_def t1_def t0_def f0_def known_def use_def t2_def by simp
  show ?thesis
  proof (cases "m = []")
    case True
    then have "set flat \<subseteq> {r. known r}" using m(2) by auto
    with True run t1 f0 nocache nof0 known show ?thesis by auto
  next
    case False
    let ?new = "map (\<lambda>r. (r, row r)) m"
    have ft: "fetch_table_rows fetch t1 m = Inr ?new"
      using t1(1) m by (intro fetch_table_rows_valid) (simp_all add: table_inv_def cache_inv_def)
    have coh: "coherent row (dict_update f0 ?new)" using f0 coherent_map by (intro dict_inv)
    have keys: "fst ` set (dict_update f0 ?new) = fst ` set f0 \<union> set m"
      by (simp add: keys_dict_update image_comp comp_def)
    have c2: "cache_inv (t2 ?new)"
      using t1(1) cache_inv_cache_rows [OF _ _ coh] by (simp add: t2_def table_inv_def)
    have "table_inv (t2 ?new)" using c2 t1(1) by (auto simp: t2_def table_inv_def)
    moreover have "same_config t (t2 ?new)" using t1(2) same_config_trans by (auto simp: t2_def)
    moreover have "set flat \<subseteq> fst ` set (dt_cache (t2 ?new))"
      if "0 < dt_cache_size t" "card (fst ` set (dt_cache t) \<union> set flat) \<le> nat (dt_cache_size t)"
    proof -
      have "fst ` set (dt_cache t1) \<union> fst ` set (dict_update f0 ?new) = fst ` set (dt_cache t) \<union> set flat"
        using keys m(2) known nof0 [OF that(1)] t1(3) by auto
      then show ?thesis
        using cache_capacity [of t1 "dict_update f0 ?new"] that t1 coh by (auto simp: t2_def table_inv_def)
    qed
    moreover have "set flat \<subseteq> fst ` set (dict_update f0 ?new)" if "dt_cache_size t \<le> 0"
      unfolding keys using m(2) known nocache [OF that] by auto
    ultimately show ?thesis using False run ft coh by auto
  qed
qed

lemma get_missing_spec:
  assumes inv: "table_inv t" and valid: "list_all valid flat" and env: "env_ok env"
  shows "\<exists>fetched t'. get_missing fetch env flat t = (Inr fetched, t') \<and> table_inv t' \<and> same_config t t'
    \<and> coherent row fetched
    \<and> (dt_cache_size t \<le> 0 \<longrightarrow> set flat \<subseteq> fst ` set fetched)
    \<and> (0 < dt_cache_size t
        \<longrightarrow> card (fst ` set (dt_cache t) \<union> dt_pending_rows t \<union> set flat) \<le> nat (dt_cache_size t)
        \<longrightarrow> set flat \<subseteq> fst ` set (dt_cache t'))"
proof -
  obtain t1 where t1: "await_prefetches fetch env t = (Inr (), t1)" "table_inv t1" "same_config t t1"
      "fst ` set (dt_cache t1) \<union> dt_pending_rows t1 \<subseteq> fst ` set (dt_cache t) \<union> dt_pending_rows t"
    using await_inv [OF inv env] by blast
  obtain fetched t' where t': "read_missing fetch flat t1 = (Inr fetched, t')" "table_inv t'" "same_config t1 t'"
      "coherent row fetched" "dt_cache_size t1 \<le> 0 \<longrightarrow> set flat \<subseteq> fst ` set fetched"
      "0 < dt_cache_size t1 \<longrightarrow> card (fst ` set (dt_cache t1) \<union> set flat) \<le> nat (dt_cache_size t1)
        \<longrightarrow> set flat \<subseteq> fst ` set (dt_cache t')"
    using read_missing_spec [OF t1(2) valid] by blast
  have "dt_pending_rows t = set (concat (map fst (dt_pending t)))"
    using inv by (simp add: table_inv_def pending_inv_def)
  then have "finite (fst ` set (dt_cache t) \<union> dt_pending_rows t \<union> set flat)" by simp
  then have "card (fst ` set (dt_cache t1) \<union> set flat) \<le> card (fst ` set (dt_cache t) \<union> dt_pending_rows t \<union> set flat)"
    using t1(4) by (intro card_mono) auto
  moreover have "dt_cache_size t1 = dt_cache_size t" using t1(3) by (simp add: same_config_def)
  ultimately show ?thesis
    using t1(1) t' same_config_trans [OF t1(3) t'(3)] by (auto simp: get_missing_def)
qed

text \<open>The value \<open>forward\<close> owes for a batch of indices.\<close>

definition forward_value :: "(bytes \<Rightarrow> 'f) \<Rightarrow> disk_table \<Rightarrow> int tensor \<Rightarrow> 'f tensor" where
  "forward_value dec t indices =
     \<lparr>t_shape = t_shape indices @ [dt_embedding_dim t], t_data = et_data dec (dt_itemsize t) (t_data indices)\<rparr>"

definition batch_ok :: "disk_table \<Rightarrow> int tensor \<Rightarrow> bool" where
  "batch_ok t indices \<longleftrightarrow>
     list_all valid (t_data indices) \<and> t_data indices \<noteq> []
     \<and> prod_list (t_shape indices) = length (t_data indices) \<and> 0 < dt_embedding_dim t"

lemma table_tensor_rows:
  assumes "torch_laws (dt_itemsize t) dec mul T" "cache_inv t" "batch_ok t indices"
  shows "table_tensor T t indices (concat (map row (t_data indices))) = Inr (forward_value dec t indices)"
proof -
  let ?rs = "t_data indices" and ?d = "dt_embedding_dim t" and ?k = "dt_itemsize t"
  have w: "width = ?d * ?k" using assms(2) by (auto simp: cache_inv_def dt_row_bytes_def)
  have rs: "list_all valid ?rs" "?rs \<noteq> []" and d: "0 < ?d" and n: "prod_list (t_shape indices) = length ?rs"
    using assms(3) by (simp_all add: batch_ok_def)
  have k: "0 < ?k" using assms(1) by (simp add: torch_laws_def)
  have "length (concat (map row ?rs)) = length ?rs * ?d * ?k" by (rule rows_bytes(1) [OF rs(1) w k])
  moreover have "rbind (fetch ?rs) (tc_frombuffer T) = Inr \<lparr>t_shape = [length ?rs * ?d], t_data = et_data dec ?k ?rs\<rparr>"
    by (rule frombuffer_rows [OF assms(1) rs w d])
  moreover have "length (et_data dec ?k ?rs) = length ?rs * ?d" by (rule length_et_data [OF rs(1) w k])
  ultimately show ?thesis
    using n rs(1) by (simp add: table_tensor_def forward_value_def fetch_rows torch_reshape [OF assms(1)])
qed

lemma rmapM_dict_at:
  assumes "coherent row d"
  shows "set flat \<subseteq> fst ` set d \<Longrightarrow> rmapM (dict_at d) flat = Inr (map row flat)"
    and "rmapM (dict_at d) flat = Inr (map row flat) \<or> rmapM (dict_at d) flat = Inl KeyError"
proof -
  show "set flat \<subseteq> fst ` set d \<Longrightarrow> rmapM (dict_at d) flat = Inr (map row flat)"
    using coherent_at [OF assms] by (intro rmapM_Inr) auto
  have "dict_at d r = Inr (row r) \<or> dict_at d r = Inl KeyError" for r
    using coherent_at [OF assms, of r] dict_at_out [of r d] by blast
  then show "rmapM (dict_at d) flat = Inr (map row flat) \<or> rmapM (dict_at d) flat = Inl KeyError"
  proof (induction flat)
    case (Cons r flat)
    from \<open>\<And>r. dict_at d r = Inr (row r) \<or> dict_at d r = Inl KeyError\<close> [of r] Cons.IH [OF Cons.prems]
    show ?case by auto
  qed simp
qed

text \<open>\<open>forward\<close> returns the rows or raises \<open>KeyError\<close>; with the cache off or large enough it returns.\<close>

lemma forward_spec:
  assumes T: "torch_laws (dt_itemsize t) dec mul T" and inv: "table_inv t" and env: "env_ok env"
    and batch: "batch_ok t indices"
  shows "\<exists>r t'. table_forward T fetch env indices t = (r, t') \<and> table_inv t' \<and> same_config t t'
    \<and> (r = Inr (forward_value dec t indices) \<or> 0 < dt_cache_size t \<and> r = Inl KeyError)
    \<and> (card (fst ` set (dt_cache t) \<union> dt_pending_rows t \<union> set (t_data indices)) \<le> nat (dt_cache_size t)
        \<longrightarrow> r = Inr (forward_value dec t indices))"
proof (cases "dt_cache_size t \<le> 0 \<and> dt_pending t = [] \<and> dt_prefetched t = []")
  case True
  have valid: "list_all valid (t_data indices)" using batch by (simp add: batch_ok_def)
  define t1 where "t1 = t\<lparr>dt_stats := (dt_stats t)\<lparr>tst_calls := tst_calls (dt_stats t) + 1,
      tst_misses := tst_misses (dt_stats t) + length (t_data indices)\<rparr>\<rparr>"
  have t1: "table_inv t1" "same_config t t1"
    using inv by (simp_all add: t1_def table_inv_def cache_inv_def same_config_def dt_row_bytes_def)
  have "table_tensor T t1 = table_tensor T t" by (intro ext) (simp add: table_tensor_def t1_def)
  then have "table_tensor T t1 indices (concat (map row (t_data indices))) = Inr (forward_value dec t indices)"
    using table_tensor_rows [OF T _ batch] inv by (simp add: table_inv_def)
  moreover have "table_forward T fetch env indices t
      = (table_tensor T t1 indices (concat (map row (t_data indices))), t1)"
    using True by (simp add: table_forward_def fetch_rows [OF valid] t1_def Let_def)
  ultimately show ?thesis using True t1 by simp
next
  case False
  have valid: "list_all valid (t_data indices)" using batch by (simp add: batch_ok_def)
  obtain fetched t1 where g: "get_missing fetch env (t_data indices) t = (Inr fetched, t1)" "table_inv t1"
      "same_config t t1" "coherent row fetched"
      "dt_cache_size t \<le> 0 \<longrightarrow> set (t_data indices) \<subseteq> fst ` set fetched"
      "0 < dt_cache_size t
        \<longrightarrow> card (fst ` set (dt_cache t) \<union> dt_pending_rows t \<union> set (t_data indices)) \<le> nat (dt_cache_size t)
        \<longrightarrow> set (t_data indices) \<subseteq> fst ` set (dt_cache t1)"
    using get_missing_spec [OF inv valid env] by blast
  define d where "d = (if dt_cache_size t1 \<le> 0 then fetched else dt_cache t1)"
  have conf: "dt_cache_size t1 = dt_cache_size t" "dt_itemsize t1 = dt_itemsize t" "dt_embedding_dim t1 = dt_embedding_dim t"
    using g(3) by (simp_all add: same_config_def)
  have d: "coherent row d" using g(2,4) by (simp add: d_def table_inv_def cache_inv_def)
  have tens: "table_tensor T t1 indices (concat (map row (t_data indices))) = Inr (forward_value dec t indices)"
    using table_tensor_rows [of t1 dec mul T indices] T g(2) batch conf
    by (simp add: table_inv_def batch_ok_def forward_value_def)
  have run: "table_forward T fetch env indices t
      = (rbind (rmapM (dict_at d) (t_data indices)) (\<lambda>rows. table_tensor T t1 indices (concat rows)), t1)"
    using False g(1) by (auto simp: table_forward_def d_def Let_def)
  have "set (t_data indices) \<subseteq> fst ` set d
      \<Longrightarrow> rmapM (dict_at d) (t_data indices) = Inr (map row (t_data indices))"
    by (rule rmapM_dict_at(1) [OF d])
  moreover note rmapM_dict_at(2) [OF d, of "t_data indices"]
  moreover have "dt_cache_size t \<le> 0 \<Longrightarrow> set (t_data indices) \<subseteq> fst ` set d"
    using g(5) conf by (simp add: d_def)
  moreover have "card (fst ` set (dt_cache t) \<union> dt_pending_rows t \<union> set (t_data indices)) \<le> nat (dt_cache_size t)
      \<Longrightarrow> set (t_data indices) \<subseteq> fst ` set d"
    using g(5,6) conf by (cases "dt_cache_size t \<le> 0") (simp_all add: d_def)
  ultimately show ?thesis
    using run tens g(2,3) by (cases "dt_cache_size t \<le> 0") auto
qed

end

section \<open>Runs of the module\<close>

text \<open>What can happen to a table that reads valid rows, as a step relation.\<close>

inductive table_step :: "native_store \<Rightarrow> 'f torch \<Rightarrow> disk_table \<Rightarrow> disk_table \<Rightarrow> bool" for s T where
  prefetch: "list_all (store_valid s) rowids \<Longrightarrow> table_step s T t (snd (table_prefetch rowids t))"
| forward: "row_store.batch_ok (store_valid s) t indices \<Longrightarrow> env_ok env \<Longrightarrow>
     table_step s T t (snd (table_forward T (store_fetch s) env indices t))"
| reset: "table_step s T t (reset_stats t)"
| close: "table_step s T t (table_close t)"

inductive table_reach :: "native_store \<Rightarrow> 'f torch \<Rightarrow> disk_table \<Rightarrow> disk_table \<Rightarrow> bool" for s T t0 where
  start: "table_reach s T t0 t0"
| step: "table_reach s T t0 t \<Longrightarrow> table_step s T t t' \<Longrightarrow> table_reach s T t0 t'"

lemma table_reach_inv:
  assumes "table_reach s T t0 t" "torch_laws (dt_itemsize t0) dec mul T" "native.table_inv s t0"
  shows "native.table_inv s t \<and> dt_itemsize t = dt_itemsize t0 \<and> dt_cache_size t = dt_cache_size t0"
  using assms
proof (induction rule: table_reach.induct)
  case start
  then show ?case by simp
next
  case (step t t')
  then have t: "native.table_inv s t" "dt_itemsize t = dt_itemsize t0" "dt_cache_size t = dt_cache_size t0"
    by simp_all
  from step.hyps(2) show ?case
  proof (cases rule: table_step.cases)
    case (prefetch rowids)
    then show ?thesis using native.prefetch_inv [OF t(1), of rowids] t(2,3)
      by (simp add: table_prefetch_def Let_def)
  next
    case (forward indices env)
    then show ?thesis
      using native.forward_spec [of t dec mul T s env indices] step.prems(1) t
      by (auto simp: same_config_def)
  next
    case reset
    then show ?thesis using native.table_inv_reset [OF t(1)] t(2,3) by (simp add: reset_stats_def)
  next
    case close
    then show ?thesis using native.table_inv_close [OF t(1)] t(2,3) by (simp add: table_close_def)
  qed
qed

text \<open>The percentiles of the wait times are ordered.\<close>

lemma wait_distribution_ordered:
  assumes "wait_samples \<noteq> []"
  shows "\<exists>p50 p90 p99 mx. wait_distribution wait_samples = ([p50, p90, p99, mx], length wait_samples)
    \<and> p50 \<le> p90 \<and> p90 \<le> p99 \<and> p99 \<le> mx \<and> mx \<in> set wait_samples"
proof -
  let ?xs = "sort wait_samples"
  define n where "n = length ?xs"
  have "0 < n" using assms by (simp add: n_def)
  then have n: "0 < n" "length ?xs = n" "?xs \<noteq> []" by (auto simp only: n_def length_greater_0_conv)
  have mono: "i \<le> j \<Longrightarrow> j < n \<Longrightarrow> ?xs ! i \<le> ?xs ! j" for i j
    by (rule sorted_nth_mono) (simp_all add: n_def)
  let ?i = "min (n - 1) (n * 90 div 100)" and ?j = "min (n - 1) (n * 99 div 100)"
  have le: "n div 2 \<le> ?i" "?i \<le> ?j" "?j \<le> n - 1" using n(1) by (cases "n = 1"; auto intro: div_le_mono)+
  have lt: "?i < n" "?j < n" "n - 1 < n" using n(1) by auto
  have "?xs ! (n div 2) \<le> ?xs ! ?i" "?xs ! ?i \<le> ?xs ! ?j" "?xs ! ?j \<le> last ?xs"
    unfolding last_conv_nth [OF n(3)] n(2) by (rule mono [OF le(1) lt(1)] mono [OF le(2) lt(2)] mono [OF le(3) lt(3)])+
  moreover have "last ?xs \<in> set wait_samples" using n(3) by (metis last_in_set set_sort)
  ultimately show ?thesis using assms n(3) by (simp add: wait_distribution_def Let_def n_def)
qed

section \<open>Properties\<close>

text \<open>
  C9: in every state a table reaches by prefetches, lookups, resets and \<open>close\<close>, in any order and
  with any timing and any caught failure of the background reads, the cache holds only rows equal
  to the stored ones and at most \<open>cache_size\<close> of them, no row is outstanding in two prefetches,
  and the set of pending rows is exactly the rows of the outstanding prefetches.
\<close>

theorem disk_table_invariant:
  assumes "table_reach s T (disk_table_init n d itemsize cache_size timed) t"
    and "torch_laws itemsize dec mul T" "d * itemsize = ns_width s"
  shows "coherent (store_row s) (dt_cache t) \<and> dict_wf (dt_cache t)
    \<and> length (dt_cache t) \<le> nat cache_size
    \<and> distinct (concat (map fst (dt_pending t)))
    \<and> dt_pending_rows t = set (concat (map fst (dt_pending t)))"
proof -
  let ?t0 = "disk_table_init n d itemsize cache_size timed"
  have "dt_itemsize ?t0 = itemsize" "dt_cache_size ?t0 = cache_size" by (simp_all add: disk_table_init_def)
  then have "native.table_inv s t" "dt_cache_size t = cache_size"
    using table_reach_inv [OF assms(1)] native.table_inv_init [of d itemsize s n cache_size timed] assms(2,3) by simp_all
  then show ?thesis by (simp add: native.table_inv_def native.cache_inv_def native.pending_inv_def)
qed

definition demo_table :: disk_table where
  "demo_table = disk_table_init 4 2 1 2 False"

theorem disk_table_invariant_witness:
  "let t = snd (table_prefetch [0, 3, 0] demo_table)
   in coherent (store_row demo_store) (dt_cache t) \<and> dict_wf (dt_cache t)
    \<and> length (dt_cache t) \<le> nat 2
    \<and> distinct (concat (map fst (dt_pending t)))
    \<and> dt_pending_rows t = set (concat (map fst (dt_pending t)))"
  unfolding Let_def demo_table_def
proof (rule disk_table_invariant [OF _ list_torch_laws])
  show "table_reach demo_store (list_torch uint (\<lambda>c x. x)) (disk_table_init 4 2 1 2 False)
      (snd (table_prefetch [0, 3, 0] (disk_table_init 4 2 1 2 False)))"
    by (rule table_reach.step [OF table_reach.start table_step.prefetch]) simp
qed simp

text \<open>
  C17: a lookup over a table that satisfies the invariant returns exactly the decoded stored rows in
  the shape of the indices, or raises \<open>KeyError\<close> and then only with the cache on; it returns whenever
  the cache is off, or large enough for the cached, the outstanding and the requested rows together.
  The timing and the failures of the background reads never show in the result.
\<close>

theorem disk_forward_rows:
  assumes "torch_laws (dt_itemsize t) dec mul T" "native.table_inv s t" "env_ok env" "native.batch_ok s t indices"
  shows "fst (table_forward T (store_fetch s) env indices t)
      \<in> {Inr \<lparr>t_shape = t_shape indices @ [dt_embedding_dim t],
             t_data = concat (map (\<lambda>r. map dec (chunks (dt_itemsize t) (store_row s r))) (t_data indices))\<rparr>}
        \<union> (if dt_cache_size t \<le> 0
               \<or> card (fst ` set (dt_cache t) \<union> dt_pending_rows t \<union> set (t_data indices)) \<le> nat (dt_cache_size t)
           then {} else {Inl KeyError})"
  using native.forward_spec [OF assms]
  by (auto simp: native.forward_value_def native.et_data_def)

theorem disk_forward_rows_witness:
  "fst (table_forward (list_torch uint (\<lambda>c x. x)) (store_fetch demo_store) (\<lambda>i. NotYet)
      \<lparr>t_shape = [3], t_data = [1, 3, 1]\<rparr> demo_table)
   \<in> {Inr \<lparr>t_shape = [3] @ [dt_embedding_dim demo_table],
          t_data = concat (map (\<lambda>r. map (\<lambda>bs. uint (hd bs)) (chunks (dt_itemsize demo_table) (store_row demo_store r))) [1, 3, 1])\<rparr>}
     \<union> (if dt_cache_size demo_table \<le> 0
            \<or> card (fst ` set (dt_cache demo_table) \<union> dt_pending_rows demo_table \<union> set [1, 3, 1]) \<le> nat (dt_cache_size demo_table)
        then {} else {Inl KeyError})"
  using disk_forward_rows [of demo_table "\<lambda>bs. uint (hd bs)" "\<lambda>c x. x" "list_torch uint (\<lambda>c x. x)" demo_store "\<lambda>i. NotYet"
      "\<lparr>t_shape = [3], t_data = [1, 3, 1]\<rparr>"]
    list_torch_laws [of uint "\<lambda>c x. x"] native.table_inv_init [of 2 1 demo_store 4 2 False]
  by (simp add: demo_table_def disk_table_init_def env_ok_def native.batch_ok_def)

text \<open>
  The cached lookup has a failing case inside its capacity: when the cache is full and a batch
  asks for its oldest row together with one new row, inserting the new row evicts the old one
  before the answer is assembled, and the lookup of two stored rows raises \<open>KeyError\<close>.
\<close>

theorem warm_lookup_evicts:
  assumes "native.table_inv s t" "dt_pending t = []" "dt_cache t = (a, x) # rest"
    and "length (dt_cache t) = nat (dt_cache_size t)"
    and "b \<notin> fst ` set (dt_cache t)" "store_valid s b"
  shows "fst (table_forward T (store_fetch s) env \<lparr>t_shape = [2], t_data = [a, b]\<rparr> t) = Inl KeyError"
proof -
  have pos: "0 < dt_cache_size t" using assms(3,4) by (cases "0 < dt_cache_size t") simp_all
  have wf: "dict_wf (dt_cache t)" and w: "dt_row_bytes t = ns_width s" and pre: "dt_prefetched t = []"
    using assms(1) pos by (simp_all add: native.table_inv_def native.cache_inv_def)
  have skip: "missing_loop (in_dict (dt_cache t)) [a, b] [] = [b]"
    using assms(3,5) by (simp add: in_dict_iff)
  have b: "dict_get (dt_cache t) b = None" using assms(5) by (simp add: dict_get_None_iff)
  define t1 where "t1 = t\<lparr>dt_stats := (dt_stats t)\<lparr>
      tst_hits := tst_hits (dt_stats t) + length (filter (in_dict (dt_cache t)) [a, b]),
      tst_misses := tst_misses (dt_stats t) + length (filter (\<lambda>r. \<not> in_dict (dt_cache t) r) [a, b]),
      tst_calls := tst_calls (dt_stats t) + 1\<rparr>\<rparr>"
  have "fetch_table_rows (store_fetch s) t1 [b] = Inr [(b, store_row s b)]"
    using native.fetch_table_rows_valid [of t1 s "[b]"] w assms(6) by (simp add: t1_def dt_row_bytes_def)
  then have "read_missing (store_fetch s) [a, b] t = (Inr [(b, store_row s b)], cache_rows [(b, store_row s b)] t1)"
    using pos skip unfolding read_missing_def Let_def
    by (simp add: in_dict_def [of "[]"] t1_def dict_set_def)
  moreover have "dt_cache (cache_rows [(b, store_row s b)] t1) = rest @ [(b, store_row s b)]"
    using assms(3,4) b by (simp add: t1_def dict_set_new evict_closed)
  moreover have "a \<notin> fst ` set (rest @ [(b, store_row s b)])"
    using wf assms(3,5) by (auto simp: dict_wf_def)
  moreover have "dt_cache_size (cache_rows d t1) = dt_cache_size t" for d
    using cache_rows_fields(1) [of t1 d] by (simp add: same_config_def t1_def)
  ultimately show ?thesis
    using pos assms(2) dict_at_out [of a "rest @ [(b, store_row s b)]"]
    by (simp add: table_forward_def get_missing_def await_prefetches_def Let_def)
qed

text \<open>The state after looking up rows 0 and 1 with a cache of two rows.\<close>

definition demo_warm :: disk_table where
  "demo_warm = demo_table\<lparr>dt_cache := [(0, [1, 2]), (1, [3, 4])]\<rparr>"

lemma demo_warm_inv: "native.table_inv demo_store demo_warm"
  unfolding native.table_inv_def native.cache_inv_def native.pending_inv_def
  by (simp add: demo_warm_def demo_table_def disk_table_init_def dt_row_bytes_def dict_wf_def coherent_def)
    (simp add: demo_store_def store_row_def pread_def)

theorem warm_lookup_evicts_witness:
  "fst (table_forward (list_torch uint (\<lambda>c x. x)) (store_fetch demo_store) (\<lambda>i. NotYet)
      \<lparr>t_shape = [2], t_data = [0, 2]\<rparr> demo_warm) = Inl KeyError"
  by (rule warm_lookup_evicts [OF demo_warm_inv, where rest = "[(1, [3, 4])]" and x = "[1, 2]"])
    (simp_all add: demo_warm_def demo_table_def disk_table_init_def)

end
