(* ===== verification/MultiHead.thy ===== *)
theory MultiHead
  imports DiskTable PleMemory
begin

text \<open>
  \<open>python/engramdb/integrations.py\<close>: \<open>DiskMultiHeadEmbedding\<close>, the replacement of engram-peft's
  multi-head embedding by a cached row store, and the two functions that install it.  The
  module \<open>engram_peft.layer\<close> is third-party code: only the two attributes the installers
  write are state here, and a class is either the original one or the patched one with its
  captured arguments.  The conversion \<open>to(out_dtype)\<close> is a parameter.
\<close>

section \<open>\<open>DiskMultiHeadEmbedding\<close>\<close>

record multi_head =
  mh_dim :: nat
  mh_offsets :: "int list"
  mh_itemsize :: nat
  mh_scale :: rat
  mh_output_dtype :: bool
  mh_cache_size :: nat
  mh_cache :: "(int, bytes) dict"

text \<open>The offset loop over \<open>primes[:-1]\<close>.\<close>

fun mh_offset_loop :: "int list \<Rightarrow> int list \<Rightarrow> int list" where
  "mh_offset_loop offsets [] = offsets"
| "mh_offset_loop offsets (p # ps) = mh_offset_loop (offsets @ [last offsets + p]) ps"

definition multi_head_init :: "int list \<Rightarrow> nat \<Rightarrow> nat \<Rightarrow> int \<Rightarrow> rat \<Rightarrow> bool \<Rightarrow> multi_head" where
  "multi_head_init primes dim_per_head itemsize cache_size scale output_dtype =
     \<lparr>mh_dim = dim_per_head, mh_offsets = mh_offset_loop [0] (butlast primes), mh_itemsize = itemsize,
      mh_scale = scale, mh_output_dtype = output_dtype, mh_cache_size = nat (max 0 cache_size), mh_cache = []\<rparr>"

text \<open>\<open>hash_indices + self.offsets\<close>: PyTorch's broadcasting of the last dimension.\<close>

definition add_offsets :: "int tensor \<Rightarrow> int list \<Rightarrow> int tensor res" where
  "add_offsets x offs =
     (let n = length offs; m = (if t_shape x = [] then 1 else last (t_shape x))
      in if m = n then Inr \<lparr>t_shape = (if t_shape x = [] then [1] else t_shape x),
                t_data = map (\<lambda>i. t_data x ! i + offs ! (i mod n)) [0..<length (t_data x)]\<rparr>
         else if n = 1 then Inr \<lparr>t_shape = t_shape x, t_data = map (\<lambda>v. v + offs ! 0) (t_data x)\<rparr>
         else if m = 1 then Inr \<lparr>t_shape = butlast (t_shape x) @ [n],
                t_data = concat (map (\<lambda>v. map (\<lambda>off. v + off) offs) (t_data x))\<rparr>
         else Inl RuntimeError)"

text \<open>One row enters the cache; a positive size evicts the oldest entries at once.\<close>

definition mh_insert :: "nat \<Rightarrow> int \<Rightarrow> bytes \<Rightarrow> (int, bytes) dict \<Rightarrow> (int, bytes) dict" where
  "mh_insert cap idx bs cache =
     (let cache = dict_set idx bs cache in if 0 < cap then evict cap cache else cache)"

definition mh_insert_rows :: "nat \<Rightarrow> nat \<Rightarrow> int list \<Rightarrow> bytes \<Rightarrow> (int, bytes) dict \<Rightarrow> (int, bytes) dict" where
  "mh_insert_rows cap row_len misses raw cache =
     fold (\<lambda>j. mh_insert cap (misses ! j) (py_slice j row_len raw)) [0..<length misses] cache"

definition mh_convert :: "'f torch \<Rightarrow> ('f tensor \<Rightarrow> 'f tensor) \<Rightarrow> multi_head \<Rightarrow> 'f tensor \<Rightarrow> 'f tensor" where
  "mh_convert T conv e arr = (if mh_scale e \<noteq> 1 \<or> mh_output_dtype e then tc_mul T (conv arr) (mh_scale e) else arr)"

text \<open>Filling the cache: the misses are read in one request, repetitions included.\<close>

definition mh_fill :: "(int list \<Rightarrow> bytes res) \<Rightarrow> int list \<Rightarrow> multi_head \<Rightarrow> unit res \<times> multi_head" where
  "mh_fill fetch flat e =
     (let row_len = mh_dim e * mh_itemsize e; misses = filter (\<lambda>i. \<not> in_dict (mh_cache e) i) flat
      in if misses = [] then (Inr (), e)
         else case fetch misses of
             Inl er \<Rightarrow> (Inl er, e)
           | Inr raw \<Rightarrow> (if length raw \<noteq> length misses * row_len then (Inl RuntimeError, e)
               else (Inr (), e\<lparr>mh_cache := mh_insert_rows (mh_cache_size e) row_len misses raw (mh_cache e)\<rparr>)))"

definition mh_tensor :: "'f torch \<Rightarrow> ('f tensor \<Rightarrow> 'f tensor) \<Rightarrow> multi_head \<Rightarrow> int tensor \<Rightarrow> bytes \<Rightarrow> 'f tensor res" where
  "mh_tensor T conv e shifted raw =
     (if length raw \<noteq> prod_list (t_shape shifted) * mh_dim e * mh_itemsize e then Inl RuntimeError
      else rbind (tc_frombuffer T raw) (\<lambda>arr. tc_reshape T (t_shape shifted @ [mh_dim e]) (mh_convert T conv e arr)))"

definition mh_forward ::
  "'f torch \<Rightarrow> ('f tensor \<Rightarrow> 'f tensor) \<Rightarrow> (int list \<Rightarrow> bytes res) \<Rightarrow> int tensor \<Rightarrow> multi_head \<Rightarrow> 'f tensor res \<times> multi_head" where
  "mh_forward T conv fetch hash_indices e =
     (case add_offsets hash_indices (mh_offsets e) of
        Inl er \<Rightarrow> (Inl er, e)
      | Inr shifted \<Rightarrow>
          (case mh_fill fetch (t_data shifted) e of
             (Inl er, e') \<Rightarrow> (Inl er, e')
           | (Inr _, e') \<Rightarrow>
               (rbind (rmapM (dict_at (mh_cache e')) (t_data shifted))
                  (\<lambda>rows. mh_tensor T conv e' shifted (concat rows)), e')))"

section \<open>Installing\<close>

text \<open>The arguments \<open>install_disk_multi_head_embedding\<close> captures in the patched class.\<close>

record mh_config =
  mc_fetch :: "int list \<Rightarrow> bytes res"
  mc_cache_size :: int
  mc_itemsize :: nat
  mc_scale :: rat
  mc_output_dtype :: bool

datatype mh_class = OriginalMultiHead | PatchedMultiHead mh_config

record peft_layer =
  ly_multi_head :: mh_class
  ly_original :: "mh_class option"

definition install_disk_multi_head :: "mh_config \<Rightarrow> peft_layer \<Rightarrow> peft_layer" where
  "install_disk_multi_head cfg layer =
     layer\<lparr>ly_original := Some (ly_multi_head layer), ly_multi_head := PatchedMultiHead cfg\<rparr>"

text \<open>Calling the class of the layer; what the original class builds is not modelled.\<close>

definition construct_multi_head :: "peft_layer \<Rightarrow> int list \<Rightarrow> nat \<Rightarrow> multi_head option" where
  "construct_multi_head layer primes dim_per_head =
     (case ly_multi_head layer of
        OriginalMultiHead \<Rightarrow> None
      | PatchedMultiHead c \<Rightarrow>
          Some (multi_head_init primes dim_per_head (mc_itemsize c) (mc_cache_size c) (mc_scale c) (mc_output_dtype c)))"

text \<open>
  The scale of \<open>install_real_qwen_ple_embedding\<close> and whether it warns: the argument, the
  discovered one, the one loaded from the model directory, or the known constant.
\<close>

definition real_qwen_scale ::
  "(string \<Rightarrow> discovery option res) \<Rightarrow> (string \<Rightarrow> rat res) \<Rightarrow> rat option \<Rightarrow> string option \<Rightarrow> discovery option \<Rightarrow> (rat \<times> bool) res" where
  "real_qwen_scale discover load_scale scale model_dir info =
     (case scale of
        Some c \<Rightarrow> Inr (c, False)
      | None \<Rightarrow>
          rbind (case (info, model_dir) of (None, Some dir) \<Rightarrow> discover dir | _ \<Rightarrow> Inr info) (\<lambda>info.
            case Option.bind info di_weight_scale of
              Some c \<Rightarrow> Inr (c, False)
            | None \<Rightarrow> (case model_dir of
                Some dir \<Rightarrow> rmap (\<lambda>c. (c, False)) (load_scale dir)
              | None \<Rightarrow> Inr (2 / 10000, True))))"

definition install_real_qwen ::
  "(string \<Rightarrow> discovery option res) \<Rightarrow> (string \<Rightarrow> rat res) \<Rightarrow> (int list \<Rightarrow> bytes res) \<Rightarrow> rat option \<Rightarrow> string option
     \<Rightarrow> discovery option \<Rightarrow> int \<Rightarrow> peft_layer \<Rightarrow> peft_layer res" where
  "install_real_qwen discover load_scale fetch scale model_dir info cache_size layer =
     rmap (\<lambda>(c, warned). install_disk_multi_head
            \<lparr>mc_fetch = fetch, mc_cache_size = cache_size, mc_itemsize = 1, mc_scale = c, mc_output_dtype = True\<rparr> layer)
       (real_qwen_scale discover load_scale scale model_dir info)"

section \<open>Offsets\<close>

lemma mh_offset_loop_closed:
  "offsets \<noteq> [] \<Longrightarrow> mh_offset_loop offsets ps
     = offsets @ map (\<lambda>i. last offsets + sum_list (take (Suc i) ps)) [0..<length ps]"
proof (induction ps arbitrary: offsets)
  case (Cons p ps)
  have "map (\<lambda>i. last offsets + sum_list (take (Suc i) (p # ps))) [0..<length (p # ps)]
      = (last offsets + p) # map (\<lambda>i. last offsets + p + sum_list (take (Suc i) ps)) [0..<length ps]"
    by (simp add: upt_conv_Cons map_Suc_upt [symmetric] comp_def add.assoc del: upt_Suc)
  then show ?case using Cons.IH [of "offsets @ [last offsets + p]"] by simp
qed simp

text \<open>The offsets of the module are the offsets of the PLE table.\<close>

lemma multi_head_offsets:
  assumes "primes \<noteq> []"
  shows "mh_offsets (multi_head_init primes d k cs sc od) = head_offsets (Some primes)"
proof (rule nth_equalityI)
  have len: "length (mh_offsets (multi_head_init primes d k cs sc od)) = length primes"
    using assms by (cases primes) (simp_all add: multi_head_init_def mh_offset_loop_closed)
  then show "length (mh_offsets (multi_head_init primes d k cs sc od)) = length (head_offsets (Some primes))"
    using assms by simp
  fix i assume "i < length (mh_offsets (multi_head_init primes d k cs sc od))"
  then have i: "i < length primes" using len by simp
  have "mh_offsets (multi_head_init primes d k cs sc od) ! i = sum_list (take i (butlast primes))"
    using i by (cases i) (simp_all add: multi_head_init_def mh_offset_loop_closed less_diff_conv)
  also have "take i (butlast primes) = take i primes" using i by (simp add: take_butlast)
  finally show "mh_offsets (multi_head_init primes d k cs sc od) ! i = head_offsets (Some primes) ! i"
    using i by (simp add: head_offsets_nth)
qed

section \<open>The cache\<close>

context row_store
begin

definition mh_inv :: "multi_head \<Rightarrow> bool" where
  "mh_inv e \<longleftrightarrow> mh_dim e * mh_itemsize e = width \<and> dict_wf (mh_cache e) \<and> coherent row (mh_cache e)
     \<and> (0 < mh_cache_size e \<longrightarrow> length (mh_cache e) \<le> mh_cache_size e)"

lemma mh_insert_inv:
  assumes "dict_wf c" "coherent row c"
  shows "dict_wf (mh_insert cap r (row r) c)" "coherent row (mh_insert cap r (row r) c)"
    "0 < cap \<Longrightarrow> length (mh_insert cap r (row r) c) \<le> cap"
    "cap = 0 \<or> card (insert r (fst ` set c)) \<le> cap
       \<Longrightarrow> fst ` set (mh_insert cap r (row r) c) = insert r (fst ` set c)"
proof -
  have wf: "dict_wf (dict_set r (row r) c)" using assms(1) by (rule dict_wf_set)
  then show "dict_wf (mh_insert cap r (row r) c)" by (simp add: mh_insert_def Let_def dict_wf_evict)
  show "coherent row (mh_insert cap r (row r) c)"
    using assms(2) by (auto simp: mh_insert_def Let_def intro!: dict_inv)
  show "0 < cap \<Longrightarrow> length (mh_insert cap r (row r) c) \<le> cap" by (simp add: mh_insert_def Let_def length_evict)
  show "cap = 0 \<or> card (insert r (fst ` set c)) \<le> cap
      \<Longrightarrow> fst ` set (mh_insert cap r (row r) c) = insert r (fst ` set c)"
    using dict_wf_length [OF wf] by (cases "cap = 0") (simp_all add: mh_insert_def Let_def evict_id keys_dict_set)
qed

lemma mh_insert_rows_inv:
  fixes misses c cap
  assumes "dict_wf c" "coherent row c" "0 < cap \<longrightarrow> length c \<le> cap" "list_all valid misses"
  defines "c' \<equiv> mh_insert_rows cap width misses (concat (map row misses)) c"
  shows "dict_wf c' \<and> coherent row c' \<and> (0 < cap \<longrightarrow> length c' \<le> cap)
    \<and> (cap = 0 \<or> card (fst ` set c \<union> set misses) \<le> cap \<longrightarrow> fst ` set c' = fst ` set c \<union> set misses)"
proof -
  let ?step = "\<lambda>j. mh_insert cap (misses ! j) (py_slice j width (concat (map row misses)))"
  have "n \<le> length misses \<Longrightarrow>
      (let d = fold ?step [0..<n] c in dict_wf d \<and> coherent row d \<and> (0 < cap \<longrightarrow> length d \<le> cap)
        \<and> (cap = 0 \<or> card (fst ` set c \<union> set misses) \<le> cap \<longrightarrow> fst ` set d = fst ` set c \<union> set (take n misses)))" for n
  proof (induction n)
    case 0
    then show ?case using assms by simp
  next
    case (Suc n)
    define d where "d = fold ?step [0..<n] c"
    have d: "dict_wf d" "coherent row d"
        "cap = 0 \<or> card (fst ` set c \<union> set misses) \<le> cap \<longrightarrow> fst ` set d = fst ` set c \<union> set (take n misses)"
      using Suc by (simp_all add: d_def Let_def)
    have "py_slice n width (concat (map row misses)) = row (misses ! n)"
      using fetch_slice [OF assms(4) fetch_rows [OF assms(4)], of n] Suc.prems by simp
    then have next_d: "fold ?step [0..<Suc n] c = mh_insert cap (misses ! n) (row (misses ! n)) d"
      by (simp add: d_def)
    have "fst ` set (mh_insert cap (misses ! n) (row (misses ! n)) d) = fst ` set c \<union> set (take (Suc n) misses)"
      if room: "cap = 0 \<or> card (fst ` set c \<union> set misses) \<le> cap"
    proof -
      have keys: "insert (misses ! n) (fst ` set d) = fst ` set c \<union> set (take (Suc n) misses)"
        using d(3) room Suc.prems by (auto simp: take_Suc_conv_app_nth)
      have "card (fst ` set c \<union> set (take (Suc n) misses)) \<le> card (fst ` set c \<union> set misses)"
        using set_take_subset [of "Suc n" misses] by (intro card_mono) auto
      then have "cap = 0 \<or> card (insert (misses ! n) (fst ` set d)) \<le> cap" using room keys by auto
      then show ?thesis using mh_insert_inv(4) [OF d(1,2), of cap "misses ! n"] keys by simp
    qed
    then show ?case unfolding Let_def next_d using mh_insert_inv(1-3) [OF d(1,2), of cap] by blast
  qed
  from this [of "length misses"] show ?thesis by (simp add: c'_def mh_insert_rows_def Let_def)
qed

lemma mh_fill_spec:
  assumes inv: "mh_inv e" and valid: "list_all valid flat"
  shows "\<exists>e'. mh_fill fetch flat e = (Inr (), e') \<and> mh_inv e' \<and> e' = e\<lparr>mh_cache := mh_cache e'\<rparr>
    \<and> (mh_cache_size e = 0 \<or> card (fst ` set (mh_cache e) \<union> set flat) \<le> mh_cache_size e
        \<longrightarrow> set flat \<subseteq> fst ` set (mh_cache e'))"
proof -
  define misses where "misses = filter (\<lambda>i. \<not> in_dict (mh_cache e) i) flat"
  have m: "list_all valid misses" "set flat \<subseteq> fst ` set (mh_cache e) \<union> set misses"
      "fst ` set (mh_cache e) \<union> set misses = fst ` set (mh_cache e) \<union> set flat"
    using valid by (auto simp: misses_def list_all_iff in_dict_iff)
  show ?thesis
  proof (cases "misses = []")
    case True
    then show ?thesis using inv m(2) by (simp add: mh_fill_def misses_def [symmetric])
  next
    case False
    have w: "mh_dim e * mh_itemsize e = width" using inv by (simp add: mh_inv_def)
    let ?c = "mh_insert_rows (mh_cache_size e) width misses (concat (map row misses)) (mh_cache e)"
    have "mh_fill fetch flat e = (Inr (), e\<lparr>mh_cache := ?c\<rparr>)"
      using False fetch_length [OF m(1) fetch_rows [OF m(1)]]
      by (simp add: mh_fill_def misses_def [symmetric] Let_def w fetch_rows [OF m(1)])
    moreover have "mh_inv (e\<lparr>mh_cache := ?c\<rparr>)
        \<and> (mh_cache_size e = 0 \<or> card (fst ` set (mh_cache e) \<union> set flat) \<le> mh_cache_size e
            \<longrightarrow> fst ` set ?c = fst ` set (mh_cache e) \<union> set misses)"
      using mh_insert_rows_inv [of "mh_cache e" "mh_cache_size e" misses] inv m by (simp add: mh_inv_def)
    ultimately show ?thesis using m(2) by auto
  qed
qed

text \<open>The value of a lookup.\<close>

definition mh_value :: "(bytes \<Rightarrow> 'f) \<Rightarrow> (rat \<Rightarrow> 'f \<Rightarrow> 'f) \<Rightarrow> ('f \<Rightarrow> 'f) \<Rightarrow> multi_head \<Rightarrow> int tensor \<Rightarrow> 'f tensor" where
  "mh_value dec mul cv e shifted =
     \<lparr>t_shape = t_shape shifted @ [mh_dim e],
      t_data = map (if mh_scale e \<noteq> 1 \<or> mh_output_dtype e then mul (mh_scale e) \<circ> cv else id)
        (et_data dec (mh_itemsize e) (t_data shifted))\<rparr>"

lemma mh_tensor_rows:
  assumes T: "torch_laws (mh_itemsize e) dec mul T" and conv: "\<And>t. conv t = t\<lparr>t_data := map cv (t_data t)\<rparr>"
    and e: "mh_inv e" "0 < mh_dim e"
    and x: "list_all valid (t_data x)" "t_data x \<noteq> []" "prod_list (t_shape x) = length (t_data x)"
  shows "mh_tensor T conv e x (concat (map row (t_data x))) = Inr (mh_value dec mul cv e x)"
proof -
  let ?k = "mh_itemsize e" and ?d = "mh_dim e" and ?rs = "t_data x"
  have w: "width = ?d * ?k" using e(1) by (auto simp: mh_inv_def)
  have k: "0 < ?k" using T by (simp add: torch_laws_def)
  have "rbind (fetch ?rs) (tc_frombuffer T) = Inr \<lparr>t_shape = [length ?rs * ?d], t_data = et_data dec ?k ?rs\<rparr>"
    by (rule frombuffer_rows [OF T x(1,2) w e(2)])
  moreover have "length (concat (map row ?rs)) = length ?rs * ?d * ?k" by (rule rows_bytes(1) [OF x(1) w k])
  moreover have "length (et_data dec ?k ?rs) = length ?rs * ?d" by (rule length_et_data [OF x(1) w k])
  ultimately show ?thesis
    using x by (simp add: mh_tensor_def mh_value_def mh_convert_def conv fetch_rows torch_mul [OF T] torch_reshape [OF T] comp_def)
qed

lemma mh_forward_spec:
  assumes T: "torch_laws (mh_itemsize e) dec mul T" and conv: "\<And>t. conv t = t\<lparr>t_data := map cv (t_data t)\<rparr>"
    and e: "mh_inv e" "0 < mh_dim e" and add: "add_offsets hash_indices (mh_offsets e) = Inr x"
    and x: "list_all valid (t_data x)" "t_data x \<noteq> []" "prod_list (t_shape x) = length (t_data x)"
  shows "\<exists>r e'. mh_forward T conv fetch hash_indices e = (r, e') \<and> mh_inv e' \<and> mh_offsets e' = mh_offsets e
    \<and> (r = Inr (mh_value dec mul cv e x) \<or> 0 < mh_cache_size e \<and> r = Inl KeyError)
    \<and> (card (fst ` set (mh_cache e) \<union> set (t_data x)) \<le> mh_cache_size e \<longrightarrow> r = Inr (mh_value dec mul cv e x))"
proof -
  obtain e' where e': "mh_fill fetch (t_data x) e = (Inr (), e')" "mh_inv e'" "e' = e\<lparr>mh_cache := mh_cache e'\<rparr>"
      "mh_cache_size e = 0 \<or> card (fst ` set (mh_cache e) \<union> set (t_data x)) \<le> mh_cache_size e
        \<longrightarrow> set (t_data x) \<subseteq> fst ` set (mh_cache e')"
    using mh_fill_spec [OF e(1) x(1)] by blast
  have coh: "coherent row (mh_cache e')" using e'(2) by (simp add: mh_inv_def)
  have fields: "mh_itemsize e' = mh_itemsize e" "mh_dim e' = mh_dim e" "mh_offsets e' = mh_offsets e"
      "mh_scale e' = mh_scale e" "mh_output_dtype e' = mh_output_dtype e"
    using arg_cong [OF e'(3), of mh_itemsize] arg_cong [OF e'(3), of mh_dim] arg_cong [OF e'(3), of mh_offsets]
      arg_cong [OF e'(3), of mh_scale] arg_cong [OF e'(3), of mh_output_dtype] by simp_all
  have tens: "mh_tensor T conv e' x (concat (map row (t_data x))) = Inr (mh_value dec mul cv e x)"
    using mh_tensor_rows [OF _ conv e'(2) _ x, of dec mul T] T e(2) fields by (simp add: mh_value_def)
  show ?thesis
    using add e'(1,2,4) fields(3) rmapM_dict_at [OF coh, of "t_data x"] tens
    by (auto simp: mh_forward_def)
qed

end

lemma add_offsets_last:
  assumes "offs \<noteq> []" "t_shape x = sh @ [length offs]"
  shows "add_offsets x offs = Inr \<lparr>t_shape = t_shape x,
    t_data = map (\<lambda>i. t_data x ! i + offs ! (i mod length offs)) [0..<length (t_data x)]\<rparr>"
  using assms by (simp add: add_offsets_def Let_def)

section \<open>Installing twice\<close>

text \<open>The second installation saves the first patch as the original class.\<close>

lemma install_twice_loses_original:
  assumes "ly_multi_head layer = OriginalMultiHead"
  shows "ly_original (install_disk_multi_head c' (install_disk_multi_head c layer)) = Some (PatchedMultiHead c)"
  by (simp add: install_disk_multi_head_def)

text \<open>A scale that is given or discovered is the scale of every module built after the installation.\<close>

lemma installed_scale:
  assumes "install_real_qwen discover load_scale fetch scale model_dir info cache_size layer = Inr layer'"
    and "scale = Some c \<or> scale = None \<and> (\<exists>i. info = Some i \<and> di_weight_scale i = Some c)"
  shows "\<exists>e. construct_multi_head layer' primes d = Some e \<and> mh_scale e = c \<and> mh_itemsize e = 1 \<and> mh_cache e = []"
  using assms
  by (auto simp: install_real_qwen_def real_qwen_scale_def construct_multi_head_def install_disk_multi_head_def
      multi_head_init_def)

section \<open>Properties\<close>

text \<open>
  The multi-head lookup over a table whose heads have \<open>primes\<close> rows each: the element at
  position \<open>i\<close> is read from row \<open>hash + offset\<close> of its head, with the offsets of the PLE table, decoded,
  and scaled when a scale or an output type is set.  A \<open>KeyError\<close> is possible only when a positive
  cache size is too small for the cached and the requested rows; size 0 never evicts.
\<close>

theorem multi_head_forward:
  assumes "torch_laws (mh_itemsize e) dec mul T" "\<And>t. conv t = t\<lparr>t_data := map cv (t_data t)\<rparr>"
    and "native.mh_inv s e" "0 < mh_dim e" "primes \<noteq> []" "mh_offsets e = head_offsets (Some primes)"
    and "t_shape h = sh @ [length primes]" "t_data h \<noteq> []" "prod_list (t_shape h) = length (t_data h)"
    and "rows = map (\<lambda>i. t_data h ! i + head_offsets (Some primes) ! (i mod length primes)) [0..<length (t_data h)]"
    and "list_all (store_valid s) rows"
  shows "fst (mh_forward T conv (store_fetch s) h e)
    \<in> {Inr \<lparr>t_shape = t_shape h @ [mh_dim e],
            t_data = map (if mh_scale e \<noteq> 1 \<or> mh_output_dtype e then mul (mh_scale e) \<circ> cv else id)
              (concat (map (\<lambda>r. map dec (chunks (mh_itemsize e) (store_row s r))) rows))\<rparr>}
      \<union> (if mh_cache_size e = 0 \<or> card (fst ` set (mh_cache e) \<union> set rows) \<le> mh_cache_size e
         then {} else {Inl KeyError})"
proof -
  have offs: "length (head_offsets (Some primes)) = length primes" using assms(5) by simp
  have "head_offsets (Some primes) \<noteq> []" using assms(5) offs by (metis length_0_conv)
  then have add: "add_offsets h (mh_offsets e) = Inr \<lparr>t_shape = t_shape h, t_data = rows\<rparr>"
    using add_offsets_last [of "head_offsets (Some primes)" h sh] assms(6,7,10) offs by simp
  have "rows \<noteq> []" "prod_list (t_shape h) = length rows" using assms(8-10) by simp_all
  then show ?thesis
    using native.mh_forward_spec [OF assms(1-4) add] assms(11)
    by (auto simp: native.mh_value_def native.et_data_def)
qed

definition demo_multi_head :: multi_head where
  "demo_multi_head = multi_head_init [2, 2] 2 1 0 3 False"

lemma demo_multi_head_inv: "native.mh_inv demo_store demo_multi_head"
  unfolding native.mh_inv_def by (simp add: demo_multi_head_def multi_head_init_def)

theorem multi_head_forward_witness:
  "fst (mh_forward (list_torch uint (\<lambda>c x. 3 * x)) (\<lambda>t. t) (store_fetch demo_store)
      \<lparr>t_shape = [1, 2], t_data = [1, 0]\<rparr> demo_multi_head)
   \<in> {Inr \<lparr>t_shape = [1, 2] @ [mh_dim demo_multi_head],
        t_data = map (if mh_scale demo_multi_head \<noteq> 1 \<or> mh_output_dtype demo_multi_head
                      then (\<lambda>x. 3 * x) \<circ> (\<lambda>x. x) else id)
          (concat (map (\<lambda>r. map (\<lambda>bs. uint (hd bs)) (chunks (mh_itemsize demo_multi_head) (store_row demo_store r))) [1, 2]))\<rparr>}
     \<union> (if mh_cache_size demo_multi_head = 0
            \<or> card (fst ` set (mh_cache demo_multi_head) \<union> set [1, 2 :: int]) \<le> mh_cache_size demo_multi_head
        then {} else {Inl KeyError})"
  using multi_head_forward [of demo_multi_head "\<lambda>bs. uint (hd bs)" "\<lambda>c x. 3 * x" "list_torch uint (\<lambda>c x. 3 * x)"
      "\<lambda>t. t" "\<lambda>x. x" demo_store "[2, 2]" "\<lparr>t_shape = [1, 2], t_data = [1, 0]\<rparr>" "[1]" "[1, 2]"]
    list_torch_laws [of uint "\<lambda>c x. 3 * x"] demo_multi_head_inv multi_head_offsets [of "[2, 2]" 2 1 0 3 False]
  by (simp add: demo_multi_head_def multi_head_init_def head_offsets_nth upt_rec comp_def)

end
