(* ===== verification/PleAdapter.thy ===== *)
theory PleAdapter
  imports DiskTable PleSequence
begin

text \<open>
  \<open>python/engramdb/ple_adapter.py\<close>: the module's own copy of the row-id arithmetic, and
  \<open>DiskPleNGramEmbedding\<close>, which keeps one n-gram context per batch row and looks the rows up in
  a \<open>disk_table\<close>.  Integer tensors are \<open>int tensor\<close>; \<open>to(torch.float32)\<close> is the parameter
  \<open>conv\<close>.  An embedding width is not negative.
\<close>

section \<open>The copied row-id arithmetic\<close>

definition adapter_is_prime :: "int \<Rightarrow> bool" where
  "adapter_is_prime v = (if v < 2 then False else if v mod 2 = 0 then v = 2 else trial_division v 3)"

fun adapter_nth_prime_after :: "int \<Rightarrow> nat \<Rightarrow> int" where
  "adapter_nth_prime_after p 0 = p"
| "adapter_nth_prime_after p (Suc n) = adapter_nth_prime_after (next_prime_from (p + 1)) n"

definition adapter_head_vocab_sizes :: "int \<Rightarrow> nat \<Rightarrow> int list" where
  "adapter_head_vocab_sizes base heads = map (\<lambda>i. adapter_nth_prime_after (base - 1) (i + 1)) [0..<heads]"

definition adapter_head_offsets :: "int list option \<Rightarrow> int list" where
  "adapter_head_offsets sizes =
     (let sizes = list_or sizes (adapter_head_vocab_sizes PLE_BASE PLE_HEADS)
      in fold (\<lambda>s offsets. offsets @ [last offsets + s]) (butlast sizes) [0])"

definition adapter_padded_vocab_size :: "int list option \<Rightarrow> int \<Rightarrow> int res" where
  "adapter_padded_vocab_size sizes divisor =
     (let sizes = list_or sizes (adapter_head_vocab_sizes PLE_BASE PLE_HEADS); total = sum_list sizes
      in rbind (py_div (total + divisor - 1) divisor) (\<lambda>q. Inr (q * divisor)))"

definition adapter_shift :: "int list \<Rightarrow> nat \<Rightarrow> int \<Rightarrow> int list" where
  "adapter_shift hist shift eos =
     (if shift = 0 then hist
      else let prev_incl = prev_incl_loop eos 0 (- 1) hist
        in map (\<lambda>i. let seg_start = (if i = 0 then 0 else prev_incl ! (i - 1) + 1);
                        pos_in_seg = int i - seg_start; src = int i - int shift
                    in if int shift \<le> pos_in_seg \<and> 0 \<le> src then hist ! nat src else eos)
             [0..<length hist])"

definition adapter_ple_rowids ::
  "int list \<Rightarrow> int list \<Rightarrow> int \<Rightarrow> int list option \<Rightarrow> int list option \<Rightarrow> nat \<Rightarrow> nat
     \<Rightarrow> int list option \<Rightarrow> int list list res" where
  "adapter_ple_rowids tokens multipliers eos sizes offsets ngram_size heads_per_ngram history =
     (let sizes = list_or sizes (adapter_head_vocab_sizes PLE_BASE PLE_HEADS);
          offsets = list_or offsets (adapter_head_offsets (Some sizes));
          hist = (case history of None \<Rightarrow> [eos, eos] @ tokens | Some h \<Rightarrow> h @ tokens);
          shifted = map (\<lambda>sh. adapter_shift hist sh eos) [0..<ngram_size]
      in rmap (\<lambda>ids_all. if tokens = [] then [] else last_n (length tokens) ids_all)
           (rmapM (\<lambda>pos. rmap concat (rmapM (\<lambda>ngram.
               let start = (ngram - 2) * heads_per_ngram; end' = start + heads_per_ngram
               in rbind (gram_mixed shifted multipliers pos ngram)
                    (\<lambda>mixed. rmapM (head_rid sizes offsets mixed) [start..<end']))
             [2..<ngram_size + 1])) [0..<length hist]))"

section \<open>\<open>DiskPleNGramEmbedding\<close>\<close>

record adapter_args =
  aa_num_embeddings :: "int option"
  aa_embedding_dim :: int
  aa_num_heads :: nat
  aa_layer_multipliers :: "int list option"
  aa_scale :: rat
  aa_itemsize :: nat
  aa_cache_size :: int
  aa_timed :: bool
  aa_eos :: int
  aa_prime_sizes :: "int list option"
  aa_offsets :: "int list option"
  aa_ngram_size :: int
  aa_heads_per_ngram :: int
  aa_divisor :: int

definition default_adapter_args :: adapter_args where
  "default_adapter_args =
     \<lparr>aa_num_embeddings = None, aa_embedding_dim = 160, aa_num_heads = PLE_HEADS, aa_layer_multipliers = None,
      aa_scale = 1, aa_itemsize = 1, aa_cache_size = 4096, aa_timed = False, aa_eos = PLE_EOS,
      aa_prime_sizes = None, aa_offsets = None, aa_ngram_size = int PLE_NGRAM_SIZE,
      aa_heads_per_ngram = int PLE_HEADS_PER_NGRAM, aa_divisor = PLE_DIVISOR\<rparr>"

record adapter =
  na_prime_sizes :: "int list"
  na_head_offsets :: "int list"
  na_ngram_size :: int
  na_heads_per_ngram :: int
  na_num_embeddings :: int
  na_embedding_dim :: int
  na_head_dim :: int
  na_multipliers :: "int list"
  na_scale :: rat
  na_eos :: int
  na_divisor :: int
  na_native_standard :: bool
  na_table :: disk_table
  na_context :: "int list list"

definition adapter_init :: "adapter_args \<Rightarrow> adapter res" where
  "adapter_init a =
     (let prime_sizes = (case aa_prime_sizes a of None \<Rightarrow> adapter_head_vocab_sizes PLE_BASE (aa_num_heads a) | Some xs \<Rightarrow> xs);
          num_heads = length prime_sizes;
          offsets = (case aa_offsets a of Some xs \<Rightarrow> xs | None \<Rightarrow> adapter_head_offsets (Some prime_sizes));
          multipliers = list_or (aa_layer_multipliers a) DEFAULT_MULTIPLIERS
      in rbind (case aa_num_embeddings a of Some n \<Rightarrow> Inr n
                | None \<Rightarrow> adapter_padded_vocab_size (Some prime_sizes) (aa_divisor a)) (\<lambda>num_embeddings.
         rbind (py_div (aa_embedding_dim a) (int num_heads)) (\<lambda>head_dim.
         Inr \<lparr>na_prime_sizes = prime_sizes, na_head_offsets = offsets, na_ngram_size = aa_ngram_size a,
              na_heads_per_ngram = aa_heads_per_ngram a, na_num_embeddings = num_embeddings,
              na_embedding_dim = aa_embedding_dim a, na_head_dim = head_dim, na_multipliers = multipliers,
              na_scale = aa_scale a, na_eos = aa_eos a, na_divisor = aa_divisor a,
              na_native_standard =
                (multipliers = DEFAULT_MULTIPLIERS \<and> aa_ngram_size a = 3 \<and> aa_heads_per_ngram a = 8
                 \<and> aa_eos a = PLE_EOS \<and> prime_sizes = adapter_head_vocab_sizes PLE_BASE PLE_HEADS),
              na_table = disk_table_init num_embeddings (nat head_dim) (aa_itemsize a) (aa_cache_size a) (aa_timed a),
              na_context = []\<rparr>)))"

text \<open>\<open>disk_ple_from_discovery\<close>: \<open>info["ngram_size"]\<close> must be an integer, a missing scale is 1.\<close>

definition disk_ple_from_discovery ::
  "discovery option \<Rightarrow> int list option \<Rightarrow> rat option \<Rightarrow> int \<Rightarrow> adapter res" where
  "disk_ple_from_discovery info layer_multipliers scale cache_size =
     (case info of None \<Rightarrow> Inl ValueError
      | Some info \<Rightarrow>
        let int_of = (\<lambda>x. case x of None \<Rightarrow> Inl TypeError | Some v \<Rightarrow> Inr v);
            scale = (case scale of Some c \<Rightarrow> c | None \<Rightarrow> (case di_weight_scale info of None \<Rightarrow> 1 | Some c \<Rightarrow> c));
            multipliers = (case layer_multipliers of Some m \<Rightarrow> Some m
              | None \<Rightarrow> first_present (di_multipliers info) multiplier_keys)
        in rbind (int_of (di_ngram_size info)) (\<lambda>ngram_size.
           rbind (int_of (di_heads_per_ngram info)) (\<lambda>heads_per_ngram.
           rbind (int_of (di_ple_embed_dim info)) (\<lambda>embed_dim.
           let ngram_heads = (ngram_size - 1) * heads_per_ngram;
               divisor = int_or (di_divisible_by info) PLE_DIVISOR;
               prime_sizes = adapter_head_vocab_sizes (int_or (di_ngram_vocab_size_base info) PLE_BASE) (nat ngram_heads)
           in adapter_init (default_adapter_args\<lparr>aa_embedding_dim := embed_dim, aa_num_heads := nat ngram_heads,
                aa_layer_multipliers := multipliers, aa_scale := scale, aa_cache_size := cache_size,
                aa_ngram_size := ngram_size, aa_heads_per_ngram := heads_per_ngram,
                aa_prime_sizes := Some prime_sizes, aa_offsets := Some (adapter_head_offsets (Some prime_sizes)),
                aa_divisor := divisor\<rparr>)))))"

definition rows_for :: "bool \<Rightarrow> adapter \<Rightarrow> int list \<Rightarrow> int list \<Rightarrow> int list list res" where
  "rows_for has_native ad seq history =
     (let slow = adapter_ple_rowids seq (na_multipliers ad) (na_eos ad) (Some (na_prime_sizes ad))
            (Some (na_head_offsets ad)) (nat (na_ngram_size ad)) (nat (na_heads_per_ngram ad)) (Some history)
      in if na_native_standard ad
         then case rowids_for_seq_with_history has_native history seq PLE_QWEN_V1 of
             Inr rows \<Rightarrow> Inr rows
           | Inl e \<Rightarrow> (if catchable e then slow else Inl e)
         else slow)"

definition reset_history :: "adapter \<Rightarrow> adapter" where
  "reset_history ad = ad\<lparr>na_context := []\<rparr>"

definition adapter_close :: "adapter \<Rightarrow> adapter" where
  "adapter_close ad = ad\<lparr>na_table := table_close (na_table ad)\<rparr>"

text \<open>\<open>dim()\<close>, \<open>unsqueeze(0)\<close> and the rows of the batch; other dimensions do not unpack.\<close>

definition batch_of :: "int tensor \<Rightarrow> (bool \<times> int list list) res" where
  "batch_of ids =
     (case t_shape ids of
        [n] \<Rightarrow> Inr (True, [t_data ids])
      | [b, n] \<Rightarrow> Inr (False, map (\<lambda>i. py_slice i n (t_data ids)) [0..<b])
      | _ \<Rightarrow> Inl ValueError)"

definition fresh_context :: "adapter \<Rightarrow> int list" where
  "fresh_context ad = replicate (nat (na_ngram_size ad - 1)) (na_eos ad)"

text \<open>\<open>while len(self._context) < batch_size: append\<close>.\<close>

definition grow_context :: "nat \<Rightarrow> adapter \<Rightarrow> adapter" where
  "grow_context b ad =
     ad\<lparr>na_context := na_context ad @ replicate (b - length (na_context ad)) (fresh_context ad)\<rparr>"

text \<open>\<open>xs[-k:]\<close> for any integer \<open>k\<close>.\<close>

definition tail_slice :: "int \<Rightarrow> 'a list \<Rightarrow> 'a list" where
  "tail_slice k xs = (if 0 < k then last_n (nat k) xs else drop (nat (- k)) xs)"

fun adapter_loop ::
  "bool \<Rightarrow> nat \<Rightarrow> int list list \<Rightarrow> int list list list \<Rightarrow> adapter \<Rightarrow> int list list list res \<times> adapter" where
  "adapter_loop has_native b [] batch_rows ad = (Inr batch_rows, ad)"
| "adapter_loop has_native b (seq # seqs) batch_rows ad =
     (let history = na_context ad ! b
      in case rows_for has_native ad seq history of
           Inl e \<Rightarrow> (Inl e, ad)
         | Inr rows \<Rightarrow> adapter_loop has_native (Suc b) seqs (batch_rows @ [rows])
             (ad\<lparr>na_context := (na_context ad)[b := tail_slice (na_ngram_size ad - 1) (history @ seq)]\<rparr>))"

definition adapter_prefetch :: "bool \<Rightarrow> int tensor \<Rightarrow> adapter \<Rightarrow> int list option res \<times> adapter" where
  "adapter_prefetch has_native ids ad =
     (case batch_of ids of
        Inl e \<Rightarrow> (Inl e, ad)
      | Inr (was_1d, seqs) \<Rightarrow>
          let ad = grow_context (length seqs) ad
          in case rmapM (\<lambda>b. rows_for has_native ad (seqs ! b) (na_context ad ! b)) [0..<length seqs] of
               Inl e \<Rightarrow> (Inl e, ad)
             | Inr rows \<Rightarrow> (case table_prefetch (concat (concat rows)) (na_table ad) of
                 (r, t) \<Rightarrow> (r, ad\<lparr>na_table := t\<rparr>)))"

text \<open>\<open>torch.tensor\<close> of the nested row lists, \<open>flatten(-2)\<close> and \<open>squeeze(0)\<close>.\<close>

definition nested_shape :: "'a list list list \<Rightarrow> nat list" where
  "nested_shape xss =
     length xss # (if xss = [] then [] else length (hd xss) # (if hd xss = [] then [] else [length (hd (hd xss))]))"

definition nested_tensor :: "int list list list \<Rightarrow> int tensor" where
  "nested_tensor xss = \<lparr>t_shape = nested_shape xss, t_data = concat (concat xss)\<rparr>"

definition flatten_last :: "'f tensor \<Rightarrow> 'f tensor" where
  "flatten_last t = (let sh = t_shape t; n = length sh
     in if n < 2 then t else t\<lparr>t_shape := take (n - 2) sh @ [sh ! (n - 2) * sh ! (n - 1)]\<rparr>)"

definition squeeze_first :: "'f tensor \<Rightarrow> 'f tensor" where
  "squeeze_first t = (case t_shape t of n # sh \<Rightarrow> (if n = 1 then t\<lparr>t_shape := sh\<rparr> else t) | [] \<Rightarrow> t)"

definition adapter_output :: "'f torch \<Rightarrow> ('f tensor \<Rightarrow> 'f tensor) \<Rightarrow> adapter \<Rightarrow> bool \<Rightarrow> 'f tensor \<Rightarrow> 'f tensor" where
  "adapter_output T conv ad was_1d raw =
     (let out = flatten_last (tc_mul T (conv raw) (na_scale ad)) in if was_1d then squeeze_first out else out)"

definition adapter_forward ::
  "'f torch \<Rightarrow> ('f tensor \<Rightarrow> 'f tensor) \<Rightarrow> (int list \<Rightarrow> bytes res) \<Rightarrow> bool \<Rightarrow> (nat \<Rightarrow> arrival) \<Rightarrow> int tensor \<Rightarrow> adapter
     \<Rightarrow> 'f tensor res \<times> adapter" where
  "adapter_forward T conv fetch has_native env ids ad =
     (case batch_of ids of
        Inl e \<Rightarrow> (Inl e, ad)
      | Inr (was_1d, seqs) \<Rightarrow>
          (case adapter_loop has_native 0 seqs [] (grow_context (length seqs) ad) of
             (Inl e, ad) \<Rightarrow> (Inl e, ad)
           | (Inr batch_rows, ad) \<Rightarrow>
               (case table_forward T fetch env (nested_tensor batch_rows) (na_table ad) of
                  (r, t) \<Rightarrow> (rmap (adapter_output T conv ad was_1d) r, ad\<lparr>na_table := t\<rparr>))))"

section \<open>The copy agrees with \<open>ple_math\<close>\<close>

lemma adapter_is_prime_eq: "adapter_is_prime = is_prime"
  by (rule ext) (simp add: adapter_is_prime_def is_prime_def)

lemma adapter_nth_prime_after_eq: "adapter_nth_prime_after p n = nth_prime_after p n"
  by (induction n arbitrary: p) simp_all

lemma adapter_head_vocab_sizes_eq: "adapter_head_vocab_sizes = head_vocab_sizes"
  by (intro ext) (simp add: adapter_head_vocab_sizes_def head_vocab_sizes_def adapter_nth_prime_after_eq)

lemma list_or_sizes: "list_or sizes (head_vocab_sizes PLE_BASE PLE_HEADS) = sizes_or sizes"
  by (auto simp: list_or_def sizes_or_def split: option.split)

lemma adapter_head_offsets_eq: "adapter_head_offsets = head_offsets"
  by (rule ext) (simp add: adapter_head_offsets_def head_offsets_def adapter_head_vocab_sizes_eq list_or_sizes
      foldl_conv_fold del: fold_simps)

lemma adapter_padded_vocab_size_eq: "adapter_padded_vocab_size = padded_vocab_size"
  by (intro ext) (simp add: adapter_padded_vocab_size_def padded_vocab_size_def adapter_head_vocab_sizes_eq
      list_or_sizes rmap_def rbind_def Let_def)

lemma adapter_shift_eq: "adapter_shift hist sh eos = shift_right_ignore_eos hist sh eos"
  by (simp add: adapter_shift_def shift_right_ignore_eos_def Let_def)

lemma adapter_ple_rowids_eq: "adapter_ple_rowids = ple_rowids"
  by (intro ext) (simp only: adapter_ple_rowids_def ple_rowids_def adapter_head_vocab_sizes_eq list_or_sizes
      adapter_head_offsets_eq adapter_shift_eq position_row_def [abs_def])

lemmas adapter_math = adapter_is_prime_eq adapter_nth_prime_after_eq adapter_head_vocab_sizes_eq
  adapter_head_offsets_eq adapter_padded_vocab_size_eq adapter_ple_rowids_eq

section \<open>Rows of one sequence\<close>

definition standard_ok :: "adapter \<Rightarrow> bool" where
  "standard_ok ad \<longleftrightarrow> (na_native_standard ad \<longrightarrow>
     na_multipliers ad = DEFAULT_MULTIPLIERS \<and> na_ngram_size ad = 3 \<and> na_heads_per_ngram ad = 8
     \<and> na_eos ad = PLE_EOS \<and> na_prime_sizes ad = head_vocab_sizes PLE_BASE PLE_HEADS
     \<and> na_head_offsets ad = head_offsets (Some (na_prime_sizes ad)))"

definition adapter_ok :: "adapter \<Rightarrow> bool" where
  "adapter_ok ad \<longleftrightarrow> standard_ok ad
     \<and> ple_params_ok (na_multipliers ad) (na_prime_sizes ad) (na_head_offsets ad)
         (nat (na_ngram_size ad)) (nat (na_heads_per_ngram ad))"

definition tokens_ok :: "bool \<Rightarrow> adapter \<Rightarrow> int list \<Rightarrow> bool" where
  "tokens_ok has_native ad xs \<longleftrightarrow>
     (na_native_standard ad \<and> has_native \<longrightarrow> (\<forall>x \<in> set xs. 0 \<le> x \<and> x < native_token_limit))"

abbreviation adapter_rows :: "adapter \<Rightarrow> int list \<Rightarrow> int list \<Rightarrow> int list list" where
  "adapter_rows ad ctx t \<equiv>
     rows_after (na_eos ad) (na_multipliers ad) (na_prime_sizes ad) (na_head_offsets ad)
       (nat (na_ngram_size ad)) (nat (na_heads_per_ngram ad)) ctx t"

lemma adapter_init_standard:
  assumes "adapter_init a = Inr ad" "aa_offsets a = None \<or> aa_offsets a = Some (head_offsets (aa_prime_sizes a))"
    and "aa_prime_sizes a \<noteq> Some []"
  shows "standard_ok ad"
proof -
  have "aa_prime_sizes a = None \<Longrightarrow> head_offsets None = head_offsets (Some (head_vocab_sizes PLE_BASE PLE_HEADS))"
    by (simp add: head_offsets_def sizes_or_def)
  with assms show ?thesis
    by (auto simp: adapter_init_def Let_def standard_ok_def adapter_math rbind_Inr_iff split: option.splits)
qed

lemma rows_for_rows:
  assumes ok: "adapter_ok ad" and tok: "tokens_ok has_native ad (history @ seq)"
  shows "rows_for has_native ad seq history = Inr (adapter_rows ad history seq)"
proof -
  have slow: "ple_rowids seq (na_multipliers ad) (na_eos ad) (Some (na_prime_sizes ad)) (Some (na_head_offsets ad))
      (nat (na_ngram_size ad)) (nat (na_heads_per_ngram ad)) (Some history) = Inr (adapter_rows ad history seq)"
    using ok by (simp add: adapter_ok_def ple_rowids_rows_after history_of_def)
  show ?thesis
  proof (cases "na_native_standard ad")
    case True
    have std: "na_multipliers ad = DEFAULT_MULTIPLIERS" "na_ngram_size ad = 3" "na_heads_per_ngram ad = 8"
        "na_eos ad = PLE_EOS" "na_prime_sizes ad = head_vocab_sizes PLE_BASE PLE_HEADS"
        "na_head_offsets ad = head_offsets (Some (na_prime_sizes ad))"
      using ok True by (simp_all add: adapter_ok_def standard_ok_def)
    have "rowids_for_seq_with_history has_native history seq PLE_QWEN_V1
        = ple_rowids seq DEFAULT_MULTIPLIERS PLE_EOS None None PLE_NGRAM_SIZE PLE_HEADS_PER_NGRAM (Some history)"
      using native_rowids_for_seq_reference [of history seq] tok True
      by (simp add: tokens_ok_def rowids_for_seq_with_history_def PLE_QWEN_V1_def)
    also have "\<dots> = Inr (adapter_rows ad history seq)"
      using slow unfolding ple_rowids_defaults std by (simp add: PLE_NGRAM_SIZE_def PLE_HEADS_PER_NGRAM_def)
    finally show ?thesis using True by (simp add: rows_for_def Let_def)
  next
    case False
    then show ?thesis using slow by (simp add: rows_for_def Let_def adapter_math)
  qed
qed

text \<open>Keeping \<open>ngram_size - 1\<close> tokens of context is enough.\<close>

lemma tail_context:
  assumes "adapter_ok ad"
  shows "adapter_rows ad (tail_slice (na_ngram_size ad - 1) ctx) t = adapter_rows ad ctx t"
proof -
  have "2 \<le> nat (na_ngram_size ad)" using assms by (simp add: adapter_ok_def ple_params_ok_def)
  then show ?thesis by (simp add: tail_slice_def rows_after_last_n)
qed

section \<open>Batches\<close>

text \<open>The rows of a batch and the contexts it leaves, for the contexts \<open>cs\<close> of its rows.\<close>

definition batch_rows_of :: "adapter \<Rightarrow> int list list \<Rightarrow> int list list \<Rightarrow> int list list list" where
  "batch_rows_of ad cs seqs = map2 (adapter_rows ad) cs seqs"

definition next_contexts :: "adapter \<Rightarrow> int list list \<Rightarrow> int list list \<Rightarrow> int list list" where
  "next_contexts ad cs seqs = map2 (\<lambda>c t. tail_slice (na_ngram_size ad - 1) (c @ t)) cs seqs"

lemma adapter_ok_context [simp]: "adapter_ok (ad\<lparr>na_context := cs\<rparr>) = adapter_ok ad"
  by (simp add: adapter_ok_def standard_ok_def)

lemma tokens_ok_context [simp]: "tokens_ok n (ad\<lparr>na_context := cs\<rparr>) = tokens_ok n ad"
  by (intro ext) (simp add: tokens_ok_def)

lemma adapter_loop_rows:
  assumes "adapter_ok ad" "na_context ad = pre @ cs @ post" "length pre = b" "length cs = length seqs"
    and "\<And>c t. (c, t) \<in> set (zip cs seqs) \<Longrightarrow> tokens_ok has_native ad (c @ t)"
  shows "adapter_loop has_native b seqs acc ad
    = (Inr (acc @ batch_rows_of ad cs seqs), ad\<lparr>na_context := pre @ next_contexts ad cs seqs @ post\<rparr>)"
  using assms
proof (induction seqs arbitrary: b acc ad pre cs)
  case Nil
  then show ?case by (simp add: batch_rows_of_def next_contexts_def)
next
  case (Cons t seqs)
  then obtain c cs' where cs: "cs = c # cs'" by (cases cs) auto
  define ad' where "ad' = ad\<lparr>na_context := (na_context ad)[b := tail_slice (na_ngram_size ad - 1) (c @ t)]\<rparr>"
  have c: "na_context ad ! b = c" using Cons.prems(2) by (simp add: cs Cons.prems(3) [symmetric])
  have "rows_for has_native ad t c = Inr (adapter_rows ad c t)"
    using Cons.prems(1,5) by (intro rows_for_rows) (simp_all add: cs)
  then have "adapter_loop has_native b (t # seqs) acc ad = adapter_loop has_native (Suc b) seqs (acc @ [adapter_rows ad c t]) ad'"
    by (simp add: c ad'_def Let_def)
  also have "\<dots> = (Inr ((acc @ [adapter_rows ad c t]) @ batch_rows_of ad' cs' seqs),
      ad'\<lparr>na_context := (pre @ [tail_slice (na_ngram_size ad - 1) (c @ t)]) @ next_contexts ad' cs' seqs @ post\<rparr>)"
    using Cons.prems by (intro Cons.IH) (auto simp: cs ad'_def list_update_append)
  finally show ?case by (simp add: cs ad'_def batch_rows_of_def next_contexts_def)
qed

definition contexts_for :: "adapter \<Rightarrow> nat \<Rightarrow> int list list" where
  "contexts_for ad b = take b (na_context (grow_context b ad))"

lemma length_contexts_for [simp]: "length (contexts_for ad b) = b"
  by (simp add: contexts_for_def grow_context_def)

lemma contexts_for_split: "na_context (grow_context b ad) = contexts_for ad b @ drop b (na_context ad)"
  by (cases "length (na_context ad) \<le> b") (simp_all add: contexts_for_def grow_context_def)

lemma grow_context_fields [simp]:
  "na_prime_sizes (grow_context b ad) = na_prime_sizes ad" "na_head_offsets (grow_context b ad) = na_head_offsets ad"
  "na_ngram_size (grow_context b ad) = na_ngram_size ad" "na_heads_per_ngram (grow_context b ad) = na_heads_per_ngram ad"
  "na_multipliers (grow_context b ad) = na_multipliers ad" "na_eos (grow_context b ad) = na_eos ad"
  "na_scale (grow_context b ad) = na_scale ad"
  "na_table (grow_context b ad) = na_table ad" "adapter_ok (grow_context b ad) = adapter_ok ad"
  "tokens_ok n (grow_context b ad) = tokens_ok n ad"
  by (simp_all add: grow_context_def)

lemma table_prefetch_fields [simp]:
  "dt_embedding_dim (snd (table_prefetch rs t)) = dt_embedding_dim t"
  "dt_itemsize (snd (table_prefetch rs t)) = dt_itemsize t"
  "dt_cache_size (snd (table_prefetch rs t)) = dt_cache_size t"
  by (simp_all add: table_prefetch_def Let_def)

text \<open>What one batch needs: valid tokens for the native path, and rows the store holds.\<close>

definition batch_tokens_ok :: "bool \<Rightarrow> adapter \<Rightarrow> int list list \<Rightarrow> bool" where
  "batch_tokens_ok has_native ad seqs \<longleftrightarrow>
     (\<forall>(c, t) \<in> set (zip (contexts_for ad (length seqs)) seqs). tokens_ok has_native ad (c @ t))"

lemma adapter_loop_grown:
  assumes "adapter_ok ad" "batch_tokens_ok has_native ad seqs"
  shows "adapter_loop has_native 0 seqs [] (grow_context (length seqs) ad)
    = (Inr (batch_rows_of ad (contexts_for ad (length seqs)) seqs),
       ad\<lparr>na_context := next_contexts ad (contexts_for ad (length seqs)) seqs @ drop (length seqs) (na_context ad)\<rparr>)"
proof -
  have g: "grow_context (length seqs) ad = ad\<lparr>na_context := contexts_for ad (length seqs) @ drop (length seqs) (na_context ad)\<rparr>"
    using contexts_for_split [of "length seqs" ad] by (simp add: grow_context_def)
  show ?thesis
    unfolding g using assms
    by (subst adapter_loop_rows [where pre = "[]" and cs = "contexts_for ad (length seqs)"])
      (auto simp: batch_tokens_ok_def batch_rows_of_def next_contexts_def)
qed

definition total_heads :: "adapter \<Rightarrow> nat" where
  "total_heads ad = (nat (na_ngram_size ad) - 1) * nat (na_heads_per_ngram ad)"

lemma adapter_row_length: "adapter_ok ad \<Longrightarrow> r \<in> set (adapter_rows ad c t) \<Longrightarrow> length r = total_heads ad"
  by (auto simp: rows_after_def length_row_of adapter_ok_def ple_params_ok_def total_heads_def)

text \<open>The row-id tensor of a batch of sequences of one positive length.\<close>

lemma nested_tensor_batch:
  assumes ok: "adapter_ok ad" and n: "0 < n" "\<And>t. t \<in> set seqs \<Longrightarrow> length t = n"
    and b: "seqs \<noteq> []" "length cs = length seqs"
  shows "t_shape (nested_tensor (batch_rows_of ad cs seqs)) = [length seqs, n, total_heads ad]"
    and "length (t_data (nested_tensor (batch_rows_of ad cs seqs))) = length seqs * n * total_heads ad"
proof -
  let ?rows = "batch_rows_of ad cs seqs"
  have len: "length rows = n \<and> (\<forall>r \<in> set rows. length r = total_heads ad)" if "rows \<in> set ?rows" for rows
    using that n(2) adapter_row_length [OF ok] by (auto simp: batch_rows_of_def dest: set_zip_rightD)
  have ne: "?rows \<noteq> []" using b by (cases cs; cases seqs) (auto simp: batch_rows_of_def)
  then have "hd ?rows \<in> set ?rows" by simp
  note h = len [OF this]
  then have "hd ?rows \<noteq> []" using n(1) by auto
  moreover from this have "length (hd (hd ?rows)) = total_heads ad" using h by simp
  ultimately show "t_shape (nested_tensor ?rows) = [length seqs, n, total_heads ad]"
    using ne h b(2) by (simp add: nested_tensor_def nested_shape_def) (simp add: batch_rows_of_def b(2))
  have "length (concat ?rows) = length seqs * n"
    using len length_concat_const [of ?rows n] b(2) by (auto simp: batch_rows_of_def)
  moreover have "length (concat (concat ?rows)) = length (concat ?rows) * total_heads ad"
    using len by (intro length_concat_const) auto
  ultimately show "length (t_data (nested_tensor ?rows)) = length seqs * n * total_heads ad"
    by (simp add: nested_tensor_def)
qed

section \<open>Forward\<close>

context row_store
begin

definition adapter_inv :: "adapter \<Rightarrow> bool" where
  "adapter_inv ad \<longleftrightarrow> adapter_ok ad \<and> table_inv (na_table ad)
     \<and> 0 < dt_embedding_dim (na_table ad) \<and> 0 < total_heads ad"

text \<open>Well-formed input: sequences of one positive length whose rows the store holds.\<close>

definition batch_input_ok :: "bool \<Rightarrow> adapter \<Rightarrow> nat \<Rightarrow> int list list \<Rightarrow> bool" where
  "batch_input_ok has_native ad n seqs \<longleftrightarrow>
     0 < n \<and> seqs \<noteq> [] \<and> (\<forall>t \<in> set seqs. length t = n) \<and> batch_tokens_ok has_native ad seqs
     \<and> list_all valid (concat (concat (batch_rows_of ad (contexts_for ad (length seqs)) seqs)))"

definition adapter_value ::
  "(bytes \<Rightarrow> 'f) \<Rightarrow> (rat \<Rightarrow> 'f \<Rightarrow> 'f) \<Rightarrow> ('f \<Rightarrow> 'f) \<Rightarrow> adapter \<Rightarrow> bool \<Rightarrow> nat \<Rightarrow> int list list \<Rightarrow> 'f tensor" where
  "adapter_value dec mul cv ad was_1d n seqs =
     \<lparr>t_shape = (if was_1d then [n, total_heads ad * dt_embedding_dim (na_table ad)]
                 else [length seqs, n, total_heads ad * dt_embedding_dim (na_table ad)]),
      t_data = map (mul (na_scale ad) \<circ> cv) (et_data dec (dt_itemsize (na_table ad))
        (concat (concat (batch_rows_of ad (contexts_for ad (length seqs)) seqs))))\<rparr>"

lemma adapter_output_value:
  assumes T: "torch_laws k dec mul T" and conv: "\<And>t. conv t = t\<lparr>t_data := map cv (t_data t)\<rparr>"
    and "was_1d \<Longrightarrow> b = 1"
  shows "adapter_output T conv ad was_1d \<lparr>t_shape = [b, n, h] @ [d], t_data = xs\<rparr>
    = \<lparr>t_shape = (if was_1d then [n, h * d] else [b, n, h * d]), t_data = map (mul (na_scale ad) \<circ> cv) xs\<rparr>"
  using assms(3) by (simp add: adapter_output_def torch_mul [OF T] conv flatten_last_def squeeze_first_def Let_def numeral_eq_Suc)

lemma adapter_forward_spec:
  assumes T: "torch_laws (dt_itemsize (na_table ad)) dec mul T"
    and conv: "\<And>t. conv t = t\<lparr>t_data := map cv (t_data t)\<rparr>"
    and inv: "adapter_inv ad" and env: "env_ok env"
    and ids: "batch_of ids = Inr (was_1d, seqs)" "was_1d \<Longrightarrow> length seqs = 1"
    and input: "batch_input_ok has_native ad n seqs"
  shows "\<exists>r t'. adapter_forward T conv fetch has_native env ids ad
      = (r, ad\<lparr>na_context := next_contexts ad (contexts_for ad (length seqs)) seqs @ drop (length seqs) (na_context ad),
               na_table := t'\<rparr>)
    \<and> table_inv t' \<and> same_config (na_table ad) t'
    \<and> (r = Inr (adapter_value dec mul cv ad was_1d n seqs) \<or> 0 < dt_cache_size (na_table ad) \<and> r = Inl KeyError)"
proof -
  let ?cs = "contexts_for ad (length seqs)" and ?t = "na_table ad"
  let ?rows = "batch_rows_of ad ?cs seqs"
  have ok: "adapter_ok ad" using inv by (simp add: adapter_inv_def)
  have n: "0 < n" "\<And>t. t \<in> set seqs \<Longrightarrow> length t = n" "seqs \<noteq> []" and toks: "batch_tokens_ok has_native ad seqs"
    and valid: "list_all valid (concat (concat ?rows))"
    using input by (auto simp: batch_input_ok_def)
  define x where "x = nested_tensor ?rows"
  have x: "t_shape x = [length seqs, n, total_heads ad]" "length (t_data x) = length seqs * n * total_heads ad"
      "t_data x = concat (concat ?rows)"
    using nested_tensor_batch [OF ok n(1,2,3), of ?cs] by (simp_all add: x_def nested_tensor_def)
  have "0 < length (t_data x)" using x(2) n inv by (simp add: adapter_inv_def)
  then have nz: "t_data x \<noteq> []" by simp
  have "prod_list (t_shape x) = length (t_data x)" unfolding x(1,2) by simp
  moreover have "list_all valid (t_data x)" unfolding x(3) by (rule valid)
  ultimately have batch: "batch_ok ?t x"
    using inv nz by (simp add: batch_ok_def adapter_inv_def)
  obtain r t' where f: "table_forward T fetch env x ?t = (r, t')" "table_inv t'" "same_config ?t t'"
      "r = Inr (forward_value dec ?t x) \<or> 0 < dt_cache_size ?t \<and> r = Inl KeyError"
    using forward_spec [OF T _ env batch] inv by (auto simp: adapter_inv_def)
  define ad' where "ad' = ad\<lparr>na_context := next_contexts ad ?cs seqs @ drop (length seqs) (na_context ad)\<rparr>"
  have out: "adapter_output T conv ad' was_1d (forward_value dec ?t x) = adapter_value dec mul cv ad was_1d n seqs"
    unfolding forward_value_def x(1)
    by (subst adapter_output_value [OF T conv]) (use ids(2) in \<open>simp_all add: adapter_value_def x(3) ad'_def\<close>)
  have "adapter_forward T conv fetch has_native env ids ad
      = (rmap (adapter_output T conv ad' was_1d) r, ad'\<lparr>na_table := t'\<rparr>)"
    using ids(1) adapter_loop_grown [OF ok toks] f(1) by (simp add: adapter_forward_def x_def ad'_def)
  then show ?thesis using f out by (auto simp: ad'_def)
qed

lemma adapter_prefetch_spec:
  assumes inv: "adapter_inv ad" and ids: "batch_of ids = Inr (was_1d, seqs)"
    and input: "batch_input_ok has_native ad n seqs"
  shows "\<exists>r t'. adapter_prefetch has_native ids ad = (r, (grow_context (length seqs) ad)\<lparr>na_table := t'\<rparr>)
    \<and> table_inv t' \<and> dt_embedding_dim t' = dt_embedding_dim (na_table ad)
    \<and> dt_itemsize t' = dt_itemsize (na_table ad) \<and> dt_cache_size t' = dt_cache_size (na_table ad)"
proof -
  let ?cs = "contexts_for ad (length seqs)" and ?g = "grow_context (length seqs) ad"
  have "rows_for has_native ?g (seqs ! b) (na_context ?g ! b) = Inr (adapter_rows ad (?cs ! b) (seqs ! b))"
    if "b < length seqs" for b
  proof -
    have "(?cs ! b, seqs ! b) \<in> set (zip ?cs seqs)" using that by (auto simp: set_zip)
    then have "tokens_ok has_native ad (?cs ! b @ seqs ! b)"
      using input by (auto simp: batch_input_ok_def batch_tokens_ok_def)
    moreover have "na_context ?g ! b = ?cs ! b" using that by (simp add: contexts_for_def)
    ultimately show ?thesis
      using inv rows_for_rows [of ?g has_native "?cs ! b" "seqs ! b"] by (simp add: adapter_inv_def)
  qed
  then have "rmapM (\<lambda>b. rows_for has_native ?g (seqs ! b) (na_context ?g ! b)) [0..<length seqs]
      = Inr (map (\<lambda>b. adapter_rows ad (?cs ! b) (seqs ! b)) [0..<length seqs])"
    by (intro rmapM_Inr) simp
  also have "map (\<lambda>b. adapter_rows ad (?cs ! b) (seqs ! b)) [0..<length seqs] = batch_rows_of ad ?cs seqs"
    by (rule nth_equalityI) (simp_all add: batch_rows_of_def)
  finally have run: "adapter_prefetch has_native ids ad
      = (fst (table_prefetch (concat (concat (batch_rows_of ad ?cs seqs))) (na_table ad)),
         ?g\<lparr>na_table := snd (table_prefetch (concat (concat (batch_rows_of ad ?cs seqs))) (na_table ad))\<rparr>)"
    using ids by (simp add: adapter_prefetch_def Let_def case_prod_beta)
  have "table_inv (snd (table_prefetch (concat (concat (batch_rows_of ad ?cs seqs))) (na_table ad)))"
    using inv input by (intro prefetch_inv) (simp_all add: adapter_inv_def batch_input_ok_def)
  with run show ?thesis by (intro exI conjI) (assumption | simp)+
qed

text \<open>A single sequence, as a one-dimensional input.\<close>

definition row_elements :: "(bytes \<Rightarrow> 'f) \<Rightarrow> (rat \<Rightarrow> 'f \<Rightarrow> 'f) \<Rightarrow> ('f \<Rightarrow> 'f) \<Rightarrow> adapter \<Rightarrow> int list list \<Rightarrow> 'f list" where
  "row_elements dec mul cv ad rows =
     map (mul (na_scale ad) \<circ> cv) (et_data dec (dt_itemsize (na_table ad)) (concat rows))"

lemma row_elements_append:
  "row_elements dec mul cv ad (xs @ ys) = row_elements dec mul cv ad xs @ row_elements dec mul cv ad ys"
  by (simp add: row_elements_def et_data_def)

definition seq_ok :: "bool \<Rightarrow> adapter \<Rightarrow> int list \<Rightarrow> int list \<Rightarrow> bool" where
  "seq_ok has_native ad c t \<longleftrightarrow>
     t \<noteq> [] \<and> tokens_ok has_native ad (c @ t) \<and> list_all valid (concat (adapter_rows ad c t))"

lemma seq_ok_batch:
  "contexts_for ad 1 = [c] \<Longrightarrow> seq_ok has_native ad c t \<Longrightarrow> batch_input_ok has_native ad (length t) [t]"
  by (simp add: seq_ok_def batch_input_ok_def batch_tokens_ok_def batch_rows_of_def)

lemma adapter_forward_single:
  assumes "torch_laws (dt_itemsize (na_table ad)) dec mul T" "\<And>t. conv t = t\<lparr>t_data := map cv (t_data t)\<rparr>"
    and inv: "adapter_inv ad" and "env_ok env" and c: "contexts_for ad 1 = [c]" and t: "seq_ok has_native ad c t"
  shows "\<exists>r t'. adapter_forward T conv fetch has_native env \<lparr>t_shape = [length t], t_data = t\<rparr> ad
      = (r, ad\<lparr>na_context := tail_slice (na_ngram_size ad - 1) (c @ t) # drop 1 (na_context ad), na_table := t'\<rparr>)
    \<and> table_inv t' \<and> same_config (na_table ad) t'
    \<and> (\<forall>x. r = Inr x \<longrightarrow> t_data x = row_elements dec mul cv ad (adapter_rows ad c t))
    \<and> ((\<exists>x. r = Inr x) \<or> 0 < dt_cache_size (na_table ad) \<and> r = Inl KeyError)"
proof -
  have "batch_of \<lparr>t_shape = [length t], t_data = t\<rparr> = Inr (True, [t])" by (simp add: batch_of_def)
  from adapter_forward_spec [OF assms(1-4) this _ seq_ok_batch [OF c t]] c show ?thesis
    by (fastforce simp: adapter_value_def batch_rows_of_def next_contexts_def row_elements_def)
qed

lemma adapter_streaming:
  assumes T: "torch_laws (dt_itemsize (na_table ad)) dec mul T" and conv: "\<And>t. conv t = t\<lparr>t_data := map cv (t_data t)\<rparr>"
    and inv: "adapter_inv ad" and env: "env_ok env" "env_ok env'" "env_ok env''"
    and c: "contexts_for ad 1 = [c]" and t: "seq_ok has_native ad c (t1 @ t2)" "t1 \<noteq> []" "t2 \<noteq> []"
    and run: "adapter_forward T conv fetch has_native env \<lparr>t_shape = [length t1], t_data = t1\<rparr> ad = (r1, ad1)"
      "adapter_prefetch has_native \<lparr>t_shape = [length t2], t_data = t2\<rparr> ad1 = (p, ad2)"
      "adapter_forward T conv fetch has_native env' \<lparr>t_shape = [length t2], t_data = t2\<rparr> ad2 = (r2, ad3)"
      "adapter_forward T conv fetch has_native env'' \<lparr>t_shape = [length (t1 @ t2)], t_data = t1 @ t2\<rparr> ad = (r, ad4)"
  shows "(\<forall>x1 x2 x. r1 = Inr x1 \<longrightarrow> r2 = Inr x2 \<longrightarrow> r = Inr x \<longrightarrow> t_data x = t_data x1 @ t_data x2)
    \<and> ((\<exists>x1 x2 x. r1 = Inr x1 \<and> r2 = Inr x2 \<and> r = Inr x) \<or> 0 < dt_cache_size (na_table ad) \<and> Inl KeyError \<in> {r1, r2, r})"
proof -
  have ok: "adapter_ok ad" using inv by (simp add: adapter_inv_def)
  have rows: "adapter_rows ad c (t1 @ t2) = adapter_rows ad c t1 @ adapter_rows ad (c @ t1) t2" by (rule rows_after_append)
  define c1 where "c1 = tail_slice (na_ngram_size ad - 1) (c @ t1)"
  have rows1: "adapter_rows ad c1 t2 = adapter_rows ad (c @ t1) t2" unfolding c1_def by (rule tail_context [OF ok])
  have ok1: "seq_ok has_native ad c t1" using t rows by (auto simp: seq_ok_def tokens_ok_def)
  have "set c1 \<subseteq> set (c @ t1)"
    by (auto simp: c1_def tail_slice_def last_n_def split: if_splits dest: in_set_dropD)
  then have ok2: "seq_ok has_native ad c1 t2" using t rows rows1 by (auto simp: seq_ok_def tokens_ok_def)
  obtain tb1 where ad1: "ad1 = ad\<lparr>na_context := c1 # drop 1 (na_context ad), na_table := tb1\<rparr>" "table_inv tb1"
      "same_config (na_table ad) tb1"
    and x1: "\<And>x1. r1 = Inr x1 \<Longrightarrow> t_data x1 = row_elements dec mul cv ad (adapter_rows ad c t1)"
      "(\<exists>x1. r1 = Inr x1) \<or> 0 < dt_cache_size (na_table ad) \<and> r1 = Inl KeyError"
    using adapter_forward_single [OF T conv inv env(1) c ok1] run(1) by (auto simp: c1_def)
  have inv1: "adapter_inv ad1" using inv ad1
    by (auto simp: adapter_inv_def adapter_ok_def standard_ok_def total_heads_def same_config_def)
  have c1: "contexts_for ad1 1 = [c1]" by (simp add: ad1(1) contexts_for_def grow_context_def)
  have s1: "seq_ok has_native ad1 c1 t2" using ok2 by (simp add: ad1(1) seq_ok_def tokens_ok_def)
  have b2: "batch_of \<lparr>t_shape = [length t2], t_data = t2\<rparr> = Inr (True, [t2])" by (simp add: batch_of_def)
  obtain tb2 where ad2: "ad2 = (grow_context 1 ad1)\<lparr>na_table := tb2\<rparr>" "table_inv tb2"
      "dt_embedding_dim tb2 = dt_embedding_dim tb1" "dt_itemsize tb2 = dt_itemsize tb1"
      and size2: "dt_cache_size tb2 = dt_cache_size tb1"
    using adapter_prefetch_spec [OF inv1 b2 seq_ok_batch [OF c1 s1]] run(2)
    by (auto simp: ad1(1))
  have grown: "grow_context 1 ad1 = ad1" by (simp add: ad1(1) grow_context_def)
  have ad2': "ad2 = ad1\<lparr>na_table := tb2\<rparr>" using ad2(1) grown by simp
  have items: "dt_itemsize tb2 = dt_itemsize (na_table ad)"
    using ad2(4) ad1(3) by (simp add: same_config_def)
  have inv2: "adapter_inv ad2" using inv1 ad2(2-4)
    by (auto simp: ad2' ad1(1) adapter_inv_def adapter_ok_def standard_ok_def total_heads_def)
  have c2: "contexts_for ad2 1 = [c1]" by (simp add: ad2' ad1(1) contexts_for_def grow_context_def)
  have T2: "torch_laws (dt_itemsize (na_table ad2)) dec mul T" using T items by (simp add: ad2')
  have "seq_ok has_native ad2 c1 t2" using ok2 by (simp add: ad2' ad1(1) seq_ok_def tokens_ok_def)
  note two = adapter_forward_single [OF T2 conv inv2 env(2) c2 this]
  have x2: "t_data x2 = row_elements dec mul cv ad (adapter_rows ad (c @ t1) t2)" if "r2 = Inr x2" for x2
  proof -
    have "t_data x2 = row_elements dec mul cv ad2 (adapter_rows ad2 c1 t2)" using two run(3) that by auto
    then show ?thesis using rows1 items by (simp add: ad2' ad1(1) row_elements_def)
  qed
  have "(\<exists>x2. r2 = Inr x2) \<or> 0 < dt_cache_size (na_table ad) \<and> r2 = Inl KeyError"
    using two run(3) size2 ad1(3) by (auto simp: ad2' same_config_def)
  moreover have "(\<exists>x. r = Inr x) \<or> 0 < dt_cache_size (na_table ad) \<and> r = Inl KeyError"
      "\<And>x. r = Inr x \<Longrightarrow> t_data x = row_elements dec mul cv ad (adapter_rows ad c (t1 @ t2))"
    using adapter_forward_single [OF T conv inv env(3) c t(1)] run(4) by auto
  moreover note x1 x2
  ultimately show ?thesis by (auto simp: rows row_elements_append)
qed

end

section \<open>Properties\<close>

text \<open>
  C11: the module over a batch of sequences of one positive length: row \<open>b\<close> is addressed by the
  n-gram hash in its own context, the elements are the decoded, converted and scaled rows in
  order, the heads of a token are flattened into one vector, and a one-dimensional input gives a
  result without the batch dimension.  The native and the Python row ids are interchangeable,
  and with the row cache off the call always returns.
\<close>

theorem adapter_forward_functional:
  assumes "torch_laws (dt_itemsize (na_table ad)) dec mul T" "\<And>t. conv t = t\<lparr>t_data := map cv (t_data t)\<rparr>"
    and "native.adapter_inv s ad" "env_ok env"
    and "batch_of ids = Inr (was_1d, seqs)" "was_1d \<Longrightarrow> length seqs = 1"
    and "native.batch_input_ok s has_native ad n seqs"
  shows "fst (adapter_forward T conv (store_fetch s) has_native env ids ad)
    \<in> {Inr \<lparr>t_shape = (if was_1d then [n, total_heads ad * dt_embedding_dim (na_table ad)]
                  else [length seqs, n, total_heads ad * dt_embedding_dim (na_table ad)]),
           t_data = map (mul (na_scale ad) \<circ> cv)
             (concat (map (\<lambda>r. map dec (chunks (dt_itemsize (na_table ad)) (store_row s r)))
               (concat (concat (batch_rows_of ad (contexts_for ad (length seqs)) seqs)))))\<rparr>}
      \<union> (if dt_cache_size (na_table ad) \<le> 0 then {} else {Inl KeyError})"
  using native.adapter_forward_spec [OF assms]
  by (auto simp: native.adapter_value_def native.et_data_def)

definition demo_adapter_args :: adapter_args where
  "demo_adapter_args = default_adapter_args\<lparr>aa_num_embeddings := Some 4, aa_embedding_dim := 4,
     aa_layer_multipliers := Some [1, 3], aa_cache_size := 0, aa_eos := 0, aa_prime_sizes := Some [2, 2],
     aa_offsets := Some [0, 2], aa_ngram_size := 2, aa_heads_per_ngram := 2, aa_scale := 2\<rparr>"

definition demo_adapter :: adapter where
  "demo_adapter = \<lparr>na_prime_sizes = [2, 2], na_head_offsets = [0, 2], na_ngram_size = 2, na_heads_per_ngram = 2,
     na_num_embeddings = 4, na_embedding_dim = 4, na_head_dim = 2, na_multipliers = [1, 3], na_scale = 2,
     na_eos = 0, na_divisor = PLE_DIVISOR, na_native_standard = False,
     na_table = disk_table_init 4 2 1 0 False, na_context = []\<rparr>"

lemma demo_adapter_init: "adapter_init demo_adapter_args = Inr demo_adapter"
  by (simp add: adapter_init_def demo_adapter_args_def default_adapter_args_def demo_adapter_def
      DEFAULT_MULTIPLIERS_def py_div_def)

lemma demo_adapter_ok: "adapter_ok demo_adapter"
  by (simp add: adapter_ok_def standard_ok_def ple_params_ok_def demo_adapter_def)

lemma demo_adapter_inv: "native.adapter_inv demo_store demo_adapter"
  unfolding native.adapter_inv_def using demo_adapter_ok native.table_inv_init [of 2 1 demo_store 4 0 False]
  by (simp add: demo_adapter_def total_heads_def disk_table_init_def)

lemma demo_adapter_context: "contexts_for demo_adapter 1 = [[0]]"
  by (simp add: contexts_for_def grow_context_def fresh_context_def demo_adapter_def)

lemma demo_adapter_rows: "adapter_rows demo_adapter [0] [5, 6] = [[1, 3], [1, 3]]"
  by code_simp

lemma demo_seq_ok: "native.seq_ok demo_store True demo_adapter [0] ([5] @ [6])"
  unfolding native.seq_ok_def using demo_adapter_rows by (simp add: tokens_ok_def demo_adapter_def)

theorem adapter_forward_functional_witness:
  "fst (adapter_forward (list_torch uint (\<lambda>c x. 2 * x)) (\<lambda>t. t) (store_fetch demo_store) True (\<lambda>i. NotYet)
      \<lparr>t_shape = [2], t_data = [5, 6]\<rparr> demo_adapter)
   \<in> {Inr \<lparr>t_shape = (if True then [2, total_heads demo_adapter * dt_embedding_dim (na_table demo_adapter)]
                else [length [[5, 6 :: int]], 2, total_heads demo_adapter * dt_embedding_dim (na_table demo_adapter)]),
        t_data = map ((\<lambda>x. 2 * x) \<circ> (\<lambda>x. x))
          (concat (map (\<lambda>r. map (\<lambda>bs. uint (hd bs)) (chunks (dt_itemsize (na_table demo_adapter)) (store_row demo_store r)))
            (concat (concat (batch_rows_of demo_adapter (contexts_for demo_adapter (length [[5, 6 :: int]])) [[5, 6]])))))\<rparr>}
     \<union> (if dt_cache_size (na_table demo_adapter) \<le> 0 then {} else {Inl KeyError})"
  using adapter_forward_functional [where ad = demo_adapter and dec = "\<lambda>bs. uint (hd bs)" and mul = "\<lambda>c x. 2 * x"
      and T = "list_torch uint (\<lambda>c x. 2 * x)" and conv = "\<lambda>t. t" and cv = "\<lambda>x. x" and s = demo_store
      and env = "\<lambda>i. NotYet" and ids = "\<lparr>t_shape = [2], t_data = [5, 6]\<rparr>" and was_1d = True
      and seqs = "[[5, 6]]" and has_native = True and n = 2]
    native.seq_ok_batch [OF demo_adapter_context demo_seq_ok] list_torch_laws [of uint "\<lambda>c x. 2 * x"] demo_adapter_inv
  by (simp add: batch_of_def env_ok_def demo_adapter_def disk_table_init_def numeral_2_eq_2)

text \<open>
  C18: streaming is not observable: feeding a sequence in two parts, with a background prefetch of the second part in
  between and any timing of the reads, returns the elements that one call on the whole sequence returns. With the row
  cache off the three calls always return; with it on, as by default, the only other outcome is that one of the three
  raises \<open>KeyError\<close> (\<open>disk_forward_rows\<close> says when, \<open>warm_lookup_evicts\<close> shows that it can).
\<close>

theorem adapter_streaming_equiv:
  assumes "torch_laws (dt_itemsize (na_table ad)) dec mul T" "\<And>t. conv t = t\<lparr>t_data := map cv (t_data t)\<rparr>"
    and "native.adapter_inv s ad" "env_ok env" "env_ok env'" "env_ok env''"
    and "contexts_for ad 1 = [c]" "native.seq_ok s has_native ad c (t1 @ t2)" "t1 \<noteq> []" "t2 \<noteq> []"
    and "adapter_forward T conv (store_fetch s) has_native env \<lparr>t_shape = [length t1], t_data = t1\<rparr> ad = (r1, ad1)"
    and "adapter_prefetch has_native \<lparr>t_shape = [length t2], t_data = t2\<rparr> ad1 = (p, ad2)"
    and "adapter_forward T conv (store_fetch s) has_native env' \<lparr>t_shape = [length t2], t_data = t2\<rparr> ad2 = (r2, ad3)"
    and "adapter_forward T conv (store_fetch s) has_native env'' \<lparr>t_shape = [length (t1 @ t2)], t_data = t1 @ t2\<rparr> ad = (r, ad4)"
  shows "(\<exists>x1 x2 x. r1 = Inr x1 \<and> r2 = Inr x2 \<and> r = Inr x \<and> t_data x = t_data x1 @ t_data x2)
    \<or> 0 < dt_cache_size (na_table ad) \<and> Inl KeyError \<in> {r1, r2, r}"
  using native.adapter_streaming [OF assms] by blast

theorem adapter_streaming_equiv_witness:
  "\<exists>x1 x2 x.
      fst (adapter_forward (list_torch uint (\<lambda>c x. x)) (\<lambda>t. t) (store_fetch demo_store) True (\<lambda>i. NotYet)
        \<lparr>t_shape = [length [5 :: int]], t_data = [5]\<rparr> demo_adapter) = Inr x1
    \<and> fst (adapter_forward (list_torch uint (\<lambda>c x. x)) (\<lambda>t. t) (store_fetch demo_store) True (\<lambda>i. Late (Some OSError))
        \<lparr>t_shape = [length [6 :: int]], t_data = [6]\<rparr>
        (snd (adapter_prefetch True \<lparr>t_shape = [length [6 :: int]], t_data = [6]\<rparr>
          (snd (adapter_forward (list_torch uint (\<lambda>c x. x)) (\<lambda>t. t) (store_fetch demo_store) True (\<lambda>i. NotYet)
            \<lparr>t_shape = [length [5 :: int]], t_data = [5]\<rparr> demo_adapter))))) = Inr x2
    \<and> fst (adapter_forward (list_torch uint (\<lambda>c x. x)) (\<lambda>t. t) (store_fetch demo_store) True (\<lambda>i. NotYet)
        \<lparr>t_shape = [length ([5] @ [6 :: int])], t_data = [5] @ [6]\<rparr> demo_adapter) = Inr x
    \<and> t_data x = t_data x1 @ t_data x2"
proof -
  let ?T = "list_torch uint (\<lambda>c x. x :: int)"
  have T: "torch_laws (dt_itemsize (na_table demo_adapter)) (\<lambda>bs. uint (hd bs)) (\<lambda>c x. x) ?T"
    using list_torch_laws [of uint "\<lambda>c x. x"] by (simp add: demo_adapter_def disk_table_init_def)
  have conv: "t = t\<lparr>t_data := map (\<lambda>x. x) (t_data t)\<rparr>" for t :: "int tensor" by simp
  have env: "env_ok (\<lambda>i. NotYet)" "env_ok (\<lambda>i. Late (Some OSError))" by (simp_all add: env_ok_def catchable_def)
  have off: "\<not> 0 < dt_cache_size (na_table demo_adapter)" by (simp add: demo_adapter_def disk_table_init_def)
  note collapse = prod.collapse [symmetric]
  from adapter_streaming_equiv [OF T conv demo_adapter_inv env(1,2,1) demo_adapter_context demo_seq_ok _ _
      collapse collapse collapse collapse] off
  show ?thesis by blast
qed

end
