(* ===== verification/Pool.thy ===== *)
theory Pool
  imports Prelude "HOL-Library.Multiset"
begin

text \<open>
  \<open>python/engramdb/pool.py\<close>: \<open>StorePool\<close> and \<open>ThreadLocalStore\<close>.

  A handle is the number under which \<open>_open\<close> created it; \<open>close()\<close> on a handle is recorded in
  \<open>po_shut\<close>.  The first part gives every method as a function that runs alone, where a call that would
  block returns \<open>None\<close>; the second part is the program with threads: a step relation in which every
  check, queue operation and counter update of \<open>acquire\<close>, \<open>release\<close> and \<open>close\<close> is a step of its own.
  Wait times are not modelled.
\<close>

section \<open>The pool\<close>

record pool_stats =
  ps_acquires :: nat
  ps_releases :: nat
  ps_waits :: nat
  ps_borrowed :: nat

record pool =
  po_size :: nat
  po_queue :: "nat list"
  po_all :: "nat list"
  po_stats :: pool_stats
  po_closed :: bool
  po_current :: "nat option"
  po_shut :: "nat set"

text \<open>The loop of the constructor: every new handle is put on the LIFO queue.\<close>

definition pool_open :: "pool \<Rightarrow> nat \<times> pool" where
  "pool_open p = (let h = length (po_all p) in (h, p\<lparr>po_all := po_all p @ [h]\<rparr>))"

fun pool_fill :: "nat \<Rightarrow> pool \<Rightarrow> pool" where
  "pool_fill 0 p = p"
| "pool_fill (Suc n) p = (case pool_open p of (h, p) \<Rightarrow> pool_fill n (p\<lparr>po_queue := h # po_queue p\<rparr>))"

definition pool_init :: "int \<Rightarrow> pool" where
  "pool_init pool_size =
     (let size = nat (max 1 pool_size)
      in pool_fill size \<lparr>po_size = size, po_queue = [], po_all = [],
           po_stats = \<lparr>ps_acquires = 0, ps_releases = 0, ps_waits = 0, ps_borrowed = 0\<rparr>,
           po_closed = False, po_current = None, po_shut = {}\<rparr>)"

definition queue_get :: "pool \<Rightarrow> (nat \<times> pool) option" where
  "queue_get p = (case po_queue p of [] \<Rightarrow> None | h # q \<Rightarrow> Some (h, p\<lparr>po_queue := q\<rparr>))"

definition queue_put :: "nat \<Rightarrow> pool \<Rightarrow> pool option" where
  "queue_put h p = (if length (po_queue p) < po_size p then Some (p\<lparr>po_queue := h # po_queue p\<rparr>) else None)"

definition count_acquire :: "bool \<Rightarrow> pool \<Rightarrow> pool" where
  "count_acquire waited p =
     (let s = po_stats p
      in p\<lparr>po_stats := s\<lparr>ps_acquires := ps_acquires s + 1, ps_borrowed := ps_borrowed s + 1,
           ps_waits := (if waited then ps_waits s + 1 else ps_waits s)\<rparr>\<rparr>)"

definition count_release :: "pool \<Rightarrow> pool" where
  "count_release p =
     (let s = po_stats p
      in p\<lparr>po_stats := s\<lparr>ps_releases := ps_releases s + 1, ps_borrowed := ps_borrowed s - 1\<rparr>\<rparr>)"

definition shut_handle :: "nat \<Rightarrow> pool \<Rightarrow> pool" where
  "shut_handle h p = p\<lparr>po_shut := insert h (po_shut p)\<rparr>"

text \<open>\<open>acquire\<close> alone: with no idle handle it waits for a release that cannot come.\<close>

definition pool_acquire :: "pool \<Rightarrow> (nat res \<times> pool) option" where
  "pool_acquire p =
     (if po_closed p then Some (Inl RuntimeError, p)
      else case queue_get p of None \<Rightarrow> None | Some (h, p) \<Rightarrow> Some (Inr h, count_acquire False p))"

definition pool_release :: "nat \<Rightarrow> pool \<Rightarrow> pool option" where
  "pool_release h p =
     (if po_closed p then Some (shut_handle h p) else map_option count_release (queue_put h p))"

definition pool_get_stats :: "pool \<Rightarrow> pool_stats" where
  "pool_get_stats p = po_stats p"

definition pool_enter :: "pool \<Rightarrow> (nat res \<times> pool) option" where
  "pool_enter p =
     (case pool_acquire p of
        None \<Rightarrow> None
      | Some (Inl e, p) \<Rightarrow> Some (Inl e, p)
      | Some (Inr h, p) \<Rightarrow> Some (Inr h, p\<lparr>po_current := Some h\<rparr>))"

definition pool_exit :: "pool \<Rightarrow> pool option" where
  "pool_exit p =
     (case po_current p of
        None \<Rightarrow> Some p
      | Some h \<Rightarrow> map_option (\<lambda>p. p\<lparr>po_current := None\<rparr>) (pool_release h p))"

fun drain :: "nat list \<Rightarrow> pool \<Rightarrow> pool" where
  "drain [] p = p"
| "drain (h # q) p = drain q (shut_handle h p\<lparr>po_queue := q\<rparr>)"

definition shut_all :: "pool \<Rightarrow> pool" where
  "shut_all p = p\<lparr>po_shut := po_shut p \<union> set (po_all p), po_all := []\<rparr>"

definition pool_close :: "pool \<Rightarrow> pool" where
  "pool_close p =
     (if po_closed p then p
      else let p = p\<lparr>po_closed := True\<rparr> in shut_all (drain (po_queue p) p))"

section \<open>\<open>ThreadLocalStore\<close>\<close>

record 't local_store =
  tl_pool :: pool
  tl_store :: "'t \<Rightarrow> nat option"

definition local_get :: "'t \<Rightarrow> 't local_store \<Rightarrow> (nat res \<times> 't local_store) option" where
  "local_get t l =
     (case tl_store l t of
        Some h \<Rightarrow> Some (Inr h, l)
      | None \<Rightarrow> (case pool_acquire (tl_pool l) of
          None \<Rightarrow> None
        | Some (Inl e, p) \<Rightarrow> Some (Inl e, l\<lparr>tl_pool := p\<rparr>)
        | Some (Inr h, p) \<Rightarrow> Some (Inr h, l\<lparr>tl_pool := p, tl_store := (tl_store l)(t := Some h)\<rparr>)))"

definition local_release_current :: "'t \<Rightarrow> 't local_store \<Rightarrow> 't local_store option" where
  "local_release_current t l =
     (case tl_store l t of
        None \<Rightarrow> Some l
      | Some h \<Rightarrow> map_option (\<lambda>p. l\<lparr>tl_pool := p, tl_store := (tl_store l)(t := None)\<rparr>) (pool_release h (tl_pool l)))"

definition local_close :: "'t \<Rightarrow> 't local_store \<Rightarrow> 't local_store option" where
  "local_close t l = map_option (\<lambda>l. l\<lparr>tl_pool := pool_close (tl_pool l)\<rparr>) (local_release_current t l)"

section \<open>Threads\<close>

text \<open>
  Where a thread is inside the methods of the pool.  \<open>Taken h waited\<close>: a handle is off the queue and
  not counted yet; \<open>Returning h\<close>: \<open>release\<close> has seen the pool open; \<open>Closing\<close>: the pool is marked
  closed and the thread waits for the lock; \<open>Draining\<close>: it holds the lock.
\<close>

datatype pc = Idle | Checked | Blocked | Taken nat bool | Returning nat | Returned | CloseChecked | Closing | Draining

record 't sys =
  sy_pool :: pool
  sy_pc :: "'t \<Rightarrow> pc"
  sy_held :: "'t \<Rightarrow> nat list"
  sy_lock :: "'t option"

definition sys_init :: "int \<Rightarrow> 't sys" where
  "sys_init pool_size = \<lparr>sy_pool = pool_init pool_size, sy_pc = (\<lambda>t. Idle), sy_held = (\<lambda>t. []), sy_lock = None\<rparr>"

abbreviation at_pc :: "'t sys \<Rightarrow> 't \<Rightarrow> pc \<Rightarrow> 't sys" where
  "at_pc s t c \<equiv> s\<lparr>sy_pc := (sy_pc s)(t := c)\<rparr>"

text \<open>A thread gives back only a handle it holds.\<close>

inductive pool_step :: "'t sys \<Rightarrow> 't sys \<Rightarrow> bool" where
  check: "sy_pc s t = Idle \<Longrightarrow> \<not> po_closed (sy_pool s) \<Longrightarrow> pool_step s (at_pc s t Checked)"
| take: "sy_pc s t = Checked \<Longrightarrow> queue_get (sy_pool s) = Some (h, p) \<Longrightarrow>
    pool_step s (at_pc (s\<lparr>sy_pool := p\<rparr>) t (Taken h False))"
| block: "sy_pc s t = Checked \<Longrightarrow> queue_get (sy_pool s) = None \<Longrightarrow> pool_step s (at_pc s t Blocked)"
| wake: "sy_pc s t = Blocked \<Longrightarrow> queue_get (sy_pool s) = Some (h, p) \<Longrightarrow>
    pool_step s (at_pc (s\<lparr>sy_pool := p\<rparr>) t (Taken h True))"
| count: "sy_pc s t = Taken h waited \<Longrightarrow>
    pool_step s (at_pc (s\<lparr>sy_pool := count_acquire waited (sy_pool s), sy_held := (sy_held s)(t := h # sy_held s t)\<rparr>) t Idle)"
| give: "sy_pc s t = Idle \<Longrightarrow> h \<in> set (sy_held s t) \<Longrightarrow> \<not> po_closed (sy_pool s) \<Longrightarrow>
    pool_step s (at_pc (s\<lparr>sy_held := (sy_held s)(t := remove1 h (sy_held s t))\<rparr>) t (Returning h))"
| give_closed: "sy_pc s t = Idle \<Longrightarrow> h \<in> set (sy_held s t) \<Longrightarrow> po_closed (sy_pool s) \<Longrightarrow>
    pool_step s (s\<lparr>sy_pool := shut_handle h (sy_pool s), sy_held := (sy_held s)(t := remove1 h (sy_held s t))\<rparr>)"
| put: "sy_pc s t = Returning h \<Longrightarrow> queue_put h (sy_pool s) = Some p \<Longrightarrow>
    pool_step s (at_pc (s\<lparr>sy_pool := p\<rparr>) t Returned)"
| count_release: "sy_pc s t = Returned \<Longrightarrow>
    pool_step s (at_pc (s\<lparr>sy_pool := count_release (sy_pool s)\<rparr>) t Idle)"
| close_check: "sy_pc s t = Idle \<Longrightarrow> \<not> po_closed (sy_pool s) \<Longrightarrow> pool_step s (at_pc s t CloseChecked)"
| close_mark: "sy_pc s t = CloseChecked \<Longrightarrow>
    pool_step s (at_pc (s\<lparr>sy_pool := (sy_pool s)\<lparr>po_closed := True\<rparr>\<rparr>) t Closing)"
| close_lock: "sy_pc s t = Closing \<Longrightarrow> sy_lock s = None \<Longrightarrow> pool_step s (at_pc (s\<lparr>sy_lock := Some t\<rparr>) t Draining)"
| drain_one: "sy_pc s t = Draining \<Longrightarrow> queue_get (sy_pool s) = Some (h, p) \<Longrightarrow>
    pool_step s (s\<lparr>sy_pool := shut_handle h p\<rparr>)"
| drain_end: "sy_pc s t = Draining \<Longrightarrow> queue_get (sy_pool s) = None \<Longrightarrow>
    pool_step s (at_pc (s\<lparr>sy_pool := shut_all (sy_pool s), sy_lock := None\<rparr>) t Idle)"

inductive pool_run :: "'t sys \<Rightarrow> 't sys \<Rightarrow> bool" where
  refl: "pool_run s s"
| step: "pool_run s s' \<Longrightarrow> pool_step s' s'' \<Longrightarrow> pool_run s s''"

inductive_cases pool_stepE: "pool_step s s'"

lemma pool_run_trans: "pool_run s' s'' \<Longrightarrow> pool_run s s' \<Longrightarrow> pool_run s s''"
  by (induction rule: pool_run.induct) (auto intro: pool_run.step)

lemma pool_run_one: "pool_step s s' \<Longrightarrow> pool_run s s'"
  by (rule pool_run.step [OF pool_run.refl])

section \<open>The invariant\<close>

text \<open>The handles a thread has: those it holds and the one it is taking or returning.\<close>

definition moving :: "pc \<Rightarrow> nat list" where
  "moving c = (case c of Taken h w \<Rightarrow> [h] | Returning h \<Rightarrow> [h] | _ \<Rightarrow> [])"

definition handles :: "'t sys \<Rightarrow> 't \<Rightarrow> nat list" where
  "handles s t = moving (sy_pc s t) @ sy_held s t"

definition handles_inv :: "pool \<Rightarrow> ('t \<Rightarrow> nat list) \<Rightarrow> bool" where
  "handles_inv p H \<longleftrightarrow>
     distinct (po_queue p)
     \<and> (\<forall>t. distinct (H t) \<and> set (H t) \<inter> set (po_queue p) = {})
     \<and> (\<forall>t u. t \<noteq> u \<longrightarrow> set (H t) \<inter> set (H u) = {})
     \<and> set (po_queue p) \<union> (\<Union>t. set (H t)) \<union> po_shut p = {..<po_size p}
     \<and> set (po_all p) \<subseteq> {..<po_size p}
     \<and> (\<not> po_closed p \<longrightarrow> po_shut p = {})"

text \<open>Only a closing thread is past the mark, and then the pool is closed.\<close>

definition pool_inv :: "'t sys \<Rightarrow> bool" where
  "pool_inv s \<longleftrightarrow> handles_inv (sy_pool s) (handles s)
     \<and> (\<forall>t. sy_pc s t \<in> {Closing, Draining} \<longrightarrow> po_closed (sy_pool s))"

lemma pool_fill_spec:
  assumes "po_queue p = rev [0..<n]" "po_all p = [0..<n]"
  shows "pool_fill k p = p\<lparr>po_queue := rev [0..<n + k], po_all := [0..<n + k]\<rparr>"
  using assms
proof (induction k arbitrary: n p)
  case (Suc k)
  define p' where "p' = p\<lparr>po_all := [0..<Suc n], po_queue := rev [0..<Suc n]\<rparr>"
  have "pool_fill (Suc k) p = pool_fill k p'"
    using Suc.prems by (simp add: pool_open_def p'_def)
  also have "\<dots> = p'\<lparr>po_queue := rev [0..<Suc n + k], po_all := [0..<Suc n + k]\<rparr>"
    by (rule Suc.IH) (simp_all add: p'_def)
  finally show ?case by (simp add: p'_def)
qed simp

lemma pool_init_closed_form:
  "pool_init k = \<lparr>po_size = nat (max 1 k), po_queue = rev [0..<nat (max 1 k)], po_all = [0..<nat (max 1 k)],
     po_stats = \<lparr>ps_acquires = 0, ps_releases = 0, ps_waits = 0, ps_borrowed = 0\<rparr>,
     po_closed = False, po_current = None, po_shut = {}\<rparr>"
  unfolding pool_init_def Let_def by (subst pool_fill_spec [where n = 0]) simp_all

lemma pool_inv_init: "pool_inv (sys_init k)"
  by (auto simp: pool_inv_def handles_inv_def sys_init_def pool_init_closed_form handles_def moving_def)

lemmas pool_ops = queue_get_def queue_put_def count_acquire_def count_release_def shut_handle_def shut_all_def Let_def

text \<open>How the handles move.\<close>

lemma handles_inv_cong:
  assumes "handles_inv p H" "po_queue p' = po_queue p" "po_size p' = po_size p" "po_shut p' = po_shut p"
    "po_all p' = po_all p" "po_closed p \<longrightarrow> po_closed p'" "\<And>t. mset (H' t) = mset (H t)"
  shows "handles_inv p' H'"
proof -
  have "set (H' t) = set (H t)" "distinct (H' t) = distinct (H t)" for t
    using assms(7) [of t] by (auto dest: mset_eq_setD mset_eq_imp_distinct_iff)
  moreover have "\<not> po_closed p' \<longrightarrow> po_shut p = {}" using assms(1,6) by (auto simp: handles_inv_def)
  ultimately show ?thesis using assms(1-5) by (simp add: handles_inv_def)
qed

lemma Union_handles: "(\<Union>u. set (H u)) = set (H t) \<union> (\<Union>u \<in> - {t}. set (H u))"
  by auto

lemma Union_update: "(\<Union>u. set ((H(t := hs)) u)) = set hs \<union> (\<Union>u \<in> - {t}. set (H u))"
  by (auto split: if_splits)

text \<open>Moving a handle between the queue, thread \<open>t\<close> and the closed ones.\<close>

lemma handles_inv_move:
  assumes inv: "handles_inv p H" and size: "po_size p' = po_size p" "set (po_all p') \<subseteq> set (po_all p)"
    and closed: "\<not> po_closed p' \<Longrightarrow> po_shut p' = {}"
    and total: "set (po_queue p') \<union> set hs \<union> po_shut p' = set (po_queue p) \<union> set (H t) \<union> po_shut p"
    and dist: "distinct (po_queue p')" "distinct hs" "set hs \<inter> set (po_queue p') = {}"
    and sub: "set hs \<subseteq> set (po_queue p) \<union> set (H t)" "set (po_queue p') \<subseteq> set (po_queue p) \<union> set (H t)"
  shows "handles_inv p' (H(t := hs))"
proof -
  have disj: "set (H u) \<inter> set hs = {} \<and> set (H u) \<inter> set (po_queue p') = {}" if "u \<noteq> t" for u
  proof -
    have "set (H u) \<inter> set (po_queue p) = {}" "set (H u) \<inter> set (H t) = {}"
      using inv that by (simp_all add: handles_inv_def)
    with sub show ?thesis by blast
  qed
  have "set (po_queue p') \<union> (\<Union>u. set ((H(t := hs)) u)) \<union> po_shut p'
      = (set (po_queue p') \<union> set hs \<union> po_shut p') \<union> (\<Union>u \<in> - {t}. set (H u))"
    unfolding Union_update by blast
  also have "\<dots> = set (po_queue p) \<union> (\<Union>u. set (H u)) \<union> po_shut p"
    unfolding total Union_handles [of H t] by blast
  also have "\<dots> = {..<po_size p'}" using inv size by (simp add: handles_inv_def)
  finally have all: "set (po_queue p') \<union> (\<Union>u. set ((H(t := hs)) u)) \<union> po_shut p' = {..<po_size p'}" .
  have "distinct ((H(t := hs)) u) \<and> set ((H(t := hs)) u) \<inter> set (po_queue p') = {}" for u
    using inv dist disj [of u] by (cases "u = t") (auto simp: handles_inv_def)
  moreover have "u \<noteq> v \<Longrightarrow> set ((H(t := hs)) u) \<inter> set ((H(t := hs)) v) = {}" for u v
    using inv disj [of u] disj [of v] by (cases "u = t"; cases "v = t") (auto simp: handles_inv_def)
  moreover have "set (po_all p') \<subseteq> {..<po_size p'}" using inv size by (auto simp: handles_inv_def)
  ultimately show ?thesis using all dist(1) closed by (simp add: handles_inv_def)
qed

lemma handles_inv_take:
  assumes "handles_inv p H" "po_queue p = h # q"
  shows "handles_inv (p\<lparr>po_queue := q\<rparr>) (H(t := h # H t))"
  by (rule handles_inv_move [OF assms(1)]) (use assms in \<open>auto simp: handles_inv_def\<close>)

lemma handles_inv_put:
  assumes "handles_inv p H" "H t = h # hs"
  shows "handles_inv (p\<lparr>po_queue := h # po_queue p\<rparr>) (H(t := hs))"
proof -
  have "distinct (h # hs)" "set (h # hs) \<inter> set (po_queue p) = {}"
    using assms unfolding handles_inv_def by metis+
  then show ?thesis
    by (intro handles_inv_move [OF assms(1)]) (use assms in \<open>auto simp: handles_inv_def\<close>)
qed

lemma handles_inv_shut:
  assumes "handles_inv p H" "H t = h # hs" "po_closed p"
  shows "handles_inv (shut_handle h p) (H(t := hs))"
proof -
  have "distinct (h # hs)" "set (h # hs) \<inter> set (po_queue p) = {}"
    using assms unfolding handles_inv_def by metis+
  then show ?thesis
    by (intro handles_inv_move [OF assms(1)]) (use assms in \<open>auto simp: handles_inv_def shut_handle_def\<close>)
qed

lemma handles_inv_drain:
  assumes "handles_inv p H" "po_queue p = h # q" "po_closed p"
  shows "handles_inv (shut_handle h (p\<lparr>po_queue := q\<rparr>)) H"
  using assms unfolding handles_inv_def by (auto simp: shut_handle_def)

lemma handles_inv_shut_all:
  assumes "handles_inv p H" "po_closed p"
  shows "handles_inv (shut_all p) H"
  using assms unfolding handles_inv_def by (auto simp: shut_all_def)

lemma handles_update:
  "handles (s\<lparr>sy_pool := p, sy_held := (sy_held s)(t := hs), sy_pc := (sy_pc s)(t := c)\<rparr>)
     = (handles s)(t := moving c @ hs)"
  "handles (s\<lparr>sy_pool := p, sy_pc := (sy_pc s)(t := c)\<rparr>) = (handles s)(t := moving c @ sy_held s t)"
  "handles (s\<lparr>sy_pc := (sy_pc s)(t := c)\<rparr>) = (handles s)(t := moving c @ sy_held s t)"
  "handles (s\<lparr>sy_held := (sy_held s)(t := hs), sy_pc := (sy_pc s)(t := c)\<rparr>) = (handles s)(t := moving c @ hs)"
  "handles (s\<lparr>sy_pool := p, sy_held := (sy_held s)(t := hs)\<rparr>) = (handles s)(t := moving (sy_pc s t) @ hs)"
  "handles (s\<lparr>sy_pool := p\<rparr>) = handles s"
  "handles (s\<lparr>sy_lock := l\<rparr>) = handles s"
  "handles (s\<lparr>sy_lock := l, sy_pc := (sy_pc s)(t := c)\<rparr>) = (handles s)(t := moving c @ sy_held s t)"
  "handles (s\<lparr>sy_pool := p, sy_lock := l, sy_pc := (sy_pc s)(t := c)\<rparr>) = (handles s)(t := moving c @ sy_held s t)"
  by (rule ext, simp add: handles_def)+

lemma handles_same: "moving c = moving (sy_pc s t) \<Longrightarrow> (handles s)(t := moving c @ sy_held s t) = handles s"
  by (rule ext) (simp add: handles_def)

lemma pool_step_handles:
  assumes "pool_step s s'" "pool_inv s"
  shows "handles_inv (sy_pool s') (handles s')"
proof -
  have inv: "handles_inv (sy_pool s) (handles s)" using assms(2) by (simp add: pool_inv_def)
  from assms(1) show ?thesis
  proof (cases rule: pool_step.cases)
    case (take t h p)
    then obtain q where q: "po_queue (sy_pool s) = h # q" "p = (sy_pool s)\<lparr>po_queue := q\<rparr>"
      by (auto simp: queue_get_def split: list.splits)
    then show ?thesis using handles_inv_take [OF inv q(1), of t] take
      by (simp add: handles_update moving_def handles_def [of s t])
  next
    case (wake t h p)
    then obtain q where q: "po_queue (sy_pool s) = h # q" "p = (sy_pool s)\<lparr>po_queue := q\<rparr>"
      by (auto simp: queue_get_def split: list.splits)
    then show ?thesis using handles_inv_take [OF inv q(1), of t] wake
      by (simp add: handles_update moving_def handles_def [of s t])
  next
    case (count t h w)
    have "handles s t = h # sy_held s t" using count by (simp add: handles_def moving_def)
    then have "(handles s)(t := moving Idle @ h # sy_held s t) = handles s" by (auto simp: moving_def)
    then show ?thesis using count
      by (auto simp: handles_update count_acquire_def Let_def intro!: handles_inv_cong [OF inv])
  next
    case (give t h)
    have "mset (((handles s)(t := h # remove1 h (sy_held s t))) u) = mset (handles s u)" for u
      using give by (simp add: handles_def moving_def)
    then show ?thesis using give
      by (auto simp: handles_update moving_def intro!: handles_inv_cong [OF inv])
  next
    case (give_closed t h)
    have "handles_inv (sy_pool s) ((handles s)(t := h # remove1 h (sy_held s t)))"
      using give_closed by (intro handles_inv_cong [OF inv]) (simp_all add: handles_def moving_def)
    from handles_inv_shut [OF this, of t h "remove1 h (sy_held s t)"] give_closed
    show ?thesis by (simp add: handles_update moving_def)
  next
    case (put t h p)
    then show ?thesis using handles_inv_put [OF inv, of t h "sy_held s t"]
      by (auto simp: handles_update moving_def handles_def [of s t] queue_put_def split: if_splits)
  next
    case (drain_one t h p)
    then obtain q where q: "po_queue (sy_pool s) = h # q" "p = (sy_pool s)\<lparr>po_queue := q\<rparr>"
      by (auto simp: queue_get_def split: list.splits)
    moreover have "po_closed (sy_pool s)" using drain_one assms(2) by (auto simp: pool_inv_def)
    ultimately show ?thesis using handles_inv_drain [OF inv q(1)] drain_one by (simp add: handles_update)
  next
    case (drain_end t)
    moreover have "po_closed (sy_pool s)" using drain_end assms(2) by (auto simp: pool_inv_def)
    moreover have "(handles s)(t := moving Idle @ sy_held s t) = handles s"
      by (rule handles_same) (simp add: moving_def drain_end)
    ultimately show ?thesis using handles_inv_shut_all [OF inv] by (simp add: handles_update)
  qed (use inv in \<open>auto simp: handles_update handles_def [of s] moving_def count_release_def Let_def
        intro!: handles_inv_cong [OF inv]\<close>)
qed

lemma pool_step_inv: "pool_step s s' \<Longrightarrow> pool_inv s \<Longrightarrow> pool_inv s'"
proof -
  assume step: "pool_step s s'" and inv: "pool_inv s"
  from step inv have "\<forall>t. sy_pc s' t \<in> {Closing, Draining} \<longrightarrow> po_closed (sy_pool s')"
    by (cases rule: pool_step.cases) (auto simp: pool_inv_def pool_ops split: list.splits if_splits)
  then show ?thesis using pool_step_handles [OF step inv] by (simp add: pool_inv_def)
qed

lemma pool_run_inv: "pool_run s s' \<Longrightarrow> pool_inv s \<Longrightarrow> pool_inv s'"
  by (induction rule: pool_run.induct) (auto intro: pool_step_inv)

section \<open>Progress\<close>

lemma pool_step_size: "pool_step s s' \<Longrightarrow> po_size (sy_pool s') = po_size (sy_pool s)"
  by (erule pool_stepE) (auto simp: pool_ops split: list.splits if_splits)

lemma pool_run_size: "pool_run s s' \<Longrightarrow> po_size (sy_pool s') = po_size (sy_pool s)"
  by (induction rule: pool_run.induct) (simp_all add: pool_step_size)

lemma wake_up:
  assumes "sy_pc s t = Blocked" "po_queue (sy_pool s) = h # q"
  shows "\<exists>s'. pool_run s s' \<and> sy_pc s' t = Taken h True"
proof -
  have "queue_get (sy_pool s) = Some (h, (sy_pool s)\<lparr>po_queue := q\<rparr>)" using assms(2) by (simp add: queue_get_def)
  from pool_run_one [OF pool_step.wake [OF assms(1) this]] show ?thesis by force
qed

lemma put_then_wake:
  assumes "sy_pc s t = Blocked" "sy_pc s u = Returning h" "po_queue (sy_pool s) = []" "0 < po_size (sy_pool s)"
  shows "\<exists>s'. pool_run s s' \<and> sy_pc s' t = Taken h True"
proof -
  have ne: "u \<noteq> t" using assms(1,2) by auto
  define p where "p = (sy_pool s)\<lparr>po_queue := [h]\<rparr>"
  have "queue_put h (sy_pool s) = Some p" using assms(3,4) by (simp add: queue_put_def p_def)
  note step = pool_run_one [OF pool_step.put [OF assms(2) this]]
  let ?s1 = "at_pc (s\<lparr>sy_pool := p\<rparr>) u Returned"
  have "sy_pc ?s1 t = Blocked" "po_queue (sy_pool ?s1) = h # []" using assms(1) ne by (simp_all add: p_def)
  from wake_up [OF this] step show ?thesis using pool_run_trans by blast
qed

lemma give_then_wake:
  assumes "sy_pc s t = Blocked" "sy_pc s u = Idle" "h \<in> set (sy_held s u)" "\<not> po_closed (sy_pool s)"
    and "po_queue (sy_pool s) = []" "0 < po_size (sy_pool s)"
  shows "\<exists>s'. pool_run s s' \<and> sy_pc s' t = Taken h True"
proof -
  have ne: "u \<noteq> t" using assms(1,2) by auto
  let ?s1 = "at_pc (s\<lparr>sy_held := (sy_held s)(u := remove1 h (sy_held s u))\<rparr>) u (Returning h)"
  have "pool_run s ?s1" by (rule pool_run_one [OF pool_step.give [OF assms(2-4)]])
  moreover have "sy_pc ?s1 t = Blocked" "sy_pc ?s1 u = Returning h" "po_queue (sy_pool ?s1) = []"
      "0 < po_size (sy_pool ?s1)" using assms ne by simp_all
  from put_then_wake [OF this] obtain s' where "pool_run ?s1 s'" "sy_pc s' t = Taken h True" by blast
  ultimately show ?thesis using pool_run_trans by blast
qed

lemma count_then_wake:
  assumes "sy_pc s t = Blocked" "sy_pc s u = Taken h w" "\<not> po_closed (sy_pool s)"
    and "po_queue (sy_pool s) = []" "0 < po_size (sy_pool s)"
  shows "\<exists>s'. pool_run s s' \<and> sy_pc s' t = Taken h True"
proof -
  have ne: "u \<noteq> t" using assms(1,2) by auto
  let ?s1 = "at_pc (s\<lparr>sy_pool := count_acquire w (sy_pool s), sy_held := (sy_held s)(u := h # sy_held s u)\<rparr>) u Idle"
  have "pool_run s ?s1" by (rule pool_run_one [OF pool_step.count [OF assms(2)]])
  moreover have "sy_pc ?s1 t = Blocked" "sy_pc ?s1 u = Idle" "h \<in> set (sy_held ?s1 u)" "\<not> po_closed (sy_pool ?s1)"
      "po_queue (sy_pool ?s1) = []" "0 < po_size (sy_pool ?s1)"
    using assms ne by (simp_all add: count_acquire_def Let_def)
  from give_then_wake [OF this] obtain s' where "pool_run ?s1 s'" "sy_pc s' t = Taken h True" by blast
  ultimately show ?thesis using pool_run_trans by blast
qed

lemma blocked_progress:
  assumes inv: "pool_inv s" and size: "0 < po_size (sy_pool s)" and "open": "\<not> po_closed (sy_pool s)"
    and t: "sy_pc s t = Blocked" and hold: "\<And>u. sy_held s u \<noteq> [] \<Longrightarrow> sy_pc s u = Idle"
  shows "\<exists>s' h. pool_run s s' \<and> sy_pc s' t = Taken h True"
proof (cases "po_queue (sy_pool s)")
  case (Cons h q)
  then show ?thesis using wake_up [OF t] by blast
next
  case Nil
  have shut: "po_shut (sy_pool s) = {}" using inv "open" by (simp add: pool_inv_def handles_inv_def)
  have "set (po_queue (sy_pool s)) \<union> (\<Union>u. set (handles s u)) \<union> po_shut (sy_pool s) = {..<po_size (sy_pool s)}"
    using inv unfolding pool_inv_def handles_inv_def by blast
  then have "0 \<in> (\<Union>u. set (handles s u))" using size Nil shut by auto
  then obtain u where u: "0 \<in> set (handles s u)" by blast
  show ?thesis
  proof (cases "sy_held s u = []")
    case True
    then have "(\<exists>w. sy_pc s u = Taken 0 w) \<or> sy_pc s u = Returning 0"
      using u by (auto simp: handles_def moving_def split: pc.splits)
    then show ?thesis using count_then_wake [OF t _ "open" Nil size] put_then_wake [OF t _ Nil size] by blast
  next
    case False
    then obtain h where "h \<in> set (sy_held s u)" by (cases "sy_held s u") auto
    then show ?thesis using give_then_wake [OF t hold [OF False] _ "open" Nil size] by blast
  qed
qed

text \<open>The queue always has room for a handle that a thread is giving back.\<close>

lemma handles_inv_distinct: "handles_inv p H \<Longrightarrow> distinct (po_queue p @ H t)"
  unfolding handles_inv_def distinct_append by blast

lemma handles_inv_room:
  assumes "handles_inv p H"
  shows "length (po_queue p) + length (H t) \<le> po_size p"
proof -
  have "set (po_queue p @ H t) \<subseteq> {..<po_size p}" using assms unfolding handles_inv_def by auto
  then have "length (po_queue p @ H t) \<le> po_size p"
    using handles_inv_distinct [OF assms] by (metis card_lessThan card_mono distinct_card finite_lessThan)
  then show ?thesis by simp
qed

lemma returning_room:
  assumes "pool_inv s" "sy_pc s u = Returning h"
  shows "queue_put h (sy_pool s) = Some ((sy_pool s)\<lparr>po_queue := h # po_queue (sy_pool s)\<rparr>)"
proof -
  have "handles s u = h # sy_held s u" using assms(2) by (simp add: handles_def moving_def)
  then have "length (po_queue (sy_pool s)) < po_size (sy_pool s)"
    using handles_inv_room [of "sy_pool s" "handles s" u] assms(1) by (simp add: pool_inv_def)
  then show ?thesis by (simp add: queue_put_def)
qed

text \<open>
  A release never waits, and after it the waiter can take that very handle in the next step: no notification is lost.
\<close>

lemma return_then_wake:
  assumes "pool_inv s" "sy_pc s t = Blocked" "sy_pc s u = Returning h"
  shows "\<exists>s1 s2. pool_step s s1 \<and> sy_pc s1 u = Returned \<and> po_queue (sy_pool s1) = h # po_queue (sy_pool s)
    \<and> pool_step s1 s2 \<and> sy_pc s2 t = Taken h True"
proof -
  let ?s1 = "at_pc (s\<lparr>sy_pool := (sy_pool s)\<lparr>po_queue := h # po_queue (sy_pool s)\<rparr>\<rparr>) u Returned"
  have ne: "u \<noteq> t" using assms(2,3) by auto
  have put: "pool_step s ?s1" by (rule pool_step.put [OF assms(3) returning_room [OF assms(1,3)]])
  have "queue_get (sy_pool ?s1) = Some (h, (sy_pool ?s1)\<lparr>po_queue := po_queue (sy_pool s)\<rparr>)" by (simp add: queue_get_def)
  from pool_step.wake [OF _ this, of t] have "\<exists>s2. pool_step ?s1 s2 \<and> sy_pc s2 t = Taken h True"
    using assms(2) ne by force
  then show ?thesis using put ne by - (rule exI [of _ ?s1], simp)
qed

text \<open>A thread that waits when the pool closes is never woken.\<close>

definition stranded :: "'t sys \<Rightarrow> 't \<Rightarrow> bool" where
  "stranded s t \<longleftrightarrow> po_closed (sy_pool s) \<and> po_queue (sy_pool s) = [] \<and> (\<forall>u h. sy_pc s u \<noteq> Returning h)
     \<and> sy_pc s t = Blocked"

lemma stranded_step: "pool_step s s' \<Longrightarrow> stranded s t \<Longrightarrow> stranded s' t"
  by (erule pool_stepE)
    (auto simp: stranded_def queue_get_def count_acquire_def count_release_def shut_handle_def shut_all_def Let_def)

lemma stranded_run: "pool_run s s' \<Longrightarrow> stranded s t \<Longrightarrow> stranded s' t"
  by (induction rule: pool_run.induct) (auto intro: stranded_step)

section \<open>One with-block\<close>

lemma enter_exit_restores:
  assumes "\<not> po_closed p" "po_queue p = h # q" "length (po_queue p) \<le> po_size p"
  shows "\<exists>p' p''. pool_enter p = Some (Inr h, p') \<and> pool_exit p' = Some p''
    \<and> po_queue p'' = po_queue p \<and> po_current p'' = None \<and> po_closed p'' = po_closed p \<and> po_size p'' = po_size p
    \<and> ps_borrowed (po_stats p'') = ps_borrowed (po_stats p)"
  using assms
  by (simp add: pool_enter_def pool_acquire_def pool_exit_def pool_release_def pool_ops)

section \<open>Properties\<close>

text \<open>
  C12: in every state that threads reach by interleaving the steps of \<open>acquire\<close>, \<open>release\<close> and \<open>close\<close>,
  no handle is with two threads or both with a thread and idle, or twice with one thread or on the queue; every handle of
  the pool is idle, with one thread, or closed; while the pool is open none is closed, so that none is lost; and a thread
  that gives a handle back finds room on the queue.
\<close>

theorem pool_handles_exclusive:
  assumes "pool_run (sys_init k) s" "t \<noteq> u"
  shows "set (handles s t) \<inter> set (handles s u) = {}
    \<and> distinct (po_queue (sy_pool s) @ handles s t)
    \<and> set (po_queue (sy_pool s)) \<union> (\<Union>v. set (handles s v)) \<union> po_shut (sy_pool s) = {..<nat (max 1 k)}
    \<and> (po_closed (sy_pool s) \<or> po_shut (sy_pool s) = {})
    \<and> length (po_queue (sy_pool s)) + length (handles s t) \<le> po_size (sy_pool s)"
proof -
  have size: "po_size (sy_pool s) = nat (max 1 k)"
    using pool_run_size [OF assms(1)] by (simp add: sys_init_def pool_init_closed_form)
  have inv: "handles_inv (sy_pool s) (handles s)"
    using pool_run_inv [OF assms(1) pool_inv_init] by (simp add: pool_inv_def)
  then have "set (handles s t) \<inter> set (handles s u) = {}" "po_closed (sy_pool s) \<or> po_shut (sy_pool s) = {}"
      "set (po_queue (sy_pool s)) \<union> (\<Union>v. set (handles s v)) \<union> po_shut (sy_pool s) = {..<po_size (sy_pool s)}"
    using assms(2) unfolding handles_inv_def by blast+
  then show ?thesis using handles_inv_distinct [OF inv] handles_inv_room [OF inv] size by simp
qed

theorem pool_handles_exclusive_witness:
  "set (handles (at_pc (sys_init 2) True Checked) True) \<inter> set (handles (at_pc (sys_init 2) True Checked) False) = {}
    \<and> distinct (po_queue (sy_pool (at_pc (sys_init 2) True Checked)) @ handles (at_pc (sys_init 2) True Checked) True)
    \<and> set (po_queue (sy_pool (at_pc (sys_init 2) True Checked)))
        \<union> (\<Union>v. set (handles (at_pc (sys_init 2) True Checked) v))
        \<union> po_shut (sy_pool (at_pc (sys_init 2) True Checked)) = {..<nat (max 1 2)}
    \<and> (po_closed (sy_pool (at_pc (sys_init 2) True Checked)) \<or> po_shut (sy_pool (at_pc (sys_init 2) True Checked)) = {})
    \<and> length (po_queue (sy_pool (at_pc (sys_init 2) True Checked)))
        + length (handles (at_pc (sys_init 2) True Checked) True) \<le> po_size (sy_pool (at_pc (sys_init 2) True Checked))"
proof (rule pool_handles_exclusive [where k = 2])
  show "pool_run (sys_init 2) (at_pc (sys_init 2) True Checked)"
    by (rule pool_run_one [OF pool_step.check]) (simp_all add: sys_init_def pool_init_closed_form)
qed simp

text \<open>
  C31: no deadlock and no lost wake-up while the pool is open. In every reachable state in which threads that hold handles
  are outside the methods of the pool, a thread blocked in \<open>acquire\<close> gets a handle in some continuation by steps the
  others can make (another waiter may come first). Where a thread is giving a handle back, its \<open>put\<close> goes through at
  once, and the blocked thread can take that very handle in the next step.
\<close>

theorem pool_acquire_progress:
  assumes "pool_run (sys_init k) s" "\<not> po_closed (sy_pool s)" "sy_pc s t = Blocked"
    and "\<And>u. sy_held s u \<noteq> [] \<Longrightarrow> sy_pc s u = Idle"
  shows "(\<exists>s' h. pool_run s s' \<and> sy_pc s' t = Taken h True)
    \<and> (\<forall>u h. sy_pc s u = Returning h \<longrightarrow>
        (\<exists>s1 s2. pool_step s s1 \<and> sy_pc s1 u = Returned \<and> po_queue (sy_pool s1) = h # po_queue (sy_pool s)
          \<and> pool_step s1 s2 \<and> sy_pc s2 t = Taken h True))"
proof -
  have "po_size (sy_pool s) = nat (max 1 k)"
    using pool_run_size [OF assms(1)] by (simp add: sys_init_def pool_init_closed_form)
  moreover have "pool_inv s" by (rule pool_run_inv [OF assms(1) pool_inv_init])
  ultimately show ?thesis using blocked_progress [OF _ _ assms(2-4)] return_then_wake [OF _ assms(3)] by simp
qed

text \<open>One handle: thread \<open>True\<close> holds it and thread \<open>False\<close> waits.\<close>

definition demo_waiting :: "bool sys" where
  "demo_waiting =
     \<lparr>sy_pool = (count_acquire False (pool_init 1))\<lparr>po_queue := []\<rparr>,
      sy_pc = (\<lambda>t. if t then Idle else Blocked), sy_held = (\<lambda>t. if t then [0] else []), sy_lock = None\<rparr>"

lemma demo_waiting_reach: "pool_run (sys_init 1) demo_waiting"
proof -
  let ?s0 = "sys_init 1 :: bool sys"
  let ?s1 = "at_pc ?s0 True Checked"
  let ?p = "(pool_init 1)\<lparr>po_queue := []\<rparr>"
  let ?s2 = "at_pc (?s1\<lparr>sy_pool := ?p\<rparr>) True (Taken 0 False)"
  let ?s3 = "at_pc (?s2\<lparr>sy_pool := count_acquire False (sy_pool ?s2), sy_held := (sy_held ?s2)(True := 0 # sy_held ?s2 True)\<rparr>) True Idle"
  let ?s4 = "at_pc ?s3 False Checked"
  let ?s5 = "at_pc ?s4 False Blocked"
  have s1: "pool_step ?s0 ?s1" by (rule pool_step.check) (simp_all add: sys_init_def pool_init_closed_form)
  have s2: "pool_step ?s1 ?s2"
    by (rule pool_step.take) (simp_all add: sys_init_def pool_init_closed_form queue_get_def)
  have s3: "pool_step ?s2 ?s3" by (rule pool_step.count) simp
  have s4: "pool_step ?s3 ?s4"
    by (rule pool_step.check) (simp_all add: sys_init_def pool_init_closed_form count_acquire_def)
  have s5: "pool_step ?s4 ?s5"
    by (rule pool_step.block) (simp_all add: sys_init_def pool_init_closed_form count_acquire_def queue_get_def)
  have "demo_waiting = ?s5"
    by (simp add: demo_waiting_def sys_init_def count_acquire_def Let_def fun_eq_iff)
  then show ?thesis
    using pool_run.step [OF pool_run.step [OF pool_run.step [OF pool_run.step [OF pool_run_one [OF s1] s2] s3] s4] s5] by simp
qed

text \<open>Thread \<open>True\<close> has begun to give the handle back.\<close>

definition demo_giving :: "bool sys" where
  "demo_giving = at_pc (demo_waiting\<lparr>sy_held := (\<lambda>t. [])\<rparr>) True (Returning 0)"

lemma demo_giving_reach: "pool_run (sys_init 1) demo_giving"
proof -
  let ?s = "at_pc (demo_waiting\<lparr>sy_held := (sy_held demo_waiting)(True := remove1 0 (sy_held demo_waiting True))\<rparr>) True (Returning 0)"
  have "pool_step demo_waiting ?s"
    by (rule pool_step.give) (simp_all add: demo_waiting_def count_acquire_def pool_init_closed_form)
  moreover have "demo_giving = ?s" by (simp add: demo_giving_def demo_waiting_def fun_eq_iff)
  ultimately show ?thesis using pool_run.step [OF demo_waiting_reach] by simp
qed

theorem pool_acquire_progress_witness:
  "(\<exists>s' h. pool_run demo_giving s' \<and> sy_pc s' False = Taken h True)
    \<and> (\<exists>s1 s2. pool_step demo_giving s1 \<and> sy_pc s1 True = Returned \<and> po_queue (sy_pool s1) = [0]
          \<and> pool_step s1 s2 \<and> sy_pc s2 False = Taken 0 True)"
proof -
  have "po_queue (sy_pool demo_giving) = []" "sy_pc demo_giving True = Returning 0"
    by (simp_all add: demo_giving_def demo_waiting_def)
  then show ?thesis
    using pool_acquire_progress [OF demo_giving_reach, of False]
    by (force simp: demo_giving_def demo_waiting_def count_acquire_def pool_init_closed_form)
qed

text \<open>
  \<open>close\<close> strands waiters: once the pool is closed, its queue drained and no release under way, a
  thread blocked in \<open>acquire\<close> stays blocked in every continuation, since later releases close their handle instead
  of returning it.
\<close>

theorem close_strands_waiter:
  assumes "po_closed (sy_pool s)" "po_queue (sy_pool s) = []" "\<And>u h. sy_pc s u \<noteq> Returning h"
    and "sy_pc s t = Blocked" "pool_run s s'"
  shows "sy_pc s' t = Blocked"
  using stranded_run [OF assms(5)] assms(1-4) by (simp add: stranded_def)

theorem close_strands_waiter_witness:
  "sy_pc (demo_waiting\<lparr>sy_pool := (sy_pool demo_waiting)\<lparr>po_closed := True\<rparr>\<rparr>) False = Blocked"
  by (rule close_strands_waiter [OF _ _ _ _ pool_run.refl])
    (simp_all add: demo_waiting_def count_acquire_def Let_def)

text \<open>
  The pool as a context manager is not safe for two users at once, because the borrowed handle is
  remembered on the pool: when two with-blocks overlap, the first exit gives the second block's
  handle back while it is in use, so that the next \<open>acquire\<close> hands it out again, and the second exit returns nothing, so
  that the first handle is lost to the pool.
\<close>

theorem overlapping_with_blocks:
  assumes "\<not> po_closed p" "po_queue p = h1 # h2 # q" "length (po_queue p) \<le> po_size p"
  shows "\<exists>p1 p2 p3. pool_enter p = Some (Inr h1, p1) \<and> pool_enter p1 = Some (Inr h2, p2) \<and> pool_exit p2 = Some p3
    \<and> pool_acquire p3 = Some (Inr h2, count_acquire False (p3\<lparr>po_queue := q\<rparr>))
    \<and> pool_exit p3 = Some p3 \<and> po_queue p3 = h2 # q"
  using assms by (simp add: pool_enter_def pool_acquire_def pool_exit_def pool_release_def pool_ops)

theorem overlapping_with_blocks_witness:
  "\<exists>p1 p2 p3. pool_enter (pool_init 2) = Some (Inr 1, p1) \<and> pool_enter p1 = Some (Inr 0, p2) \<and> pool_exit p2 = Some p3
    \<and> pool_acquire p3 = Some (Inr 0, count_acquire False (p3\<lparr>po_queue := []\<rparr>))
    \<and> pool_exit p3 = Some p3 \<and> po_queue p3 = [0]"
  by (rule overlapping_with_blocks) (simp_all add: pool_init_closed_form eval_nat_numeral)

end
