(* ===== verification/Tables.thy ===== *)
theory Tables
  imports Pool RowStore PyDict "HOL-Library.Char_ord" "HOL-Library.List_Lexorder"
begin

text \<open>
  \<open>python/engramdb/tables.py\<close>: \<open>Database\<close>, the registry of stores and pools under one root, and the
  Arrow helpers of \<open>python/engramdb/arrow_utils.py\<close>.  The file system is an argument: the entries of
  a directory and the shard files under a path.  All handles of a pool read the same files,
  so a pool entry carries one opened store.
\<close>

section \<open>The file system\<close>

record dir_entry =
  de_name :: string
  de_is_dir :: bool
  de_files :: "string list"

record file_system =
  fs_entries :: "string \<Rightarrow> dir_entry list option"
  fs_shards :: "string \<Rightarrow> nat \<Rightarrow> bytes option"
  fs_view :: "string \<Rightarrow> view res"

text \<open>\<open>root / name\<close>: an absolute name replaces the root.\<close>

definition path_join :: "string \<Rightarrow> string \<Rightarrow> string" where
  "path_join root name =
     (if name = [] then root
      else if hd name = CHR ''/'' then name else root @ CHR ''/'' # name)"

text \<open>\<open>Store(dir, shards, rows_per_shard, width)\<close>: PyO3 converts the numbers first.\<close>

definition open_native :: "file_system \<Rightarrow> string \<Rightarrow> int \<Rightarrow> int \<Rightarrow> int \<Rightarrow> native_store res" where
  "open_native fs path shards rows_per_shard width =
     rbind (to_u64 shards) (\<lambda>n. rbind (to_u64 rows_per_shard) (\<lambda>rps. rbind (to_u64 width) (\<lambda>w.
       store_open (fs_shards fs path) n rps w)))"

section \<open>\<open>Database\<close>\<close>

type_synonym table_key = "string \<times> int \<times> int \<times> int"

record database =
  db_root :: string
  db_stores :: "(table_key, native_store) dict"
  db_pools :: "(table_key, pool \<times> native_store) dict"

definition database_init :: "string \<Rightarrow> database" where
  "database_init root = \<lparr>db_root = root, db_stores = [], db_pools = []\<rparr>"

text \<open>\<open>p.glob("shard_*.bin")\<close>.\<close>

definition is_shard_file :: "string \<Rightarrow> bool" where
  "is_shard_file f \<longleftrightarrow> take 6 f = ''shard_'' \<and> 10 \<le> length f \<and> drop (length f - 4) f = ''.bin''"

definition list_tables :: "file_system \<Rightarrow> database \<Rightarrow> string list" where
  "list_tables fs db =
     (case fs_entries fs (db_root db) of
        None \<Rightarrow> []
      | Some es \<Rightarrow> map de_name (filter (\<lambda>e. de_is_dir e \<and> (\<exists>f \<in> set (de_files e). is_shard_file f))
          (sort_key de_name es)))"

definition db_open_store ::
  "file_system \<Rightarrow> string \<Rightarrow> int \<Rightarrow> int \<Rightarrow> int \<Rightarrow> database \<Rightarrow> native_store res \<times> database" where
  "db_open_store fs table shards rows_per_shard width db =
     (let key = (table, shards, rows_per_shard, width)
      in case dict_get (db_stores db) key of
           Some s \<Rightarrow> (Inr s, db)
         | None \<Rightarrow> (case open_native fs (path_join (db_root db) table) shards rows_per_shard width of
             Inl e \<Rightarrow> (Inl e, db)
           | Inr s \<Rightarrow> (Inr s, db\<lparr>db_stores := dict_set key s (db_stores db)\<rparr>)))"

definition db_open_pool ::
  "file_system \<Rightarrow> string \<Rightarrow> int \<Rightarrow> int \<Rightarrow> int \<Rightarrow> int \<Rightarrow> database \<Rightarrow> (pool \<times> native_store) res \<times> database" where
  "db_open_pool fs table shards rows_per_shard width pool_size db =
     (let key = (table, shards, rows_per_shard, width)
      in case dict_get (db_pools db) key of
           Some p \<Rightarrow> (Inr p, db)
         | None \<Rightarrow> (case open_native fs (path_join (db_root db) table) shards rows_per_shard width of
             Inl e \<Rightarrow> (Inl e, db)
           | Inr s \<Rightarrow> (let p = (pool_init pool_size, s)
               in (Inr p, db\<lparr>db_pools := dict_set key p (db_pools db)\<rparr>))))"

text \<open>\<open>fetch\<close>: one with-block on the pool; \<open>None\<close> when it would wait for a handle.\<close>

definition db_fetch ::
  "file_system \<Rightarrow> string \<Rightarrow> int list \<Rightarrow> int \<Rightarrow> int \<Rightarrow> int \<Rightarrow> database \<Rightarrow> (bytes res \<times> database) option" where
  "db_fetch fs table rowids shards rows_per_shard width db =
     (case db_open_pool fs table shards rows_per_shard width 4 db of
        (Inl e, db) \<Rightarrow> Some (Inl e, db)
      | (Inr (pool, store), db) \<Rightarrow>
          let put_back = (\<lambda>p. db\<lparr>db_pools := dict_set (table, shards, rows_per_shard, width) (p, store) (db_pools db)\<rparr>)
          in case pool_enter pool of
               None \<Rightarrow> None
             | Some (Inl e, pool) \<Rightarrow> Some (Inl e, put_back pool)
             | Some (Inr h, pool) \<Rightarrow>
                 map_option (\<lambda>pool. (store_fetch store rowids, put_back pool)) (pool_exit pool))"

definition db_close :: "database \<Rightarrow> database" where
  "db_close db = db\<lparr>db_stores := [], db_pools := []\<rparr>"

section \<open>Arrow tables\<close>

text \<open>
  The part of pyarrow the helpers call: building a table of an integer column and a fixed-size binary
  column, and serializing a table.  Without pyarrow the helpers raise \<open>ImportError\<close>.
\<close>

record 'tab pyarrow =
  pa_table :: "string \<Rightarrow> int list \<Rightarrow> string \<Rightarrow> bytes list \<Rightarrow> int \<Rightarrow> 'tab res"
  pa_ipc :: "'tab \<Rightarrow> bytes"

definition need_pyarrow :: "'tab pyarrow option \<Rightarrow> 'tab pyarrow res" where
  "need_pyarrow pa = (case pa of None \<Rightarrow> Inl ImportError | Some p \<Rightarrow> Inr p)"

definition store_fetch_arrow :: "'tab pyarrow option \<Rightarrow> native_store \<Rightarrow> int list \<Rightarrow> 'tab res" where
  "store_fetch_arrow pa store rowids =
     rbind (need_pyarrow pa) (\<lambda>p. rbind (store_fetch store rowids) (\<lambda>raw.
       pa_table p ''rowid'' rowids ''row''
         (map (\<lambda>i. py_slice i (ns_width store) raw) [0..<length rowids]) (int (ns_width store))))"

text \<open>\<open>slot_bytes\<close> is what reading the attribute of the view gives to \<open>pa.binary\<close>.\<close>

definition view_read_arrow :: "'tab pyarrow option \<Rightarrow> (int \<Rightarrow> bytes res) \<Rightarrow> int res \<Rightarrow> int list \<Rightarrow> 'tab res" where
  "view_read_arrow pa view_record slot_bytes indices =
     rbind (need_pyarrow pa) (\<lambda>p. rbind (rmapM view_record indices) (\<lambda>slots.
       rbind slot_bytes (\<lambda>w. pa_table p ''index'' indices ''slot'' slots w)))"

definition table_to_ipc_bytes :: "'tab pyarrow option \<Rightarrow> 'tab \<Rightarrow> bytes res" where
  "table_to_ipc_bytes pa tab = rbind (need_pyarrow pa) (\<lambda>p. Inr (pa_ipc p tab))"

lemma store_fetch_arrow_rows:
  assumes "list_all (store_valid s) rs"
  shows "store_fetch_arrow (Some p) s rs
    = pa_table p ''rowid'' rs ''row'' (map (store_row s) rs) (int (ns_width s))"
proof -
  have "map (\<lambda>i. py_slice i (ns_width s) (concat (map (store_row s) rs))) [0..<length rs] = map (store_row s) rs"
    using native.fetch_slice [OF assms native.fetch_rows [OF assms]] by (intro nth_equalityI) simp_all
  then show ?thesis by (simp add: store_fetch_arrow_def need_pyarrow_def native.fetch_rows [OF assms])
qed

section \<open>Fetching through the registry\<close>

text \<open>A database that is at rest: every pool is open and has an idle handle, no key is twice.\<close>

definition pool_idle :: "pool \<Rightarrow> bool" where
  "pool_idle p \<longleftrightarrow> \<not> po_closed p \<and> po_queue p \<noteq> [] \<and> length (po_queue p) \<le> po_size p"

definition db_idle :: "database \<Rightarrow> bool" where
  "db_idle db \<longleftrightarrow> dict_wf (db_pools db) \<and> (\<forall>(k, p, s) \<in> set (db_pools db). pool_idle p)"

text \<open>The pools were opened on the files they are keyed by.\<close>

definition db_faithful :: "file_system \<Rightarrow> database \<Rightarrow> bool" where
  "db_faithful fs db \<longleftrightarrow>
     (\<forall>((table, n, rps, w), p, s) \<in> set (db_pools db). open_native fs (path_join (db_root db) table) n rps w = Inr s)"

lemma pool_idle_init: "pool_idle (pool_init k)"
  by (simp add: pool_idle_def pool_init_closed_form)

lemma db_idle_init: "db_idle (database_init root)" "db_faithful fs (database_init root)"
  by (simp_all add: db_idle_def db_faithful_def database_init_def)

lemma in_dict_set_cases: "(k', v') \<in> set (dict_set k v d) \<Longrightarrow> (k', v') = (k, v) \<or> (k', v') \<in> set d"
  using set_dict_set_subset [of k v d] by blast

lemma db_idle_set:
  "db_idle db \<Longrightarrow> pool_idle p \<Longrightarrow> db_idle (db\<lparr>db_pools := dict_set k (p, s) (db_pools db)\<rparr>)"
  unfolding db_idle_def using set_dict_set_subset [of k "(p, s)" "db_pools db"]
  by (auto simp: dict_wf_set)

lemma db_faithful_set:
  "db_faithful fs db \<Longrightarrow> open_native fs (path_join (db_root db) table) n rps w = Inr s \<Longrightarrow>
   db_faithful fs (db\<lparr>db_pools := dict_set (table, n, rps, w) (p, s) (db_pools db)\<rparr>)"
  unfolding db_faithful_def using set_dict_set_subset [of "(table, n, rps, w)" "(p, s)" "db_pools db"]
  by fastforce

lemma db_open_pool_spec:
  assumes "db_idle db" "db_faithful fs db"
    and "open_native fs (path_join (db_root db) table) n rps w = Inr s" "0 < k"
  shows "\<exists>p db'. db_open_pool fs table n rps w k db = (Inr (p, s), db') \<and> pool_idle p \<and> db_idle db'
    \<and> db_faithful fs db' \<and> db_root db' = db_root db"
proof (cases "dict_get (db_pools db) (table, n, rps, w)")
  case None
  then show ?thesis
    using assms db_idle_set [OF assms(1) pool_idle_init] db_faithful_set [OF assms(2,3)] pool_idle_init
    by (auto simp: db_open_pool_def Let_def)
next
  case (Some ps)
  then have "((table, n, rps, w), ps) \<in> set (db_pools db)" by (rule dict_get_in)
  then have "pool_idle (fst ps)" "snd ps = s"
    using assms(1-3) by (cases ps; force simp: db_idle_def db_faithful_def)+
  then show ?thesis using Some assms by (cases ps) (auto simp: db_open_pool_def Let_def)
qed

text \<open>A fetch at rest never blocks, returns what the store returns, and leaves the database at rest.\<close>

lemma db_fetch_spec:
  assumes "db_idle db" "db_faithful fs db"
    and "open_native fs (path_join (db_root db) table) n rps w = Inr s"
  shows "\<exists>db'. db_fetch fs table rowids n rps w db = Some (store_fetch s rowids, db') \<and> db_idle db'
    \<and> db_faithful fs db' \<and> db_root db' = db_root db"
proof -
  obtain p db1 where o1: "db_open_pool fs table n rps w 4 db = (Inr (p, s), db1)" "pool_idle p" "db_idle db1"
      "db_faithful fs db1" "db_root db1 = db_root db"
    using db_open_pool_spec [OF assms, of 4] by auto
  obtain h q where q: "po_queue p = h # q" using o1(2) by (cases "po_queue p") (auto simp: pool_idle_def)
  obtain p1 p2 where run: "pool_enter p = Some (Inr h, p1)" "pool_exit p1 = Some p2"
      "po_queue p2 = po_queue p" "po_closed p2 = po_closed p" "po_size p2 = po_size p"
    using enter_exit_restores [of p h q] o1(2) q by (auto simp: pool_idle_def)
  have "pool_idle p2" using run o1(2) by (simp add: pool_idle_def)
  then show ?thesis
    using o1 run db_idle_set [OF o1(3)] db_faithful_set [OF o1(4)] assms(3)
    by (auto simp: db_fetch_def Let_def)
qed

text \<open>When the files cannot be opened the error is the caller's and nothing changes.\<close>

lemma db_fetch_error:
  assumes "dict_get (db_pools db) (table, n, rps, w) = None"
    and "open_native fs (path_join (db_root db) table) n rps w = Inl e"
  shows "db_fetch fs table rowids n rps w db = Some (Inl e, db)"
  using assms by (simp add: db_fetch_def db_open_pool_def Let_def)

text \<open>A file system with one table, for the examples.\<close>

definition demo_fs :: file_system where
  "demo_fs =
     \<lparr>fs_entries = (\<lambda>p. None),
      fs_shards = (\<lambda>p i. if p = ''db/t'' \<and> i < 2 then Some (ns_files demo_store ! i) else None),
      fs_view = (\<lambda>p. Inl OSError)\<rparr>"

lemma demo_fs_opens: "open_native demo_fs ''db/t'' 2 2 2 = Inr demo_store"
  by (simp add: open_native_def to_u64_def store_open_def demo_fs_def demo_store_def upt_rec numeral_2_eq_2)

end
