(* ===== verification/Json.thy ===== *)
theory Json
  imports PyDict Bytes "HOL-Library.Char_ord"
begin

text \<open>
  What the program uses of Python's \<open>json\<close> module: \<open>dumps\<close> with its default separators and ASCII
  escapes, and \<open>loads\<close>.  A character is a code point below 256, so that \<open>dumps\<close> is exact for such
  strings; \<open>loads\<close> gives \<open>NotImplementedError\<close> for documents outside the model: floats, the constants
  \<open>NaN\<close> and \<open>Infinity\<close>, and code points from 256 on.  The limit of 4300 digits and the
  UTF-16 and UTF-32 detection of \<open>loads\<close> are not modelled.  A dictionary keeps its insertion order.
\<close>

datatype json =
    JNull
  | JBool bool
  | JInt int
  | JStr string
  | JList "json list"
  | JObj "(string \<times> json) list"

section \<open>Printing\<close>

definition digit_char :: "nat \<Rightarrow> char" where
  "digit_char d = char_of (48 + d)"

fun nat_digits :: "nat \<Rightarrow> string" where
  "nat_digits n = (if n < 10 then [digit_char n] else nat_digits (n div 10) @ [digit_char (n mod 10)])"

declare nat_digits.simps [simp del]

definition int_str :: "int \<Rightarrow> string" where
  "int_str i = (if i < 0 then CHR ''-'' # nat_digits (nat (- i)) else nat_digits (nat i))"

definition hex_char :: "nat \<Rightarrow> char" where
  "hex_char d = (if d < 10 then char_of (48 + d) else char_of (87 + d))"

definition backslash :: char where
  "backslash = CHR 0x5C"

definition quote :: char where
  "quote = CHR 0x22"

text \<open>The short escapes, as pairs of the code point and the letter.\<close>

definition escapes :: "(nat \<times> char) list" where
  "escapes = [(34, CHR 0x22), (92, CHR 0x5C), (10, CHR ''n''), (13, CHR ''r''), (9, CHR ''t''), (12, CHR ''f''), (8, CHR ''b'')]"

definition escape_char :: "char \<Rightarrow> string" where
  "escape_char c =
     (let n = (of_char c :: nat)
      in case map_of escapes n of
           Some e \<Rightarrow> [backslash, e]
         | None \<Rightarrow> (if 32 \<le> n \<and> n < 127 then [c]
             else [backslash, CHR ''u'', CHR ''0'', CHR ''0'', hex_char (n div 16), hex_char (n mod 16)]))"

definition dump_str :: "string \<Rightarrow> string" where
  "dump_str s = quote # concat (map escape_char s) @ [quote]"

fun join :: "string \<Rightarrow> string list \<Rightarrow> string" where
  "join sep [] = []"
| "join sep [x] = x"
| "join sep (x # y # xs) = x @ sep @ join sep (y # xs)"

fun dumps :: "json \<Rightarrow> string" where
  "dumps JNull = ''null''"
| "dumps (JBool b) = (if b then ''true'' else ''false'')"
| "dumps (JInt i) = int_str i"
| "dumps (JStr s) = dump_str s"
| "dumps (JList xs) = CHR ''['' # join '', '' (map dumps xs) @ '']''"
| "dumps (JObj ps) = CHR ''{'' # join '', '' (map (\<lambda>(k, v). dump_str k @ '': '' @ dumps v) ps) @ ''}''"

section \<open>Parsing\<close>

definition is_ws :: "char \<Rightarrow> bool" where
  "is_ws c \<longleftrightarrow> (of_char c :: nat) \<in> {32, 9, 10, 13}"

definition is_digit :: "char \<Rightarrow> bool" where
  "is_digit c \<longleftrightarrow> 48 \<le> (of_char c :: nat) \<and> (of_char c :: nat) \<le> 57"

definition digit_val :: "char \<Rightarrow> nat" where
  "digit_val c = of_char c - 48"

definition hex_val :: "char \<Rightarrow> nat option" where
  "hex_val c =
     (let n = (of_char c :: nat)
      in if 48 \<le> n \<and> n \<le> 57 then Some (n - 48)
         else if 97 \<le> n \<and> n \<le> 102 then Some (n - 87)
         else if 65 \<le> n \<and> n \<le> 70 then Some (n - 55) else None)"

abbreviation skip_ws :: "string \<Rightarrow> string" where
  "skip_ws \<equiv> dropWhile is_ws"

fun hex4 :: "string \<Rightarrow> nat option" where
  "hex4 [a, b, c, d] =
     (case (hex_val a, hex_val b, hex_val c, hex_val d) of
        (Some x, Some y, Some z, Some w) \<Rightarrow> Some (((x * 16 + y) * 16 + z) * 16 + w)
      | _ \<Rightarrow> None)"
| "hex4 _ = None"

definition unescape :: "char \<Rightarrow> char option" where
  "unescape e =
     (if e = CHR ''/'' then Some e
      else map_option char_of (map_of (map (\<lambda>(n, c). (c, n)) escapes) e))"

function parse_str :: "string \<Rightarrow> (string \<times> string) res" where
  "parse_str s =
     (case s of
        [] \<Rightarrow> Inl JSONDecodeError
      | c # cs \<Rightarrow>
          if c = quote then Inr ([], cs)
          else if c = backslash then
            (case cs of
               [] \<Rightarrow> Inl JSONDecodeError
             | e # es \<Rightarrow>
                 if e = CHR ''u'' then
                   (case hex4 (take 4 es) of
                      None \<Rightarrow> Inl JSONDecodeError
                    | Some n \<Rightarrow> (if 256 \<le> n then Inl NotImplementedError
                        else rmap (\<lambda>(t, r). (char_of n # t, r)) (parse_str (drop 4 es))))
                 else (case unescape e of
                    None \<Rightarrow> Inl JSONDecodeError
                  | Some ch \<Rightarrow> rmap (\<lambda>(t, r). (ch # t, r)) (parse_str es)))
          else if (of_char c :: nat) < 32 then Inl JSONDecodeError
          else if 128 \<le> (of_char c :: nat) then Inl NotImplementedError
          else rmap (\<lambda>(t, r). (c # t, r)) (parse_str cs))"
  by pat_completeness auto
termination
  by (relation "measure length") auto

declare parse_str.simps [simp del]

definition digits_val :: "string \<Rightarrow> nat" where
  "digits_val ds = foldl (\<lambda>n d. 10 * n + digit_val d) 0 ds"

text \<open>The number pattern: no leading zeros; a fraction or an exponent makes a float.\<close>

definition float_tail :: "string \<Rightarrow> bool" where
  "float_tail r =
     (case r of
        c # d # r' \<Rightarrow> (c = CHR ''.'' \<and> is_digit d)
          \<or> (c \<in> {CHR ''e'', CHR ''E''} \<and> (is_digit d \<or> d \<in> {CHR ''+'', CHR ''-''} \<and> r' \<noteq> [] \<and> is_digit (hd r')))
      | _ \<Rightarrow> False)"

definition parse_number :: "string \<Rightarrow> (json \<times> string) res" where
  "parse_number s =
     (let neg = (s \<noteq> [] \<and> hd s = CHR ''-''); s = (if neg then tl s else s); ds = takeWhile is_digit s;
          ds = (if ds \<noteq> [] \<and> hd ds = CHR ''0'' then [CHR ''0''] else ds); r = drop (length ds) s
      in if ds = [] then (if neg \<and> take 8 s = ''Infinity'' then Inl NotImplementedError else Inl JSONDecodeError)
         else if float_tail r then Inl NotImplementedError
         else Inr (JInt (if neg then - int (digits_val ds) else int (digits_val ds)), r))"

definition starts :: "string \<Rightarrow> string \<Rightarrow> bool" where
  "starts w s \<longleftrightarrow> take (length w) s = w"

text \<open>Values; the fuel bounds the nesting and is the length of the document plus one.\<close>

fun parse_value :: "nat \<Rightarrow> string \<Rightarrow> (json \<times> string) res"
and parse_items :: "nat \<Rightarrow> string \<Rightarrow> json list \<Rightarrow> (json \<times> string) res"
and parse_members :: "nat \<Rightarrow> string \<Rightarrow> (string \<times> json) list \<Rightarrow> (json \<times> string) res" where
  "parse_value 0 s = Inl JSONDecodeError"
| "parse_value (Suc n) s =
     (case s of
        [] \<Rightarrow> Inl JSONDecodeError
      | c # cs \<Rightarrow>
          if c = quote then rmap (\<lambda>(t, r). (JStr t, r)) (parse_str cs)
          else if c = CHR ''{'' then
            (let r = skip_ws cs in if r \<noteq> [] \<and> hd r = CHR ''}'' then Inr (JObj [], tl r) else parse_members n r [])
          else if c = CHR ''['' then
            (let r = skip_ws cs in if r \<noteq> [] \<and> hd r = CHR '']'' then Inr (JList [], tl r) else parse_items n r [])
          else if starts ''null'' s then Inr (JNull, drop 4 s)
          else if starts ''true'' s then Inr (JBool True, drop 4 s)
          else if starts ''false'' s then Inr (JBool False, drop 5 s)
          else if starts ''NaN'' s \<or> starts ''Infinity'' s then Inl NotImplementedError
          else parse_number s)"
| "parse_items 0 s acc = Inl JSONDecodeError"
| "parse_items (Suc n) s acc =
     rbind (parse_value n s) (\<lambda>(v, r).
       case skip_ws r of
         [] \<Rightarrow> Inl JSONDecodeError
       | c # r' \<Rightarrow> if c = CHR '','' then parse_items n (skip_ws r') (acc @ [v])
           else if c = CHR '']'' then Inr (JList (acc @ [v]), r') else Inl JSONDecodeError)"
| "parse_members 0 s acc = Inl JSONDecodeError"
| "parse_members (Suc n) s acc =
     (if s = [] \<or> hd s \<noteq> quote then Inl JSONDecodeError
      else rbind (parse_str (tl s)) (\<lambda>(k, r).
        let r = skip_ws r
        in if r = [] \<or> hd r \<noteq> CHR '':'' then Inl JSONDecodeError
           else rbind (parse_value n (skip_ws (tl r))) (\<lambda>(v, r).
             case skip_ws r of
               [] \<Rightarrow> Inl JSONDecodeError
             | c # r' \<Rightarrow> if c = CHR '','' then parse_members n (skip_ws r') (acc @ [(k, v)])
                 else if c = CHR ''}'' then Inr (JObj (dict_update [] (acc @ [(k, v)])), r')
                 else Inl JSONDecodeError)))"

definition loads :: "string \<Rightarrow> json res" where
  "loads s =
     rbind (parse_value (Suc (length s)) (skip_ws s)) (\<lambda>(v, r).
       if skip_ws r = [] then Inr v else Inl JSONDecodeError)"

text \<open>UTF-8 of the ASCII text \<open>dumps\<close> prints, and back.\<close>

definition utf8_encode :: "string \<Rightarrow> bytes" where
  "utf8_encode s = map (\<lambda>c. word_of_nat (of_char c)) s"

definition utf8_decode :: "bytes \<Rightarrow> string" where
  "utf8_decode bs = map (\<lambda>b. char_of (unat b)) bs"

section \<open>Strings round trip\<close>

lemma char_code_less: "(of_char c :: nat) < 256"
  by (simp add: of_char_def)

lemma escapes_unescape: "list_all (\<lambda>(n, e). e \<noteq> CHR ''u'' \<and> unescape e = Some (char_of n)) escapes"
  by code_simp

lemma hex_val_hex_char: "d < 16 \<Longrightarrow> hex_val (hex_char d) = Some d"
  by (auto simp: hex_val_def hex_char_def Let_def)

lemma quote_backslash [simp]: "quote \<noteq> backslash" "backslash \<noteq> quote"
  by (simp_all add: quote_def backslash_def)

lemma parse_str_quote: "parse_str (quote # r) = Inr ([], r)"
  by (subst parse_str.simps) simp

lemma parse_str_plain:
  "c \<noteq> quote \<Longrightarrow> c \<noteq> backslash \<Longrightarrow> 32 \<le> (of_char c :: nat) \<Longrightarrow> (of_char c :: nat) < 127 \<Longrightarrow>
   parse_str (c # r) = rmap (\<lambda>(t, q). (c # t, q)) (parse_str r)"
  by (subst parse_str.simps) simp

lemma parse_str_short:
  "e \<noteq> CHR ''u'' \<Longrightarrow> unescape e = Some c \<Longrightarrow>
   parse_str (backslash # e # r) = rmap (\<lambda>(t, q). (c # t, q)) (parse_str r)"
  by (subst parse_str.simps) simp

lemma parse_str_u:
  "hex4 [a, b, c, d] = Some n \<Longrightarrow> n < 256 \<Longrightarrow>
   parse_str (backslash # CHR ''u'' # a # b # c # d # r) = rmap (\<lambda>(t, q). (char_of n # t, q)) (parse_str r)"
  by (subst parse_str.simps) simp

lemma parse_str_escape:
  "parse_str (escape_char c @ r) = rmap (\<lambda>(t, q). (c # t, q)) (parse_str r)"
proof (cases "map_of escapes (of_char c)")
  case (Some e)
  then have "e \<noteq> CHR ''u'' \<and> unescape e = Some (char_of (of_char c :: nat))"
    using escapes_unescape map_of_SomeD [OF Some] by (auto simp: list_all_iff)
  then show ?thesis using Some parse_str_short [of e c r] by (simp add: escape_char_def)
next
  case None
  show ?thesis
  proof (cases "32 \<le> (of_char c :: nat) \<and> (of_char c :: nat) < 127")
    case True
    have "c \<noteq> quote" "c \<noteq> backslash" using None by (auto simp: escapes_def quote_def backslash_def)
    then show ?thesis using True None parse_str_plain [of c r] by (simp add: escape_char_def)
  next
    case False
    let ?n = "of_char c :: nat"
    have n: "?n < 256" by (rule char_code_less)
    then have "?n div 16 < 16" by (simp add: less_mult_imp_div_less)
    then have "hex4 [CHR ''0'', CHR ''0'', hex_char (?n div 16), hex_char (?n mod 16)] = Some ?n"
      by (simp add: hex_val_hex_char) (simp add: hex_val_def)
    from parse_str_u [OF this n, of r] False None show ?thesis by (auto simp: escape_char_def Let_def)
  qed
qed

lemma parse_str_dump: "parse_str (concat (map escape_char s) @ quote # r) = Inr (s, r)"
  by (induction s) (simp_all add: parse_str_quote parse_str_escape)

section \<open>Numbers round trip\<close>

lemma is_digit_char [simp]: "d < 10 \<Longrightarrow> is_digit (digit_char d)"
  by (simp add: is_digit_def digit_char_def)

lemma digit_val_char [simp]: "d < 10 \<Longrightarrow> digit_val (digit_char d) = d"
  by (simp add: digit_val_def digit_char_def)

lemma digit_zero: "digit_char 0 = CHR ''0''"
  by code_simp

lemma nat_digits_props:
  "nat_digits n \<noteq> [] \<and> (\<forall>c \<in> set (nat_digits n). is_digit c) \<and> digits_val (nat_digits n) = n
     \<and> (hd (nat_digits n) = CHR ''0'' \<longrightarrow> n = 0)"
proof (induction n rule: nat_digits.induct)
  case (1 n)
  show ?case
  proof (cases "n < 10")
    case True
    have "digit_char n = CHR ''0'' \<Longrightarrow> n = 0"
      using True digit_val_char [of n] by (auto simp: digit_val_def)
    with True show ?thesis by (simp add: nat_digits.simps [of n] digits_val_def)
  next
    case False
    then have "n div 10 \<noteq> 0" by auto
    with 1 [OF False] False show ?thesis by (simp add: nat_digits.simps [of n] digits_val_def)
  qed
qed

text \<open>What may follow a value: nothing, a delimiter or white space.\<close>

definition rest_ok :: "string \<Rightarrow> bool" where
  "rest_ok r \<longleftrightarrow> r = [] \<or> hd r \<in> {CHR '','', CHR '']'', CHR ''}''} \<or> is_ws (hd r)"

lemma rest_ok_tail: "rest_ok r \<Longrightarrow> \<not> float_tail r" "rest_ok r \<Longrightarrow> takeWhile is_digit r = []"
  by (cases r; auto simp: rest_ok_def float_tail_def is_digit_def is_ws_def split: list.splits)+

lemma parse_nat: "rest_ok r \<Longrightarrow> parse_number (nat_digits n @ r) = Inr (JInt (int n), r)"
proof -
  assume r: "rest_ok r"
  note p = nat_digits_props [of n]
  then have "is_digit (hd (nat_digits n))" by simp
  then have c: "hd (nat_digits n) \<noteq> CHR ''-''" by (auto simp: is_digit_def)
  have tw: "takeWhile is_digit (nat_digits n @ r) = nat_digits n"
    using p r rest_ok_tail(2) [OF r] by (simp add: takeWhile_append2)
  show ?thesis
  proof (cases "n = 0")
    case True
    then have "nat_digits n = ''0''" by (simp add: digit_zero nat_digits.simps [of 0])
    then show ?thesis using p tw rest_ok_tail(1) [OF r] by (simp add: parse_number_def Let_def True)
  next
    case False
    then show ?thesis using p c tw rest_ok_tail(1) [OF r] by (simp add: parse_number_def Let_def)
  qed
qed

lemma parse_int: "rest_ok r \<Longrightarrow> parse_number (int_str i @ r) = Inr (JInt i, r)"
proof (cases "i < 0")
  case True
  assume r: "rest_ok r"
  let ?n = "nat (- i)"
  note p = nat_digits_props [of ?n]
  have tw: "takeWhile is_digit (nat_digits ?n @ r) = nat_digits ?n"
    using p r rest_ok_tail(2) [OF r] by (simp add: takeWhile_append2)
  have z: "(if nat_digits ?n \<noteq> [] \<and> hd (nat_digits ?n) = CHR ''0'' then [CHR ''0''] else nat_digits ?n) = nat_digits ?n"
    using p True by auto
  show ?thesis
    using True p tw z rest_ok_tail(1) [OF r] by (simp add: parse_number_def int_str_def Let_def)
next
  case False
  assume "rest_ok r"
  with False parse_nat [of r "nat i"] show ?thesis by (simp add: int_str_def)
qed

section \<open>Values round trip\<close>

text \<open>Dictionaries have no duplicate keys.\<close>

fun json_wf :: "json \<Rightarrow> bool" where
  "json_wf (JList xs) = list_all json_wf xs"
| "json_wf (JObj ps) = (distinct (map fst ps) \<and> list_all (\<lambda>p. json_wf (snd p)) ps)"
| "json_wf v = True"

lemma dict_update_new:
  "distinct (map fst other) \<Longrightarrow> fst ` set other \<inter> fst ` set d = {} \<Longrightarrow> dict_update d other = d @ other"
proof (induction other arbitrary: d)
  case (Cons p other)
  then have "dict_set (fst p) (snd p) d = d @ [p]" by (simp add: dict_set_new dict_get_None_iff)
  with Cons.IH [of "d @ [p]"] Cons.prems show ?case by auto
qed simp

definition starts_value :: "char \<Rightarrow> bool" where
  "starts_value c \<longleftrightarrow> \<not> is_ws c \<and> c \<notin> {CHR '']'', CHR ''}'', CHR '',''}"

lemma digit_starts: "is_digit c \<Longrightarrow> starts_value c"
  by (auto simp: is_digit_def starts_value_def is_ws_def)

lemma dumps_starts: "\<exists>c cs. dumps v = c # cs \<and> starts_value c"
proof (cases v)
  case (JInt i)
  have "\<exists>c cs. nat_digits n = c # cs \<and> starts_value c" for n
    using nat_digits_props [of n] digit_starts by (cases "nat_digits n") auto
  with JInt show ?thesis by (auto simp: int_str_def starts_value_def is_ws_def)
qed (auto simp: starts_value_def is_ws_def dump_str_def quote_def)

lemma parse_value_int:
  assumes "rest_ok r"
  shows "parse_value (Suc n) (int_str i @ r) = Inr (JInt i, r)"
proof -
  obtain c cs where c: "int_str i = c # cs" "is_digit c \<or> c = CHR ''-''"
    using nat_digits_props [of "nat i"] nat_digits_props [of "nat (- i)"]
    by (cases "i < 0"; cases "nat_digits (nat i)") (auto simp: int_str_def)
  then have "\<not> starts ''null'' (c # cs @ r)" "\<not> starts ''true'' (c # cs @ r)" "\<not> starts ''false'' (c # cs @ r)"
      "\<not> starts ''NaN'' (c # cs @ r)" "\<not> starts ''Infinity'' (c # cs @ r)" "c \<noteq> quote" "c \<noteq> CHR ''{''" "c \<noteq> CHR ''[''"
    by (auto simp: starts_def is_digit_def quote_def)
  then show ?thesis using parse_int [OF assms, of i] c(1) by simp
qed

lemma parse_value_str: "parse_value (Suc n) (dump_str t @ r) = Inr (JStr t, r)"
  by (simp add: dump_str_def parse_str_dump)

text \<open>A text reads as a value when it starts like one and is parsed before whatever may follow.\<close>

definition reads :: "string \<Rightarrow> json \<Rightarrow> bool" where
  "reads t v \<longleftrightarrow> t \<noteq> [] \<and> starts_value (hd t)
     \<and> (\<forall>n r. length t \<le> n \<longrightarrow> rest_ok r \<longrightarrow> parse_value n (t @ r) = Inr (v, r))"

lemma reads_parse: "reads t v \<Longrightarrow> length t \<le> n \<Longrightarrow> rest_ok r \<Longrightarrow> parse_value n (t @ r) = Inr (v, r)"
  by (simp add: reads_def)

lemma skip_reads: "reads t v \<Longrightarrow> skip_ws (t @ r) = t @ r"
  by (cases t) (auto simp: reads_def starts_value_def)

lemma skip_blanks: "list_all is_ws w \<Longrightarrow> skip_ws (w @ r) = skip_ws r"
  by (induction w) simp_all

lemma rest_ok_delim [simp]: "rest_ok (CHR '','' # r)" "rest_ok (CHR '']'' # r)" "rest_ok (CHR ''}'' # r)"
  by (simp_all add: rest_ok_def)

lemma rest_ok_blanks: "list_all is_ws w \<Longrightarrow> rest_ok r \<Longrightarrow> rest_ok (w @ r)"
  by (cases w) (simp_all add: rest_ok_def)

lemma delim_not_ws [simp]: "\<not> is_ws (CHR '']'')" "\<not> is_ws (CHR ''}'')" "\<not> is_ws (CHR '','')" "\<not> is_ws (CHR '':'')"
  by (simp_all add: is_ws_def)

lemma parse_items_texts:
  assumes "list_all2 reads ts xs" "ts \<noteq> []" "list_all is_ws w" "list_all is_ws e" "length (join (CHR '','' # w) ts) < n"
  shows "parse_items n (join (CHR '','' # w) ts @ e @ CHR '']'' # r) acc = Inr (JList (acc @ xs), r)"
  using assms(1,2,5)
proof (induction ts xs arbitrary: n acc rule: list_all2_induct)
  case (Cons t ts x xs)
  then obtain m where m: "n = Suc m" by (cases n) auto
  show ?case
  proof (cases ts)
    case Nil
    with Cons m have "parse_value m (t @ e @ CHR '']'' # r) = Inr (x, e @ CHR '']'' # r)"
      by (intro reads_parse rest_ok_blanks [OF assms(4)]) auto
    then show ?thesis using Cons.hyps(2) skip_blanks [OF assms(4)] by (simp add: m Nil)
  next
    case ne: (Cons t' ts')
    let ?tail = "join (CHR '','' # w) ts @ e @ CHR '']'' # r"
    have len: "length t + 1 + length (join (CHR '','' # w) ts) < n" using Cons.prems(2) by (simp add: ne)
    then have "parse_value m (t @ CHR '','' # w @ ?tail) = Inr (x, CHR '','' # w @ ?tail)"
      using Cons.hyps(1) m by (intro reads_parse) auto
    moreover obtain x' s where "reads t' x'" "?tail = t' @ s"
      using Cons.hyps(2) by (cases ts'; auto simp: ne list_all2_Cons1)
    then have "skip_ws (w @ ?tail) = ?tail" by (simp only: skip_blanks [OF assms(3)] skip_reads)
    moreover have "parse_items m ?tail (acc @ [x]) = Inr (JList ((acc @ [x]) @ xs), r)"
      using len m ne by (intro Cons.IH) auto
    ultimately show ?thesis by (simp add: m ne)
  qed
qed simp

text \<open>The text of a member: a quoted key, a colon, a space and the value.\<close>

definition reads_member :: "string \<Rightarrow> string \<times> json \<Rightarrow> bool" where
  "reads_member m p \<longleftrightarrow> (\<exists>kt t. m = quote # kt @ '': '' @ t \<and> (\<forall>s. parse_str (kt @ s) = Inr (fst p, s)) \<and> reads t (snd p))"

lemma reads_member_dump:
  assumes "reads t v"
  shows "reads_member (dump_str k @ '': '' @ t) (k, v)"
proof -
  have "parse_str ((concat (map escape_char k) @ [quote]) @ s) = Inr (k, s)" for s by (simp add: parse_str_dump)
  then show ?thesis using assms unfolding reads_member_def dump_str_def fst_conv snd_conv
    by (intro exI [of _ "concat (map escape_char k) @ [quote]"] exI [of _ t]) simp
qed

lemma parse_members_texts:
  assumes "list_all2 reads_member ts ps" "ts \<noteq> []" "list_all is_ws w" "list_all is_ws e" "length (join (CHR '','' # w) ts) < n"
    and "distinct (map fst (acc @ ps))"
  shows "parse_members n (join (CHR '','' # w) ts @ e @ CHR ''}'' # r) acc = Inr (JObj (acc @ ps), r)"
  using assms(1,2,5,6)
proof (induction ts ps arbitrary: n acc rule: list_all2_induct)
  case (Cons mt ts p ps)
  then obtain m where m: "n = Suc m" by (cases n) auto
  obtain kt t where mt: "mt = quote # kt @ '': '' @ t" "\<And>s. parse_str (kt @ s) = Inr (fst p, s)" "reads t (snd p)"
    using Cons.hyps(1) by (auto simp: reads_member_def)
  have colon: "skip_ws (CHR '':'' # s) = CHR '':'' # s" "skip_ws (CHR '' '' # t @ s) = t @ s" for s
    using skip_reads [OF mt(3), of s] by (simp_all add: is_ws_def)
  show ?case
  proof (cases ts)
    case Nil
    with Cons.prems m mt have "parse_value m (t @ e @ CHR ''}'' # r) = Inr (snd p, e @ CHR ''}'' # r)"
      by (intro reads_parse rest_ok_blanks [OF assms(4)]) auto
    moreover have "dict_update [] (acc @ [(fst p, snd p)]) = acc @ [p]"
      using Cons.prems(3) Cons.hyps(2) by (simp add: dict_update_new Nil)
    ultimately show ?thesis using mt(2) [of "'': '' @ t @ e @ CHR ''}'' # r"] colon skip_blanks [OF assms(4)] Cons.hyps(2)
      by (simp add: m Nil mt(1) Let_def)
  next
    case ne: (Cons t' ts')
    let ?tail = "join (CHR '','' # w) ts @ e @ CHR ''}'' # r"
    have len: "length t + 1 + length (join (CHR '','' # w) ts) < n" using Cons.prems(2) by (simp add: ne mt(1))
    then have "parse_value m (t @ CHR '','' # w @ ?tail) = Inr (snd p, CHR '','' # w @ ?tail)"
      using mt(3) m by (intro reads_parse) auto
    moreover obtain kt' where "?tail = quote # kt'"
      using Cons.hyps(2) by (cases ts'; auto simp: ne list_all2_Cons1 reads_member_def)
    then have "skip_ws (w @ ?tail) = ?tail" by (simp add: skip_blanks [OF assms(3)] is_ws_def quote_def)
    moreover have "parse_members m ?tail (acc @ [p]) = Inr (JObj ((acc @ [p]) @ ps), r)"
      using Cons.prems(3) len m ne by (intro Cons.IH) auto
    ultimately show ?thesis
      using mt(2) [of "'': '' @ t @ CHR '','' # w @ ?tail"] colon by (simp add: m ne mt(1) Let_def)
  qed
qed simp

lemma reads_list:
  assumes "list_all2 reads ts xs" "list_all is_ws b" "list_all is_ws w" "list_all is_ws e"
  shows "reads (CHR ''['' # b @ join (CHR '','' # w) ts @ e @ '']'') (JList xs)"
  unfolding reads_def
proof (intro conjI allI impI)
  fix n r assume n: "length (CHR ''['' # b @ join (CHR '','' # w) ts @ e @ '']'') \<le> n"
  then obtain m where m: "n = Suc m" by (cases n) auto
  show "parse_value n ((CHR ''['' # b @ join (CHR '','' # w) ts @ e @ '']'') @ r) = Inr (JList xs, r)"
  proof (cases ts)
    case Nil
    then show ?thesis using assms(1) skip_blanks [OF assms(2)] skip_blanks [OF assms(4)] by (simp add: m quote_def)
  next
    case (Cons t ts')
    let ?body = "join (CHR '','' # w) ts @ e @ CHR '']'' # r"
    obtain x s where x: "reads t x" "?body = t @ s"
      using assms(1) by (cases ts'; auto simp: Cons list_all2_Cons1)
    then have "skip_ws (b @ ?body) = ?body" by (simp only: skip_blanks [OF assms(2)] skip_reads)
    moreover have "hd ?body \<noteq> CHR '']''" using x by (auto simp: reads_def starts_value_def)
    moreover have "parse_items m ?body [] = Inr (JList ([] @ xs), r)"
      using n m Cons by (intro parse_items_texts [OF assms(1) _ assms(3,4)]) auto
    ultimately show ?thesis by (simp add: m quote_def Let_def)
  qed
qed (simp_all add: starts_value_def is_ws_def)

lemma reads_obj:
  assumes "list_all2 reads_member ts ps" "list_all is_ws b" "list_all is_ws w" "list_all is_ws e" "distinct (map fst ps)"
  shows "reads (CHR ''{'' # b @ join (CHR '','' # w) ts @ e @ ''}'') (JObj ps)"
  unfolding reads_def
proof (intro conjI allI impI)
  fix n r assume n: "length (CHR ''{'' # b @ join (CHR '','' # w) ts @ e @ ''}'') \<le> n"
  then obtain m where m: "n = Suc m" by (cases n) auto
  show "parse_value n ((CHR ''{'' # b @ join (CHR '','' # w) ts @ e @ ''}'') @ r) = Inr (JObj ps, r)"
  proof (cases ts)
    case Nil
    then show ?thesis using assms(1) skip_blanks [OF assms(2)] skip_blanks [OF assms(4)] by (simp add: m quote_def)
  next
    case (Cons t ts')
    let ?body = "join (CHR '','' # w) ts @ e @ CHR ''}'' # r"
    obtain kt where kt: "?body = quote # kt"
      using assms(1) by (cases ts'; auto simp: Cons list_all2_Cons1 reads_member_def)
    then have "skip_ws (b @ ?body) = ?body" "hd ?body \<noteq> CHR ''}''"
      by (simp_all add: skip_blanks [OF assms(2)] is_ws_def quote_def)
    moreover have "parse_members m ?body [] = Inr (JObj ([] @ ps), r)"
      using n m Cons assms(5) by (intro parse_members_texts [OF assms(1) _ assms(3,4)]) auto
    ultimately show ?thesis by (simp add: m quote_def Let_def)
  qed
qed (simp_all add: starts_value_def is_ws_def)

lemma parses_word:
  "parse_value (Suc n) (''null'' @ r) = Inr (JNull, r)"
  "parse_value (Suc n) (''true'' @ r) = Inr (JBool True, r)"
  "parse_value (Suc n) (''false'' @ r) = Inr (JBool False, r)"
  by (simp_all add: starts_def quote_def)

lemma reads_scalar:
  assumes "t \<noteq> []" "starts_value (hd t)" "\<And>m r. rest_ok r \<Longrightarrow> parse_value (Suc m) (t @ r) = Inr (v, r)"
  shows "reads t v"
  unfolding reads_def
proof (intro conjI allI impI)
  fix n r assume "length t \<le> n" "rest_ok r"
  then show "parse_value n (t @ r) = Inr (v, r)" using assms by (cases n) auto
qed (rule assms)+

lemma reads_null: "reads ''null'' JNull" and reads_true: "reads ''true'' (JBool True)" and reads_false: "reads ''false'' (JBool False)"
  by (rule reads_scalar; (simp add: starts_value_def is_ws_def; fail)?; use parses_word in simp)+

lemma reads_int: "reads (int_str i) (JInt i)"
proof (rule reads_scalar)
  show "int_str i \<noteq> []" "starts_value (hd (int_str i))" using dumps_starts [of "JInt i"] by auto
qed (rule parse_value_int)

lemma reads_str: "reads (dump_str t) (JStr t)"
  by (rule reads_scalar) (simp_all only: parse_value_str, simp_all add: dump_str_def starts_value_def is_ws_def quote_def)

lemma reads_dumps: "json_wf v \<Longrightarrow> reads (dumps v) v"
proof (induction v rule: json_wf.induct)
  case (1 xs)
  then have "list_all2 reads (map dumps xs) xs" by (simp add: list_all2_map1 list_all_iff list_all2_same)
  from reads_list [OF this, of "[]" "'' ''" "[]"] show ?case by (simp add: is_ws_def)
next
  case (2 ps)
  then have "list_all2 reads_member (map (\<lambda>(k, v). dump_str k @ '': '' @ dumps v) ps) ps"
    by (auto simp: list_all2_map1 list_all2_same list_all_iff intro: reads_member_dump [simplified])
  from reads_obj [OF this, of "[]" "'' ''" "[]"] 2 show ?case by (simp add: is_ws_def)
next
  case "3_2"
  then show ?case by (simp add: reads_true reads_false)
qed (simp_all add: reads_null reads_int reads_str)

text \<open>A document may have white space after its value.\<close>

lemma loads_reads: "reads t v \<Longrightarrow> list_all is_ws e \<Longrightarrow> loads (t @ e) = Inr v"
proof -
  assume t: "reads t v" and e: "list_all is_ws e"
  have "parse_value (Suc (length (t @ e))) (t @ e) = Inr (v, e)"
    using t rest_ok_blanks [OF e, of "[]"] by (intro reads_parse) (simp_all add: rest_ok_def)
  moreover have "skip_ws e = []" using skip_blanks [OF e, of "[]"] by simp
  ultimately show ?thesis using skip_reads [OF t, of e] by (simp add: loads_def del: parse_value.simps)
qed

text \<open>Parsing what was printed gives the value back, from the text and from its bytes.\<close>

lemma loads_dumps: "json_wf v \<Longrightarrow> loads (dumps v) = Inr v"
  using loads_reads [OF reads_dumps, of v "[]"] by simp

abbreviation dump_member :: "string \<times> json \<Rightarrow> string" where
  "dump_member \<equiv> \<lambda>(k, v). dump_str k @ '': '' @ dumps v"

lemma utf8_round: "utf8_decode (utf8_encode s) = s"
  by (induction s) (simp_all add: utf8_decode_def utf8_encode_def unat_of_nat char_code_less)

lemma length_utf8_encode [simp]: "length (utf8_encode s) = length s"
  by (simp add: utf8_encode_def)

lemma loads_wire: "json_wf v \<Longrightarrow> loads (utf8_decode (utf8_encode (dumps v))) = Inr v"
  by (simp add: utf8_round loads_dumps)

end
