(* ===== verification/JsonValue.thy ===== *)
theory JsonValue
  imports Json Complex_Main
begin

text \<open>
  What the program does with a parsed JSON value: \<open>get\<close> and subscripts on a dictionary, iteration,
  membership, truth, and the conversions \<open>int\<close>, \<open>str\<close> and \<open>float\<close>.  A value on which the method does not
  exist gives Python's exception; a conversion whose result the model cannot represent (the
  \<open>repr\<close> of a container, a float written as a string) gives \<open>NotImplementedError\<close>.
\<close>

section \<open>Access\<close>

definition json_get :: "json \<Rightarrow> string \<Rightarrow> json option res" where
  "json_get req k = (case req of JObj ps \<Rightarrow> Inr (dict_get ps k) | _ \<Rightarrow> Inl AttributeError)"

definition json_item :: "json \<Rightarrow> string \<Rightarrow> json res" where
  "json_item req k =
     (case req of
        JObj ps \<Rightarrow> (case dict_get ps k of None \<Rightarrow> Inl KeyError | Some v \<Rightarrow> Inr v)
      | _ \<Rightarrow> Inl TypeError)"

text \<open>
  \<open>int(s)\<close>: surrounding whitespace, a sign, digits with single underscores between them, at most 4300
  digits.  Strings that are not ASCII are outside the model.
\<close>

definition is_blank :: "char \<Rightarrow> bool" where
  "is_blank c \<longleftrightarrow> (of_char c :: nat) \<in> {9, 10, 11, 12, 13, 32}"

definition strip :: "('a \<Rightarrow> bool) \<Rightarrow> 'a list \<Rightarrow> 'a list" where
  "strip blank s = rev (dropWhile blank (rev (dropWhile blank s)))"

fun grouped_digits :: "string \<Rightarrow> string option" where
  "grouped_digits [] = None"
| "grouped_digits [c] = (if is_digit c then Some [c] else None)"
| "grouped_digits (c # d # cs) =
     (if \<not> is_digit c then None
      else if d = CHR ''_'' then map_option ((#) c) (grouped_digits cs)
      else map_option ((#) c) (grouped_digits (d # cs)))"

definition int_of_str :: "string \<Rightarrow> int res" where
  "int_of_str s =
     (if \<exists>c \<in> set s. 128 \<le> (of_char c :: nat) then Inl NotImplementedError
      else let s = strip is_blank s;
               neg = (s \<noteq> [] \<and> hd s = CHR ''-'');
               ds = (if s \<noteq> [] \<and> hd s \<in> {CHR ''-'', CHR ''+''} then tl s else s)
           in case grouped_digits ds of
                None \<Rightarrow> Inl ValueError
              | Some ds \<Rightarrow> (if 4300 < length ds then Inl ValueError
                  else Inr (if neg then - int (digits_val ds) else int (digits_val ds))))"

definition py_int :: "json \<Rightarrow> int res" where
  "py_int v =
     (case v of
        JInt i \<Rightarrow> Inr i
      | JBool b \<Rightarrow> Inr (if b then 1 else 0)
      | JStr s \<Rightarrow> int_of_str s
      | _ \<Rightarrow> Inl TypeError)"

definition json_iter :: "json \<Rightarrow> json list res" where
  "json_iter v =
     (case v of
        JList xs \<Rightarrow> Inr xs
      | JStr s \<Rightarrow> Inr (map (\<lambda>c. JStr [c]) s)
      | JObj ps \<Rightarrow> Inr (map (\<lambda>p. JStr (fst p)) ps)
      | _ \<Rightarrow> Inl TypeError)"

section \<open>Truth, membership and text\<close>

text \<open>Python's truth value.\<close>

definition truthy :: "json \<Rightarrow> bool" where
  "truthy v =
     (case v of
        JNull \<Rightarrow> False
      | JBool b \<Rightarrow> b
      | JInt i \<Rightarrow> i \<noteq> 0
      | JStr s \<Rightarrow> s \<noteq> []
      | JList xs \<Rightarrow> xs \<noteq> []
      | JObj ps \<Rightarrow> ps \<noteq> [])"

definition is_true :: "json option \<Rightarrow> bool" where
  "is_true v = (case v of None \<Rightarrow> False | Some v \<Rightarrow> truthy v)"

text \<open>\<open>k in v\<close>: a key, an element or a substring.\<close>

definition is_infix :: "'a list \<Rightarrow> 'a list \<Rightarrow> bool" where
  "is_infix w s \<longleftrightarrow> (\<exists>i \<in> set [0..<Suc (length s)]. take (length w) (drop i s) = w)"

definition ends_with :: "string \<Rightarrow> string \<Rightarrow> bool" where
  "ends_with w s \<longleftrightarrow> length w \<le> length s \<and> drop (length s - length w) s = w"

definition json_in :: "string \<Rightarrow> json \<Rightarrow> bool res" where
  "json_in k v =
     (case v of
        JObj ps \<Rightarrow> Inr (dict_get ps k \<noteq> None)
      | JList xs \<Rightarrow> Inr (JStr k \<in> set xs)
      | JStr s \<Rightarrow> Inr (is_infix k s)
      | _ \<Rightarrow> Inl TypeError)"

definition py_str :: "json \<Rightarrow> string res" where
  "py_str v =
     (case v of
        JNull \<Rightarrow> Inr ''None''
      | JBool b \<Rightarrow> Inr (if b then ''True'' else ''False'')
      | JInt i \<Rightarrow> Inr (int_str i)
      | JStr s \<Rightarrow> Inr s
      | _ \<Rightarrow> Inl NotImplementedError)"

definition py_float :: "json \<Rightarrow> rat res" where
  "py_float v =
     (case v of
        JInt i \<Rightarrow> Inr (of_int i)
      | JBool b \<Rightarrow> Inr (if b then 1 else 0)
      | JStr s \<Rightarrow> Inl NotImplementedError
      | _ \<Rightarrow> Inl TypeError)"

text \<open>\<open>d.get(k) or x\<close>.\<close>

definition get_or :: "json \<Rightarrow> string \<Rightarrow> json \<Rightarrow> json res" where
  "get_or d k x = rmap (\<lambda>v. if is_true v then the v else x) (json_get d k)"

text \<open>Only a string can be a file name (or the name of a table).\<close>

definition as_name :: "json \<Rightarrow> string res" where
  "as_name v = (case v of JStr s \<Rightarrow> Inr s | _ \<Rightarrow> Inl TypeError)"

lemma json_get_obj [simp]: "json_get (JObj ps) k = Inr (dict_get ps k)"
  by (simp add: json_get_def)

lemma json_item_obj: "json_item (JObj ps) k = (case dict_get ps k of None \<Rightarrow> Inl KeyError | Some v \<Rightarrow> Inr v)"
  by (simp add: json_item_def)

lemma json_in_obj [simp]: "json_in k (JObj ps) = Inr (dict_get ps k \<noteq> None)"
  by (simp add: json_in_def)

end
