(* ===== verification/PyPath.thy ===== *)
theory PyPath
  imports Prelude
begin

text \<open>
  What the program uses of \<open>pathlib\<close> (POSIX flavour): the text of a path after normalisation, joining, the parent, and
  whether a path is absolute.  A path is a root (\<open>''\<close>, \<open>/\<close> or \<open>//\<close>) and its components; empty components and
  \<open>.\<close> are dropped.
\<close>

fun split_on :: "'a \<Rightarrow> 'a list \<Rightarrow> 'a list list" where
  "split_on sep [] = [[]]"
| "split_on sep (c # cs) =
     (if c = sep then [] # split_on sep cs
      else (case split_on sep cs of [] \<Rightarrow> [[c]] | p # ps \<Rightarrow> (c # p) # ps))"

fun join_with :: "'a list \<Rightarrow> 'a list list \<Rightarrow> 'a list" where
  "join_with sep [] = []"
| "join_with sep [x] = x"
| "join_with sep (x # y # xs) = x @ sep @ join_with sep (y # xs)"

abbreviation slash :: char where
  "slash \<equiv> CHR ''/''"

definition path_root :: "string \<Rightarrow> string" where
  "path_root s =
     (case s of
        a # b # r \<Rightarrow> (if a \<noteq> slash then [] else if b = slash \<and> (r = [] \<or> hd r \<noteq> slash) then [slash, slash] else [slash])
      | [a] \<Rightarrow> (if a = slash then [slash] else [])
      | [] \<Rightarrow> [])"

definition path_parts :: "string \<Rightarrow> string list" where
  "path_parts s = filter (\<lambda>p. p \<noteq> [] \<and> p \<noteq> ''.'') (split_on slash s)"

definition path_text :: "string \<Rightarrow> string list \<Rightarrow> string" where
  "path_text root parts = (if root = [] \<and> parts = [] then ''.'' else root @ join_with [slash] parts)"

text \<open>\<open>str(Path(s))\<close>, \<open>Path(s).is_absolute()\<close>, \<open>str(Path(a) / b)\<close> and \<open>str(Path(s).parent)\<close>.\<close>

definition py_path :: "string \<Rightarrow> string" where
  "py_path s = path_text (path_root s) (path_parts s)"

definition is_absolute :: "string \<Rightarrow> bool" where
  "is_absolute s \<longleftrightarrow> path_root s \<noteq> []"

definition path_div :: "string \<Rightarrow> string \<Rightarrow> string" where
  "path_div a b =
     (if is_absolute b then py_path b else path_text (path_root a) (path_parts a @ path_parts b))"

definition path_parent :: "string \<Rightarrow> string" where
  "path_parent s = path_text (path_root s) (butlast (path_parts s))"

section \<open>Normalisation is idempotent\<close>

definition part_ok :: "string \<Rightarrow> bool" where
  "part_ok p \<longleftrightarrow> p \<noteq> [] \<and> p \<noteq> ''.'' \<and> slash \<notin> set p"

definition root_ok :: "string \<Rightarrow> bool" where
  "root_ok r \<longleftrightarrow> r \<in> {[], [slash], [slash, slash]}"

lemma split_on_nonempty: "split_on sep s \<noteq> []"
  by (cases s) (auto split: list.splits)

lemma split_on_parts: "p \<in> set (split_on sep s) \<Longrightarrow> sep \<notin> set p"
  by (induction s arbitrary: p) (fastforce split: list.splits if_splits)+

lemma path_parts_ok: "list_all part_ok (path_parts s)"
  by (auto simp: list_all_iff path_parts_def part_ok_def dest: split_on_parts)

lemma path_root_ok: "root_ok (path_root s)"
  by (auto simp: root_ok_def path_root_def split: list.splits)

lemma split_on_sep: "sep \<notin> set p \<Longrightarrow> split_on sep (p @ sep # s) = p # split_on sep s"
  by (induction p) auto

lemma split_on_one: "sep \<notin> set p \<Longrightarrow> split_on sep p = [p]"
  by (induction p) auto

lemma split_join: "list_all (\<lambda>p. sep \<notin> set p) ps \<Longrightarrow> ps \<noteq> [] \<Longrightarrow> split_on sep (join_with [sep] ps) = ps"
  by (induction "[sep]" ps rule: join_with.induct) (simp_all add: split_on_one split_on_sep)

lemma filter_parts: "list_all part_ok ps \<Longrightarrow> filter (\<lambda>p. p \<noteq> [] \<and> p \<noteq> ''.'') ps = ps"
  by (induction ps) (auto simp: part_ok_def)

lemma parts_of_join: "list_all part_ok ps \<Longrightarrow> path_parts (join_with [slash] ps) = ps"
proof (cases "ps = []")
  case False
  assume ok: "list_all part_ok ps"
  then have "list_all (\<lambda>p. slash \<notin> set p) ps" by (auto simp: list_all_iff part_ok_def)
  then show ?thesis using ok False by (simp add: path_parts_def split_join filter_parts)
qed (simp add: path_parts_def)

lemma parts_slash: "path_parts (slash # s) = path_parts s"
  by (simp add: path_parts_def)

lemma join_start: "list_all part_ok (p # ps) \<Longrightarrow> \<exists>c r. join_with [slash] (p # ps) = c # r \<and> c \<noteq> slash"
  by (cases ps; cases p) (auto simp: part_ok_def)

lemma path_text_spec:
  assumes "root_ok root" "list_all part_ok ps"
  shows "path_root (path_text root ps) = root \<and> path_parts (path_text root ps) = ps"
proof (cases ps)
  case Nil
  then show ?thesis using assms(1) by (auto simp: path_text_def root_ok_def path_root_def path_parts_def)
next
  case (Cons p qs)
  obtain c r where j: "join_with [slash] ps = c # r" "c \<noteq> slash" using join_start assms(2) Cons by blast
  have "path_root (root @ c # r) = root" using assms(1) j(2) by (auto simp: root_ok_def path_root_def split: list.splits)
  moreover have "path_parts (root @ c # r) = path_parts (c # r)" using assms(1) by (auto simp: root_ok_def parts_slash)
  moreover have "path_parts (c # r) = ps" using parts_of_join [OF assms(2)] j(1) by simp
  ultimately show ?thesis using j(1) Cons by (simp add: path_text_def)
qed

lemma py_path_spec: "path_root (py_path s) = path_root s" "path_parts (py_path s) = path_parts s"
  using path_text_spec [OF path_root_ok path_parts_ok, of s] by (simp_all add: py_path_def)

lemma is_absolute_py_path [simp]: "is_absolute (py_path s) = is_absolute s"
  by (simp add: is_absolute_def py_path_spec)

lemma py_path_idem [simp]: "py_path (py_path s) = py_path s"
  by (metis py_path_def py_path_spec)

lemma path_div_spec:
  "\<not> is_absolute b \<Longrightarrow> path_root (path_div a b) = path_root a \<and> path_parts (path_div a b) = path_parts a @ path_parts b"
  using path_text_spec [OF path_root_ok [of a], of "path_parts a @ path_parts b"] path_parts_ok [of a] path_parts_ok [of b]
  by (simp add: path_div_def)

lemma py_path_div [simp]: "py_path (path_div a b) = path_div a b"
proof (cases "is_absolute b")
  case False
  then show ?thesis using path_div_spec [of b a] by (simp add: py_path_def) (simp add: path_div_def)
qed (simp add: path_div_def)

lemma is_absolute_div: "is_absolute a \<or> is_absolute b \<Longrightarrow> is_absolute (path_div a b)"
proof (cases "is_absolute b")
  case False
  assume "is_absolute a \<or> is_absolute b"
  then show ?thesis using False path_div_spec [OF False, of a] by (simp add: is_absolute_def)
qed (simp add: path_div_def is_absolute_def py_path_spec)

end
