(* ===== verification/Service.thy ===== *)
theory Service
  imports Tables JsonValue
begin

text \<open>
  \<open>python/engramdb/server.py\<close> and \<open>python/engramdb/service_client.py\<close>: the length-prefixed binary
  protocol, its server loop and its client, and the newline-delimited JSON loop.

  A stream is the list of the pieces in which the bytes arrive; its end is the end of the connection.
  A call that would wait for a pooled handle is \<open>None\<close>.  The registry is shared by all connections; one
  request is one transition of it.  Socket timeouts are not modelled, and the
  text of an exception is an argument (\<open>sv_repr\<close>) that depends on the request and the exception class.
\<close>

section \<open>Streams\<close>

type_synonym stream = "bytes list"

definition stream_read :: "nat \<Rightarrow> stream \<Rightarrow> bytes \<times> stream" where
  "stream_read n s =
     (case s of
        [] \<Rightarrow> ([], [])
      | c # cs \<Rightarrow> if length c \<le> n then (c, cs) else (take n c, drop n c # cs))"

function read_loop :: "nat \<Rightarrow> stream \<Rightarrow> bytes list \<Rightarrow> bytes list \<times> stream" where
  "read_loop remaining s parts =
     (if remaining = 0 then (parts, s)
      else case stream_read remaining s of (chunk, s') \<Rightarrow>
        if chunk = [] then (parts, s') else read_loop (remaining - length chunk) s' (parts @ [chunk]))"
  by pat_completeness auto
termination
  by (relation "measure (\<lambda>(remaining, s, parts). remaining)") auto

declare read_loop.simps [simp del]

definition read_exact :: "nat \<Rightarrow> stream \<Rightarrow> bytes \<times> stream" where
  "read_exact n s = (case read_loop n s [] of (parts, s') \<Rightarrow> (concat parts, s'))"

text \<open>The client's loop raises where the server's stops.\<close>

function recv_loop :: "nat \<Rightarrow> stream \<Rightarrow> bytes list \<Rightarrow> bytes list res \<times> stream" where
  "recv_loop remaining s parts =
     (if remaining = 0 then (Inr parts, s)
      else case stream_read remaining s of (chunk, s') \<Rightarrow>
        if chunk = [] then (Inl ConnectionError, s')
        else recv_loop (remaining - length chunk) s' (parts @ [chunk]))"
  by pat_completeness auto
termination
  by (relation "measure (\<lambda>(remaining, s, parts). remaining)") auto

declare recv_loop.simps [simp del]

definition recv_exact :: "nat \<Rightarrow> stream \<Rightarrow> bytes res \<times> stream" where
  "recv_exact n s = (case recv_loop n s [] of (r, s') \<Rightarrow> (rmap concat r, s'))"

text \<open>The pieces are not empty: an empty read is the end of the stream.\<close>

definition stream_ok :: "stream \<Rightarrow> bool" where
  "stream_ok s \<longleftrightarrow> [] \<notin> set s"

lemma stream_read_all: "stream_read n s = (c, s') \<Longrightarrow> c @ concat s' = concat s \<and> length c \<le> n"
  by (auto simp: stream_read_def split: list.splits if_splits)

lemma stream_read_ok:
  assumes "stream_ok s" "stream_read n s = (c, s')"
  shows "stream_ok s'" "0 < n \<Longrightarrow> c = [] \<Longrightarrow> s = []"
  using assms by (auto simp: stream_ok_def stream_read_def split: list.splits if_splits)

lemma read_loop_length:
  "read_loop n s cs = (cs', s') \<Longrightarrow> length (concat cs') + length (concat s') = length (concat cs) + length (concat s)"
proof (induction n s cs rule: read_loop.induct)
  case (1 n s cs)
  obtain c t where r: "stream_read n s = (c, t)" by fastforce
  have l: "length (concat s) = length c + length (concat t)"
    using stream_read_all [OF r] by (metis length_append)
  have "read_loop n s cs = (if n = 0 then (cs, s) else if c = [] then (cs, t) else read_loop (n - length c) t (cs @ [c]))"
    by (subst read_loop.simps) (simp add: r)
  then show ?case using 1(1) [OF _ r [symmetric]] 1(2) r l by (auto split: if_splits)
qed

lemma read_exact_length: "read_exact n s = (b, s') \<Longrightarrow> length b + length (concat s') = length (concat s)"
  using read_loop_length [of n s "[]"] by (auto simp: read_exact_def split: prod.splits)

lemma read_loop_spec:
  "stream_ok s \<Longrightarrow> \<exists>cs' s'. read_loop n s cs = (cs', s') \<and> concat cs' = concat cs @ take n (concat s)
     \<and> concat s' = drop n (concat s) \<and> stream_ok s'"
proof (induction n s cs rule: read_loop.induct)
  case (1 n s cs)
  obtain c t where r: "stream_read n s = (c, t)" by fastforce
  note all = stream_read_all [OF r] and ok = stream_read_ok [OF 1(2) r]
  show ?case
  proof (cases "n = 0 \<or> c = []")
    case True
    then show ?thesis using r all ok 1(2) by (subst read_loop.simps) (cases "n = 0"; auto)
  next
    case False
    then obtain cs' s' where "read_loop (n - length c) t (cs @ [c]) = (cs', s')"
        "concat cs' = concat (cs @ [c]) @ take (n - length c) (concat t)"
        "concat s' = drop (n - length c) (concat t)" "stream_ok s'"
      using 1(1) [OF _ r [symmetric]] ok(1) by fastforce
    moreover have "concat s = c @ concat t" "length c \<le> n" using all by simp_all
    ultimately show ?thesis using False r by (subst read_loop.simps) (auto simp: take_append drop_append)
  qed
qed

lemma read_exact_spec:
  "stream_ok s \<Longrightarrow> \<exists>s'. read_exact n s = (take n (concat s), s') \<and> concat s' = drop n (concat s) \<and> stream_ok s'"
  using read_loop_spec [of s n "[]"] by (fastforce simp: read_exact_def)

lemma recv_loop_read_loop:
  "stream_ok s \<Longrightarrow> n \<le> length (concat s) \<Longrightarrow> recv_loop n s cs = (case read_loop n s cs of (cs', s') \<Rightarrow> (Inr cs', s'))"
proof (induction n s cs rule: read_loop.induct)
  case (1 n s cs)
  obtain c t where r: "stream_read n s = (c, t)" by fastforce
  note all = stream_read_all [OF r] and ok = stream_read_ok [OF 1(2) r]
  show ?case
  proof (cases "n = 0")
    case True
    then show ?thesis by (simp add: recv_loop.simps read_loop.simps)
  next
    case False
    then have "c \<noteq> []" using ok(2) 1(3) by auto
    moreover have "n - length c \<le> length (concat t)"
      using 1(3) all by (metis diff_le_mono add_diff_cancel_left' length_append)
    ultimately have "recv_loop (n - length c) t (cs @ [c])
        = (case read_loop (n - length c) t (cs @ [c]) of (cs', s') \<Rightarrow> (Inr cs', s'))"
      using 1(1) [OF _ r [symmetric]] ok(1) False by simp
    then show ?thesis
      using False r \<open>c \<noteq> []\<close> by (subst recv_loop.simps, subst read_loop.simps) simp
  qed
qed

lemma recv_exact_spec:
  assumes "stream_ok s" "n \<le> length (concat s)"
  shows "\<exists>s'. recv_exact n s = (Inr (take n (concat s)), s') \<and> concat s' = drop n (concat s) \<and> stream_ok s'"
  using read_loop_spec [OF assms(1), of n "[]"] recv_loop_read_loop [OF assms, of "[]"]
  by (auto simp: recv_exact_def)

section \<open>Reading a request\<close>

definition req_rowids :: "json \<Rightarrow> int list res" where
  "req_rowids req =
     rbind (json_get req ''rowids'') (\<lambda>v. rbind (json_iter (case v of None \<Rightarrow> JList [] | Some v \<Rightarrow> v)) (rmapM py_int))"

definition req_int :: "json \<Rightarrow> string \<Rightarrow> int res" where
  "req_int req k = rbind (json_item req k) py_int"

section \<open>Commands\<close>

record 'tab service =
  sv_fs :: file_system
  sv_pyarrow :: "'tab pyarrow option"
  sv_repr :: "bytes \<Rightarrow> py_error \<Rightarrow> string"

definition KIND_JSON :: nat where "KIND_JSON = 0"
definition KIND_RAW :: nat where "KIND_RAW = 1"
definition KIND_ARROW :: nat where "KIND_ARROW = 2"

definition json_response :: "json \<Rightarrow> nat \<times> bytes" where
  "json_response obj = (KIND_JSON, utf8_encode (dumps obj))"

definition fetch_args :: "json \<Rightarrow> (string \<times> int list \<times> int \<times> int \<times> int) res" where
  "fetch_args req =
     rbind (json_item req ''table'') (\<lambda>table. rbind (req_rowids req) (\<lambda>rowids.
       rbind (req_int req ''shards'') (\<lambda>shards. rbind (req_int req ''rows_per_shard'') (\<lambda>rows_per_shard.
         rbind (req_int req ''width'') (\<lambda>width. rbind (as_name table) (\<lambda>name.
           Inr (name, rowids, shards, rows_per_shard, width)))))))"

definition service_fetch :: "'tab service \<Rightarrow> json \<Rightarrow> database \<Rightarrow> (bytes res \<times> database) option" where
  "service_fetch svc req db =
     (case fetch_args req of
        Inl e \<Rightarrow> Some (Inl e, db)
      | Inr (name, rowids, shards, rows_per_shard, width) \<Rightarrow>
          db_fetch (sv_fs svc) name rowids shards rows_per_shard width db)"

text \<open>A store is opened and closed for the request; the path is made before the numbers are read.\<close>

definition arrow_args :: "'tab service \<Rightarrow> json \<Rightarrow> database \<Rightarrow> (native_store \<times> int list) res" where
  "arrow_args svc req db =
     rbind (json_item req ''table'') (\<lambda>table. rbind (req_rowids req) (\<lambda>rowids. rbind (as_name table) (\<lambda>name.
       rbind (req_int req ''shards'') (\<lambda>shards. rbind (req_int req ''rows_per_shard'') (\<lambda>rows_per_shard.
         rbind (req_int req ''width'') (\<lambda>width.
           rmap (\<lambda>store. (store, rowids))
             (open_native (sv_fs svc) (path_join (db_root db) name) shards rows_per_shard width)))))))"

definition service_arrow :: "'tab service \<Rightarrow> json \<Rightarrow> database \<Rightarrow> (int list \<times> bytes) res" where
  "service_arrow svc req db =
     rbind (arrow_args svc req db) (\<lambda>(store, rowids).
       rbind (store_fetch_arrow (sv_pyarrow svc) store rowids) (\<lambda>tab.
         rmap (\<lambda>ipc. (rowids, ipc)) (table_to_ipc_bytes (sv_pyarrow svc) tab)))"

definition service_view :: "'tab service \<Rightarrow> json \<Rightarrow> (int \<times> bytes) res" where
  "service_view svc req =
     rbind (json_item req ''path'') (\<lambda>p. rbind (as_name p) (\<lambda>path. rbind (fs_view (sv_fs svc) path) (\<lambda>view.
       rbind (req_int req ''index'') (\<lambda>index. rmap (\<lambda>data. (index, data)) (read_record view index)))))"

definition tables_json :: "'tab service \<Rightarrow> database \<Rightarrow> json" where
  "tables_json svc db = JObj [(''ok'', JBool True), (''tables'', JList (map JStr (list_tables (sv_fs svc) db)))]"

definition pong_json :: json where
  "pong_json = JObj [(''ok'', JBool True), (''pong'', JBool True)]"

definition error_json :: "string \<Rightarrow> json" where
  "error_json msg = JObj [(''ok'', JBool False), (''error'', JStr msg)]"

definition binary_dispatch :: "'tab service \<Rightarrow> json \<Rightarrow> database \<Rightarrow> ((nat \<times> bytes) res \<times> database) option" where
  "binary_dispatch svc req db =
     (case json_get req ''cmd'' of
        Inl e \<Rightarrow> Some (Inl e, db)
      | Inr cmd \<Rightarrow>
          if cmd = Some (JStr ''ping'') then Some (Inr (json_response pong_json), db)
          else if cmd = Some (JStr ''list_tables'') then Some (Inr (json_response (tables_json svc db)), db)
          else if cmd = Some (JStr ''fetch_raw'') then
            map_option (\<lambda>(r, db). (rmap (\<lambda>raw. (KIND_RAW, raw)) r, db)) (service_fetch svc req db)
          else if cmd = Some (JStr ''fetch_arrow'') then
            Some (rmap (\<lambda>(rowids, ipc). (KIND_ARROW, ipc)) (service_arrow svc req db), db)
          else if cmd = Some (JStr ''view_read'') then
            Some (rmap (\<lambda>(index, data). (KIND_RAW, data)) (service_view svc req), db)
          else Some (Inl ValueError, db))"

section \<open>The binary connection\<close>

text \<open>\<open>except Exception\<close> does not catch what PyO3 raises for a panic.\<close>

definition is_exception :: "py_error \<Rightarrow> bool" where
  "is_exception e \<longleftrightarrow> e \<noteq> PanicException"

definition binary_reply :: "'tab service \<Rightarrow> bytes \<Rightarrow> database \<Rightarrow> ((nat \<times> bytes) res \<times> database) option" where
  "binary_reply svc body db =
     (case (case loads (utf8_decode body) of Inl e \<Rightarrow> Some (Inl e, db) | Inr req \<Rightarrow> binary_dispatch svc req db) of
        None \<Rightarrow> None
      | Some (Inr kp, db) \<Rightarrow> Some (Inr kp, db)
      | Some (Inl e, db) \<Rightarrow>
          Some (if is_exception e then Inr (json_response (error_json (sv_repr svc body e))) else Inl e, db))"

text \<open>How a connection ends: the peer closed it, an exception left the handler, or it waits for a handle.\<close>

datatype conn_end = Closed | Failed py_error | Waiting

definition binary_frame :: "nat \<times> bytes \<Rightarrow> bytes" where
  "binary_frame kp = word_of_nat (fst kp) # snd kp"

function binary_handle :: "'tab service \<Rightarrow> stream \<Rightarrow> database \<Rightarrow> bytes \<Rightarrow> bytes \<times> database \<times> conn_end" where
  "binary_handle svc s db out =
     (case read_exact 4 s of (header, s1) \<Rightarrow>
        if length header < 4 then (out, db, Closed)
        else case read_exact (from_be header) s1 of (body, s2) \<Rightarrow>
          (case binary_reply svc body db of
             None \<Rightarrow> (out, db, Waiting)
           | Some (Inl e, db) \<Rightarrow> (out, db, Failed e)
           | Some (Inr kp, db) \<Rightarrow>
               (case to_bytes4_be (length (binary_frame kp)) of
                  Inl e \<Rightarrow> (out, db, Failed e)
                | Inr h \<Rightarrow> binary_handle svc s2 db (out @ h @ binary_frame kp))))"
  by pat_completeness auto
termination
  by (relation "measure (\<lambda>(svc, s, db, out). length (concat s))") (auto dest!: read_exact_length [OF sym])

declare binary_handle.simps [simp del]

section \<open>The JSON-lines connection\<close>

text \<open>Standard base64.\<close>

definition b64_char :: "nat \<Rightarrow> char" where
  "b64_char n =
     (if n < 26 then char_of (65 + n) else if n < 52 then char_of (71 + n)
      else if n < 62 then char_of (n - 4) else if n = 62 then CHR ''+'' else CHR ''/'')"

fun b64encode :: "bytes \<Rightarrow> string" where
  "b64encode [] = []"
| "b64encode [a] = [b64_char (unat a div 4), b64_char (unat a mod 4 * 16), CHR ''='', CHR ''='']"
| "b64encode [a, b] =
     [b64_char (unat a div 4), b64_char (unat a mod 4 * 16 + unat b div 16), b64_char (unat b mod 16 * 4), CHR ''='']"
| "b64encode (a # b # c # bs) =
     b64_char (unat a div 4) # b64_char (unat a mod 4 * 16 + unat b div 16)
     # b64_char (unat b mod 16 * 4 + unat c div 64) # b64_char (unat c mod 64) # b64encode bs"

definition json_dispatch :: "'tab service \<Rightarrow> json \<Rightarrow> database \<Rightarrow> (json res \<times> database) option" where
  "json_dispatch svc req db =
     (case json_get req ''cmd'' of
        Inl e \<Rightarrow> Some (Inl e, db)
      | Inr cmd \<Rightarrow>
          if cmd = Some (JStr ''ping'') then Some (Inr pong_json, db)
          else if cmd = Some (JStr ''list_tables'') then Some (Inr (tables_json svc db), db)
          else if cmd = Some (JStr ''fetch'') then
            map_option (\<lambda>(r, db). (rbind r (\<lambda>raw. rbind (req_rowids req) (\<lambda>rowids. rbind (req_int req ''width'') (\<lambda>width.
              Inr (JObj [(''ok'', JBool True), (''rowids'', JList (map JInt rowids)), (''width'', JInt width),
                (''raw_base64'', JStr (b64encode raw))])))), db)) (service_fetch svc req db)
          else if cmd = Some (JStr ''fetch_arrow'') then
            Some (rmap (\<lambda>(rowids, ipc). JObj [(''ok'', JBool True), (''num_rows'', JInt (int (length rowids))),
              (''ipc_base64'', JStr (b64encode ipc))]) (service_arrow svc req db), db)
          else if cmd = Some (JStr ''view_read'') then
            Some (rmap (\<lambda>(index, data). JObj [(''ok'', JBool True), (''index'', JInt index),
              (''slot_base64'', JStr (b64encode data))]) (service_view svc req), db)
          else Some (Inl ValueError, db))"

definition json_reply :: "'tab service \<Rightarrow> bytes \<Rightarrow> database \<Rightarrow> (json res \<times> database) option" where
  "json_reply svc line db =
     (case (case loads (utf8_decode line) of Inl e \<Rightarrow> Some (Inl e, db) | Inr req \<Rightarrow> json_dispatch svc req db) of
        None \<Rightarrow> None
      | Some (Inr resp, db) \<Rightarrow> Some (Inr resp, db)
      | Some (Inl e, db) \<Rightarrow>
          Some (if is_exception e then Inr (error_json (sv_repr svc line e)) else Inl e, db))"

definition blank_byte :: "byte \<Rightarrow> bool" where
  "blank_byte b \<longleftrightarrow> unat b \<in> {9, 10, 11, 12, 13, 32}"

definition json_line :: "json \<Rightarrow> bytes" where
  "json_line resp = utf8_encode (dumps resp @ [CHR 0x0A])"

text \<open>The loop over the lines of the connection.\<close>

fun json_handle :: "'tab service \<Rightarrow> bytes list \<Rightarrow> database \<Rightarrow> bytes \<Rightarrow> bytes \<times> database \<times> conn_end" where
  "json_handle svc [] db out = (out, db, Closed)"
| "json_handle svc (line # lines) db out =
     (let line = strip blank_byte line
      in if line = [] then json_handle svc lines db out
         else case json_reply svc line db of
                None \<Rightarrow> (out, db, Waiting)
              | Some (Inl e, db) \<Rightarrow> (out, db, Failed e)
              | Some (Inr resp, db) \<Rightarrow> json_handle svc lines db (out @ json_line resp))"

section \<open>The client\<close>

text \<open>\<open>cl_in\<close> is what the connection will deliver, \<open>cl_out\<close> what was sent.\<close>

record client =
  cl_in :: stream
  cl_out :: bytes

definition client_send :: "json \<Rightarrow> client \<Rightarrow> client res" where
  "client_send req c =
     (let body = utf8_encode (dumps req)
      in rmap (\<lambda>h. c\<lparr>cl_out := cl_out c @ h @ body\<rparr>) (to_bytes4_be (length body)))"

definition client_receive :: "client \<Rightarrow> (nat \<times> bytes) res \<times> client" where
  "client_receive c =
     (case recv_exact 4 (cl_in c) of
        (Inl e, s) \<Rightarrow> (Inl e, c\<lparr>cl_in := s\<rparr>)
      | (Inr header, s) \<Rightarrow>
          (case recv_exact (from_be header) s of
             (Inl e, s) \<Rightarrow> (Inl e, c\<lparr>cl_in := s\<rparr>)
           | (Inr frame, s) \<Rightarrow>
               (case frame of
                  [] \<Rightarrow> (Inl ConnectionError, c\<lparr>cl_in := s\<rparr>)
                | k # payload \<Rightarrow> (Inr (unat k, payload), c\<lparr>cl_in := s\<rparr>))))"

definition client_request :: "json \<Rightarrow> client \<Rightarrow> (nat \<times> bytes) res \<times> client" where
  "client_request req c =
     (case client_send req c of Inl e \<Rightarrow> (Inl e, c) | Inr c \<Rightarrow> client_receive c)"

definition client_json :: "nat \<Rightarrow> bytes \<Rightarrow> json res" where
  "client_json kind payload =
     (if kind \<noteq> KIND_JSON then Inl RuntimeError else loads (utf8_decode payload))"

definition client_call :: "json \<Rightarrow> (nat \<Rightarrow> bytes \<Rightarrow> 'a res) \<Rightarrow> client \<Rightarrow> 'a res \<times> client" where
  "client_call req f c = (case client_request req c of (r, c) \<Rightarrow> (rbind r (\<lambda>(kind, payload). f kind payload), c))"

definition client_ping :: "client \<Rightarrow> bool res \<times> client" where
  "client_ping =
     client_call (JObj [(''cmd'', JStr ''ping'')]) (\<lambda>kind payload.
       rbind (client_json kind payload) (\<lambda>resp. rbind (json_get resp ''ok'') (\<lambda>ok.
         if is_true ok then rmap is_true (json_get resp ''pong'') else Inr False)))"

definition client_list_tables :: "client \<Rightarrow> json list res \<times> client" where
  "client_list_tables =
     client_call (JObj [(''cmd'', JStr ''list_tables'')]) (\<lambda>kind payload.
       rbind (client_json kind payload) (\<lambda>resp. rbind (json_get resp ''tables'') (\<lambda>v.
         json_iter (case v of None \<Rightarrow> JList [] | Some v \<Rightarrow> v))))"

definition want_kind :: "nat \<Rightarrow> nat \<Rightarrow> bytes \<Rightarrow> bytes res" where
  "want_kind want kind payload = (if kind \<noteq> want then Inl RuntimeError else Inr payload)"

definition fetch_request :: "string \<Rightarrow> string \<Rightarrow> int list \<Rightarrow> int \<Rightarrow> int \<Rightarrow> int \<Rightarrow> json" where
  "fetch_request cmd table rowids shards rows_per_shard width =
     JObj [(''cmd'', JStr cmd), (''table'', JStr table), (''rowids'', JList (map JInt rowids)),
       (''shards'', JInt shards), (''rows_per_shard'', JInt rows_per_shard), (''width'', JInt width)]"

definition client_fetch_raw :: "string \<Rightarrow> int list \<Rightarrow> int \<Rightarrow> int \<Rightarrow> int \<Rightarrow> client \<Rightarrow> bytes res \<times> client" where
  "client_fetch_raw table rowids shards rows_per_shard width =
     client_call (fetch_request ''fetch_raw'' table rowids shards rows_per_shard width) (want_kind KIND_RAW)"

definition client_fetch_arrow :: "string \<Rightarrow> int list \<Rightarrow> int \<Rightarrow> int \<Rightarrow> int \<Rightarrow> client \<Rightarrow> bytes res \<times> client" where
  "client_fetch_arrow table rowids shards rows_per_shard width =
     client_call (fetch_request ''fetch_arrow'' table rowids shards rows_per_shard width) (want_kind KIND_ARROW)"

definition client_view_read :: "string \<Rightarrow> int \<Rightarrow> client \<Rightarrow> bytes res \<times> client" where
  "client_view_read path index =
     client_call (JObj [(''cmd'', JStr ''view_read''), (''path'', JStr path), (''index'', JInt index)]) (want_kind KIND_RAW)"

section \<open>Messages\<close>

text \<open>The bytes of a request and of a reply, and the connection as a function on whole requests.\<close>

definition request_bytes :: "bytes \<Rightarrow> bytes" where
  "request_bytes body = be_bytes 4 (length body) @ body"

definition reply_bytes :: "nat \<times> bytes \<Rightarrow> bytes" where
  "reply_bytes kp = be_bytes 4 (length (binary_frame kp)) @ binary_frame kp"

fun reply_all :: "'tab service \<Rightarrow> bytes list \<Rightarrow> database \<Rightarrow> (nat \<times> bytes) list \<times> database \<times> conn_end" where
  "reply_all svc [] db = ([], db, Closed)"
| "reply_all svc (body # bodies) db =
     (case binary_reply svc body db of
        None \<Rightarrow> ([], db, Waiting)
      | Some (Inl e, db) \<Rightarrow> ([], db, Failed e)
      | Some (Inr kp, db) \<Rightarrow>
          if 2 ^ 32 \<le> length (binary_frame kp) then ([], db, Failed OverflowError)
          else (case reply_all svc bodies db of (kps, rest) \<Rightarrow> (kp # kps, rest)))"

lemma read_message:
  assumes "stream_ok s" "concat s = request_bytes body @ rest" "length body < 2 ^ 32"
  obtains s1 s2 where "read_exact 4 s = (be_bytes 4 (length body), s1)"
    "read_exact (from_be (be_bytes 4 (length body))) s1 = (body, s2)" "stream_ok s2" "concat s2 = rest"
proof -
  have n: "from_be (be_bytes 4 (length body)) = length body" using assms(3) by (simp add: from_be_be_bytes)
  obtain s1 where s1: "read_exact 4 s = (be_bytes 4 (length body), s1)" "concat s1 = body @ rest" "stream_ok s1"
    using read_exact_spec [OF assms(1), of 4] assms(2) by (auto simp: request_bytes_def)
  obtain s2 where "read_exact (length body) s1 = (body, s2)" "concat s2 = rest" "stream_ok s2"
    using read_exact_spec [OF s1(3), of "length body"] s1(2) by auto
  with s1 n that show thesis by simp
qed

lemma binary_handle_end: "concat s = [] \<Longrightarrow> binary_handle svc s db out = (out, db, Closed)"
proof -
  assume s: "concat s = []"
  obtain b s' where r: "read_exact 4 s = (b, s')" by fastforce
  then have "b = []" using read_exact_length [OF r] s by simp
  then show ?thesis using r by (subst binary_handle.simps) simp
qed

lemma binary_handle_reply_all:
  assumes "stream_ok s" "concat s = concat (map request_bytes bodies)" "\<forall>b \<in> set bodies. length b < 2 ^ 32"
  shows "binary_handle svc s db out =
    (case reply_all svc bodies db of (kps, rest) \<Rightarrow> (out @ concat (map reply_bytes kps), rest))"
  using assms
proof (induction bodies arbitrary: s db out)
  case Nil
  then have "concat s = []" by simp
  then show ?case by (subst binary_handle_end) simp_all
next
  case (Cons body bodies)
  obtain s1 s2 where m: "read_exact 4 s = (be_bytes 4 (length body), s1)"
      "read_exact (from_be (be_bytes 4 (length body))) s1 = (body, s2)" "stream_ok s2"
      "concat s2 = concat (map request_bytes bodies)"
    using read_message [OF Cons.prems(1), of body] Cons.prems(2,3) by auto
  have IH: "binary_handle svc s2 db' out' =
      (case reply_all svc bodies db' of (kps, rest) \<Rightarrow> (out' @ concat (map reply_bytes kps), rest))" for db' out'
    using Cons.prems(3) m by (intro Cons.IH) auto
  show ?case
    by (subst binary_handle.simps)
      (auto simp: m IH to_bytes4_be_def reply_bytes_def not_le split: option.splits prod.splits sum.splits)
qed

section \<open>Answers\<close>

lemma db_fetch_idle:
  assumes "db_idle db"
  shows "\<exists>r db'. db_fetch fs name rs n rps w db = Some (r, db') \<and> db_idle db'"
proof -
  obtain o1 db1 where o: "db_open_pool fs name n rps w 4 db = (o1, db1)" by fastforce
  show ?thesis
  proof (cases o1)
    case (Inl e)
    then have "db1 = db" using o by (auto simp: db_open_pool_def Let_def split: option.splits sum.splits)
    then show ?thesis using o Inl assms by (simp add: db_fetch_def)
  next
    case (Inr ps)
    obtain p st where ps: "ps = (p, st)" by fastforce
    have idle: "pool_idle p \<and> db_idle db1"
    proof (cases "dict_get (db_pools db) (name, n, rps, w)")
      case None
      then show ?thesis using o Inr ps pool_idle_init db_idle_set [OF assms pool_idle_init]
        by (auto simp: db_open_pool_def Let_def split: sum.splits)
    next
      case (Some ps')
      have "\<forall>(k, p, s) \<in> set (db_pools db). pool_idle p" using assms by (simp add: db_idle_def)
      moreover have db1: "ps' = (p, st)" "db1 = db" using o Inr ps Some by (simp_all add: db_open_pool_def Let_def)
      ultimately have "pool_idle p" using dict_get_in [OF Some] by fastforce
      then show ?thesis using assms db1 by simp
    qed
    obtain h q where q: "po_queue p = h # q" using idle by (cases "po_queue p") (auto simp: pool_idle_def)
    obtain p1 p2 where run: "pool_enter p = Some (Inr h, p1)" "pool_exit p1 = Some p2"
        "po_queue p2 = po_queue p" "po_closed p2 = po_closed p" "po_size p2 = po_size p"
      using enter_exit_restores [of p h q] idle q by (auto simp: pool_idle_def)
    have "pool_idle p2" using run idle by (simp add: pool_idle_def)
    then show ?thesis using o Inr ps run db_idle_set [of db1] idle by (auto simp: db_fetch_def Let_def)
  qed
qed

lemma service_fetch_idle: "db_idle db \<Longrightarrow> \<exists>r db'. service_fetch svc req db = Some (r, db') \<and> db_idle db'"
  using db_fetch_idle [of db] by (auto simp: service_fetch_def split: sum.splits)

lemma binary_dispatch_idle: "db_idle db \<Longrightarrow> \<exists>r db'. binary_dispatch svc req db = Some (r, db') \<and> db_idle db'"
  using service_fetch_idle [of db svc req] by (auto simp: binary_dispatch_def split: sum.splits)

lemma binary_reply_idle:
  assumes "db_idle db"
  shows "\<exists>r db'. binary_reply svc body db = Some (r, db') \<and> db_idle db' \<and> (r = Inl PanicException \<or> (\<exists>kp. r = Inr kp))"
proof (cases "loads (utf8_decode body)")
  case (Inl e)
  then show ?thesis using assms by (cases "is_exception e") (auto simp: binary_reply_def is_exception_def)
next
  case (Inr req)
  obtain r db' where d: "binary_dispatch svc req db = Some (r, db')" "db_idle db'"
    using binary_dispatch_idle [OF assms] by blast
  then show ?thesis using Inr by (cases r) (auto simp: binary_reply_def is_exception_def)
qed

lemma reply_all_ends:
  "db_idle db \<Longrightarrow> reply_all svc bodies db = (kps, db', e) \<Longrightarrow>
   db_idle db' \<and> length kps \<le> length bodies
   \<and> (if length kps = length bodies then e = Closed else e \<in> {Failed PanicException, Failed OverflowError})"
proof (induction bodies arbitrary: db kps db' e)
  case (Cons body bodies)
  obtain r db1 where r: "binary_reply svc body db = Some (r, db1)" "db_idle db1" "r = Inl PanicException \<or> (\<exists>kp. r = Inr kp)"
    using binary_reply_idle [OF Cons.prems(1)] by blast
  show ?case
    using r Cons.prems Cons.IH [OF r(2)] by (auto split: if_splits prod.splits)
qed simp

lemma json_wf_request [simp]: "json_wf (fetch_request cmd table rowids n rps w)"
  by (simp add: fetch_request_def list_all_iff)

lemma fetch_request_items:
  "json_get (fetch_request cmd table rowids n rps w) ''cmd'' = Inr (Some (JStr cmd))"
  "json_item (fetch_request cmd table rowids n rps w) ''table'' = Inr (JStr table)"
  "json_get (fetch_request cmd table rowids n rps w) ''rowids'' = Inr (Some (JList (map JInt rowids)))"
  "json_item (fetch_request cmd table rowids n rps w) ''shards'' = Inr (JInt n)"
  "json_item (fetch_request cmd table rowids n rps w) ''rows_per_shard'' = Inr (JInt rps)"
  "json_item (fetch_request cmd table rowids n rps w) ''width'' = Inr (JInt w)"
  by (simp_all add: fetch_request_def json_get_def json_item_def dict_get_def)

lemma fetch_request_args: "fetch_args (fetch_request cmd table rowids n rps w) = Inr (table, rowids, n, rps, w)"
proof -
  have "rmapM py_int (map JInt rowids) = Inr rowids" by (induction rowids) (simp_all add: py_int_def)
  then show ?thesis
    by (simp add: fetch_args_def fetch_request_items req_rowids_def req_int_def json_iter_def py_int_def as_name_def)
qed

lemma dispatch_fetch:
  "binary_dispatch svc (fetch_request ''fetch_raw'' table rowids n rps w) db
   = map_option (\<lambda>(r, db). (rmap (\<lambda>raw. (KIND_RAW, raw)) r, db)) (db_fetch (sv_fs svc) table rowids n rps w db)"
  by (simp add: binary_dispatch_def fetch_request_items service_fetch_def fetch_request_args)

lemma reply_fetch:
  assumes "db_fetch (sv_fs svc) table rowids n rps w db = Some (r, db')"
  shows "binary_reply svc (utf8_encode (dumps (fetch_request ''fetch_raw'' table rowids n rps w))) db
    = Some (case r of
        Inr raw \<Rightarrow> Inr (KIND_RAW, raw)
      | Inl e \<Rightarrow> (if is_exception e
          then Inr (json_response (error_json (sv_repr svc (utf8_encode (dumps (fetch_request ''fetch_raw'' table rowids n rps w))) e)))
          else Inl e), db')"
  by (simp add: binary_reply_def loads_wire dispatch_fetch assms split: sum.split)

text \<open>The client reads one reply.\<close>

lemma client_receive_reply:
  assumes "stream_ok (cl_in c)" "concat (cl_in c) = reply_bytes (k, payload) @ rest"
    and "k < 256" "length payload + 1 < 2 ^ 32"
  shows "\<exists>s'. client_receive c = (Inr (k, payload), c\<lparr>cl_in := s'\<rparr>) \<and> stream_ok s' \<and> concat s' = rest"
proof -
  let ?f = "binary_frame (k, payload)"
  have l: "length ?f = length payload + 1" by (simp add: binary_frame_def)
  have n: "from_be (be_bytes 4 (length ?f)) = length ?f" using assms(4) l by (simp add: from_be_be_bytes)
  obtain s1 where s1: "recv_exact 4 (cl_in c) = (Inr (be_bytes 4 (length ?f)), s1)" "concat s1 = ?f @ rest" "stream_ok s1"
    using recv_exact_spec [OF assms(1), of 4] assms(2) by (auto simp: reply_bytes_def)
  obtain s2 where s2: "recv_exact (length ?f) s1 = (Inr ?f, s2)" "concat s2 = rest" "stream_ok s2"
    using recv_exact_spec [OF s1(3), of "length ?f"] s1(2) by auto
  have "unat (word_of_nat k :: byte) = k" using assms(3) by (simp add: unat_of_nat)
  then have "client_receive c = (Inr (k, payload), c\<lparr>cl_in := s2\<rparr>)"
    using s1 s2 n by (simp add: client_receive_def binary_frame_def)
  with s2 show ?thesis by blast
qed

text \<open>A row id past the last shard panics.\<close>

lemma store_fetch_panics:
  assumes "list_all (\<lambda>r. 0 \<le> r \<and> r < 2 ^ 64) rs" "r \<in> set rs" "0 < ns_rows_per_shard st" "total_rows st \<le> nat r"
  shows "store_fetch st rs = Inl PanicException"
proof -
  let ?rps = "ns_rows_per_shard st" and ?keys = "map nat rs"
  define task where "task = (\<lambda>(shard, pairs).
    if shard < length (ns_files st)
    then Inr (gather_rows (ns_files st ! shard) (ns_width st) ?rps pairs None (replicate (PAGE + 2 * ns_width st) 0))
    else (Inl PanicException :: (nat \<times> bytes) list res))"
  have u: "rmapM to_u64 rs = Inr ?keys"
    using assms(1) by (intro rmapM_Inr) (auto simp: list_all_iff to_u64_def)
  obtain x where x: "x \<in> set (gather_tasks ?rps ?keys)" "fst x = nat r div ?rps"
    using assms(2) by (force simp: gather_tasks_def Let_def)
  have "length (ns_files st) \<le> nat r div ?rps"
    using assms(3,4) by (simp add: less_eq_div_iff_mult_less_eq total_rows_def)
  then have bad: "task x = Inl PanicException" using x(2) by (cases x) (simp add: task_def)
  have "rmapM task (gather_tasks ?rps ?keys) = Inl PanicException"
  proof (cases "rmapM task (gather_tasks ?rps ?keys)")
    case (Inl e)
    then show ?thesis using rmapM_Inl [OF Inl] by (auto simp: task_def split: if_splits)
  next
    case (Inr ys)
    then show ?thesis using bad x(1) by (auto simp: rmapM_Inr_iff list_all2_conv_all_nth in_set_conv_nth)
  qed
  then show ?thesis using u assms(2,3) by (auto simp: store_fetch_def gather_pp_def Let_def task_def [symmetric])
qed

section \<open>The JSON lines\<close>

lemma dumps_no_newline: "CHR 0x0A \<notin> set (dumps v)"
proof -
  have digits: "CHR 0x0A \<notin> set (nat_digits n)" for n
    using nat_digits_props [of n] by (auto simp: is_digit_def)
  have int: "CHR 0x0A \<notin> set (int_str i)" for i
    using digits by (simp add: int_str_def)
  have hex: "hex_char d \<noteq> CHR 0x0A" if "d < 16" for d
  proof
    assume "hex_char d = CHR 0x0A"
    then show False using hex_val_hex_char [OF that] by (simp add: hex_val_def)
  qed
  have esc: "CHR 0x0A \<notin> set (escape_char c)" for c
  proof -
    have "(of_char c :: nat) div 16 < 16" using char_code_less [of c] by (simp add: less_mult_imp_div_less)
    then show ?thesis
      using hex [of "of_char c div 16"] hex [of "of_char c mod 16"]
      by (auto simp: escape_char_def Let_def backslash_def escapes_def split: if_splits)
  qed
  have str: "CHR 0x0A \<notin> set (dump_str s)" for s
    using esc by (auto simp: dump_str_def quote_def)
  have join: "CHR 0x0A \<notin> set (join '', '' xs)" if "\<forall>x \<in> set xs. CHR 0x0A \<notin> set x" for xs
    using that by (induction "'', ''" xs rule: join.induct) auto
  show ?thesis
  proof (induction v rule: dumps.induct)
    case (5 xs)
    then show ?case using join [of "map dumps xs"] by simp
  next
    case (6 ps)
    have "CHR 0x0A \<notin> set (dump_member p)" if "p \<in> set ps" for p
      using 6 [OF that, of "fst p" "snd p"] str [of "fst p"] by (cases p) simp
    then show ?case using join [of "map dump_member ps"] by auto
  qed (use int str in auto)
qed

lemma json_reply_idle:
  assumes "db_idle db"
  shows "\<exists>r db'. json_reply svc line db = Some (r, db') \<and> db_idle db' \<and> (r = Inl PanicException \<or> (\<exists>v. r = Inr v \<and> json_wf v))"
proof (cases "loads (utf8_decode line)")
  case (Inl e)
  then show ?thesis using assms by (cases "is_exception e") (auto simp: json_reply_def is_exception_def error_json_def)
next
  case (Inr req)
  have "\<exists>r db'. json_dispatch svc req db = Some (r, db') \<and> db_idle db' \<and> (\<forall>v. r = Inr v \<longrightarrow> json_wf v)"
    using service_fetch_idle [OF assms, of svc req] assms
    by (auto simp: json_dispatch_def pong_json_def tables_json_def list_all_iff res_iff split: sum.splits)
  then obtain r db' where d: "json_dispatch svc req db = Some (r, db')" "db_idle db'" "\<forall>v. r = Inr v \<longrightarrow> json_wf v"
    by blast
  then show ?thesis using Inr
    by (cases r) (auto simp: json_reply_def is_exception_def error_json_def)
qed

text \<open>What a reader of the reply lines gets.\<close>

fun split_lines :: "bytes \<Rightarrow> bytes \<Rightarrow> bytes list" where
  "split_lines acc [] = []"
| "split_lines acc (b # bs) = (if b = 10 then acc # split_lines [] bs else split_lines (acc @ [b]) bs)"

lemma split_lines_one: "10 \<notin> set l \<Longrightarrow> split_lines acc (l @ 10 # bs) = (acc @ l) # split_lines [] bs"
  by (induction l arbitrary: acc) simp_all

lemma newline_byte: "(word_of_nat (of_char c) :: byte) = 10 \<Longrightarrow> c = CHR 0x0A"
proof -
  assume n: "(word_of_nat (of_char c) :: byte) = 10"
  have "unat (word_of_nat (of_char c) :: byte) = unat (10 :: byte)" by (simp only: n)
  then have "(of_char c :: nat) mod 256 = 10" by (simp only: unat_byte_of_nat) simp
  then have "char_of (of_char c :: nat) = (char_of (10 :: nat) :: char)" by (simp add: char_code_less)
  moreover have "(char_of (10 :: nat) :: char) = CHR 0x0A" by code_simp
  ultimately show ?thesis by simp
qed

lemma split_json_line: "split_lines [] (json_line v @ bs) = utf8_encode (dumps v) # split_lines [] bs"
proof -
  have "10 \<notin> set (utf8_encode (dumps v))"
    using dumps_no_newline [of v] newline_byte by (auto simp: utf8_encode_def)
  then show ?thesis using split_lines_one [of "utf8_encode (dumps v)" "[]" bs]
    by (simp add: json_line_def utf8_encode_def)
qed

lemma json_handle_replies:
  "db_idle db \<Longrightarrow> \<exists>resps db' e. json_handle svc lines db out = (out @ concat (map json_line resps), db', e) \<and> db_idle db'
     \<and> list_all json_wf resps
     \<and> (e = Closed \<and> length resps = length (filter (\<lambda>l. strip blank_byte l \<noteq> []) lines)
        \<or> e = Failed PanicException \<and> length resps < length (filter (\<lambda>l. strip blank_byte l \<noteq> []) lines))"
proof (induction lines arbitrary: db out)
  case (Cons line lines)
  show ?case
  proof (cases "strip blank_byte line = []")
    case True
    then show ?thesis using Cons.IH [OF Cons.prems, of out] by (simp add: Let_def)
  next
    case False
    obtain r db1 where r: "json_reply svc (strip blank_byte line) db = Some (r, db1)" "db_idle db1"
        "r = Inl PanicException \<or> (\<exists>v. r = Inr v \<and> json_wf v)"
      using json_reply_idle [OF Cons.prems] by blast
    show ?thesis
    proof (cases r)
      case (Inl e)
      then show ?thesis using r False by (intro exI [of _ "[]"]) (simp add: Let_def)
    next
      case (Inr v)
      then have v: "json_wf v" using r(3) by simp
      obtain resps db' e where IH: "json_handle svc lines db1 (out @ json_line v) = ((out @ json_line v) @ concat (map json_line resps), db', e)"
          "db_idle db'" "list_all json_wf resps"
          "e = Closed \<and> length resps = length (filter (\<lambda>l. strip blank_byte l \<noteq> []) lines)
           \<or> e = Failed PanicException \<and> length resps < length (filter (\<lambda>l. strip blank_byte l \<noteq> []) lines)"
        using Cons.IH [OF r(2), of "out @ json_line v"] by blast
      show ?thesis
        by (intro exI [of _ "v # resps"] exI [of _ db'] exI [of _ e]) (use r Inr False v IH in \<open>auto simp: Let_def\<close>)
    qed
  qed
qed simp

lemma split_json_lines: "split_lines [] (concat (map json_line vs)) = map (\<lambda>v. utf8_encode (dumps v)) vs"
  by (induction vs) (simp_all add: split_json_line)

section \<open>A server on one table\<close>

definition demo_service :: "unit service" where
  "demo_service = \<lparr>sv_fs = demo_fs, sv_pyarrow = None, sv_repr = (\<lambda>body e. ''error'')\<rparr>"

lemma demo_opens: "open_native (sv_fs demo_service) (path_join ''db'' ''t'') 2 2 2 = Inr demo_store"
  using demo_fs_opens by (simp add: demo_service_def path_join_def)

lemma stream_ok_one: "bs \<noteq> [] \<Longrightarrow> stream_ok [bs]"
  by (simp add: stream_ok_def)

lemma request_bytes_nonempty [simp]: "request_bytes body \<noteq> []" "[] \<noteq> request_bytes body"
  by (cases "be_bytes 4 (length body)"; auto simp: request_bytes_def dest: arg_cong [where f = length])+

section \<open>Properties\<close>

text \<open>
  C13: the binary handler implements the message-level service: on a connection that carries whole
  requests, however TCP cuts them into pieces, it writes exactly the framed replies of the requests in
  order, leaves the same registry and ends the same way.
\<close>

theorem binary_handle_refines:
  assumes "stream_ok s" "concat s = concat (map request_bytes bodies)" "\<forall>b \<in> set bodies. length b < 2 ^ 32"
  shows "binary_handle svc s db [] =
    (case reply_all svc bodies db of (kps, rest) \<Rightarrow> (concat (map reply_bytes kps), rest))"
  by (simp add: binary_handle_reply_all [OF assms])

theorem binary_handle_refines_witness:
  "binary_handle demo_service [request_bytes [0], request_bytes []] (database_init ''db'') []
   = (case reply_all demo_service [[0], []] (database_init ''db'') of (kps, rest) \<Rightarrow> (concat (map reply_bytes kps), rest))"
  by (rule binary_handle_refines) (simp_all add: stream_ok_def)

text \<open>
  C20: from a registry at rest the handler answers every request of a connection, whatever bytes the
  requests are, never waits for a handle and leaves the registry at rest; the only ways to stop early
  are a panic of the native store and a reply too long for the frame header.
\<close>

theorem binary_requests_answered:
  assumes "stream_ok s" "concat s = concat (map request_bytes bodies)" "\<forall>b \<in> set bodies. length b < 2 ^ 32" "db_idle db"
  shows "\<exists>kps db' e. binary_handle svc s db [] = (concat (map reply_bytes kps), db', e) \<and> db_idle db'
    \<and> (if length kps = length bodies then e = Closed
        else length kps < length bodies \<and> e \<in> {Failed PanicException, Failed OverflowError})"
proof -
  obtain kps db' e where r: "reply_all svc bodies db = (kps, db', e)" by (cases "reply_all svc bodies db")
  show ?thesis using reply_all_ends [OF assms(4) r] by (auto simp: binary_handle_reply_all [OF assms(1-3)] r)
qed

theorem binary_requests_answered_witness:
  "\<exists>kps db' e. binary_handle demo_service [request_bytes [0], request_bytes []] (database_init ''db'') []
      = (concat (map reply_bytes kps), db', e) \<and> db_idle db'
    \<and> (if length kps = length [[0 :: byte], []] then e = Closed
        else length kps < length [[0 :: byte], []] \<and> e \<in> {Failed PanicException, Failed OverflowError})"
  by (rule binary_requests_answered) (simp_all add: stream_ok_def db_idle_init)

text \<open>
  C8: a fetch through the client and the server returns the stored rows: the request the client
  sends, delivered in any pieces, is answered with a reply that, delivered in any pieces, the client
  reads as the rows in the order asked for.
\<close>

theorem client_server_fetch:
  assumes "db_idle db" "db_faithful (sv_fs svc) db"
    and "open_native (sv_fs svc) (path_join (db_root db) table) n rps w = Inr st"
    and "list_all (store_valid st) rowids" "length rowids * ns_width st + 1 < 2 ^ 32"
    and "client_send (fetch_request ''fetch_raw'' table rowids n rps w) \<lparr>cl_in = s', cl_out = []\<rparr> = Inr c"
    and "stream_ok s" "concat s = cl_out c"
    and "binary_handle svc s db [] = (out, db', end)"
    and "stream_ok s'" "concat s' = out"
  shows "fst (client_fetch_raw table rowids n rps w \<lparr>cl_in = s', cl_out = []\<rparr>) = Inr (concat (map (store_row st) rowids))
    \<and> end = Closed"
proof -
  let ?body = "utf8_encode (dumps (fetch_request ''fetch_raw'' table rowids n rps w))"
  let ?rows = "concat (map (store_row st) rowids)"
  have len: "length ?rows = length rowids * ns_width st"
    using native.fetch_length [OF assms(4) native.fetch_rows [OF assms(4)]] by simp
  have sent: "length ?body < 2 ^ 32" "c = \<lparr>cl_in = s', cl_out = request_bytes ?body\<rparr>"
    using assms(6) by (auto simp: client_send_def Let_def to_bytes4_be_def request_bytes_def res_iff split: if_splits)
  obtain db1 where "db_fetch (sv_fs svc) table rowids n rps w db = Some (Inr ?rows, db1)"
    using db_fetch_spec [OF assms(1-3), of rowids] native.fetch_rows [OF assms(4)] by auto
  then have "binary_reply svc ?body db = Some (Inr (KIND_RAW, ?rows), db1)" using reply_fetch by fastforce
  moreover have "length (binary_frame (KIND_RAW, ?rows)) < 2 ^ 32"
    using assms(5) len by (simp add: binary_frame_def)
  ultimately have "reply_all svc [?body] db = ([(KIND_RAW, ?rows)], db1, Closed)" by (simp add: not_le)
  moreover have "concat s = concat (map request_bytes [?body])" using assms(8) sent by simp
  ultimately have out: "out = reply_bytes (KIND_RAW, ?rows) @ []" "end = Closed"
    using binary_handle_reply_all [OF assms(7), of "[?body]" svc db "[]"] sent(1) assms(9) by auto
  obtain c' where "client_receive c = (Inr (KIND_RAW, ?rows), c')"
    using client_receive_reply [of c KIND_RAW ?rows "[]"] sent(2) assms(5,10,11) out(1) len
    by (auto simp: KIND_RAW_def)
  then show ?thesis
    using assms(6) out(2) by (simp add: client_fetch_raw_def client_call_def client_request_def want_kind_def)
qed

definition demo_sent :: bytes where
  "demo_sent = request_bytes (utf8_encode (dumps (fetch_request ''fetch_raw'' ''t'' [3, 0] 2 2 2)))"

definition demo_reply :: stream where
  "demo_reply = filter (\<lambda>p. p \<noteq> []) [fst (binary_handle demo_service [demo_sent] (database_init ''db'') [])]"

lemma demo_body_short: "length (dumps (fetch_request cmd ''t'' [i, j] 2 2 2)) < 2 ^ 32"
  if "length (dump_str cmd) < 100" "length (int_str i) < 100" "length (int_str j) < 100"
proof -
  have "length (int_str 2) = 1" "length (dump_str ''cmd'') = 5" "length (dump_str ''table'') = 7" "length (dump_str ''t'') = 3"
    "length (dump_str ''rowids'') = 8" "length (dump_str ''shards'') = 8" "length (dump_str ''rows_per_shard'') = 16"
    "length (dump_str ''width'') = 7"
    by code_simp+
  then show ?thesis using that by (simp add: fetch_request_def)
qed

lemma demo_send:
  "client_send (fetch_request ''fetch_raw'' ''t'' [3, 0] 2 2 2) \<lparr>cl_in = s, cl_out = []\<rparr> = Inr \<lparr>cl_in = s, cl_out = demo_sent\<rparr>"
proof -
  have "length (dumps (fetch_request ''fetch_raw'' ''t'' [3, 0] 2 2 2)) < 2 ^ 32"
    by (rule demo_body_short) code_simp+
  then show ?thesis by (simp add: client_send_def Let_def to_bytes4_be_def demo_sent_def request_bytes_def)
qed

theorem client_server_fetch_witness:
  "fst (client_fetch_raw ''t'' [3, 0] 2 2 2 \<lparr>cl_in = demo_reply, cl_out = []\<rparr>)
     = Inr (concat (map (store_row demo_store) [3, 0]))
   \<and> snd (snd (binary_handle demo_service [demo_sent] (database_init ''db'') [])) = Closed"
  by (rule client_server_fetch [OF db_idle_init, where svc = demo_service and s = "[demo_sent]"
        and c = "\<lparr>cl_in = demo_reply, cl_out = demo_sent\<rparr>" and db' = "fst (snd (binary_handle demo_service [demo_sent] (database_init ''db'') []))"
        and out = "fst (binary_handle demo_service [demo_sent] (database_init ''db'') [])"])
    (simp_all add: demo_send demo_opens database_init_def db_faithful_def demo_reply_def stream_ok_def demo_sent_def)

text \<open>
  A fetch of a row id past the last shard is not answered: the native store panics, the exception
  is not one the handler catches, and the connection ends without a reply to this request
  and without reading the requests behind it.
\<close>

theorem bad_row_drops_connection:
  assumes "db_idle db" "db_faithful (sv_fs svc) db"
    and "open_native (sv_fs svc) (path_join (db_root db) table) n rps w = Inr st" "0 < ns_rows_per_shard st"
    and "list_all (\<lambda>r. 0 \<le> r \<and> r < 2 ^ 64) rowids" "r \<in> set rowids" "total_rows st \<le> nat r"
    and "stream_ok s" "concat s = request_bytes (utf8_encode (dumps (fetch_request ''fetch_raw'' table rowids n rps w))) @ rest"
    and "length (utf8_encode (dumps (fetch_request ''fetch_raw'' table rowids n rps w))) < 2 ^ 32"
  shows "\<exists>db'. binary_handle svc s db out = (out, db', Failed PanicException) \<and> db_idle db'"
proof -
  let ?body = "utf8_encode (dumps (fetch_request ''fetch_raw'' table rowids n rps w))"
  obtain db1 where d: "db_fetch (sv_fs svc) table rowids n rps w db = Some (Inl PanicException, db1)" "db_idle db1"
    using db_fetch_spec [OF assms(1-3), of rowids] store_fetch_panics [OF assms(5,6,4,7)] by auto
  then have "binary_reply svc ?body db = Some (Inl PanicException, db1)"
    using reply_fetch [OF d(1)] by (simp add: is_exception_def)
  moreover obtain s1 s2 where "read_exact 4 s = (be_bytes 4 (length ?body), s1)"
      "read_exact (from_be (be_bytes 4 (length ?body))) s1 = (?body, s2)"
    using read_message [OF assms(8-10)] by blast
  ultimately show ?thesis using d(2) by (subst binary_handle.simps) simp
qed

definition demo_bad :: bytes where
  "demo_bad = request_bytes (utf8_encode (dumps (fetch_request ''fetch_raw'' ''t'' [0, 4] 2 2 2)))"

theorem bad_row_drops_connection_witness:
  "\<exists>db'. binary_handle demo_service [demo_bad, demo_sent] (database_init ''db'') [] = ([], db', Failed PanicException)
    \<and> db_idle db'"
proof (rule bad_row_drops_connection [OF db_idle_init, where st = demo_store and r = 4 and rest = demo_sent
      and table = "''t''" and rowids = "[0, 4]" and n = 2 and rps = 2 and w = 2])
  have "length (dumps (fetch_request ''fetch_raw'' ''t'' [0, 4] 2 2 2)) < 2 ^ 32"
    by (rule demo_body_short) code_simp+
  then show "length (utf8_encode (dumps (fetch_request ''fetch_raw'' ''t'' [0, 4] 2 2 2))) < 2 ^ 32" by simp
qed (use demo_opens in \<open>simp_all add: database_init_def demo_store_def total_rows_def stream_ok_def demo_bad_def demo_sent_def\<close>)

text \<open>
  The JSON-lines handler writes one line for every request line that is not blank, unless the
  native store panics: a reader that cuts the output at newlines and parses each line gets back
  exactly the replies, in order, because a printed value holds no newline.
\<close>

theorem json_lines_roundtrip:
  assumes "db_idle db"
  shows "\<exists>out resps db' e. json_handle svc lines db [] = (out, db', e) \<and> db_idle db'
    \<and> map (\<lambda>l. loads (utf8_decode l)) (split_lines [] out) = map Inr resps
    \<and> (e = Closed \<and> length resps = length (filter (\<lambda>l. strip blank_byte l \<noteq> []) lines)
       \<or> e = Failed PanicException \<and> length resps < length (filter (\<lambda>l. strip blank_byte l \<noteq> []) lines))"
proof -
  obtain resps db' e where h: "json_handle svc lines db [] = (concat (map json_line resps), db', e)" "db_idle db'"
      "list_all json_wf resps"
      "e = Closed \<and> length resps = length (filter (\<lambda>l. strip blank_byte l \<noteq> []) lines)
       \<or> e = Failed PanicException \<and> length resps < length (filter (\<lambda>l. strip blank_byte l \<noteq> []) lines)"
    using json_handle_replies [OF assms, of svc lines "[]"] by auto
  have "map (\<lambda>l. loads (utf8_decode l)) (split_lines [] (concat (map json_line resps))) = map Inr resps"
    using h(3) by (auto simp: split_json_lines loads_wire list_all_iff)
  with h show ?thesis by blast
qed

theorem json_lines_roundtrip_witness:
  "\<exists>out resps db' e. json_handle demo_service [[32, 10], [0, 10]] (database_init ''db'') [] = (out, db', e) \<and> db_idle db'
    \<and> map (\<lambda>l. loads (utf8_decode l)) (split_lines [] out) = map Inr resps
    \<and> (e = Closed \<and> length resps = length (filter (\<lambda>l. strip blank_byte l \<noteq> []) [[32, 10], [0, 10]])
       \<or> e = Failed PanicException \<and> length resps < length (filter (\<lambda>l. strip blank_byte l \<noteq> []) [[32, 10], [0, 10]]))"
  by (rule json_lines_roundtrip) (simp add: db_idle_init)

end
