(* ===== verification/NgramMemory.thy ===== *)
theory NgramMemory
  imports PyDict Complex_Main
begin

text \<open>
  \<open>python/engramdb/addressable_memory.py\<close>: \<open>AddressableNgramMemory\<close>, the table from n-gram contexts of
  every order to the counts of the next tokens and of the values they occurred in.  A \<open>Counter\<close> and a
  \<open>defaultdict\<close> are dictionaries in insertion order.  Floats are rationals: rounding is not modelled.
  The lemmas give the counts as numbers of occurrences in the sequences added.
\<close>

section \<open>The memory\<close>

type_synonym counter = "(int, nat) dict"
type_synonym context_table = "(int list, counter) dict"

record match_result =
  mm_value_id :: int
  mm_order :: nat
  mm_count :: nat
  mm_score :: rat

record ngram_memory =
  nm_min_order :: nat
  nm_max_order :: nat
  nm_next_counts :: "context_table list"
  nm_value_index :: "context_table list"
  nm_total_ngrams :: nat

definition ngram_memory_init :: "int \<Rightarrow> int \<Rightarrow> ngram_memory res" where
  "ngram_memory_init min_order max_order =
     (if min_order < 1 then Inl ValueError
      else if max_order < min_order then Inl ValueError
      else Inr \<lparr>nm_min_order = nat min_order, nm_max_order = nat max_order,
        nm_next_counts = replicate (nat max_order + 1) [], nm_value_index = replicate (nat max_order + 1) [],
        nm_total_ngrams = 0\<rparr>)"

text \<open>\<open>table[ctx][x] += 1\<close>.\<close>

definition counter_at :: "context_table \<Rightarrow> int list \<Rightarrow> counter" where
  "counter_at d ctx = (case dict_get d ctx of None \<Rightarrow> [] | Some c \<Rightarrow> c)"

definition count_of :: "context_table \<Rightarrow> int list \<Rightarrow> int \<Rightarrow> nat" where
  "count_of d ctx x = (case dict_get (counter_at d ctx) x of None \<Rightarrow> 0 | Some n \<Rightarrow> n)"

definition bump :: "int list \<Rightarrow> int \<Rightarrow> context_table \<Rightarrow> context_table" where
  "bump ctx x d = dict_set ctx (dict_set x (count_of d ctx x + 1) (counter_at d ctx)) d"

text \<open>The body of the inner loop, the loop over the orders, and the loop over the positions.\<close>

definition add_gram :: "int list \<Rightarrow> int option \<Rightarrow> nat \<Rightarrow> nat \<Rightarrow> ngram_memory \<Rightarrow> ngram_memory" where
  "add_gram tokens value_id i order m =
     (if i < order then m
      else let ctx = take order (drop (i - order) tokens)
           in m\<lparr>nm_next_counts := (nm_next_counts m)[order := bump ctx (tokens ! i) (nm_next_counts m ! order)],
                nm_value_index := (case value_id of None \<Rightarrow> nm_value_index m
                  | Some v \<Rightarrow> (nm_value_index m)[order := bump ctx v (nm_value_index m ! order)]),
                nm_total_ngrams := nm_total_ngrams m + 1\<rparr>)"

definition add_position :: "int list \<Rightarrow> int option \<Rightarrow> nat \<Rightarrow> ngram_memory \<Rightarrow> ngram_memory" where
  "add_position tokens value_id i m =
     (if i = 0 then m else fold (add_gram tokens value_id i) [1..<nm_max_order m + 1] m)"

definition add_sequence :: "int list \<Rightarrow> int option \<Rightarrow> ngram_memory \<Rightarrow> ngram_memory" where
  "add_sequence tokens value_id m = fold (add_position tokens value_id) [0..<length tokens] m"

definition add_document :: "int list \<Rightarrow> int \<Rightarrow> ngram_memory \<Rightarrow> ngram_memory" where
  "add_document tokens value_id m = add_sequence tokens (Some value_id) m"

text \<open>The while loop of \<open>_best_order\<close>, from \<open>n\<close> down to the smallest order.\<close>

fun best_order_from :: "ngram_memory \<Rightarrow> int list \<Rightarrow> nat \<Rightarrow> nat" where
  "best_order_from m ctx 0 = 0"
| "best_order_from m ctx (Suc n) =
     (if Suc n < nm_min_order m then 0
      else if counter_at (nm_next_counts m ! Suc n) (last_n (Suc n) ctx) \<noteq> [] then Suc n
      else best_order_from m ctx n)"

definition best_order :: "ngram_memory \<Rightarrow> int list \<Rightarrow> nat" where
  "best_order m ctx = best_order_from m ctx (min (nm_max_order m) (length ctx))"

definition continuation_distribution :: "ngram_memory \<Rightarrow> int list \<Rightarrow> ((int, rat) dict \<times> nat) option" where
  "continuation_distribution m ctx =
     (let order = best_order m ctx
      in if order = 0 then None
         else let c = counter_at (nm_next_counts m ! order) (last_n order ctx)
              in if c = [] then None
                 else let total = sum_list (map snd c)
                      in Some (map (\<lambda>(tok, cnt). (tok, of_nat cnt / of_nat total)) c, order))"

text \<open>\<open>xs[:k]\<close>; \<open>sorted\<close> is stable, also in reverse.\<close>

definition py_prefix :: "int \<Rightarrow> 'a list \<Rightarrow> 'a list" where
  "py_prefix k xs = (if 0 \<le> k then take (nat k) xs else take (length xs - nat (- k)) xs)"

definition sorted_desc :: "('k \<times> rat) list \<Rightarrow> ('k \<times> rat) list" where
  "sorted_desc xs = sort_key (\<lambda>p. - snd p) xs"

definition topk :: "ngram_memory \<Rightarrow> int list \<Rightarrow> int \<Rightarrow> (int \<times> rat \<times> nat) list" where
  "topk m ctx k =
     (case continuation_distribution m ctx of
        None \<Rightarrow> []
      | Some (probs, order) \<Rightarrow> map (\<lambda>(tok, p). (tok, p, order)) (py_prefix k (sorted_desc probs)))"

section \<open>Retrieval\<close>

record retrieval =
  rt_scores :: "(int, rat) dict"
  rt_counts :: "(int \<times> nat, nat) dict"

definition score_value :: "nat \<Rightarrow> rat \<Rightarrow> int \<Rightarrow> int \<times> nat \<Rightarrow> retrieval \<Rightarrow> retrieval" where
  "score_value order w min_count vc r =
     (case vc of (value_id, cnt) \<Rightarrow>
        if int cnt < min_count then r
        else \<lparr>rt_scores = dict_set value_id
                ((case dict_get (rt_scores r) value_id of None \<Rightarrow> 0 | Some s \<Rightarrow> s) + w * of_nat cnt) (rt_scores r),
              rt_counts = dict_set (value_id, order) cnt (rt_counts r)\<rparr>)"

definition score_order ::
  "ngram_memory \<Rightarrow> int list \<Rightarrow> int \<Rightarrow> (nat, rat) dict \<Rightarrow> nat \<Rightarrow> retrieval \<Rightarrow> retrieval" where
  "score_order m ctx min_count weights order r =
     (if length ctx < order then r
      else let c = counter_at (nm_value_index m ! order) (last_n order ctx);
               w = (case dict_get weights order of None \<Rightarrow> 1 | Some w \<Rightarrow> w)
           in fold (score_value order w min_count) c r)"

definition default_weights :: "ngram_memory \<Rightarrow> (nat, rat) dict" where
  "default_weights m = map (\<lambda>n. (n, of_nat n)) [nm_min_order m..<nm_max_order m + 1]"

definition retrieve_scores ::
  "ngram_memory \<Rightarrow> int list \<Rightarrow> int \<Rightarrow> (nat, rat) dict option \<Rightarrow> retrieval" where
  "retrieve_scores m ctx min_count order_weights =
     (let weights = (case order_weights of None \<Rightarrow> default_weights m | Some w \<Rightarrow> w)
      in fold (score_order m ctx min_count weights) [nm_min_order m..<nm_max_order m + 1]
           \<lparr>rt_scores = [], rt_counts = []\<rparr>)"

definition make_match :: "ngram_memory \<Rightarrow> int \<Rightarrow> (int \<times> nat, nat) dict \<Rightarrow> int \<times> rat \<Rightarrow> match_result" where
  "make_match m min_count counts vs =
     (case vs of (value_id, score) \<Rightarrow>
        \<lparr>mm_value_id = value_id,
         mm_order = fold max (map (\<lambda>p. snd (fst p))
           (filter (\<lambda>p. fst (fst p) = value_id \<and> min_count \<le> int (snd p)) counts)) 0,
         mm_count = fold max (map (\<lambda>n. case dict_get counts (value_id, n) of None \<Rightarrow> 0 | Some c \<Rightarrow> c)
           [nm_min_order m..<nm_max_order m + 1]) 0,
         mm_score = score\<rparr>)"

definition retrieve ::
  "ngram_memory \<Rightarrow> int list \<Rightarrow> int \<Rightarrow> int \<Rightarrow> (nat, rat) dict option \<Rightarrow> match_result list" where
  "retrieve m ctx top_k min_count order_weights =
     (let r = retrieve_scores m ctx min_count order_weights
      in map (make_match m min_count (rt_counts r)) (py_prefix top_k (sorted_desc (rt_scores r))))"

definition ngram_stats :: "ngram_memory \<Rightarrow> (string \<times> nat) list" where
  "ngram_stats m =
     [(''min_order'', nm_min_order m), (''max_order'', nm_max_order m), (''total_ngrams'', nm_total_ngrams m),
      (''unique_continuations'', sum_list (map length (nm_next_counts m))),
      (''unique_value_keys'', sum_list (map length (nm_value_index m)))]"

section \<open>Counts are numbers of occurrences\<close>

text \<open>How often \<open>x\<close> comes right after \<open>ctx\<close> in a sequence.\<close>

definition occurs_at :: "int list \<Rightarrow> int list \<Rightarrow> nat \<Rightarrow> bool" where
  "occurs_at tokens ctx i \<longleftrightarrow> length ctx \<le> i \<and> take (length ctx) (drop (i - length ctx) tokens) = ctx"

definition followed_by :: "int list \<Rightarrow> int list \<Rightarrow> int \<Rightarrow> nat" where
  "followed_by tokens ctx x = length (filter (\<lambda>i. occurs_at tokens ctx i \<and> tokens ! i = x) [0..<length tokens])"

definition occurrences :: "int list \<Rightarrow> int list \<Rightarrow> nat" where
  "occurrences tokens ctx = length (filter (occurs_at tokens ctx) [0..<length tokens])"

text \<open>A table has one counter per context, none of them empty, and a counter no count of zero.\<close>

definition counter_ok :: "counter \<Rightarrow> bool" where
  "counter_ok c \<longleftrightarrow> dict_wf c \<and> c \<noteq> [] \<and> (\<forall>p \<in> set c. 0 < snd p)"

definition table_ok :: "context_table \<Rightarrow> bool" where
  "table_ok d \<longleftrightarrow> (\<forall>ctx. counter_at d ctx \<noteq> [] \<longrightarrow> counter_ok (counter_at d ctx))"

definition total_of :: "context_table \<Rightarrow> int list \<Rightarrow> nat" where
  "total_of d ctx = sum_list (map snd (counter_at d ctx))"

definition tables_ok :: "ngram_memory \<Rightarrow> bool" where
  "tables_ok m \<longleftrightarrow> length (nm_next_counts m) = nm_max_order m + 1 \<and> length (nm_value_index m) = nm_max_order m + 1
     \<and> 1 \<le> nm_min_order m \<and> nm_min_order m \<le> nm_max_order m
     \<and> list_all table_ok (nm_next_counts m) \<and> list_all table_ok (nm_value_index m)"

lemma count_bump: "count_of (bump ctx x d) ctx' x' = count_of d ctx' x' + (if ctx' = ctx \<and> x' = x then 1 else 0)"
  by (auto simp: count_of_def bump_def counter_at_def split: option.splits)

lemma counter_bump: "counter_at (bump ctx x d) ctx' =
    (if ctx' = ctx then dict_set x (count_of d ctx x + 1) (counter_at d ctx) else counter_at d ctx')"
  by (auto simp: bump_def counter_at_def)

lemma counter_ok_set: "c = [] \<or> counter_ok c \<Longrightarrow> counter_ok (dict_set x (Suc n) c)"
  using set_dict_set_subset [of x "Suc n" c] keys_dict_set [of x "Suc n" c]
  by (auto simp: counter_ok_def dict_wf_set)

lemma table_ok_bump: "table_ok d \<Longrightarrow> table_ok (bump ctx x d)"
  using counter_ok_set [of "counter_at d ctx" x "count_of d ctx x"] by (auto simp: table_ok_def counter_bump)

lemma sum_dict_set:
  "dict_wf c \<Longrightarrow> sum_list (map snd (dict_set x (Suc (case dict_get c x of None \<Rightarrow> 0 | Some n \<Rightarrow> n)) c))
   = Suc (sum_list (map snd c))"
proof (induction c)
  case (Cons p c)
  then have IH: "sum_list (map snd (dict_set x (Suc (case dict_get c x of None \<Rightarrow> 0 | Some n \<Rightarrow> n)) c)) = Suc (sum_list (map snd c))"
    by (simp add: dict_wf_def)
  then show ?case by (cases p) (auto simp: dict_set_def dict_get_def)
qed (simp add: dict_set_def)

lemma total_bump: "table_ok d \<Longrightarrow> total_of (bump ctx x d) ctx' = total_of d ctx' + (if ctx' = ctx then 1 else 0)"
  using sum_dict_set [of "counter_at d ctx" x]
  by (cases "counter_at d ctx = []")
    (auto simp: total_of_def counter_bump table_ok_def counter_ok_def count_of_def dict_set_def)

lemma counter_nonempty: "table_ok d \<Longrightarrow> counter_at d ctx \<noteq> [] \<longleftrightarrow> 0 < total_of d ctx"
proof (cases "counter_at d ctx")
  case (Cons p c)
  moreover assume "table_ok d"
  ultimately have "counter_ok (p # c)" unfolding table_ok_def by (metis list.distinct(1))
  then have "0 < snd p" by (simp add: counter_ok_def)
  then show ?thesis using Cons by (simp add: total_of_def)
qed (simp add: total_of_def)

abbreviation next_count :: "ngram_memory \<Rightarrow> int list \<Rightarrow> int \<Rightarrow> nat" where
  "next_count m ctx x \<equiv> count_of (nm_next_counts m ! length ctx) ctx x"

abbreviation next_total :: "ngram_memory \<Rightarrow> int list \<Rightarrow> nat" where
  "next_total m ctx \<equiv> total_of (nm_next_counts m ! length ctx) ctx"

abbreviation value_count :: "ngram_memory \<Rightarrow> int list \<Rightarrow> int \<Rightarrow> nat" where
  "value_count m ctx v \<equiv> count_of (nm_value_index m ! length ctx) ctx v"

text \<open>\<open>m'\<close> counts, over \<open>m\<close>, the positions \<open>is\<close> of a sequence for the context \<open>ctx\<close>.\<close>

definition counts_over :: "ngram_memory \<Rightarrow> ngram_memory \<Rightarrow> int list \<Rightarrow> int option \<Rightarrow> int list \<Rightarrow> nat list \<Rightarrow> bool" where
  "counts_over m m' tokens v ctx is \<longleftrightarrow>
     (\<forall>x. next_count m' ctx x = next_count m ctx x + length (filter (\<lambda>i. occurs_at tokens ctx i \<and> tokens ! i = x) is))
     \<and> next_total m' ctx = next_total m ctx + length (filter (occurs_at tokens ctx) is)
     \<and> (\<forall>y. value_count m' ctx y = value_count m ctx y + (if v = Some y then length (filter (occurs_at tokens ctx) is) else 0))
     \<and> tables_ok m' \<and> nm_max_order m' = nm_max_order m \<and> nm_min_order m' = nm_min_order m"

lemma counts_over_trans:
  "counts_over m m' tokens v ctx is \<Longrightarrow> counts_over m' m'' tokens v ctx js \<Longrightarrow> counts_over m m'' tokens v ctx (is @ js)"
  by (auto simp: counts_over_def)

lemma counts_over_refl: "tables_ok m \<Longrightarrow> counts_over m m tokens v ctx []"
  by (simp add: counts_over_def)

lemma list_all_update: "list_all P xs \<Longrightarrow> P x \<Longrightarrow> list_all P (xs[i := x])"
  by (auto simp: list_all_iff dest: set_update_subset_insert [THEN subsetD])

lemma add_gram_counts:
  assumes "tables_ok m" "order \<le> nm_max_order m" "length ctx \<le> nm_max_order m" "i < length tokens"
  shows "counts_over m (add_gram tokens v i order m) tokens v ctx (if length ctx = order then [i] else [])"
proof -
  have ok: "table_ok (nm_next_counts m ! order)" "table_ok (nm_value_index m ! order)"
    using assms(1,2) by (simp_all add: tables_ok_def list_all_length)
  then have "tables_ok (add_gram tokens v i order m)"
    using assms(1,2) by (auto simp: add_gram_def Let_def tables_ok_def intro!: list_all_update table_ok_bump split: option.splits)
  then show ?thesis
    using assms ok
    by (auto simp: counts_over_def add_gram_def Let_def tables_ok_def occurs_at_def nth_list_update count_bump total_bump
        split: option.splits)
qed

lemma fold_orders_counts:
  assumes "tables_ok m" "set orders \<subseteq> {..nm_max_order m}" "distinct orders" "length ctx \<le> nm_max_order m" "i < length tokens"
  shows "counts_over m (fold (add_gram tokens v i) orders m) tokens v ctx (if length ctx \<in> set orders then [i] else [])"
  using assms
proof (induction orders arbitrary: m)
  case (Cons n orders)
  have g: "counts_over m (add_gram tokens v i n m) tokens v ctx (if length ctx = n then [i] else [])"
    using Cons.prems by (intro add_gram_counts) auto
  then have "counts_over (add_gram tokens v i n m) (fold (add_gram tokens v i) orders (add_gram tokens v i n m)) tokens v ctx
      (if length ctx \<in> set orders then [i] else [])"
    using Cons.prems by (intro Cons.IH) (auto simp: counts_over_def)
  from counts_over_trans [OF g this] Cons.prems(3) show ?case by (cases "length ctx = n") auto
qed (simp add: counts_over_refl)

lemma add_position_counts:
  assumes "tables_ok m" "ctx \<noteq> []" "length ctx \<le> nm_max_order m" "i < length tokens"
  shows "counts_over m (add_position tokens v i m) tokens v ctx [i]"
proof (cases "i = 0")
  case True
  then show ?thesis using assms by (auto simp: add_position_def occurs_at_def counts_over_def)
next
  case False
  have "length ctx \<in> set [1..<nm_max_order m + 1]" using assms(2,3) by (cases ctx) auto
  moreover have "set [1..<nm_max_order m + 1] \<subseteq> {..nm_max_order m}" by auto
  ultimately show ?thesis
    using fold_orders_counts [OF assms(1) _ distinct_upt assms(3,4), of 1 "nm_max_order m + 1" v] False
    by (simp add: add_position_def del: upt_Suc)
qed

lemma add_positions_counts:
  assumes "tables_ok m" "ctx \<noteq> []" "length ctx \<le> nm_max_order m" "set is \<subseteq> {..<length tokens}"
  shows "counts_over m (fold (add_position tokens v) is m) tokens v ctx is"
  using assms
proof (induction "is" arbitrary: m)
  case (Cons i "is")
  have g: "counts_over m (add_position tokens v i m) tokens v ctx [i]"
    using Cons.prems by (intro add_position_counts) auto
  then have "counts_over (add_position tokens v i m) (fold (add_position tokens v) is (add_position tokens v i m)) tokens v ctx is"
    using Cons.prems by (intro Cons.IH) (auto simp: counts_over_def)
  from counts_over_trans [OF g this] show ?case by simp
qed (simp add: counts_over_refl)

lemma add_sequence_counts:
  assumes "tables_ok m" "ctx \<noteq> []" "length ctx \<le> nm_max_order m"
  shows "counts_over m (add_sequence tokens v m) tokens v ctx [0..<length tokens]"
proof -
  have "set [0..<length tokens] \<subseteq> {..<length tokens}" by auto
  from add_positions_counts [OF assms this] show ?thesis by (simp add: add_sequence_def)
qed

text \<open>A list of sequences with their values, added in order.\<close>

definition add_all :: "(int list \<times> int option) list \<Rightarrow> ngram_memory \<Rightarrow> ngram_memory" where
  "add_all docs m = fold (\<lambda>(tokens, v). add_sequence tokens v) docs m"

lemma add_all_counts:
  assumes "tables_ok m" "ctx \<noteq> []" "length ctx \<le> nm_max_order m"
  shows "next_count (add_all docs m) ctx x = next_count m ctx x + sum_list (map (\<lambda>(tokens, v). followed_by tokens ctx x) docs)
    \<and> next_total (add_all docs m) ctx = next_total m ctx + sum_list (map (\<lambda>(tokens, v). occurrences tokens ctx) docs)
    \<and> value_count (add_all docs m) ctx y = value_count m ctx y
        + sum_list (map (\<lambda>(tokens, v). if v = Some y then occurrences tokens ctx else 0) docs)
    \<and> tables_ok (add_all docs m) \<and> nm_max_order (add_all docs m) = nm_max_order m
    \<and> nm_min_order (add_all docs m) = nm_min_order m"
  using assms
proof (induction docs arbitrary: m)
  case (Cons p docs)
  obtain tokens v where p: "p = (tokens, v)" by fastforce
  have c: "counts_over m (add_sequence tokens v m) tokens v ctx [0..<length tokens]"
    using Cons.prems by (rule add_sequence_counts)
  have all: "add_all (p # docs) m = add_all docs (add_sequence tokens v m)" by (simp add: add_all_def p)
  show ?case
    using Cons.IH [of "add_sequence tokens v m"] c Cons.prems
    unfolding all counts_over_def followed_by_def occurrences_def by (simp add: p)
qed (simp add: add_all_def)

lemma init_tables:
  "ngram_memory_init lo hi = Inr m \<Longrightarrow> tables_ok m \<and> nm_max_order m = nat hi \<and> nm_min_order m = nat lo
   \<and> (\<forall>n \<le> nat hi. nm_next_counts m ! n = [] \<and> nm_value_index m ! n = [])"
  by (auto simp: ngram_memory_init_def tables_ok_def table_ok_def counter_at_def list_all_iff split: if_splits
      simp del: replicate_Suc)

section \<open>The longest order\<close>

lemma best_order_from_spec:
  "best_order_from m ctx n = k \<Longrightarrow> 1 \<le> nm_min_order m \<Longrightarrow>
   (k = 0 \<or> nm_min_order m \<le> k \<and> k \<le> n \<and> counter_at (nm_next_counts m ! k) (last_n k ctx) \<noteq> [])
   \<and> (\<forall>j. k < j \<and> j \<le> n \<and> nm_min_order m \<le> j \<longrightarrow> counter_at (nm_next_counts m ! j) (last_n j ctx) = [])"
proof (induction n)
  case (Suc n)
  show ?case
  proof (cases "Suc n < nm_min_order m \<or> counter_at (nm_next_counts m ! Suc n) (last_n (Suc n) ctx) \<noteq> []")
    case True
    then show ?thesis using Suc.prems by (cases "Suc n < nm_min_order m") auto
  next
    case False
    then have "best_order_from m ctx n = k" using Suc.prems by simp
    with Suc.IH Suc.prems(2) False show ?thesis by (auto simp: le_Suc_eq)
  qed
qed simp

lemma sum_of_fractions: "(\<Sum>p \<leftarrow> c. (of_nat (snd p) :: rat) / q) = of_nat (sum_list (map snd c)) / q"
  by (induction c) (simp_all add: add_divide_distrib)

section \<open>Properties\<close>

text \<open>
  In the memory built from any list of sequences, the continuation count of a context and a token
  is the number of times the token follows the context in them, and the count of a value under a context is
  the number of positions the context precedes in the sequences of that value, for every context
  length up to the largest order.
\<close>

theorem ngram_counts:
  assumes "ngram_memory_init lo hi = Inr m" "ctx \<noteq> []" "int (length ctx) \<le> hi"
  shows "count_of (nm_next_counts (add_all docs m) ! length ctx) ctx x = sum_list (map (\<lambda>(tokens, v). followed_by tokens ctx x) docs)
    \<and> count_of (nm_value_index (add_all docs m) ! length ctx) ctx y
        = sum_list (map (\<lambda>(tokens, v). if v = Some y then occurrences tokens ctx else 0) docs)"
proof -
  note i = init_tables [OF assms(1)]
  have l: "length ctx \<le> nm_max_order m" using assms(3) i by (simp add: le_nat_iff)
  then have "count_of (nm_next_counts m ! length ctx) ctx x = 0" "count_of (nm_value_index m ! length ctx) ctx y = 0"
    using i by (simp_all add: count_of_def counter_at_def)
  with i add_all_counts [OF _ assms(2) l, of docs x y] show ?thesis by simp
qed

definition demo_docs :: "(int list \<times> int option) list" where
  "demo_docs = [([1, 2, 3, 1, 2], Some 7), ([1, 2, 4], None)]"

definition demo_ngrams :: ngram_memory where
  "demo_ngrams = \<lparr>nm_min_order = 1, nm_max_order = 2, nm_next_counts = [[], [], []],
     nm_value_index = [[], [], []], nm_total_ngrams = 0\<rparr>"

lemma demo_ngrams_init: "ngram_memory_init 1 2 = Inr demo_ngrams"
  by (simp add: ngram_memory_init_def demo_ngrams_def numeral_2_eq_2)

theorem ngram_counts_witness:
  "count_of (nm_next_counts (add_all demo_docs demo_ngrams) ! length [1 :: int, 2]) [1, 2] 3
      = sum_list (map (\<lambda>(tokens, v). followed_by tokens [1, 2] 3) demo_docs)
    \<and> count_of (nm_value_index (add_all demo_docs demo_ngrams) ! length [1 :: int, 2]) [1, 2] 7
      = sum_list (map (\<lambda>(tokens, v). if v = Some 7 then occurrences tokens [1, 2] else 0) demo_docs)"
  by (rule ngram_counts [OF demo_ngrams_init]) simp_all

text \<open>The counts after any documents, and the fractions of a counter.\<close>

lemma added_counts:
  assumes "ngram_memory_init lo hi = Inr m" "c \<noteq> []" "length c \<le> nat hi"
  shows "next_count (add_all docs m) c x = sum_list (map (\<lambda>(tokens, v). followed_by tokens c x) docs)
    \<and> next_total (add_all docs m) c = sum_list (map (\<lambda>(tokens, v). occurrences tokens c) docs)"
proof -
  note i = init_tables [OF assms(1)]
  have "count_of (nm_next_counts m ! length c) c x = 0" "total_of (nm_next_counts m ! length c) c = 0"
    using i assms(3) by (simp_all add: count_of_def total_of_def counter_at_def)
  with i add_all_counts [OF _ assms(2), of m docs x] assms(3) show ?thesis by simp
qed

lemma init_orders: "ngram_memory_init lo hi = Inr m \<Longrightarrow> 1 \<le> lo \<and> lo \<le> hi"
  by (auto simp: ngram_memory_init_def split: if_splits)

lemma added_config:
  assumes "ngram_memory_init lo hi = Inr m"
  shows "tables_ok (add_all docs m)" "nm_max_order (add_all docs m) = nat hi" "nm_min_order (add_all docs m) = nat lo"
  using add_all_counts [of m "[0]" docs] init_tables [OF assms] init_orders [OF assms] by auto

lemma fractions_sum_one:
  assumes "table_ok t" "counter_at t x \<noteq> []"
  shows "sum_list (map snd (map (\<lambda>(tok, cnt). (tok, of_nat cnt / of_nat (sum_list (map snd (counter_at t x))) :: rat)) (counter_at t x))) = 1"
proof -
  let ?c = "counter_at t x"
  define N where "N = sum_list (map snd ?c)"
  have N: "0 < N" using counter_nonempty [OF assms(1)] assms(2) by (simp add: total_of_def N_def)
  have "map snd (map (\<lambda>(tok, cnt). (tok, of_nat cnt / of_nat N :: rat)) ?c) = map (\<lambda>p. of_nat (snd p) / of_nat N) ?c"
    by auto
  then have "sum_list (map snd (map (\<lambda>(tok, cnt). (tok, of_nat cnt / of_nat N :: rat)) ?c))
      = of_nat (sum_list (map snd ?c)) / of_nat N"
    by (simp only: sum_of_fractions)
  also have "\<dots> = of_nat N / of_nat N" by (simp only: N_def)
  also have "\<dots> = 1" using N by simp
  finally show ?thesis unfolding N_def .
qed

lemma last_n_length: "0 < j \<Longrightarrow> j \<le> length xs \<Longrightarrow> length (last_n j xs) = j \<and> last_n j xs \<noteq> []"
  by (auto simp: last_n_def)

section \<open>The distribution after a context\<close>

text \<open>How often the sequences continued a context.\<close>

definition continued :: "(int list \<times> int option) list \<Rightarrow> int list \<Rightarrow> nat" where
  "continued docs c = sum_list (map (\<lambda>(tokens, v). occurrences tokens c) docs)"

lemma counter_empty_iff:
  assumes "ngram_memory_init lo hi = Inr m" "1 \<le> j" "j \<le> length ctx" "int j \<le> hi"
  shows "counter_at (nm_next_counts (add_all docs m) ! j) (last_n j ctx) = [] \<longleftrightarrow> continued docs (last_n j ctx) = 0"
proof -
  have l: "length (last_n j ctx) = j" "last_n j ctx \<noteq> []" using assms(2,3) last_n_length [of j ctx] by auto
  have tab: "table_ok (nm_next_counts (add_all docs m) ! j)"
    using added_config(1,2) [OF assms(1), of docs] assms(4) by (simp add: tables_ok_def list_all_length le_nat_iff)
  have "total_of (nm_next_counts (add_all docs m) ! j) (last_n j ctx) = continued docs (last_n j ctx)"
    using added_counts [OF assms(1) l(2)] l(1) assms(4) by (simp add: continued_def le_nat_iff)
  then show ?thesis using counter_nonempty [OF tab, of "last_n j ctx"] by (auto simp: total_of_def)
qed

lemma continuation_None:
  assumes "ngram_memory_init lo hi = Inr m" "continuation_distribution (add_all docs m) ctx = None"
    and "lo \<le> int j" "int j \<le> hi" "j \<le> length ctx"
  shows "continued docs (last_n j ctx) = 0"
proof -
  let ?m = "add_all docs m"
  note ok = added_config [OF assms(1), of docs] and lo = init_orders [OF assms(1)]
  have min: "1 \<le> nm_min_order ?m" using ok(3) lo by (simp add: Suc_le_eq)
  note s = best_order_from_spec [OF refl min, of ctx "min (nat hi) (length ctx)"]
  have "best_order_from ?m ctx (min (nat hi) (length ctx)) = 0"
    using assms(2) ok(2) s by (auto simp: continuation_distribution_def best_order_def Let_def split: if_splits)
  then have "counter_at (nm_next_counts ?m ! j) (last_n j ctx) = []"
    using s assms(3-5) ok(3) lo by (auto simp: le_nat_iff nat_le_iff)
  then show ?thesis using counter_empty_iff [OF assms(1) _ assms(5,4), of docs] lo assms(3) by simp
qed

lemma continuation_Some:
  assumes "ngram_memory_init lo hi = Inr m" "continuation_distribution (add_all docs m) ctx = Some (d, n)"
  shows "lo \<le> int n \<and> n \<le> length ctx \<and> int n \<le> hi \<and> continued docs (last_n n ctx) \<noteq> 0
    \<and> (\<forall>j. n < j \<and> j \<le> length ctx \<and> int j \<le> hi \<longrightarrow> continued docs (last_n j ctx) = 0)
    \<and> list_all (\<lambda>(tok, p). p = of_nat (sum_list (map (\<lambda>(tokens, v). followed_by tokens (last_n n ctx) tok) docs))
         / of_nat (continued docs (last_n n ctx))) d
    \<and> sum_list (map snd d) = 1"
proof -
  let ?m = "add_all docs m" and ?total = "continued docs"
  note ok = added_config [OF assms(1), of docs] and lo = init_orders [OF assms(1)] and counts = added_counts [where docs = docs, OF assms(1)]
  define c where "c = counter_at (nm_next_counts ?m ! n) (last_n n ctx)"
  have n: "best_order_from ?m ctx (min (nat hi) (length ctx)) = n" "n \<noteq> 0" "c \<noteq> []"
    "d = map (\<lambda>(tok, cnt). (tok, of_nat cnt / of_nat (sum_list (map snd c)))) c"
    using assms(2) ok(2) by (auto simp: continuation_distribution_def best_order_def c_def Let_def split: if_splits)
  have min: "1 \<le> nm_min_order ?m" using ok(3) lo by (simp add: Suc_le_eq)
  note s = best_order_from_spec [OF n(1) min]
  have spec: "nm_min_order ?m \<le> n" "n \<le> min (nat hi) (length ctx)" using s n(2) by simp_all
  have longer: "?total (last_n j ctx) = 0" if j: "n < j" "j \<le> length ctx" "int j \<le> hi" for j
  proof -
    have "counter_at (nm_next_counts ?m ! j) (last_n j ctx) = []" using s j spec(1) by (simp add: le_nat_iff)
    then show ?thesis using counter_empty_iff [OF assms(1) _ j(2,3), of docs] j(1) by simp
  qed
  have l: "length (last_n n ctx) = n" "last_n n ctx \<noteq> []" using n(2) spec(2) last_n_length [of n ctx] by auto
  have hi: "length (last_n n ctx) \<le> nat hi" using l spec(2) by simp
  have tab: "table_ok (nm_next_counts ?m ! n)" using ok(1,2) spec(2) by (simp add: tables_ok_def list_all_length)
  then have cok: "counter_ok c" using n(3) unfolding table_ok_def c_def by blast
  have total: "sum_list (map snd c) = ?total (last_n n ctx)"
    using counts [OF l(2) hi, unfolded l(1)] by (simp add: total_of_def c_def continued_def)
  have cnt: "cnt = sum_list (map (\<lambda>(tokens, v). followed_by tokens (last_n n ctx) tok) docs)" if "(tok, cnt) \<in> set c" for tok cnt
  proof -
    have "dict_get c tok = Some cnt" using cok that by (simp add: counter_ok_def dict_get_Some_iff)
    then have "count_of (nm_next_counts ?m ! n) (last_n n ctx) tok = cnt" by (simp add: count_of_def c_def)
    then show ?thesis using counts [OF l(2) hi, of tok, unfolded l(1)] by simp
  qed
  have "sum_list (map snd d) = 1"
    using fractions_sum_one [OF tab, of "last_n n ctx"] n(3) unfolding n(4) c_def by simp
  moreover have "list_all (\<lambda>(tok, p). p = of_nat (sum_list (map (\<lambda>(tokens, v). followed_by tokens (last_n n ctx) tok) docs))
      / of_nat (?total (last_n n ctx))) d"
    unfolding n(4) using cnt by (auto simp: list_all_iff total)
  moreover have "?total (last_n n ctx) \<noteq> 0"
    using counter_empty_iff [OF assms(1), of n ctx docs] n(2,3) spec(2) by (simp add: c_def le_nat_iff)
  ultimately show ?thesis using longer spec ok(3) lo by (auto simp: le_nat_iff nat_le_iff)
qed

text \<open>
  C24: the continuation distribution is the empirical one of the longest known context: it uses the
  longest suffix of the context, within the orders, that any sequence continued, gives every token it lists the
  number of times it followed that suffix over the number of times the suffix was continued, and
  sums to one; and there is none exactly when no suffix within the orders was ever continued.
\<close>

theorem continuation_empirical:
  assumes "ngram_memory_init lo hi = Inr m"
  shows "case continuation_distribution (add_all docs m) ctx of
      None \<Rightarrow> \<forall>j. lo \<le> int j \<and> int j \<le> hi \<and> j \<le> length ctx \<longrightarrow> continued docs (last_n j ctx) = 0
    | Some (d, n) \<Rightarrow> lo \<le> int n \<and> n \<le> length ctx \<and> int n \<le> hi \<and> continued docs (last_n n ctx) \<noteq> 0
        \<and> (\<forall>j. n < j \<and> j \<le> length ctx \<and> int j \<le> hi \<longrightarrow> continued docs (last_n j ctx) = 0)
        \<and> list_all (\<lambda>(tok, p). p = of_nat (sum_list (map (\<lambda>(tokens, v). followed_by tokens (last_n n ctx) tok) docs))
             / of_nat (continued docs (last_n n ctx))) d
        \<and> sum_list (map snd d) = 1"
proof (cases "continuation_distribution (add_all docs m) ctx")
  case None
  then show ?thesis using continuation_None [OF assms None] by simp
next
  case (Some r)
  obtain d n where r: "r = (d, n)" by (cases r)
  show ?thesis using continuation_Some [OF assms Some [unfolded r]] unfolding Some r option.case prod.case .
qed

theorem continuation_empirical_witness:
  "list_all (\<lambda>(tok, p). p = of_nat (sum_list (map (\<lambda>(tokens, v). followed_by tokens (last_n 2 [9, 1, 2]) tok) demo_docs))
         / of_nat (continued demo_docs (last_n 2 [9, 1, 2]))) [(3, 1/2), (4, 1/2 :: rat)]
    \<and> continued demo_docs (last_n 1 [9]) = 0"
proof -
  have known: "continuation_distribution (add_all demo_docs demo_ngrams) [9, 1, 2] = Some ([(3, 1/2), (4, 1/2)], 2)"
    and unknown: "continuation_distribution (add_all demo_docs demo_ngrams) [9] = None"
    by code_simp+
  note some = continuation_empirical [where docs = demo_docs and ctx = "[9, 1, 2]", OF demo_ngrams_init, unfolded known option.case prod.case]
    and none = continuation_empirical [where docs = demo_docs and ctx = "[9]", OF demo_ngrams_init, unfolded unknown option.case]
  have "continued demo_docs (last_n 1 [9]) = 0" by (rule none [THEN spec, THEN mp]) simp
  with some show ?thesis by blast
qed

end
