(* ===== verification/Bundle.thy ===== *)
theory Bundle
  imports PleMemory Tables JsonValue PyPath
begin

text \<open>
  \<open>python/engramdb/bundle.py\<close>: \<open>BundleManifest\<close>, its validation, its path resolution and \<open>open_memory\<close>.
  The manifest is a JSON value; the text of a file and the constructors of stores, views and
  slot indexes are arguments.  The scale is a rational, as JSON floats are outside the model.
\<close>

section \<open>The manifest\<close>

record manifest =
  bm_data :: json
  bm_base_dir :: "string option"
  bm_path :: "string option"

definition BUNDLE_SCHEMA :: string where
  "BUNDLE_SCHEMA = ''engramdb-bundle-v1''"

definition bundle_load :: "(string \<Rightarrow> string res) \<Rightarrow> string \<Rightarrow> manifest res" where
  "bundle_load read_text path =
     rbind (read_text (py_path path)) (\<lambda>text. rbind (loads text) (\<lambda>data.
       Inr \<lparr>bm_data = data, bm_base_dir = Some (path_parent path), bm_path = Some (py_path path)\<rparr>))"

definition bundle_schema :: "manifest \<Rightarrow> json option res" where
  "bundle_schema b = json_get (bm_data b) ''schema''"

definition bundle_id :: "manifest \<Rightarrow> json option res" where
  "bundle_id b = json_get (bm_data b) ''id''"

text \<open>\<open>d.get(k, {})\<close> and \<open>d.get(k, [])\<close>.\<close>

definition get_default :: "json \<Rightarrow> string \<Rightarrow> json \<Rightarrow> json res" where
  "get_default d k x = rmap (\<lambda>v. case v of None \<Rightarrow> x | Some v \<Rightarrow> v) (json_get d k)"

definition bundle_memory :: "manifest \<Rightarrow> json res" where
  "bundle_memory b = get_default (bm_data b) ''memory'' (JObj [])"

definition bundle_ple :: "manifest \<Rightarrow> json res" where
  "bundle_ple b = get_default (bm_data b) ''ple'' (JObj [])"

definition bundle_readers :: "manifest \<Rightarrow> json res" where
  "bundle_readers b = get_default (bm_data b) ''readers'' (JList [])"

definition bundle_to_dict :: "manifest \<Rightarrow> json res" where
  "bundle_to_dict b = loads (dumps (bm_data b))"

text \<open>\<open>resolve_path\<close>: a missing entry and \<open>null\<close> are \<open>None\<close>.\<close>

definition is_none :: "json option \<Rightarrow> bool" where
  "is_none v \<longleftrightarrow> v = None \<or> v = Some JNull"

definition resolve_path :: "manifest \<Rightarrow> json option \<Rightarrow> string option res" where
  "resolve_path b rel =
     (if is_none rel then Inr None
      else rbind (as_name (the rel)) (\<lambda>p.
        Inr (Some (case bm_base_dir b of
            None \<Rightarrow> py_path p
          | Some base \<Rightarrow> if is_absolute p then py_path p else path_div base p))))"

section \<open>Validation\<close>

definition schema_errors :: "manifest \<Rightarrow> string list res" where
  "schema_errors b =
     rbind (bundle_schema b) (\<lambda>schema.
       if \<not> is_true schema then Inr [''missing schema'']
       else rbind (py_str (the schema)) (\<lambda>s.
         Inr (if starts ''engramdb-bundle-'' s then [] else [''unsupported schema: '' @ s])))"

text \<open>The loop over the required keys of a store.\<close>

definition missing_keys :: "string \<Rightarrow> string list \<Rightarrow> json \<Rightarrow> string list res" where
  "missing_keys prefix keys obj =
     rmap concat (rmapM (\<lambda>k. rmap (\<lambda>b. if b then [] else [prefix @ '' missing '' @ k]) (json_in k obj)) keys)"

definition view_errors :: "json \<Rightarrow> string list res" where
  "view_errors mem =
     rbind (get_default mem ''view'' (JObj [])) (\<lambda>view.
     rbind (missing_keys ''memory.view'' [''path''] view) (\<lambda>e1.
     rbind (json_get mem ''slot_index'') (\<lambda>slot.
     rbind (if is_none slot then Inr [] else missing_keys ''memory.slot_index'' [''path''] (the slot)) (\<lambda>e2.
     rbind (json_get mem ''sequential_view'') (\<lambda>sequential_view. rbind (json_get mem ''sequential'') (\<lambda>sequential.
       Inr (e1 @ e2 @
         (if is_none slot \<and> \<not> (is_true sequential_view \<or> is_true sequential)
          then [''memory.view requires slot_index or sequential_view=true''] else []))))))))"

definition memory_errors :: "manifest \<Rightarrow> string list res" where
  "memory_errors b =
     rbind (bundle_memory b) (\<lambda>mem. rbind (json_get mem ''type'') (\<lambda>mtype.
       if mtype \<notin> {Some (JStr ''store''), Some (JStr ''view'')} then Inr [''memory.type must be '' @ [CHR 0x27] @ ''store'' @ [CHR 0x27] @ '' or '' @ [CHR 0x27] @ ''view'' @ [CHR 0x27]]
       else if mtype = Some (JStr ''store'') then
         rbind (get_default mem ''store'' (JObj [])) (missing_keys ''memory.store'' [''path'', ''shards'', ''rows_per_shard'', ''width''])
       else view_errors mem))"

definition ple_errors :: "manifest \<Rightarrow> string list res" where
  "ple_errors b =
     rbind (bundle_ple b) (\<lambda>ple. rbind (missing_keys ''ple'' [''ple_embed_dim''] ple) (\<lambda>e1.
     rbind (json_in ''num_heads'' ple) (\<lambda>heads. rbind (if heads then Inr True else json_in ''ngram_size'' ple) (\<lambda>ok.
       Inr (e1 @ (if ok then [] else [''ple missing num_heads or ngram_size'']))))))"

definition validate :: "manifest \<Rightarrow> string list res" where
  "validate b =
     rbind (schema_errors b) (\<lambda>e1. rbind (memory_errors b) (\<lambda>e2. rbind (ple_errors b) (\<lambda>e3. Inr (e1 @ e2 @ e3))))"

section \<open>Resolved paths\<close>

definition json_set :: "json \<Rightarrow> string \<Rightarrow> json \<Rightarrow> json res" where
  "json_set obj k v = (case obj of JObj ps \<Rightarrow> Inr (JObj (dict_set k v ps)) | _ \<Rightarrow> Inl TypeError)"

text \<open>\<open>obj["path"] = str(resolve_path(obj.get("path")))\<close> unless there is none.\<close>

definition resolve_entry :: "manifest \<Rightarrow> json \<Rightarrow> json res" where
  "resolve_entry b obj =
     rbind (json_get obj ''path'') (\<lambda>p. rbind (resolve_path b p) (\<lambda>r.
       case r of None \<Rightarrow> Inr obj | Some s \<Rightarrow> json_set obj ''path'' (JStr s)))"

definition resolve_key :: "manifest \<Rightarrow> string \<Rightarrow> json \<Rightarrow> json res" where
  "resolve_key b k mem = rbind (json_item mem k) (\<lambda>e. rbind (resolve_entry b e) (json_set mem k))"

definition resolve_memory :: "manifest \<Rightarrow> json \<Rightarrow> json res" where
  "resolve_memory b mem =
     rbind (json_get mem ''type'') (\<lambda>mtype.
     rbind (json_in ''store'' mem) (\<lambda>has_store. rbind (json_in ''view'' mem) (\<lambda>has_view.
       if mtype = Some (JStr ''store'') \<and> has_store then resolve_key b ''store'' mem
       else if mtype = Some (JStr ''view'') \<and> has_view then
         rbind (resolve_key b ''view'' mem) (\<lambda>mem. rbind (json_get mem ''slot_index'') (\<lambda>slot.
           if is_none slot then Inr mem else resolve_key b ''slot_index'' mem))
       else Inr mem)))"

text \<open>The readers are changed in place; the items of anything but a list of dictionaries have no \<open>get\<close>.\<close>

definition resolve_readers :: "manifest \<Rightarrow> json \<Rightarrow> json res" where
  "resolve_readers b readers =
     (case readers of
        JList xs \<Rightarrow> rmap JList (rmapM (resolve_entry b) xs)
      | _ \<Rightarrow> rbind (json_iter readers) (\<lambda>xs. if xs = [] then Inr readers else Inl AttributeError))"

definition resolved :: "manifest \<Rightarrow> json res" where
  "resolved b =
     rbind (loads (dumps (bm_data b))) (\<lambda>out.
     rbind (json_get out ''memory'') (\<lambda>mem.
     rbind (case mem of
         None \<Rightarrow> Inr out
       | Some mem \<Rightarrow> rbind (resolve_memory b mem) (json_set out ''memory'')) (\<lambda>out.
     rbind (json_get out ''readers'') (\<lambda>readers.
       case readers of
         None \<Rightarrow> Inr out
       | Some readers \<Rightarrow> rbind (resolve_readers b readers) (json_set out ''readers'')))))"

section \<open>Opening the memory\<close>

text \<open>The constructors: \<open>Store\<close>, \<open>View\<close>, \<open>SlotIndex.load\<close> and \<open>DiskSlotIndex\<close>.\<close>

record artifacts =
  af_store :: "string \<Rightarrow> int \<Rightarrow> int \<Rightarrow> int \<Rightarrow> store_obj res"
  af_view :: "string \<Rightarrow> view_obj res"
  af_slot_index :: "string \<Rightarrow> slot_index_obj res"
  af_disk_slot_index :: "string \<Rightarrow> slot_index_obj res"

definition cfg_int :: "json \<Rightarrow> string \<Rightarrow> int \<Rightarrow> int res" where
  "cfg_int cfg k d = rbind (get_or cfg k (JInt d)) py_int"

definition cfg_ints :: "json \<Rightarrow> string \<Rightarrow> int list option res" where
  "cfg_ints cfg k =
     rbind (json_get cfg k) (\<lambda>v.
       if is_none v then Inr None else rmap Some (rbind (json_iter (the v)) (rmapM py_int)))"

definition bundle_head_dim :: "json \<Rightarrow> int \<Rightarrow> int res" where
  "bundle_head_dim ple num_heads =
     rbind (json_get ple ''head_dim'') (\<lambda>v.
       if is_true v then py_int (the v)
       else rbind (json_get ple ''ple_embed_dim'') (\<lambda>d.
         rbind (case d of None \<Rightarrow> Inl TypeError | Some d \<Rightarrow> py_int d) (\<lambda>d. py_div d num_heads)))"

definition bundle_args :: "json \<Rightarrow> json \<Rightarrow> memory_args res" where
  "bundle_args mem ple =
     rbind (cfg_int ple ''ngram_size'' 3) (\<lambda>ngram_size.
     rbind (cfg_int ple ''heads_per_ngram'' 8) (\<lambda>heads_per_ngram.
     rbind (cfg_int ple ''num_heads'' ((ngram_size - 1) * heads_per_ngram)) (\<lambda>num_heads.
     rbind (bundle_head_dim ple num_heads) (\<lambda>head_dim.
     rbind (rbind (get_or ple ''scale'' (JInt 1)) py_float) (\<lambda>scale.
     rbind (cfg_int ple ''eos'' 248044) (\<lambda>eos.
     rbind (cfg_ints ple ''multipliers'') (\<lambda>multipliers. rbind (cfg_ints ple ''prime_sizes'') (\<lambda>prime_sizes.
     rbind (cfg_ints ple ''offsets'') (\<lambda>offsets.
     rbind (json_get mem ''sequential_view'') (\<lambda>sequential_view. rbind (json_get mem ''sequential'') (\<lambda>sequential.
     rbind (cfg_int mem ''start_slot'' 0) (\<lambda>start_slot.
       Inr (default_args\<lparr>pa_head_dim := Some head_dim, pa_num_heads := Some num_heads,
         pa_ngram_size := Some ngram_size, pa_heads_per_ngram := Some heads_per_ngram,
         pa_multipliers := multipliers, pa_scale := scale, pa_eos := Some eos,
         pa_prime_sizes := prime_sizes, pa_offsets := offsets,
         pa_sequential_view := is_true sequential_view \<or> is_true sequential,
         pa_start_slot := start_slot\<rparr>)))))))))))))"

text \<open>\<open>str(resolve_path(cfg["path"]))\<close>.\<close>

definition path_arg :: "manifest \<Rightarrow> json \<Rightarrow> string res" where
  "path_arg b cfg =
     rbind (json_item cfg ''path'') (\<lambda>p. rbind (resolve_path b (Some p)) (\<lambda>r.
       Inr (case r of None \<Rightarrow> ''None'' | Some s \<Rightarrow> s)))"

definition bundle_store :: "artifacts \<Rightarrow> manifest \<Rightarrow> json \<Rightarrow> store_obj res" where
  "bundle_store A b mem =
     rbind (json_item mem ''store'') (\<lambda>cfg. rbind (path_arg b cfg) (\<lambda>path.
     rbind (rbind (json_item cfg ''shards'') py_int) (\<lambda>shards.
     rbind (rbind (json_item cfg ''rows_per_shard'') py_int) (\<lambda>rows_per_shard.
     rbind (rbind (json_item cfg ''width'') py_int) (\<lambda>width. af_store A path shards rows_per_shard width)))))"

definition bundle_slot_index :: "artifacts \<Rightarrow> manifest \<Rightarrow> json \<Rightarrow> slot_index_obj option res" where
  "bundle_slot_index A b mem =
     rbind (json_get mem ''slot_index'') (\<lambda>cfg.
       if \<not> is_true cfg then Inr None
       else rbind (rbind (json_item (the cfg) ''path'') (\<lambda>p. resolve_path b (Some p))) (\<lambda>slot_path.
         rbind (rbind (get_or (the cfg) ''type'' (JStr ''disk'')) py_str) (\<lambda>slot_type.
           let path = (case slot_path of None \<Rightarrow> ''None'' | Some s \<Rightarrow> s)
           in rmap Some (if slot_type = ''memory'' \<or> slot_path \<noteq> None \<and> ends_with ''.npz'' path
                then af_slot_index A path else af_disk_slot_index A path))))"

definition open_memory :: "artifacts \<Rightarrow> manifest \<Rightarrow> memory res" where
  "open_memory A b =
     rbind (validate b) (\<lambda>errors.
       if errors \<noteq> [] then Inl ValueError
       else rbind (bundle_memory b) (\<lambda>mem. rbind (bundle_ple b) (\<lambda>ple.
         rbind (bundle_args mem ple) (\<lambda>args. rbind (json_get mem ''type'') (\<lambda>mtype.
           if mtype = Some (JStr ''store'')
           then rbind (bundle_store A b mem) (\<lambda>store. ple_memory_init (args\<lparr>pa_store := Some store\<rparr>))
           else rbind (rbind (json_item mem ''view'') (\<lambda>cfg. rbind (path_arg b cfg) (af_view A))) (\<lambda>view.
             rbind (bundle_slot_index A b mem) (\<lambda>slot_index.
               ple_memory_init (args\<lparr>pa_view := Some view, pa_slot_index := slot_index\<rparr>))))))))"

section \<open>Resolving twice\<close>

lemma dict_set_same: "dict_get d k = Some v \<Longrightarrow> dict_set k v d = d"
  by (induction d) (auto simp: dict_get_def dict_set_def)

lemma json_wf_set: "json_wf (JObj ps) \<Longrightarrow> json_wf v \<Longrightarrow> json_wf (JObj (dict_set k v ps))"
  using dict_wf_set [of ps k v] set_dict_set_subset [of k v ps] by (auto simp: dict_wf_def list_all_iff)

lemma json_wf_get: "json_wf v \<Longrightarrow> json_get v k = Inr (Some x) \<Longrightarrow> json_wf x"
  by (cases v) (auto simp: json_get_def list_all_iff dest!: dict_get_in)

lemma json_set_Inr:
  "json_set obj k v = Inr obj' \<longleftrightarrow> (\<exists>ps. obj = JObj ps \<and> obj' = JObj (dict_set k v ps))"
  by (auto simp: json_set_def split: json.splits)

definition base_ok :: "manifest \<Rightarrow> bool" where
  "base_ok b \<longleftrightarrow> (\<forall>base. bm_base_dir b = Some base \<longrightarrow> is_absolute base)"

lemma resolve_path_again:
  assumes "base_ok b" "resolve_path b p = Inr (Some s)"
  shows "resolve_path b (Some (JStr s)) = Inr (Some s)"
  using assms is_absolute_div
  by (auto simp: resolve_path_def base_ok_def is_none_def as_name_def py_path_div
      split: if_splits json.splits option.splits)

lemma resolve_entry_again:
  assumes "base_ok b" "resolve_entry b obj = Inr obj'"
  shows "resolve_entry b obj' = Inr obj'" "json_wf obj \<Longrightarrow> json_wf obj'" "k \<noteq> ''path'' \<Longrightarrow> json_get obj' k = json_get obj k"
proof -
  obtain ps where ps: "obj = JObj ps" using assms(2) by (cases obj) (auto simp: resolve_entry_def json_get_def)
  obtain r where r: "resolve_path b (dict_get ps ''path'') = Inr r" "(case r of None \<Rightarrow> Inr obj | Some s \<Rightarrow> json_set obj ''path'' (JStr s)) = Inr obj'"
    using assms(2) ps by (auto simp: resolve_entry_def res_iff)
  show "resolve_entry b obj' = Inr obj'"
  proof (cases r)
    case None
    then show ?thesis using assms(2) r by simp
  next
    case (Some s)
    then have "resolve_path b (Some (JStr s)) = Inr (Some s)" using resolve_path_again [OF assms(1)] r(1) by simp
    then show ?thesis using r(2) Some ps by (auto simp: resolve_entry_def json_set_def dict_set_same)
  qed
  show "json_wf obj'" if "json_wf obj"
    using r(2) ps that json_wf_set [of ps "JStr _" "''path''"] by (cases r) (auto simp: json_set_def)
  show "json_get obj' k = json_get obj k" if "k \<noteq> ''path''"
    using r(2) ps that by (cases r) (auto simp: json_set_def)
qed

lemma resolve_key_again:
  assumes "base_ok b" "resolve_key b k mem = Inr mem'"
  shows "resolve_key b k mem' = Inr mem'" "json_wf mem \<Longrightarrow> json_wf mem'"
    "k' \<noteq> k \<Longrightarrow> json_get mem' k' = json_get mem k'" "k' \<noteq> k \<Longrightarrow> json_item mem' k' = json_item mem k'"
    "json_in k' mem' = json_in k' mem" "\<exists>ps. mem = JObj ps"
proof -
  obtain ps where ps: "mem = JObj ps" using assms(2) by (cases mem) (auto simp: resolve_key_def json_item_def)
  obtain e e' where e: "dict_get ps k = Some e" "resolve_entry b e = Inr e'" "mem' = JObj (dict_set k e' ps)"
    using assms(2) ps by (auto simp: resolve_key_def json_item_obj json_set_def res_iff split: option.splits)
  note again = resolve_entry_again [OF assms(1) e(2)]
  show "resolve_key b k mem' = Inr mem'"
    using again(1) by (simp add: resolve_key_def json_item_obj e(3) json_set_def dict_set_same)
  show "json_wf mem'" if "json_wf mem"
    using that ps e again(2) json_wf_set [of ps e' k] json_wf_get [of mem k e] by simp
  show "json_get mem' k' = json_get mem k'" "json_item mem' k' = json_item mem k'" if "k' \<noteq> k"
    using that ps e(3) by (simp_all add: json_item_obj)
  show "json_in k' mem' = json_in k' mem" using ps e by auto
  show "\<exists>ps. mem = JObj ps" using ps by simp
qed

lemma resolve_memory_again:
  assumes "base_ok b" "resolve_memory b mem = Inr mem'"
  shows "resolve_memory b mem' = Inr mem'" "json_wf mem \<Longrightarrow> json_wf mem'"
proof -
  obtain t hs hv where t: "json_get mem ''type'' = Inr t" "json_in ''store'' mem = Inr hs" "json_in ''view'' mem = Inr hv"
    using assms(2) by (auto simp: resolve_memory_def res_iff)
  have goal: "resolve_memory b mem' = Inr mem' \<and> (json_wf mem \<longrightarrow> json_wf mem')"
  proof (cases "t = Some (JStr ''store'') \<and> hs")
    case True
    then have k: "resolve_key b ''store'' mem = Inr mem'" using assms(2) t by (simp add: resolve_memory_def)
    note again = resolve_key_again [OF assms(1) k]
    show ?thesis using again(1,2) again(3) [of "''type''"] again(5) True t by (simp add: resolve_memory_def)
  next
    case store: False
    show ?thesis
    proof (cases "t = Some (JStr ''view'') \<and> hv")
      case False
      then show ?thesis using assms(2) t store by (auto simp: resolve_memory_def)
    next
      case True
      then obtain m slot where k: "resolve_key b ''view'' mem = Inr m" "json_get m ''slot_index'' = Inr slot"
          "(if is_none slot then Inr m else resolve_key b ''slot_index'' m) = Inr mem'"
        using assms(2) t store by (auto simp: resolve_memory_def res_iff)
      note a1 = resolve_key_again [OF assms(1) k(1)]
      show ?thesis
      proof (cases "is_none slot")
        case none: True
        then have "mem' = m" using k(3) by simp
        then show ?thesis
          using a1(1,2) a1(3) [of "''type''"] a1(5) True t k(2) none by (simp add: resolve_memory_def)
      next
        case False
        then have k2: "resolve_key b ''slot_index'' m = Inr mem'" using k(3) by simp
        note a2 = resolve_key_again [OF assms(1) k2]
        obtain e where e: "json_item m ''view'' = Inr e" using k(1) a1(1) by (auto simp: resolve_key_def res_iff)
        obtain ps ps' where ps: "m = JObj ps" "mem' = JObj ps'" using k2 a2(1,6) resolve_key_again(6) [OF assms(1) a2(1)] by auto
        have "resolve_entry b e = Inr e"
        proof -
          from a1(1) e obtain e' where e': "resolve_entry b e = Inr e'" "dict_set ''view'' e' ps = ps"
            by (auto simp: resolve_key_def ps res_iff json_set_def)
          then have "dict_get ps ''view'' = Some e'" using dict_get_set [of "''view''" e' ps "''view''"] by metis
          then show ?thesis using e e'(1) by (simp add: ps json_item_obj)
        qed
        moreover have "json_item mem' ''view'' = Inr e" using a2(4) [of "''view''"] e by simp
        ultimately have v: "resolve_key b ''view'' mem' = Inr mem'"
          by (auto simp: resolve_key_def ps json_set_def json_item_obj dict_set_same split: option.splits)
        have "\<exists>slot'. json_get mem' ''slot_index'' = Inr slot'" by (simp add: ps)
        then obtain slot' where slot': "json_get mem' ''slot_index'' = Inr slot'" by blast
        show ?thesis
          using v a2(1,2) a1(2) a1(3) [of "''type''"] a2(3) [of "''type''"] a1(5) a2(5) True t slot'
          by (cases "is_none slot'") (simp_all add: resolve_memory_def)
      qed
    qed
  qed
  show "resolve_memory b mem' = Inr mem'" "json_wf mem \<Longrightarrow> json_wf mem'" using goal by simp_all
qed

lemma resolve_readers_again:
  assumes "base_ok b" "resolve_readers b rs = Inr rs'"
  shows "resolve_readers b rs' = Inr rs' \<and> (json_wf rs \<longrightarrow> json_wf rs')"
proof (cases rs)
  case (JList xs)
  then obtain ys where ys: "rmapM (resolve_entry b) xs = Inr ys" "rs' = JList ys"
    using assms(2) by (auto simp: resolve_readers_def res_iff)
  have each: "list_all2 (\<lambda>x y. resolve_entry b x = Inr y) xs ys" using ys(1) by (simp add: rmapM_Inr_iff)
  then have "list_all2 (\<lambda>x y. resolve_entry b x = Inr y) ys ys"
    using resolve_entry_again(1) [OF assms(1)] by (auto simp: list_all2_conv_all_nth)
  then have "rmapM (resolve_entry b) ys = Inr ys" by (simp add: rmapM_Inr_iff)
  moreover have "json_wf rs'" if "json_wf rs"
    using each that resolve_entry_again(2) [OF assms(1)] JList ys(2)
    by (auto simp: list_all2_conv_all_nth list_all_length)
  ultimately show ?thesis using ys(2) by (simp add: resolve_readers_def)
qed (use assms in \<open>auto simp: resolve_readers_def res_iff split: if_splits\<close>)

section \<open>Native artifacts\<close>

text \<open>The constructors of the package over a file system: the store is the native one.\<close>

definition native_store_obj :: "native_store \<Rightarrow> store_obj" where
  "native_store_obj s = \<lparr>so_fetch = store_fetch s, so_width = Some (int (ns_width s))\<rparr>"

definition native_open :: "file_system \<Rightarrow> string \<Rightarrow> int \<Rightarrow> int \<Rightarrow> int \<Rightarrow> store_obj res" where
  "native_open fs path shards rows_per_shard width = rmap native_store_obj (open_native fs path shards rows_per_shard width)"

lemma open_memory_store:
  assumes "open_memory A b = Inr mem" "bundle_memory b = Inr cfg" "json_get cfg ''type'' = Inr (Some (JStr ''store''))"
  obtains st ple args where "bundle_store A b cfg = Inr st" "bundle_ple b = Inr ple" "bundle_args cfg ple = Inr args"
    "ple_memory_init (args\<lparr>pa_store := Some st\<rparr>) = Inr mem"
  using assms by (auto simp: open_memory_def res_iff split: if_splits)

lemma open_memory_ok: "open_memory A b = Inr mem \<Longrightarrow> memory_ok mem"
  by (auto simp: open_memory_def res_iff split: if_splits intro: ple_memory_init_ok)

section \<open>The parameters of the manifest\<close>

text \<open>
  What it means that a memory addresses tokens with the parameters of the \<open>ple\<close> section: key by key, with the default of
  an absent key, an absent list being that of the checkpoint or the one computed from the other parameters.
\<close>

definition ple_section_params :: "json \<Rightarrow> memory \<Rightarrow> bool" where
  "ple_section_params ple mem \<longleftrightarrow>
     (\<exists>n h k multipliers sizes offsets.
        cfg_int ple ''ngram_size'' 3 = Inr n \<and> pm_ngram_size mem = int_or (Some n) 3
      \<and> cfg_int ple ''heads_per_ngram'' 8 = Inr h \<and> pm_heads_per_ngram mem = int_or (Some h) 8
      \<and> cfg_int ple ''num_heads'' ((n - 1) * h) = Inr k \<and> pm_num_heads mem = int_or (Some k) 16
      \<and> bundle_head_dim ple k = Inr (pm_head_dim mem)
      \<and> rbind (get_or ple ''scale'' (JInt 1)) py_float = Inr (pm_scale mem)
      \<and> cfg_int ple ''eos'' 248044 = Inr (pm_eos mem)
      \<and> cfg_ints ple ''multipliers'' = Inr multipliers
      \<and> pm_multipliers mem = (case multipliers of None \<Rightarrow> DEFAULT_MULTIPLIERS | Some m \<Rightarrow> m)
      \<and> cfg_ints ple ''prime_sizes'' = Inr sizes \<and> pm_prime_sizes mem = prime_sizes_or sizes (pm_num_heads mem)
      \<and> cfg_ints ple ''offsets'' = Inr offsets \<and> pm_offsets mem = offsets_or offsets (pm_prime_sizes mem))"

lemma ple_memory_init_fields:
  assumes "ple_memory_init a = Inr mem"
  shows "pm_eos mem = (case pa_eos a of None \<Rightarrow> PLE_EOS | Some e \<Rightarrow> e)"
    "pm_multipliers mem = (case pa_multipliers a of None \<Rightarrow> DEFAULT_MULTIPLIERS | Some m \<Rightarrow> m)"
    "pm_scale mem = pa_scale a"
  using assms unfolding ple_memory_init_def Let_def rbind_Inr_iff guard_or_iff
  by (elim exE conjE, simp only: sum.inject, hypsubst, simp)+

lemma bundle_args_params:
  assumes "bundle_args cfg ple = Inr args" "ple_memory_init (args\<lparr>pa_store := st\<rparr>) = Inr mem"
  shows "ple_section_params ple mem"
proof -
  obtain n h k d scale eos multipliers sizes offsets where p:
      "cfg_int ple ''ngram_size'' 3 = Inr n" "cfg_int ple ''heads_per_ngram'' 8 = Inr h"
      "cfg_int ple ''num_heads'' ((n - 1) * h) = Inr k" "bundle_head_dim ple k = Inr d"
      "rbind (get_or ple ''scale'' (JInt 1)) py_float = Inr scale" "cfg_int ple ''eos'' 248044 = Inr eos"
      "cfg_ints ple ''multipliers'' = Inr multipliers" "cfg_ints ple ''prime_sizes'' = Inr sizes"
      "cfg_ints ple ''offsets'' = Inr offsets"
    and args: "pa_ngram_size args = Some n" "pa_heads_per_ngram args = Some h" "pa_num_heads args = Some k"
      "pa_head_dim args = Some d" "pa_scale args = scale" "pa_eos args = Some eos" "pa_multipliers args = multipliers"
      "pa_prime_sizes args = sizes" "pa_offsets args = offsets"
    using assms(1) by (auto simp: bundle_args_def res_iff)
  show ?thesis
    unfolding ple_section_params_def
    using p args ple_memory_init_Inr [OF assms(2)] ple_memory_init_fields [OF assms(2)]
    by - (rule exI [of _ n], rule exI [of _ h], rule exI [of _ k], rule exI [of _ multipliers], rule exI [of _ sizes],
        rule exI [of _ offsets], simp add: ple_consts)
qed

lemma bundle_store_shape:
  assumes "bundle_store A b cfg = Inr so" "af_store A = native_open fs"
  obtains c path shards rps w st where "json_item cfg ''store'' = Inr c" "path_arg b c = Inr path"
    "rbind (json_item c ''shards'') py_int = Inr shards" "rbind (json_item c ''rows_per_shard'') py_int = Inr rps"
    "rbind (json_item c ''width'') py_int = Inr w" "open_native fs path shards rps w = Inr st" "so = native_store_obj st"
  using assms by (auto simp: bundle_store_def native_open_def res_iff)

section \<open>Properties\<close>

text \<open>
  C14: a bundle that opens is well formed and is what the manifest says: \<open>validate\<close> finds no error, the memory
  satisfies the invariant of \<open>PleMemory\<close> and has the parameters of the \<open>ple\<close> section key by key, with which it addresses
  tokens; a bundle of type \<open>store\<close> gives a store-backed memory over the shard files at the resolved path, with the shard
  count, the rows per shard and the width of the \<open>store\<close> section, and a fetch from it returns, row by row, the bytes of
  that store.
\<close>

theorem bundle_store_rows:
  assumes "open_memory A b = Inr mem" "af_store A = native_open fs"
    and "bundle_memory b = Inr cfg" "json_get cfg ''type'' = Inr (Some (JStr ''store''))"
  shows "validate b = Inr [] \<and> memory_ok mem \<and> memory_source mem = ''store''
    \<and> (\<exists>ple. bundle_ple b = Inr ple \<and> ple_section_params ple mem)
    \<and> (\<exists>c path shards rps w st. json_item cfg ''store'' = Inr c \<and> path_arg b c = Inr path
        \<and> rbind (json_item c ''shards'') py_int = Inr shards \<and> rbind (json_item c ''rows_per_shard'') py_int = Inr rps
        \<and> rbind (json_item c ''width'') py_int = Inr w \<and> open_native fs path shards rps w = Inr st
        \<and> pm_store mem = Some (native_store_obj st)
        \<and> (\<forall>rows. int (ns_width st) = pm_head_dim mem
              \<and> list_all (\<lambda>r. int (length r) = pm_num_heads mem \<and> list_all (store_valid st) r) rows
            \<longrightarrow> fetch_raw mem rows = Inr (concat (map (\<lambda>r. concat (map (store_row st) r)) rows))))"
proof -
  obtain so ple args where so: "bundle_store A b cfg = Inr so" "ple_memory_init (args\<lparr>pa_store := Some so\<rparr>) = Inr mem"
    and ple: "bundle_ple b = Inr ple" "bundle_args cfg ple = Inr args"
    using open_memory_store [OF assms(1,3,4)] by blast
  obtain c path shards rps w st where st: "json_item cfg ''store'' = Inr c" "path_arg b c = Inr path"
    "rbind (json_item c ''shards'') py_int = Inr shards" "rbind (json_item c ''rows_per_shard'') py_int = Inr rps"
    "rbind (json_item c ''width'') py_int = Inr w" "open_native fs path shards rps w = Inr st" "so = native_store_obj st"
    by (rule bundle_store_shape [OF so(1) assms(2)])
  note ok = ple_memory_init_ok [OF so(2)] and f = ple_memory_init_Inr [OF so(2)]
  have store: "pm_store mem = Some (native_store_obj st)" using f st(7) by simp
  have "fetch_raw mem rows = Inr (concat (map (\<lambda>r. concat (map (store_row st) r)) rows))"
    if "int (ns_width st) = pm_head_dim mem"
      "list_all (\<lambda>r. int (length r) = pm_num_heads mem \<and> list_all (store_valid st) r) rows" for rows
    using native.fetch_raw_store [OF ok store, of st rows] that by (simp add: native_store_obj_def list_all_iff)
  moreover have "validate b = Inr []" using assms(1) by (auto simp: open_memory_def res_iff split: if_splits)
  moreover have "memory_source mem = ''store''" using ok store by (simp add: memory_source_def memory_ok_def)
  ultimately show ?thesis using ok store st(1-6) ple(1) bundle_args_params [OF ple(2) so(2)] by blast
qed

definition demo_bundle :: "string \<Rightarrow> manifest" where
  "demo_bundle base =
     \<lparr>bm_data = JObj [(''schema'', JStr BUNDLE_SCHEMA),
        (''memory'', JObj [(''type'', JStr ''store''),
          (''store'', JObj [(''path'', JStr ''t''), (''shards'', JInt 2), (''rows_per_shard'', JInt 2), (''width'', JInt 2)])]),
        (''ple'', JObj [(''ple_embed_dim'', JInt 4), (''ngram_size'', JInt 2), (''heads_per_ngram'', JInt 2),
          (''prime_sizes'', JList [JInt 2, JInt 3])]),
        (''readers'', JList [JObj [(''name'', JStr ''r''), (''path'', JStr ''./c'')]])],
      bm_base_dir = Some base, bm_path = None\<rparr>"

definition demo_artifacts :: artifacts where
  "demo_artifacts = \<lparr>af_store = native_open demo_fs, af_view = (\<lambda>p. Inl OSError),
     af_slot_index = (\<lambda>p. Inl OSError), af_disk_slot_index = (\<lambda>p. Inl OSError)\<rparr>"

definition demo_opened :: memory where
  "demo_opened = projr (open_memory demo_artifacts (demo_bundle ''db''))"

lemma demo_opens_bundle: "open_memory demo_artifacts (demo_bundle ''db'') = Inr demo_opened"
proof -
  have "\<not> isl (open_memory demo_artifacts (demo_bundle ''db''))" by code_simp
  then show ?thesis by (simp add: demo_opened_def)
qed

theorem bundle_store_rows_witness:
  "validate (demo_bundle ''db'') = Inr [] \<and> memory_ok demo_opened \<and> memory_source demo_opened = ''store''
    \<and> (\<exists>ple. bundle_ple (demo_bundle ''db'') = Inr ple \<and> ple_section_params ple demo_opened)
    \<and> (\<exists>st. open_native demo_fs ''db/t'' 2 2 2 = Inr st \<and> pm_store demo_opened = Some (native_store_obj st))"
proof -
  let ?c = "JObj [(''path'', JStr ''t''), (''shards'', JInt 2), (''rows_per_shard'', JInt 2), (''width'', JInt 2)]"
  let ?b = "demo_bundle ''db''"
  have b: "bundle_memory ?b = Inr (JObj [(''type'', JStr ''store''), (''store'', ?c)])" by code_simp
  have "path_arg ?b ?c = Inr ''db/t''" "rbind (json_item ?c ''shards'') py_int = Inr 2"
      "rbind (json_item ?c ''rows_per_shard'') py_int = Inr 2" "rbind (json_item ?c ''width'') py_int = Inr 2"
    by code_simp+
  then show ?thesis
    using bundle_store_rows [OF demo_opens_bundle _ b, of demo_fs]
    by (force simp: demo_artifacts_def dict_get_def json_item_obj)
qed

text \<open>
  Resolving is idempotent when the manifest was loaded from an absolute directory (or has none): resolving the
  paths of an already resolved manifest changes nothing, whatever fields it has.
\<close>

theorem resolved_idempotent:
  assumes "base_ok b" "json_wf (bm_data b)" "resolved b = Inr out"
  shows "resolved (b\<lparr>bm_data := out\<rparr>) = Inr out"
proof -
  have cong: "resolve_path (b\<lparr>bm_data := d\<rparr>) = resolve_path b" for d by (simp add: fun_eq_iff resolve_path_def)
  have ent: "resolve_entry (b\<lparr>bm_data := d\<rparr>) = resolve_entry b" for d by (simp add: fun_eq_iff resolve_entry_def cong)
  have key: "resolve_key (b\<lparr>bm_data := d\<rparr>) = resolve_key b" for d by (simp add: fun_eq_iff resolve_key_def ent)
  have mem: "resolve_memory (b\<lparr>bm_data := d\<rparr>) = resolve_memory b" for d
    by (rule ext) (simp add: resolve_memory_def key cong: if_cong)
  have rds: "resolve_readers (b\<lparr>bm_data := d\<rparr>) = resolve_readers b" for d
    by (rule ext) (simp add: resolve_readers_def ent split: json.split)
  obtain m where "json_get (bm_data b) ''memory'' = Inr m"
    using assms(3) unfolding resolved_def loads_dumps [OF assms(2)] by (auto simp: res_iff)
  then obtain ps where ps: "bm_data b = JObj ps" by (cases "bm_data b") (auto simp: json_get_def)
  define step where "step k f d = (case dict_get d k of None \<Rightarrow> Inr d
    | Some v \<Rightarrow> rmap (\<lambda>v'. dict_set k v' d) (f v))" for k :: string and f :: "json \<Rightarrow> json res" and d
  have run: "resolved (b\<lparr>bm_data := JObj d\<rparr>) = rbind (step ''memory'' (resolve_memory b) d)
      (\<lambda>d1. rmap JObj (step ''readers'' (resolve_readers b) d1))"
    if "json_wf (JObj d)" for d
    unfolding resolved_def step_def mem rds using loads_dumps [OF that]
    by (auto simp: json_set_def rbind_def rmap_def split: option.splits sum.splits)
  have same: "b\<lparr>bm_data := JObj ps\<rparr> = b" unfolding ps [symmetric] by simp
  have wf: "json_wf (JObj ps)" using assms(2) by (simp only: ps)
  obtain d1 d2 where d: "step ''memory'' (resolve_memory b) ps = Inr d1"
      "step ''readers'' (resolve_readers b) d1 = Inr d2" "out = JObj d2"
    using trans [OF run [OF wf, unfolded same, symmetric] assms(3)] by (auto simp: rbind_Inr_iff rmap_Inr_iff)
  have stepped: "json_wf (JObj d') \<and> step k f d' = Inr d'"
    if st: "step k f d = Inr d'" and wd: "json_wf (JObj d)" and ag: "\<And>v v'. f v = Inr v' \<Longrightarrow> f v' = Inr v' \<and> (json_wf v \<longrightarrow> json_wf v')" for k f d d'
  proof (cases "dict_get d k")
    case None
    then show ?thesis using st wd by (simp add: step_def)
  next
    case (Some v)
    then obtain v' where v: "f v = Inr v'" "d' = dict_set k v' d" using st by (auto simp: step_def res_iff)
    have "json_wf v" using json_wf_get [OF wd, of k v] Some by simp
    then have "json_wf (JObj d')" using json_wf_set [OF wd] ag [OF v(1)] v(2) by blast
    moreover have "step k f d' = Inr d'" using ag [OF v(1)] v(2) by (simp add: step_def dict_set_same)
    ultimately show ?thesis by blast
  qed
  have s1: "json_wf (JObj d1)" "step ''memory'' (resolve_memory b) d1 = Inr d1"
    using stepped [OF d(1) wf] resolve_memory_again [OF assms(1)] by blast+
  have s2: "json_wf (JObj d2)" "step ''readers'' (resolve_readers b) d2 = Inr d2"
    using stepped [OF d(2) s1(1)] resolve_readers_again [OF assms(1)] by blast+
  have get: "dict_get d2 ''memory'' = dict_get d1 ''memory''"
    using d(2) by (auto simp: step_def res_iff split: option.splits)
  have "step ''memory'' (resolve_memory b) d2 = Inr d2"
  proof (cases "dict_get d1 ''memory''")
    case None
    then show ?thesis using get by (simp add: step_def)
  next
    case (Some v)
    then obtain v' where v: "resolve_memory b v = Inr v'" "dict_set ''memory'' v' d1 = d1"
      using s1(2) by (auto simp: step_def res_iff)
    have "dict_get d1 ''memory'' = Some v'" using dict_get_set [of "''memory''" v' d1 "''memory''"] unfolding v(2) by simp
    then have "v' = v" using Some by simp
    then show ?thesis using v(1) get Some by (simp add: step_def dict_set_same)
  qed
  then show ?thesis by (simp only: d(3) run [OF s2(1)] s2(2) rbind_simps rmap_simps)
qed

theorem resolved_idempotent_witness:
  "let out = projr (resolved (demo_bundle ''/db'')) in resolved ((demo_bundle ''/db'')\<lparr>bm_data := out\<rparr>) = Inr out"
proof -
  have "\<not> isl (resolved (demo_bundle ''/db''))" by code_simp
  moreover have "base_ok (demo_bundle ''/db'')" by (simp add: base_ok_def demo_bundle_def is_absolute_def path_root_def)
  moreover have "json_wf (bm_data (demo_bundle ''/db''))" by (simp add: demo_bundle_def)
  ultimately show ?thesis using resolved_idempotent [of "demo_bundle ''/db''" "projr (resolved (demo_bundle ''/db''))"]
    by (simp add: Let_def)
qed

end
