(* ===== verification/Registry.thy ===== *)
theory Registry
  imports Bundle
begin

text \<open>
  \<open>python/engramdb/target_reader.py\<close>: \<open>ReaderSpec\<close> and \<open>TargetReaderRegistry\<close>.  A factory is a value; what
  calling it with keyword arguments gives is an argument (\<open>call\<close>).  The decorator form of
  \<open>register\<close> is the same registration made later.
\<close>

section \<open>Reader specifications\<close>

record reader_spec =
  rs_name :: string
  rs_version :: string
  rs_type :: string
  rs_path :: "json option"
  rs_options :: "(string \<times> json) list"

definition str_or :: "json \<Rightarrow> string \<Rightarrow> string \<Rightarrow> string res" where
  "str_or d k x = rbind (get_or d k (JStr x)) py_str"

text \<open>\<open>dict(v)\<close>; sequences of pairs are outside the model.\<close>

definition py_dict :: "json \<Rightarrow> (string \<times> json) list res" where
  "py_dict v =
     (case v of
        JObj ps \<Rightarrow> Inr ps
      | JList xs \<Rightarrow> (if xs = [] then Inr [] else Inl NotImplementedError)
      | JStr s \<Rightarrow> (if s = [] then Inr [] else Inl ValueError)
      | _ \<Rightarrow> Inl TypeError)"

definition spec_path :: "json option \<Rightarrow> string option \<Rightarrow> json option res" where
  "spec_path path base_dir =
     (if is_none path then Inr None
      else case base_dir of
          None \<Rightarrow> Inr path
        | Some base \<Rightarrow> rbind (as_name (the path)) (\<lambda>p.
            Inr (Some (JStr (if is_absolute p then p else path_div base p)))))"

definition spec_from_dict :: "json \<Rightarrow> string option \<Rightarrow> reader_spec res" where
  "spec_from_dict data base_dir =
     rbind (json_get data ''path'') (\<lambda>p. rbind (spec_path p base_dir) (\<lambda>path.
     rbind (str_or data ''name'' []) (\<lambda>name. rbind (str_or data ''version'' ''1'') (\<lambda>version.
     rbind (str_or data ''type'' ''generic'') (\<lambda>type.
     rbind (rbind (get_or data ''options'' (JObj [])) py_dict) (\<lambda>options.
       Inr \<lparr>rs_name = name, rs_version = version, rs_type = type, rs_path = path, rs_options = options\<rparr>))))))"

section \<open>The registry\<close>

record 'f registry =
  rg_factories :: "(string \<times> string, 'f) dict"
  rg_latest :: "(string, string) dict"

definition registry_init :: "'f registry" where
  "registry_init = \<lparr>rg_factories = [], rg_latest = []\<rparr>"

definition register :: "string \<Rightarrow> 'f \<Rightarrow> string \<Rightarrow> bool \<Rightarrow> 'f registry \<Rightarrow> 'f registry res" where
  "register name factory version override rg =
     (if dict_get (rg_factories rg) (name, version) \<noteq> None \<and> \<not> override then Inl ValueError
      else Inr \<lparr>rg_factories = dict_set (name, version) factory (rg_factories rg),
                rg_latest = dict_set name version (rg_latest rg)\<rparr>)"

definition unregister :: "string \<Rightarrow> string option \<Rightarrow> 'f registry \<Rightarrow> 'f registry" where
  "unregister name version rg =
     (case version of
        None \<Rightarrow>
          \<lparr>rg_factories = fold dict_del (filter (\<lambda>k. fst k = name) (map fst (rg_factories rg))) (rg_factories rg),
           rg_latest = (if dict_get (rg_latest rg) name \<noteq> None then dict_del name (rg_latest rg) else rg_latest rg)\<rparr>
      | Some v \<Rightarrow>
          let factories = dict_del (name, v) (rg_factories rg)
          in if dict_get (rg_latest rg) name = Some v
             then let remaining = map snd (filter (\<lambda>k. fst k = name) (map fst factories))
                  in \<lparr>rg_factories = factories,
                      rg_latest = (if remaining \<noteq> [] then dict_set name (last remaining) (rg_latest rg)
                        else dict_del name (rg_latest rg))\<rparr>
             else rg\<lparr>rg_factories := factories\<rparr>)"

definition available :: "'f registry \<Rightarrow> (string \<times> string) list" where
  "available rg = sort_key fst (rg_latest rg)"

definition has_reader :: "string \<Rightarrow> string option \<Rightarrow> 'f registry \<Rightarrow> bool" where
  "has_reader name version rg =
     (case version of
        None \<Rightarrow> dict_get (rg_latest rg) name \<noteq> None
      | Some v \<Rightarrow> dict_get (rg_factories rg) (name, v) \<noteq> None)"

text \<open>\<open>merged.setdefault("path", str(path))\<close>.\<close>

definition set_default :: "string \<Rightarrow> json \<Rightarrow> (string \<times> json) list \<Rightarrow> (string \<times> json) list" where
  "set_default k v d = (if dict_get d k = None then dict_set k v d else d)"

definition create ::
  "('f \<Rightarrow> (string \<times> json) list \<Rightarrow> 'r res) \<Rightarrow> 'f registry \<Rightarrow> string \<Rightarrow> string option \<Rightarrow> json option
   \<Rightarrow> (string \<times> json) list option \<Rightarrow> (string \<times> json) list \<Rightarrow> 'r res" where
  "create call rg name version path options kwargs =
     (case (case version of Some v \<Rightarrow> Some v | None \<Rightarrow> dict_get (rg_latest rg) name) of
        None \<Rightarrow> Inl KeyError
      | Some v \<Rightarrow> (case dict_get (rg_factories rg) (name, v) of
          None \<Rightarrow> Inl KeyError
        | Some factory \<Rightarrow>
            let merged = dict_update (case options of None \<Rightarrow> [] | Some d \<Rightarrow> d) kwargs
            in rbind (case path of None \<Rightarrow> Inr merged
                | Some p \<Rightarrow> rmap (\<lambda>s. set_default ''path'' (JStr s) merged) (py_str p)) (call factory)))"

definition create_from_spec :: "('f \<Rightarrow> (string \<times> json) list \<Rightarrow> 'r res) \<Rightarrow> 'f registry \<Rightarrow> reader_spec \<Rightarrow> 'r res" where
  "create_from_spec call rg spec =
     create call rg (rs_name spec) (Some (rs_version spec)) (rs_path spec) (Some (rs_options spec)) []"

text \<open>A manifest is a \<open>BundleManifest\<close> or a plain value; only a dictionary has readers.\<close>

datatype manifest_arg = IsBundle manifest | IsValue json

definition manifest_readers :: "manifest_arg \<Rightarrow> (string option \<times> json) res" where
  "manifest_readers m =
     (case m of
        IsBundle b \<Rightarrow> rmap (\<lambda>r. (bm_base_dir b, r)) (bundle_readers b)
      | IsValue (JObj ps) \<Rightarrow> rmap (\<lambda>r. (None, r)) (get_default (JObj ps) ''readers'' (JList []))
      | IsValue v \<Rightarrow> Inr (None, JList []))"

definition create_from_manifest ::
  "('f \<Rightarrow> (string \<times> json) list \<Rightarrow> 'r res) \<Rightarrow> 'f registry \<Rightarrow> manifest_arg \<Rightarrow> int \<Rightarrow> 'r res" where
  "create_from_manifest call rg m index =
     rbind (manifest_readers m) (\<lambda>(base_dir, readers).
       if \<not> truthy readers then Inl LookupError
       else rbind (json_iter readers) (\<lambda>xs.
         if index < 0 \<or> int (length xs) \<le> index then Inl IndexError
         else rbind (case readers of JObj ps \<Rightarrow> Inl KeyError | _ \<Rightarrow> Inr (xs ! nat index)) (\<lambda>entry.
           rbind (spec_from_dict entry base_dir) (create_from_spec call rg))))"

definition load_all_from_manifest ::
  "('f \<Rightarrow> (string \<times> json) list \<Rightarrow> 'r res) \<Rightarrow> 'f registry \<Rightarrow> manifest_arg \<Rightarrow> 'r list res" where
  "load_all_from_manifest call rg m =
     rbind (manifest_readers m) (\<lambda>(base_dir, readers). rbind (json_iter readers)
       (rmapM (\<lambda>entry. rbind (spec_from_dict entry base_dir) (create_from_spec call rg))))"

section \<open>The registry is consistent\<close>

text \<open>The latest version of a name is registered, and a name with a registered version has a latest one.\<close>

definition registry_ok :: "'f registry \<Rightarrow> bool" where
  "registry_ok rg \<longleftrightarrow> dict_wf (rg_factories rg) \<and> dict_wf (rg_latest rg)
     \<and> (\<forall>name v. dict_get (rg_latest rg) name = Some v \<longrightarrow> dict_get (rg_factories rg) (name, v) \<noteq> None)
     \<and> (\<forall>k. dict_get (rg_factories rg) k \<noteq> None \<longrightarrow> dict_get (rg_latest rg) (fst k) \<noteq> None)"

lemma registry_okD:
  assumes "registry_ok rg"
  shows "dict_wf (rg_factories rg)" "dict_wf (rg_latest rg)"
    "dict_get (rg_latest rg) name = Some v \<Longrightarrow> dict_get (rg_factories rg) (name, v) \<noteq> None"
    "dict_get (rg_factories rg) (name, w) \<noteq> None \<Longrightarrow> dict_get (rg_latest rg) name \<noteq> None"
  using assms unfolding registry_ok_def by (blast, blast, blast, metis fst_conv)

lemma registry_okI:
  assumes "dict_wf fs" "dict_wf ls" "\<And>name v. dict_get ls name = Some v \<Longrightarrow> dict_get fs (name, v) \<noteq> None"
    and "\<And>name v. dict_get fs (name, v) \<noteq> None \<Longrightarrow> dict_get ls name \<noteq> None"
  shows "registry_ok \<lparr>rg_factories = fs, rg_latest = ls\<rparr>"
  using assms by (auto simp: registry_ok_def)

lemma registry_ok_init: "registry_ok registry_init"
  by (simp add: registry_ok_def registry_init_def)

lemma registry_ok_register: "registry_ok rg \<Longrightarrow> register name f v ov rg = Inr rg' \<Longrightarrow> registry_ok rg'"
proof -
  assume ok: "registry_ok rg" and r: "register name f v ov rg = Inr rg'"
  from r have rg': "rg' = \<lparr>rg_factories = dict_set (name, v) f (rg_factories rg), rg_latest = dict_set name v (rg_latest rg)\<rparr>"
    by (auto simp: register_def split: if_splits)
  show ?thesis
    unfolding rg' by (rule registry_okI) (use registry_okD [OF ok] in \<open>auto simp: dict_wf_set split: if_splits\<close>)
qed

lemma dict_get_fold_del: "dict_get (fold dict_del ks d) k = (if k \<in> set ks then None else dict_get d k)"
  by (induction ks arbitrary: d) auto

lemma dict_wf_fold_del: "dict_wf d \<Longrightarrow> dict_wf (fold dict_del ks d)"
  by (induction ks arbitrary: d) (auto intro: dict_wf_del)

lemma registry_ok_unregister:
  assumes "registry_ok rg"
  shows "registry_ok (unregister name version rg)"
proof (cases version)
  case None
  let ?keys = "filter (\<lambda>k. fst k = name) (map fst (rg_factories rg))"
  have get: "dict_get (fold dict_del ?keys (rg_factories rg)) (n, v) = (if n = name then None else dict_get (rg_factories rg) (n, v))" for n v
    using dict_get_None_iff [of "rg_factories rg" "(n, v)"] by (auto simp: dict_get_fold_del)
  have "unregister name version rg = \<lparr>rg_factories = fold dict_del ?keys (rg_factories rg),
      rg_latest = (if dict_get (rg_latest rg) name \<noteq> None then dict_del name (rg_latest rg) else rg_latest rg)\<rparr>"
    by (simp add: unregister_def None)
  also have "registry_ok \<dots>"
    by (rule registry_okI) (use registry_okD [OF assms] in \<open>auto simp: get dict_wf_fold_del dict_wf_del split: if_splits\<close>)
  finally show ?thesis .
next
  case (Some v)
  let ?fs = "dict_del (name, v) (rg_factories rg)"
  let ?rem = "map snd (filter (\<lambda>k. fst k = name) (map fst ?fs))"
  have rem: "w \<in> set ?rem \<longleftrightarrow> dict_get ?fs (name, w) \<noteq> None" for w
    using dict_get_None_iff [of ?fs "(name, w)"] by force
  have last: "dict_get ?fs (name, last ?rem) \<noteq> None" if "?rem \<noteq> []" using rem [of "last ?rem"] that last_in_set by blast
  have none: "dict_get ?fs (name, w) = None" if "?rem = []" for w using rem [of w] that by simp
  have wf: "dict_wf ?fs" using assms by (simp add: registry_ok_def dict_wf_del)
  note D = registry_okD [OF assms]
  show ?thesis
  proof (cases "dict_get (rg_latest rg) name = Some v")
    case False
    then have "unregister name version rg = \<lparr>rg_factories = ?fs, rg_latest = rg_latest rg\<rparr>"
      using Some by (simp add: unregister_def Let_def)
    also have "registry_ok \<dots>" by (rule registry_okI) (use D wf False in \<open>auto split: if_splits\<close>)
    finally show ?thesis .
  next
    case True
    show ?thesis
    proof (cases "?rem = []")
      case e: True
      have none': "dict_get (rg_factories rg) (name, w) = None" if "w \<noteq> v" for w
        using none [OF e, of w] that by simp
      have "unregister name version rg = \<lparr>rg_factories = ?fs, rg_latest = dict_del name (rg_latest rg)\<rparr>"
        using Some True e unfolding unregister_def Let_def by simp
      also have "registry_ok \<dots>"
        by (rule registry_okI) (use D wf none' in \<open>auto simp: dict_wf_del split: if_splits\<close>)
      finally show ?thesis .
    next
      case ne: False
      have "unregister name version rg = \<lparr>rg_factories = ?fs, rg_latest = dict_set name (last ?rem) (rg_latest rg)\<rparr>"
        using Some True ne unfolding unregister_def Let_def by simp
      also have "registry_ok \<dots>"
        by (rule registry_okI) (use D wf last [OF ne] in \<open>auto simp: dict_wf_set split: if_splits\<close>)
      finally show ?thesis .
    qed
  qed
qed

text \<open>The states a registry reaches; a registration that raises leaves it as it was.\<close>

inductive registry_reach :: "'f registry \<Rightarrow> bool" where
  init: "registry_reach registry_init"
| register: "registry_reach rg \<Longrightarrow> register name f v ov rg = Inr rg' \<Longrightarrow> registry_reach rg'"
| unregister: "registry_reach rg \<Longrightarrow> registry_reach (unregister name version rg)"

lemma registry_reach_ok: "registry_reach rg \<Longrightarrow> registry_ok rg"
  by (induction rule: registry_reach.induct) (auto intro: registry_ok_init registry_ok_register registry_ok_unregister)

section \<open>Properties\<close>

text \<open>
  In every state reached by registering and removing readers, a name without a version is known
  exactly when some version of it is registered, and creating a reader by name alone then never fails with the
  registry's \<open>KeyError\<close>: it calls a factory registered under that name with the merged options.
\<close>

theorem registry_latest_registered:
  assumes "registry_reach rg"
  shows "(has_reader name None rg \<longleftrightarrow> (\<exists>v. has_reader name (Some v) rg))
    \<and> (has_reader name None rg \<longrightarrow>
         (\<exists>v f. dict_get (rg_factories rg) (name, v) = Some f
            \<and> create call rg name None None options kwargs
              = call f (dict_update (case options of None \<Rightarrow> [] | Some d \<Rightarrow> d) kwargs)))"
proof -
  have ok: "registry_ok rg" by (rule registry_reach_ok [OF assms])
  have "\<exists>v f. dict_get (rg_latest rg) name = Some v \<and> dict_get (rg_factories rg) (name, v) = Some f"
    if "has_reader name None rg"
    using registry_okD(3) [OF ok] that by (auto simp: has_reader_def)
  moreover have "has_reader name None rg" if "has_reader name (Some v) rg" for v
    using registry_okD(4) [OF ok] that by (auto simp: has_reader_def)
  ultimately show ?thesis by (fastforce simp: create_def has_reader_def)
qed

definition demo_registry :: "nat registry" where
  "demo_registry = \<lparr>rg_factories = [((''r'', ''2''), 7)], rg_latest = [(''r'', ''2'')]\<rparr>"

lemma demo_registry_reach: "registry_reach demo_registry"
proof (rule registry_reach.register [OF registry_reach.init])
  show "register ''r'' 7 ''2'' False registry_init = Inr demo_registry"
    by (simp add: register_def registry_init_def demo_registry_def dict_set_def)
qed

theorem registry_latest_registered_witness:
  "\<exists>v f. dict_get (rg_factories demo_registry) (''r'', v) = Some f
     \<and> create (\<lambda>f kw. Inr (f, kw)) demo_registry ''r'' None None None [] = Inr (f, [])"
  using registry_latest_registered [OF demo_registry_reach, of "''r''" "\<lambda>f kw. Inr (f, kw)" None "[]"]
  by (simp add: has_reader_def demo_registry_def dict_get_def)

text \<open>
  A reader entry of a manifest that names no version asks for version 1, not for the latest: when
  only other versions are registered it raises \<open>KeyError\<close>, although creating the same reader by its name works.
\<close>

theorem manifest_ignores_latest:
  assumes "registry_reach rg" "has_reader name None rg" "\<not> has_reader name (Some ''1'') rg" "name \<noteq> []"
  shows "load_all_from_manifest call rg (IsValue (JObj [(''readers'', JList [JObj [(''name'', JStr name)]])])) = Inl KeyError
    \<and> (\<exists>f. create call rg name None None None [] = call f [])"
proof -
  have "\<exists>v f. dict_get (rg_latest rg) name = Some v \<and> dict_get (rg_factories rg) (name, v) = Some f"
    using assms(2) registry_okD(3) [OF registry_reach_ok [OF assms(1)]] by (auto simp: has_reader_def)
  moreover have "dict_get (rg_factories rg) (name, ''1'') = None" using assms(3) by (simp add: has_reader_def)
  ultimately show ?thesis
    using assms(4)
    by (auto simp: load_all_from_manifest_def manifest_readers_def get_default_def json_iter_def spec_from_dict_def
        spec_path_def is_none_def str_or_def get_or_def is_true_def truthy_def py_str_def py_dict_def
        create_from_spec_def create_def dict_get_def)
qed

theorem manifest_ignores_latest_witness:
  "load_all_from_manifest (\<lambda>f kw. Inr (f, kw)) demo_registry
      (IsValue (JObj [(''readers'', JList [JObj [(''name'', JStr ''r'')]])])) = Inl KeyError
    \<and> (\<exists>f. create (\<lambda>f kw. Inr (f, kw)) demo_registry ''r'' None None None [] = Inr (f, []))"
  by (rule manifest_ignores_latest [OF demo_registry_reach])
    (simp_all add: has_reader_def demo_registry_def dict_get_def)

end
