(* ===== verification/Discovery.thy ===== *)
theory Discovery
  imports PleMemory JsonValue PyPath
begin

text \<open>
  \<open>python/engramdb/ple_discovery.py\<close>: the metadata of a PLE table read from the \<open>config.json\<close>, the safetensors index and
  the safetensors headers of a model directory.  A file is its bytes under its path.  A float is
  exact: every BF16 and F16 number, and every F32 number, is a rational a double represents; the two zeros are one.
\<close>

section \<open>Small floats\<close>

datatype pyfloat = Fin rat | PosInf | NegInf | NaN

definition float_neg :: "pyfloat \<Rightarrow> pyfloat" where
  "float_neg v = (case v of Fin x \<Rightarrow> Fin (- x) | PosInf \<Rightarrow> NegInf | NegInf \<Rightarrow> PosInf | NaN \<Rightarrow> NaN)"

definition bf16_to_float :: "nat \<Rightarrow> pyfloat" where
  "bf16_to_float bits =
     (let sign = bits div 2 ^ 15 mod 2; exp = bits div 2 ^ 7 mod 2 ^ 8; mant = bits mod 2 ^ 7;
          v = (if exp = 0 then Fin (of_nat mant / 2 ^ 7 / 2 ^ 126)
               else if exp = 255 then (if mant = 0 then PosInf else NaN)
               else Fin ((1 + of_nat mant / 128) * 2 ^ exp / 2 ^ 127))
      in if sign \<noteq> 0 then float_neg v else v)"

definition f16_to_float :: "nat \<Rightarrow> pyfloat" where
  "f16_to_float bits =
     (let sign = bits div 2 ^ 15 mod 2; exp = bits div 2 ^ 10 mod 2 ^ 5; mant = bits mod 2 ^ 10;
          v = (if exp = 0 then Fin (of_nat mant / 2 ^ 10 / 2 ^ 14)
               else if exp = 31 then (if mant = 0 then PosInf else NaN)
               else Fin ((1 + of_nat mant / 1024) * 2 ^ exp / 2 ^ 15))
      in if sign \<noteq> 0 then float_neg v else v)"

text \<open>\<open>struct.unpack("<f")\<close>: the IEEE single-precision number.\<close>

definition f32_to_float :: "nat \<Rightarrow> pyfloat" where
  "f32_to_float bits =
     (let sign = bits div 2 ^ 31 mod 2; exp = bits div 2 ^ 23 mod 2 ^ 8; mant = bits mod 2 ^ 23;
          v = (if exp = 0 then Fin (of_nat mant / 2 ^ 23 / 2 ^ 126)
               else if exp = 255 then (if mant = 0 then PosInf else NaN)
               else Fin ((1 + of_nat mant / 2 ^ 23) * 2 ^ exp / 2 ^ 127))
      in if sign \<noteq> 0 then float_neg v else v)"

section \<open>Safetensors\<close>

type_synonym files = "string \<Rightarrow> bytes option"

definition open_file :: "files \<Rightarrow> string \<Rightarrow> bytes res" where
  "open_file fl p = (case fl p of None \<Rightarrow> Inl FileNotFoundError | Some bs \<Rightarrow> Inr bs)"

text \<open>\<open>f.seek(off)\<close> and \<open>f.read(n)\<close>.\<close>

definition read_at :: "bytes \<Rightarrow> int \<Rightarrow> int \<Rightarrow> bytes res" where
  "read_at f off n =
     (if n = -1 then Inr (drop (nat off) f)
      else if n < -1 then Inl ValueError
      else Inr (take (nat n) (drop (nat off) f)))"

text \<open>The length of the header and the header.\<close>

definition read_header :: "bytes \<Rightarrow> (nat \<times> json) res" where
  "read_header f =
     (if length f < 8 then Inl StructError
      else let n = from_le (take 8 f)
           in if 2 ^ 63 \<le> n then Inl OverflowError
              else rmap (\<lambda>h. (n, h)) (loads (utf8_decode (take n (drop 8 f)))))"

definition header_entry :: "json \<Rightarrow> string \<Rightarrow> json res" where
  "header_entry header name =
     rbind (json_get header name) (\<lambda>e. if e = None \<or> e = Some JNull then Inl KeyError else Inr (the e))"

text \<open>An offset is an integer (or a boolean); \<open>start, end = entry["data_offsets"]\<close>.\<close>

definition as_index :: "json \<Rightarrow> int res" where
  "as_index v = (case v of JInt i \<Rightarrow> Inr i | JBool b \<Rightarrow> Inr (if b then 1 else 0) | _ \<Rightarrow> Inl TypeError)"

definition data_offsets :: "json \<Rightarrow> (json \<times> json) res" where
  "data_offsets entry =
     rbind (json_item entry ''data_offsets'') (\<lambda>v. rbind (json_iter v) (\<lambda>xs.
       case xs of [s, t] \<Rightarrow> Inr (s, t) | _ \<Rightarrow> Inl ValueError))"

definition tensor_bytes :: "bytes \<Rightarrow> nat \<Rightarrow> json \<times> json \<Rightarrow> bytes res" where
  "tensor_bytes f header_len offsets =
     rbind (as_index (fst offsets)) (\<lambda>s. rbind (guard_or (0 \<le> 8 + int header_len + s) OSError) (\<lambda>_.
     rbind (as_index (snd offsets)) (\<lambda>t. read_at f (8 + int header_len + s) (t - s))))"

definition read_scalar :: "files \<Rightarrow> string \<Rightarrow> string \<Rightarrow> pyfloat res" where
  "read_scalar fl path name =
     rbind (open_file fl path) (\<lambda>f. rbind (read_header f) (\<lambda>(n, header). rbind (header_entry header name) (\<lambda>entry.
     rbind (data_offsets entry) (\<lambda>offsets. rbind (json_get entry ''dtype'') (\<lambda>dtype.
     rbind (tensor_bytes f n offsets) (\<lambda>raw.
       let dtype = (case dtype of None \<Rightarrow> JStr ''F32'' | Some d \<Rightarrow> d)
       in if dtype = JStr ''F32'' then
            (if length raw \<noteq> 4 then Inl ValueError else Inr (f32_to_float (from_le raw)))
          else if dtype = JStr ''BF16'' \<or> dtype = JStr ''F16'' then
            (if length raw \<noteq> 2 then Inl ValueError
             else Inr (if dtype = JStr ''BF16'' then bf16_to_float (from_le raw) else f16_to_float (from_le raw)))
          else Inl NotImplementedError))))))"

text \<open>The product of the dimensions.\<close>

definition shape_count :: "json \<Rightarrow> int res" where
  "shape_count shape = rbind (json_iter shape) (\<lambda>ds. rmap prod_list (rmapM py_int ds))"

definition unpack_ints :: "nat \<Rightarrow> int \<Rightarrow> bytes \<Rightarrow> int list res" where
  "unpack_ints w count raw =
     (if int (length raw) \<noteq> count * int w then Inl ValueError else Inr (map from_le_signed (chunks w raw)))"

definition read_i64 :: "files \<Rightarrow> string \<Rightarrow> string \<Rightarrow> int list res" where
  "read_i64 fl path name =
     rbind (open_file fl path) (\<lambda>f. rbind (read_header f) (\<lambda>(n, header). rbind (header_entry header name) (\<lambda>entry.
     rbind (json_get entry ''dtype'') (\<lambda>dtype. rbind (json_get entry ''shape'') (\<lambda>shape.
     rbind (shape_count (case shape of None \<Rightarrow> JList [] | Some v \<Rightarrow> v)) (\<lambda>count.
     rbind (data_offsets entry) (\<lambda>offsets. rbind (tensor_bytes f n offsets) (\<lambda>raw.
       let dtype = (case dtype of None \<Rightarrow> JStr ''I64'' | Some d \<Rightarrow> d)
       in if dtype = JStr ''I64'' then unpack_ints 8 count raw
          else if dtype = JStr ''I32'' then unpack_ints 4 count raw
          else Inl NotImplementedError))))))))"

section \<open>The index\<close>

definition weight_keys :: "json \<Rightarrow> string list res" where
  "weight_keys m =
     rbind (json_iter m) (rmapM (\<lambda>k. case k of JStr s \<Rightarrow> Inr s | _ \<Rightarrow> Inl AttributeError))"

definition find_tensor_key :: "string list \<Rightarrow> string list \<Rightarrow> string option" where
  "find_tensor_key keys suffixes = find (\<lambda>k. \<exists>s \<in> set suffixes. ends_with s k) keys"

definition load_json :: "files \<Rightarrow> string \<Rightarrow> json res" where
  "load_json fl p = rbind (open_file fl p) (\<lambda>bs. loads (utf8_decode bs))"

definition config_path :: "string \<Rightarrow> string" where
  "config_path dir = path_div dir ''config.json''"

definition index_path :: "string \<Rightarrow> string" where
  "index_path dir = path_div dir ''model.safetensors.index.json''"

definition scale_suffixes :: "string list" where
  "scale_suffixes = [''.ngram_embedding.weight_scale'', ''ngram_embedding.weight_scale'']"

text \<open>\<open>read(root / weight_map[key], key)\<close>.\<close>

definition read_tensor :: "(files \<Rightarrow> string \<Rightarrow> string \<Rightarrow> 'a res) \<Rightarrow> files \<Rightarrow> string \<Rightarrow> json \<Rightarrow> string \<Rightarrow> 'a res" where
  "read_tensor read fl dir weight_map key =
     rbind (json_item weight_map key) (\<lambda>f. rbind (as_name f) (\<lambda>f. read fl (path_div dir f) key))"

definition or_none :: "'a res \<Rightarrow> 'a option" where
  "or_none r = (case r of Inl e \<Rightarrow> None | Inr x \<Rightarrow> Some x)"

definition read_ple_metadata :: "files \<Rightarrow> string \<Rightarrow> json \<Rightarrow> (pyfloat option \<times> int list option) res" where
  "read_ple_metadata fl dir weight_map =
     rmap (\<lambda>keys.
       (Option.bind (find_tensor_key keys scale_suffixes) (\<lambda>k. or_none (read_tensor read_scalar fl dir weight_map k)),
        Option.bind (find_tensor_key keys [''.layer_multipliers'']) (\<lambda>k. or_none (read_tensor read_i64 fl dir weight_map k))))
       (weight_keys weight_map)"

text \<open>The two loaders: the tensor is named or found by its suffix.\<close>

definition load_tensor ::
  "(files \<Rightarrow> string \<Rightarrow> string \<Rightarrow> 'a res) \<Rightarrow> string list \<Rightarrow> files \<Rightarrow> string \<Rightarrow> string option \<Rightarrow> 'a res" where
  "load_tensor read suffixes fl dir tensor_name =
     (if fl (index_path dir) = None then Inl FileNotFoundError
      else rbind (load_json fl (index_path dir)) (\<lambda>index. rbind (json_item index ''weight_map'') (\<lambda>weight_map.
        rbind (case tensor_name of Some k \<Rightarrow> Inr (Some k)
            | None \<Rightarrow> rmap (\<lambda>keys. find_tensor_key keys suffixes) (weight_keys weight_map)) (\<lambda>key.
          case key of None \<Rightarrow> Inl KeyError | Some k \<Rightarrow> read_tensor read fl dir weight_map k))))"

definition load_ple_weight_scale :: "files \<Rightarrow> string \<Rightarrow> string option \<Rightarrow> pyfloat res" where
  "load_ple_weight_scale = load_tensor read_scalar scale_suffixes"

definition load_ple_multipliers :: "files \<Rightarrow> string \<Rightarrow> string option \<Rightarrow> int list res" where
  "load_ple_multipliers = load_tensor read_i64 [''.layer_multipliers'']"

section \<open>\<open>discover_ple\<close>\<close>

record ple_info =
  pi_architecture :: "json option"
  pi_model_type :: "json option"
  pi_text_model_type :: "json option"
  pi_ple_layer_ids :: "json option"
  pi_ple_embed_dim :: "json option"
  pi_ple_conv_kernel_size :: "json option"
  pi_ngram_size :: "json option"
  pi_ngram_vocab_size_base :: "json option"
  pi_split_ngram_parts :: "json option"
  pi_heads_per_ngram :: "json option"
  pi_divisible_by :: "json option"
  pi_key_count :: nat
  pi_shard_count :: nat
  pi_shard_pattern :: "string option"
  pi_weight_scale :: "pyfloat option"
  pi_layer_multipliers :: "int list option"
  pi_rowid_multipliers :: "int list option"
  pi_example_keys :: "string list"

definition text_config :: "json \<Rightarrow> json res" where
  "text_config config =
     rmap (\<lambda>t. case t of Some (JObj ps) \<Rightarrow> JObj ps | _ \<Rightarrow> config) (json_get config ''text_config'')"

definition lower_char :: "char \<Rightarrow> char" where
  "lower_char c = (let n = (of_char c :: nat) in if 65 \<le> n \<and> n \<le> 90 then char_of (n + 32) else c)"

definition SHARD :: string where
  "SHARD = ''ngram_embedding.shard_''"

text \<open>\<open>s.split(w, 1)\<close> for a \<open>w\<close> that occurs in \<open>s\<close>: what is before and after its first occurrence.\<close>

fun split_once :: "string \<Rightarrow> string \<Rightarrow> string \<times> string" where
  "split_once w [] = ([], [])"
| "split_once w (c # cs) =
     (if starts w (c # cs) then ([], drop (length w) (c # cs))
      else case split_once w cs of (a, b) \<Rightarrow> (c # a, b))"

definition ple_keys_of :: "string list \<Rightarrow> string list" where
  "ple_keys_of keys = filter (\<lambda>k. is_infix ''.ple.'' (map lower_char k)) keys"

definition shard_id :: "string \<Rightarrow> string" where
  "shard_id k = takeWhile (\<lambda>c. c \<noteq> CHR ''.'') (snd (split_once SHARD k))"

definition discover_ple :: "files \<Rightarrow> string \<Rightarrow> ple_info option res" where
  "discover_ple fl dir =
     (if fl (config_path dir) = None then Inl FileNotFoundError
      else if fl (index_path dir) = None then Inl FileNotFoundError
      else rbind (load_json fl (config_path dir)) (\<lambda>config. rbind (text_config config) (\<lambda>text_cfg.
        rbind (json_get text_cfg ''ple_layer_ids'') (\<lambda>layer_ids.
        rbind (rmapM (\<lambda>k. json_in k text_cfg) [''ple_embed_dim'', ''ngram_size'', ''split_ngram_parts'']) (\<lambda>present.
        rbind (if \<not> (layer_ids = None \<or> layer_ids = Some JNull) \<or> True \<in> set present
            then rbind (load_json fl (index_path dir)) (\<lambda>index. rmap Some (json_item index ''weight_map''))
            else Inr None) (\<lambda>weight_map.
        rbind (case weight_map of None \<Rightarrow> Inr [] | Some m \<Rightarrow> rmap ple_keys_of (weight_keys m)) (\<lambda>ple_keys.
          let shard_keys = filter (is_infix SHARD) ple_keys
          in if ple_keys = [] \<and> (layer_ids = None \<or> layer_ids = Some JNull) then Inr None
             else rbind (case weight_map of None \<Rightarrow> Inr (None, None) | Some m \<Rightarrow> read_ple_metadata fl dir m) (\<lambda>(weight_scale, multipliers).
             rbind (json_get config ''architectures'') (\<lambda>architecture. rbind (json_get config ''model_type'') (\<lambda>model_type.
             rbind (rmapM (json_get text_cfg) [''model_type'', ''ple_embed_dim'', ''ple_conv_kernel_size'', ''ngram_size'',
                 ''ngram_vocab_size_base'', ''split_ngram_parts'', ''heads_per_ngram'', ''make_ngram_vocab_size_divisible_by'']) (\<lambda>vs.
               Inr (Some \<lparr>pi_architecture = architecture, pi_model_type = model_type, pi_text_model_type = vs ! 0,
                 pi_ple_layer_ids = layer_ids, pi_ple_embed_dim = vs ! 1, pi_ple_conv_kernel_size = vs ! 2,
                 pi_ngram_size = vs ! 3, pi_ngram_vocab_size_base = vs ! 4, pi_split_ngram_parts = vs ! 5,
                 pi_heads_per_ngram = vs ! 6, pi_divisible_by = vs ! 7,
                 pi_key_count = length ple_keys, pi_shard_count = length (remdups (map shard_id shard_keys)),
                 pi_shard_pattern = (if shard_keys = [] then None
                   else Some (fst (split_once SHARD (hd shard_keys)) @ SHARD @ ''{shard}.weight'')),
                 pi_weight_scale = weight_scale, pi_layer_multipliers = multipliers, pi_rowid_multipliers = multipliers,
                 pi_example_keys = take 8 ple_keys\<rparr>))))))))))))"

section \<open>Reading what was written\<close>

text \<open>A safetensors file with a header and its data, and an integer tensor in it.\<close>

definition safetensors :: "json \<Rightarrow> bytes \<Rightarrow> bytes" where
  "safetensors header data =
     (let h = utf8_encode (dumps header) in le_bytes 8 (length h) @ h @ data)"

definition i64_bytes :: "int list \<Rightarrow> bytes" where
  "i64_bytes xs = concat (map (\<lambda>x. le_bytes 8 (nat (x mod 2 ^ 64))) xs)"

definition fits_i64 :: "int \<Rightarrow> bool" where
  "fits_i64 x \<longleftrightarrow> - (2 ^ 63) \<le> x \<and> x < 2 ^ 63"

text \<open>The header declares the tensor at \<open>s\<close> of the data, and the data has it there.\<close>

definition holds_i64 :: "bytes \<Rightarrow> string \<Rightarrow> int list \<Rightarrow> bool" where
  "holds_i64 f name xs \<longleftrightarrow>
     (\<exists>header data entry s. f = safetensors header data \<and> json_wf header
        \<and> length (dumps header) < 2 ^ 63 \<and> list_all fits_i64 xs
        \<and> json_get header name = Inr (Some (JObj entry))
        \<and> dict_get entry ''dtype'' = Some (JStr ''I64'')
        \<and> dict_get entry ''shape'' = Some (JList [JInt (int (length xs))])
        \<and> dict_get entry ''data_offsets'' = Some (JList [JInt (int s), JInt (int (s + 8 * length xs))])
        \<and> take (8 * length xs) (drop s data) = i64_bytes xs)"

lemma read_header_written:
  assumes "json_wf header" "length (dumps header) < 2 ^ 63"
  shows "read_header (safetensors header data) = Inr (length (dumps header), header)"
proof -
  have "from_le (le_bytes 8 (length (dumps header))) = length (dumps header)"
    by (rule from_le_le_bytes_id) (use assms(2) in simp)
  then show ?thesis using assms by (simp add: read_header_def safetensors_def Let_def loads_wire)
qed

lemma unpack_i64: "list_all fits_i64 xs \<Longrightarrow> unpack_ints 8 (int (length xs)) (i64_bytes xs) = Inr xs"
proof -
  assume fits: "list_all fits_i64 xs"
  let ?enc = "\<lambda>x :: int. le_bytes 8 (nat (x mod 2 ^ 64))"
  have "chunks 8 (concat (map ?enc xs)) = map ?enc xs" by (rule chunks_concat) auto
  moreover have "from_le_signed (?enc x) = x" if "fits_i64 x" for x
    using from_le_signed_round [of 8 x] that by (simp add: fits_i64_def)
  then have "map from_le_signed (map ?enc xs) = xs" using fits by (auto simp: list_all_iff intro: map_idI)
  moreover have "length (concat (map ?enc xs)) = length (map ?enc xs) * 8" by (rule length_concat_const) auto
  ultimately show ?thesis by (simp add: unpack_ints_def i64_bytes_def)
qed

lemma read_i64_written:
  assumes "fl p = Some f" "holds_i64 f name xs"
  shows "read_i64 fl p name = Inr xs"
proof -
  obtain header data entry s where f: "f = safetensors header data" "json_wf header"
      "length (dumps header) < 2 ^ 63" "list_all fits_i64 xs"
      "json_get header name = Inr (Some (JObj entry))"
      "dict_get entry ''dtype'' = Some (JStr ''I64'')"
      "dict_get entry ''shape'' = Some (JList [JInt (int (length xs))])"
      "dict_get entry ''data_offsets'' = Some (JList [JInt (int s), JInt (int (s + 8 * length xs))])"
      "take (8 * length xs) (drop s data) = i64_bytes xs"
    using assms(2) unfolding holds_i64_def by blast
  have shape: "shape_count (JList [JInt (int (length xs))]) = Inr (int (length xs))"
    by (simp add: shape_count_def json_iter_def py_int_def)
  have offs: "data_offsets (JObj entry) = Inr (JInt (int s), JInt (int (s + 8 * length xs)))"
    by (simp add: data_offsets_def json_item_obj json_iter_def f(8))
  have "drop (8 + length (dumps header) + s) f = drop s data"
    by (simp add: f(1) safetensors_def Let_def drop_append)
  then have bytes: "tensor_bytes f (length (dumps header)) (JInt (int s), JInt (int (s + 8 * length xs))) = Inr (i64_bytes xs)"
    using f(9) by (simp add: tensor_bytes_def as_index_def read_at_def nat_add_distrib nat_mult_distrib)
  show ?thesis
    using read_header_written [OF f(2,3), of data] f(1,5,6,7) shape offs bytes unpack_i64 [OF f(4)] assms(1)
    by (simp add: read_i64_def open_file_def header_entry_def)
qed

section \<open>Properties\<close>

text \<open>
  A BF16 number is the upper half of an F32 number: reading its sixteen bits gives, for all
  patterns (signs, subnormals, infinities and NaN included), what the IEEE single-precision number with these bits
  followed by sixteen zero bits is.
\<close>

theorem bf16_is_f32_prefix:
  assumes "bits < 2 ^ 16"
  shows "bf16_to_float bits = f32_to_float (bits * 2 ^ 16)"
proof -
  have d: "bits * 2 ^ 16 div 2 ^ 31 = bits div 2 ^ 15" "bits * 2 ^ 16 div 2 ^ 23 = bits div 2 ^ 7"
    using div_mult_mult2 [of "2 ^ 16 :: nat" bits "2 ^ 15"] div_mult_mult2 [of "2 ^ 16 :: nat" bits "2 ^ 7"] by simp_all
  have m: "bits * 2 ^ 16 mod 2 ^ 23 = (bits mod 2 ^ 7) * 2 ^ 16"
    using mult_mod_right [of "2 ^ 16" bits "2 ^ 7"] by (simp add: mult.commute)
  have "of_nat (k * 2 ^ 16) / 2 ^ 23 = (of_nat k / 2 ^ 7 :: rat)" for k by simp
  then show ?thesis unfolding bf16_to_float_def f32_to_float_def d m Let_def by simp
qed

theorem bf16_is_f32_prefix_witness:
  "bf16_to_float 16256 = f32_to_float (16256 * 2 ^ 16)"
  by (rule bf16_is_f32_prefix) simp

text \<open>
  C25: the multipliers a checkpoint stores come back: for a model directory whose configuration declares
  PLE layers and whose index names a safetensors file for the layer multipliers, discovery and the
  direct loader both return the signed 64-bit integers written there.
\<close>

theorem discovery_reads_multipliers:
  assumes "fl (config_path dir) = Some (utf8_encode (dumps config))" "json_wf config"
    and "text_config config = Inr (JObj text)" "dict_get text ''ple_layer_ids'' = Some ids" "ids \<noteq> JNull"
    and "fl (index_path dir) = Some (utf8_encode (dumps index))" "json_wf index"
    and "json_get index ''weight_map'' = Inr (Some (JObj weights))"
    and "find_tensor_key (map fst weights) [''.layer_multipliers''] = Some key"
    and "dict_get weights key = Some (JStr file)" "fl (path_div dir file) = Some st" "holds_i64 st key ms"
  shows "load_ple_multipliers fl dir None = Inr ms
    \<and> (\<exists>info. discover_ple fl dir = Inr (Some info) \<and> pi_layer_multipliers info = Some ms
        \<and> pi_rowid_multipliers info = Some ms)"
proof -
  obtain cs where cs: "config = JObj cs" using assms(3) by (cases config) (auto simp: text_config_def json_get_def)
  obtain "is" where "is": "index = JObj is" "dict_get is ''weight_map'' = Some (JObj weights)"
    using assms(8) by (cases index) (auto simp: json_get_def)
  have load: "load_json fl (config_path dir) = Inr config" "load_json fl (index_path dir) = Inr index"
    using assms(1,2,6,7) by (simp_all add: load_json_def open_file_def loads_wire)
  have keys: "weight_keys (JObj weights) = Inr (map fst weights)"
  proof -
    have "rmapM (\<lambda>k. case k of JStr s \<Rightarrow> Inr s | _ \<Rightarrow> Inl AttributeError) (map (\<lambda>p. JStr (fst p)) ws) = Inr (map fst ws)"
      for ws :: "(string \<times> json) list"
      by (induction ws) simp_all
    then show ?thesis by (simp add: weight_keys_def json_iter_def)
  qed
  have tensor: "read_tensor read_i64 fl dir (JObj weights) key = Inr ms"
    using read_i64_written [of fl "path_div dir file", OF assms(11,12)] assms(10) by (simp add: read_tensor_def json_item_obj as_name_def)
  then have "load_ple_multipliers fl dir None = Inr ms"
    using load(2) "is" keys assms(6,9) by (simp add: load_ple_multipliers_def load_tensor_def json_item_obj)
  moreover obtain ws where meta: "read_ple_metadata fl dir (JObj weights) = Inr (ws, Some ms)"
    using keys assms(9) tensor by (simp add: read_ple_metadata_def or_none_def)
  then have "\<exists>info. discover_ple fl dir = Inr (Some info) \<and> pi_layer_multipliers info = Some ms \<and> pi_rowid_multipliers info = Some ms"
    using load "is" keys assms(1,3-6) cs
    by (simp add: discover_ple_def json_item_obj Let_def)
  ultimately show ?thesis by blast
qed

text \<open>A model directory with one safetensors file.\<close>

definition demo_header :: json where
  "demo_header = JObj [(''m.layer_multipliers'', JObj [(''dtype'', JStr ''I64''), (''shape'', JList [JInt 2]),
     (''data_offsets'', JList [JInt 0, JInt 16])])]"

definition demo_config :: json where
  "demo_config = JObj [(''text_config'', JObj [(''ple_layer_ids'', JList [JInt 1])])]"

definition demo_index :: json where
  "demo_index = JObj [(''weight_map'', JObj [(''m.layer_multipliers'', JStr ''f'')])]"

definition demo_files :: files where
  "demo_files = map_of [(''d/config.json'', utf8_encode (dumps demo_config)),
     (''d/model.safetensors.index.json'', utf8_encode (dumps demo_index)),
     (''d/f'', safetensors demo_header (i64_bytes [5, -7]))]"

lemma demo_holds: "holds_i64 (safetensors demo_header (i64_bytes [5, -7])) ''m.layer_multipliers'' [5, -7]"
proof -
  have "length (dumps demo_header) < 2 ^ 63"
  proof -
    have "length (dumps demo_header) < 200" by code_simp
    then show ?thesis by simp
  qed
  then show ?thesis
    unfolding holds_i64_def
    by (intro exI [of _ demo_header] exI [of _ "i64_bytes [5, -7]"]
        exI [of _ "[(''dtype'', JStr ''I64''), (''shape'', JList [JInt 2]), (''data_offsets'', JList [JInt 0, JInt 16])]"]
        exI [of _ 0]) (simp add: demo_header_def fits_i64_def dict_get_def i64_bytes_def)
qed

theorem discovery_reads_multipliers_witness:
  "load_ple_multipliers demo_files ''d'' None = Inr [5, -7]
    \<and> (\<exists>info. discover_ple demo_files ''d'' = Inr (Some info) \<and> pi_layer_multipliers info = Some [5, -7]
        \<and> pi_rowid_multipliers info = Some [5, -7])"
proof (rule discovery_reads_multipliers [OF _ _ _ _ _ _ _ _ _ _ _ demo_holds])
  have "config_path ''d'' = ''d/config.json''" "index_path ''d'' = ''d/model.safetensors.index.json''" "path_div ''d'' ''f'' = ''d/f''"
    by code_simp+
  then show "demo_files (config_path ''d'') = Some (utf8_encode (dumps demo_config))"
    "demo_files (index_path ''d'') = Some (utf8_encode (dumps demo_index))"
    "demo_files (path_div ''d'' ''f'') = Some (safetensors demo_header (i64_bytes [5, -7]))"
    by (simp_all add: demo_files_def)
  show "dict_get [(''ple_layer_ids'', JList [JInt 1])] ''ple_layer_ids'' = Some (JList [JInt 1])" by (simp add: dict_get_def)
  show "find_tensor_key (map fst [(''m.layer_multipliers'', JStr ''f'')]) [''.layer_multipliers''] = Some ''m.layer_multipliers''"
    by code_simp
qed (simp_all add: demo_config_def demo_index_def text_config_def dict_get_def)

end
