(* ===== verification/Adapter.thy ===== *)
theory Adapter
  imports PleSequence Registry
begin

text \<open>
  \<open>python/engramdb/adapter.py\<close>: \<open>PleMemoryAdapter\<close>, \<open>TargetReaderHook\<close> and the installers, and the page reader of
  \<open>python/engramdb/sglang.py\<close>.  Token ids are one row or a batch of rows.  The container of sequences carries
  its own memory, which for a container made elsewhere need not be the adapter's.  Modules are paths with
  their hooks; what running a hook does is the reader's.
\<close>

section \<open>The serving adapter\<close>

datatype token_ids = OneRow "int list" | Rows "int list list"

text \<open>The two tensor operations of the batch; both are PyTorch's.\<close>

record 'f shaping =
  sh_stack :: "'f tensor list \<Rightarrow> 'f tensor res"
  sh_squeeze :: "'f tensor \<Rightarrow> 'f tensor"

definition shaping_laws :: "'f shaping \<Rightarrow> bool" where
  "shaping_laws S \<longleftrightarrow>
     (\<forall>ts sh. ts \<noteq> [] \<longrightarrow> list_all (\<lambda>t. t_shape t = sh) ts \<longrightarrow>
        sh_stack S ts = Inr \<lparr>t_shape = length ts # sh, t_data = concat (map t_data ts)\<rparr>)
     \<and> (\<forall>t. sh_squeeze S t = (case t_shape t of [] \<Rightarrow> t | d # sh \<Rightarrow> if d = 1 then t\<lparr>t_shape := sh\<rparr> else t))"

definition list_shaping :: "'f shaping" where
  "list_shaping =
     \<lparr>sh_stack = (\<lambda>ts. case ts of [] \<Rightarrow> Inl RuntimeError
        | t # _ \<Rightarrow> (if list_all (\<lambda>u. t_shape u = t_shape t) ts
            then Inr \<lparr>t_shape = length ts # t_shape t, t_data = concat (map t_data ts)\<rparr> else Inl RuntimeError)),
      sh_squeeze = (\<lambda>t. case t_shape t of [] \<Rightarrow> t | d # sh \<Rightarrow> if d = 1 then t\<lparr>t_shape := sh\<rparr> else t)\<rparr>"

lemma list_shaping_laws: "shaping_laws list_shaping"
  by (auto simp: shaping_laws_def list_shaping_def split: list.splits)

record 'f memory_adapter =
  ma_memory :: memory
  ma_store_memory :: memory
  ma_sequences :: "(int, 'f) seq_store"

text \<open>\<open>sequence_store or PleSequenceStore(...)\<close>: a container is false when it is empty, as it defines \<open>__len__\<close>.\<close>

definition memory_adapter_init ::
  "memory \<Rightarrow> (memory \<times> (int, 'f) seq_store) option \<Rightarrow> int \<Rightarrow> 'f memory_adapter" where
  "memory_adapter_init mem sequence_store keep_steps =
     (case sequence_store of
        Some (m, ss) \<Rightarrow>
          (if ss_seqs ss \<noteq> [] then \<lparr>ma_memory = mem, ma_store_memory = m, ma_sequences = ss\<rparr>
           else \<lparr>ma_memory = mem, ma_store_memory = mem, ma_sequences = seq_store_init None keep_steps\<rparr>)
      | None \<Rightarrow> \<lparr>ma_memory = mem, ma_store_memory = mem, ma_sequences = seq_store_init None keep_steps\<rparr>)"

datatype 'f adapter_out = NoOutput | TensorOut "'f tensor" | BytesOut bytes

text \<open>What one row gives: the bytes, or the tensor of the step.\<close>

definition step_output :: "bool \<Rightarrow> 'f step \<Rightarrow> (bytes + 'f tensor) res" where
  "step_output as_tensor step =
     (if as_tensor then (case st_e_t step of None \<Rightarrow> Inl RuntimeError | Some t \<Rightarrow> Inr (Inr t)) else Inr (Inl (st_raw step)))"

text \<open>The loop over the batch; an exception leaves the rows fed so far fed.\<close>

fun feed_rows ::
  "'f torch \<Rightarrow> memory \<Rightarrow> bool \<Rightarrow> (int \<times> int list) list \<Rightarrow> (int, 'f) seq_store
   \<Rightarrow> (bytes + 'f tensor) list res \<times> (int, 'f) seq_store" where
  "feed_rows T mem as_tensor [] ss = (Inr [], ss)"
| "feed_rows T mem as_tensor ((i, ids) # rest) ss =
     (case store_feed T mem ss i (Some ids) as_tensor of
        (Inl e, ss) \<Rightarrow> (Inl e, ss)
      | (Inr step, ss) \<Rightarrow>
          (case step_output as_tensor step of
             Inl e \<Rightarrow> (Inl e, ss)
           | Inr out \<Rightarrow> (case feed_rows T mem as_tensor rest ss of (r, ss) \<Rightarrow> (rmap ((#) out) r, ss))))"

definition input_rows :: "token_ids \<Rightarrow> bool \<times> int list list" where
  "input_rows input_ids = (case input_ids of OneRow ids \<Rightarrow> (True, [ids]) | Rows rows \<Rightarrow> (False, rows))"

definition adapter_ids :: "int list option \<Rightarrow> nat \<Rightarrow> int list res" where
  "adapter_ids seq_ids batch_size =
     (case seq_ids of
        None \<Rightarrow> Inr (map int [0..<batch_size])
      | Some ids \<Rightarrow> (if length ids \<noteq> batch_size then Inl ValueError else Inr ids))"

definition combine_outputs :: "'f shaping \<Rightarrow> bool \<Rightarrow> bool \<Rightarrow> (bytes + 'f tensor) list \<Rightarrow> 'f adapter_out res" where
  "combine_outputs S was_1d as_tensor outputs =
     (case outputs of
        [] \<Rightarrow> Inr NoOutput
      | o1 # rest \<Rightarrow>
          rbind (if as_tensor \<and> rest \<noteq> [] then rmap Inr (sh_stack S (map projr outputs)) else Inr o1) (\<lambda>out.
            Inr (case out of
                Inl raw \<Rightarrow> BytesOut raw
              | Inr t \<Rightarrow> TensorOut (if was_1d \<and> as_tensor then sh_squeeze S t else t))))"

definition memory_adapter_forward ::
  "'f torch \<Rightarrow> 'f shaping \<Rightarrow> token_ids \<Rightarrow> int list option \<Rightarrow> bool \<Rightarrow> 'f memory_adapter
   \<Rightarrow> 'f adapter_out res \<times> 'f memory_adapter" where
  "memory_adapter_forward T S input_ids seq_ids as_tensor ad =
     (case input_rows input_ids of (was_1d, rows) \<Rightarrow>
        (case adapter_ids seq_ids (length rows) of
           Inl e \<Rightarrow> (Inl e, ad)
         | Inr ids \<Rightarrow>
             (case feed_rows T (ma_store_memory ad) as_tensor (zip ids rows) (ma_sequences ad) of
                (r, ss) \<Rightarrow> (rbind r (combine_outputs S was_1d as_tensor), ad\<lparr>ma_sequences := ss\<rparr>))))"

definition memory_adapter_reset :: "int option \<Rightarrow> 'f memory_adapter \<Rightarrow> 'f memory_adapter" where
  "memory_adapter_reset seq_id ad =
     ad\<lparr>ma_sequences := (case seq_id of None \<Rightarrow> store_clear (ma_sequences ad) | Some i \<Rightarrow> store_remove (ma_sequences ad) i)\<rparr>"

definition memory_adapter_close :: "'f memory_adapter \<Rightarrow> 'f memory_adapter" where
  "memory_adapter_close ad = ad\<lparr>ma_sequences := store_clear (ma_sequences ad)\<rparr>"

section \<open>Hooks on modules\<close>

text \<open>A module has its hooks by handle number, or lacks the method that registers them.\<close>

record 'r hook_module =
  hm_pre :: "(nat, 'r) dict option"
  hm_post :: "(nat, 'r) dict option"

record 'r hooked_model =
  hd_modules :: "(string, 'r hook_module) dict"
  hd_next :: nat

datatype hook_kind = Pre | Post

record 'r reader_hook =
  hk_reader :: 'r
  hk_target_path :: "string option"
  hk_mode :: string
  hk_handle :: "(string \<times> hook_kind \<times> nat) option"
  hk_target :: "string option"

definition reader_hook_init :: "'r \<Rightarrow> string option \<Rightarrow> string \<Rightarrow> 'r reader_hook" where
  "reader_hook_init reader target_path mode =
     \<lparr>hk_reader = reader, hk_target_path = target_path, hk_mode = mode, hk_handle = None, hk_target = None\<rparr>"

text \<open>The callback of a hook: the reader's \<open>on_forward\<close>, or the reader.\<close>

definition hook_callback :: "('r \<Rightarrow> 'r option) \<Rightarrow> 'r reader_hook \<Rightarrow> 'r" where
  "hook_callback on_forward h = (case on_forward (hk_reader h) of None \<Rightarrow> hk_reader h | Some c \<Rightarrow> c)"

definition add_hook :: "string \<Rightarrow> hook_kind \<Rightarrow> 'r \<Rightarrow> 'r hook_module \<Rightarrow> 'r hooked_model \<Rightarrow> (nat \<times> 'r hooked_model) res" where
  "add_hook path kind c m md =
     (case (case kind of Pre \<Rightarrow> hm_pre m | Post \<Rightarrow> hm_post m) of
        None \<Rightarrow> Inl AttributeError
      | Some hooks \<Rightarrow>
          let hooks = dict_set (hd_next md) c hooks;
              m = (case kind of Pre \<Rightarrow> m\<lparr>hm_pre := Some hooks\<rparr> | Post \<Rightarrow> m\<lparr>hm_post := Some hooks\<rparr>)
          in Inr (hd_next md, md\<lparr>hd_modules := dict_set path m (hd_modules md), hd_next := hd_next md + 1\<rparr>))"

definition hook_attach ::
  "('r \<Rightarrow> 'r option) \<Rightarrow> 'r hooked_model \<Rightarrow> 'r reader_hook \<Rightarrow> ('r reader_hook \<times> 'r hooked_model) res" where
  "hook_attach on_forward md h =
     (let path = (case hk_target_path h of None \<Rightarrow> [] | Some p \<Rightarrow> p)
      in case dict_get (hd_modules md) path of
           None \<Rightarrow> Inl AttributeError
         | Some m \<Rightarrow>
             if hm_pre m = None \<and> hm_post m = None then Inl TypeError
             else rbind (if hk_mode h = ''pre'' then Inr Pre else if hk_mode h = ''post'' then Inr Post else Inl ValueError) (\<lambda>kind.
               rmap (\<lambda>(n, md). (h\<lparr>hk_handle := Some (path, kind, n), hk_target := Some path\<rparr>, md))
                 (add_hook path kind (hook_callback on_forward h) m md)))"

text \<open>\<open>handle.remove()\<close> drops the hook of that number.\<close>

definition drop_hook :: "string \<times> hook_kind \<times> nat \<Rightarrow> 'r hooked_model \<Rightarrow> 'r hooked_model" where
  "drop_hook handle md =
     (case handle of (path, kind, n) \<Rightarrow>
        (case dict_get (hd_modules md) path of
           None \<Rightarrow> md
         | Some m \<Rightarrow>
             let m = (case kind of Pre \<Rightarrow> m\<lparr>hm_pre := map_option (dict_del n) (hm_pre m)\<rparr>
               | Post \<Rightarrow> m\<lparr>hm_post := map_option (dict_del n) (hm_post m)\<rparr>)
             in md\<lparr>hd_modules := dict_set path m (hd_modules md)\<rparr>))"

definition hook_remove :: "'r reader_hook \<Rightarrow> 'r hooked_model \<Rightarrow> 'r reader_hook \<times> 'r hooked_model" where
  "hook_remove h md =
     (case hk_handle h of
        None \<Rightarrow> (h, md)
      | Some handle \<Rightarrow> (h\<lparr>hk_handle := None, hk_target := None\<rparr>, drop_hook handle md))"

definition hook_enter :: "'r reader_hook \<Rightarrow> 'r reader_hook res" where
  "hook_enter h = (if hk_target h = None \<and> hk_handle h = None then Inl RuntimeError else Inr h)"

definition hook_exit :: "'r reader_hook \<Rightarrow> 'r hooked_model \<Rightarrow> 'r reader_hook \<times> 'r hooked_model" where
  "hook_exit h md = hook_remove h md"

definition install_target_reader_hook ::
  "('r \<Rightarrow> 'r option) \<Rightarrow> 'r hooked_model \<Rightarrow> 'r \<Rightarrow> string option \<Rightarrow> string \<Rightarrow> ('r reader_hook \<times> 'r hooked_model) res" where
  "install_target_reader_hook on_forward md reader target_path mode =
     hook_attach on_forward md (reader_hook_init reader target_path mode)"

definition install_vllm_target_reader ::
  "('r \<Rightarrow> 'r option) \<Rightarrow> 'r hooked_model \<Rightarrow> 'r \<Rightarrow> string option \<Rightarrow> string \<Rightarrow> ('r reader_hook \<times> 'r hooked_model) res" where
  "install_vllm_target_reader = install_target_reader_hook"

definition install_sglang_target_reader ::
  "('r \<Rightarrow> 'r option) \<Rightarrow> 'r hooked_model \<Rightarrow> 'r \<Rightarrow> string option \<Rightarrow> string \<Rightarrow> ('r reader_hook \<times> 'r hooked_model) res" where
  "install_sglang_target_reader = install_target_reader_hook"

definition install_bundle_adapter ::
  "('r \<Rightarrow> 'r option) \<Rightarrow> artifacts \<Rightarrow> ('f \<Rightarrow> (string \<times> json) list \<Rightarrow> 'r res) \<Rightarrow> 'r hooked_model \<Rightarrow> 'f registry \<Rightarrow> manifest
   \<Rightarrow> memory option \<Rightarrow> int \<Rightarrow> string option \<Rightarrow> string \<Rightarrow> (memory \<times> 'r \<times> 'r reader_hook \<times> 'r hooked_model) res" where
  "install_bundle_adapter on_forward A call md rg b mem reader_index target_path mode =
     rbind (case mem of Some m \<Rightarrow> Inr m | None \<Rightarrow> open_memory A b) (\<lambda>mem.
     rbind (create_from_manifest call rg (IsBundle b) reader_index) (\<lambda>reader.
     rbind (hook_attach on_forward md (reader_hook_init reader target_path mode)) (\<lambda>(hook, md).
       Inr (mem, reader, hook, md))))"

section \<open>The page reader of SGLang\<close>

text \<open>The two native readers, when the package has them; a reader is what its \<open>read_pages\<close> does.\<close>

type_synonym page_reader = "int list \<Rightarrow> int list \<Rightarrow> bytes list res"

record sglang_reader =
  sg_page_size :: int
  sg_impl :: page_reader

definition sglang_reader_init ::
  "(int \<Rightarrow> page_reader) option \<Rightarrow> (int \<Rightarrow> page_reader) option \<Rightarrow> int \<Rightarrow> sglang_reader res" where
  "sglang_reader_init io_uring portable page_size =
     (case io_uring of
        Some mk \<Rightarrow> Inr \<lparr>sg_page_size = page_size, sg_impl = mk page_size\<rparr>
      | None \<Rightarrow> (case portable of
          Some mk \<Rightarrow> Inr \<lparr>sg_page_size = page_size, sg_impl = mk page_size\<rparr>
        | None \<Rightarrow> Inl RuntimeError))"

definition sglang_read_pages :: "sglang_reader \<Rightarrow> int list \<Rightarrow> int list \<Rightarrow> bytes list res" where
  "sglang_read_pages r fds offsets = sg_impl r fds offsets"

text \<open>The storage module, when it can be imported, with its \<open>IoUringReader\<close> attribute, when it has one.\<close>

definition install_sglang_io_uring_reader :: "'c \<Rightarrow> 'c option option \<Rightarrow> bool \<times> 'c option option" where
  "install_sglang_io_uring_reader engramdb_reader storage =
     (case storage of
        None \<Rightarrow> (False, None)
      | Some None \<Rightarrow> (False, Some None)
      | Some (Some old) \<Rightarrow> (True, Some (Some engramdb_reader)))"

section \<open>A batch is independent sequences\<close>

text \<open>The sequence an id has before a call: the stored one or a new one.\<close>

definition sequence_of :: "memory \<Rightarrow> (int, 'f) seq_store \<Rightarrow> int \<Rightarrow> 'f sequence" where
  "sequence_of mem ss i =
     (case dict_get (ss_seqs ss) i of Some seq \<Rightarrow> seq | None \<Rightarrow> sequence_init mem None (ss_keep_steps ss))"

lemma store_feed_sequence_of:
  assumes "ss_max_sequences ss = None"
  shows "store_feed T mem ss i (Some ids) b = (Inr step, ss') \<longleftrightarrow>
    (\<exists>seq'. seq_feed T mem (sequence_of mem ss i) (Some ids) b = Inr (step, seq')
      \<and> ss' = (case dict_get (ss_seqs ss) i of
            Some _ \<Rightarrow> ss\<lparr>ss_seqs := dict_set i seq' (move_to_end i (ss_seqs ss))\<rparr>
          | None \<Rightarrow> ss\<lparr>ss_seqs := dict_set i seq' (dict_set i (sequence_of mem ss i) (ss_seqs ss))\<rparr>))"
  using assms
  by (auto simp: store_feed_def get_or_create_def sequence_of_def make_room_def Let_def split: option.splits sum.splits)

lemma store_feed_effect:
  assumes "ss_max_sequences ss = None" "store_feed T mem ss i (Some ids) b = (Inr step, ss')"
  obtains seq' where "seq_feed T mem (sequence_of mem ss i) (Some ids) b = Inr (step, seq')"
    "ss_max_sequences ss' = None" "ss_keep_steps ss' = ss_keep_steps ss"
    "\<And>j. dict_get (ss_seqs ss') j = (if j = i then Some seq' else dict_get (ss_seqs ss) j)"
proof -
  obtain seq' where f: "seq_feed T mem (sequence_of mem ss i) (Some ids) b = Inr (step, seq')"
      and ss': "ss' = (case dict_get (ss_seqs ss) i of
            Some _ \<Rightarrow> ss\<lparr>ss_seqs := dict_set i seq' (move_to_end i (ss_seqs ss))\<rparr>
          | None \<Rightarrow> ss\<lparr>ss_seqs := dict_set i seq' (dict_set i (sequence_of mem ss i) (ss_seqs ss))\<rparr>)"
    using assms store_feed_sequence_of [OF assms(1)] by blast
  show thesis
    by (rule that [OF f]) (use ss' assms(1) in \<open>auto split: option.splits\<close>)
qed

lemma list_all2_left: "list_all2 P xs ys \<Longrightarrow> list_all (\<lambda>x. \<exists>y. P x y) xs"
  by (induction rule: list_all2_induct) auto

text \<open>Every row of a batch with distinct ids is fed to its own sequence as it was before the batch.\<close>

lemma feed_rows_independent:
  assumes "ss_max_sequences ss = None" "distinct (map fst ops)" "feed_rows T mem b ops ss = (Inr outs, ss')"
  shows "list_all2 (\<lambda>(i, ids) out. \<exists>step seq'. seq_feed T mem (sequence_of mem ss i) (Some ids) b = Inr (step, seq')
      \<and> step_output b step = Inr out \<and> dict_get (ss_seqs ss') i = Some seq') ops outs
    \<and> (\<forall>j. j \<notin> fst ` set ops \<longrightarrow> dict_get (ss_seqs ss') j = dict_get (ss_seqs ss) j)"
  using assms
proof (induction ops arbitrary: ss outs)
  case (Cons p ops)
  obtain i ids where p: "p = (i, ids)" by fastforce
  obtain step ss1 out outs' where s: "store_feed T mem ss i (Some ids) b = (Inr step, ss1)"
      "step_output b step = Inr out" "feed_rows T mem b ops ss1 = (Inr outs', ss')" "outs = out # outs'"
    using Cons.prems(3) p by (auto split: prod.splits sum.splits simp: res_iff)
  obtain seq' where f: "seq_feed T mem (sequence_of mem ss i) (Some ids) b = Inr (step, seq')"
      "ss_max_sequences ss1 = None" "ss_keep_steps ss1 = ss_keep_steps ss"
      "\<And>j. dict_get (ss_seqs ss1) j = (if j = i then Some seq' else dict_get (ss_seqs ss) j)"
    using store_feed_effect [OF Cons.prems(1) s(1)] by blast
  have IH: "list_all2 (\<lambda>(i, ids) out. \<exists>step seq'. seq_feed T mem (sequence_of mem ss1 i) (Some ids) b = Inr (step, seq')
      \<and> step_output b step = Inr out \<and> dict_get (ss_seqs ss') i = Some seq') ops outs'"
    "\<forall>j. j \<notin> fst ` set ops \<longrightarrow> dict_get (ss_seqs ss') j = dict_get (ss_seqs ss1) j"
    using Cons.IH [OF f(2) _ s(3)] Cons.prems(2) by auto
  have i: "i \<notin> fst ` set ops" using Cons.prems(2) p by simp
  have same: "sequence_of mem ss1 j = sequence_of mem ss j" if "j \<noteq> i" for j
    using f(3,4) that by (simp add: sequence_of_def split: option.split)
  have "list_all2 (\<lambda>(i, ids) out. \<exists>step seq'. seq_feed T mem (sequence_of mem ss i) (Some ids) b = Inr (step, seq')
      \<and> step_output b step = Inr out \<and> dict_get (ss_seqs ss') i = Some seq') ops outs'"
    by (rule list.rel_mono_strong [OF IH(1)]) (use i same in \<open>force split: prod.splits\<close>)
  then show ?case using f(1,4) s(2,4) IH(2) i by (auto simp: p)
qed simp

section \<open>Hooks come and go\<close>

text \<open>Handle numbers are fresh.\<close>

definition hooks_below :: "nat \<Rightarrow> (nat, 'r) dict option \<Rightarrow> bool" where
  "hooks_below n hooks \<longleftrightarrow> (case hooks of None \<Rightarrow> True | Some d \<Rightarrow> (\<forall>k \<in> fst ` set d. k < n))"

definition model_fresh :: "'r hooked_model \<Rightarrow> bool" where
  "model_fresh md \<longleftrightarrow> (\<forall>(p, m) \<in> set (hd_modules md). hooks_below (hd_next md) (hm_pre m) \<and> hooks_below (hd_next md) (hm_post m))"

lemma del_fresh: "hooks_below n (Some d) \<Longrightarrow> dict_del n (dict_set n c d) = d"
proof -
  assume "hooks_below n (Some d)"
  then have n: "n \<notin> fst ` set d" by (auto simp: hooks_below_def)
  then have "dict_set n c d = d @ [(n, c)]" by (simp add: dict_set_new dict_get_None_iff)
  moreover have "filter (\<lambda>p. fst p \<noteq> n) d = d" using n by (auto intro: filter_True)
  ultimately show ?thesis by (simp add: dict_del_def)
qed

lemma dict_set_back: "dict_get d k = Some v \<Longrightarrow> dict_set k v (dict_set k w d) = d"
  by (induction d) (auto simp: dict_get_def dict_set_def)

lemma add_hook_drop:
  assumes "add_hook path kind c m md = Inr (n, md')" "dict_get (hd_modules md) path = Some m" "model_fresh md"
  shows "hd_modules (drop_hook (path, kind, n) md') = hd_modules md"
proof -
  have fresh: "hooks_below (hd_next md) (hm_pre m)" "hooks_below (hd_next md) (hm_post m)"
    using assms(3) dict_get_in [OF assms(2)] by (auto simp: model_fresh_def)
  show ?thesis
    using assms(1,2) fresh
    by (cases kind) (auto simp: add_hook_def drop_hook_def Let_def del_fresh dict_set_back split: option.splits)
qed

section \<open>Properties\<close>

text \<open>
  C23: a batch is served sequence by sequence: with distinct ids and an unbounded container, the tensor
  the adapter returns for at least two rows is the stack of the tensors each sequence's own feed gives from its
  state before the call, each sequence is left as that feed leaves it, and no other sequence changes.
\<close>

theorem adapter_batch_independent:
  assumes "memory_adapter_forward T S (Rows rows) (Some ids) True ad = (Inr out, ad')" "2 \<le> length rows"
    and "distinct ids" "ss_max_sequences (ma_sequences ad) = None"
  shows "\<exists>t ts. out = TensorOut t \<and> sh_stack S ts = Inr t
    \<and> list_all2 (\<lambda>(i, row) u. \<exists>step seq'. seq_feed T (ma_store_memory ad)
            (sequence_of (ma_store_memory ad) (ma_sequences ad) i) (Some row) True = Inr (step, seq')
          \<and> st_e_t step = Some u \<and> dict_get (ss_seqs (ma_sequences ad')) i = Some seq') (zip ids rows) ts
    \<and> (\<forall>j. j \<notin> set ids \<longrightarrow> dict_get (ss_seqs (ma_sequences ad')) j = dict_get (ss_seqs (ma_sequences ad)) j)"
proof -
  let ?mem = "ma_store_memory ad" and ?ss = "ma_sequences ad"
  have len: "length ids = length rows"
    using assms(1) by (auto simp: memory_adapter_forward_def input_rows_def adapter_ids_def split: if_splits)
  then obtain outs ss' where f: "feed_rows T ?mem True (zip ids rows) ?ss = (Inr outs, ss')"
      "combine_outputs S False True outs = Inr out" "ad' = ad\<lparr>ma_sequences := ss'\<rparr>"
    using assms(1) by (auto simp: memory_adapter_forward_def input_rows_def adapter_ids_def res_iff split: prod.splits)
  have ind: "list_all2 (\<lambda>(i, row) out. \<exists>step seq'. seq_feed T ?mem (sequence_of ?mem ?ss i) (Some row) True = Inr (step, seq')
      \<and> step_output True step = Inr out \<and> dict_get (ss_seqs ss') i = Some seq') (zip ids rows) outs"
    "\<forall>j. j \<notin> fst ` set (zip ids rows) \<longrightarrow> dict_get (ss_seqs ss') j = dict_get (ss_seqs ?ss) j"
    using feed_rows_independent [OF assms(4) _ f(1)] assms(3) len by simp_all
  have "length outs = length rows" using list_all2_lengthD [OF ind(1)] len by simp
  then obtain o1 o2 rest where outs: "outs = o1 # o2 # rest"
    using assms(2) by (cases outs; cases "tl outs") auto
  define ts where "ts = map projr outs"
  obtain t where t: "sh_stack S ts = Inr t" "out = TensorOut t"
    using f(2) outs by (auto simp: combine_outputs_def ts_def res_iff)
  have "list_all2 (\<lambda>(i, row) u. \<exists>step seq'. seq_feed T ?mem (sequence_of ?mem ?ss i) (Some row) True = Inr (step, seq')
      \<and> st_e_t step = Some u \<and> dict_get (ss_seqs ss') i = Some seq') (zip ids rows) ts"
    unfolding ts_def list_all2_map2
    by (rule list.rel_mono_strong [OF ind(1)]) (force simp: step_output_def split: option.splits)
  moreover have "fst ` set (zip ids rows) = set ids" using len by (metis map_fst_zip set_map)
  ultimately show ?thesis using t ind(2) f(3) by auto
qed

text \<open>
  In raw mode a batch loses data: the adapter advances every sequence of the batch, but returns
  the bytes of the first row only.
\<close>

theorem adapter_raw_batch_drops:
  assumes "memory_adapter_forward T S (Rows (row # rows)) (Some (i # ids)) False ad = (Inr out, ad')"
    and "distinct (i # ids)" "ss_max_sequences (ma_sequences ad) = None"
  shows "\<exists>step seq'. seq_feed T (ma_store_memory ad) (sequence_of (ma_store_memory ad) (ma_sequences ad) i) (Some row) False
        = Inr (step, seq')
      \<and> out = BytesOut (st_raw step)
      \<and> list_all (\<lambda>(j, r). \<exists>step seq'. seq_feed T (ma_store_memory ad)
            (sequence_of (ma_store_memory ad) (ma_sequences ad) j) (Some r) False = Inr (step, seq')
          \<and> dict_get (ss_seqs (ma_sequences ad')) j = Some seq') (zip ids rows)"
proof -
  let ?mem = "ma_store_memory ad" and ?ss = "ma_sequences ad"
  have len: "length ids = length rows"
    using assms(1) by (auto simp: memory_adapter_forward_def input_rows_def adapter_ids_def split: if_splits)
  then obtain outs ss' where f: "feed_rows T ?mem False (zip (i # ids) (row # rows)) ?ss = (Inr outs, ss')"
      "combine_outputs S False False outs = Inr out" "ad' = ad\<lparr>ma_sequences := ss'\<rparr>"
    using assms(1)
    by (auto simp: memory_adapter_forward_def input_rows_def adapter_ids_def res_iff split: prod.splits simp del: feed_rows.simps)
  have ind: "list_all2 (\<lambda>(i, row) out. \<exists>step seq'. seq_feed T ?mem (sequence_of ?mem ?ss i) (Some row) False = Inr (step, seq')
      \<and> step_output False step = Inr out \<and> dict_get (ss_seqs ss') i = Some seq') (zip (i # ids) (row # rows)) outs"
    by (rule feed_rows_independent [OF assms(3) _ f(1), THEN conjunct1]) (use assms(2) len in simp)
  then obtain o1 outs' where o1: "outs = o1 # outs'"
      "\<exists>step seq'. seq_feed T ?mem (sequence_of ?mem ?ss i) (Some row) False = Inr (step, seq') \<and> step_output False step = Inr o1"
      "list_all2 (\<lambda>(i, row) out. \<exists>step seq'. seq_feed T ?mem (sequence_of ?mem ?ss i) (Some row) False = Inr (step, seq')
        \<and> step_output False step = Inr out \<and> dict_get (ss_seqs ss') i = Some seq') (zip ids rows) outs'"
    by (auto simp: list_all2_Cons1)
  have "list_all (\<lambda>(j, r). \<exists>step seq'. seq_feed T ?mem (sequence_of ?mem ?ss j) (Some r) False = Inr (step, seq')
      \<and> dict_get (ss_seqs ss') j = Some seq') (zip ids rows)"
    by (rule list.pred_mono_strong [OF list_all2_left [OF o1(3)]]) auto
  then show ?thesis using o1(1,2) f(2,3) by (auto simp: step_output_def combine_outputs_def)
qed

text \<open>
  Removing an attached reader hook restores the model: whatever the module, the mode and the
  other hooks are, all modules have exactly the hooks they had before.
\<close>

theorem hook_roundtrip:
  assumes "hook_attach on_forward md h = Inr (h', md')" "model_fresh md"
  shows "hd_modules (snd (hook_remove h' md')) = hd_modules md \<and> hk_handle (fst (hook_remove h' md')) = None"
proof -
  let ?path = "case hk_target_path h of None \<Rightarrow> [] | Some p \<Rightarrow> p"
  obtain m kind n where m: "dict_get (hd_modules md) ?path = Some m"
      "add_hook ?path kind (hook_callback on_forward h) m md = Inr (n, md')"
      "h' = h\<lparr>hk_handle := Some (?path, kind, n), hk_target := Some ?path\<rparr>"
    using assms(1) by (auto simp: hook_attach_def Let_def res_iff split: option.splits if_splits)
  show ?thesis using add_hook_drop [OF m(2,1) assms(2)] by (simp add: hook_remove_def m(3))
qed

text \<open>Attaching the same hook twice forgets the first handle.\<close>

lemma attach_twice_leaks:
  assumes "hook_attach on_forward md h = Inr (h1, md1)" "hook_attach on_forward md1 h1 = Inr (h2, md2)" "model_fresh md1"
  shows "hd_modules (snd (hook_remove h2 md2)) = hd_modules md1"
proof -
  let ?path = "case hk_target_path h1 of None \<Rightarrow> [] | Some p \<Rightarrow> p"
  obtain m kind n where m: "dict_get (hd_modules md1) ?path = Some m"
      "add_hook ?path kind (hook_callback on_forward h1) m md1 = Inr (n, md2)"
      "h2 = h1\<lparr>hk_handle := Some (?path, kind, n), hk_target := Some ?path\<rparr>"
    using assms(2) by (auto simp: hook_attach_def Let_def res_iff split: option.splits if_splits)
  show ?thesis using add_hook_drop [OF m(2,1) assms(3)] by (simp add: hook_remove_def m(3))
qed

text \<open>A container that was made with a limit but is still empty is replaced by an unbounded one.\<close>

lemma empty_container_discarded:
  "memory_adapter_init mem (Some (mem, seq_store_init (Some m) k')) k = memory_adapter_init mem None k"
  "ss_max_sequences (ma_sequences (memory_adapter_init mem (Some (mem, seq_store_init (Some m) k')) k)) = None"
  by (simp_all add: memory_adapter_init_def seq_store_init_def)


definition demo_torch :: "int torch" where
  "demo_torch = list_torch uint (\<lambda>c x. x)"

definition demo_serving :: "int memory_adapter" where
  "demo_serving = memory_adapter_init demo_memory None 4"

definition demo_run :: "bool \<Rightarrow> int adapter_out res \<times> int memory_adapter" where
  "demo_run as_tensor =
     memory_adapter_forward demo_torch list_shaping (Rows [[5], [5]]) (Some [1, 2]) as_tensor demo_serving"

lemma demo_serving_feed:
  "\<exists>step seq'. seq_feed demo_torch demo_memory (sequence_init demo_memory None 4) (Some [5]) b = Inr (step, seq')
     \<and> (b \<longrightarrow> (\<exists>u. st_e_t step = Some u \<and> t_shape u = [1, 2, 2]))"
proof -
  have r: "rowids_for_tokens demo_memory (Some [5]) (Some (fresh_history demo_memory)) = Inr [[1, 3]]"
    by (simp add: demo_memory_def rowids_for_tokens_def as_int_list_def fresh_history_def) code_simp
  have "fetch_raw demo_memory [[1, 3]] = Inr (concat (map (\<lambda>r. concat (map (store_row demo_store) r)) [[1, 3]]))"
    by (rule native.fetch_raw_store) (auto simp: demo_memory_def memory_ok_def)
  then have f: "fetch_raw demo_memory [[1, 3]] = Inr [3, 4, 7, 8]" by (simp add: store_row_def demo_store_def pread_def)
  have "\<exists>u. tensor_from_raw demo_torch demo_memory [3, 4, 7, 8] (Suc 0) = Inr u \<and> t_shape u = [1, 2, 2]"
    by (simp add: tensor_from_raw_def demo_torch_def list_torch_def demo_memory_def record_bytes_def scale_tensor_def)
  with r f show ?thesis by (cases b) (auto simp: seq_feed_def as_int_list_def sequence_init_def Let_def)
qed

lemma demo_run_returns: "\<exists>out. demo_run b = (Inr out, snd (demo_run b))"
proof -
  obtain step seq' where f: "seq_feed demo_torch demo_memory (sequence_init demo_memory None 4) (Some [5]) b = Inr (step, seq')"
      "b \<longrightarrow> (\<exists>u. st_e_t step = Some u \<and> t_shape u = [1, 2, 2])"
    using demo_serving_feed by blast
  let ?ss0 = "seq_store_init None 4 :: (int, int) seq_store"
  let ?ss1 = "?ss0\<lparr>ss_seqs := [(1, seq')]\<rparr>"
  have s1: "store_feed demo_torch demo_memory ?ss0 1 (Some [5]) b = (Inr step, ?ss1)"
    by (simp add: store_feed_def get_or_create_def make_room_def seq_store_init_def Let_def f(1) dict_set_def)
  have s2: "store_feed demo_torch demo_memory ?ss1 2 (Some [5]) b = (Inr step, ?ss0\<lparr>ss_seqs := [(1, seq'), (2, seq')]\<rparr>)"
    by (simp add: store_feed_def get_or_create_def make_room_def seq_store_init_def Let_def f(1) dict_set_def dict_get_def)
  show ?thesis
  proof (cases b)
    case False
    then show ?thesis using s1 s2
      by (simp add: demo_run_def demo_serving_def memory_adapter_init_def memory_adapter_forward_def input_rows_def
          adapter_ids_def step_output_def combine_outputs_def)
  next
    case True
    then obtain u where u: "st_e_t step = Some u" using f(2) by blast
    then show ?thesis using s1 s2 True
      by (simp add: demo_run_def demo_serving_def memory_adapter_init_def memory_adapter_forward_def input_rows_def
          adapter_ids_def step_output_def combine_outputs_def list_shaping_def)
  qed
qed

lemma demo_serving_simps:
  "ma_store_memory demo_serving = demo_memory" "ss_max_sequences (ma_sequences demo_serving) = None"
  by (simp_all add: demo_serving_def memory_adapter_init_def seq_store_init_def)

theorem adapter_batch_independent_witness:
  "\<exists>t ts. fst (demo_run True) = Inr (TensorOut t) \<and> sh_stack list_shaping ts = Inr t
    \<and> list_all2 (\<lambda>(i, row) u. \<exists>step seq'. seq_feed demo_torch demo_memory
            (sequence_of demo_memory (ma_sequences demo_serving) i) (Some row) True = Inr (step, seq')
          \<and> st_e_t step = Some u \<and> dict_get (ss_seqs (ma_sequences (snd (demo_run True)))) i = Some seq')
        (zip [1, 2] [[5], [5]]) ts"
proof -
  obtain out where r: "demo_run True = (Inr out, snd (demo_run True))" using demo_run_returns by blast
  then have f: "fst (demo_run True) = Inr out" by (metis fst_conv)
  have "memory_adapter_forward demo_torch list_shaping (Rows [[5], [5]]) (Some [1, 2]) True demo_serving = (Inr out, snd (demo_run True))"
    using r by (simp add: demo_run_def)
  from adapter_batch_independent [OF this] show ?thesis
    unfolding f demo_serving_simps by (simp only: sum.inject) force
qed

theorem adapter_raw_batch_drops_witness:
  "\<exists>step seq'. seq_feed demo_torch demo_memory (sequence_of demo_memory (ma_sequences demo_serving) 1) (Some [5]) False
        = Inr (step, seq')
      \<and> fst (demo_run False) = Inr (BytesOut (st_raw step))
      \<and> list_all (\<lambda>(j, r). \<exists>step seq'. seq_feed demo_torch demo_memory
            (sequence_of demo_memory (ma_sequences demo_serving) j) (Some r) False = Inr (step, seq')
          \<and> dict_get (ss_seqs (ma_sequences (snd (demo_run False)))) j = Some seq') (zip [2] [[5]])"
proof -
  obtain out where r: "demo_run False = (Inr out, snd (demo_run False))" using demo_run_returns by blast
  then have f: "fst (demo_run False) = Inr out" by (metis fst_conv)
  have "memory_adapter_forward demo_torch list_shaping (Rows ([5] # [[5]])) (Some (1 # [2])) False demo_serving = (Inr out, snd (demo_run False))"
    using r by (simp add: demo_run_def)
  from adapter_raw_batch_drops [OF this] show ?thesis
    unfolding f demo_serving_simps by (simp only: sum.inject) force
qed

definition demo_model :: "nat hooked_model" where
  "demo_model = \<lparr>hd_modules = [([], \<lparr>hm_pre = Some [(0, 9)], hm_post = None\<rparr>)], hd_next = 1\<rparr>"

definition demo_hook :: "nat reader_hook \<times> nat hooked_model" where
  "demo_hook = projr (install_target_reader_hook (\<lambda>r. None) demo_model 5 None ''pre'')"

theorem hook_roundtrip_witness:
  "hd_modules (snd (hook_remove (fst demo_hook) (snd demo_hook))) = hd_modules demo_model
   \<and> hk_handle (fst (hook_remove (fst demo_hook) (snd demo_hook))) = None"
proof (rule hook_roundtrip)
  show "hook_attach (\<lambda>r. None) demo_model (reader_hook_init 5 None ''pre'') = Inr (fst demo_hook, snd demo_hook)"
    by (simp add: demo_hook_def install_target_reader_hook_def hook_attach_def reader_hook_init_def demo_model_def
        add_hook_def dict_get_def)
  show "model_fresh demo_model" by (simp add: model_fresh_def demo_model_def hooks_below_def)
qed

end
