(* ===== verification/ModelPatch.thy ===== *)
theory ModelPatch
  imports DiskTable PyPath
begin

text \<open>
  The model patches of \<open>python/engramdb/vllm_plugin.py\<close> (\<open>patch_named_embedding\<close>, \<open>patch_model_class_ple\<close>) and
  \<open>install_sglang_ple\<close> of \<open>python/engramdb/sglang.py\<close>.  A model is its submodules by path, each with its named
  embedding attributes; a class is what its constructor builds.  A dtype is its item size.
\<close>

section \<open>One attribute\<close>

text \<open>An embedding that is not EngramDB's has a row count, a weight, or neither.\<close>

datatype embedding =
    PlainEmbedding "int option" "(nat \<times> nat) option"
  | DiskEmbedding disk_table

type_synonym model = "(string, (string, embedding) dict) dict"

definition emb_rows :: "embedding \<Rightarrow> int res" where
  "emb_rows e =
     (case e of
        PlainEmbedding (Some n) w \<Rightarrow> Inr n
      | PlainEmbedding None (Some (rows, item)) \<Rightarrow> Inr (int rows)
      | PlainEmbedding None None \<Rightarrow> Inl AttributeError
      | DiskEmbedding t \<Rightarrow> Inr (dt_num_embeddings t))"

definition emb_itemsize :: "embedding \<Rightarrow> nat res" where
  "emb_itemsize e =
     (case e of PlainEmbedding n (Some (rows, item)) \<Rightarrow> Inr item | _ \<Rightarrow> Inl AttributeError)"

text \<open>\<open>s.rpartition(".")\<close>, without the separator.\<close>

definition rpartition_dot :: "string \<Rightarrow> string \<times> string" where
  "rpartition_dot s =
     (let ps = split_on CHR ''.'' s in (join_with ''.'' (butlast ps), last ps))"

definition patch_named_embedding ::
  "string \<Rightarrow> nat \<Rightarrow> nat option \<Rightarrow> int \<Rightarrow> model \<Rightarrow> (disk_table \<times> model) res" where
  "patch_named_embedding attr_name embedding_dim dtype cache_size m =
     (case rpartition_dot attr_name of (parent_path, leaf) \<Rightarrow>
        (case dict_get m parent_path of
           None \<Rightarrow> Inl AttributeError
         | Some attrs \<Rightarrow>
             (case dict_get attrs leaf of
                None \<Rightarrow> Inl AttributeError
              | Some old \<Rightarrow>
                  rbind (emb_rows old) (\<lambda>num_embeddings.
                  rbind (case dtype of Some item \<Rightarrow> Inr item | None \<Rightarrow> emb_itemsize old) (\<lambda>item.
                    let new = disk_table_init num_embeddings embedding_dim item cache_size False
                    in Inr (new, dict_set parent_path (dict_set leaf (DiskEmbedding new) attrs) m))))))"

section \<open>A class\<close>

record 'a model_class =
  mc_init :: "'a \<Rightarrow> model res"
  mc_patched :: bool

definition patch_model_class_ple ::
  "string \<Rightarrow> nat \<Rightarrow> nat option \<Rightarrow> int \<Rightarrow> 'a model_class \<Rightarrow> 'a model_class" where
  "patch_model_class_ple attr_name embedding_dim dtype cache_size c =
     (if mc_patched c then c
      else \<lparr>mc_init = (\<lambda>args. rbind (mc_init c args) (\<lambda>m.
              rmap snd (patch_named_embedding attr_name embedding_dim dtype cache_size m))),
            mc_patched = True\<rparr>)"

definition install_sglang_ple ::
  "string \<Rightarrow> nat \<Rightarrow> nat option \<Rightarrow> int \<Rightarrow> 'a model_class \<Rightarrow> 'a model_class" where
  "install_sglang_ple = patch_model_class_ple"

section \<open>Properties\<close>

lemma join_split: "join_with [sep] (split_on sep s) = s"
proof (induction s)
  case (Cons c s)
  obtain p ps where "split_on sep s = p # ps" using split_on_nonempty [of sep s] by (cases "split_on sep s") simp_all
  with Cons show ?case by (cases ps) auto
qed simp

lemma join_last: "ps \<noteq> [] \<Longrightarrow> join_with [sep] (ps @ [p]) = join_with [sep] ps @ sep # p"
  by (induction "[sep]" ps rule: join_with.induct) simp_all

text \<open>The path of an attribute, back from its two parts.\<close>

lemma rpartition_dot_spec:
  "rpartition_dot s = (parent, leaf) \<Longrightarrow> s = (if CHR ''.'' \<in> set s then parent @ CHR ''.'' # leaf else leaf)
     \<and> CHR ''.'' \<notin> set leaf"
proof -
  assume r: "rpartition_dot s = (parent, leaf)"
  let ?ps = "split_on CHR ''.'' s"
  have ne: "?ps \<noteq> []" by (rule split_on_nonempty)
  have leaf: "leaf = last ?ps" "parent = join_with ''.'' (butlast ?ps)" using r by (simp_all add: rpartition_dot_def Let_def)
  have "leaf \<in> set ?ps" using ne leaf by simp
  then have dot: "CHR ''.'' \<notin> set leaf" by (rule split_on_parts)
  have s: "s = join_with ''.'' (butlast ?ps @ [leaf])" using ne leaf join_split [of "CHR ''.''" s] by simp
  show ?thesis
  proof (cases "butlast ?ps = []")
    case True
    then have "s = leaf" using s by simp
    then show ?thesis using dot by simp
  next
    case False
    then have "s = parent @ CHR ''.'' # leaf" using s join_last [OF False, of "CHR ''.''" leaf] leaf(2) by simp
    then show ?thesis using dot by auto
  qed
qed

text \<open>
  Every instance of a patched class is the instance the original constructor builds with exactly
  one attribute replaced, the named one, by a disk table with its row count; patching a class again,
  with whatever arguments, changes nothing.
\<close>

theorem patched_class_instances:
  assumes "\<not> mc_patched c" "rpartition_dot attr = (parent, leaf)"
    and "mc_init (patch_model_class_ple attr width dtype cache c) args = Inr m"
  shows "\<exists>m0 old t. mc_init c args = Inr m0
      \<and> Option.bind (dict_get m0 parent) (\<lambda>attrs. dict_get attrs leaf) = Some old
      \<and> emb_rows old = Inr (dt_num_embeddings t) \<and> dt_embedding_dim t = width \<and> dt_cache t = []
      \<and> (\<forall>p a. Option.bind (dict_get m p) (\<lambda>attrs. dict_get attrs a)
           = (if p = parent \<and> a = leaf then Some (DiskEmbedding t) else Option.bind (dict_get m0 p) (\<lambda>attrs. dict_get attrs a)))
      \<and> patch_model_class_ple attr' width' dtype' cache' (patch_model_class_ple attr width dtype cache c)
        = patch_model_class_ple attr width dtype cache c"
proof -
  obtain m0 where m0: "mc_init c args = Inr m0" "rmap snd (patch_named_embedding attr width dtype cache m0) = Inr m"
    using assms(1,3) by (auto simp: patch_model_class_ple_def res_iff)
  then obtain attrs old n item where p: "dict_get m0 parent = Some attrs" "dict_get attrs leaf = Some old"
      "emb_rows old = Inr n"
      "m = dict_set parent (dict_set leaf (DiskEmbedding (disk_table_init n width item cache False)) attrs) m0"
    using assms(2) by (auto simp: patch_named_embedding_def res_iff Let_def split: option.splits)
  define t where "t = disk_table_init n width item cache False"
  have "emb_rows old = Inr (dt_num_embeddings t)" "dt_embedding_dim t = width" "dt_cache t = []"
    using p(3) by (simp_all add: t_def disk_table_init_def)
  moreover have "Option.bind (dict_get m q) (\<lambda>attrs. dict_get attrs a)
      = (if q = parent \<and> a = leaf then Some (DiskEmbedding t) else Option.bind (dict_get m0 q) (\<lambda>attrs. dict_get attrs a))" for q a
    using p(1) by (auto simp: p(4) t_def)
  moreover have "patch_model_class_ple attr' width' dtype' cache' (patch_model_class_ple attr width dtype cache c)
      = patch_model_class_ple attr width dtype cache c"
    by (simp add: patch_model_class_ple_def)
  ultimately show ?thesis using m0(1) p(1,2) by (intro exI [of _ m0] exI [of _ old] exI [of _ t]) simp
qed

definition demo_class :: "int model_class" where
  "demo_class = \<lparr>mc_init = (\<lambda>n. Inr [(''m'', [(''e'', PlainEmbedding (Some n) (Some (4, 2)))])]), mc_patched = False\<rparr>"

theorem patched_class_instances_witness:
  "\<exists>m0 old t. mc_init demo_class 4 = Inr m0
      \<and> Option.bind (dict_get m0 ''m'') (\<lambda>attrs. dict_get attrs ''e'') = Some old
      \<and> emb_rows old = Inr (dt_num_embeddings t) \<and> dt_embedding_dim t = 2 \<and> dt_cache t = []
      \<and> (\<forall>p a. Option.bind (dict_get [(''m'', [(''e'', DiskEmbedding (disk_table_init 4 2 2 8 False))])] p) (\<lambda>attrs. dict_get attrs a)
           = (if p = ''m'' \<and> a = ''e'' then Some (DiskEmbedding t) else Option.bind (dict_get m0 p) (\<lambda>attrs. dict_get attrs a)))
      \<and> patch_model_class_ple ''x'' 1 None 0 (patch_model_class_ple ''m.e'' 2 None 8 demo_class)
        = patch_model_class_ple ''m.e'' 2 None 8 demo_class"
proof (rule patched_class_instances)
  show r: "rpartition_dot ''m.e'' = (''m'', ''e'')" by code_simp
  show "mc_init (patch_model_class_ple ''m.e'' 2 None 8 demo_class) 4
      = Inr [(''m'', [(''e'', DiskEmbedding (disk_table_init 4 2 2 8 False))])]"
    by (simp add: patch_model_class_ple_def demo_class_def patch_named_embedding_def r emb_rows_def emb_itemsize_def
        dict_get_def dict_set_def Let_def)
qed (simp add: demo_class_def)

end
