(* ===== verification/OfficialLoader.thy ===== *)
theory OfficialLoader
  imports PleAdapter Discovery "HOL-Library.Char_ord" "HOL-Library.List_Lexorder"
begin

text \<open>
  \<open>python/engramdb/official_loader.py\<close>: the state-dict filter, the placeholder embedding, the replacement of the
  official PLE modules by disk adapters, the prefetch hook, and the checkpoint loader.  A model is its
  modules by path; a module is official with its class name, or a disk adapter.  What
  \<open>transformers\<close> and \<open>safetensors\<close> do are arguments.
\<close>

section \<open>The state dict\<close>

definition NGRAM :: string where
  "NGRAM = ''ngram_embedding''"

definition filter_ngram_shard_state_dict :: "(string \<times> 't) list \<Rightarrow> (string \<times> 't) list" where
  "filter_ngram_shard_state_dict d =
     fold (\<lambda>(k, v) out. if is_infix NGRAM k then out else dict_set k v out) d []"

definition load_state_dict_without_ngram_shards ::
  "((string \<times> 't) list \<Rightarrow> bool \<Rightarrow> 'r res) \<Rightarrow> (string \<times> 't) list \<Rightarrow> bool \<Rightarrow> 'r res" where
  "load_state_dict_without_ngram_shards load d strict = load (filter_ngram_shard_state_dict d) strict"

section \<open>Metadata\<close>

text \<open>A field of the metadata may be absent, or present with the value \<open>None\<close>.\<close>

type_synonym 'a field = "'a option option"

record loader_info =
  li_ple_embed_dim :: "int field"
  li_layer_multipliers :: "int list option"
  li_rowid_multipliers :: "int list option"
  li_weight_scale :: "rat option"
  li_ngram_size :: "int field"
  li_heads_per_ngram :: "int field"
  li_ngram_vocab_size_base :: "int field"
  li_divisible_by :: "int field"

abbreviation field_get :: "'a field \<Rightarrow> 'a option" where
  "field_get f \<equiv> Option.bind f (\<lambda>v. v)"

text \<open>\<open>int(info.get(k, d))\<close>.\<close>

definition field_int :: "int field \<Rightarrow> int \<Rightarrow> int res" where
  "field_int f d = (case f of None \<Rightarrow> Inr d | Some None \<Rightarrow> Inl TypeError | Some (Some v) \<Rightarrow> Inr v)"

definition resolve_scale :: "loader_info option \<Rightarrow> rat option \<Rightarrow> rat" where
  "resolve_scale info scale =
     (case scale of Some c \<Rightarrow> c
      | None \<Rightarrow> (case Option.bind info li_weight_scale of Some c \<Rightarrow> c | None \<Rightarrow> 1))"

definition resolve_num_heads :: "loader_info option \<Rightarrow> int \<Rightarrow> int" where
  "resolve_num_heads info fallback =
     (case info of None \<Rightarrow> fallback
      | Some i \<Rightarrow> (case (field_get (li_ngram_size i), field_get (li_heads_per_ngram i)) of
          (Some n, Some h) \<Rightarrow> max 1 ((n - 1) * h)
        | _ \<Rightarrow> fallback))"

section \<open>The placeholder embedding\<close>

text \<open>
  The class bound to \<open>nn.Embedding\<close> and the constructor bound to the official class; a patched constructor
  remembers the embedding class and the constructor it found.
\<close>

datatype emb_class = RealEmbedding | Placeholder nat emb_class

datatype init_fn = OriginalInit | WithPlaceholder nat emb_class init_fn

record load_world =
  lw_embedding :: emb_class
  lw_init :: init_fn

text \<open>The rows a class allocates for \<open>num_embeddings\<close>.\<close>

fun allocated_rows :: "emb_class \<Rightarrow> nat \<Rightarrow> nat" where
  "allocated_rows RealEmbedding n = n"
| "allocated_rows (Placeholder rows c) n = allocated_rows c (min n rows)"

text \<open>What building a module does with the class it finds bound is an argument; it may raise.\<close>

fun run_init :: "init_fn \<Rightarrow> (emb_class \<Rightarrow> 'r res) \<Rightarrow> load_world \<Rightarrow> 'r res \<times> load_world" where
  "run_init OriginalInit build w = (build (lw_embedding w), w)"
| "run_init (WithPlaceholder rows c inner) build w =
     (case run_init inner build (w\<lparr>lw_embedding := Placeholder rows c\<rparr>) of (r, w) \<Rightarrow> (r, w\<lparr>lw_embedding := c\<rparr>))"

definition construct :: "(emb_class \<Rightarrow> 'r res) \<Rightarrow> load_world \<Rightarrow> 'r res \<times> load_world" where
  "construct build w = run_init (lw_init w) build w"

text \<open>The context manager: enter, the body, and the restoration that also an exception runs.\<close>

definition patch_official :: "int \<Rightarrow> (load_world \<Rightarrow> 'r res \<times> load_world) \<Rightarrow> load_world \<Rightarrow> 'r res \<times> load_world" where
  "patch_official placeholder_rows body w =
     (let rows = nat (max 1 placeholder_rows); original = lw_init w
      in case body (w\<lparr>lw_init := WithPlaceholder rows (lw_embedding w) original\<rparr>) of
           (r, w) \<Rightarrow> (r, w\<lparr>lw_init := original\<rparr>))"

section \<open>Replacing the modules\<close>

datatype module_obj = OfficialModule string | DiskModule adapter

definition is_official_ngram_module :: "module_obj \<Rightarrow> bool" where
  "is_official_ngram_module m =
     (case m of
        OfficialModule cls \<Rightarrow> cls = ''Qwen4ExpTextNGramEmbedding'' \<or> ends_with ''NGramEmbedding'' cls
      | DiskModule ad \<Rightarrow> True)"

definition is_ple_path :: "string \<Rightarrow> bool" where
  "is_ple_path path \<longleftrightarrow>
     ends_with ''.ple_embedding'' path \<or> is_infix ''ple.ple_embedding'' path
     \<or> is_infix ''ngram_embedding'' path \<or> is_infix ''ple'' path"

text \<open>The first part of the path that is a number.\<close>

definition layer_id_of :: "string \<Rightarrow> int option" where
  "layer_id_of path =
     map_option (\<lambda>p. int (digits_val p))
       (find (\<lambda>p. p \<noteq> [] \<and> list_all is_digit p) (split_on CHR ''.'' path))"

record official_model =
  om_modules :: "(string \<times> module_obj) list"
  om_hooks :: "string list list"

definition disk_modules :: "official_model \<Rightarrow> string list" where
  "disk_modules m = map fst (filter (\<lambda>p. case snd p of DiskModule ad \<Rightarrow> True | _ \<Rightarrow> False) (om_modules m))"

definition install_disk_ple_prefetch_hook :: "official_model \<Rightarrow> official_model res" where
  "install_disk_ple_prefetch_hook m =
     (if disk_modules m = [] then Inl RuntimeError else Inr (m\<lparr>om_hooks := om_hooks m @ [disk_modules m]\<rparr>))"

text \<open>The hook: the keyword argument, else the first positional one, is prefetched by every captured module.\<close>

definition hook_input :: "'i option \<Rightarrow> 'i list \<Rightarrow> 'i option" where
  "hook_input kw args = (case kw of Some i \<Rightarrow> Some i | None \<Rightarrow> (case args of [] \<Rightarrow> None | a # _ \<Rightarrow> Some a))"

fun prefetch_modules :: "bool \<Rightarrow> int tensor \<Rightarrow> string list \<Rightarrow> (string \<times> module_obj) list
   \<Rightarrow> unit res \<times> (string \<times> module_obj) list" where
  "prefetch_modules has_native ids [] ms = (Inr (), ms)"
| "prefetch_modules has_native ids (p # ps) ms =
     (case dict_get ms p of
        Some (DiskModule ad) \<Rightarrow>
          (case adapter_prefetch has_native ids ad of
             (Inl e, ad) \<Rightarrow> (Inl e, dict_set p (DiskModule ad) ms)
           | (Inr _, ad) \<Rightarrow> prefetch_modules has_native ids ps (dict_set p (DiskModule ad) ms))
      | _ \<Rightarrow> (Inl AttributeError, ms))"

definition prefetch_hook ::
  "bool \<Rightarrow> string list \<Rightarrow> int tensor option \<Rightarrow> int tensor list \<Rightarrow> official_model \<Rightarrow> unit res \<times> official_model" where
  "prefetch_hook has_native captured kw args m =
     (case hook_input kw args of
        None \<Rightarrow> (Inr (), m)
      | Some ids \<Rightarrow> (case prefetch_modules has_native ids captured (om_modules m) of
          (r, ms) \<Rightarrow> (r, m\<lparr>om_modules := ms\<rparr>)))"

record install_args =
  ia_scale :: "rat option"
  ia_cache_size :: int
  ia_timed :: bool
  ia_layer_ids :: "int list option"
  ia_prefetch :: bool

text \<open>The adapter that replaces a module; its sizes are computed once, its n-gram sizes for each module.\<close>

definition replacement_args :: "loader_info \<Rightarrow> install_args \<Rightarrow> int \<Rightarrow> adapter_args" where
  "replacement_args info a embedding_dim =
     (let num_heads = resolve_num_heads (Some info) 16;
          base = int_or (field_get (li_ngram_vocab_size_base info)) 20000000;
          prime_sizes = adapter_head_vocab_sizes base (nat num_heads)
      in default_adapter_args\<lparr>aa_embedding_dim := embedding_dim, aa_num_heads := nat num_heads,
           aa_layer_multipliers := (if list_or (li_layer_multipliers info) [] \<noteq> [] then li_layer_multipliers info else li_rowid_multipliers info),
           aa_scale := resolve_scale (Some info) (ia_scale a), aa_cache_size := ia_cache_size a, aa_timed := ia_timed a,
           aa_prime_sizes := Some prime_sizes, aa_offsets := Some (adapter_head_offsets (Some prime_sizes)),
           aa_divisor := int_or (field_get (li_divisible_by info)) 128\<rparr>)"

definition replacement :: "loader_info \<Rightarrow> install_args \<Rightarrow> int \<Rightarrow> adapter res" where
  "replacement info a embedding_dim =
     rbind (field_int (li_ngram_size info) 3) (\<lambda>ngram_size. rbind (field_int (li_heads_per_ngram info) 8) (\<lambda>heads_per_ngram.
       adapter_init ((replacement_args info a embedding_dim)\<lparr>aa_ngram_size := ngram_size, aa_heads_per_ngram := heads_per_ngram\<rparr>)))"

definition selected :: "install_args \<Rightarrow> string \<times> module_obj \<Rightarrow> bool" where
  "selected a pm \<longleftrightarrow>
     is_official_ngram_module (snd pm) \<and> is_ple_path (fst pm)
     \<and> (case ia_layer_ids a of None \<Rightarrow> True
        | Some ids \<Rightarrow> (case layer_id_of (fst pm) of None \<Rightarrow> False | Some i \<Rightarrow> i \<in> set ids))"

text \<open>The loop over the modules as they were; an exception leaves those replaced so far.\<close>

fun replace_modules ::
  "adapter res \<Rightarrow> install_args \<Rightarrow> (string \<times> module_obj) list \<Rightarrow> string list \<Rightarrow> (string \<times> module_obj) list
   \<Rightarrow> string list res \<times> (string \<times> module_obj) list" where
  "replace_modules disk a [] replaced ms = (Inr replaced, ms)"
| "replace_modules disk a (pm # pms) replaced ms =
     (if selected a pm
      then (case disk of
              Inl e \<Rightarrow> (Inl e, ms)
            | Inr ad \<Rightarrow> replace_modules disk a pms (replaced @ [fst pm]) (dict_set (fst pm) (DiskModule ad) ms))
      else replace_modules disk a pms replaced ms)"

definition install_disk_ple_in_official_model ::
  "(string \<Rightarrow> loader_info option res) \<Rightarrow> loader_info option \<Rightarrow> string option \<Rightarrow> install_args \<Rightarrow> official_model
   \<Rightarrow> string list res \<times> official_model" where
  "install_disk_ple_in_official_model discover info model_dir a m =
     (case (case (info, model_dir) of (None, Some d) \<Rightarrow> discover d | _ \<Rightarrow> Inr info) of
        Inl e \<Rightarrow> (Inl e, m)
      | Inr None \<Rightarrow> (Inl ValueError, m)
      | Inr (Some info) \<Rightarrow>
          (case rbind (case li_ple_embed_dim info of None \<Rightarrow> Inl KeyError | Some v \<Rightarrow> Inr v)
                  (\<lambda>v. case v of None \<Rightarrow> Inl TypeError | Some d \<Rightarrow> Inr d) of
             Inl e \<Rightarrow> (Inl e, m)
           | Inr embedding_dim \<Rightarrow>
               (case replace_modules (replacement info a embedding_dim) a (om_modules m) [] (om_modules m) of
                  (Inl e, ms) \<Rightarrow> (Inl e, m\<lparr>om_modules := ms\<rparr>)
                | (Inr replaced, ms) \<Rightarrow>
                    let m = m\<lparr>om_modules := ms\<rparr>
                    in if replaced = [] then (Inl RuntimeError, m)
                       else if ia_prefetch a
                       then (case install_disk_ple_prefetch_hook m of Inl e \<Rightarrow> (Inl e, m) | Inr m \<Rightarrow> (Inr replaced, m))
                       else (Inr replaced, m))))"

section \<open>The checkpoint\<close>

record load_result =
  lr_missing_keys :: "string list"
  lr_unexpected_keys :: "string list"
  lr_skipped :: nat
  lr_loaded :: nat

text \<open>The shard files: the values of the index, or the safetensors files of the directory.\<close>

definition shard_files :: "files \<Rightarrow> string list \<Rightarrow> string \<Rightarrow> string list res" where
  "shard_files fl names dir =
     (if fl (index_path dir) \<noteq> None
      then rbind (load_json fl (index_path dir)) (\<lambda>index. rbind (json_item index ''weight_map'') (\<lambda>m.
        rbind (case m of JObj ps \<Rightarrow> Inr (map snd ps) | _ \<Rightarrow> Inl AttributeError) (\<lambda>vs.
          rmap (\<lambda>fs. sort (remdups fs)) (rmapM as_name vs))))
      else Inr (sort (filter (\<lambda>n. ends_with ''.safetensors'' n \<and> \<not> ends_with ''.index.json'' n) names)))"

text \<open>The loop over the tensors of a shard.\<close>

definition collect_tensor :: "string \<times> 't \<Rightarrow> (string \<times> 't) list \<times> nat \<Rightarrow> (string \<times> 't) list \<times> nat" where
  "collect_tensor kv acc =
     (case (kv, acc) of ((k, v), (filtered, skipped)) \<Rightarrow>
        if is_infix NGRAM k then (filtered, skipped + 1) else (dict_set k v filtered, skipped))"

definition load_official_checkpoint ::
  "files \<Rightarrow> string list \<Rightarrow> (string \<Rightarrow> (string \<times> 't) list res) option
   \<Rightarrow> ((string \<times> 't) list \<Rightarrow> bool \<Rightarrow> (string list \<times> string list) res) \<Rightarrow> string \<Rightarrow> bool \<Rightarrow> load_result res" where
  "load_official_checkpoint fl names safe_open load dir strict =
     rbind (shard_files fl names dir) (\<lambda>shards.
       if shards = [] then Inl FileNotFoundError
       else (case safe_open of
           None \<Rightarrow> Inl ImportError
         | Some rd \<Rightarrow>
             rbind (rmapM (\<lambda>s. rd (path_div dir s)) shards) (\<lambda>tensors.
               let (filtered, skipped) = fold collect_tensor (concat tensors) ([], 0)
               in rmap (\<lambda>(missing, unexpected). \<lparr>lr_missing_keys = missing, lr_unexpected_keys = unexpected,
                    lr_skipped = skipped, lr_loaded = length filtered\<rparr>) (load filtered strict))))"

section \<open>The filter and the checkpoint\<close>

lemma filter_fold:
  "fold (\<lambda>(k, v) out. if is_infix NGRAM k then out else dict_set k v out) kvs d
   = dict_update d (filter (\<lambda>(k, v). \<not> is_infix NGRAM k) kvs)"
  by (induction kvs arbitrary: d) (auto simp: dict_update_def split: if_splits)

lemma filter_shard_dict:
  "filter_ngram_shard_state_dict kvs = dict_update [] (filter (\<lambda>(k, v). \<not> is_infix NGRAM k) kvs)"
  by (simp add: filter_ngram_shard_state_dict_def filter_fold)

text \<open>Collecting while streaming is filtering the merged dict, counting what was skipped.\<close>

lemma collect_fold:
  "fold collect_tensor kvs (d, n)
   = (dict_update d (filter (\<lambda>(k, v). \<not> is_infix NGRAM k) kvs), n + length (filter (\<lambda>(k, v). is_infix NGRAM k) kvs))"
  by (induction kvs arbitrary: d n) (auto simp: collect_tensor_def dict_update_def split: if_splits)

lemma filtered_keys:
  "fst ` set (filter_ngram_shard_state_dict kvs) = {k \<in> fst ` set kvs. \<not> is_infix NGRAM k}"
  by (auto simp: filter_shard_dict keys_dict_update image_iff)

lemma dict_get_update_last:
  "dict_get (dict_update d kvs) k = (case map_of (rev kvs) k of None \<Rightarrow> dict_get d k | Some v \<Rightarrow> Some v)"
  by (induction kvs arbitrary: d) (auto simp: map_add_def dict_update_def split: option.splits)

lemma map_of_filter_keys: "map_of (filter (\<lambda>(k, v). P k) kvs) k = (if P k then map_of kvs k else None)"
  by (induction kvs) auto

lemma filtered_get:
  "dict_get (filter_ngram_shard_state_dict kvs) k = (if is_infix NGRAM k then None else map_of (rev kvs) k)"
  by (simp add: filter_shard_dict dict_get_update_last map_of_filter_keys rev_filter split: option.split)

lemma filtered_length:
  "length (filter_ngram_shard_state_dict kvs) = card {k \<in> fst ` set kvs. \<not> is_infix NGRAM k}"
proof -
  have "dict_wf (filter_ngram_shard_state_dict kvs)" unfolding filter_shard_dict by (rule dict_wf_update) (simp add: dict_wf_def)
  then have "length (filter_ngram_shard_state_dict kvs) = card (fst ` set (filter_ngram_shard_state_dict kvs))"
    using distinct_card [of "map fst (filter_ngram_shard_state_dict kvs)"] by (simp add: dict_wf_def)
  then show ?thesis by (simp only: filtered_keys)
qed

text \<open>
  C30: the checkpoint loader, which streams the shards, does what loading the filtered merged state dict
  does: no tensor whose key names an n-gram embedding reaches the model, every other key does with the
  value of the last shard that has it, and the two counts are the tensors skipped and the keys loaded.
\<close>

theorem checkpoint_streams_filtered:
  assumes "shard_files fl names dir = Inr shards" "shards \<noteq> []"
    and "rmapM (\<lambda>s. rd (path_div dir s)) shards = Inr tensors"
  shows "load_official_checkpoint fl names (Some rd) load dir strict
      = rmap (\<lambda>(missing, unexpected). \<lparr>lr_missing_keys = missing, lr_unexpected_keys = unexpected,
            lr_skipped = length (filter (\<lambda>(k, v). is_infix NGRAM k) (concat tensors)),
            lr_loaded = card {k \<in> fst ` set (concat tensors). \<not> is_infix NGRAM k}\<rparr>)
          (load_state_dict_without_ngram_shards load (concat tensors) strict)
    \<and> dict_get (filter_ngram_shard_state_dict (concat tensors)) k
        = (if is_infix NGRAM k then None else map_of (rev (concat tensors)) k)"
  by (simp add: load_official_checkpoint_def assms collect_fold filtered_get load_state_dict_without_ngram_shards_def
      filter_shard_dict [symmetric] del: concat.simps set_concat flip: filtered_length)

definition demo_shard :: "string \<Rightarrow> (string \<times> nat) list res" where
  "demo_shard p = (if p = ''d/a.safetensors'' then Inr [(''w'', 1), (''l.ngram_embedding.shard_0.weight'', 2)]
                   else Inr [(''b'', 3), (''l.ngram_embedding.weight'', 4)])"

definition demo_shard_names :: "string list" where
  "demo_shard_names = [''b.safetensors'', ''config.json'', ''a.safetensors'']"

definition demo_tensors :: "(string \<times> nat) list list" where
  "demo_tensors = [[(''w'', 1), (''l.ngram_embedding.shard_0.weight'', 2)], [(''b'', 3), (''l.ngram_embedding.weight'', 4)]]"

theorem checkpoint_streams_filtered_witness:
  "load_official_checkpoint (\<lambda>p. None) demo_shard_names (Some demo_shard) (\<lambda>d s. Inr (map fst d, [])) ''d'' False
      = rmap (\<lambda>(missing, unexpected). \<lparr>lr_missing_keys = missing, lr_unexpected_keys = unexpected,
            lr_skipped = length (filter (\<lambda>(k, v). is_infix NGRAM k) (concat demo_tensors)),
            lr_loaded = card {k \<in> fst ` set (concat demo_tensors). \<not> is_infix NGRAM k}\<rparr>)
          (load_state_dict_without_ngram_shards (\<lambda>d s. Inr (map fst d, [])) (concat demo_tensors) False)
    \<and> dict_get (filter_ngram_shard_state_dict (concat demo_tensors)) ''b''
        = (if is_infix NGRAM ''b'' then None else map_of (rev (concat demo_tensors)) ''b'')"
proof (rule checkpoint_streams_filtered)
  show "shard_files (\<lambda>p. None) demo_shard_names ''d'' = Inr [''a.safetensors'', ''b.safetensors'']" by code_simp
  show "rmapM (\<lambda>s. demo_shard (path_div ''d'' s)) [''a.safetensors'', ''b.safetensors''] = Inr demo_tensors" by code_simp
qed simp

section \<open>The placeholder\<close>

lemma construct_original:
  "construct build \<lparr>lw_embedding = e, lw_init = OriginalInit\<rparr> = (build e, \<lparr>lw_embedding = e, lw_init = OriginalInit\<rparr>)"
  by (simp add: construct_def)

text \<open>
  Building a model inside the context allocates at most the placeholder rows of each embedding, and at
  most the rows asked for, and afterwards the embedding class and the constructor are the ones bound
  before, whether the constructor returned or raised; an inner context does not change the bound of the
  outer one.
\<close>

theorem placeholder_load_bounded:
  "\<exists>c. patch_official rows (construct build) \<lparr>lw_embedding = e, lw_init = OriginalInit\<rparr>
        = (build c, \<lparr>lw_embedding = e, lw_init = OriginalInit\<rparr>)
      \<and> (\<forall>n. allocated_rows c n = allocated_rows e (min n (nat (max 1 rows))))
      \<and> patch_official rows (patch_official inner (construct build)) \<lparr>lw_embedding = e, lw_init = OriginalInit\<rparr>
        = (build c, \<lparr>lw_embedding = e, lw_init = OriginalInit\<rparr>)"
  by (intro exI [of _ "Placeholder (nat (max 1 rows)) e"]) (simp add: patch_official_def construct_def Let_def)

section \<open>The installer\<close>

lemma replace_modules_gets:
  "replace_modules (Inr ad) a pms replaced ms
   = (Inr (replaced @ map fst (filter (selected a) pms)),
      fold (\<lambda>p ms. dict_set p (DiskModule ad) ms) (map fst (filter (selected a) pms)) ms)"
  by (induction pms arbitrary: replaced ms) auto

lemma replace_modules_error:
  "replace_modules (Inl e) a pms replaced ms
   = (if filter (selected a) pms = [] then (Inr replaced, ms) else (Inl e, ms))"
  by (induction pms arbitrary: replaced) auto

lemma dict_set_absent: "k \<notin> fst ` set d \<Longrightarrow> map (\<lambda>(q, x). (q, if q = k then v else x)) d = d"
  by (induction d) auto

lemma dict_set_present:
  "dict_wf d \<Longrightarrow> k \<in> fst ` set d \<Longrightarrow> dict_set k v d = map (\<lambda>(q, x). (q, if q = k then v else x)) d"
proof (induction d)
  case (Cons p d)
  show ?case
  proof (cases "fst p = k")
    case True
    then have "k \<notin> fst ` set d" using Cons.prems by (auto simp: dict_wf_def)
    then show ?thesis using True dict_set_absent [of k d v] by (cases p) (simp add: dict_set_def)
  next
    case False
    then have "dict_wf d" "k \<in> fst ` set d" using Cons.prems by (auto simp: dict_wf_def)
    then show ?thesis using Cons.IH False by (cases p) (simp add: dict_set_def)
  qed
qed simp

lemma fold_dict_set_present:
  assumes "dict_wf ms" "set ps \<subseteq> fst ` set ms"
  shows "fold (\<lambda>p ms. dict_set p v ms) ps ms = map (\<lambda>(p, x). (p, if p \<in> set ps then v else x)) ms"
  using assms
proof (induction ps arbitrary: ms)
  case (Cons p ps)
  have "fold (\<lambda>p ms. dict_set p v ms) ps (dict_set p v ms)
      = map (\<lambda>(q, x). (q, if q \<in> set ps then v else x)) (dict_set p v ms)"
    using Cons.prems by (intro Cons.IH) (auto simp: dict_inv keys_dict_set)
  then show ?case using Cons.prems by (auto simp: dict_set_present)
qed simp

lemma selected_paths:
  "dict_wf ms \<Longrightarrow> (p, x) \<in> set ms \<Longrightarrow> p \<in> fst ` set (filter (selected a) ms) \<longleftrightarrow> selected a (p, x)"
  by (force simp: dict_wf_def dest: eq_key_imp_eq_value)

lemma replace_all:
  assumes "dict_wf ms"
  shows "replace_modules (Inr ad) a ms [] ms
    = (Inr (map fst (filter (selected a) ms)),
       map (\<lambda>(p, x). (p, if selected a (p, x) then DiskModule ad else x)) ms)"
proof -
  have "fold (\<lambda>p ms. dict_set p (DiskModule ad) ms) (map fst (filter (selected a) ms)) ms
      = map (\<lambda>(p, x). (p, if p \<in> fst ` set (filter (selected a) ms) then DiskModule ad else x)) ms"
    using fold_dict_set_present [OF assms, of "map fst (filter (selected a) ms)"] by auto
  also have "\<dots> = map (\<lambda>(p, x). (p, if selected a (p, x) then DiskModule ad else x)) ms"
    using selected_paths [OF assms] by (intro map_cong) auto
  finally show ?thesis by (simp add: replace_modules_gets)
qed


text \<open>
  A successful installation replaces exactly the official modules on PLE paths whose layer is asked
  for, all by a fresh adapter, leaves every other module and the order as they were, returns the replaced
  paths, at least one, and hooks the prefetch over all disk modules when asked to.
\<close>

theorem official_install_replaces:
  assumes "dict_wf (om_modules m)"
    and "install_disk_ple_in_official_model discover info dir a m = (Inr replaced, m')"
  shows "replaced = map fst (filter (selected a) (om_modules m)) \<and> replaced \<noteq> []
    \<and> (\<exists>ad. na_context ad = [] \<and> dt_cache (na_table ad) = []
        \<and> om_modules m' = map (\<lambda>(p, x). (p, if selected a (p, x) then DiskModule ad else x)) (om_modules m))
    \<and> om_hooks m' = om_hooks m @ (if ia_prefetch a then [disk_modules m'] else [])"
proof -
  obtain i d where i: "replace_modules (replacement i a d) a (om_modules m) [] (om_modules m) = (Inr replaced, om_modules m')"
      "replaced \<noteq> []" "om_hooks m' = om_hooks m @ (if ia_prefetch a then [disk_modules m'] else [])"
    using assms(2) by (auto simp: install_disk_ple_in_official_model_def install_disk_ple_prefetch_hook_def disk_modules_def Let_def
        split: sum.splits option.splits prod.splits if_splits)
  obtain ad where ad: "replacement i a d = Inr ad"
    using i(1,2) by (cases "replacement i a d") (auto simp: replace_modules_error split: if_splits)
  have "na_context ad = []" "dt_cache (na_table ad) = []"
    using ad by (auto simp: replacement_def adapter_init_def disk_table_init_def Let_def res_iff)
  then show ?thesis using i replace_all [OF assms(1), of ad a] by (auto simp: ad)
qed

text \<open>
  When the metadata has the key \<open>ngram_size\<close> with no value, as discovery leaves it for a
  configuration without it, the default of 3 is not used: the installation raises and changes nothing.
\<close>

theorem official_install_needs_ngram_size:
  assumes "li_ngram_size info = Some None" "li_ple_embed_dim info = Some (Some d)"
    and "filter (selected a) (om_modules m) \<noteq> []"
  shows "install_disk_ple_in_official_model discover (Some info) dir a m = (Inl TypeError, m)"
  by (simp add: install_disk_ple_in_official_model_def assms replacement_def field_int_def replace_modules_error
      split: option.splits)

definition demo_loader_info :: loader_info where
  "demo_loader_info = \<lparr>li_ple_embed_dim = Some (Some 2), li_layer_multipliers = Some [3, 5], li_rowid_multipliers = None,
     li_weight_scale = None, li_ngram_size = Some (Some 2), li_heads_per_ngram = Some (Some 1),
     li_ngram_vocab_size_base = Some (Some 4), li_divisible_by = Some (Some 1)\<rparr>"

definition demo_install :: install_args where
  "demo_install = \<lparr>ia_scale = None, ia_cache_size = 8, ia_timed = False, ia_layer_ids = Some [1], ia_prefetch = True\<rparr>"

definition demo_official :: official_model where
  "demo_official = \<lparr>om_modules = [(''layers.0.ple.ple_embedding'', OfficialModule ''Qwen4ExpTextNGramEmbedding''),
     (''layers.1.ple.ple_embedding'', OfficialModule ''Qwen4ExpTextNGramEmbedding''),
     (''layers.1.mlp'', OfficialModule ''Linear'')], om_hooks = []\<rparr>"

lemma demo_selected_each:
  "\<not> selected demo_install (''layers.0.ple.ple_embedding'', OfficialModule ''Qwen4ExpTextNGramEmbedding'')"
  "selected demo_install (''layers.1.ple.ple_embedding'', OfficialModule ''Qwen4ExpTextNGramEmbedding'')"
  "\<not> selected demo_install (''layers.1.mlp'', OfficialModule ''Linear'')"
  by code_simp+

lemma demo_selected: "filter (selected demo_install) (om_modules demo_official)
    = [(''layers.1.ple.ple_embedding'', OfficialModule ''Qwen4ExpTextNGramEmbedding'')]"
  by (simp add: demo_official_def demo_selected_each)

theorem official_install_needs_ngram_size_witness:
  "install_disk_ple_in_official_model (\<lambda>d. Inr None) (Some (demo_loader_info\<lparr>li_ngram_size := Some None\<rparr>)) None demo_install demo_official
    = (Inl TypeError, demo_official)"
  by (rule official_install_needs_ngram_size [where d = 2]) (simp_all add: demo_loader_info_def demo_selected)

definition demo_replaced :: "string list" where
  "demo_replaced = [''layers.1.ple.ple_embedding'']"

definition demo_installed :: official_model where
  "demo_installed = snd (install_disk_ple_in_official_model (\<lambda>d. Inr None) (Some demo_loader_info) None demo_install demo_official)"

theorem official_install_replaces_witness:
  "demo_replaced = map fst (filter (selected demo_install) (om_modules demo_official)) \<and> demo_replaced \<noteq> []
    \<and> (\<exists>ad. na_context ad = [] \<and> dt_cache (na_table ad) = []
        \<and> om_modules demo_installed
          = map (\<lambda>(p, x). (p, if selected demo_install (p, x) then DiskModule ad else x)) (om_modules demo_official))
    \<and> om_hooks demo_installed = om_hooks demo_official @ (if ia_prefetch demo_install then [disk_modules demo_installed] else [])"
proof (rule official_install_replaces)
  show wf: "dict_wf (om_modules demo_official)" by (simp add: dict_wf_def demo_official_def)
  have sizes: "adapter_head_vocab_sizes 4 (Suc 0) = [5]" by code_simp
  obtain ad where ad: "replacement demo_loader_info demo_install 2 = Inr ad"
    by (simp add: replacement_def field_int_def demo_loader_info_def replacement_args_def resolve_num_heads_def int_or_def sizes
        demo_install_def adapter_init_def adapter_head_offsets_def py_div_def adapter_padded_vocab_size_def default_adapter_args_def Let_def)
  have dim: "li_ple_embed_dim demo_loader_info = Some (Some 2)" "ia_prefetch demo_install"
    by (simp_all add: demo_loader_info_def demo_install_def)
  have "fst (install_disk_ple_in_official_model (\<lambda>d. Inr None) (Some demo_loader_info) None demo_install demo_official) = Inr demo_replaced"
    by (simp add: install_disk_ple_in_official_model_def dim ad replace_all [OF wf] demo_replaced_def Let_def
        install_disk_ple_prefetch_hook_def disk_modules_def demo_official_def demo_selected_each dict_set_def)
  then show "install_disk_ple_in_official_model (\<lambda>d. Inr None) (Some demo_loader_info) None demo_install demo_official
      = (Inr demo_replaced, demo_installed)"
    by (simp add: demo_installed_def prod_eq_iff)
qed

end
