(* ===== verification/ViewBuild.thy ===== *)
theory ViewBuild
  imports DiskIndexBuild Json
begin

text \<open>
  The builders of a Store-P view in \<open>crates/engramdb-io/src/view.rs\<close> (\<open>build_view_from_keys\<close>,
  \<open>build_view_from_keys_file\<close>); the random build is in \<open>ViewKeys\<close>.
  A view is built by gathering sixteen rows of the store for every gram and writing them to one slot; the lemmas
  show that reading it through an index of its keys gives what the store gives.  Build times, and the
  text fields of the manifest, are not modelled.
\<close>

section \<open>The slots of a chunk\<close>

definition HEAD_W :: nat where "HEAD_W = 16"
definition ROW_BYTES :: nat where "ROW_BYTES = 160"
definition VIEW_RECORD_BYTES :: nat where "VIEW_RECORD_BYTES = HEAD_W * ROW_BYTES"
definition CHUNK_G :: nat where "CHUNK_G = 500000"

text \<open>\<open>gather_pp\<close> into a buffer of \<open>n\<close> zero bytes: rows past its end panic.\<close>

definition gather_out :: "native_store \<Rightarrow> nat list \<Rightarrow> nat \<Rightarrow> bytes res" where
  "gather_out s keys n =
     rbind (gather_pp s keys) (\<lambda>bs. if n < length bs then Inl PanicException else Inr (overlay (replicate n 0) bs))"

text \<open>Every record is copied to the front of one slot buffer, which is then written.\<close>

fun write_slots :: "bytes \<Rightarrow> bytes list \<Rightarrow> bytes res" where
  "write_slots slot [] = Inr []"
| "write_slots slot (rec # recs) =
     (if length slot < length rec then Inl PanicException
      else let slot = overlay slot rec in rmap (\<lambda>bs. slot @ bs) (write_slots slot recs))"

definition build_chunk :: "native_store \<Rightarrow> nat \<Rightarrow> nat list \<Rightarrow> bytes res" where
  "build_chunk s slot_bytes chunk =
     rbind (gather_out s chunk (length chunk * ROW_BYTES)) (\<lambda>out.
       write_slots (replicate slot_bytes 0) (take (length chunk div HEAD_W) (chunks VIEW_RECORD_BYTES out)))"

section \<open>The builders\<close>

text \<open>The view file, the lines of the keys file, and the two manifest fields the reader uses.\<close>

record built_view =
  bv_file :: bytes
  bv_keys :: "string list"
  bv_grans :: nat
  bv_slot_bytes :: nat

definition view_from_chunks :: "native_store \<Rightarrow> nat \<Rightarrow> nat list list \<Rightarrow> nat \<Rightarrow> built_view res" where
  "view_from_chunks s slot_bytes cs grans =
     rmap (\<lambda>bss. \<lparr>bv_file = concat bss, bv_keys = map nat_digits (concat cs), bv_grans = grans, bv_slot_bytes = slot_bytes\<rparr>)
       (rmapM (build_chunk s slot_bytes) cs)"

definition build_view_from_keys :: "native_store \<Rightarrow> nat list \<Rightarrow> nat \<Rightarrow> built_view res" where
  "build_view_from_keys s keys slot_bytes =
     (if length keys mod HEAD_W \<noteq> 0 then Inl OSError
      else view_from_chunks s slot_bytes (chunks (CHUNK_G * HEAD_W) keys) (length keys div HEAD_W))"

text \<open>The reader opened on the file and its manifest.\<close>

definition built_reader :: "built_view \<Rightarrow> view" where
  "built_reader b = view_open (bv_file b) (bv_slot_bytes b) (bv_grans b)"

text \<open>\<open>str::parse::<u64>\<close>: an optional plus sign and digits.\<close>

definition parse_u64 :: "string \<Rightarrow> nat res" where
  "parse_u64 t =
     (let ds = (case t of [] \<Rightarrow> [] | c # cs \<Rightarrow> if c = CHR ''+'' then cs else t)
      in if ds = [] \<or> \<not> list_all is_digit ds \<or> 2 ^ 64 \<le> digits_val ds then Inl OSError else Inr (digits_val ds))"

text \<open>The file version: the rows of a full chunk are built as soon as it is read.\<close>

record stream_build =
  sb_chunk :: "nat list"
  sb_done :: "nat list list"
  sb_out :: "bytes list"

definition flush_chunk :: "native_store \<Rightarrow> nat \<Rightarrow> stream_build \<Rightarrow> stream_build res" where
  "flush_chunk s slot_bytes st =
     rmap (\<lambda>bs. \<lparr>sb_chunk = [], sb_done = sb_done st @ [sb_chunk st], sb_out = sb_out st @ [bs]\<rparr>)
       (build_chunk s slot_bytes (sb_chunk st))"

fun keys_file_loop :: "native_store \<Rightarrow> nat \<Rightarrow> nat \<Rightarrow> string list \<Rightarrow> stream_build \<Rightarrow> stream_build res" where
  "keys_file_loop s slot_bytes n [] st = Inr st"
| "keys_file_loop s slot_bytes n (line # lines) st =
     (let t = strip line
      in if t = [] then keys_file_loop s slot_bytes n lines st
         else rbind (parse_u64 t) (\<lambda>k.
           let st = st\<lparr>sb_chunk := sb_chunk st @ [k]\<rparr>
           in if length (sb_chunk st) = n
              then rbind (flush_chunk s slot_bytes st) (keys_file_loop s slot_bytes n lines)
              else keys_file_loop s slot_bytes n lines st))"

definition build_view_from_keys_file :: "native_store \<Rightarrow> string list \<Rightarrow> nat \<Rightarrow> built_view res" where
  "build_view_from_keys_file s lines slot_bytes =
     rbind (keys_file_loop s slot_bytes (CHUNK_G * HEAD_W) lines \<lparr>sb_chunk = [], sb_done = [], sb_out = []\<rparr>) (\<lambda>st.
     rbind (if sb_chunk st = [] then Inr st
            else if length (sb_chunk st) mod HEAD_W \<noteq> 0 then Inl OSError
            else flush_chunk s slot_bytes st) (\<lambda>st.
       let keys = concat (sb_done st)
       in if keys = [] \<or> length keys mod HEAD_W \<noteq> 0 then Inl OSError
          else Inr \<lparr>bv_file = concat (sb_out st), bv_keys = map nat_digits keys,
                 bv_grans = length keys div HEAD_W, bv_slot_bytes = slot_bytes\<rparr>))"

section \<open>The records of a view\<close>

definition tuple_record :: "native_store \<Rightarrow> nat list \<Rightarrow> bytes" where
  "tuple_record s t = concat (map (\<lambda>k. store_row s (int k)) t)"

definition slot_of :: "nat \<Rightarrow> bytes \<Rightarrow> bytes" where
  "slot_of slot_bytes rec = rec @ replicate (slot_bytes - length rec) 0"

lemma write_slots_correct:
  assumes "list_all (\<lambda>rec. length rec = n) recs" "n \<le> length slot" "drop n slot = replicate (length slot - n) 0"
  shows "write_slots slot recs = Inr (concat (map (slot_of (length slot)) recs))"
  using assms
proof (induction recs arbitrary: slot)
  case (Cons rec recs)
  have s: "overlay slot rec = slot_of (length slot) rec" "length (overlay slot rec) = length slot"
    using Cons.prems by (simp_all add: overlay_def slot_of_def)
  have "write_slots (overlay slot rec) recs = Inr (concat (map (slot_of (length slot)) recs))"
    using Cons.prems s by (subst Cons.IH) (auto simp: slot_of_def)
  then show ?case using Cons.prems s by (simp add: Let_def)
qed simp

lemma tuple_record_length:
  assumes "list_all (\<lambda>k. store_valid s (int k)) t"
  shows "length (tuple_record s t) = length t * ns_width s"
  using assms by (induction t) (simp_all add: tuple_record_def store_row_length)

lemma tuple_record_chunks:
  assumes "0 < n"
  shows "tuple_record s ks = concat (map (tuple_record s) (chunks n ks))"
  using concat_chunks [OF assms, of ks] unfolding tuple_record_def by (simp flip: map_concat concat_concat_map)

lemma chunks_map: "chunks n (map f xs) = map (map f) (chunks n xs)"
proof (induction n xs rule: chunks.induct)
  case (1 n xs)
  then show ?case
    by (cases "n = 0 \<or> xs = []") (auto simp: chunks.simps [of n "map f xs"] chunks.simps [of n xs] take_map drop_map)
qed

lemma chunks_dvd: "k dvd n \<Longrightarrow> k dvd length xs \<Longrightarrow> c \<in> set (chunks n xs) \<Longrightarrow> k dvd length c"
proof (induction n xs rule: chunks.induct)
  case (1 n xs)
  show ?case
  proof (cases "n = 0 \<or> xs = []")
    case False
    then have "c = take n xs \<or> c \<in> set (chunks n (drop n xs))" using "1.prems"(3) by (simp add: chunks.simps [of n xs])
    moreover have "k dvd length (take n xs)" using "1.prems" by (simp add: min_def)
    moreover have "k dvd length (drop n xs)" using "1.prems" by (simp add: dvd_diff_nat)
    ultimately show ?thesis using "1.IH" False "1.prems"(1) by auto
  qed (use "1.prems" in \<open>auto simp: chunks.simps [of n xs]\<close>)
qed

lemma chunks_nonempty: "c \<in> set (chunks n xs) \<Longrightarrow> c \<noteq> [] \<and> set c \<subseteq> set xs"
proof (induction n xs rule: chunks.induct)
  case (1 n xs)
  show ?case
  proof (cases "n = 0 \<or> xs = []")
    case False
    then have "c = take n xs \<or> c \<in> set (chunks n (drop n xs))" using "1.prems" by (simp add: chunks.simps [of n xs])
    then show ?thesis using "1.IH" False set_take_subset [of n xs] set_drop_subset [of n xs] by auto
  qed (use "1.prems" in \<open>auto simp: chunks.simps [of n xs]\<close>)
qed

lemma build_chunk_correct:
  assumes "list_all (\<lambda>k. store_valid s (int k)) chunk" "ns_width s = ROW_BYTES" "chunk \<noteq> []"
    and "HEAD_W dvd length chunk" "VIEW_RECORD_BYTES \<le> slot_bytes"
  shows "build_chunk s slot_bytes chunk = Inr (concat (map (\<lambda>t. slot_of slot_bytes (tuple_record s t)) (chunks HEAD_W chunk)))"
proof -
  obtain m where m: "length chunk = m * HEAD_W" using assms(4) by (metis dvd_def mult.commute)
  have pos: "0 < HEAD_W" "0 < VIEW_RECORD_BYTES" by (simp_all add: HEAD_W_def VIEW_RECORD_BYTES_def ROW_BYTES_def)
  have t: "length (tuple_record s t) = VIEW_RECORD_BYTES" if "t \<in> set (chunks HEAD_W chunk)" for t
    using tuple_record_length [of s t] chunk_length [OF m pos(1) that] chunks_nonempty [OF that] assms(1,2)
    by (auto simp: VIEW_RECORD_BYTES_def list_all_iff)
  have "gather_pp s chunk = Inr (tuple_record s chunk)"
    unfolding tuple_record_def using assms(1,3) by (intro gather_pp_correct) (auto simp: list_all_iff)
  then have out: "gather_out s chunk (length chunk * ROW_BYTES) = Inr (tuple_record s chunk)"
    using tuple_record_length [OF assms(1)] assms(2) by (simp add: gather_out_def overlay_full)
  have recs: "chunks VIEW_RECORD_BYTES (tuple_record s chunk) = map (tuple_record s) (chunks HEAD_W chunk)"
    unfolding tuple_record_chunks [OF pos(1), of s chunk] using t by (intro chunks_concat pos) auto
  have "take (length chunk div HEAD_W) (map (tuple_record s) (chunks HEAD_W chunk)) = map (tuple_record s) (chunks HEAD_W chunk)"
    using length_chunks [OF m pos(1)] m pos(1) by simp
  moreover have "write_slots (replicate slot_bytes 0) (map (tuple_record s) (chunks HEAD_W chunk))
      = Inr (concat (map (slot_of slot_bytes) (map (tuple_record s) (chunks HEAD_W chunk))))"
    using write_slots_correct [of VIEW_RECORD_BYTES "map (tuple_record s) (chunks HEAD_W chunk)" "replicate slot_bytes 0"] t assms(5)
    by (simp add: list_all_iff)
  ultimately show ?thesis by (simp add: build_chunk_def out recs comp_def)
qed

text \<open>The keys a view can be built from: whole tuples of rows the store has, of the width of a PLE row.\<close>

definition keys_ok :: "native_store \<Rightarrow> nat list \<Rightarrow> bool" where
  "keys_ok s keys \<longleftrightarrow> list_all (\<lambda>k. store_valid s (int k)) keys \<and> ns_width s = ROW_BYTES \<and> HEAD_W dvd length keys"

lemma concat_map_concat: "concat (map (\<lambda>x. concat (f x)) xs) = concat (concat (map f xs))"
  by (induction xs) simp_all

lemma view_from_chunks_correct:
  assumes "keys_ok s (concat cs)" "list_all (\<lambda>c. c \<noteq> [] \<and> HEAD_W dvd length c) cs" "VIEW_RECORD_BYTES \<le> slot_bytes"
  shows "view_from_chunks s slot_bytes cs grans = Inr \<lparr>bv_file = concat (map (\<lambda>t. slot_of slot_bytes (tuple_record s t)) (chunks HEAD_W (concat cs))),
     bv_keys = map nat_digits (concat cs), bv_grans = grans, bv_slot_bytes = slot_bytes\<rparr>"
proof -
  let ?f = "\<lambda>t. slot_of slot_bytes (tuple_record s t)"
  have "rmapM (build_chunk s slot_bytes) cs = Inr (map (\<lambda>c. concat (map ?f (chunks HEAD_W c))) cs)"
    using assms by (intro rmapM_Inr build_chunk_correct) (auto simp: keys_ok_def list_all_iff)
  moreover have "concat (map (\<lambda>c. concat (map ?f (chunks HEAD_W c))) cs) = concat (map ?f (chunks HEAD_W (concat cs)))"
  proof -
    have "chunks HEAD_W (concat cs) = concat (map (chunks HEAD_W) cs)"
      using assms(2) by (intro chunks_concat_dvd) (auto simp: list_all_iff HEAD_W_def)
    then show ?thesis by (simp add: map_concat concat_map_concat comp_def)
  qed
  ultimately show ?thesis by (simp add: view_from_chunks_def)
qed

lemma build_view_correct:
  assumes "keys_ok s keys" "VIEW_RECORD_BYTES \<le> slot_bytes"
  shows "build_view_from_keys s keys slot_bytes = Inr \<lparr>bv_file = concat (map (\<lambda>t. slot_of slot_bytes (tuple_record s t)) (chunks HEAD_W keys)),
     bv_keys = map nat_digits keys, bv_grans = length keys div HEAD_W, bv_slot_bytes = slot_bytes\<rparr>"
proof -
  let ?cs = "chunks (CHUNK_G * HEAD_W) keys"
  have c: "concat ?cs = keys" by (rule concat_chunks) (simp add: CHUNK_G_def HEAD_W_def)
  have "list_all (\<lambda>c. c \<noteq> [] \<and> HEAD_W dvd length c) ?cs"
    using chunks_nonempty [of _ "CHUNK_G * HEAD_W" keys] chunks_dvd [of HEAD_W "CHUNK_G * HEAD_W" keys] assms(1)
    by (auto simp: list_all_iff keys_ok_def)
  then show ?thesis
    using view_from_chunks_correct [of s ?cs slot_bytes "length keys div HEAD_W"] assms c
    by (simp add: build_view_from_keys_def keys_ok_def)
qed

text \<open>Slot by slot, a reader of the view sees the records.\<close>

lemma built_reader_rows:
  assumes "keys_ok s keys" "build_view_from_keys s keys slot_bytes = Inr b" "VIEW_RECORD_BYTES \<le> slot_bytes"
    and "length keys \<le> 2 ^ 64" "j < length keys div HEAD_W"
  shows "view_valid (built_reader b) (int j) \<and> vw_slot_bytes (built_reader b) = slot_bytes
    \<and> view_row (built_reader b) (int j) = slot_of slot_bytes (tuple_record s (chunks HEAD_W keys ! j))"
proof -
  let ?slots = "map (\<lambda>t. slot_of slot_bytes (tuple_record s t)) (chunks HEAD_W keys)"
  have b: "bv_file b = concat ?slots" "bv_grans b = length keys div HEAD_W" "bv_slot_bytes b = slot_bytes"
    using build_view_correct [OF assms(1,3)] assms(2) by auto
  obtain m where m: "length keys = m * HEAD_W" using assms(1) unfolding keys_ok_def by (metis dvd_def mult.commute)
  have pos: "0 < HEAD_W" "0 < slot_bytes" using assms(3) by (auto simp: VIEW_RECORD_BYTES_def HEAD_W_def ROW_BYTES_def)
  have n: "length ?slots = m" "length keys div HEAD_W = m" using length_chunks [OF m pos(1)] m pos(1) by simp_all
  have w: "length x = slot_bytes" if "x \<in> set ?slots" for x
  proof -
    from that obtain t where t: "t \<in> set (chunks HEAD_W keys)" "x = slot_of slot_bytes (tuple_record s t)" by auto
    have "list_all (\<lambda>k. store_valid s (int k)) t"
      using chunks_nonempty [OF t(1)] assms(1) by (auto simp: keys_ok_def list_all_iff)
    then have "length (tuple_record s t) = VIEW_RECORD_BYTES"
      using tuple_record_length chunk_length [OF m pos(1) t(1)] assms(1) by (simp add: keys_ok_def VIEW_RECORD_BYTES_def)
    then show ?thesis using t(2) assms(3) by (simp add: slot_of_def)
  qed
  have len: "length (concat ?slots) = m * slot_bytes" using length_concat_const [of ?slots slot_bytes] w n(1) by simp
  have fields: "vw_file (built_reader b) = concat ?slots" "vw_slot_bytes (built_reader b) = slot_bytes" "vw_count (built_reader b) = m"
    using len b n(2) pos(2) by (simp_all add: built_reader_def view_open_def Let_def)
  have j: "j < m" using assms(5) n(2) by simp
  have "m \<le> length keys" using m pos(1) by simp
  then have "int j < 2 ^ 64" using j assms(4) by simp
  then have "view_valid (built_reader b) (int j)" using j len by (simp add: view_valid_def fields)
  moreover have "view_row (built_reader b) (int j) = ?slots ! j"
    using py_slice_concat [of j ?slots slot_bytes] w j n(1) by (simp add: view_row_def fields pread_def py_slice_def)
  ultimately show ?thesis using fields j n(1) by simp
qed

section \<open>Decimal lines\<close>

lemma digit_value_digit:
  assumes "is_digit c"
  shows "digit_value c = Some (int (digit_val c))" "c \<noteq> CHR ''_''" "\<not> is_space c" "c \<noteq> CHR ''-''" "c \<noteq> CHR ''+''"
proof -
  have i: "(of_char c :: int) = int (of_char c)" by (simp add: of_nat_of_char)
  show "digit_value c = Some (int (digit_val c))"
    using assms unfolding digit_value_def Let_def i by (simp add: is_digit_def digit_val_def of_nat_diff)
qed (use assms in \<open>auto simp: is_digit_def is_space_def\<close>)

lemma int_digits_digits:
  "list_all is_digit ds \<Longrightarrow> int_digits (int n) ds = Inr (int (foldl (\<lambda>n d. 10 * n + digit_val d) n ds))"
proof (induction "int n" ds arbitrary: n rule: int_digits.induct)
  case (2 c)
  then show ?case by (simp add: digit_value_digit)
next
  case (3 c c' cs)
  have c: "digit_value c = Some (int (digit_val c))" "c' \<noteq> CHR ''_''"
    using 3(3) by (simp_all add: digit_value_digit)
  have e: "int n * 10 + int (digit_val c) = int (10 * n + digit_val c)" by simp
  have "int_digits (int (10 * n + digit_val c)) (c' # cs)
      = Inr (int (foldl (\<lambda>n d. 10 * n + digit_val d) n (c # c' # cs)))"
    using 3(2) [OF c e] 3(3) by simp
  then show ?case unfolding e [symmetric] by (simp only: int_digits.simps c option.case if_False)
qed simp

lemma strip_digits: "ds \<noteq> [] \<Longrightarrow> list_all is_digit ds \<Longrightarrow> strip ds = ds"
proof -
  assume ds: "ds \<noteq> []" "list_all is_digit ds"
  have front: "dropWhile is_space xs = xs" if "xs \<noteq> []" "list_all is_digit xs" for xs
    using that by (cases xs) (simp_all add: digit_value_digit)
  show ?thesis using ds front [OF ds] front [of "rev ds"] by (simp add: strip_def)
qed

lemma nat_digits_all: "list_all is_digit (nat_digits n)" "nat_digits n \<noteq> []" "digits_val (nat_digits n) = n"
  using nat_digits_props [of n] by (simp_all add: list_all_iff)

lemma py_int_digits: "py_int (nat_digits n) = Inr (int n)"
proof -
  obtain c cs where d: "nat_digits n = c # cs" using nat_digits_all(2) by (cases "nat_digits n") auto
  have "int_digits 0 (nat_digits n) = Inr (int (digits_val (nat_digits n)))"
    using int_digits_digits [OF nat_digits_all(1), of 0 n] by (simp add: digits_val_def)
  then have "int_digits 0 (c # cs) = Inr (int n)" by (simp only: nat_digits_all d [symmetric])
  moreover have "strip (nat_digits n) = c # cs" using strip_digits [OF nat_digits_all(2,1), of n] d by simp
  moreover have "is_digit c" using nat_digits_all(1) [of n] by (simp add: d)
  ultimately show ?thesis by (simp add: py_int_def digit_value_digit)
qed

lemma parse_u64_digits:
  assumes "n < 2 ^ 64"
  shows "parse_u64 (nat_digits n) = Inr n"
proof -
  obtain c cs where d: "nat_digits n = c # cs" using nat_digits_all(2) by (cases "nat_digits n") auto
  then have "is_digit c" using nat_digits_all(1) [of n] by simp
  then have "(case nat_digits n of [] \<Rightarrow> [] | c # cs \<Rightarrow> if c = CHR ''+'' then cs else nat_digits n) = nat_digits n"
    by (simp add: d digit_value_digit)
  then show ?thesis using nat_digits_all [of n] assms by (simp add: parse_u64_def)
qed

lemma lines_stripped: "filter (\<lambda>l. l \<noteq> []) (map strip (map nat_digits ks)) = map nat_digits ks"
  using strip_digits nat_digits_all by (auto simp: filter_id_conv comp_def)

text \<open>Reading a keys file back, and its rows.\<close>

lemma read_keys_lines: "read_keys_file (map nat_digits ks) = Inr (map int ks)"
proof -
  have "rmapM py_int (map nat_digits ks) = Inr (map int ks)"
    by (induction ks) (simp_all add: py_int_digits)
  then show ?thesis unfolding read_keys_file_def lines_stripped .
qed

lemma keys_file_rows_lines:
  "HEAD_W dvd length ks \<Longrightarrow> keys_file_rows HEAD_W (map nat_digits ks) = Inr (map (map int) (chunks HEAD_W ks))"
  using read_keys_lines [of ks] by (auto simp: keys_file_rows_def read_keys_file_def chunks_map)

section \<open>A memory over the view\<close>

text \<open>The native view as the memory sees it, and the memory with the view and an index in place of the store.\<close>

definition native_view_obj :: "view \<Rightarrow> view_obj" where
  "native_view_obj w = \<lparr>vo_read_records = Some (read_records w), vo_read_record = read_record w, vo_slot_bytes = Inl TypeError\<rparr>"

definition over_view :: "memory \<Rightarrow> view \<Rightarrow> (int list \<Rightarrow> int res) \<Rightarrow> memory" where
  "over_view mem w look = mem\<lparr>pm_store := None, pm_view := Some (native_view_obj w),
     pm_slot_index := Some \<lparr>sx_lookup = look, sx_stats = None\<rparr>\<rparr>"

text \<open>A memory of the model's sixteen heads of one PLE row each over a native store.\<close>

definition store_i :: "native_store \<Rightarrow> memory \<Rightarrow> bool" where
  "store_i s mem \<longleftrightarrow> memory_ok mem \<and> (\<exists>so. pm_store mem = Some so \<and> so_fetch so = store_fetch s)
     \<and> pm_num_heads mem = int HEAD_W \<and> pm_head_dim mem = int ROW_BYTES"

definition view_tuples :: "nat list \<Rightarrow> int list list" where
  "view_tuples keys = map (map int) (chunks HEAD_W keys)"

lemma keys_tuples:
  assumes "keys_ok s keys" "t \<in> set (chunks HEAD_W keys)"
  shows "length t = HEAD_W" "list_all (\<lambda>k. store_valid s (int k)) t"
proof -
  obtain m where "length keys = m * HEAD_W" using assms(1) unfolding keys_ok_def by (metis dvd_def mult.commute)
  then show "length t = HEAD_W" using assms(2) chunk_length [of keys m HEAD_W t] by (simp add: HEAD_W_def)
  show "list_all (\<lambda>k. store_valid s (int k)) t"
    using assms chunks_nonempty [OF assms(2)] by (auto simp: keys_ok_def list_all_iff)
qed

lemma store_i_fetch:
  assumes "keys_ok s keys" "store_i s mem" "set rows \<subseteq> set (view_tuples keys)"
  shows "fetch_raw mem rows = Inr (concat (map (\<lambda>r. concat (map (store_row s) r)) rows))"
proof -
  obtain so where so: "pm_store mem = Some so" "so_fetch so = store_fetch s" using assms(2) by (auto simp: store_i_def)
  have "int (length r) = pm_num_heads mem \<and> list_all (store_valid s) r" if "r \<in> set rows" for r
  proof -
    from that assms(3) obtain t where "t \<in> set (chunks HEAD_W keys)" "r = map int t" by (auto simp: view_tuples_def)
    then show ?thesis using keys_tuples [OF assms(1)] assms(2) by (auto simp: store_i_def list_all_iff)
  qed
  then show ?thesis
    using assms(1,2) so by (intro native.fetch_raw_store) (auto simp: store_i_def keys_ok_def)
qed

lemma tuple_slot:
  assumes "keys_ok s keys" "t \<in> set (chunks HEAD_W keys)"
  shows "slot_of VIEW_RECORD_BYTES (tuple_record s t) = concat (map (store_row s) (map int t))"
  using tuple_record_length [OF keys_tuples(2) [OF assms]] keys_tuples(1) [OF assms] assms(1)
  by (simp add: slot_of_def keys_ok_def VIEW_RECORD_BYTES_def) (simp add: tuple_record_def comp_def)

text \<open>The entries of an index of the view: tuple and slot, in the order of the keys.\<close>

definition view_entries :: "nat list \<Rightarrow> (int list \<times> int) list" where
  "view_entries keys = zip (view_tuples keys) (map int [0..<length (view_tuples keys)])"

lemma view_entries_slots:
  assumes "keys_ok s keys" "build_view_from_keys s keys VIEW_RECORD_BYTES = Inr b" "length keys \<le> 2 ^ 64"
    and "(r, j) \<in> set (view_entries keys)"
  shows "view_valid (built_reader b) j \<and> view_row (built_reader b) j = concat (map (store_row s) r)"
proof -
  obtain m where m: "length keys = m * HEAD_W" using assms(1) unfolding keys_ok_def by (metis dvd_def mult.commute)
  have n: "length (chunks HEAD_W keys) = length keys div HEAD_W"
    using length_chunks [OF m] m by (simp add: HEAD_W_def)
  obtain i where i: "i < length keys div HEAD_W" "j = int i" "r = map int (chunks HEAD_W keys ! i)"
    using assms(4) n by (auto simp: view_entries_def view_tuples_def in_set_zip)
  then show ?thesis
    using built_reader_rows [OF assms(1,2) order_refl assms(3), of i] tuple_slot [OF assms(1), of "chunks HEAD_W keys ! i"] n
    by simp
qed

text \<open>Any index whose entries are those of the keys makes the two memories agree.\<close>

context slot_lookup
begin

lemma over_view_fetch:
  assumes "keys_ok s keys" "build_view_from_keys s keys VIEW_RECORD_BYTES = Inr b" "length keys \<le> 2 ^ 64"
    and "store_i s mem" "inv ix" "set (entries ix) = set (view_entries keys)" "set rows \<subseteq> set (view_tuples keys)"
  shows "fetch_raw (over_view mem (built_reader b) (\<lambda>r. fst (lookup ix r))) rows = fetch_raw mem rows"
proof -
  let ?mp = "over_view mem (built_reader b) (\<lambda>r. fst (lookup ix r))"
  have mp: "memory_ok ?mp" "pm_num_heads ?mp = int HEAD_W" "record_bytes ?mp = int VIEW_RECORD_BYTES"
    using assms(4) by (auto simp: over_view_def store_i_def memory_ok_def record_bytes_def VIEW_RECORD_BYTES_def)
  have fst_entries: "fst ` set (entries ix) = set (view_tuples keys)"
    unfolding assms(6) view_entries_def by (metis (no_types) list.set_map map_fst_zip length_map length_upt diff_zero)
  have "fetch_raw ?mp rows = Inr (concat (map (\<lambda>r. concat (map (store_row s) r)) rows))"
  proof (rule memory_view_fetch [OF assms(5) mp(1)])
    show "pm_view ?mp = Some (native_view_obj (built_reader b))"
      "pm_slot_index ?mp = Some \<lparr>sx_lookup = \<lambda>r. fst (lookup ix r), sx_stats = None\<rparr>" by (simp_all add: over_view_def)
    show "vo_read_records (native_view_obj (built_reader b)) = Some (read_records (built_reader b))"
      by (simp add: native_view_obj_def)
    show "int (vw_slot_bytes (built_reader b)) = record_bytes ?mp"
      using build_view_correct [OF assms(1) order_refl] assms(2) mp(3) by (auto simp: built_reader_def view_open_def Let_def)
  next
    fix r assume "r \<in> set rows"
    then have "r \<in> set (view_tuples keys)" using assms(7) by blast
    moreover from this have "length r = HEAD_W" using keys_tuples(1) [OF assms(1)] by (auto simp: view_tuples_def)
    ultimately show "int (length r) = pm_num_heads ?mp \<and> r \<in> fst ` set (entries ix)" using fst_entries mp(2) by simp
  next
    fix r j assume "(r, j) \<in> set (entries ix)"
    then show "view_valid (built_reader b) j \<and> view_row (built_reader b) j = concat (map (store_row s) r)"
      using view_entries_slots [OF assms(1-3)] assms(6) by simp
  qed
  then show ?thesis using store_i_fetch [OF assms(1,4,7)] by simp
qed

end

text \<open>The keys file gives both indexes these entries.\<close>

lemma view_tuples_chunks: "chunks HEAD_W (map int keys) = view_tuples keys"
  by (simp add: view_tuples_def chunks_map)

lemma keys_file_index:
  assumes "numpy_laws le N" "keys_ok s keys" "list_all (\<lambda>k. int k < 2 ^ 63) keys" "length keys < 2 ^ 63"
    and "files p = Some (map nat_digits keys)"
  shows "\<exists>ix. from_keys_file N files p HEAD_W None = Inr ix \<and> slot_index_inv le N ix \<and> si_entries ix = view_entries keys"
proof -
  let ?m = "\<lparr>mx_cols = HEAD_W, mx_rows = view_tuples keys\<rparr>"
  have typed: "list_all is_int64 r \<and> length r = HEAD_W" if "r \<in> set (view_tuples keys)" for r
  proof -
    from that obtain t where t: "t \<in> set (chunks HEAD_W keys)" "r = map int t" by (auto simp: view_tuples_def)
    then show ?thesis
      using keys_tuples(1) [OF assms(2) t(1)] chunks_nonempty [OF t(1)] assms(3) by (auto simp: list_all_iff is_int64_def)
  qed
  have "rmapM as_int64 (view_tuples keys) = Inr (map id (view_tuples keys))"
    using typed by (intro rmapM_Inr) (simp add: as_int64_def)
  moreover have "length (view_tuples keys) < 2 ^ 63"
  proof -
    obtain m where "length keys = m * HEAD_W" using assms(2) unfolding keys_ok_def by (metis dvd_def mult.commute)
    then show ?thesis using length_chunks [of keys m HEAD_W] assms(4) by (simp add: view_tuples_def HEAD_W_def)
  qed
  then have "as_int64 (map int [0..<length (view_tuples keys)]) = Inr (map int [0..<length (view_tuples keys)])"
    by (auto simp: as_int64_def list_all_iff is_int64_def)
  ultimately obtain ix where ix: "slot_index_init N ?m None (Some (int HEAD_W)) = Inr ix"
    using typed by (cases "rebuild_sorted N (view_tuples keys) (map int [0..<length (view_tuples keys)])")
      (simp add: slot_index_init_def as_int64_matrix_def list_all_iff HEAD_W_def)
  have "from_keys_file N files p HEAD_W None = Inr ix"
    using assms(2,5) ix by (simp add: from_keys_file_def read_keys_lines from_rowids_def view_tuples_chunks [unfolded HEAD_W_def] HEAD_W_def keys_ok_def)
  then show ?thesis
    using slot_index_init_inv [OF assms(1) ix] by (auto simp: si_entries_def view_entries_def)
qed

lemma keys_file_disk_index:
  assumes "keys_ok s keys" "list_all (\<lambda>k. int k < 2 ^ 63) keys" "length keys < 2 ^ 56"
    and "0 < nb" "hash \<in> {''blake2b'', ''fnv1a-64''}" "dd_buckets dir = (\<lambda>_. None)"
  shows "\<exists>dir' ix. build_from_keys_file blake dir (Some (map nat_digits keys)) (int HEAD_W) nb cache hash single = Inr (dir', ix)
    \<and> disk_inv blake ix \<and> set (disk_entries ix) = set (view_entries keys)"
proof -
  let ?rows = "view_tuples keys"
  have ok: "row_ok r" if "r \<in> set ?rows" for r
  proof -
    from that obtain t where t: "t \<in> set (chunks HEAD_W keys)" "r = map int t" by (auto simp: view_tuples_def)
    then show ?thesis
      using keys_tuples(1) [OF assms(1) t(1)] chunks_nonempty [OF t(1)] assms(2)
      by (force simp: list_all_iff row_ok_def HEAD_W_def)
  qed
  obtain m where m: "length keys = m * HEAD_W" using assms(1) unfolding keys_ok_def by (metis dvd_def mult.commute)
  then have n: "length ?rows = m" "m * 16 < 2 ^ 56"
    using length_chunks [of keys m HEAD_W] assms(3) by (simp_all add: view_tuples_def HEAD_W_def)
  have input: "build_input_ok nb hash ?rows None"
    using assms(4,5) ok n by (auto simp: build_input_ok_def row_slots_from_def slot_ok_def list_all_iff)
  obtain dir' ix where b: "disk_index_build blake dir ?rows 16 nb cache None hash single = Inr (dir', ix)" "disk_inv blake ix"
      "\<And>r. row_ok r \<Longrightarrow> mset (row_slots blake ix r) = mset (slots_given ?rows None r)"
    by (rule build_index [OF input assms(6), of blake cache single]) blast
  have "(r, j) \<in> set (disk_entries ix) \<longleftrightarrow> (r, j) \<in> set (view_entries keys)" for r j
  proof (cases "row_ok r")
    case True
    have "j \<in> set (row_slots blake ix r) \<longleftrightarrow> j \<in> set (slots_given ?rows None r)"
      using b(3) [OF True] by (metis set_mset_mset)
    then show ?thesis
      using row_slots_entries [OF b(2) True, of j] by (force simp: slots_given_def row_slots_from_def view_entries_def)
  next
    case False
    then show ?thesis using disk_entries_ok [OF b(2), of r j] ok by (auto simp: view_entries_def dest: set_zip_leftD)
  qed
  moreover have "build_from_keys_file blake dir (Some (map nat_digits keys)) (int HEAD_W) nb cache hash single = Inr (dir', ix)"
    using keys_file_rows_lines [of keys] assms(1,5) b(1)
    by (auto simp: build_from_keys_file_def keys_ok_def view_tuples_def HEAD_W_def)
  ultimately show ?thesis using b(2) by auto
qed

section \<open>The streaming build\<close>

text \<open>After reading keys, the full chunks are built and the rest waits.\<close>

definition streamed :: "native_store \<Rightarrow> nat \<Rightarrow> nat \<Rightarrow> nat list \<Rightarrow> stream_build \<Rightarrow> bool" where
  "streamed s slot_bytes n keys st \<longleftrightarrow>
     concat (sb_done st) @ sb_chunk st = keys \<and> length (sb_chunk st) < n
     \<and> list_all (\<lambda>c. length c = n) (sb_done st)
     \<and> rmapM (build_chunk s slot_bytes) (sb_done st) = Inr (sb_out st)"

lemma keys_file_loop_streams:
  assumes "streamed s slot_bytes n keys st" "list_all (\<lambda>k. k < 2 ^ 64) ks"
    and "\<And>c. set c \<subseteq> set (keys @ ks) \<Longrightarrow> length c = n \<Longrightarrow> \<exists>bs. build_chunk s slot_bytes c = Inr bs"
  shows "\<exists>st'. keys_file_loop s slot_bytes n (map nat_digits ks) st = Inr st' \<and> streamed s slot_bytes n (keys @ ks) st'"
  using assms
proof (induction ks arbitrary: keys st)
  case (Cons k ks)
  let ?st = "st\<lparr>sb_chunk := sb_chunk st @ [k]\<rparr>"
  have t: "strip (nat_digits k) = nat_digits k" "nat_digits k \<noteq> []" "parse_u64 (nat_digits k) = Inr k"
    using strip_digits nat_digits_all parse_u64_digits Cons.prems(2) by auto
  have keys: "concat (sb_done st) @ sb_chunk st @ [k] = keys @ [k]" "length (sb_chunk st) < n"
    using Cons.prems(1) by (auto simp: streamed_def)
  show ?case
  proof (cases "length (sb_chunk ?st) = n")
    case False
    then have "streamed s slot_bytes n (keys @ [k]) ?st"
      using Cons.prems(1) keys by (simp add: streamed_def)
    from Cons.IH [OF this] Cons.prems(2,3) show ?thesis using t False by (simp add: Let_def)
  next
    case True
    have "set (sb_chunk ?st) \<subseteq> set (keys @ k # ks)" using keys(1) by (auto simp: streamed_def dest: arg_cong [where f = set])
    then obtain bs where bs: "build_chunk s slot_bytes (sb_chunk ?st) = Inr bs" using Cons.prems(3) True by blast
    let ?fl = "\<lparr>sb_chunk = [], sb_done = sb_done st @ [sb_chunk ?st], sb_out = sb_out st @ [bs]\<rparr>"
    have "streamed s slot_bytes n (keys @ [k]) ?fl"
      using Cons.prems(1) keys True bs by (auto simp: streamed_def rmapM_append)
    from Cons.IH [OF this] Cons.prems(2,3) show ?thesis using t True bs by (simp add: Let_def flush_chunk_def)
  qed
qed simp

lemma chunks_of_equal:
  "0 < n \<Longrightarrow> list_all (\<lambda>c. length c = n) cs \<Longrightarrow> length r < n \<Longrightarrow> chunks n (concat cs @ r) = cs @ (if r = [] then [] else [r])"
  by (induction cs) (simp_all add: chunks_append chunks.simps [of n r])

text \<open>Building from a keys file chunk by chunk is building from the list of its keys.\<close>

lemma stream_build_correct:
  assumes "keys_ok s keys" "keys \<noteq> []" "VIEW_RECORD_BYTES \<le> slot_bytes"
  shows "build_view_from_keys_file s (map nat_digits keys) slot_bytes = build_view_from_keys s keys slot_bytes"
proof -
  let ?n = "CHUNK_G * HEAD_W" and ?init = "\<lparr>sb_chunk = [], sb_done = [], sb_out = []\<rparr>"
  have pos: "0 < ?n" "HEAD_W dvd ?n" by (simp_all add: CHUNK_G_def HEAD_W_def)
  have init: "streamed s slot_bytes ?n [] ?init" using pos by (simp add: streamed_def)
  have u64: "list_all (\<lambda>k. k < 2 ^ 64) keys" using assms(1) by (auto simp: keys_ok_def list_all_iff store_valid_def)
  have build: "\<exists>bs. build_chunk s slot_bytes c = Inr bs" if "set c \<subseteq> set keys" "c \<noteq> []" "HEAD_W dvd length c" for c
    using build_chunk_correct [of s c slot_bytes] assms that by (auto simp: keys_ok_def list_all_iff)
  obtain st where st: "keys_file_loop s slot_bytes ?n (map nat_digits keys) ?init = Inr st" "streamed s slot_bytes ?n keys st"
    using keys_file_loop_streams [OF init u64] build pos by (metis append_Nil length_greater_0_conv)
  note st2 = st(2) [unfolded streamed_def]
  have dvd: "HEAD_W dvd length (concat (sb_done st))"
    using st2 pos(2) length_concat_const [of "sb_done st" ?n] by (auto simp: list_all_iff)
  moreover have len: "length (concat (sb_done st)) + length (sb_chunk st) = length keys" using st2 by (metis length_append)
  ultimately have last: "HEAD_W dvd length (sb_chunk st)"
    using assms(1) by (metis keys_ok_def dvd_add_right_iff)
  have chunks: "chunks ?n keys = sb_done st @ (if sb_chunk st = [] then [] else [sb_chunk st])"
    using chunks_of_equal [OF pos(1), of "sb_done st" "sb_chunk st"] st2 by metis
  have head: "HEAD_W dvd length keys" using assms(1) by (simp add: keys_ok_def)
  show ?thesis
  proof (cases "sb_chunk st = []")
    case True
    then have "concat (sb_done st) = keys" using st2 by simp
    then show ?thesis
      using True st(1) st2 chunks head assms(2)
      by (simp add: build_view_from_keys_file_def build_view_from_keys_def view_from_chunks_def Let_def del: concat_eq_Nil_conv)
  next
    case False
    obtain bs where bs: "build_chunk s slot_bytes (sb_chunk st) = Inr bs"
      using build [of "sb_chunk st"] False last st2 by (metis le_sup_iff set_append subset_refl)
    have "concat (sb_done st @ [sb_chunk st]) = keys" using st2 by simp
    then show ?thesis
      using False st(1) st2 chunks head assms(2) bs last
      by (simp add: build_view_from_keys_file_def build_view_from_keys_def view_from_chunks_def Let_def flush_chunk_def
          rmapM_append)
  qed
qed

section \<open>A small view\<close>

text \<open>One row of the full width, used by all sixteen heads of the one tuple.\<close>

definition demo_wide_store :: native_store where
  "demo_wide_store = \<lparr>ns_files = [replicate 160 7], ns_rows_per_shard = 1, ns_width = 160\<rparr>"

definition demo_wide_memory :: memory where
  "demo_wide_memory = \<lparr>pm_store = Some \<lparr>so_fetch = store_fetch demo_wide_store, so_width = Some 160\<rparr>,
     pm_view = None, pm_slot_index = None, pm_num_heads = 16, pm_head_dim = 160, pm_ngram_size = 3,
     pm_heads_per_ngram = 8, pm_eos = 0, pm_multipliers = [1, 1, 1], pm_scale = 1, pm_divisor = PLE_DIVISOR,
     pm_sequential_view = False, pm_start_slot = 0, pm_prime_sizes = replicate 16 2, pm_offsets = replicate 16 0\<rparr>"

lemma demo_wide:
  "keys_ok demo_wide_store (replicate 16 0)" "store_i demo_wide_store demo_wide_memory"
  by (simp_all add: list_all_iff keys_ok_def demo_wide_store_def store_valid_def total_rows_def ROW_BYTES_def HEAD_W_def store_i_def
      demo_wide_memory_def memory_ok_def)

section \<open>Properties\<close>

text \<open>
  C15: a view built from the keys of a store replaces the store: the build succeeds, the keys file it
  writes gives an in-memory index, and a memory reading the view through that index returns, for any
  indexed row tuples in any order, the bytes a memory reading the store returns.
\<close>

theorem view_replaces_store:
  assumes "numpy_laws le N" "keys_ok s keys" "list_all (\<lambda>k. int k < 2 ^ 63) keys" "length keys < 2 ^ 63" "store_i s mem"
  shows "\<exists>b ix. build_view_from_keys s keys VIEW_RECORD_BYTES = Inr b
    \<and> from_keys_file N (\<lambda>q. if q = p then Some (bv_keys b) else files q) p HEAD_W None = Inr ix
    \<and> (\<forall>rows. fetch_raw (over_view mem (built_reader b) (lookup N ix)) (filter (\<lambda>r. r \<in> set (view_tuples keys)) rows)
        = fetch_raw mem (filter (\<lambda>r. r \<in> set (view_tuples keys)) rows))"
proof -
  obtain b where b: "build_view_from_keys s keys VIEW_RECORD_BYTES = Inr b" "bv_keys b = map nat_digits keys"
    using build_view_correct [OF assms(2) order_refl] by simp
  obtain ix where ix: "from_keys_file N (\<lambda>q. if q = p then Some (bv_keys b) else files q) p HEAD_W None = Inr ix"
      "slot_index_inv le N ix" "si_entries ix = view_entries keys"
    using keys_file_index [OF assms(1-4), of "\<lambda>q. if q = p then Some (bv_keys b) else files q" p] b(2) by auto
  have "fetch_raw (over_view mem (built_reader b) (\<lambda>r. fst (lookup N ix r, ix))) (filter (\<lambda>r. r \<in> set (view_tuples keys)) rows)
      = fetch_raw mem (filter (\<lambda>r. r \<in> set (view_tuples keys)) rows)" for rows
    by (rule si.over_view_fetch [OF assms(2) b(1) _ assms(5) ix(2)]) (use ix(3) assms(4) in auto)
  with b ix show ?thesis unfolding fst_conv by blast
qed

theorem view_replaces_store_witness:
  "\<exists>b ix. build_view_from_keys demo_wide_store (replicate 16 0) VIEW_RECORD_BYTES = Inr b
    \<and> from_keys_file list_numpy (\<lambda>q. if q = ''k'' then Some (bv_keys b) else None) ''k'' HEAD_W None = Inr ix
    \<and> (\<forall>rows. fetch_raw (over_view demo_wide_memory (built_reader b) (lookup list_numpy ix)) (filter (\<lambda>r. r \<in> set (view_tuples (replicate 16 0))) rows)
        = fetch_raw demo_wide_memory (filter (\<lambda>r. r \<in> set (view_tuples (replicate 16 0))) rows))"
  by (rule view_replaces_store [OF list_numpy_laws demo_wide(1) _ _ demo_wide(2)]) (simp_all add: list_all_iff)

text \<open>
  The same through the index on disk, for every bucket count, hash and file layout.
\<close>

theorem disk_view_replaces_store:
  assumes "keys_ok s keys" "list_all (\<lambda>k. int k < 2 ^ 63) keys" "length keys < 2 ^ 56" "store_i s mem"
    and "0 < nb" "hash \<in> {''blake2b'', ''fnv1a-64''}" "dd_buckets dir = (\<lambda>_. None)"
  shows "\<exists>b dir' ix. build_view_from_keys s keys VIEW_RECORD_BYTES = Inr b
    \<and> build_from_keys_file blake dir (Some (bv_keys b)) (int HEAD_W) nb cache hash single = Inr (dir', ix)
    \<and> (\<forall>rows. fetch_raw (over_view mem (built_reader b) (\<lambda>r. fst (disk_lookup blake ix r))) (filter (\<lambda>r. r \<in> set (view_tuples keys)) rows)
        = fetch_raw mem (filter (\<lambda>r. r \<in> set (view_tuples keys)) rows))"
proof -
  obtain b where b: "build_view_from_keys s keys VIEW_RECORD_BYTES = Inr b" "bv_keys b = map nat_digits keys"
    using build_view_correct [OF assms(1) order_refl] by simp
  obtain dir' ix where ix: "build_from_keys_file blake dir (Some (bv_keys b)) (int HEAD_W) nb cache hash single = Inr (dir', ix)"
      "disk_inv blake ix" "set (disk_entries ix) = set (view_entries keys)"
    using keys_file_disk_index [OF assms(1-3,5-7), of blake cache single] b(2) by auto
  have "fetch_raw (over_view mem (built_reader b) (\<lambda>r. fst (disk_lookup blake ix r))) (filter (\<lambda>r. r \<in> set (view_tuples keys)) rows)
      = fetch_raw mem (filter (\<lambda>r. r \<in> set (view_tuples keys)) rows)" for rows
    using assms(3) by (intro disk.over_view_fetch [OF assms(1) b(1) _ assms(4) ix(2,3)]) auto
  with b(1) ix(1) show ?thesis by blast
qed

theorem disk_view_replaces_store_witness:
  "\<exists>b dir' ix. build_view_from_keys demo_wide_store (replicate 16 0) VIEW_RECORD_BYTES = Inr b
    \<and> build_from_keys_file (\<lambda>k. []) empty_dir (Some (bv_keys b)) (int HEAD_W) 4 2 ''fnv1a-64'' True = Inr (dir', ix)
    \<and> (\<forall>rows. fetch_raw (over_view demo_wide_memory (built_reader b) (\<lambda>r. fst (disk_lookup (\<lambda>k. []) ix r))) (filter (\<lambda>r. r \<in> set (view_tuples (replicate 16 0))) rows)
        = fetch_raw demo_wide_memory (filter (\<lambda>r. r \<in> set (view_tuples (replicate 16 0))) rows))"
  by (rule disk_view_replaces_store [OF demo_wide(1) _ _ demo_wide(2)]) (simp_all add: empty_dir_def list_all_iff)

end
