(* ===== verification/ViewKeys.thy ===== *)
theory ViewKeys
  imports ViewBuild
begin

text \<open>
  The random build of \<open>crates/engramdb-io/src/view.rs\<close> (\<open>build_view\<close>): a 64-bit linear congruential generator gives three
  tokens for every gram, of which the sixteen rows of the first are gathered; and
  \<open>scripts/gen_view_keys.py\<close>, which regenerates the keys with unbounded integers and a mask.
  The lemmas show that both give the same keys from any position on.
\<close>

section \<open>The native stream\<close>

definition LCG_SEED :: u64 where "LCG_SEED = 0xDEADBEEF12345678"
definition LCG_VOCAB :: u64 where "LCG_VOCAB = 248320"

definition lcg :: "u64 \<Rightarrow> u64" where
  "lcg st = st * 6364136223846793005 + 1442695040888963407"

text \<open>\<open>spec.rowids_for_seq\<close> and the rows of the first of the three tokens.\<close>

definition native_rowids_cold :: "ple_spec \<Rightarrow> u32 list \<Rightarrow> u32 list list" where
  "native_rowids_cold spec tokens = native_rowids spec (replicate (PLE_NGRAM_SIZE - 1) (sp_eos spec)) tokens"

definition random_gram :: "u64 \<Rightarrow> nat list \<times> u64" where
  "random_gram st =
     (let a = lcg st; b = lcg a; c = lcg b;
          ids = native_rowids_cold real_spec (map (\<lambda>x. ucast (x mod LCG_VOCAB)) [a, b, c])
      in (map unat (ids ! 0), c))"

fun random_grams :: "nat \<Rightarrow> u64 \<Rightarrow> nat list list \<times> u64" where
  "random_grams 0 st = ([], st)"
| "random_grams (Suc m) st =
     (case random_gram st of (g, st) \<Rightarrow> (case random_grams m st of (gs, st) \<Rightarrow> (g # gs, st)))"

text \<open>The loop over the chunks, and the build.\<close>

function random_chunks :: "nat \<Rightarrow> u64 \<Rightarrow> nat list list" where
  "random_chunks n st =
     (if n = 0 then []
      else let m = min CHUNK_G n
           in case random_grams m st of (gs, st) \<Rightarrow> concat gs # random_chunks (n - m) st)"
  by pat_completeness auto
termination
  by (relation "measure fst") (auto simp: CHUNK_G_def)

declare random_chunks.simps [simp del]

definition build_view :: "native_store \<Rightarrow> nat \<Rightarrow> nat \<Rightarrow> built_view res" where
  "build_view s n slot_bytes = view_from_chunks s slot_bytes (random_chunks n LCG_SEED) n"

section \<open>The script\<close>

definition MASK64 :: int where "MASK64 = 2 ^ 64 - 1"
definition GEN_MULT :: int where "GEN_MULT = 6364136223846793005"
definition GEN_INC :: int where "GEN_INC = 1442695040888963407"
definition GEN_SEED :: int where "GEN_SEED = 0xDEADBEEF12345678"
definition GEN_VOCAB :: int where "GEN_VOCAB = 248320"

definition gen_next :: "int \<Rightarrow> int" where
  "gen_next state = (state * GEN_MULT + GEN_INC) AND MASK64"

fun gen_lines :: "nat \<Rightarrow> int \<Rightarrow> string list res" where
  "gen_lines 0 state = Inr []"
| "gen_lines (Suc grams) state =
     (let a = gen_next state; b = gen_next a; c = gen_next b;
          primes = head_vocab_sizes PLE_BASE PLE_HEADS; offsets = head_offsets (Some primes)
      in rbind (ple_rowids [a mod GEN_VOCAB, b mod GEN_VOCAB, c mod GEN_VOCAB] DEFAULT_MULTIPLIERS PLE_EOS
           (Some primes) (Some offsets) PLE_NGRAM_SIZE PLE_HEADS_PER_NGRAM None) (\<lambda>rows.
         rbind (py_nth rows 0) (\<lambda>r. rmap (\<lambda>lines. map int_str r @ lines) (gen_lines grams c))))"

definition gen_view_keys :: "nat \<Rightarrow> nat \<Rightarrow> string list res" where
  "gen_view_keys start grams =
     (let state = fold (\<lambda>_ state. fold (\<lambda>_ state. gen_next state) [0..<3] state) [0..<start] GEN_SEED
      in gen_lines grams state)"

section \<open>Both streams agree\<close>

lemma gen_next_word: "gen_next (uint st) = uint (lcg st)"
proof -
  have "gen_next (uint st) = take_bit 64 (uint st * GEN_MULT + GEN_INC)"
    unfolding gen_next_def MASK64_def by (simp add: take_bit_eq_mask mask_eq_exp_minus_1)
  also have "\<dots> = uint (lcg st)"
    by (simp add: lcg_def GEN_MULT_def GEN_INC_def uint_word_ariths take_bit_eq_mod mod_simps)
  finally show ?thesis .
qed

lemma native_cold_rows:
  assumes "list_all (\<lambda>x. 0 \<le> x \<and> x < native_token_limit) tokens"
  shows "ple_rowids tokens DEFAULT_MULTIPLIERS PLE_EOS (Some (head_vocab_sizes PLE_BASE PLE_HEADS))
      (Some (head_offsets (Some (head_vocab_sizes PLE_BASE PLE_HEADS)))) PLE_NGRAM_SIZE PLE_HEADS_PER_NGRAM None
    = Inr (map (map uint) (native_rowids_cold real_spec (map word_of_int tokens)))"
proof -
  have lim: "\<forall>x \<in> set ([PLE_EOS, PLE_EOS] @ tokens). 0 \<le> x \<and> x < native_token_limit"
    using assms by (auto simp: list_all_iff PLE_EOS_def native_token_limit_def)
  have small: "\<forall>x \<in> set [PLE_EOS, PLE_EOS]. 0 \<le> x \<and> x < 2 ^ 32" "\<forall>x \<in> set tokens. 0 \<le> x \<and> x < 2 ^ 32"
    using lim by (auto simp: native_token_limit_def PLE_EOS_def)
  have eos: "sp_eos real_spec = word_of_int PLE_EOS" by (simp add: real_spec_def spec_of_def)
  have two: "replicate (PLE_NGRAM_SIZE - 1) x = [x, x]" for x :: u32 by (simp add: PLE_NGRAM_SIZE_def numeral_eq_Suc)
  have "native_rowids_for_seq [PLE_EOS, PLE_EOS] tokens 1
      = Inr (map (map uint) (native_rowids_cold real_spec (map word_of_int tokens)))"
    unfolding native_rowids_for_seq_def rmapM_to_u32 [OF small(1)] rmapM_to_u32 [OF small(2)] native_rowids_cold_def eos two list.map
    by (simp only: rbind_simps refl if_False not_True_eq_False)
  then show ?thesis
    unfolding ple_rowids_defaults [symmetric] using native_rowids_for_seq_reference [OF lim]
    by (simp add: ple_rowids_def)
qed

lemma length_native_rowids: "length (native_rowids_cold real_spec tokens) = length tokens"
  by (simp add: native_rowids_cold_def native_rowids_def)

lemma length_native_position_row: "length (native_position_row spec shifted pos) = HEAD_W"
proof -
  have "length (concat (map (\<lambda>n. map (f n) [0..<PLE_HEADS_PER_NGRAM]) [2, 3])) = HEAD_W" for f :: "nat \<Rightarrow> nat \<Rightarrow> u32"
    by (simp only: length_concat list.map length_map length_upt sum_list.Cons sum_list.Nil) (simp add: PLE_HEADS_PER_NGRAM_def HEAD_W_def)
  then show ?thesis unfolding native_position_row_def Let_def .
qed

lemma length_in_native_rowids: "r \<in> set (native_rowids spec history tokens) \<Longrightarrow> length r = HEAD_W"
  unfolding native_rowids_def Let_def by (drule in_set_dropD) (auto simp only: set_map length_native_position_row)

lemma length_native_row:
  assumes "i < length tokens"
  shows "length (native_rowids_cold real_spec tokens ! i) = HEAD_W"
proof -
  have "native_rowids_cold real_spec tokens ! i \<in> set (native_rowids_cold real_spec tokens)"
    by (rule nth_mem) (simp only: length_native_rowids assms)
  then show ?thesis unfolding native_rowids_cold_def by (rule length_in_native_rowids)
qed

lemma int_str_uint: "int_str (uint w) = nat_digits (unat w)"
  by (simp add: int_str_def)

text \<open>One gram.\<close>

lemma gen_lines_step:
  "random_gram st = (g, st') \<Longrightarrow> length g = HEAD_W
    \<and> gen_lines (Suc grams) (uint st) = rmap (\<lambda>lines. map nat_digits g @ lines) (gen_lines grams (uint st'))"
proof -
  assume g: "random_gram st = (g, st')"
  define tokens where "tokens = map (\<lambda>x. uint x mod GEN_VOCAB) [lcg st, lcg (lcg st), lcg (lcg (lcg st))]"
  define rows where "rows = native_rowids_cold real_spec (map word_of_int tokens)"
  have small: "list_all (\<lambda>x. 0 \<le> x \<and> x < native_token_limit) tokens"
    by (auto simp: tokens_def GEN_VOCAB_def native_token_limit_def intro: less_trans [OF pos_mod_bound])
  have residue: "ucast (x mod LCG_VOCAB) = (word_of_int (uint x mod GEN_VOCAB) :: u32)" for x :: u64
    by (simp add: ucast_eq LCG_VOCAB_def GEN_VOCAB_def uint_mod)
  have words: "map (\<lambda>x. ucast (x mod LCG_VOCAB)) [lcg st, lcg (lcg st), lcg (lcg (lcg st))] = (map word_of_int tokens :: u32 list)"
    unfolding tokens_def list.map by (simp only: residue)
  have g': "g = map unat (rows ! 0)" "st' = lcg (lcg (lcg st))"
    using g unfolding random_gram_def Let_def words rows_def by simp_all
  have len: "length rows = 3" unfolding rows_def length_native_rowids by (simp add: tokens_def)
  have "length (rows ! 0) = HEAD_W" unfolding rows_def by (rule length_native_row) (simp add: tokens_def)
  moreover have "gen_lines (Suc grams) (uint st)
      = rmap (\<lambda>lines. map int_str (map uint (rows ! 0)) @ lines) (gen_lines grams (uint st'))"
    using native_cold_rows [OF small, folded rows_def] len
    by (simp add: Let_def gen_next_word g'(2) tokens_def)
  ultimately show ?thesis by (simp add: g' comp_def int_str_uint)
qed

lemma gen_lines_random:
  "gen_lines n (uint st) = Inr (map nat_digits (concat (fst (random_grams n st))))
    \<and> list_all (\<lambda>g. length g = HEAD_W) (fst (random_grams n st)) \<and> length (fst (random_grams n st)) = n"
proof (induction n arbitrary: st)
  case (Suc n)
  obtain g st' where g: "random_gram st = (g, st')" by (cases "random_gram st")
  obtain gs st'' where gs: "random_grams n st' = (gs, st'')" by (cases "random_grams n st'")
  show ?case using Suc [of st'] gen_lines_step [OF g, of n] by (simp add: g gs del: gen_lines.simps)
qed simp

text \<open>Skipping grams, and cutting the stream into chunks.\<close>

lemma random_grams_add:
  "random_grams (m + n) st = (case random_grams m st of (gs, st) \<Rightarrow> (case random_grams n st of (hs, st) \<Rightarrow> (gs @ hs, st)))"
  by (induction m arbitrary: st) (simp_all split: prod.splits)

lemma gen_skip:
  "fold (\<lambda>_ state. fold (\<lambda>_ state. gen_next state) [0..<3] state) [0..<start] (uint st) = uint (snd (random_grams start st))"
proof (induction start arbitrary: st)
  case (Suc start)
  have step: "fold (\<lambda>_ state. gen_next state) [0..<3] (uint st) = uint (snd (random_gram st))" for st
    by (simp add: upt_rec gen_next_word random_gram_def Let_def)
  have "snd (random_grams (start + 1) st) = snd (random_gram (snd (random_grams start st)))"
    unfolding random_grams_add by (simp split: prod.split)
  with Suc step show ?case by simp
qed simp

lemma random_chunks_concat: "concat (random_chunks n st) = concat (fst (random_grams n st))"
proof (induction n st rule: random_chunks.induct)
  case (1 n st)
  show ?case
  proof (cases "n = 0")
    case False
    obtain gs st' where gs: "random_grams (min CHUNK_G n) st = (gs, st')" by (cases "random_grams (min CHUNK_G n) st")
    have "random_grams (min CHUNK_G n + (n - min CHUNK_G n)) st
        = (case random_grams (n - min CHUNK_G n) st' of (hs, st) \<Rightarrow> (gs @ hs, st))"
      unfolding random_grams_add by (simp add: gs)
    with "1" [OF False refl gs [symmetric]] False gs show ?thesis
      by (subst random_chunks.simps) (simp split: prod.splits)
  qed (simp add: random_chunks.simps)
qed

section \<open>Properties\<close>

text \<open>
  The script regenerates the keys of a random view: from any start on, the lines it writes are the lines the
  native build of all the grams wrote, without the sixteen of every skipped gram, so that the 64-bit generator,
  the masked integers, the native hash and the Python hash agree.
\<close>

theorem regenerated_keys:
  "rbind (build_view s (start + grams) slot_bytes) (\<lambda>b. rmap (\<lambda>lines. lines = drop (HEAD_W * start) (bv_keys b)) (gen_view_keys start grams))
     = rmap (\<lambda>b. True) (build_view s (start + grams) slot_bytes)"
proof -
  obtain gs st where gs: "random_grams start LCG_SEED = (gs, st)" by (cases "random_grams start LCG_SEED")
  have seed: "uint LCG_SEED = GEN_SEED" by (simp add: LCG_SEED_def GEN_SEED_def)
  have gen: "gen_view_keys start grams = Inr (map nat_digits (concat (fst (random_grams grams st))))"
    using gen_skip [of start LCG_SEED] gs gen_lines_random [of grams st] by (simp add: gen_view_keys_def seed)
  have l: "list_all (\<lambda>g. length g = HEAD_W) gs" "length gs = start"
    using gen_lines_random [of start LCG_SEED] gs by simp_all
  then have len: "length (concat gs) = HEAD_W * start"
    using length_concat_const [of gs HEAD_W] by (simp add: list_all_iff mult.commute)
  have "concat (random_chunks (start + grams) LCG_SEED) = concat gs @ concat (fst (random_grams grams st))"
    unfolding random_chunks_concat random_grams_add by (simp add: gs split: prod.split)
  then have "drop (HEAD_W * start) (map nat_digits (concat (random_chunks (start + grams) LCG_SEED)))
      = map nat_digits (concat (fst (random_grams grams st)))"
    using len by simp
  then show ?thesis
    by (cases "rmapM (build_chunk s slot_bytes) (random_chunks (start + grams) LCG_SEED)")
      (simp_all add: build_view_def view_from_chunks_def gen)
qed

end
