(* ===== verification/RefHash.thy ===== *)
theory RefHash
  imports Keygen JsonValue PyPath
begin

text \<open>
  The reference script \<open>scripts/ref_ple_hash.py\<close>, which computes the row ids with NumPy's 64-bit integers, and
  \<open>scripts/gen_golden.py\<close>, which writes the golden file the native crate is tested against.
  An \<open>int64\<close> is a 64-bit word read with its sign: sums and products wrap, \<open>np.remainder\<close> takes the sign of the
  divisor.  The lemmas show where the script, the native hash and \<open>ple_math.py\<close> agree.
  An array of head sizes outside the \<open>int64\<close> range, which NumPy gives another type, is not modelled.
\<close>

section \<open>Primes\<close>

type_synonym s64 = "64 word"

definition REF_EOS :: int where "REF_EOS = 248044"
definition REF_NGRAM :: nat where "REF_NGRAM = 3"
definition REF_HEADS_PER :: nat where "REF_HEADS_PER = 8"
definition REF_HEADS :: nat where "REF_HEADS = 16"
definition REF_BASE :: int where "REF_BASE = 20000000"

text \<open>\<open>math.isqrt\<close>, and \<open>range(a, b, 2)\<close>.\<close>

function isqrt_from :: "int \<Rightarrow> int \<Rightarrow> int" where
  "isqrt_from r v = (if 0 \<le> r \<and> (r + 1) * (r + 1) \<le> v then isqrt_from (r + 1) v else r)"
  by pat_completeness auto
termination
proof (relation "measure (\<lambda>(r, v). nat (v - r))")
  fix r v :: int
  assume "0 \<le> r \<and> (r + 1) * (r + 1) \<le> v"
  moreover from this have "r + 1 \<le> (r + 1) * (r + 1)" by (simp add: mult_le_cancel_left1)
  ultimately have "r < v" by linarith
  then show "((r + 1, v), r, v) \<in> measure (\<lambda>(r, v). nat (v - r))" by simp
qed simp

declare isqrt_from.simps [simp del]

definition range2 :: "int \<Rightarrow> int \<Rightarrow> int list" where
  "range2 a b = map (\<lambda>i. a + 2 * int i) [0..<nat ((b - a + 1) div 2)]"

definition ref_is_prime :: "int \<Rightarrow> bool" where
  "ref_is_prime v =
     (if v < 2 then False else if v mod 2 = 0 then v = 2
      else list_all (\<lambda>d. v mod d \<noteq> 0) (range2 3 (isqrt_from 0 v + 1)))"

lemma isqrt_from_spec: "0 \<le> r \<Longrightarrow> r * r \<le> v \<Longrightarrow>
  r \<le> isqrt_from r v \<and> isqrt_from r v * isqrt_from r v \<le> v \<and> v < (isqrt_from r v + 1) * (isqrt_from r v + 1)"
proof (induction r v rule: isqrt_from.induct)
  case (1 r v)
  then show ?case by (cases "(r + 1) * (r + 1) \<le> v") (simp_all add: isqrt_from.simps [of r v])
qed

lemma in_range2: "x \<in> set (range2 a b) \<longleftrightarrow> (\<exists>k::nat. x = a + 2 * int k \<and> x < b)"
proof
  assume "x \<in> set (range2 a b)"
  then obtain k where k: "x = a + 2 * int k" "k < nat ((b - a + 1) div 2)" by (auto simp: range2_def)
  then have "int k < (b - a + 1) div 2" by linarith
  then have "a + 2 * int k < b" by linarith
  with k(1) show "\<exists>k::nat. x = a + 2 * int k \<and> x < b" by blast
next
  assume "\<exists>k::nat. x = a + 2 * int k \<and> x < b"
  then obtain k :: nat where k: "x = a + 2 * int k" "a + 2 * int k < b" by blast
  then have "int k < (b - a + 1) div 2" by linarith
  then have "k < nat ((b - a + 1) div 2)" by linarith
  with k(1) show "x \<in> set (range2 a b)" by (auto simp: range2_def)
qed

lemma ref_is_prime_eq: "ref_is_prime v = is_prime v"
proof (cases "v < 2 \<or> v mod 2 = 0")
  case False
  let ?r = "isqrt_from 0 v"
  have r: "0 \<le> ?r" "?r * ?r \<le> v" "v < (?r + 1) * (?r + 1)" using isqrt_from_spec [of 0 v] False by auto
  have sq: "x * x \<le> v \<longleftrightarrow> x < ?r + 1" if "0 \<le> x" for x
  proof
    assume x: "x * x \<le> v"
    show "x < ?r + 1"
    proof (rule ccontr)
      assume "\<not> x < ?r + 1"
      then have "(?r + 1) * (?r + 1) \<le> x * x" using r(1) by (intro mult_mono) auto
      with r(3) x show False by linarith
    qed
  next
    assume "x < ?r + 1"
    then have "x * x \<le> ?r * ?r" using that by (intro mult_mono) auto
    with r(2) show "x * x \<le> v" by linarith
  qed
  have "list_all (\<lambda>d. v mod d \<noteq> 0) (range2 3 (?r + 1)) \<longleftrightarrow> (\<forall>k::nat. 3 + 2 * int k < ?r + 1 \<longrightarrow> \<not> (3 + 2 * int k) dvd v)"
    by (auto simp: list_all_iff in_range2 dvd_eq_mod_eq_0)
  also have "\<dots> \<longleftrightarrow> trial_division v 3"
    using sq by (simp add: trial_division_iff)
  finally show ?thesis using False by (simp add: ref_is_prime_def is_prime_def)
qed (auto simp: ref_is_prime_def is_prime_def)

text \<open>\<open>p += 1; while not _is_prime(p): p += 1\<close>, and the sizes of the heads.\<close>

function ref_next_prime_from :: "int \<Rightarrow> int" where
  "ref_next_prime_from p = (if ref_is_prime p then p else ref_next_prime_from (p + 1))"
  by pat_completeness auto
termination
proof (relation "measure (\<lambda>p. nat (next_prime_from p - p))")
  fix p :: int
  assume "\<not> ref_is_prime p"
  then have "next_prime_from p = next_prime_from (p + 1)" "p + 1 \<le> next_prime_from (p + 1)"
    using next_prime_from_spec [of "p + 1"] by (simp_all add: ref_is_prime_eq next_prime_from.simps [of p])
  then show "(p + 1, p) \<in> measure (\<lambda>p. nat (next_prime_from p - p))" by simp
qed simp

declare ref_next_prime_from.simps [simp del]

fun ref_nth_prime_after :: "int \<Rightarrow> nat \<Rightarrow> int" where
  "ref_nth_prime_after p 0 = p"
| "ref_nth_prime_after p (Suc count) = ref_nth_prime_after (ref_next_prime_from (p + 1)) count"

definition ref_head_vocab_sizes :: "nat \<Rightarrow> int list" where
  "ref_head_vocab_sizes n = map (\<lambda>i. ref_nth_prime_after (REF_BASE - 1) (i + 1)) [0..<n]"

lemma ref_next_prime_from_eq: "ref_next_prime_from p = next_prime_from p"
proof (induction p rule: next_prime_from.induct)
  case (1 p)
  then show ?case by (simp add: ref_next_prime_from.simps [of p] next_prime_from.simps [of p] ref_is_prime_eq)
qed

lemma ref_nth_prime_after_eq: "ref_nth_prime_after p n = nth_prime_after p n"
  by (induction n arbitrary: p) (simp_all add: ref_next_prime_from_eq)

section \<open>Arrays\<close>

definition np_int64 :: "int \<Rightarrow> s64 res" where
  "np_int64 x = (if - (2 ^ 63) \<le> x \<and> x < 2 ^ 63 then Inr (word_of_int x) else Inl OverflowError)"

fun np_cumsum :: "s64 \<Rightarrow> s64 list \<Rightarrow> s64 list" where
  "np_cumsum acc [] = []"
| "np_cumsum acc (x # xs) = (acc + x) # np_cumsum (acc + x) xs"

fun np_max_accumulate :: "int \<Rightarrow> int list \<Rightarrow> int list" where
  "np_max_accumulate m [] = []"
| "np_max_accumulate m (x # xs) = max m x # np_max_accumulate (max m x) xs"

text \<open>\<open>np.remainder\<close>: the floored one, and zero (with a warning) for a zero divisor.\<close>

definition np_remainder :: "s64 \<Rightarrow> s64 \<Rightarrow> s64" where
  "np_remainder a b = (if b = 0 then 0 else word_of_int (sint a mod sint b))"

definition ref_shift :: "s64 list \<Rightarrow> nat \<Rightarrow> s64 list" where
  "ref_shift hist shift =
     (if shift = 0 then hist
      else let positions = map int [0..<length hist];
               eos_pos = map2 (\<lambda>x p. if x = word_of_int REF_EOS then p else -1) hist positions;
               prev_incl = (case eos_pos of [] \<Rightarrow> [] | x # xs \<Rightarrow> x # np_max_accumulate x xs);
               prev = -1 # butlast prev_incl;
               seg_start = map (\<lambda>x. x + 1) prev;
               pos_in_seg = map2 (-) positions seg_start;
               src_pos = map (\<lambda>p. p - int shift) positions;
               gather_pos = map (max 0) src_pos;
               shifted = map (\<lambda>p. hist ! nat p) gather_pos;
               valid = map2 (\<lambda>p s. int shift \<le> p \<and> 0 \<le> s) pos_in_seg src_pos
           in map2 (\<lambda>v x. if v then x else word_of_int REF_EOS) valid shifted)"

text \<open>One block: the hash of every position, and its row ids in the eight heads.\<close>

definition ref_mixed :: "s64 list list \<Rightarrow> s64 list \<Rightarrow> nat \<Rightarrow> s64 list res" where
  "ref_mixed shifted mult ngram =
     rbind (py_nth mult 0) (\<lambda>m0.
       rfoldM (\<lambda>pos mixed. rbind (py_nth mult pos) (\<lambda>m. Inr (map2 (\<lambda>a x. a XOR x * m) mixed (shifted ! pos))))
         [1..<ngram] (map (\<lambda>x. x * m0) (shifted ! 0)))"

definition ref_block :: "s64 list \<Rightarrow> s64 list \<Rightarrow> nat \<Rightarrow> s64 list \<Rightarrow> s64 list list" where
  "ref_block sizes offsets ngram mixed =
     map (\<lambda>m. map2 (\<lambda>size off. np_remainder m size + off)
       (py_slice (ngram - 2) REF_HEADS_PER sizes) (py_slice (ngram - 2) REF_HEADS_PER offsets)) mixed"

definition ref_ple_rowids :: "s64 list \<Rightarrow> int list \<Rightarrow> int list option \<Rightarrow> s64 list list res" where
  "ref_ple_rowids tokens multipliers prime_sizes =
     rbind (rmapM np_int64 (list_or prime_sizes (ref_head_vocab_sizes REF_HEADS))) (\<lambda>sizes.
     rbind (rmapM np_int64 multipliers) (\<lambda>mult.
       let offsets = np_cumsum 0 (0 # butlast sizes);
           ctx = [word_of_int REF_EOS, word_of_int REF_EOS] @ tokens;
           shifted = map (ref_shift ctx) [0..<REF_NGRAM]
       in rmap (\<lambda>blocks.
            let ids = map (\<lambda>i. concat (map (\<lambda>b. b ! i) blocks)) [0..<length ctx]
            in if length tokens = 0 then ids else last_n (length tokens) ids)
          (rmapM (\<lambda>ngram. rmap (ref_block sizes offsets ngram) (ref_mixed shifted mult ngram)) [2..<REF_NGRAM + 1])))"

section \<open>Multipliers and the golden file\<close>

text \<open>The argument of \<open>spec_from_weights\<close>: a dictionary or a path.\<close>

datatype weights = WDict json | WPath string

definition spec_candidates :: "string \<Rightarrow> string list" where
  "spec_candidates p =
     [py_path p, path_div p ''real-weights-spec.json'',
      path_div (path_div (path_parent p) ''docs'') ''real-weights-spec.json'', ''docs/real-weights-spec.json'']"

definition spec_from_weights :: "(string \<Rightarrow> string option) \<Rightarrow> weights \<Rightarrow> int list res" where
  "spec_from_weights files w =
     rbind (case w of WDict data \<Rightarrow> Inr data
            | WPath p \<Rightarrow> (case filter (\<lambda>c. files c \<noteq> None) (spec_candidates p) of
                [] \<Rightarrow> Inl FileNotFoundError
              | c # _ \<Rightarrow> loads (the (files c)))) (\<lambda>data.
     rbind (json_get data ''layer_multipliers_i64'') (\<lambda>mult.
       case mult of
         None \<Rightarrow> Inl AssertionError
       | Some m \<Rightarrow> if truthy m then rbind (json_iter m) (rmapM py_int) else Inl AssertionError))"

definition GOLDEN_TOKENS :: "int list" where
  "GOLDEN_TOKENS = [248044, 5, 1000, 99999, 42, 7, 248044, 1234, 8, 999999, 2048, 332, 248044, 77]"

record golden =
  gd_tokens :: "int list"
  gd_multipliers :: "int list"
  gd_prime_sizes :: "int list"
  gd_rowids :: "int list list"

definition gen_golden :: "(string \<Rightarrow> string option) \<Rightarrow> golden res" where
  "gen_golden files =
     rbind (spec_from_weights files (WPath ''data/qwen38-ple-fp8'')) (\<lambda>mult.
       let sizes = ref_head_vocab_sizes REF_HEADS
       in rbind (rmapM np_int64 GOLDEN_TOKENS) (\<lambda>tokens.
          rmap (\<lambda>rowids. \<lparr>gd_tokens = GOLDEN_TOKENS, gd_multipliers = mult, gd_prime_sizes = sizes,
              gd_rowids = map (map sint) rowids\<rparr>) (ref_ple_rowids tokens mult (Some sizes))))"

section \<open>The shift and the hash\<close>

lemma np_max_accumulate_prev:
  "-1 \<le> m \<Longrightarrow> m < int i \<Longrightarrow>
    np_max_accumulate m (map2 (\<lambda>x p. if x = e then p else -1) hist (map int [i..<i + length hist])) = prev_incl_loop e i m hist"
proof (induction hist arbitrary: i m)
  case (Cons x hist)
  have "[i..<i + length (x # hist)] = i # [Suc i..<Suc i + length hist]" by (simp add: upt_conv_Cons del: upt_Suc)
  with Cons.prems Cons.IH [of "if x = e then int i else m" "Suc i"] show ?case by (auto simp: max_def Let_def simp del: upt_Suc)
qed simp

lemma ref_prev_incl:
  "(case map2 (\<lambda>x p. if x = e then p else -1) hist (map int [0..<length hist]) of [] \<Rightarrow> [] | x # xs \<Rightarrow> x # np_max_accumulate x xs)
    = prev_incl_loop e 0 (-1) hist"
proof (cases hist)
  case (Cons x xs)
  have "[0..<length hist] = 0 # [Suc 0..<Suc 0 + length xs]" by (simp add: Cons upt_conv_Cons del: upt_Suc)
  then show ?thesis
    using np_max_accumulate_prev [of "if x = e then 0 else -1" "Suc 0" e xs] by (auto simp: Cons Let_def simp del: upt_Suc)
qed simp

lemma ref_shift_eq: "ref_shift hist sh = shift_right_ignore_eos hist sh (word_of_int REF_EOS)"
proof (cases "sh = 0")
  case False
  define prev where "prev = prev_incl_loop (word_of_int REF_EOS :: s64) 0 (-1) hist"
  have prev: "(-1 # butlast prev) ! i = (if i = 0 then -1 else prev ! (i - 1))" if "i < length hist" for i
    using that by (cases i) (simp_all add: nth_butlast prev_def)
  have len: "length (-1 # butlast prev) = length hist" if "hist \<noteq> []" using that by (simp add: prev_def)
  show ?thesis
  proof (cases "hist = []")
    case True
    then show ?thesis using False by (simp add: ref_shift_def shift_right_ignore_eos_def)
  next
    case ne: False
    have pointwise: "map2 (\<lambda>v x. if v then x else word_of_int REF_EOS)
          (map2 (\<lambda>p s. int sh \<le> p \<and> 0 \<le> s) (map2 (-) (map int [0..<length hist]) (map (\<lambda>x. x + 1) P)) (map (\<lambda>p. p - int sh) (map int [0..<length hist])))
          (map (\<lambda>p. hist ! nat p) (map (max 0) (map (\<lambda>p. p - int sh) (map int [0..<length hist]))))
        = map (\<lambda>i. if int sh \<le> int i - (P ! i + 1) \<and> 0 \<le> int i - int sh
            then hist ! nat (max 0 (int i - int sh)) else word_of_int REF_EOS) [0..<length hist]"
      if "length P = length hist" for P using that by (intro nth_equalityI) simp_all
    have "ref_shift hist sh = map (\<lambda>i. if int sh \<le> int i - ((-1 # butlast prev) ! i + 1) \<and> 0 \<le> int i - int sh
        then hist ! nat (max 0 (int i - int sh)) else word_of_int REF_EOS) [0..<length hist]"
      unfolding ref_shift_def Let_def ref_prev_incl prev_def [symmetric] using False by (simp only: pointwise [OF len [OF ne]] if_False)
    also have "\<dots> = shift_right_ignore_eos hist sh (word_of_int REF_EOS)"
      unfolding shift_right_ignore_eos_def Let_def prev_def [symmetric] using False prev by auto
    finally show ?thesis .
  qed
qed (simp add: ref_shift_def shift_right_ignore_eos_def)

text \<open>Over 32-bit tokens the script hashes the words the native code hashes.\<close>

lemma ref_shift_tokens:
  fixes hist :: "u32 list"
  shows "ref_shift (map ucast hist) sh = map ucast (shift_right_ignore_eos hist sh (word_of_int REF_EOS))"
proof -
  have inj: "inj (ucast :: u32 \<Rightarrow> s64)" by (rule injI) (metis word_uint_eq_iff uint_ucast_up)
  have "(word_of_int REF_EOS :: s64) = ucast (word_of_int REF_EOS :: u32)" by (simp add: REF_EOS_def)
  then show ?thesis
    unfolding ref_shift_eq shift_right_ignore_eos_closed using shifted_token_map [OF inj] by simp
qed

lemma ref_mixed_native:
  fixes shifted :: "u32 list list"
  assumes "n \<in> {2, 3}" "length ms = 3" "length shifted = 3" "\<And>s. s \<in> set shifted \<Longrightarrow> length s = l"
  shows "ref_mixed (map (map ucast) shifted) (map word_of_int ms) n
    = Inr (map (\<lambda>i. native_mixed (spec_of ms sizes eos) shifted i n) [0..<l])"
proof -
  have l: "length (shifted ! 0) = l" "length (shifted ! 1) = l" "length (shifted ! 2) = l"
    using assms(3,4) by (auto simp: nth_mem)
  have two: "[1..<2] = [1::nat]" "[1..<3] = [1::nat, 2]" by (simp_all add: upt_rec)
  show ?thesis
    using assms(1-3) l two
    by (auto simp: ref_mixed_def native_mixed_def spec_of_def py_nth_def intro!: nth_equalityI)
qed

lemma np_cumsum_offsets: "sizes \<noteq> [] \<Longrightarrow> np_cumsum acc (0 # butlast sizes) = acc_offsets acc sizes"
proof (induction sizes arbitrary: acc)
  case (Cons s ss)
  then show ?case by (cases ss) (simp_all add: add.commute)
qed simp

lemma np_remainder_native:
  assumes "0 \<le> sint a" "0 < n" "n < 2 ^ 63"
  shows "np_remainder a (word_of_int n) = a mod word_of_int n"
proof -
  have u: "uint (word_of_int n :: s64) = n" using assms by (intro uint_word_of_int_id) auto
  have s: "sint (word_of_int n :: s64) = n"
    using assms by (simp add: signed_of_int signed_take_bit_int_eq_self)
  have sint: "sint a = uint a"
    using assms(1) sint_less [of a] by (simp add: uint_sint take_bit_int_eq_self)
  have "(word_of_int n :: s64) \<noteq> 0" using u assms(2) by (metis unsigned_0 less_irrefl)
  then show ?thesis
    using assms(1) unfolding np_remainder_def s
    by (simp add: word_mod_def u sint)
qed

section \<open>The script and the native code\<close>

lemma sint_small: "uint v < 2 ^ 63 \<Longrightarrow> sint (v :: s64) = uint v"
  unfolding sint_uint by (rule signed_take_bit_int_eq_self) (simp_all add: order_trans [OF _ unsigned_greater_eq])

lemma ref_rid:
  fixes off :: s64
  assumes "0 \<le> sint m" "0 < n" "n - 1 + uint off < 2 ^ 32" "n < 2 ^ 32"
  shows "sint (np_remainder m (word_of_int n) + off) = uint (ucast (m mod word_of_int n + off) :: u32)"
proof -
  have n: "uint (word_of_int n :: s64) = n" using assms(2,4) by (intro uint_word_of_int_id) auto
  have "uint (m mod word_of_int n) \<le> n - 1" using assms(2) by (simp add: uint_mod n)
  then have "uint (m mod word_of_int n + off) < 2 ^ 32"
    using uint_add_le [of "m mod word_of_int n" off] assms(3) by linarith
  moreover from this have "uint (m mod word_of_int n + off) < 2 ^ 63" by (rule less_trans) simp
  moreover have "np_remainder m (word_of_int n) = m mod word_of_int n"
    using assms(1,2,4) by (intro np_remainder_native) auto
  ultimately show ?thesis by (simp add: sint_small unsigned_ucast_eq take_bit_int_eq_self)
qed

lemma map2_slice:
  assumes "length xs = 16" "length ys = 16" "k < 2"
  shows "map2 f (py_slice k 8 xs) (py_slice k 8 ys) = map (\<lambda>h. f (xs ! (k * 8 + h)) (ys ! (k * 8 + h))) [0..<8]"
  using assms by (intro nth_equalityI) (auto simp: py_slice_def)

lemma np_int64_all:
  "list_all (\<lambda>x. 0 \<le> x \<and> x < 2 ^ 63) xs \<Longrightarrow> rmapM np_int64 xs = Inr (map word_of_int xs)"
  by (induction xs) (simp_all add: np_int64_def)

lemma ref_sizes_default: "ref_head_vocab_sizes REF_HEADS = head_vocab_sizes PLE_BASE PLE_HEADS"
  by (simp add: ref_head_vocab_sizes_def head_vocab_sizes_def ref_nth_prime_after_eq REF_BASE_def PLE_BASE_def
      REF_HEADS_def PLE_HEADS_def del: ref_nth_prime_after.simps nth_prime_after.simps)

lemma table_sizes_small:
  "length table_sizes = 16" "\<forall>s \<in> set table_sizes. 0 < s" "sum_list table_sizes < 2 ^ 32"
  "list_all (\<lambda>x. 0 \<le> x \<and> x < 2 ^ 63) table_sizes"
  by (simp_all add: table_sizes_def table_gaps_def)

text \<open>The hash of every position whose row is returned is not negative.\<close>

definition hashes_positive :: "u32 list \<Rightarrow> bool" where
  "hashes_positive tokens \<longleftrightarrow>
     (let h = [word_of_int REF_EOS, word_of_int REF_EOS] @ tokens;
          shifted = map (\<lambda>sh. shift_right_ignore_eos h sh (word_of_int REF_EOS)) [0..<3]
      in list_all (\<lambda>i. list_all (\<lambda>n. 0 \<le> sint (native_mixed (spec_of DEFAULT_MULTIPLIERS [] REF_EOS) shifted i n)) [2, 3])
           [2..<length h])"

lemma native_mixed_sizes: "native_mixed (spec_of ms sizes eos) = native_mixed (spec_of ms sizes' eos')"
  by (intro ext) (simp add: native_mixed_def spec_of_def)

lemma ref_row_native:
  assumes "0 \<le> sint (native_mixed real_spec shifted i 2)" "0 \<le> sint (native_mixed real_spec shifted i 3)"
  shows "map sint (concat (map (\<lambda>n. map2 (\<lambda>size off. np_remainder (native_mixed real_spec shifted i n) size + off)
      (py_slice (n - 2) REF_HEADS_PER (map word_of_int table_sizes))
      (py_slice (n - 2) REF_HEADS_PER (acc_offsets 0 (map word_of_int table_sizes)))) [2, 3]))
    = map uint (native_position_row real_spec shifted i)"
proof -
  have rid: "sint (np_remainder (native_mixed real_spec shifted i n) (word_of_int (table_sizes ! h))
        + acc_offsets 0 (map word_of_int table_sizes) ! h)
      = uint (ucast (native_mixed real_spec shifted i n mod word_of_int (table_sizes ! h)
          + acc_offsets 0 (map word_of_int table_sizes) ! h) :: u32)" if "h < 16" "n \<in> {2, 3}" for h n
  proof -
    have pos: "0 < table_sizes ! h" using table_sizes_small(1,2) that by simp
    have le: "0 \<le> head_offsets (Some table_sizes) ! h"
        "table_sizes ! h - 1 + head_offsets (Some table_sizes) ! h < sum_list table_sizes"
      using head_range_in_table [of table_sizes h 0] head_range_in_table [of table_sizes h "table_sizes ! h - 1"]
        table_sizes_small(1,2) that pos by auto
    have "uint (acc_offsets 0 (map word_of_int table_sizes) ! h :: s64) = head_offsets (Some table_sizes) ! h"
      using that by (intro offset_word table_sizes_small)
    then show ?thesis
      using that pos le table_sizes_small(3) assms by (intro ref_rid) auto
  qed
  have slices: "map2 f (py_slice (n - 2) REF_HEADS_PER (map word_of_int table_sizes))
        (py_slice (n - 2) REF_HEADS_PER (acc_offsets 0 (map word_of_int table_sizes)))
      = map (\<lambda>h. f (word_of_int (table_sizes ! ((n - 2) * 8 + h)))
          (acc_offsets 0 (map word_of_int table_sizes) ! ((n - 2) * 8 + h))) [0..<8]"
    if "n \<in> {2, 3}" for n and f :: "s64 \<Rightarrow> s64 \<Rightarrow> s64"
    using that table_sizes_small(1) unfolding REF_HEADS_PER_def
    by (subst map2_slice) (auto simp: acc_offsets_closed)
  have spec: "h < 16 \<Longrightarrow> sp_divisors real_spec ! h = word_of_int (table_sizes ! h)"
      "sp_offsets real_spec = acc_offsets 0 (map word_of_int table_sizes)" for h
    using table_sizes_small(1) by (simp_all add: real_spec_def spec_of_def head_vocab_sizes_default)
  have block: "map sint (map2 (\<lambda>size off. np_remainder (native_mixed real_spec shifted i n) size + off)
        (py_slice (n - 2) REF_HEADS_PER (map word_of_int table_sizes))
        (py_slice (n - 2) REF_HEADS_PER (acc_offsets 0 (map word_of_int table_sizes))))
      = map uint (map (\<lambda>h. ucast (native_mixed real_spec shifted i n mod sp_divisors real_spec ! ((n - 2) * 8 + h)
          + sp_offsets real_spec ! ((n - 2) * 8 + h)) :: u32) [0..<8])" if n: "n \<in> {2, 3}" for n
  proof -
    have "(n - 2) * 8 + h < 16" if "h < 8" for h using that n by auto
    then show ?thesis unfolding slices [OF n] map_map comp_def using n by (intro map_cong refl) (simp add: rid spec del: insert_iff)
  qed
  show ?thesis
    unfolding native_position_row_def Let_def PLE_HEADS_PER_NGRAM_def map_concat list.map
    by (simp only: block insertI1 insertI2)
qed

lemma shifted_lengths:
  "s \<in> set (map (\<lambda>sh. shift_right_ignore_eos h sh e) [0..<3]) \<Longrightarrow> length s = length h"
  by (auto simp: shift_right_ignore_eos_closed)

lemma ref_rows_native:
  fixes tokens :: "u32 list"
  assumes "tokens \<noteq> []" "hashes_positive tokens" "sizes \<in> {None, Some table_sizes}"
  shows "rmap (map (map sint)) (ref_ple_rowids (map ucast tokens) DEFAULT_MULTIPLIERS sizes)
    = Inr (map (map uint) (native_rowids real_spec [word_of_int PLE_EOS, word_of_int PLE_EOS] tokens))"
proof -
  define e where "e = (word_of_int REF_EOS :: u32)"
  define h where "h = [e, e] @ tokens"
  define shifted where "shifted = map (\<lambda>sh. shift_right_ignore_eos h sh e) [0..<3]"
  define block where "block n i = map2 (\<lambda>size off. np_remainder (native_mixed real_spec shifted i n) size + off)
      (py_slice (n - 2) REF_HEADS_PER (map word_of_int table_sizes))
      (py_slice (n - 2) REF_HEADS_PER (acc_offsets 0 (map word_of_int table_sizes)))" for n i
  have lenh: "length h = length tokens + 2" by (simp add: h_def)
  have ctx: "[word_of_int REF_EOS, word_of_int REF_EOS] @ map ucast tokens = (map ucast h :: s64 list)"
    by (simp add: h_def e_def REF_EOS_def)
  have sizes: "list_or sizes (ref_head_vocab_sizes REF_HEADS) = table_sizes"
    using assms(3) table_sizes_small(1) by (auto simp: ref_sizes_default head_vocab_sizes_default list_or_def)
  have offsets: "np_cumsum 0 (0 # butlast (map word_of_int table_sizes)) = acc_offsets 0 (map word_of_int table_sizes)"
    by (rule np_cumsum_offsets) (use table_sizes_small(1) in auto)
  have ms: "rmapM np_int64 DEFAULT_MULTIPLIERS = Inr (map word_of_int DEFAULT_MULTIPLIERS)"
    by (rule np_int64_all) (simp add: DEFAULT_MULTIPLIERS_def)
  have shift: "map (ref_shift (map ucast h)) [0..<REF_NGRAM] = map (map ucast) shifted"
    by (simp add: ref_shift_tokens shifted_def e_def REF_NGRAM_def del: upt_rec_numeral)
  have mixed: "ref_mixed (map (map ucast) shifted) (map word_of_int DEFAULT_MULTIPLIERS) n
      = Inr (map (\<lambda>i. native_mixed real_spec shifted i n) [0..<length h])" if "n \<in> {2, 3}" for n
    unfolding real_spec_def using that
    by (intro ref_mixed_native) (auto simp: DEFAULT_MULTIPLIERS_def shifted_def shift_right_ignore_eos_closed)
  have ns: "[2..<REF_NGRAM + 1] = [2, 3]" by (simp add: REF_NGRAM_def upt_rec)
  have "rmapM (\<lambda>n. rmap (ref_block (map word_of_int table_sizes) (acc_offsets 0 (map word_of_int table_sizes)) n)
        (ref_mixed (map (map ucast) shifted) (map word_of_int DEFAULT_MULTIPLIERS) n)) [2, 3]
      = Inr (map (\<lambda>n. map (block n) [0..<length h]) [2, 3])"
    by (simp add: mixed ref_block_def block_def comp_def)
  then have "ref_ple_rowids (map ucast tokens) DEFAULT_MULTIPLIERS sizes
      = Inr (last_n (length tokens) (map (\<lambda>i. concat (map (\<lambda>b. b ! i) (map (\<lambda>n. map (block n) [0..<length h]) [2, 3]))) [0..<length h]))"
    unfolding ref_ple_rowids_def sizes np_int64_all [OF table_sizes_small(4)] ms rbind_simps ctx Let_def offsets shift ns
    using assms(1) by simp
  also have "\<dots> = Inr (map (\<lambda>i. concat (map (\<lambda>n. block n i) [2, 3])) [2..<length h])"
    by (auto simp: last_n_def drop_map lenh numeral_2_eq_2 simp del: upt_Suc)
  finally have rows: "ref_ple_rowids (map ucast tokens) DEFAULT_MULTIPLIERS sizes
      = Inr (map (\<lambda>i. concat (map (\<lambda>n. block n i) [2, 3])) [2..<length h])" .
  have nm: "native_mixed (spec_of DEFAULT_MULTIPLIERS [] REF_EOS) = native_mixed real_spec"
    unfolding real_spec_def by (rule native_mixed_sizes)
  have "0 \<le> sint (native_mixed real_spec shifted i n)" if "i \<in> set [2..<length h]" "n \<in> {2, 3}" for i n
    using assms(2) that unfolding hashes_positive_def Let_def nm shifted_def h_def e_def by (auto simp: list_all_iff)
  then have "map sint (concat (map (\<lambda>n. block n i) [2, 3])) = map uint (native_position_row real_spec shifted i)"
    if "i \<in> set [2..<length h]" for i
    unfolding block_def using that by (intro ref_row_native) auto
  then have "map (map sint) (map (\<lambda>i. concat (map (\<lambda>n. block n i) [2, 3])) [2..<length h])
      = map (map uint) (map (native_position_row real_spec shifted) [2..<length h])"
    unfolding map_map comp_def by (intro map_cong refl) auto
  moreover have "native_rowids real_spec [word_of_int PLE_EOS, word_of_int PLE_EOS] tokens
      = map (native_position_row real_spec shifted) [2..<length h]"
  proof -
    have "word_of_int PLE_EOS = e" "sp_eos real_spec = e"
      by (simp_all add: e_def real_spec_def spec_of_def PLE_EOS_def REF_EOS_def)
    then show ?thesis
      unfolding native_rowids_def Let_def PLE_NGRAM_SIZE_def
      by (simp only: h_def [symmetric] shifted_def [symmetric] drop_map drop_upt lenh add_diff_cancel_left' add_0)
  qed
  ultimately show ?thesis using rows by simp
qed

section \<open>The three implementations\<close>

text \<open>Below half the limit of the native hash, no product reaches the sign bit.\<close>

definition ref_token_limit :: int where "ref_token_limit = 389113"

lemma sint_xor_nonneg: "0 \<le> sint a \<Longrightarrow> 0 \<le> sint b \<Longrightarrow> 0 \<le> sint (a XOR b :: s64)"
  by (simp add: signed_xor_eq)

lemma product_positive:
  fixes x :: u32
  assumes "uint x < ref_token_limit" "m \<in> set DEFAULT_MULTIPLIERS"
  shows "0 \<le> sint (ucast x * word_of_int m :: s64)"
proof -
  have m: "0 \<le> m" "m \<le> 23703573157769" using assms(2) by (auto simp: DEFAULT_MULTIPLIERS_def)
  have "uint x * m \<le> 389112 * 23703573157769"
    using assms(1) m by (intro mult_mono) (auto simp: ref_token_limit_def)
  then have "uint x * m < 2 ^ 63" by simp
  moreover from this have "uint x * m < 2 ^ 64" by (rule less_trans) simp
  moreover have "uint (word_of_int m :: s64) = m" using m by (intro uint_word_of_int_id) auto
  ultimately have "uint (ucast x * word_of_int m :: s64) < 2 ^ 63"
    by (subst uint_mult_no_wrap) simp_all
  then show ?thesis by (simp add: sint_small)
qed

lemma hashes_positive_small:
  assumes "\<forall>x \<in> set tokens. uint x < ref_token_limit"
  shows "hashes_positive tokens"
proof -
  define e where "e = (word_of_int REF_EOS :: u32)"
  define h where "h = [e, e] @ tokens"
  have small: "uint (shifted_token e h s i) < ref_token_limit" if "i < length h" for s i
    using shifted_token_in [OF that, of e s] assms by (auto simp: h_def e_def REF_EOS_def ref_token_limit_def)
  have prod: "0 \<le> sint (ucast (shifted_token e h k i) * (word_of_int (DEFAULT_MULTIPLIERS ! k) :: s64))"
    if "i < length h" "k < 3" for i k
    using small [OF that(1)] that(2) by (intro product_positive) (auto simp: DEFAULT_MULTIPLIERS_def less_Suc_eq numeral_3_eq_3)
  have "0 \<le> sint (native_mixed (spec_of DEFAULT_MULTIPLIERS [] REF_EOS) (map (\<lambda>sh. shift_right_ignore_eos h sh e) [0..<3]) i n)"
    if "i < length h" "n \<in> {2, 3}" for i n
  proof -
    have "sp_multipliers (spec_of DEFAULT_MULTIPLIERS [] REF_EOS) ! k = word_of_int (DEFAULT_MULTIPLIERS ! k)" if "k < 3" for k
    proof -
      have "length DEFAULT_MULTIPLIERS = 3" by (simp add: DEFAULT_MULTIPLIERS_def)
      then show ?thesis using that by (simp add: spec_of_def)
    qed
    moreover have "[1..<2] = [1::nat]" "[1..<3] = [1::nat, 2]" by (simp_all add: upt_rec)
    ultimately show ?thesis
      using that prod [OF that(1)]
      by (auto simp: native_mixed_def shift_right_ignore_eos_closed numeral_2_eq_2 intro!: sint_xor_nonneg)
  qed
  then show ?thesis
    unfolding hashes_positive_def Let_def e_def [symmetric] h_def [symmetric] by (auto simp: list_all_iff)
qed

lemma ref_rows_entry:
  assumes "tokens \<noteq> []" "\<forall>x \<in> set tokens. 0 \<le> x \<and> x < 2 ^ 32" "hashes_positive (map word_of_int tokens)" "sizes \<in> {None, Some table_sizes}"
  shows "\<exists>rows. ref_ple_rowids (map word_of_int tokens) DEFAULT_MULTIPLIERS sizes = Inr rows
    \<and> rowids_for_seq_with_history True [PLE_EOS, PLE_EOS] tokens PLE_QWEN_V1 = Inr (map (map sint) rows)"
proof -
  have eos: "\<forall>x \<in> set [PLE_EOS, PLE_EOS]. 0 \<le> x \<and> x < 2 ^ 32" by (simp add: PLE_EOS_def)
  have "ucast (word_of_int x :: u32) = (word_of_int x :: s64)" if "0 \<le> x" "x < 2 ^ 32" for x
    using that by (simp add: word_uint_eq_iff uint_ucast_up uint_word_of_int_id)
  then have words: "map word_of_int tokens = (map ucast (map word_of_int tokens :: u32 list) :: s64 list)"
    using assms(2) by simp
  have "rmap (map (map sint)) (ref_ple_rowids (map word_of_int tokens) DEFAULT_MULTIPLIERS sizes)
      = Inr (map (map uint) (native_rowids real_spec [word_of_int PLE_EOS, word_of_int PLE_EOS] (map word_of_int tokens)))"
    unfolding words using assms(1,3,4) by (intro ref_rows_native) auto
  note rows = this
  also have "\<dots> = native_rowids_for_seq [PLE_EOS, PLE_EOS] tokens 1"
    unfolding native_rowids_for_seq_def rmapM_to_u32 [OF eos] rmapM_to_u32 [OF assms(2)] list.map
    by (simp only: rbind_simps refl if_False not_True_eq_False)
  finally have "rmap (map (map sint)) (ref_ple_rowids (map word_of_int tokens) DEFAULT_MULTIPLIERS sizes)
      = rowids_for_seq_with_history True [PLE_EOS, PLE_EOS] tokens PLE_QWEN_V1"
    by (simp add: rowids_for_seq_with_history_def PLE_QWEN_V1_def)
  with rows show ?thesis by (cases "ref_ple_rowids (map word_of_int tokens) DEFAULT_MULTIPLIERS sizes") auto
qed

text \<open>No token: the negative slice bound is zero, and the rows of the EOS context are returned.\<close>

lemma ref_empty_rows: "rmap length (ref_ple_rowids [] DEFAULT_MULTIPLIERS (Some table_sizes)) = Inr 2"
  unfolding ref_ple_rowids_def list_or_def option.case by code_simp

text \<open>The tokens of the golden file, one of which is past the limit of the Python and native agreement.\<close>

lemma golden_hashes_positive: "hashes_positive (map word_of_int GOLDEN_TOKENS)"
  by code_simp

definition golden_shifted :: "u32 list list" where
  "golden_shifted = map (\<lambda>sh. shift_right_ignore_eos ([248044, 248044] @ map word_of_int GOLDEN_TOKENS) sh 248044) [0..<3]"

definition golden_python :: "int list list res" where
  "golden_python = ple_rowids GOLDEN_TOKENS DEFAULT_MULTIPLIERS PLE_EOS (Some table_sizes) None 3 8 (Some [PLE_EOS, PLE_EOS])"

lemma golden_differs:
  "rmap (\<lambda>rows. rows ! 9 ! 0) golden_python \<noteq> Inr (uint (native_position_row (spec_of DEFAULT_MULTIPLIERS table_sizes PLE_EOS) golden_shifted 11 ! 0))"
  by code_simp

lemma golden_entry_differs:
  "rowids_for_seq_with_history True [PLE_EOS, PLE_EOS] GOLDEN_TOKENS PLE_QWEN_V1
    \<noteq> rowids_for_seq_with_history False [PLE_EOS, PLE_EOS] GOLDEN_TOKENS PLE_QWEN_V1"
proof
  assume eq: "rowids_for_seq_with_history True [PLE_EOS, PLE_EOS] GOLDEN_TOKENS PLE_QWEN_V1
    = rowids_for_seq_with_history False [PLE_EOS, PLE_EOS] GOLDEN_TOKENS PLE_QWEN_V1"
  have small: "\<forall>x \<in> set [PLE_EOS, PLE_EOS]. 0 \<le> x \<and> x < 2 ^ 32" "\<forall>x \<in> set GOLDEN_TOKENS. 0 \<le> x \<and> x < 2 ^ 32"
    by (simp_all add: PLE_EOS_def GOLDEN_TOKENS_def)
  have eos: "map word_of_int [PLE_EOS, PLE_EOS] = ([248044, 248044] :: u32 list)" by (simp add: PLE_EOS_def)
  have spec: "real_spec = spec_of DEFAULT_MULTIPLIERS table_sizes PLE_EOS"
    unfolding real_spec_def head_vocab_sizes_default by (rule refl)
  have sp_eos: "sp_eos real_spec = 248044" by (simp add: real_spec_def spec_of_def PLE_EOS_def)
  have len: "length ([248044, 248044] @ map word_of_int GOLDEN_TOKENS :: u32 list) = 16" "length (map word_of_int GOLDEN_TOKENS :: u32 list) = 14"
    by (simp_all add: GOLDEN_TOKENS_def)
  have sixteen: "(16 :: nat) - 14 = 2" "9 < length [2..<16::nat]" "[2..<16::nat] ! 9 = 11" by simp_all
  have "golden_python = ple_rowids GOLDEN_TOKENS DEFAULT_MULTIPLIERS PLE_EOS None None 3 8 (Some [PLE_EOS, PLE_EOS])"
  proof -
    have ne: "table_sizes \<noteq> []" "head_offsets (Some table_sizes) \<noteq> []"
      using table_sizes_small(1) length_head_offsets [of table_sizes] by force+
    show ?thesis
      unfolding ple_rowids_defaults golden_python_def head_vocab_sizes_default
      by (simp add: ple_rowids_def list_or_def ne)
  qed
  also have "\<dots> = rowids_for_seq_with_history False [PLE_EOS, PLE_EOS] GOLDEN_TOKENS PLE_QWEN_V1"
    by (simp add: rowids_for_seq_with_history_def PLE_NGRAM_SIZE_def PLE_HEADS_PER_NGRAM_def)
  also have "\<dots> = native_rowids_for_seq [PLE_EOS, PLE_EOS] GOLDEN_TOKENS 1"
    unfolding eq [symmetric] by (simp add: rowids_for_seq_with_history_def PLE_QWEN_V1_def)
  also have "\<dots> = Inr (map (map uint) (map (native_position_row real_spec golden_shifted) [2..<16]))"
    unfolding native_rowids_for_seq_def rmapM_to_u32 [OF small(1)] rmapM_to_u32 [OF small(2)] eos
      native_rowids_def Let_def sp_eos PLE_NGRAM_SIZE_def
    by (simp only: len rbind_simps golden_shifted_def [symmetric] drop_map drop_upt sixteen refl if_False not_True_eq_False add_0)
  finally have closed: "golden_python = Inr (map (map uint) (map (native_position_row real_spec golden_shifted) [2..<16]))" .
  have "rmap (\<lambda>rows. rows ! 9 ! 0) golden_python
      = Inr (map uint (native_position_row real_spec golden_shifted ([2..<16] ! 9)) ! 0)"
    unfolding closed by (simp only: rmap_simps nth_map length_map sixteen)
  also have "\<dots> = Inr (uint (native_position_row real_spec golden_shifted 11 ! 0))"
    unfolding sixteen by (subst nth_map) (simp_all add: native_position_row_def PLE_HEADS_PER_NGRAM_def Let_def upt_conv_Cons)
  finally show False using golden_differs unfolding spec by blast
qed

section \<open>Properties\<close>

text \<open>
  C22: on non-empty token lists below \<open>ref_token_limit\<close> the NumPy script, the native code and the Python
  reference give the same row ids.
\<close>

theorem reference_hash_agrees:
  assumes "tokens \<noteq> []" "\<forall>x \<in> set tokens. 0 \<le> x \<and> x < ref_token_limit"
  shows "rmap (map (map sint)) (ref_ple_rowids (map word_of_int tokens) DEFAULT_MULTIPLIERS None)
    = rowids_for_seq has_native tokens PLE_QWEN_V1 None None"
proof -
  have lim: "\<forall>x \<in> set tokens. 0 \<le> x \<and> x < native_token_limit" "\<forall>x \<in> set tokens. 0 \<le> x \<and> x < 2 ^ 32"
    using assms(2) by (auto simp: ref_token_limit_def native_token_limit_def)
  have "hashes_positive (map word_of_int tokens)"
  proof (rule hashes_positive_small)
    show "\<forall>x \<in> set (map word_of_int tokens :: u32 list). uint x < ref_token_limit"
      using assms(2) lim(2) by (auto simp: uint_word_of_int_id)
  qed
  then obtain rows where "ref_ple_rowids (map word_of_int tokens) DEFAULT_MULTIPLIERS None = Inr rows"
      "rowids_for_seq_with_history True [PLE_EOS, PLE_EOS] tokens PLE_QWEN_V1 = Inr (map (map sint) rows)"
    using ref_rows_entry [OF assms(1) lim(2), of None] by blast
  with rowids_for_seq_cold_start [OF lim(1), of None has_native PLE_QWEN_V1 True]
  show ?thesis by simp
qed

theorem reference_hash_agrees_witness:
  "rmap (map (map sint)) (ref_ple_rowids (map word_of_int [5, 248044, 389112]) DEFAULT_MULTIPLIERS None)
    = rowids_for_seq False [5, 248044, 389112] PLE_QWEN_V1 None None"
  by (rule reference_hash_agrees) (simp_all add: ref_token_limit_def)

text \<open>
  With the multipliers of the checkpoint the golden file holds the rows of the native code on all its
  tokens, and not those of the Python reference: its token 999999 makes the 64-bit product wrap.
\<close>

theorem golden_is_native:
  assumes "spec_from_weights files (WPath ''data/qwen38-ple-fp8'') = Inr DEFAULT_MULTIPLIERS"
  shows "\<exists>g. gen_golden files = Inr g
    \<and> Inr (gd_rowids g) = rowids_for_seq_with_history True [PLE_EOS, PLE_EOS] (gd_tokens g) PLE_QWEN_V1
    \<and> Inr (gd_rowids g) \<noteq> rowids_for_seq_with_history False [PLE_EOS, PLE_EOS] (gd_tokens g) PLE_QWEN_V1"
proof -
  have small: "\<forall>x \<in> set GOLDEN_TOKENS. 0 \<le> x \<and> x < 2 ^ 32" by (simp add: GOLDEN_TOKENS_def)
  have words: "rmapM np_int64 GOLDEN_TOKENS = Inr (map word_of_int GOLDEN_TOKENS)"
    by (rule np_int64_all) (simp add: GOLDEN_TOKENS_def)
  have "\<exists>rows. ref_ple_rowids (map word_of_int GOLDEN_TOKENS) DEFAULT_MULTIPLIERS (Some table_sizes) = Inr rows
      \<and> rowids_for_seq_with_history True [PLE_EOS, PLE_EOS] GOLDEN_TOKENS PLE_QWEN_V1 = Inr (map (map sint) rows)"
    by (rule ref_rows_entry [OF _ small golden_hashes_positive]) (simp_all add: GOLDEN_TOKENS_def)
  with golden_entry_differs show ?thesis
    unfolding gen_golden_def assms rbind_simps Let_def words ref_sizes_default head_vocab_sizes_default
    by auto
qed

theorem golden_is_native_witness:
  "\<exists>g. gen_golden (\<lambda>p. if p = ''docs/real-weights-spec.json''
        then Some (dumps (JObj [(''layer_multipliers_i64'', JList (map JInt DEFAULT_MULTIPLIERS))])) else None) = Inr g
    \<and> Inr (gd_rowids g) = rowids_for_seq_with_history True [PLE_EOS, PLE_EOS] (gd_tokens g) PLE_QWEN_V1
    \<and> Inr (gd_rowids g) \<noteq> rowids_for_seq_with_history False [PLE_EOS, PLE_EOS] (gd_tokens g) PLE_QWEN_V1"
  proof (rule golden_is_native)
  let ?j = "JObj [(''layer_multipliers_i64'', JList (map JInt DEFAULT_MULTIPLIERS))]"
  have "filter (\<lambda>c. c = ''docs/real-weights-spec.json'') (spec_candidates ''data/qwen38-ple-fp8'') = [''docs/real-weights-spec.json'']"
    by code_simp
  moreover have "loads (dumps ?j) = Inr ?j" by (rule loads_dumps) (simp add: DEFAULT_MULTIPLIERS_def)
  moreover have get: "rbind (json_get ?j ''layer_multipliers_i64'') (\<lambda>mult.
      case mult of None \<Rightarrow> Inl AssertionError
      | Some m \<Rightarrow> if truthy m then rbind (json_iter m) (rmapM py_int) else Inl AssertionError) = Inr DEFAULT_MULTIPLIERS"
    by code_simp
  ultimately show "spec_from_weights (\<lambda>p. if p = ''docs/real-weights-spec.json'' then Some (dumps ?j) else None)
      (WPath ''data/qwen38-ple-fp8'') = Inr DEFAULT_MULTIPLIERS"
    using get by (simp add: spec_from_weights_def)
qed

end
