(* ===== verification/GatherPlan.thy ===== *)
theory GatherPlan
  imports RowStore PyDict
begin

text \<open>
  The other gather strategies of \<open>crates/engramdb-io/src/batch.rs\<close> and the prefetch planner of \<open>planner.rs\<close>.
  A strategy reads whole badges (clusters of rows of about 4096 bytes); a plan is the set of badges to read of
  every shard.  The output buffer is the list of its rows.  The lemmas show which strategies
  return the rows \<open>gather_pp\<close> returns, and what happens to a short last badge.
\<close>

section \<open>Badges\<close>

definition aligned_badge_rows :: "nat \<Rightarrow> nat \<Rightarrow> nat" where
  "aligned_badge_rows row_bytes min_bytes = max (min_bytes div max row_bytes 1) 1"

definition badge_rows :: "native_store \<Rightarrow> nat" where
  "badge_rows s = aligned_badge_rows (ns_width s) 4096"

definition badge_bytes :: "native_store \<Rightarrow> nat" where
  "badge_bytes s = badge_rows s * ns_width s"

definition locate :: "native_store \<Rightarrow> nat \<Rightarrow> nat \<times> nat \<times> nat" where
  "locate s k =
     (let in_shard = k mod ns_rows_per_shard s
      in (k div ns_rows_per_shard s, in_shard div badge_rows s, in_shard mod badge_rows s))"

definition badge_of :: "native_store \<Rightarrow> nat \<Rightarrow> nat \<times> nat" where
  "badge_of s k = (case locate s k of (shard, badge, _) \<Rightarrow> (shard, badge))"

text \<open>The row of a key in the buffer of its badge.\<close>

definition badge_row :: "native_store \<Rightarrow> bytes \<Rightarrow> nat \<Rightarrow> bytes" where
  "badge_row s buf k = (case locate s k of (_, _, in_badge) \<Rightarrow> take (ns_width s) (drop (in_badge * ns_width s) buf))"

definition read_badge :: "native_store \<Rightarrow> nat \<times> nat \<Rightarrow> bytes" where
  "read_badge s sb = pread (ns_files s ! fst sb) (snd sb * badge_bytes s) (badge_bytes s)"

section \<open>One key after the other\<close>

text \<open>The rows written before the loop ended, and how it ended.\<close>

fun naive_loop :: "native_store \<Rightarrow> nat list \<Rightarrow> bytes \<Rightarrow> (nat \<times> nat) option \<Rightarrow> bytes list \<times> unit res" where
  "naive_loop s [] buf last_badge = ([], Inr ())"
| "naive_loop s (k # ks) buf last_badge =
     (let sb = badge_of s k; bs = read_badge s sb
      in if last_badge \<noteq> Some sb \<and> length (ns_files s) \<le> fst sb then ([], Inl PanicException)
         else if last_badge \<noteq> Some sb \<and> length bs < badge_bytes s then ([], Inl OSError)
         else let buf = (if last_badge \<noteq> Some sb then overlay buf bs else buf)
           in case naive_loop s ks buf (Some sb) of (rows, r) \<Rightarrow> (badge_row s buf k # rows, r))"

definition gather_naive :: "native_store \<Rightarrow> nat list \<Rightarrow> bytes list \<Rightarrow> bytes list \<times> unit res" where
  "gather_naive s keys out =
     (if keys \<noteq> [] \<and> ns_rows_per_shard s = 0 then (out, Inl PanicException)
      else case naive_loop s keys (replicate (badge_bytes s) 0) None of
        (rows, r) \<Rightarrow> (rows @ drop (length rows) out, r))"

text \<open>Every thread gathers its chunk; an error of a thread is dropped, a panic is not.\<close>

definition gather_parallel :: "native_store \<Rightarrow> nat list \<Rightarrow> bytes list \<Rightarrow> nat \<Rightarrow> bytes list \<times> unit res" where
  "gather_parallel s keys out threads =
     (if threads \<le> 1 \<or> length keys \<le> 1024 then gather_naive s keys out
      else let chunk_keys = (length keys + threads - 1) div threads;
               runs = map (\<lambda>(kc, oc). gather_naive s kc oc) (zip (chunks chunk_keys keys) (chunks chunk_keys out))
           in (concat (map fst runs), if Inl PanicException \<in> set (map snd runs) then Inl PanicException else Inr ()))"

section \<open>Plans\<close>

record plan =
  pl_badges :: "(nat, nat list) dict"
  pl_n :: nat

definition plan_push :: "nat \<times> nat \<Rightarrow> (nat, nat list) dict \<Rightarrow> (nat, nat list) dict" where
  "plan_push sb d = dict_set (fst sb) (case dict_get d (fst sb) of None \<Rightarrow> [snd sb] | Some v \<Rightarrow> v @ [snd sb]) d"

definition settle_badges :: "(nat, nat list) dict \<Rightarrow> (nat, nat list) dict" where
  "settle_badges d = map (\<lambda>(shard, v). (shard, remdups_adj (sort v))) d"

definition count_badges :: "(nat, nat list) dict \<Rightarrow> nat" where
  "count_badges d = sum_list (map (\<lambda>(shard, v). length v) d)"

definition plan_build :: "native_store \<Rightarrow> nat list \<Rightarrow> plan" where
  "plan_build s keys =
     (let d = settle_badges (fold (\<lambda>k. plan_push (badge_of s k)) keys [])
      in \<lparr>pl_badges = d, pl_n = count_badges d\<rparr>)"

definition plan_badges :: "plan \<Rightarrow> nat \<Rightarrow> nat list" where
  "plan_badges p shard = (case dict_get (pl_badges p) shard of None \<Rightarrow> [] | Some v \<Rightarrow> v)"

definition plan_entry :: "nat \<times> nat \<Rightarrow> plan \<Rightarrow> plan" where
  "plan_entry sb p = p\<lparr>pl_badges := plan_push sb (pl_badges p), pl_n := pl_n p + 1\<rparr>"

definition plan_settle :: "plan \<Rightarrow> plan" where
  "plan_settle p = (let d = settle_badges (pl_badges p) in p\<lparr>pl_badges := d, pl_n := count_badges d\<rparr>)"

text \<open>The keys grouped by badge: the order of the groups is that of a hash map, their rows are disjoint.\<close>

definition key_groups :: "native_store \<Rightarrow> nat list \<Rightarrow> (nat \<Rightarrow> bool) \<Rightarrow> ((nat \<times> nat) \<times> nat list) list" where
  "key_groups s keys P =
     (let idxs = filter (\<lambda>i. P (keys ! i)) [0..<length keys]
      in map (\<lambda>sb. (sb, filter (\<lambda>i. badge_of s (keys ! i) = sb) idxs)) (remdups (map (\<lambda>i. badge_of s (keys ! i)) idxs)))"

definition group_rows :: "native_store \<Rightarrow> nat list \<Rightarrow> bytes \<Rightarrow> nat list \<Rightarrow> (nat \<times> bytes) list" where
  "group_rows s keys buf idxs = map (\<lambda>i. (i, badge_row s buf (keys ! i))) idxs"

text \<open>\<open>gather_planned\<close> ignores the errors of its reads; \<open>gather_plan\<close> reads a key outside the plan by itself.\<close>

definition gather_planned :: "native_store \<Rightarrow> nat list \<Rightarrow> bytes list \<Rightarrow> bytes list res" where
  "gather_planned s keys out =
     (if keys \<noteq> [] \<and> ns_rows_per_shard s = 0 then Inl PanicException
      else rfoldM (\<lambda>(sb, idxs) out.
          if length (ns_files s) \<le> fst sb then Inl PanicException
          else Inr (write_rows (group_rows s keys (overlay (replicate (badge_bytes s) 0) (read_badge s sb)) idxs) out))
        (key_groups s keys (\<lambda>_. True)) out)"

definition in_plan :: "native_store \<Rightarrow> plan \<Rightarrow> nat \<Rightarrow> bool" where
  "in_plan s p k = (case badge_of s k of (shard, badge) \<Rightarrow> badge \<in> set (plan_badges p shard))"

definition direct_row :: "native_store \<Rightarrow> plan \<Rightarrow> nat list \<Rightarrow> nat \<Rightarrow> bytes list \<Rightarrow> bytes list res" where
  "direct_row s p keys i out =
     (let k = keys ! i; shard = fst (badge_of s k); tmp = pread (ns_files s ! shard) (k * ns_width s) (ns_width s)
      in if in_plan s p k then Inr out
         else if length (ns_files s) \<le> shard then Inl PanicException
         else if length tmp < ns_width s then Inl OSError
         else Inr (out[i := tmp]))"

definition gather_plan :: "native_store \<Rightarrow> nat list \<Rightarrow> plan \<Rightarrow> bytes list \<Rightarrow> bytes list res" where
  "gather_plan s keys p out =
     (if keys \<noteq> [] \<and> ns_rows_per_shard s = 0 then Inl PanicException
      else rbind (rfoldM (direct_row s p keys) [0..<length keys] out) (\<lambda>out.
        rfoldM (\<lambda>(sb, idxs) out.
          if length (ns_files s) \<le> fst sb then Inl PanicException
          else if length (read_badge s sb) < badge_bytes s then Inl OSError
          else Inr (write_rows (group_rows s keys (read_badge s sb) idxs) out))
        (key_groups s keys (in_plan s p)) out))"

section \<open>The planner\<close>

record planner =
  sp_window :: nat
  sp_queue :: "(nat \<times> nat) list"
  sp_in_window :: "(nat \<times> nat) set"

definition planner_new :: "nat \<Rightarrow> planner" where
  "planner_new window_badges = \<lparr>sp_window = window_badges, sp_queue = [], sp_in_window = {}\<rparr>"

definition advance_one :: "native_store \<Rightarrow> nat \<Rightarrow> nat \<times> planner \<times> plan \<Rightarrow> nat \<times> planner \<times> plan" where
  "advance_one s r st =
     (case st of (n_new, sp, p) \<Rightarrow>
        let key = badge_of s r
        in if key \<in> sp_in_window sp then st
           else (n_new + 1, sp\<lparr>sp_queue := sp_queue sp @ [key], sp_in_window := insert key (sp_in_window sp)\<rparr>,
                 plan_entry key p))"

text \<open>The eviction loop; an empty queue under a full window would make it spin for ever (\<open>None\<close>).\<close>

fun planner_evict :: "nat \<Rightarrow> (nat \<times> nat) list \<Rightarrow> (nat \<times> nat) set \<Rightarrow> ((nat \<times> nat) list \<times> (nat \<times> nat) set) option" where
  "planner_evict w q W =
     (if w < card W then (case q of [] \<Rightarrow> None | old # q \<Rightarrow> planner_evict w q (W - {old})) else Some (q, W))"

declare planner_evict.simps [simp del]

definition advance :: "native_store \<Rightarrow> nat list \<Rightarrow> planner \<Rightarrow> plan \<Rightarrow> (nat \<times> planner \<times> plan) option" where
  "advance s rows sp p =
     (case fold (advance_one s) rows (0, sp, p) of (n_new, sp, p) \<Rightarrow>
        map_option (\<lambda>(q, W). (n_new, sp\<lparr>sp_queue := q, sp_in_window := W\<rparr>, p))
          (planner_evict (sp_window sp) (sp_queue sp) (sp_in_window sp)))"

section \<open>A badge holds its rows\<close>

text \<open>The last badge of a shard is whole only when its file is padded to it.\<close>

definition badge_whole :: "native_store \<Rightarrow> nat \<Rightarrow> bool" where
  "badge_whole s k \<longleftrightarrow> (snd (badge_of s k) + 1) * badge_bytes s \<le> length (ns_files s ! fst (badge_of s k))"

lemma badge_rows_pos: "0 < badge_rows s"
  by (simp add: badge_rows_def aligned_badge_rows_def)

lemma badge_of_simps:
  "fst (badge_of s k) = k div ns_rows_per_shard s" "snd (badge_of s k) = k mod ns_rows_per_shard s div badge_rows s"
  by (simp_all add: badge_of_def locate_def Let_def)

lemma take_drop_prefix: "i + w \<le> n \<Longrightarrow> take w (drop i (take n xs)) = take w (drop i xs)"
  by (simp add: drop_take min_def)

lemma badge_row_read:
  assumes "store_valid s (int k)"
  shows "badge_row s (overlay buf (read_badge s (badge_of s k))) k = store_row s (int k)"
proof -
  define f where "f = ns_files s ! (k div ns_rows_per_shard s)"
  define w where "w = ns_width s"
  define br where "br = badge_rows s"
  define r where "r = k mod ns_rows_per_shard s"
  have r: "r = r div br * br + r mod br" by simp
  have fits: "(r + 1) * w \<le> length f" using assms by (simp add: store_valid_def f_def w_def r_def)
  have "r mod br + 1 \<le> br" using badge_rows_pos [of s] by (simp add: br_def Suc_leI)
  then have inner: "(r mod br + 1) * w \<le> br * w" by (rule mult_right_mono) simp
  have split: "r * w = r div br * (br * w) + r mod br * w"
  proof -
    have "r * w = (r div br * br + r mod br) * w" using r by simp
    then show ?thesis by (simp only: distrib_right mult.assoc)
  qed
  define bs where "bs = take (br * w) (drop (r div br * (br * w)) f)"
  have read: "read_badge s (badge_of s k) = bs"
    by (simp add: read_badge_def badge_of_simps badge_bytes_def bs_def pread_def f_def w_def br_def r_def)
  have "r mod br * w + w \<le> length bs" using fits inner split by (simp add: bs_def)
  then have "take w (drop (r mod br * w) (overlay buf bs)) = take w (drop (r mod br * w) bs)"
    by (simp add: overlay_def)
  also have "\<dots> = take w (drop (r mod br * w) (drop (r div br * (br * w)) f))"
    unfolding bs_def using inner by (intro take_drop_prefix) simp
  also have "\<dots> = take w (drop (r * w) f)" by (simp add: split add.commute)
  finally show ?thesis
    unfolding read by (simp add: badge_row_def locate_def Let_def store_row_def pread_def f_def w_def br_def r_def)
qed

lemma badge_whole_length: "badge_whole s k \<Longrightarrow> length (read_badge s (badge_of s k)) = badge_bytes s"
  by (simp add: badge_whole_def read_badge_def pread_def)

lemma valid_shard:
  assumes "store_valid s (int k)"
  shows "fst (badge_of s k) < length (ns_files s)" "0 < ns_rows_per_shard s"
proof -
  have "k < length (ns_files s) * ns_rows_per_shard s" using assms by (simp add: store_valid_def total_rows_def)
  then show "0 < ns_rows_per_shard s" by (cases "ns_rows_per_shard s") auto
  with \<open>k < _\<close> show "fst (badge_of s k) < length (ns_files s)" by (simp add: badge_of_simps div_less_iff_less_mult)
qed

section \<open>The strategies agree on whole badges\<close>

definition rows_at :: "native_store \<Rightarrow> nat list \<Rightarrow> bytes list" where
  "rows_at s keys = map (\<lambda>k. store_row s (int k)) keys"

lemma naive_loop_correct:
  assumes "list_all (\<lambda>k. store_valid s (int k) \<and> badge_whole s k) keys"
    and "\<And>sb. last_badge = Some sb \<Longrightarrow> \<exists>page. buf = overlay page (read_badge s sb)"
  shows "naive_loop s keys buf last_badge = (rows_at s keys, Inr ())"
  using assms
proof (induction s keys buf last_badge rule: naive_loop.induct)
  case (2 s k ks buf last_badge)
  define sb where "sb = badge_of s k"
  define buf' where "buf' = (if last_badge \<noteq> Some sb then overlay buf (read_badge s sb) else buf)"
  have k: "store_valid s (int k)" "badge_whole s k" using "2.prems"(1) by simp_all
  have ok: "\<not> length (ns_files s) \<le> fst sb" "\<not> length (read_badge s sb) < badge_bytes s"
    using valid_shard(1) [OF k(1)] badge_whole_length [OF k(2)] by (simp_all add: sb_def)
  obtain page where page: "buf' = overlay page (read_badge s sb)" using "2.prems"(2) [of sb] by (cases "last_badge = Some sb") (auto simp: buf'_def)
  have "naive_loop s ks buf' (Some sb) = (rows_at s ks, Inr ())"
    using "2.prems"(1) page ok unfolding buf'_def by (intro "2.IH" [OF sb_def refl]) auto
  moreover have "badge_row s buf' k = store_row s (int k)"
    unfolding page sb_def by (rule badge_row_read [OF k(1)])
  ultimately show ?case
    using ok by (simp add: Let_def sb_def [symmetric] buf'_def [symmetric] rows_at_def)
qed (simp add: rows_at_def)

lemma gather_naive_correct:
  assumes "list_all (\<lambda>k. store_valid s (int k) \<and> badge_whole s k) keys" "length out = length keys"
  shows "gather_naive s keys out = (rows_at s keys, Inr ())"
proof -
  have "\<not> (keys \<noteq> [] \<and> ns_rows_per_shard s = 0)"
    using assms(1) valid_shard(2) by (cases keys) fastforce+
  moreover have "length (rows_at s keys) = length out" using assms(2) by (simp add: rows_at_def)
  ultimately show ?thesis
    unfolding gather_naive_def using naive_loop_correct [OF assms(1), of None "replicate (badge_bytes s) 0"] by auto
qed

text \<open>The badges of a plan.\<close>

definition covers :: "(nat, nat list) dict \<Rightarrow> nat \<times> nat \<Rightarrow> bool" where
  "covers d sb \<longleftrightarrow> snd sb \<in> set (case dict_get d (fst sb) of None \<Rightarrow> [] | Some v \<Rightarrow> v)"

lemma in_plan_covers: "in_plan s p k \<longleftrightarrow> covers (pl_badges p) (badge_of s k)"
  by (simp add: in_plan_def covers_def plan_badges_def split: prod.split)

lemma covers_Nil [simp]: "\<not> covers [] sb"
  by (simp add: covers_def)

lemma covers_push [simp]: "covers (plan_push sb' d) sb \<longleftrightarrow> sb = sb' \<or> covers d sb"
  by (auto simp: covers_def plan_push_def prod_eq_iff split: option.splits)

lemma covers_settle [simp]: "covers (settle_badges d) sb = covers d sb"
  by (induction d) (auto simp: covers_def settle_badges_def dict_get_Cons)

lemma covers_pushes: "covers (fold (\<lambda>k. plan_push (f k)) keys d) sb \<longleftrightarrow> sb \<in> f ` set keys \<or> covers d sb"
  by (induction keys arbitrary: d) auto

lemma in_built_plan: "in_plan s (plan_build s keys) k \<longleftrightarrow> badge_of s k \<in> badge_of s ` set keys"
  by (simp add: in_plan_covers plan_build_def Let_def covers_pushes)

text \<open>The groups of the keys and the rows they write.\<close>

lemma key_groups_sound:
  "(sb, idxs) \<in> set (key_groups s keys P) \<Longrightarrow> i \<in> set idxs \<Longrightarrow> i < length keys \<and> P (keys ! i) \<and> badge_of s (keys ! i) = sb"
  by (auto simp: key_groups_def Let_def)

lemma key_groups_complete:
  "i < length keys \<Longrightarrow> P (keys ! i) \<Longrightarrow> \<exists>idxs. (badge_of s (keys ! i), idxs) \<in> set (key_groups s keys P) \<and> i \<in> set idxs"
  by (auto simp: key_groups_def Let_def image_iff)

lemma key_groups_shard:
  assumes "(sb, idxs) \<in> set (key_groups s keys P)"
  obtains k where "k \<in> set keys" "P k" "badge_of s k = sb"
proof -
  obtain i where "i < length keys" "P (keys ! i)" "sb = badge_of s (keys ! i)"
    using assms by (auto simp: key_groups_def Let_def)
  then show ?thesis using that [of "keys ! i"] by simp
qed

lemma rfoldM_groups:
  assumes "\<And>sb idxs. (sb, idxs) \<in> set gs \<Longrightarrow> \<not> bad1 sb \<and> \<not> bad2 sb"
  shows "rfoldM (\<lambda>(sb, idxs) out. if bad1 sb then Inl e1 else if bad2 sb then Inl e2 else Inr (write_rows (rows sb idxs) out)) gs out
    = Inr (write_rows (concat (map (\<lambda>(sb, idxs). rows sb idxs) gs)) out)"
  using assms
proof (induction gs arbitrary: out)
  case (Cons g gs)
  obtain sb idxs where g: "g = (sb, idxs)" by (cases g)
  have "rfoldM (\<lambda>(sb, idxs) out. if bad1 sb then Inl e1 else if bad2 sb then Inl e2 else Inr (write_rows (rows sb idxs) out)) gs
      (write_rows (rows sb idxs) out)
    = Inr (write_rows (concat (map (\<lambda>(sb, idxs). rows sb idxs) gs)) (write_rows (rows sb idxs) out))"
    using Cons.prems by (intro Cons.IH) auto
  then show ?case using Cons.prems [of sb idxs] by (simp add: g write_rows_def)
qed simp

lemma group_writes:
  assumes "length out = length keys"
    and "\<And>k. k \<in> set keys \<Longrightarrow> P k \<Longrightarrow> badge_row s (buf (badge_of s k)) k = store_row s (int k)"
    and "\<And>i. i < length keys \<Longrightarrow> \<not> P (keys ! i) \<Longrightarrow> out ! i = store_row s (int (keys ! i))"
  shows "write_rows (concat (map (\<lambda>(sb, idxs). group_rows s keys (buf sb) idxs) (key_groups s keys P))) out = rows_at s keys"
proof (rule nth_equalityI)
  let ?ps = "concat (map (\<lambda>(sb, idxs). group_rows s keys (buf sb) idxs) (key_groups s keys P))"
  show "length (write_rows ?ps out) = length (rows_at s keys)" using assms(1) by (simp add: rows_at_def)
  have "row = store_row s (int (keys ! i))" if m: "(i, row) \<in> set ?ps" for i row
  proof -
    obtain sb idxs where g: "(sb, idxs) \<in> set (key_groups s keys P)" "i \<in> set idxs" "row = badge_row s (buf sb) (keys ! i)"
      using m by (auto simp: group_rows_def)
    with key_groups_sound [OF g(1,2)] assms(2) [of "keys ! i"] show ?thesis by simp
  qed
  then have agree: "\<forall>(i, row) \<in> set ?ps. row = store_row s (int (keys ! i))" by blast
  fix i assume "i < length (write_rows ?ps out)"
  then have i: "i < length out" "i < length keys" using assms(1) by simp_all
  have "i \<in> fst ` set ?ps" if P: "P (keys ! i)"
  proof -
    obtain idxs where g: "(badge_of s (keys ! i), idxs) \<in> set (key_groups s keys P)" "i \<in> set idxs"
      using key_groups_complete [OF i(2), of P s] P by blast
    then have "(i, badge_row s (buf (badge_of s (keys ! i))) (keys ! i)) \<in> set (group_rows s keys (buf (badge_of s (keys ! i))) idxs)"
      by (simp add: group_rows_def)
    with g(1) have "\<exists>g \<in> set (key_groups s keys P). (i, badge_row s (buf (badge_of s (keys ! i))) (keys ! i))
        \<in> set (case g of (sb, idxs) \<Rightarrow> group_rows s keys (buf sb) idxs)" by (metis prod.case)
    then have "(i, badge_row s (buf (badge_of s (keys ! i))) (keys ! i)) \<in> set ?ps" by (simp only: set_concat set_map UN_iff bex_simps)
    then have "fst (i, badge_row s (buf (badge_of s (keys ! i))) (keys ! i)) \<in> fst ` set ?ps" by (rule imageI)
    then show ?thesis by simp
  qed
  with assms(3) [OF i(2)] i show "write_rows ?ps out ! i = rows_at s keys ! i"
    unfolding write_rows_nth [OF agree i(1)] by (auto simp: rows_at_def)
qed

lemma gather_planned_correct:
  assumes "list_all (\<lambda>k. store_valid s (int k)) keys" "length out = length keys"
  shows "gather_planned s keys out = Inr (rows_at s keys)"
proof -
  have valid: "store_valid s (int k)" if "k \<in> set keys" for k using that assms(1) by (simp add: list_all_iff)
  have "\<not> length (ns_files s) \<le> fst sb" if "(sb, idxs) \<in> set (key_groups s keys (\<lambda>_. True))" for sb idxs
    using key_groups_shard [OF that] valid_shard(1) [OF valid] by (metis not_le)
  then have "rfoldM (\<lambda>(sb, idxs) out. if length (ns_files s) \<le> fst sb then Inl PanicException
          else Inr (write_rows (group_rows s keys (overlay (replicate (badge_bytes s) 0) (read_badge s sb)) idxs) out))
        (key_groups s keys (\<lambda>_. True)) out
      = Inr (write_rows (concat (map (\<lambda>(sb, idxs). group_rows s keys (overlay (replicate (badge_bytes s) 0) (read_badge s sb)) idxs)
          (key_groups s keys (\<lambda>_. True)))) out)"
    using rfoldM_groups [of "key_groups s keys (\<lambda>_. True)" "\<lambda>sb. length (ns_files s) \<le> fst sb" "\<lambda>_. False" PanicException
        OSError "\<lambda>sb. group_rows s keys (overlay (replicate (badge_bytes s) 0) (read_badge s sb))" out, unfolded if_False]
    by simp
  moreover have "write_rows (concat (map (\<lambda>(sb, idxs). group_rows s keys (overlay (replicate (badge_bytes s) 0) (read_badge s sb)) idxs)
      (key_groups s keys (\<lambda>_. True)))) out = rows_at s keys"
    by (rule group_writes [OF assms(2)]) (simp_all add: badge_row_read valid)
  moreover have "\<not> (keys \<noteq> [] \<and> ns_rows_per_shard s = 0)"
    using valid valid_shard(2) by (cases keys) fastforce+
  ultimately show ?thesis by (simp add: gather_planned_def)
qed

lemma rfoldM_skip: "(\<And>x. x \<in> set xs \<Longrightarrow> f x st = Inr st) \<Longrightarrow> rfoldM f xs st = Inr st"
  by (induction xs) simp_all

lemma gather_plan_correct:
  assumes "list_all (\<lambda>k. store_valid s (int k) \<and> badge_whole s k) keys" "length out = length keys"
    and "\<And>k. k \<in> set keys \<Longrightarrow> in_plan s p k"
  shows "gather_plan s keys p out = Inr (rows_at s keys)"
proof -
  have valid: "store_valid s (int k)" "badge_whole s k" if "k \<in> set keys" for k using that assms(1) by (simp_all add: list_all_iff)
  have "rfoldM (direct_row s p keys) [0..<length keys] out = Inr out"
    by (rule rfoldM_skip) (simp add: direct_row_def Let_def assms(3))
  moreover have "\<not> length (ns_files s) \<le> fst sb \<and> \<not> length (read_badge s sb) < badge_bytes s"
    if "(sb, idxs) \<in> set (key_groups s keys (in_plan s p))" for sb idxs
    using key_groups_shard [OF that] valid_shard(1) [OF valid(1)] badge_whole_length [OF valid(2)] by (metis not_le less_irrefl)
  then have "rfoldM (\<lambda>(sb, idxs) out. if length (ns_files s) \<le> fst sb then Inl PanicException
          else if length (read_badge s sb) < badge_bytes s then Inl OSError
          else Inr (write_rows (group_rows s keys (read_badge s sb) idxs) out)) (key_groups s keys (in_plan s p)) out
      = Inr (write_rows (concat (map (\<lambda>(sb, idxs). group_rows s keys (read_badge s sb) idxs) (key_groups s keys (in_plan s p)))) out)"
    by (intro rfoldM_groups [of "key_groups s keys (in_plan s p)" "\<lambda>sb. length (ns_files s) \<le> fst sb"
        "\<lambda>sb. length (read_badge s sb) < badge_bytes s" PanicException OSError "\<lambda>sb. group_rows s keys (read_badge s sb)" out])
  moreover have "write_rows (concat (map (\<lambda>(sb, idxs). group_rows s keys (read_badge s sb) idxs)
      (key_groups s keys (in_plan s p)))) out = rows_at s keys"
  proof (rule group_writes [OF assms(2)])
    fix k assume "k \<in> set keys" "in_plan s p k"
    then have "badge_row s (overlay [] (read_badge s (badge_of s k))) k = store_row s (int k)"
      by (intro badge_row_read valid)
    then show "badge_row s (read_badge s (badge_of s k)) k = store_row s (int k)" by (simp add: overlay_def)
  qed (use assms(3) in auto)
  moreover have "\<not> (keys \<noteq> [] \<and> ns_rows_per_shard s = 0)"
    using valid valid_shard(2) by (cases keys) fastforce+
  ultimately show ?thesis by (simp add: gather_plan_def)
qed

text \<open>The threads.\<close>

lemma chunk_nonempty: "c \<in> set (chunks n xs) \<Longrightarrow> c \<noteq> []"
  by (induction n xs rule: chunks.induct) (metis (no_types, lifting) chunks.simps empty_iff list.set(1) set_ConsD take_eq_Nil)

lemma chunks_same_length:
  assumes "length xs = length ys"
  shows "list_all2 (\<lambda>a b. length a = length b) (chunks n xs) (chunks n ys)"
  using assms
proof (induction n xs arbitrary: ys rule: chunks.induct)
  case (1 n xs)
  show ?case
  proof (cases "n = 0 \<or> xs = []")
    case False
    with 1 have "list_all2 (\<lambda>a b. length a = length b) (chunks n (drop n xs)) (chunks n (drop n ys))" by simp
    with False "1.prems" show ?thesis by (auto simp: chunks.simps [of n xs] chunks.simps [of n ys])
  qed (use "1.prems" in \<open>auto simp: chunks.simps\<close>)
qed

lemma gather_parallel_threads:
  assumes "\<And>kc oc. set kc \<subseteq> set keys \<Longrightarrow> kc \<noteq> [] \<Longrightarrow> length oc = length kc \<Longrightarrow> gather_naive s kc oc = (f kc oc, r)"
    and "1 < threads" "1024 < length keys" "length out = length keys" "r \<noteq> Inl PanicException"
  shows "\<exists>n > 0. gather_parallel s keys out threads = (concat (map2 f (chunks n keys) (chunks n out)), Inr ())"
proof -
  define n where "n = (length keys + threads - 1) div threads"
  have n: "0 < n" using assms(2,3) by (simp add: n_def div_greater_zero_iff)
  have run: "(case x of (kc, oc) \<Rightarrow> gather_naive s kc oc) = (case x of (kc, oc) \<Rightarrow> (f kc oc, r))"
    if x: "x \<in> set (zip (chunks n keys) (chunks n out))" for x
  proof -
    obtain kc oc where kc: "x = (kc, oc)" by (cases x)
    have "length kc = length oc"
      using chunks_same_length [OF assms(4) [symmetric], of n] x kc by (auto simp: list_all2_iff)
    moreover have "kc \<in> set (chunks n keys)" using x kc by (auto dest: set_zip_leftD)
    then have "kc \<noteq> []" "set kc \<subseteq> set (concat (chunks n keys))" by (auto simp: chunk_nonempty)
    then have "kc \<noteq> []" "set kc \<subseteq> set keys" by (simp_all add: concat_chunks [OF n] del: set_concat)
    ultimately show ?thesis using assms(1) by (simp add: kc)
  qed
  have "map (\<lambda>(kc, oc). gather_naive s kc oc) (zip (chunks n keys) (chunks n out))
      = map (\<lambda>(kc, oc). (f kc oc, r)) (zip (chunks n keys) (chunks n out))"
    by (rule map_cong [OF refl run])
  then have "gather_parallel s keys out threads = (concat (map2 f (chunks n keys) (chunks n out)), Inr ())"
    using assms(2,3,5) unfolding gather_parallel_def n_def [symmetric] Let_def
    by (auto simp: comp_def case_prod_unfold image_iff simp del: map_eq_conv)
  with n show ?thesis by blast
qed

lemma naive_loop_short:
  assumes "store_valid s (int k)" "\<not> badge_whole s k"
  shows "naive_loop s (k # ks) buf None = ([], Inl OSError)"
proof -
  have "length (read_badge s (badge_of s k)) < badge_bytes s"
  proof (cases "badge_bytes s")
    case 0
    then show ?thesis using assms(2) by (simp add: badge_whole_def)
  next
    case (Suc b)
    have "length (ns_files s ! fst (badge_of s k)) < snd (badge_of s k) * badge_bytes s + badge_bytes s"
      using assms(2) by (simp add: badge_whole_def add.commute)
    then have "length (ns_files s ! fst (badge_of s k)) - snd (badge_of s k) * badge_bytes s < badge_bytes s"
      using Suc by linarith
    then show ?thesis by (simp add: read_badge_def pread_def min_less_iff_disj)
  qed
  then show ?thesis using valid_shard(1) [OF assms(1)] by (simp add: Let_def)
qed

lemma gather_naive_short:
  assumes "list_all (\<lambda>k. store_valid s (int k) \<and> \<not> badge_whole s k) keys" "keys \<noteq> []"
  shows "gather_naive s keys out = (out, Inl OSError)"
proof -
  obtain k ks where k: "keys = k # ks" using assms(2) by (cases keys) auto
  then show ?thesis
    using assms(1) valid_shard(2) [of s k] naive_loop_short [of s k ks] by (auto simp: gather_naive_def simp del: naive_loop.simps)
qed

section \<open>The window of the planner\<close>

definition planner_inv :: "planner \<Rightarrow> bool" where
  "planner_inv sp \<longleftrightarrow> distinct (sp_queue sp) \<and> set (sp_queue sp) = sp_in_window sp"

lemma planner_evict_spec:
  "distinct q \<Longrightarrow> \<exists>q'. planner_evict w q (set q) = Some (q', set q') \<and> q' = drop (length q - w) q"
proof (induction q)
  case (Cons old q)
  show ?case
  proof (cases "w < card (set (old # q))")
    case True
    have "set (old # q) - {old} = set q" using Cons.prems by auto
    moreover have "w < Suc (length q)" using True Cons.prems by (simp add: distinct_card)
    then have "length (old # q) - w = Suc (length q - w)" by (simp add: Suc_diff_le less_Suc_eq_le)
    ultimately show ?thesis using Cons True by (subst planner_evict.simps) simp
  next
    case False
    then have "Suc (length q) \<le> w" using Cons.prems by (simp add: distinct_card)
    then show ?thesis using False by (subst planner_evict.simps) simp
  qed
qed (simp add: planner_evict.simps)

lemma advance_fold:
  assumes "planner_inv sp"
  shows "\<exists>sp' p'. fold (advance_one s) rows (n, sp, p) = (n + card (badge_of s ` set rows - sp_in_window sp), sp', p')
    \<and> planner_inv sp' \<and> sp_window sp' = sp_window sp \<and> sp_in_window sp' = sp_in_window sp \<union> badge_of s ` set rows
    \<and> pl_n p' = pl_n p + card (badge_of s ` set rows - sp_in_window sp)
    \<and> (\<forall>sb. covers (pl_badges p') sb \<longleftrightarrow> covers (pl_badges p) sb \<or> sb \<in> badge_of s ` set rows - sp_in_window sp)"
  using assms
proof (induction rows arbitrary: n sp p)
  case (Cons r rows)
  let ?k = "badge_of s r"
  show ?case
  proof (cases "?k \<in> sp_in_window sp")
    case True
    then have "badge_of s ` set (r # rows) - sp_in_window sp = badge_of s ` set rows - sp_in_window sp"
        "sp_in_window sp \<union> badge_of s ` set (r # rows) = sp_in_window sp \<union> badge_of s ` set rows" by auto
    with Cons.IH [OF Cons.prems, of n p] True show ?thesis by (simp add: advance_one_def)
  next
    case False
    define sp1 where "sp1 = sp\<lparr>sp_queue := sp_queue sp @ [?k], sp_in_window := insert ?k (sp_in_window sp)\<rparr>"
    have inv: "planner_inv sp1" using Cons.prems False by (auto simp: planner_inv_def sp1_def)
    have new: "badge_of s ` set (r # rows) - sp_in_window sp = insert ?k (badge_of s ` set rows - sp_in_window sp1)"
        "?k \<notin> badge_of s ` set rows - sp_in_window sp1"
        "sp_in_window sp \<union> badge_of s ` set (r # rows) = sp_in_window sp1 \<union> badge_of s ` set rows"
      using False by (auto simp: sp1_def)
    have card: "card (badge_of s ` set (r # rows) - sp_in_window sp) = Suc (card (badge_of s ` set rows - sp_in_window sp1))"
      unfolding new(1) by (rule card_insert_disjoint) (use new(2) in auto)
    have step: "advance_one s r (n, sp, p) = (n + 1, sp1, plan_entry ?k p)"
      using False by (simp add: advance_one_def sp1_def Let_def)
    have w: "sp_window sp1 = sp_window sp" by (simp add: sp1_def)
    obtain sp' p' where r: "fold (advance_one s) rows (n + 1, sp1, plan_entry ?k p)
          = (n + 1 + card (badge_of s ` set rows - sp_in_window sp1), sp', p')"
        "planner_inv sp'" "sp_window sp' = sp_window sp1" "sp_in_window sp' = sp_in_window sp1 \<union> badge_of s ` set rows"
        "pl_n p' = pl_n (plan_entry ?k p) + card (badge_of s ` set rows - sp_in_window sp1)"
        "\<forall>sb. covers (pl_badges p') sb \<longleftrightarrow> covers (pl_badges (plan_entry ?k p)) sb \<or> sb \<in> badge_of s ` set rows - sp_in_window sp1"
      using Cons.IH [OF inv, of "n + 1" "plan_entry ?k p"] by blast
    have "covers (pl_badges p') sb \<longleftrightarrow> covers (pl_badges p) sb \<or> sb \<in> badge_of s ` set (r # rows) - sp_in_window sp" for sb
      unfolding new(1) spec [OF r(6), of sb] by (simp add: plan_entry_def) blast
    with r(1-5) card step w new(3) show ?thesis by (simp add: plan_entry_def)
  qed
qed simp

lemma map2_first: "list_all2 Q xs ys \<Longrightarrow> map2 (\<lambda>x y. f x) xs ys = map f xs"
  by (induction rule: list_all2_induct) simp_all

lemma map2_second: "list_all2 Q xs ys \<Longrightarrow> map2 (\<lambda>x y. y) xs ys = ys"
  by (induction rule: list_all2_induct) simp_all

lemma gather_parallel_whole:
  assumes "list_all (\<lambda>k. store_valid s (int k) \<and> badge_whole s k) keys" "length out = length keys"
  shows "gather_parallel s keys out threads = (rows_at s keys, Inr ())"
proof (cases "threads \<le> 1 \<or> length keys \<le> 1024")
  case False
  have chunk: "gather_naive s kc oc = (rows_at s kc, Inr ())" if "set kc \<subseteq> set keys" "length oc = length kc" for kc oc
    using that assms(1) by (intro gather_naive_correct) (auto simp: list_all_iff)
  obtain n where n: "0 < n" "gather_parallel s keys out threads
      = (concat (map2 (\<lambda>kc oc. rows_at s kc) (chunks n keys) (chunks n out)), Inr ())"
    using gather_parallel_threads [where f = "\<lambda>kc oc. rows_at s kc", OF chunk, of keys threads out] False assms(2) by auto
  have "concat (map (rows_at s) (chunks n keys)) = rows_at s (concat (chunks n keys))"
    by (simp add: rows_at_def [abs_def] map_concat comp_def)
  then show ?thesis
    using n(2) by (simp only: map2_first [OF chunks_same_length [OF assms(2) [symmetric], of n], of "rows_at s"] concat_chunks [OF n(1)])
qed (simp add: gather_parallel_def gather_naive_correct [OF assms])

section \<open>Properties\<close>

text \<open>
  C16: every gather strategy returns the same rows when the badges of the keys are whole in their files.
\<close>

theorem gather_strategies_agree:
  assumes "list_all (\<lambda>k. store_valid s (int k) \<and> badge_whole s k) keys" "keys \<noteq> []" "length out = length keys"
  shows "gather_pp s keys = Inr (concat (rows_at s keys))
    \<and> gather_naive s keys out = (rows_at s keys, Inr ())
    \<and> gather_parallel s keys out threads = (rows_at s keys, Inr ())
    \<and> gather_planned s keys out = Inr (rows_at s keys)
    \<and> gather_plan s keys (plan_build s keys) out = Inr (rows_at s keys)"
proof -
  have valid: "list_all (\<lambda>k. store_valid s (int k)) keys" using assms(1) by (simp add: list_all_iff)
  have "gather_pp s keys = Inr (concat (rows_at s keys))"
    unfolding rows_at_def using valid assms(2) by (intro gather_pp_correct) (simp_all add: list_all_iff)
  moreover have "gather_plan s keys (plan_build s keys) out = Inr (rows_at s keys)"
    using assms(1,3) by (intro gather_plan_correct) (simp_all add: in_built_plan)
  ultimately show ?thesis
    using gather_naive_correct [OF assms(1,3)] gather_parallel_whole [OF assms(1,3)] gather_planned_correct [OF valid assms(3)]
    by simp
qed

definition demo_badges :: native_store where
  "demo_badges = \<lparr>ns_files = [replicate 4096 7, replicate 4096 9], ns_rows_per_shard = 1, ns_width = 2048\<rparr>"

theorem gather_strategies_agree_witness:
  "gather_pp demo_badges [1, 0] = Inr (concat (rows_at demo_badges [1, 0]))
    \<and> gather_naive demo_badges [1, 0] [[], []] = (rows_at demo_badges [1, 0], Inr ())
    \<and> gather_parallel demo_badges [1, 0] [[], []] 4 = (rows_at demo_badges [1, 0], Inr ())
    \<and> gather_planned demo_badges [1, 0] [[], []] = Inr (rows_at demo_badges [1, 0])
    \<and> gather_plan demo_badges [1, 0] (plan_build demo_badges [1, 0]) [[], []] = Inr (rows_at demo_badges [1, 0])"
  by (rule gather_strategies_agree)
    (simp_all add: demo_badges_def store_valid_def total_rows_def badge_whole_def badge_of_def locate_def badge_bytes_def
      badge_rows_def aligned_badge_rows_def Let_def)

text \<open>
  On a short last badge the one-thread gather raises while the threaded one reports success and leaves the
  buffer as it was; \<open>gather_pp\<close> and \<open>gather_planned\<close> return the rows.
\<close>

theorem parallel_hides_errors:
  assumes "list_all (\<lambda>k. store_valid s (int k) \<and> \<not> badge_whole s k) keys" "1024 < length keys" "1 < threads"
    and "length out = length keys"
  shows "gather_naive s keys out = (out, Inl OSError)
    \<and> gather_parallel s keys out threads = (out, Inr ())
    \<and> gather_planned s keys out = Inr (rows_at s keys)
    \<and> gather_pp s keys = Inr (concat (rows_at s keys))"
proof -
  have ne: "keys \<noteq> []" using assms(2) by auto
  have valid: "list_all (\<lambda>k. store_valid s (int k)) keys" using assms(1) by (simp add: list_all_iff)
  have pp: "gather_pp s keys = Inr (concat (rows_at s keys))"
    unfolding rows_at_def using valid ne by (intro gather_pp_correct) (simp_all add: list_all_iff)
  have chunk: "gather_naive s kc oc = (oc, Inl OSError)" if "set kc \<subseteq> set keys" "kc \<noteq> []" for kc oc
    using that assms(1) by (intro gather_naive_short) (auto simp: list_all_iff)
  obtain n where n: "0 < n" "gather_parallel s keys out threads = (concat (map2 (\<lambda>kc oc. oc) (chunks n keys) (chunks n out)), Inr ())"
    using gather_parallel_threads [where f = "\<lambda>kc oc. oc", OF chunk, of keys threads out] assms(2-4) by auto
  have "gather_parallel s keys out threads = (out, Inr ())"
    using n(2) by (simp only: map2_second [OF chunks_same_length [OF assms(4) [symmetric], of n]] concat_chunks [OF n(1)])
  with pp gather_naive_short [OF assms(1) ne] gather_planned_correct [OF valid assms(4)] show ?thesis by simp
qed

definition demo_short :: native_store where
  "demo_short = \<lparr>ns_files = [replicate 160 7], ns_rows_per_shard = 1, ns_width = 160\<rparr>"

theorem parallel_hides_errors_witness:
  "gather_naive demo_short (replicate 1025 0) (replicate 1025 []) = (replicate 1025 [], Inl OSError)
    \<and> gather_parallel demo_short (replicate 1025 0) (replicate 1025 []) 2 = (replicate 1025 [], Inr ())
    \<and> gather_planned demo_short (replicate 1025 0) (replicate 1025 []) = Inr (rows_at demo_short (replicate 1025 0))
    \<and> gather_pp demo_short (replicate 1025 0) = Inr (concat (rows_at demo_short (replicate 1025 0)))"
  by (rule parallel_hides_errors)
    (simp_all add: demo_short_def store_valid_def total_rows_def badge_whole_def badge_of_def locate_def badge_bytes_def
      badge_rows_def aligned_badge_rows_def Let_def list_all_iff)

text \<open>
  C27: advancing the planner terminates, keeps its queue and its window equal and the window within its
  budget, and adds to the plan exactly the badges of the rows that were not resident, each once.
\<close>

theorem planner_advance:
  assumes "planner_inv sp"
  shows "\<exists>n sp' p'. advance s rows sp p = Some (n, sp', p') \<and> planner_inv sp' \<and> card (sp_in_window sp') \<le> sp_window sp
    \<and> n = card (badge_of s ` set rows - sp_in_window sp) \<and> pl_n p' = pl_n p + n
    \<and> (\<forall>k. in_plan s p' k \<longleftrightarrow> in_plan s p k \<or> badge_of s k \<in> badge_of s ` set rows - sp_in_window sp)"
proof -
  obtain sp1 p1 where f: "fold (advance_one s) rows (0, sp, p) = (card (badge_of s ` set rows - sp_in_window sp), sp1, p1)"
      "planner_inv sp1" "sp_window sp1 = sp_window sp"
      "pl_n p1 = pl_n p + card (badge_of s ` set rows - sp_in_window sp)"
      "\<forall>sb. covers (pl_badges p1) sb \<longleftrightarrow> covers (pl_badges p) sb \<or> sb \<in> badge_of s ` set rows - sp_in_window sp"
    using advance_fold [OF assms, of s rows 0 p] by auto
  have q: "distinct (sp_queue sp1)" "set (sp_queue sp1) = sp_in_window sp1" using f(2) by (simp_all add: planner_inv_def)
  define q' where "q' = drop (length (sp_queue sp1) - sp_window sp) (sp_queue sp1)"
  have e: "planner_evict (sp_window sp1) (sp_queue sp1) (sp_in_window sp1) = Some (q', set q')"
    using planner_evict_spec [OF q(1), of "sp_window sp1"] f(3) q(2) by (auto simp: q'_def)
  have "distinct q'" "card (set q') \<le> sp_window sp"
    using q(1) by (auto simp: q'_def distinct_card intro!: order_trans [OF card_length])
  moreover have "\<forall>k. in_plan s p1 k \<longleftrightarrow> in_plan s p k \<or> badge_of s k \<in> badge_of s ` set rows - sp_in_window sp"
    unfolding in_plan_covers using f(5) by blast
  ultimately show ?thesis using f(1-4) e by (simp add: advance_def planner_inv_def)
qed

theorem planner_advance_witness:
  "\<exists>n sp' p'. advance demo_short [0, 0] (planner_new 4) \<lparr>pl_badges = [], pl_n = 0\<rparr> = Some (n, sp', p') \<and> planner_inv sp'
    \<and> card (sp_in_window sp') \<le> sp_window (planner_new 4)
    \<and> n = card (badge_of demo_short ` set [0, 0] - sp_in_window (planner_new 4)) \<and> pl_n p' = pl_n \<lparr>pl_badges = [], pl_n = 0\<rparr> + n
    \<and> (\<forall>k. in_plan demo_short p' k \<longleftrightarrow> in_plan demo_short \<lparr>pl_badges = [], pl_n = 0\<rparr> k
        \<or> badge_of demo_short k \<in> badge_of demo_short ` set [0, 0] - sp_in_window (planner_new 4))"
  by (rule planner_advance) (simp add: planner_inv_def planner_new_def)

text \<open>
  A key outside the plan is read at its global offset in the file of its shard: a row past the first shard that
  \<open>gather_pp\<close> returns makes \<open>gather_plan\<close> raise, as it does for the badges the planner holds resident.
\<close>

theorem resident_key_misread:
  assumes "store_valid s (int k)" "length (ns_files s ! fst (badge_of s k)) = ns_rows_per_shard s * ns_width s"
    and "ns_rows_per_shard s \<le> k" "0 < ns_width s" "planner_inv sp" "badge_of s k \<in> sp_in_window sp"
  shows "\<exists>sp' p. advance s [k] sp \<lparr>pl_badges = [], pl_n = 0\<rparr> = Some (0, sp', p)
    \<and> gather_plan s [k] p [z] = Inl OSError \<and> gather_pp s [k] = Inr (store_row s (int k))"
proof -
  let ?p = "\<lparr>pl_badges = [], pl_n = 0\<rparr> :: plan"
  have "advance_one s k (0, sp, ?p) = (0, sp, ?p)" using assms(6) by (simp add: advance_one_def)
  moreover obtain q W where "planner_evict (sp_window sp) (sp_queue sp) (sp_in_window sp) = Some (q, W)"
    using planner_evict_spec [of "sp_queue sp" "sp_window sp"] assms(5) by (auto simp: planner_inv_def)
  ultimately have "\<exists>sp'. advance s [k] sp ?p = Some (0, sp', ?p)" by (simp add: advance_def)
  moreover have "\<not> in_plan s ?p k" by (simp add: in_plan_covers)
  moreover have "length (pread (ns_files s ! fst (badge_of s k)) (k * ns_width s) (ns_width s)) < ns_width s"
  proof -
    have "ns_rows_per_shard s * ns_width s \<le> k * ns_width s" using assms(3) by (rule mult_le_mono1)
    with assms(2,4) show ?thesis by (simp add: pread_def)
  qed
  ultimately show ?thesis
    using valid_shard [OF assms(1)] gather_pp_correct [of "[k]" s] assms(1)
    by (auto simp: gather_plan_def direct_row_def Let_def)
qed

definition demo_two_shards :: native_store where
  "demo_two_shards = \<lparr>ns_files = [[1], [2]], ns_rows_per_shard = 1, ns_width = 1\<rparr>"

theorem resident_key_misread_witness:
  "\<exists>sp' p. advance demo_two_shards [1] \<lparr>sp_window = 4, sp_queue = [(1, 0)], sp_in_window = {(1, 0)}\<rparr> \<lparr>pl_badges = [], pl_n = 0\<rparr> = Some (0, sp', p)
    \<and> gather_plan demo_two_shards [1] p [[]] = Inl OSError \<and> gather_pp demo_two_shards [1] = Inr (store_row demo_two_shards (int 1))"
  by (rule resident_key_misread)
    (simp_all add: demo_two_shards_def store_valid_def total_rows_def badge_of_def locate_def Let_def badge_rows_def
      aligned_badge_rows_def planner_inv_def)

end
