(* ===== verification/ExtractRows.thy ===== *)
theory ExtractRows
  imports Discovery
begin

text \<open>
  \<open>scripts/extract_ple_rows.py\<close>: the tensors of the table are copied from the safetensors files of a checkpoint to the shard
  files of a row store.  The cache of parsed headers is not modelled: no source is written.
  The lemmas show that a store opened on the extracted files serves the rows of the tensors.
\<close>

section \<open>Names and constants\<close>

definition EX_SHARDS :: nat where "EX_SHARDS = 128"
definition EX_ROWS :: nat where "EX_ROWS = 2500012"
definition EX_WIDTH :: nat where "EX_WIDTH = 160"
definition COPY_BYTES :: nat where "COPY_BYTES = 67108864"

definition shard_key :: "nat \<Rightarrow> string" where
  "shard_key i = ''model.language_model.layers.1.ple.ple_embedding.ngram_embedding.shard_'' @ nat_digits i @ ''.weight''"

text \<open>\<open>shard_{i:03d}.bin\<close>.\<close>

definition shard_file :: "nat \<Rightarrow> string" where
  "shard_file i = ''shard_'' @ replicate (3 - length (nat_digits i)) (CHR ''0'') @ nat_digits i @ ''.bin''"

section \<open>One shard\<close>

text \<open>The copy loop, in pieces of 64 MiB.\<close>

function copy_loop :: "bytes \<Rightarrow> nat \<Rightarrow> int \<Rightarrow> bytes" where
  "copy_loop f pos remaining =
     (if remaining \<le> 0 then []
      else let buf = take (nat (min (int COPY_BYTES) remaining)) (drop pos f)
        in if buf = [] then [] else buf @ copy_loop f (pos + length buf) (remaining - int (length buf)))"
  by pat_completeness auto
termination
  by (relation "measure (\<lambda>(f, pos, remaining). nat remaining)") auto

declare copy_loop.simps [simp del]

text \<open>The start, the end and the checked shape of an entry.\<close>

definition shard_extent :: "json \<Rightarrow> (int \<times> int) res" where
  "shard_extent entry =
     rbind (data_offsets entry) (\<lambda>(s, t). rbind (json_item entry ''shape'') (\<lambda>v. rbind (json_iter v) (\<lambda>xs.
       case xs of
         [rows, width] \<Rightarrow>
           if rows = JInt (int EX_ROWS) \<and> width = JInt (int EX_WIDTH)
           then rbind (as_index t) (\<lambda>t. rbind (as_index s) (\<lambda>s. Inr (s, t))) else Inl AssertionError
       | _ \<Rightarrow> Inl ValueError)))"

text \<open>The file written for a shard, or \<open>None\<close> when one of the right size is already there.\<close>

definition extract_shard :: "files \<Rightarrow> string \<Rightarrow> string \<Rightarrow> nat \<Rightarrow> json \<Rightarrow> (string \<times> bytes) option res" where
  "extract_shard fl src dst i fname =
     rbind (as_name fname) (\<lambda>fname. rbind (open_file fl (path_div src fname)) (\<lambda>f. rbind (read_header f) (\<lambda>(n, h).
     rbind (json_item h (shard_key i)) (\<lambda>entry. rbind (shard_extent entry) (\<lambda>(s, t).
       let nbytes = t - s; out = path_div dst (shard_file i); data_start = int n + 8
       in if (case fl out of None \<Rightarrow> False | Some b \<Rightarrow> int (length b) = nbytes) then Inr None
          else if data_start + s < 0 then Inl OSError
          else Inr (Some (out, copy_loop f (nat (data_start + s)) nbytes)))))))"

text \<open>The shards are written one after the other; an exception leaves those written before it.\<close>

fun extract_loop :: "string \<Rightarrow> string \<Rightarrow> (nat \<times> json) list \<Rightarrow> files \<Rightarrow> unit res \<times> files" where
  "extract_loop src dst [] fl = (Inr (), fl)"
| "extract_loop src dst ((i, fname) # shards) fl =
     (case extract_shard fl src dst i fname of
        Inl e \<Rightarrow> (Inl e, fl)
      | Inr None \<Rightarrow> extract_loop src dst shards fl
      | Inr (Some (out, bs)) \<Rightarrow> extract_loop src dst shards (fl(out \<mapsto> bs)))"

definition extract_rows :: "string \<Rightarrow> string \<Rightarrow> files \<Rightarrow> unit res \<times> files" where
  "extract_rows src dst fl =
     (case rbind (load_json fl (index_path src)) (\<lambda>idx. rbind (json_item idx ''weight_map'') (\<lambda>wm.
             rmapM (\<lambda>i. rmap (\<lambda>fname. (i, fname)) (json_item wm (shard_key i))) [0..<EX_SHARDS])) of
        Inl e \<Rightarrow> (Inl e, fl)
      | Inr shards \<Rightarrow> extract_loop src dst shards fl)"

section \<open>The copies\<close>

lemma copy_loop_take: "copy_loop f pos n = take (nat n) (drop pos f)"
proof (induction f pos n rule: copy_loop.induct)
  case (1 f pos n)
  define buf where "buf = take (nat (min (int COPY_BYTES) n)) (drop pos f)"
  show ?case
  proof (cases "n \<le> 0")
    case False
    show ?thesis
    proof (cases "buf = []")
      case True
      with False have "drop pos f = []" by (auto simp: buf_def COPY_BYTES_def min_def split: if_splits)
      then show ?thesis using False True by (subst copy_loop.simps) (simp add: Let_def buf_def [symmetric])
    next
      case ne: False
      have "take (length (take m xs)) xs = take m xs" for m and xs :: bytes by (cases "m \<le> length xs") simp_all
      then have "buf = take (length buf) (drop pos f)" unfolding buf_def by (simp only:)
      moreover have "nat (min (int COPY_BYTES) n) \<le> nat n" by (rule nat_mono) simp
      then have "length buf \<le> nat n" by (simp add: buf_def)
      moreover have "copy_loop f (pos + length buf) (n - int (length buf)) = take (nat n - length buf) (drop (length buf) (drop pos f))"
      proof -
        have "nat (n - int (length buf)) = nat n - length buf" by linarith
        then show ?thesis using "1" [OF False buf_def ne] by (simp add: add.commute)
      qed
      moreover have "copy_loop f pos n = buf @ copy_loop f (pos + length buf) (n - int (length buf))"
        using False ne by (subst copy_loop.simps) (simp add: Let_def buf_def [symmetric])
      ultimately show ?thesis
        using take_add [of "length buf" "nat n - length buf" "drop pos f"] by simp
    qed
  qed (simp add: copy_loop.simps)
qed

lemma digits_val_zeros: "digits_val (replicate k (CHR ''0'') @ ds) = digits_val ds"
proof -
  have "digit_val (CHR ''0'') = 0" by code_simp
  then show ?thesis by (induction k) (simp_all add: digits_val_def)
qed

lemma nat_digits_inj: "nat_digits i = nat_digits j \<longleftrightarrow> i = j"
  using nat_digits_props [of i] nat_digits_props [of j] by metis

lemma shard_key_inj: "shard_key i = shard_key j \<longleftrightarrow> i = j"
  by (simp add: shard_key_def nat_digits_inj)

lemma shard_file_inj: "shard_file i = shard_file j \<longleftrightarrow> i = j"
proof
  assume "shard_file i = shard_file j"
  then have "replicate (3 - length (nat_digits i)) (CHR ''0'') @ nat_digits i = replicate (3 - length (nat_digits j)) (CHR ''0'') @ nat_digits j"
    unfolding shard_file_def append_assoc [symmetric] by (simp only: append_same_eq) (simp only: append_assoc same_append_eq)
  then show "i = j" using nat_digits_props [of i] nat_digits_props [of j] by (metis digits_val_zeros)
qed simp

section \<open>The extracted store\<close>

definition table_bytes :: nat where "table_bytes = EX_ROWS * EX_WIDTH"

text \<open>A safetensors file that holds a tensor of the table: its header declares the shape and the extent.\<close>

definition holds_table :: "bytes \<Rightarrow> string \<Rightarrow> bytes \<Rightarrow> bool" where
  "holds_table f name bs \<longleftrightarrow>
     (\<exists>header data entry s. f = safetensors header data \<and> json_wf header \<and> length (dumps header) < 2 ^ 63
        \<and> json_item header name = Inr (JObj entry)
        \<and> dict_get entry ''data_offsets'' = Some (JList [JInt (int s), JInt (int (s + length bs))])
        \<and> dict_get entry ''shape'' = Some (JList [JInt (int EX_ROWS), JInt (int EX_WIDTH)])
        \<and> take (length bs) (drop s data) = bs \<and> length bs = table_bytes)"

text \<open>The destination of a shard is free, has another size, or is already the tensor.\<close>

definition resumable :: "files \<Rightarrow> string \<Rightarrow> bytes \<Rightarrow> bool" where
  "resumable fl out bs \<longleftrightarrow> (case fl out of None \<Rightarrow> True | Some b \<Rightarrow> length b = table_bytes \<longrightarrow> b = bs)"

lemma extract_shard_holds:
  assumes "fname = JStr name" "fl (path_div src name) = Some f" "holds_table f (shard_key i) bs"
    and "resumable fl (path_div dst (shard_file i)) bs"
  shows "extract_shard fl src dst i fname = Inr None \<and> fl (path_div dst (shard_file i)) = Some bs
    \<or> extract_shard fl src dst i fname = Inr (Some (path_div dst (shard_file i), bs))"
proof -
  obtain header data entry s where h: "f = safetensors header data" "json_wf header" "length (dumps header) < 2 ^ 63"
      "json_item header (shard_key i) = Inr (JObj entry)"
      "dict_get entry ''data_offsets'' = Some (JList [JInt (int s), JInt (int (s + length bs))])"
      "dict_get entry ''shape'' = Some (JList [JInt (int EX_ROWS), JInt (int EX_WIDTH)])"
      "take (length bs) (drop s data) = bs" "length bs = table_bytes"
    using assms(3) unfolding holds_table_def by blast
  have extent: "shard_extent (JObj entry) = Inr (int s, int (s + length bs))"
    using h(5,6) by (simp add: shard_extent_def data_offsets_def json_item_obj json_iter_def as_index_def)
  have "length (utf8_encode (dumps header)) = length (dumps header)" by simp
  then have "drop (nat (int (length (dumps header)) + 8 + int s)) f = drop s data"
    by (simp add: h(1) safetensors_def Let_def nat_add_distrib add.commute)
  then have "copy_loop f (nat (int (length (dumps header)) + 8 + int s)) (int (s + length bs) - int s) = bs"
    using h(7) by (simp add: copy_loop_take)
  then show ?thesis
    using assms(2,4) h(4,8) read_header_written [OF h(2,3), of data]
    by (auto simp: extract_shard_def assms(1) as_name_def open_file_def extent h(1) Let_def resumable_def split: option.splits)
qed

lemma plain_path_parts:
  assumes "p \<noteq> []" "slash \<notin> set p" "p \<noteq> ''.''"
  shows "path_parts (path_div dir p) = path_parts dir @ [p]"
proof -
  have "\<not> is_absolute p" using assms(1,2) by (cases p) (auto simp: is_absolute_def path_root_def split: list.splits)
  moreover have "path_parts p = [p]" using assms by (simp add: path_parts_def split_on_one)
  ultimately show ?thesis by (simp add: path_div_spec)
qed

lemma slash_digits: "slash \<notin> set (nat_digits k)"
proof -
  have "is_digit c \<Longrightarrow> c \<noteq> slash" for c by (auto simp: is_digit_def)
  then show ?thesis using nat_digits_props [of k] by blast
qed

lemma shard_path_parts: "path_parts (path_div dst (shard_file k)) = path_parts dst @ [shard_file k]"
  using slash_digits [of k] by (intro plain_path_parts) (auto simp: shard_file_def)

lemma out_paths_distinct: "path_div dst (shard_file i) = path_div dst (shard_file j) \<longleftrightarrow> i = j"
  by (metis shard_path_parts append1_eq_conv shard_file_inj)

lemma extract_loop_holds:
  assumes "\<And>i fname. (i, fname) \<in> set shards \<Longrightarrow> \<exists>name f. fname = JStr name \<and> fl (path_div src name) = Some f
      \<and> holds_table f (shard_key i) (t i) \<and> (\<forall>j. path_div src name \<noteq> path_div dst (shard_file j))"
    and "\<And>i fname. (i, fname) \<in> set shards \<Longrightarrow> resumable fl (path_div dst (shard_file i)) (t i)"
  shows "\<exists>fl'. extract_loop src dst shards fl = (Inr (), fl')
    \<and> (\<forall>i \<in> fst ` set shards. fl' (path_div dst (shard_file i)) = Some (t i))
    \<and> (\<forall>p. p \<notin> (\<lambda>i. path_div dst (shard_file i)) ` fst ` set shards \<longrightarrow> fl' p = fl p)"
  using assms
proof (induction shards arbitrary: fl)
  case (Cons s shards)
  obtain i fname where s: "s = (i, fname)" by (cases s)
  let ?out = "path_div dst (shard_file i)"
  obtain name f where src: "fname = JStr name" "fl (path_div src name) = Some f" "holds_table f (shard_key i) (t i)"
    using Cons.prems(1) [of i fname] s by auto
  define fl1 where "fl1 = (if extract_shard fl src dst i fname = Inr None then fl else fl(?out \<mapsto> t i))"
  have step: "extract_loop src dst (s # shards) fl = extract_loop src dst shards fl1" and out: "fl1 ?out = Some (t i)"
    and other: "\<And>p. p \<noteq> ?out \<Longrightarrow> fl1 p = fl p"
    using extract_shard_holds [of fname name fl src f i "t i" dst] src Cons.prems(2) [of i fname] by (auto simp: s fl1_def)
  have "\<exists>fl'. extract_loop src dst shards fl1 = (Inr (), fl')
    \<and> (\<forall>i \<in> fst ` set shards. fl' (path_div dst (shard_file i)) = Some (t i))
    \<and> (\<forall>p. p \<notin> (\<lambda>i. path_div dst (shard_file i)) ` fst ` set shards \<longrightarrow> fl' p = fl1 p)"
  proof (rule Cons.IH)
    fix j fn assume m: "(j, fn) \<in> set shards"
    then obtain nm g where g: "fn = JStr nm" "fl (path_div src nm) = Some g" "holds_table g (shard_key j) (t j)"
        "\<forall>j. path_div src nm \<noteq> path_div dst (shard_file j)"
      using Cons.prems(1) [of j fn] by auto
    then show "\<exists>name f. fn = JStr name \<and> fl1 (path_div src name) = Some f \<and> holds_table f (shard_key j) (t j)
        \<and> (\<forall>j. path_div src name \<noteq> path_div dst (shard_file j))" using other by auto
    have "resumable fl (path_div dst (shard_file j)) (t j)" using Cons.prems(2) m by auto
    then show "resumable fl1 (path_div dst (shard_file j)) (t j)"
      using out other [of "path_div dst (shard_file j)"] by (cases "j = i") (auto simp: resumable_def out_paths_distinct)
  qed
  then obtain fl' where fl': "extract_loop src dst shards fl1 = (Inr (), fl')"
      "\<forall>i \<in> fst ` set shards. fl' (path_div dst (shard_file i)) = Some (t i)"
      "\<forall>p. p \<notin> (\<lambda>i. path_div dst (shard_file i)) ` fst ` set shards \<longrightarrow> fl' p = fl1 p" by blast
  have "fl' ?out = Some (t i)"
    using fl'(2,3) out by (cases "i \<in> fst ` set shards") (auto simp: out_paths_distinct image_iff)
  with fl' step other show ?case by (auto simp: s)
qed simp

text \<open>A store opens on whole shard files and serves the rows of each.\<close>

lemma whole_shards_served:
  assumes "\<And>i. i < n \<Longrightarrow> dir i = Some (t i)" "\<And>i. i < n \<Longrightarrow> length (t i) = rps * w" "n * rps < 2 ^ 64"
  shows "\<exists>st. store_open dir n rps w = Inr st \<and> total_rows st = n * rps \<and> ns_rows_per_shard st = rps \<and> length (ns_files st) = n
    \<and> (\<forall>rows. list_all (\<lambda>r. 0 \<le> r \<and> nat r < n * rps) rows
        \<longrightarrow> store_fetch st rows = Inr (concat (map (\<lambda>r. py_slice (nat r mod rps) w (t (nat r div rps))) rows)))"
proof -
  define st where "st = \<lparr>ns_files = map t [0..<n], ns_rows_per_shard = rps, ns_width = w\<rparr>"
  have "rmapM (\<lambda>i. case dir i of None \<Rightarrow> Inl OSError | Some f \<Rightarrow> Inr f) [0..<n] = Inr (map t [0..<n])"
    by (rule rmapM_Inr) (simp add: assms(1))
  then have opened: "store_open dir n rps w = Inr st" by (simp add: store_open_def st_def)
  have row: "store_valid st r \<and> store_row st r = py_slice (nat r mod rps) w (t (nat r div rps))" if r: "0 \<le> r \<and> nat r < n * rps" for r
  proof -
    have rps: "0 < rps" using r by (cases rps) auto
    then have i: "nat r div rps < n" using r by (simp add: div_less_iff_less_mult)
    have "nat r mod rps + 1 \<le> rps" using rps by (simp add: Suc_leI)
    then have "(nat r mod rps + 1) * w \<le> rps * w" by (rule mult_right_mono) simp
    moreover have "r < 2 ^ 64" using less_trans [of "nat r", OF _ assms(3)] r by (simp add: nat_less_iff)
    ultimately show ?thesis
      using r i assms(2) [OF i] by (simp add: store_valid_def store_row_def st_def total_rows_def py_slice_def pread_def)
  qed
  have "store_fetch st rows = Inr (concat (map (\<lambda>r. py_slice (nat r mod rps) w (t (nat r div rps))) rows))"
    if ok: "list_all (\<lambda>r. 0 \<le> r \<and> nat r < n * rps) rows" for rows
  proof -
    have "list_all (store_valid st) rows" using ok row by (auto simp: list_all_iff)
    then have "store_fetch st rows = Inr (concat (map (store_row st) rows))" by (rule store_fetch_correct)
    also have "map (store_row st) rows = map (\<lambda>r. py_slice (nat r mod rps) w (t (nat r div rps))) rows"
      using ok row by (intro map_cong) (auto simp: list_all_iff)
    finally show ?thesis .
  qed
  then show ?thesis using opened by (intro exI [of _ st]) (simp add: st_def total_rows_def)
qed

section \<open>Properties\<close>

text \<open>
  C28: the extraction writes a row store of the checkpoint's table: whatever shards an earlier run left complete, it
  succeeds, a store opens on its output, every row fetched is the row of the tensor, and no other file changes.
\<close>

theorem extracted_rows_served:
  assumes "load_json fl (index_path src) = Inr idx" "json_item idx ''weight_map'' = Inr wm"
    and "\<And>i. i < EX_SHARDS \<Longrightarrow> \<exists>name f. json_item wm (shard_key i) = Inr (JStr name) \<and> fl (path_div src name) = Some f
      \<and> holds_table f (shard_key i) (t i) \<and> (\<forall>j. path_div src name \<noteq> path_div dst (shard_file j))"
    and "\<And>i. i < EX_SHARDS \<Longrightarrow> resumable fl (path_div dst (shard_file i)) (t i)"
    and "list_all (\<lambda>r. 0 \<le> r \<and> nat r < EX_SHARDS * EX_ROWS) rows"
  shows "\<exists>fl' st. extract_rows src dst fl = (Inr (), fl')
    \<and> store_open (\<lambda>i. fl' (path_div dst (shard_file i))) EX_SHARDS EX_ROWS EX_WIDTH = Inr st
    \<and> store_fetch st rows = Inr (concat (map (\<lambda>r. py_slice (nat r mod EX_ROWS) EX_WIDTH (t (nat r div EX_ROWS))) rows))
    \<and> (\<forall>p. p \<notin> range (\<lambda>i. path_div dst (shard_file i)) \<longrightarrow> fl' p = fl p)"
proof -
  have "\<forall>i. \<exists>name. i < EX_SHARDS \<longrightarrow> json_item wm (shard_key i) = Inr (JStr name) \<and> (\<exists>f. fl (path_div src name) = Some f
      \<and> holds_table f (shard_key i) (t i) \<and> (\<forall>j. path_div src name \<noteq> path_div dst (shard_file j)))"
    using assms(3) by blast
  then obtain nm where nm: "\<And>i. i < EX_SHARDS \<Longrightarrow> json_item wm (shard_key i) = Inr (JStr (nm i)) \<and> (\<exists>f. fl (path_div src (nm i)) = Some f
      \<and> holds_table f (shard_key i) (t i) \<and> (\<forall>j. path_div src (nm i) \<noteq> path_div dst (shard_file j)))"
    by metis
  define shards where "shards = map (\<lambda>i. (i, JStr (nm i))) [0..<EX_SHARDS]"
  have names: "rmapM (\<lambda>i. rmap (\<lambda>fname. (i, fname)) (json_item wm (shard_key i))) [0..<EX_SHARDS] = Inr shards"
    unfolding shards_def by (rule rmapM_Inr) (simp add: nm)
  have ids: "fst ` set shards = {..<EX_SHARDS}" by (auto simp: shards_def image_iff)
  obtain fl' where fl': "extract_loop src dst shards fl = (Inr (), fl')"
      "\<forall>i \<in> fst ` set shards. fl' (path_div dst (shard_file i)) = Some (t i)"
      "\<forall>p. p \<notin> (\<lambda>i. path_div dst (shard_file i)) ` fst ` set shards \<longrightarrow> fl' p = fl p"
    using extract_loop_holds [of shards fl src t dst] nm assms(4) by (fastforce simp: shards_def)
  have size: "length (t i) = EX_ROWS * EX_WIDTH" if "i < EX_SHARDS" for i
    using nm [OF that] by (auto simp: holds_table_def table_bytes_def)
  have written: "fl' (path_div dst (shard_file i)) = Some (t i)" if "i < EX_SHARDS" for i
    using fl'(2) ids that by blast
  have "EX_SHARDS * EX_ROWS < 2 ^ 64" by (simp add: EX_SHARDS_def EX_ROWS_def)
  from whole_shards_served [where t = t, OF written size this] assms(5)
  obtain st where st: "store_open (\<lambda>i. fl' (path_div dst (shard_file i))) EX_SHARDS EX_ROWS EX_WIDTH = Inr st"
      "store_fetch st rows = Inr (concat (map (\<lambda>r. py_slice (nat r mod EX_ROWS) EX_WIDTH (t (nat r div EX_ROWS))) rows))"
    by blast
  have "extract_rows src dst fl = (Inr (), fl')"
    using fl'(1) by (simp add: extract_rows_def assms(1,2) names)
  with st fl'(3) show ?thesis by blast
qed

text \<open>A checkpoint with one file for every shard, each of one byte value.\<close>

definition demo_tensor :: "nat \<Rightarrow> bytes" where
  "demo_tensor i = replicate table_bytes (of_nat i)"

definition demo_entry :: json where
  "demo_entry = JObj [(''data_offsets'', JList [JInt 0, JInt (int table_bytes)]), (''shape'', JList [JInt (int EX_ROWS), JInt (int EX_WIDTH)])]"

definition demo_shard :: "nat \<Rightarrow> bytes" where
  "demo_shard i = safetensors (JObj [(shard_key i, demo_entry)]) (demo_tensor i)"

definition demo_name :: "nat \<Rightarrow> string" where
  "demo_name i = CHR ''f'' # nat_digits i"

definition demo_weight_map :: json where
  "demo_weight_map = JObj (map (\<lambda>i. (shard_key i, JStr (demo_name i))) [0..<EX_SHARDS])"

definition demo_checkpoint :: files where
  "demo_checkpoint p =
     (if p = index_path ''s'' then Some (utf8_encode (dumps (JObj [(''weight_map'', demo_weight_map)])))
      else map_option demo_shard (find (\<lambda>i. p = path_div ''s'' (demo_name i)) [0..<EX_SHARDS]))"

lemma length_dump_str: "length (dump_str s) \<le> 2 + 6 * length s"
proof -
  have "length (escape_char c) \<le> 6" for c by (simp add: escape_char_def Let_def split: option.split)
  then have "length (concat (map escape_char s)) \<le> 6 * length s"
    by (induction s) (simp_all add: add_le_mono)
  then show ?thesis by (simp add: dump_str_def)
qed

lemma length_nat_digits: "n < 10 ^ Suc k \<Longrightarrow> length (nat_digits n) \<le> Suc k"
proof (induction k arbitrary: n)
  case (Suc k)
  show ?case
  proof (cases "n < 10")
    case False
    have "n div 10 < 10 ^ Suc k" using Suc.prems by (simp add: div_less_iff_less_mult mult.commute)
    with Suc.IH False show ?thesis by (simp add: nat_digits.simps [of n])
  qed (simp add: nat_digits.simps [of n])
qed (simp add: nat_digits.simps)

lemma length_demo_entry: "length (dumps demo_entry) \<le> 1000"
proof -
  have digits: "length (nat_digits table_bytes) \<le> 10" "length (nat_digits EX_ROWS) \<le> 10" "length (nat_digits EX_WIDTH) \<le> 10" "length (nat_digits 0) \<le> 10"
    using length_nat_digits [of table_bytes 9] length_nat_digits [of EX_ROWS 9] length_nat_digits [of EX_WIDTH 9] length_nat_digits [of 0 9]
    by (simp_all add: table_bytes_def EX_ROWS_def EX_WIDTH_def)
  have "length (dump_str ''data_offsets'') \<le> 100" "length (dump_str ''shape'') \<le> 100"
    using length_dump_str [of "''data_offsets''"] length_dump_str [of "''shape''"] by simp_all
  with digits show ?thesis by (simp add: demo_entry_def int_str_def)
qed

lemma demo_shard_holds: "i < EX_SHARDS \<Longrightarrow> holds_table (demo_shard i) (shard_key i) (demo_tensor i)"
proof -
  assume i: "i < EX_SHARDS"
  have "length (nat_digits i) \<le> 3" using i length_nat_digits [of i 2] by (simp add: EX_SHARDS_def)
  then have "length (dump_str (shard_key i)) \<le> 2 + 6 * 103"
    using length_dump_str [of "shard_key i"] by (simp add: shard_key_def)
  with length_demo_entry have "length (dumps (JObj [(shard_key i, demo_entry)])) < 10000" by simp
  then have "length (dumps (JObj [(shard_key i, demo_entry)])) < 2 ^ 63" by (rule less_trans) simp
  moreover have "json_wf (JObj [(shard_key i, demo_entry)])" by (simp add: demo_entry_def)
  ultimately show ?thesis
    unfolding holds_table_def demo_shard_def
    by (intro exI [of _ "JObj [(shard_key i, demo_entry)]"] exI [of _ "demo_tensor i"] exI conjI [OF refl] exI [of _ "0 :: nat"])
      (auto simp: json_item_obj dict_get_def demo_entry_def demo_tensor_def)
qed

lemma demo_paths:
  "path_div ''s'' (demo_name i) = path_div ''s'' (demo_name j) \<longleftrightarrow> i = j"
  "path_div ''s'' (demo_name i) \<noteq> index_path ''s''"
  "path_div ''s'' (demo_name i) \<noteq> path_div ''d'' (shard_file j)"
  "index_path ''s'' \<noteq> path_div ''d'' (shard_file j)"
proof -
  have f: "path_parts (path_div ''s'' (demo_name k)) = path_parts ''s'' @ [demo_name k]" for k
    using slash_digits [of k] by (intro plain_path_parts) (auto simp: demo_name_def)
  have ix: "path_parts (index_path ''s'') = path_parts ''s'' @ [''model.safetensors.index.json'']"
    unfolding index_path_def by (rule plain_path_parts) simp_all
  have heads: "path_parts ''s'' = [''s'']" "path_parts ''d'' = [''d'']" by code_simp+
  show "path_div ''s'' (demo_name i) = path_div ''s'' (demo_name j) \<longleftrightarrow> i = j"
    by (metis f append1_eq_conv demo_name_def list.inject nat_digits_inj)
  have "path_parts (path_div ''s'' (demo_name i)) \<noteq> path_parts (index_path ''s'')"
    unfolding f ix by (simp add: demo_name_def)
  then show "path_div ''s'' (demo_name i) \<noteq> index_path ''s''" by metis
  have "path_parts (path_div ''s'' (demo_name i)) \<noteq> path_parts (path_div ''d'' (shard_file j))"
    unfolding f shard_path_parts heads by simp
  then show "path_div ''s'' (demo_name i) \<noteq> path_div ''d'' (shard_file j)" by metis
  have "path_parts (index_path ''s'') \<noteq> path_parts (path_div ''d'' (shard_file j))"
    unfolding ix shard_path_parts heads by simp
  then show "index_path ''s'' \<noteq> path_div ''d'' (shard_file j)" by metis
qed

lemma demo_weights: "i < EX_SHARDS \<Longrightarrow> json_item demo_weight_map (shard_key i) = Inr (JStr (demo_name i))"
proof -
  assume i: "i < EX_SHARDS"
  have "dict_get (map (\<lambda>i. (shard_key i, JStr (demo_name i))) is) (shard_key i) = (if i \<in> set is then Some (JStr (demo_name i)) else None)" for "is"
    by (induction "is") (auto simp: dict_get_def shard_key_inj)
  then show ?thesis using i by (simp add: demo_weight_map_def json_item_obj)
qed

lemma demo_index_loads: "load_json demo_checkpoint (index_path ''s'') = Inr (JObj [(''weight_map'', demo_weight_map)])"
proof -
  have "distinct (map shard_key [0..<EX_SHARDS])" by (simp add: distinct_map inj_on_def shard_key_inj)
  then have "json_wf (JObj [(''weight_map'', demo_weight_map)])"
    by (simp add: demo_weight_map_def list_all_iff comp_def)
  then show ?thesis by (simp add: load_json_def open_file_def demo_checkpoint_def loads_wire del: dumps.simps)
qed

lemma demo_source: "i < EX_SHARDS \<Longrightarrow> demo_checkpoint (path_div ''s'' (demo_name i)) = Some (demo_shard i)"
proof -
  assume i: "i < EX_SHARDS"
  then obtain j where "find (\<lambda>j. path_div ''s'' (demo_name i) = path_div ''s'' (demo_name j)) [0..<EX_SHARDS] = Some j"
    by (cases "find (\<lambda>j. path_div ''s'' (demo_name i) = path_div ''s'' (demo_name j)) [0..<EX_SHARDS]") (auto simp: find_None_iff)
  moreover from this have "j = i" by (auto simp: find_Some_iff demo_paths)
  ultimately show ?thesis using demo_paths(2) [of i] by (simp add: demo_checkpoint_def)
qed

lemma demo_free: "demo_checkpoint (path_div ''d'' (shard_file j)) = None"
proof -
  have "find (\<lambda>i. path_div ''d'' (shard_file j) = path_div ''s'' (demo_name i)) [0..<EX_SHARDS] = None"
    by (simp add: find_None_iff demo_paths(3) [THEN not_sym])
  then show ?thesis using demo_paths(4) [of j] by (simp add: demo_checkpoint_def)
qed

theorem extracted_rows_served_witness:
  "\<exists>fl' st. extract_rows ''s'' ''d'' demo_checkpoint = (Inr (), fl')
    \<and> store_open (\<lambda>i. fl' (path_div ''d'' (shard_file i))) EX_SHARDS EX_ROWS EX_WIDTH = Inr st
    \<and> store_fetch st [0, 320001535]
      = Inr (concat (map (\<lambda>r. py_slice (nat r mod EX_ROWS) EX_WIDTH (demo_tensor (nat r div EX_ROWS))) [0, 320001535]))
    \<and> (\<forall>p. p \<in> range (\<lambda>i. path_div ''d'' (shard_file i)) \<or> fl' p = demo_checkpoint p)"
proof -
  have "list_all (\<lambda>r. 0 \<le> r \<and> nat r < EX_SHARDS * EX_ROWS) [0, 320001535]" by (simp add: EX_SHARDS_def EX_ROWS_def)
  moreover have "json_item (JObj [(''weight_map'', demo_weight_map)]) ''weight_map'' = Inr demo_weight_map"
    by (simp add: json_item_obj dict_get_def)
  ultimately have "\<exists>fl' st. extract_rows ''s'' ''d'' demo_checkpoint = (Inr (), fl')
    \<and> store_open (\<lambda>i. fl' (path_div ''d'' (shard_file i))) EX_SHARDS EX_ROWS EX_WIDTH = Inr st
    \<and> store_fetch st [0, 320001535]
      = Inr (concat (map (\<lambda>r. py_slice (nat r mod EX_ROWS) EX_WIDTH (demo_tensor (nat r div EX_ROWS))) [0, 320001535]))
    \<and> (\<forall>p. p \<notin> range (\<lambda>i. path_div ''d'' (shard_file i)) \<longrightarrow> fl' p = demo_checkpoint p)"
    using demo_weights demo_source demo_shard_holds demo_paths(3)
    by (intro extracted_rows_served [OF demo_index_loads]) (auto simp: resumable_def demo_free)
  then show ?thesis by blast
qed

end
