(* ===== verification/V41Constants.thy ===== *)
theory V41Constants
  imports PleMath JsonValue
begin

text \<open>
  \<open>scripts/gen_v41_engram_constants.py\<close>: the frozen moduli and multipliers of DeepSeek-V4.1.
  SymPy's \<open>isprime\<close> and NumPy's seeded generator are arguments; a search that never ends is \<open>None\<close>.
  The lemmas show that the moduli are the consecutive primes from the vocabulary size on, handed out layer by layer,
  and that no hash product overflows.  Reading the files and the check mode are not modelled.
\<close>

section \<open>The primes\<close>

partial_function (option) unseen_prime_from :: "(int \<Rightarrow> bool) \<Rightarrow> int list \<Rightarrow> int \<Rightarrow> int option" where
  "unseen_prime_from isprime seen candidate =
     (if isprime candidate \<and> candidate \<notin> set seen then Some candidate else unseen_prime_from isprime seen (candidate + 1))"

definition v41_next_prime :: "(int \<Rightarrow> bool) \<Rightarrow> int \<Rightarrow> int list \<Rightarrow> int option" where
  "v41_next_prime isprime start seen = unseen_prime_from isprime seen (start + 1)"

text \<open>The three loops: heads, orders and layers; the set of seen primes is kept as a list.\<close>

fun v41_heads :: "(int \<Rightarrow> bool) \<Rightarrow> nat \<Rightarrow> int \<Rightarrow> int list \<Rightarrow> (int list \<times> int list) option" where
  "v41_heads isprime 0 current seen = Some ([], seen)"
| "v41_heads isprime (Suc n) current seen =
     Option.bind (v41_next_prime isprime current seen) (\<lambda>p.
       map_option (\<lambda>(sizes, seen). (p # sizes, seen)) (v41_heads isprime n p (seen @ [p])))"

fun v41_orders :: "(int \<Rightarrow> bool) \<Rightarrow> int \<Rightarrow> nat \<Rightarrow> nat \<Rightarrow> int list \<Rightarrow> (int list list \<times> int list) option" where
  "v41_orders isprime vocab_size n_heads 0 seen = Some ([], seen)"
| "v41_orders isprime vocab_size n_heads (Suc m) seen =
     Option.bind (v41_heads isprime n_heads (vocab_size - 1) seen) (\<lambda>(sizes, seen).
       map_option (\<lambda>(rest, seen). (sizes # rest, seen)) (v41_orders isprime vocab_size n_heads m seen))"

fun v41_layers :: "(int \<Rightarrow> bool) \<Rightarrow> int \<Rightarrow> nat \<Rightarrow> nat \<Rightarrow> nat \<Rightarrow> int list \<Rightarrow> (int list list list \<times> int list) option" where
  "v41_layers isprime vocab_size n_heads orders 0 seen = Some ([], seen)"
| "v41_layers isprime vocab_size n_heads orders (Suc l) seen =
     Option.bind (v41_orders isprime vocab_size n_heads orders seen) (\<lambda>(per_layer, seen).
       map_option (\<lambda>(rest, seen). (per_layer # rest, seen)) (v41_layers isprime vocab_size n_heads orders l seen))"

section \<open>The constants\<close>

record v41_config =
  vf_layer_ids :: "int list"
  vf_max_ngram_size :: int
  vf_n_heads :: int
  vf_vocab_size :: int
  vf_head_dim :: int
  vf_compressed_vocab :: int
  vf_declared_rows :: "int list"
  vf_pad_token_id :: int

definition cfg_field_int :: "json \<Rightarrow> string \<Rightarrow> int res" where
  "cfg_field_int cfg k = rbind (json_item cfg k) (\<lambda>v. case v of JInt i \<Rightarrow> Inr i | _ \<Rightarrow> Inl TypeError)"

definition cfg_field_ints :: "json \<Rightarrow> string \<Rightarrow> int list res" where
  "cfg_field_ints cfg k =
     rbind (json_item cfg k) (\<lambda>v. rbind (json_iter v) (rmapM (\<lambda>v. case v of JInt i \<Rightarrow> Inr i | _ \<Rightarrow> Inl TypeError)))"

text \<open>
  The fields of \<open>text_config\<close>, in the order they are read (\<open>engram_pad_token_id\<close> with the result, at the end); one of
  another type is rejected where it is read.
\<close>

definition v41_config_of :: "json \<Rightarrow> v41_config res" where
  "v41_config_of cfg =
     rbind (cfg_field_ints cfg ''engram_layer_ids'') (\<lambda>layer_ids.
     rbind (cfg_field_int cfg ''engram_max_ngram_size'') (\<lambda>max_ngram_size.
     rbind (cfg_field_int cfg ''engram_n_heads'') (\<lambda>n_heads.
     rbind (cfg_field_int cfg ''engram_vocab_size'') (\<lambda>vocab_size.
     rbind (cfg_field_int cfg ''engram_head_dim'') (\<lambda>head_dim.
     rbind (cfg_field_int cfg ''engram_compressed_vocab_size'') (\<lambda>compressed_vocab.
     rbind (cfg_field_ints cfg ''engram_num_embeddings'') (\<lambda>declared_rows.
     rbind (cfg_field_int cfg ''engram_pad_token_id'') (\<lambda>pad_token_id.
       Inr \<lparr>vf_layer_ids = layer_ids, vf_max_ngram_size = max_ngram_size, vf_n_heads = n_heads, vf_vocab_size = vocab_size,
         vf_head_dim = head_dim, vf_compressed_vocab = compressed_vocab, vf_declared_rows = declared_rows,
         vf_pad_token_id = pad_token_id\<rparr>))))))))"

definition MAX_LONG :: int where "MAX_LONG = 2 ^ 63 - 1"
definition PRIME_SEED :: int where "PRIME_SEED = 10007"

definition v41_bound :: "v41_config \<Rightarrow> int res" where
  "v41_bound c = rmap (\<lambda>q. max 1 (q div 2)) (py_div MAX_LONG (vf_compressed_vocab c))"

text \<open>
  \<open>default_rng(seed).integers(0, high, size=n)\<close>: the argument \<open>rng\<close> gives the values; a negative seed and a negative
  size raise.
\<close>

definition numpy_integers :: "(int \<Rightarrow> int \<Rightarrow> nat \<Rightarrow> int list) \<Rightarrow> int \<Rightarrow> int \<Rightarrow> int \<Rightarrow> int list res" where
  "numpy_integers rng seed high n = (if seed < 0 \<or> n < 0 then Inl ValueError else Inr (rng seed high (nat n)))"

definition v41_multipliers :: "(int \<Rightarrow> int \<Rightarrow> nat \<Rightarrow> int list) \<Rightarrow> v41_config \<Rightarrow> int \<Rightarrow> int list list res" where
  "v41_multipliers rng c bound =
     rmapM (\<lambda>layer_id. rmap (map (\<lambda>v. v * 2 + 1)) (numpy_integers rng (PRIME_SEED * layer_id) bound (vf_max_ngram_size c)))
       (vf_layer_ids c)"

record v41_constants =
  vc_config :: v41_config
  vc_bound :: int
  vc_multipliers :: "int list list"
  vc_primes :: "int list list list"
  vc_rows_total :: int
  vc_bytes_per_row :: int

definition layer_rows :: "int list list \<Rightarrow> int" where
  "layer_rows layer = sum_list (map sum_list layer)"

text \<open>The two closure checks, and the result.\<close>

definition v41_build ::
  "(int \<Rightarrow> bool) \<Rightarrow> (int \<Rightarrow> int \<Rightarrow> nat \<Rightarrow> int list) \<Rightarrow> v41_config \<Rightarrow> v41_constants res option" where
  "v41_build isprime rng c =
     map_option (\<lambda>(primes, seen).
       rbind (v41_bound c) (\<lambda>bound.
       rbind (v41_multipliers rng c bound) (\<lambda>multipliers.
         let flat = concat (map concat primes)
         in if map layer_rows primes \<noteq> vf_declared_rows c then Inl AssertionError
            else if \<not> (length flat = card (set flat)
                 \<and> int (card (set flat)) = int (length (vf_layer_ids c)) * (vf_max_ngram_size c - 1) * vf_n_heads c)
              then Inl AssertionError
            else Inr \<lparr>vc_config = c, vc_bound = bound, vc_multipliers = multipliers, vc_primes = primes,
              vc_rows_total = sum_list (vf_declared_rows c), vc_bytes_per_row = vf_head_dim c + 8\<rparr>)))
     (v41_layers isprime (vf_vocab_size c) (nat (vf_n_heads c)) (nat (vf_max_ngram_size c - 1)) (length (vf_layer_ids c)) [])"

section \<open>The search hands out consecutive primes\<close>

definition block :: "int \<Rightarrow> nat \<Rightarrow> nat \<Rightarrow> int list" where
  "block b k n = map (\<lambda>i. nth_prime_after b (k + i + 1)) [0..<n]"

lemma block_Suc: "block b k (Suc n) = nth_prime_after b (k + 1) # block b (Suc k) n"
  by (simp add: block_def upt_conv_Cons map_Suc_upt [symmetric] comp_def del: upt_Suc nth_prime_after.simps)

lemma block_append: "block b k (m + n) = block b k m @ block b (k + m) n"
  by (induction m arbitrary: k) (simp_all add: block_Suc, simp add: block_def)

lemma set_block: "set (block b 0 k) = nth_prime_after b ` {1..k}"
  by (auto simp: block_def image_iff Bex_def simp del: nth_prime_after.simps) (metis Suc_le_D Suc_le_eq diff_Suc_1)+

lemma unseen_prime_next:
  assumes law: "\<And>v. isprime v \<longleftrightarrow> prime_number v"
    and "b < c" "c \<le> nth_prime_after b (k + 1)"
  shows "unseen_prime_from isprime (block b 0 k) c = Some (nth_prime_after b (k + 1))"
  using assms(2,3)
proof (induction "nat (nth_prime_after b (k + 1) - c)" arbitrary: c rule: less_induct)
  case less
  let ?p = "nth_prime_after b (k + 1)"
  have p: "prime_number ?p" using nth_prime_after_is_prime [of "k + 1" b] by (simp add: is_prime_iff)
  show ?case
  proof (cases "c = ?p")
    case True
    have "?p \<notin> nth_prime_after b ` {1..k}"
    proof
      assume "?p \<in> nth_prime_after b ` {1..k}"
      then obtain j where "1 \<le> j" "j \<le> k" "?p = nth_prime_after b j" by auto
      with nth_prime_after_mono [of j "k + 1" b] show False by simp
    qed
    then show ?thesis using True p by (subst unseen_prime_from.simps) (simp add: law set_block del: nth_prime_after.simps)
  next
    case False
    then have c: "c < ?p" using less.prems by simp
    have "\<not> (isprime c \<and> c \<notin> set (block b 0 k))"
    proof
      assume a: "isprime c \<and> c \<notin> set (block b 0 k)"
      then have "c \<in> {q. b < q \<and> q \<le> nth_prime_after b (k + 1) \<and> prime_number q}" using less.prems law by auto
      then have "c \<in> nth_prime_after b ` {1..k + 1}" unfolding primes_up_to_nth .
      then obtain j where "1 \<le> j" "j \<le> k + 1" "c = nth_prime_after b j" by auto
      then show False using a c unfolding set_block by (cases "j = k + 1") auto
    qed
    moreover have "unseen_prime_from isprime (block b 0 k) (c + 1) = Some ?p"
      using less.prems c by (intro less.hyps) auto
    ultimately show ?thesis by (subst unseen_prime_from.simps) (auto simp del: nth_prime_after.simps)
  qed
qed

lemma v41_heads_block:
  assumes law: "\<And>v. isprime v \<longleftrightarrow> prime_number v"
    and "b \<le> current" "current < nth_prime_after b (k + 1)"
  shows "v41_heads isprime n current (block b 0 k) = Some (block b k n, block b 0 (k + n))"
  using assms(2,3)
proof (induction n arbitrary: current k)
  case (Suc n)
  let ?p = "nth_prime_after b (k + 1)"
  have p: "v41_next_prime isprime current (block b 0 k) = Some ?p"
    unfolding v41_next_prime_def using Suc.prems by (intro unseen_prime_next [OF law]) auto
  have seen: "block b 0 k @ [?p] = block b 0 (k + 1)" using block_append [of b 0 k 1] by (simp add: block_def)
  have "b \<le> ?p" using nth_prime_after_mono [of 0 "k + 1" b] by simp
  then have "v41_heads isprime n ?p (block b 0 (k + 1)) = Some (block b (k + 1) n, block b 0 (k + 1 + n))"
    using nth_prime_after_mono [of "k + 1" "k + 1 + 1" b] by (intro Suc.IH) auto
  then show ?case
    unfolding v41_heads.simps p bind.bind_lunit seen by (simp add: block_Suc [of b k] del: nth_prime_after.simps)
qed (simp add: block_def)

lemma v41_orders_block:
  assumes law: "\<And>v. isprime v \<longleftrightarrow> prime_number v"
  shows "v41_orders isprime (b + 1) H m (block b 0 k)
    = Some (map (\<lambda>j. block b (k + j * H) H) [0..<m], block b 0 (k + m * H))"
proof (induction m arbitrary: k)
  case (Suc m)
  have "v41_heads isprime H b (block b 0 k) = Some (block b k H, block b 0 (k + H))"
    using nth_prime_after_mono [of 0 "k + 1" b] by (intro v41_heads_block [OF law]) auto
  then show ?case
    using Suc [of "k + H"] by (simp add: upt_conv_Cons map_Suc_upt [symmetric] comp_def add.assoc del: upt_Suc)
qed simp

definition expected_primes :: "int \<Rightarrow> nat \<Rightarrow> nat \<Rightarrow> nat \<Rightarrow> nat \<Rightarrow> int list list list" where
  "expected_primes b k L m H = map (\<lambda>l. map (\<lambda>j. block b (k + (l * m + j) * H) H) [0..<m]) [0..<L]"

lemma v41_layers_block:
  assumes law: "\<And>v. isprime v \<longleftrightarrow> prime_number v"
  shows "v41_layers isprime (b + 1) H m L (block b 0 k) = Some (expected_primes b k L m H, block b 0 (k + L * m * H))"
proof (induction L arbitrary: k)
  case (Suc L)
  have idx: "k + ((Suc l) * m + j) * H = k + m * H + (l * m + j) * H" for l j
    by (simp add: algebra_simps)
  have "expected_primes b k (Suc L) m H = map (\<lambda>j. block b (k + j * H) H) [0..<m] # expected_primes b (k + m * H) L m H"
  proof -
    have "[0..<Suc L] = 0 # map Suc [0..<L]" by (simp add: upt_conv_Cons map_Suc_upt del: upt_Suc)
    then show ?thesis unfolding expected_primes_def by (simp only: list.map map_map comp_def idx mult_0 add_0)
  qed
  moreover have "k + Suc L * m * H = k + m * H + L * m * H" by (simp add: algebra_simps)
  ultimately show ?case
    using Suc [of "k + m * H"] v41_orders_block [OF law, of b H m k] by (simp add: add.assoc)
qed (simp add: expected_primes_def)

lemma concat_blocks_consecutive: "concat (map (\<lambda>j. block b (k + j * H) H) [0..<m]) = block b k (m * H)"
proof (induction m)
  case (Suc m)
  have "block b k (m * H) @ block b (k + m * H) H = block b k (Suc m * H)"
    using block_append [of b k "m * H" H] by (simp add: add.commute)
  with Suc show ?case by simp
qed (simp add: block_def)

lemma flat_expected: "concat (map concat (expected_primes b k L m H)) = block b k (L * (m * H))"
proof -
  have "concat (map (\<lambda>j. block b (k + (l * m + j) * H) H) [0..<m]) = block b (k + l * (m * H)) (m * H)" for l
    using concat_blocks_consecutive [of b "k + l * (m * H)" H m] by (simp add: algebra_simps)
  then have "map concat (expected_primes b k L m H) = map (\<lambda>l. block b (k + l * (m * H)) (m * H)) [0..<L]"
    by (simp add: expected_primes_def comp_def)
  then show ?thesis using concat_blocks_consecutive [of b k "m * H" L] by simp
qed

lemma distinct_block: "distinct (block b k n)"
proof -
  have "inj_on (\<lambda>i. nth_prime_after b (k + i + 1)) {0..<n}"
    using nth_prime_after_mono [of _ _ b] by (intro linorder_inj_onI) (auto simp del: nth_prime_after.simps simp: less_imp_neq)
  then show ?thesis by (simp add: block_def distinct_map del: nth_prime_after.simps)
qed

section \<open>Multipliers\<close>

text \<open>NumPy documents \<open>integers\<close> to give \<open>size\<close> values of the half-open range, for the seeds it takes.\<close>

definition rng_laws :: "(int \<Rightarrow> int \<Rightarrow> nat \<Rightarrow> int list) \<Rightarrow> bool" where
  "rng_laws rng \<longleftrightarrow> (\<forall>seed high n. 0 \<le> seed \<and> 0 < high \<longrightarrow> length (rng seed high n) = n \<and> list_all (\<lambda>v. 0 \<le> v \<and> v < high) (rng seed high n))"

lemma v41_multipliers_cases:
  assumes "0 \<le> vf_max_ngram_size c"
  shows "v41_multipliers rng c bound =
    (if list_all (\<lambda>layer_id. 0 \<le> layer_id) (vf_layer_ids c)
     then Inr (map (\<lambda>layer_id. map (\<lambda>v. v * 2 + 1) (rng (PRIME_SEED * layer_id) bound (nat (vf_max_ngram_size c)))) (vf_layer_ids c))
     else Inl ValueError)"
proof -
  have "rmapM (\<lambda>layer_id. rmap (map (\<lambda>v. v * 2 + 1)) (numpy_integers rng (PRIME_SEED * layer_id) bound (vf_max_ngram_size c))) ids =
      (if list_all (\<lambda>layer_id. 0 \<le> layer_id) ids
       then Inr (map (\<lambda>layer_id. map (\<lambda>v. v * 2 + 1) (rng (PRIME_SEED * layer_id) bound (nat (vf_max_ngram_size c)))) ids)
       else Inl ValueError)" for ids
    using assms by (induction ids) (auto simp: numpy_integers_def PRIME_SEED_def)
  then show ?thesis by (simp add: v41_multipliers_def)
qed

lemma multiplier_no_overflow:
  assumes "rng_laws rng" "v41_bound c = Inr bound" "0 < vf_compressed_vocab c" "2 * vf_compressed_vocab c \<le> MAX_LONG"
    and "v41_multipliers rng c bound = Inr mss" "ms \<in> set mss" "m \<in> set ms" "0 \<le> tok" "tok < vf_compressed_vocab c"
  shows "odd m \<and> 0 < m \<and> tok * m < 2 ^ 63"
proof -
  let ?cv = "vf_compressed_vocab c"
  define q where "q = MAX_LONG div ?cv"
  have bound: "bound = max 1 (q div 2)" using assms(2,3) by (simp add: v41_bound_def q_def py_div_def)
  have "2 * ?cv div ?cv \<le> q" unfolding q_def by (rule zdiv_mono1 [OF assms(4,3)])
  moreover have "q * ?cv = MAX_LONG - MAX_LONG mod ?cv" by (simp add: q_def minus_mod_eq_div_mult)
  ultimately have q: "2 \<le> q" "q * ?cv \<le> MAX_LONG" using assms(3) by simp_all
  obtain layer_id where "rmap (map (\<lambda>v. v * 2 + 1)) (numpy_integers rng (PRIME_SEED * layer_id) bound (vf_max_ngram_size c)) = Inr ms"
    using assms(5,6) by (auto simp: v41_multipliers_def rmapM_Inr_iff list_all2_conv_all_nth in_set_conv_nth)
  then obtain v where v: "0 \<le> PRIME_SEED * layer_id"
      "v \<in> set (rng (PRIME_SEED * layer_id) bound (nat (vf_max_ngram_size c)))" "m = v * 2 + 1"
    using assms(7) by (auto simp: numpy_integers_def split: if_splits)
  have "0 < bound" by (simp add: bound)
  then have "list_all (\<lambda>v. 0 \<le> v \<and> v < bound) (rng (PRIME_SEED * layer_id) bound (nat (vf_max_ngram_size c)))"
    using assms(1) v(1) unfolding rng_laws_def by blast
  with v(2) have range: "0 \<le> v" "v < bound" by (simp_all add: list_all_iff)
  have "bound * 2 \<le> q" using q(1) by (simp add: bound)
  then have "m \<le> q" using range v(3) by linarith
  then have "tok * m \<le> ?cv * q" using assms(8,9) range v(3) by (intro mult_mono) auto
  then have "tok * m \<le> MAX_LONG" using q(2) by (simp add: mult.commute)
  then show ?thesis using v(3) range(1) by (simp add: MAX_LONG_def)
qed

section \<open>Properties\<close>

text \<open>
  C29: the generator of the V4.1 constants ends; it raises for a negative layer id, which is no seed, and unless the
  declared row counts are the sums of the moduli: the moduli are consecutive primes from the vocabulary size on, \<open>n_heads\<close> for each order of
  each layer, all different, and every multiplier is odd and never overflows with a compressed token.
\<close>

theorem v41_constants_sound:
  assumes "\<And>v. isprime v \<longleftrightarrow> prime_number v" "rng_laws rng"
    and "0 < vf_compressed_vocab c" "2 * vf_compressed_vocab c \<le> MAX_LONG" "1 \<le> vf_max_ngram_size c" "0 \<le> vf_n_heads c"
    and "ps = expected_primes (vf_vocab_size c - 1) 0 (length (vf_layer_ids c)) (nat (vf_max_ngram_size c - 1)) (nat (vf_n_heads c))"
  shows "(if \<not> list_all (\<lambda>layer_id. 0 \<le> layer_id) (vf_layer_ids c) then v41_build isprime rng c = Some (Inl ValueError)
      else if map layer_rows ps \<noteq> vf_declared_rows c then v41_build isprime rng c = Some (Inl AssertionError)
      else \<exists>k. v41_build isprime rng c = Some (Inr k) \<and> vc_primes k = ps
        \<and> list_all (list_all (\<lambda>m. odd m \<and> 0 < m \<and> (\<forall>tok \<in> {0..<vf_compressed_vocab c}. tok * m < 2 ^ 63))) (vc_multipliers k))
    \<and> concat (map concat ps) = map (\<lambda>i. nth_prime_after (vf_vocab_size c - 1) (i + 1))
        [0..<length (vf_layer_ids c) * (nat (vf_max_ngram_size c - 1) * nat (vf_n_heads c))]
    \<and> distinct (concat (map concat ps))"
proof -
  let ?L = "length (vf_layer_ids c)" and ?m = "nat (vf_max_ngram_size c - 1)" and ?H = "nat (vf_n_heads c)"
  have layers: "v41_layers isprime (vf_vocab_size c) ?H ?m ?L [] = Some (ps, block (vf_vocab_size c - 1) 0 (?L * ?m * ?H))"
    using v41_layers_block [OF assms(1), of "vf_vocab_size c - 1" ?H ?m ?L 0] by (simp add: assms(7) block_def)
  have flat: "concat (map concat ps) = block (vf_vocab_size c - 1) 0 (?L * (?m * ?H))"
    unfolding assms(7) flat_expected by simp
  have count: "int (card (set (block (vf_vocab_size c - 1) 0 (?L * (?m * ?H))))) = int ?L * (vf_max_ngram_size c - 1) * vf_n_heads c"
    using assms(5,6) by (simp add: distinct_card [OF distinct_block]) (simp add: block_def)
  obtain bound where bound: "v41_bound c = Inr bound" using assms(3) by (simp add: v41_bound_def py_div_def)
  have mults: "list_all (list_all (\<lambda>m. odd m \<and> 0 < m \<and> (\<forall>tok \<in> {0..<vf_compressed_vocab c}. tok * m < 2 ^ 63))) mss"
    if mss: "v41_multipliers rng c bound = Inr mss" for mss
    unfolding list_all_iff
  proof (intro ballI conjI)
    fix ms m assume m: "ms \<in> set mss" "m \<in> set ms"
    show "odd m" "0 < m" using multiplier_no_overflow [OF assms(2) bound assms(3,4) mss m, of 0] assms(3) by simp_all
    show "tok * m < 2 ^ 63" if "tok \<in> {0..<vf_compressed_vocab c}" for tok
      using multiplier_no_overflow [OF assms(2) bound assms(3,4) mss m, of tok] that by simp
  qed
  have flat_primes: "concat (map concat ps) = map (\<lambda>i. nth_prime_after (vf_vocab_size c - 1) (i + 1)) [0..<?L * (?m * ?H)]"
    unfolding flat by (simp add: block_def del: nth_prime_after.simps)
  moreover have distinct: "distinct (concat (map concat ps))" unfolding flat by (rule distinct_block)
  moreover have "v41_build isprime rng c = Some (rbind (v41_multipliers rng c bound) (\<lambda>mss.
      if map layer_rows ps \<noteq> vf_declared_rows c then Inl AssertionError
      else Inr \<lparr>vc_config = c, vc_bound = bound, vc_multipliers = mss, vc_primes = ps,
        vc_rows_total = sum_list (vf_declared_rows c), vc_bytes_per_row = vf_head_dim c + 8\<rparr>))"
    using count distinct_card [OF distinct] unfolding v41_build_def layers bound Let_def flat [symmetric]
    by (simp del: of_nat_mult set_concat cong: if_cong)
  moreover note v41_multipliers_cases [of c rng bound]
  ultimately show ?thesis using mults flat_primes assms(5) by (simp split: if_splits)
qed

text \<open>Two layers of two orders of two heads: the eight primes from 11 to 37.\<close>

definition demo_v41 :: v41_config where
  "demo_v41 = \<lparr>vf_layer_ids = [1, 14], vf_max_ngram_size = 3, vf_n_heads = 2, vf_vocab_size = 10, vf_head_dim = 4,
     vf_compressed_vocab = 7, vf_declared_rows = [60, 120], vf_pad_token_id = 2\<rparr>"

lemma demo_rng_laws: "rng_laws (\<lambda>s h n. replicate n 0)"
  by (simp add: rng_laws_def list_all_iff)

lemma demo_v41_fields: "vf_vocab_size demo_v41 - 1 = 9" "length (vf_layer_ids demo_v41) = 2"
    "nat (vf_max_ngram_size demo_v41 - 1) = 2" "nat (vf_n_heads demo_v41) = 2" "vf_declared_rows demo_v41 = [60, 120]"
    "0 < vf_compressed_vocab demo_v41" "2 * vf_compressed_vocab demo_v41 \<le> MAX_LONG"
    "1 \<le> vf_max_ngram_size demo_v41" "0 \<le> vf_n_heads demo_v41"
  by (simp_all add: demo_v41_def MAX_LONG_def)

theorem v41_constants_sound_witness:
  "\<exists>ps. ps = expected_primes 9 0 2 2 2
    \<and> (if map layer_rows ps \<noteq> [60, 120]
        then v41_build prime_number (\<lambda>s h n. replicate n 0) demo_v41 = Some (Inl AssertionError)
        else (\<exists>k. v41_build prime_number (\<lambda>s h n. replicate n 0) demo_v41 = Some (Inr k) \<and> vc_primes k = ps))
    \<and> distinct (concat (map concat ps))"
proof (rule exI, intro conjI)
  note sound = v41_constants_sound [of prime_number, OF refl demo_rng_laws demo_v41_fields(6-9) refl, unfolded demo_v41_fields(1-5)]
  show "expected_primes 9 0 2 2 2 = expected_primes 9 0 2 2 2" by (rule refl)
  show "if map layer_rows (expected_primes 9 0 2 2 2) \<noteq> [60, 120]
      then v41_build prime_number (\<lambda>s h n. replicate n 0) demo_v41 = Some (Inl AssertionError)
      else (\<exists>k. v41_build prime_number (\<lambda>s h n. replicate n 0) demo_v41 = Some (Inr k) \<and> vc_primes k = expected_primes 9 0 2 2 2)"
    using conjunct1 [OF sound] by (auto simp: demo_v41_def split: if_splits)
  show "distinct (concat (map concat (expected_primes 9 0 2 2 2)))" using sound by (elim conjE)
qed

end
