(* ===== verification/JsonIndent.thy ===== *)
theory JsonIndent
  imports Json
begin

text \<open>
  \<open>json.dumps(v, indent=2)\<close> with and without \<open>ensure_ascii\<close>, and \<open>write_text\<close> of its result.  The lemmas show that such
  a document reads back as the value printed.
\<close>

section \<open>Printing\<close>

text \<open>With \<open>ensure_ascii=False\<close> only quotes, backslashes and control characters are escaped.\<close>

definition escape_char_utf :: "char \<Rightarrow> string" where
  "escape_char_utf c = (if 127 \<le> (of_char c :: nat) then [c] else escape_char c)"

definition dump_string :: "bool \<Rightarrow> string \<Rightarrow> string" where
  "dump_string ensure_ascii s =
     quote # concat (map (if ensure_ascii then escape_char else escape_char_utf) s) @ [quote]"

definition newline :: "nat \<Rightarrow> string" where
  "newline level = CHR 0x0A # replicate (2 * level) (CHR '' '')"

fun dumps_indent :: "bool \<Rightarrow> nat \<Rightarrow> json \<Rightarrow> string" where
  "dumps_indent ea level (JStr s) = dump_string ea s"
| "dumps_indent ea level (JList xs) =
     (if xs = [] then ''[]''
      else CHR ''['' # newline (Suc level)
        @ join (CHR '','' # newline (Suc level)) (map (dumps_indent ea (Suc level)) xs) @ newline level @ '']'')"
| "dumps_indent ea level (JObj ps) =
     (if ps = [] then ''{}''
      else CHR ''{'' # newline (Suc level)
        @ join (CHR '','' # newline (Suc level)) (map (\<lambda>(k, v). dump_string ea k @ '': '' @ dumps_indent ea (Suc level) v) ps)
        @ newline level @ ''}'')"
| "dumps_indent ea level v = dumps v"

text \<open>\<open>str.encode("utf-8")\<close> for code points below 256.\<close>

definition utf8_char :: "char \<Rightarrow> bytes" where
  "utf8_char c =
     (let n = of_char c in if n < 128 then [word_of_nat n] else [word_of_nat (192 + n div 64), word_of_nat (128 + n mod 64)])"

definition utf8_text :: "string \<Rightarrow> bytes" where
  "utf8_text s = concat (map utf8_char s)"

section \<open>Round trip\<close>

fun json_ascii :: "json \<Rightarrow> bool" where
  "json_ascii (JStr s) = list_all (\<lambda>c. (of_char c :: nat) < 127) s"
| "json_ascii (JList xs) = list_all json_ascii xs"
| "json_ascii (JObj ps) = list_all (\<lambda>p. list_all (\<lambda>c. (of_char c :: nat) < 127) (fst p) \<and> json_ascii (snd p)) ps"
| "json_ascii v = True"

lemma newline_blank: "list_all is_ws (newline level)"
  by (simp add: newline_def list_all_iff is_ws_def)

lemma dump_string_ascii: "ea \<or> list_all (\<lambda>c. (of_char c :: nat) < 127) s \<Longrightarrow> dump_string ea s = dump_str s"
  by (auto simp: dump_string_def dump_str_def escape_char_utf_def list_all_iff intro!: arg_cong [of _ _ concat] map_cong)

lemma reads_dumps_indent: "json_wf v \<Longrightarrow> ea \<or> json_ascii v \<Longrightarrow> reads (dumps_indent ea level v) v"
proof (induction ea level v rule: dumps_indent.induct)
  case (1 ea level s)
  then show ?case using dump_string_ascii [of ea s] by (simp add: reads_str)
next
  case (2 ea level xs)
  show ?case
  proof (cases "xs = []")
    case True
    then show ?thesis using reads_list [of "[]" "[]" "[]" "[]" "[]"] by simp
  next
    case False
    with 2 have "list_all2 reads (map (dumps_indent ea (Suc level)) xs) xs"
      by (auto simp: list_all2_map1 list_all_iff list_all2_same)
    from reads_list [OF this newline_blank newline_blank newline_blank] show ?thesis using False by simp
  qed
next
  case (3 ea level ps)
  show ?case
  proof (cases "ps = []")
    case True
    then show ?thesis using reads_obj [of "[]" "[]" "[]" "[]" "[]"] by simp
  next
    case False
    have "list_all2 reads_member (map (\<lambda>(k, v). dump_string ea k @ '': '' @ dumps_indent ea (Suc level) v) ps) ps"
      unfolding list_all2_map1 list_all2_same
    proof (intro ballI)
      fix p assume p: "p \<in> set ps"
      have "json_wf (snd p)" "ea \<or> json_ascii (snd p)" using 3(2,3) p by (auto simp: list_all_iff)
      then have "reads (dumps_indent ea (Suc level) (snd p)) (snd p)"
        using 3(1) [OF False, of p "fst p" "snd p"] p by simp
      moreover have "dump_string ea (fst p) = dump_str (fst p)"
        using 3 p by (intro dump_string_ascii) (auto simp: list_all_iff)
      ultimately show "reads_member (case p of (k, v) \<Rightarrow> dump_string ea k @ '': '' @ dumps_indent ea (Suc level) v) p"
        using reads_member_dump [of _ "snd p" "fst p", simplified] by (simp add: case_prod_beta)
    qed
    from reads_obj [OF this newline_blank newline_blank newline_blank] 3 False show ?thesis by simp
  qed
qed (simp_all add: reads_dumps del: dumps.simps)

text \<open>The characters of such a document are ASCII, so that its bytes are read as they were written.\<close>

lemma escape_char_ascii: "list_all (\<lambda>c. (of_char c :: nat) < 127) (escape_char c)"
proof -
  have "list_all (\<lambda>(n, e). (of_char e :: nat) < 127) escapes" by code_simp
  moreover have "(of_char (hex_char d) :: nat) < 127" if "d < 16" for d
    using that by (simp add: hex_char_def)
  moreover have "(of_char c :: nat) div 16 < 16" using char_code_less [of c] by (simp add: less_mult_imp_div_less)
  ultimately show ?thesis
    by (auto simp: escape_char_def Let_def backslash_def list_all_iff split: option.split dest!: map_of_SomeD)
qed

lemma ascii_join: "list_all (\<lambda>c. (of_char c :: nat) < 127) sep \<Longrightarrow> list_all (list_all (\<lambda>c. (of_char c :: nat) < 127)) ss
    \<Longrightarrow> list_all (\<lambda>c. (of_char c :: nat) < 127) (join sep ss)"
  by (induction sep ss rule: join.induct) simp_all

lemma ascii_dump_string:
  "ea \<or> list_all (\<lambda>c. (of_char c :: nat) < 127) s \<Longrightarrow> list_all (\<lambda>c. (of_char c :: nat) < 127) (dump_string ea s)"
  using escape_char_ascii by (simp add: dump_string_ascii dump_str_def quote_def list_all_iff)

lemma ascii_newline: "list_all (\<lambda>c. (of_char c :: nat) < 127) (newline level)"
  by (simp add: newline_def list_all_iff)

lemma ascii_int: "list_all (\<lambda>c. (of_char c :: nat) < 127) (int_str i)"
proof -
  have "list_all (\<lambda>c. (of_char c :: nat) < 127) (nat_digits n)" for n
    using nat_digits_props [of n] by (force simp: list_all_iff is_digit_def)
  then show ?thesis by (simp add: int_str_def)
qed

lemma ascii_dumps_indent: "ea \<or> json_ascii v \<Longrightarrow> list_all (\<lambda>c. (of_char c :: nat) < 127) (dumps_indent ea level v)"
proof (induction ea level v rule: dumps_indent.induct)
  case (2 ea level xs)
  then have "list_all (list_all (\<lambda>c. (of_char c :: nat) < 127)) (map (dumps_indent ea (Suc level)) xs)"
    by (cases "xs = []") (auto simp: list_all_iff)
  from ascii_join [OF _ this, of "CHR '','' # newline (Suc level)"] show ?case by (simp add: ascii_newline)
next
  case (3 ea level ps)
  have "list_all (list_all (\<lambda>c. (of_char c :: nat) < 127))
      (map (\<lambda>(k, v). dump_string ea k @ '': '' @ dumps_indent ea (Suc level) v) ps)"
    unfolding list_all_iff [of "list_all _"]
  proof (intro ballI)
    fix t assume "t \<in> set (map (\<lambda>(k, v). dump_string ea k @ '': '' @ dumps_indent ea (Suc level) v) ps)"
    then obtain k v where kv: "(k, v) \<in> set ps" "t = dump_string ea k @ '': '' @ dumps_indent ea (Suc level) v" by auto
    then have "ps \<noteq> []" "ea \<or> json_ascii v" "ea \<or> list_all (\<lambda>c. (of_char c :: nat) < 127) k"
      using 3 by (auto simp: list_all_iff)
    then show "list_all (\<lambda>c. (of_char c :: nat) < 127) t" using 3(1) [OF _ kv(1) refl] kv(2) ascii_dump_string by simp
  qed
  from ascii_join [OF _ this, of "CHR '','' # newline (Suc level)"] show ?case by (simp add: ascii_newline)
qed (simp_all add: ascii_dump_string ascii_int)

lemma utf8_text_ascii: "list_all (\<lambda>c. (of_char c :: nat) < 127) s \<Longrightarrow> utf8_text s = utf8_encode s"
  by (induction s) (simp_all add: utf8_text_def utf8_encode_def utf8_char_def Let_def)

lemma loads_indented:
  assumes "json_wf v" "ea \<or> json_ascii v" "e = [] \<or> e = [CHR 0x0A]"
  shows "loads (utf8_decode (utf8_text (dumps_indent ea level v @ e))) = Inr v"
proof -
  have "list_all (\<lambda>c. (of_char c :: nat) < 127) (dumps_indent ea level v @ e)"
    using ascii_dumps_indent [OF assms(2)] assms(3) by auto
  moreover have "list_all is_ws e" using assms(3) by (auto simp: is_ws_def)
  ultimately show ?thesis
    using loads_reads [OF reads_dumps_indent [OF assms(1,2)]] by (simp add: utf8_text_ascii utf8_round)
qed

end
