(* ===== verification/BundleSave.thy ===== *)
theory BundleSave
  imports Bundle JsonIndent Discovery
begin

text \<open>
  \<open>BundleManifest.save\<close> of \<open>python/engramdb/bundle.py\<close> over a file system of bytes, and what saving does to a bundle: it
  loads back, and a resolved bundle opens the same memory from wherever it is saved.
\<close>

section \<open>Saving\<close>

text \<open>The directory of the file is made first; a file system that refuses either is not modelled.\<close>

definition bundle_save :: "manifest \<Rightarrow> string \<Rightarrow> files \<Rightarrow> string \<times> files" where
  "bundle_save b path fl =
     (py_path path, fl(py_path path \<mapsto> utf8_text (dumps_indent False 0 (bm_data b) @ [CHR 0x0A])))"

definition read_text :: "files \<Rightarrow> string \<Rightarrow> string res" where
  "read_text fl p = rmap utf8_decode (open_file fl p)"

lemma load_saved:
  assumes "json_wf (bm_data b)" "json_ascii (bm_data b)"
  shows "bundle_load (read_text (snd (bundle_save b path fl))) path
    = Inr \<lparr>bm_data = bm_data b, bm_base_dir = Some (path_parent path), bm_path = Some (py_path path)\<rparr>"
  using loads_indented [OF assms(1), of False "[CHR 0x0A]" 0] assms(2)
  by (simp add: bundle_load_def bundle_save_def read_text_def open_file_def)

section \<open>Resolved paths are the same from anywhere\<close>

definition has_absolute_base :: "manifest \<Rightarrow> bool" where
  "has_absolute_base b \<longleftrightarrow> (\<exists>base. bm_base_dir b = Some base \<and> is_absolute base)"

lemma absolute_base_ok: "has_absolute_base b \<Longrightarrow> base_ok b"
  by (auto simp: has_absolute_base_def base_ok_def)

lemma resolve_path_anywhere:
  assumes "has_absolute_base b" "resolve_path b p = Inr (Some s)"
  shows "resolve_path b' (Some (JStr s)) = Inr (Some s)"
proof -
  have "py_path s = s \<and> is_absolute s"
    using assms is_absolute_div
    by (auto simp: resolve_path_def has_absolute_base_def as_name_def split: if_splits json.splits option.splits)
  then show ?thesis by (simp add: resolve_path_def is_none_def as_name_def split: option.split)
qed

lemma resolve_entry_anywhere:
  assumes "has_absolute_base b" "resolve_entry b e = Inr e'"
  shows "path_arg b' e' = path_arg b e"
    and "rbind (json_item e' ''path'') (\<lambda>p. resolve_path b' (Some p)) = rbind (json_item e ''path'') (\<lambda>p. resolve_path b (Some p))"
    and "k \<noteq> ''path'' \<Longrightarrow> json_get e' k = json_get e k" "k \<noteq> ''path'' \<Longrightarrow> json_item e' k = json_item e k"
    and "json_in k e' = json_in k e" "truthy e' = truthy e"
proof -
  obtain ps where ps: "e = JObj ps" using assms(2) by (cases e) (auto simp: resolve_entry_def json_get_def)
  obtain r where r: "resolve_path b (dict_get ps ''path'') = Inr r" "(case r of None \<Rightarrow> Inr e | Some s \<Rightarrow> json_set e ''path'' (JStr s)) = Inr e'"
    using assms(2) ps by (auto simp: resolve_entry_def res_iff)
  have same: "rbind (json_item e' ''path'') (\<lambda>p. resolve_path b' (Some p)) = rbind (json_item e ''path'') (\<lambda>p. resolve_path b (Some p))" for b'
  proof (cases r)
    case None
    then have "e' = e" "is_none (dict_get ps ''path'')" using r by (auto simp: resolve_path_def res_iff split: if_splits)
    then show ?thesis by (cases "dict_get ps ''path''") (auto simp: ps json_item_obj is_none_def resolve_path_def)
  next
    case (Some s)
    then obtain p where "dict_get ps ''path'' = Some p" using r(1) by (cases "dict_get ps ''path''") (auto simp: resolve_path_def is_none_def)
    then show ?thesis using r Some resolve_path_anywhere [OF assms(1), of "Some p" s b'] by (auto simp: ps json_item_obj json_set_def)
  qed
  then show "rbind (json_item e' ''path'') (\<lambda>p. resolve_path b' (Some p)) = rbind (json_item e ''path'') (\<lambda>p. resolve_path b (Some p))" .
  have arg: "path_arg b e = rbind (rbind (json_item e ''path'') (\<lambda>p. resolve_path b (Some p))) (\<lambda>r. Inr (case r of None \<Rightarrow> ''None'' | Some s \<Rightarrow> s))"
    for b e by (simp add: path_arg_def rbind_def split: sum.split)
  show "path_arg b' e' = path_arg b e" by (simp only: arg same)
  have e': "e' = e \<or> (\<exists>s. e' = JObj (dict_set ''path'' (JStr s) ps) \<and> dict_get ps ''path'' \<noteq> None)"
    using r by (cases r; cases "dict_get ps ''path''") (auto simp: ps json_set_def resolve_path_def is_none_def)
  then show "json_get e' k = json_get e k" "json_item e' k = json_item e k" if "k \<noteq> ''path''"
    using that by (auto simp: ps json_item_obj)
  from e' show "json_in k e' = json_in k e" by (auto simp: ps)
  from e' show "truthy e' = truthy e" by (auto simp: ps truthy_def dict_set_def split: option.splits if_splits)
qed

lemma resolve_key_item:
  assumes "resolve_key b k mem = Inr mem'"
  obtains e e' where "json_item mem k = Inr e" "resolve_entry b e = Inr e'" "json_item mem' k = Inr e'"
    "json_get mem k = Inr (Some e)" "json_get mem' k = Inr (Some e')"
  using assms by (auto simp: resolve_key_def res_iff json_set_Inr json_item_obj split: option.splits)

lemma resolve_key_other:
  assumes "has_absolute_base b" "resolve_key b k mem = Inr mem'" "k' \<noteq> k"
  shows "json_get mem' k' = json_get mem k'" "json_item mem' k' = json_item mem k'"
  using resolve_key_again(3,4) [OF absolute_base_ok [OF assms(1)] assms(2)] assms(3) by auto

text \<open>What resolution keeps of the memory section.\<close>

lemma resolve_memory_keeps:
  assumes "has_absolute_base b" "resolve_memory b mem = Inr mem'" "k \<notin> {''store'', ''view'', ''slot_index''}"
  shows "json_get mem' k = json_get mem k"
proof -
  note other = resolve_key_other(1) [OF assms(1)]
  show ?thesis
    using assms(2,3) by (auto simp: resolve_memory_def res_iff other split: if_splits)
qed

lemma resolve_memory_store:
  assumes "has_absolute_base b" "resolve_memory b mem = Inr mem'" "json_get mem ''type'' = Inr (Some (JStr ''store''))"
    "json_get mem ''store'' = Inr (Some e)"
  obtains e' where "resolve_entry b e = Inr e'" "json_get mem' ''store'' = Inr (Some e')"
proof -
  have "json_in ''store'' mem = Inr True" using assms(4) by (cases mem) (simp_all add: json_get_def)
  then have "resolve_key b ''store'' mem = Inr mem'" using assms(2,3) by (auto simp: resolve_memory_def res_iff)
  then show thesis using that assms(4) by (elim resolve_key_item) simp
qed

lemma resolve_memory_view:
  assumes "has_absolute_base b" "resolve_memory b mem = Inr mem'" "json_get mem ''type'' = Inr (Some (JStr ''view''))"
    "json_get mem ''view'' = Inr (Some e)" "json_get mem ''slot_index'' = Inr slot"
  obtains e' where "resolve_entry b e = Inr e'" "json_get mem' ''view'' = Inr (Some e')"
    "if is_none slot then json_get mem' ''slot_index'' = Inr slot
     else \<exists>s'. resolve_entry b (the slot) = Inr s' \<and> json_get mem' ''slot_index'' = Inr (Some s')"
proof -
  have "json_in ''view'' mem = Inr True" using assms(4) by (cases mem) (simp_all add: json_get_def)
  then obtain m where m: "resolve_key b ''view'' mem = Inr m"
      "(if is_none slot then Inr m else resolve_key b ''slot_index'' m) = Inr mem'"
    using assms(2,3,5) resolve_key_other(1) [OF assms(1), of "''view''" mem _ "''slot_index''"] by (auto simp: resolve_memory_def res_iff)
  obtain e' where e': "resolve_entry b e = Inr e'" "json_get m ''view'' = Inr (Some e')"
    using m(1) assms(4) by (elim resolve_key_item) simp
  have slot: "json_get m ''slot_index'' = Inr slot" using resolve_key_other(1) [OF assms(1) m(1), of "''slot_index''"] assms(5) by simp
  show thesis
  proof (cases "is_none slot")
    case True
    then show thesis using that [OF e'(1)] e'(2) m(2) slot by simp
  next
    case False
    then have k: "resolve_key b ''slot_index'' m = Inr mem'" using m(2) by simp
    then obtain s s' where "json_get m ''slot_index'' = Inr (Some s)" "resolve_entry b s = Inr s'" "json_get mem' ''slot_index'' = Inr (Some s')"
      by (elim resolve_key_item) blast
    then show thesis
      using that [OF e'(1)] e'(2) resolve_key_other(1) [OF assms(1) k, of "''view''"] slot False by simp
  qed
qed

text \<open>The sections of a resolved manifest.\<close>

lemma resolved_sections:
  assumes "json_wf (bm_data b)" "resolved b = Inr out" "k \<notin> {''memory'', ''readers''}"
  shows "json_get out k = json_get (bm_data b) k"
  using assms by (auto simp: resolved_def loads_dumps res_iff json_set_Inr split: option.splits)

lemma resolved_memory:
  assumes "json_wf (bm_data b)" "resolved b = Inr out" "json_get (bm_data b) ''memory'' = Inr (Some mem)"
  obtains mem' where "resolve_memory b mem = Inr mem'" "json_get out ''memory'' = Inr (Some mem')"
  using assms by (auto simp: resolved_def loads_dumps res_iff json_set_Inr split: option.splits)

section \<open>Opening a resolved bundle\<close>

lemma missing_keys_cong: "(\<And>k. json_in k e' = json_in k e) \<Longrightarrow> missing_keys p ks e' = missing_keys p ks e"
  by (simp add: missing_keys_def)

lemma bundle_args_cong:
  "(\<And>k. k \<notin> {''store'', ''view'', ''slot_index''} \<Longrightarrow> json_get mem' k = json_get mem k) \<Longrightarrow> bundle_args mem' ple = bundle_args mem ple"
  by (simp add: bundle_args_def cfg_int_def get_or_def)

lemma json_item_get: "json_get d k = Inr (Some v) \<Longrightarrow> json_item d k = Inr v"
  by (cases d) (simp_all add: json_get_def json_item_obj)

lemma json_item_Inr: "json_item d k = Inr v \<longleftrightarrow> json_get d k = Inr (Some v)"
  by (cases d) (auto simp: json_get_def json_item_def split: option.splits)

lemma resolved_wf:
  assumes "base_ok b" "json_wf (bm_data b)" "resolved b = Inr out"
  shows "json_wf out"
proof -
  have set: "json_wf d'" if "json_wf d" "json_set d k v = Inr d'" "json_wf v" for d d' k v
    using that json_wf_set by (auto simp: json_set_Inr)
  obtain m d rs where m: "json_get (bm_data b) ''memory'' = Inr m"
      "(case m of None \<Rightarrow> Inr (bm_data b) | Some mem \<Rightarrow> rbind (resolve_memory b mem) (json_set (bm_data b) ''memory'')) = Inr d"
      "json_get d ''readers'' = Inr rs"
      "(case rs of None \<Rightarrow> Inr d | Some readers \<Rightarrow> rbind (resolve_readers b readers) (json_set d ''readers'')) = Inr out"
    using assms(3) by (auto simp: resolved_def loads_dumps [OF assms(2)] res_iff)
  have "json_wf d"
  proof (cases m)
    case (Some mem)
    then obtain mem' where "resolve_memory b mem = Inr mem'" "json_set (bm_data b) ''memory'' mem' = Inr d" using m(2) by (auto simp: res_iff)
    then show ?thesis
      using set assms(2) resolve_memory_again(2) [OF assms(1)] json_wf_get [OF assms(2), of "''memory''" mem] m(1) Some by blast
  qed (use m(2) assms(2) in simp)
  then show ?thesis
  proof (cases rs)
    case (Some readers)
    then obtain rs' where "resolve_readers b readers = Inr rs'" "json_set d ''readers'' rs' = Inr out" using m(4) by (auto simp: res_iff)
    then show ?thesis
      using set \<open>json_wf d\<close> resolve_readers_again [OF assms(1)] json_wf_get [OF \<open>json_wf d\<close>, of "''readers''" readers] m(3) Some by blast
  qed (use m(4) in simp)
qed

lemma open_memory_section:
  assumes "open_memory A b = Inr m"
  obtains mem where "json_get (bm_data b) ''memory'' = Inr (Some mem)"
    "json_get mem ''type'' = Inr (Some (JStr ''store'')) \<and> (\<exists>e. json_get mem ''store'' = Inr (Some e))
     \<or> json_get mem ''type'' = Inr (Some (JStr ''view'')) \<and> (\<exists>e. json_get mem ''view'' = Inr (Some e))"
proof -
  obtain mem t where mem: "validate b = Inr []" "bundle_memory b = Inr mem" "json_get mem ''type'' = Inr t"
      "t = Some (JStr ''store'') \<longrightarrow> (\<exists>st. bundle_store A b mem = Inr st)"
      "t \<noteq> Some (JStr ''store'') \<longrightarrow> (\<exists>e. json_item mem ''view'' = Inr e)"
    using assms by (auto simp: open_memory_def res_iff split: if_splits)
  then have t: "t \<in> {Some (JStr ''store''), Some (JStr ''view'')}"
    by (auto simp: validate_def memory_errors_def res_iff split: if_splits)
  obtain v where v: "json_get (bm_data b) ''memory'' = Inr v" "mem = (case v of None \<Rightarrow> JObj [] | Some v \<Rightarrow> v)"
    using mem(2) by (auto simp: bundle_memory_def get_default_def res_iff)
  then have "v = Some mem" using mem(3) t by (cases v) auto
  then show thesis using that v(1) mem(3-5) t by (auto simp: bundle_store_def json_item_Inr res_iff)
qed

lemma open_resolved:
  assumes abs: "has_absolute_base b" and wf: "json_wf (bm_data b)" and res: "resolved b = Inr out" and data: "bm_data b' = out"
    and op: "open_memory A b = Inr m"
  shows "open_memory A b' = Inr m"
proof -
  obtain mem where mem: "json_get (bm_data b) ''memory'' = Inr (Some mem)"
    "json_get mem ''type'' = Inr (Some (JStr ''store'')) \<and> (\<exists>e. json_get mem ''store'' = Inr (Some e))
     \<or> json_get mem ''type'' = Inr (Some (JStr ''view'')) \<and> (\<exists>e. json_get mem ''view'' = Inr (Some e))"
    using open_memory_section [OF op] by blast
  obtain mem' where mem': "resolve_memory b mem = Inr mem'" "json_get out ''memory'' = Inr (Some mem')"
    using resolved_memory [OF wf res mem(1)] by blast
  note sect = resolved_sections [OF wf res] and keep = resolve_memory_keeps [OF abs mem'(1)]
  have bm: "bundle_memory b = Inr mem" "bundle_memory b' = Inr mem'"
    by (simp_all add: bundle_memory_def get_default_def mem(1) mem'(2) data)
  have ple: "bundle_ple b' = bundle_ple b" by (simp add: bundle_ple_def get_default_def data sect)
  have errs: "schema_errors b' = schema_errors b" "ple_errors b' = ple_errors b"
    by (simp_all add: schema_errors_def bundle_schema_def ple_errors_def ple data sect)
  have args: "bundle_args mem' p = bundle_args mem p" for p by (rule bundle_args_cong) (rule keep)
  have type: "json_get mem' ''type'' = json_get mem ''type''" by (rule keep) simp
  have valid: "validate b = Inr []" using op by (auto simp: open_memory_def res_iff split: if_splits)
  note entry = resolve_entry_anywhere [OF abs]
  from mem(2) show ?thesis
  proof
    assume st: "json_get mem ''type'' = Inr (Some (JStr ''store'')) \<and> (\<exists>e. json_get mem ''store'' = Inr (Some e))"
    then obtain e e' where e: "json_get mem ''store'' = Inr (Some e)" "resolve_entry b e = Inr e'" "json_get mem' ''store'' = Inr (Some e')"
      using resolve_memory_store [OF abs mem'(1)] by blast
    have "bundle_store A b' mem' = bundle_store A b mem"
      by (simp add: bundle_store_def json_item_get [OF e(1)] json_item_get [OF e(3)] entry [OF e(2)])
    moreover have "memory_errors b' = memory_errors b"
      using st e missing_keys_cong [of e' e, OF entry(5) [OF e(2)]] by (simp add: memory_errors_def bm type get_default_def)
    moreover from this have "validate b' = Inr []" using valid by (simp add: validate_def errs)
    ultimately show ?thesis using op st valid by (simp add: open_memory_def bm ple args type)
  next
    assume vw: "json_get mem ''type'' = Inr (Some (JStr ''view'')) \<and> (\<exists>e. json_get mem ''view'' = Inr (Some e))"
    then obtain e where vw: "json_get mem ''type'' = Inr (Some (JStr ''view''))" "json_get mem ''view'' = Inr (Some e)" by blast
    obtain slot where slot: "json_get mem ''slot_index'' = Inr slot" using vw(2) by (cases mem) (auto simp: json_get_def)
    obtain e' where e: "resolve_entry b e = Inr e'" "json_get mem' ''view'' = Inr (Some e')"
        "if is_none slot then json_get mem' ''slot_index'' = Inr slot
         else \<exists>s'. resolve_entry b (the slot) = Inr s' \<and> json_get mem' ''slot_index'' = Inr (Some s')"
      by (rule resolve_memory_view [OF abs mem'(1) vw slot])
    have view: "rbind (json_item mem' ''view'') (\<lambda>cfg. rbind (path_arg b' cfg) f) = rbind (json_item mem ''view'') (\<lambda>cfg. rbind (path_arg b cfg) f)"
      for f :: "string \<Rightarrow> view_obj res" by (simp add: json_item_get [OF vw(2)] json_item_get [OF e(2)] entry(1) [OF e(1)])
    have seq: "json_get mem' ''sequential_view'' = json_get mem ''sequential_view''" "json_get mem' ''sequential'' = json_get mem ''sequential''"
      by (rule keep; simp)+
    have "bundle_slot_index A b' mem' = bundle_slot_index A b mem \<and> view_errors mem' = view_errors mem"
    proof (cases "is_none slot")
      case True
      then have "json_get mem' ''slot_index'' = Inr slot" "\<not> is_true slot" using e(3) slot by (auto simp: is_none_def is_true_def truthy_def)
      then show ?thesis
        using slot True vw(2) e(2) missing_keys_cong [of e' e, OF entry(5) [OF e(1)]]
        by (simp add: bundle_slot_index_def view_errors_def get_default_def seq)
    next
      case False
      then obtain s s' where s: "slot = Some s" "resolve_entry b s = Inr s'" "json_get mem' ''slot_index'' = Inr (Some s')" "s \<noteq> JNull"
        using e(3) by (cases slot) (auto simp: is_none_def)
      have ne: "s' \<noteq> JNull" using s(2) by (auto simp: resolve_entry_def res_iff json_get_def json_set_Inr split: json.splits option.splits)
      show ?thesis
        using slot s ne vw(2) e(2) missing_keys_cong [of e' e, OF entry(5) [OF e(1)]] missing_keys_cong [of s' s, OF entry(5) [OF s(2)]]
          entry(2,6) [OF s(2)] entry(3) [OF s(2), of "''type''"]
        by (simp add: bundle_slot_index_def view_errors_def get_default_def seq is_none_def is_true_def get_or_def)
    qed
    then have "memory_errors b' = memory_errors b" "bundle_slot_index A b' mem' = bundle_slot_index A b mem"
      using vw by (simp_all add: memory_errors_def bm type)
    moreover from this have "validate b' = Inr []" using valid by (simp add: validate_def errs)
    ultimately show ?thesis using op vw valid by (simp add: open_memory_def bm ple args type view)
  qed
qed

section \<open>Properties\<close>

text \<open>
  C39: a bundle whose directory is absolute can be moved by saving its resolved manifest: whatever path it is saved under, the
  file loads back as the resolved manifest, opening it gives the memory the original bundle opened, and no other
  file changes.
\<close>

theorem relocated_bundle_opens:
  assumes "has_absolute_base b" "json_wf (bm_data b)" "resolved b = Inr out" "json_ascii out" "open_memory A b = Inr m"
  shows "\<exists>fl' b'. bundle_save (b\<lparr>bm_data := out\<rparr>) path fl = (py_path path, fl') \<and> bundle_load (read_text fl') path = Inr b'
    \<and> bm_data b' = out \<and> bm_base_dir b' = Some (path_parent path) \<and> open_memory A b' = Inr m
    \<and> (\<forall>p. p \<noteq> py_path path \<longrightarrow> fl' p = fl p)"
proof -
  let ?b = "b\<lparr>bm_data := out\<rparr>" and ?b' = "\<lparr>bm_data = out, bm_base_dir = Some (path_parent path), bm_path = Some (py_path path)\<rparr>"
  have "json_wf out" using resolved_wf [OF absolute_base_ok] assms(1-3) by blast
  then have "bundle_load (read_text (snd (bundle_save ?b path fl))) path = Inr ?b'"
    using load_saved [of ?b path fl] assms(4) by simp
  moreover have "open_memory A ?b' = Inr m" by (rule open_resolved [OF assms(1-3) _ assms(5)]) simp
  moreover have "bundle_save ?b path fl = (py_path path, snd (bundle_save ?b path fl))"
    "\<forall>p. p \<noteq> py_path path \<longrightarrow> snd (bundle_save ?b path fl) p = fl p"
    by (simp_all add: bundle_save_def)
  ultimately show ?thesis by (intro exI [of _ "snd (bundle_save ?b path fl)"] exI [of _ ?b']) simp
qed

text \<open>The bundle of \<open>Bundle\<close> in the root directory.\<close>

definition demo_root_artifacts :: artifacts where
  "demo_root_artifacts = demo_artifacts\<lparr>af_store := native_open (demo_fs\<lparr>fs_shards := \<lambda>p. fs_shards demo_fs (tl p)\<rparr>)\<rparr>"

theorem relocated_bundle_opens_witness:
  "\<exists>fl' b'. bundle_save ((demo_bundle ''/db'')\<lparr>bm_data := projr (resolved (demo_bundle ''/db''))\<rparr>) ''elsewhere/b.json'' (\<lambda>p. None)
      = (''elsewhere/b.json'', fl')
    \<and> bundle_load (read_text fl') ''elsewhere/b.json'' = Inr b'
    \<and> open_memory demo_root_artifacts b' = open_memory demo_root_artifacts (demo_bundle ''/db'')"
proof -
  have "\<not> isl (open_memory demo_root_artifacts (demo_bundle ''/db''))" by code_simp
  then obtain m where m: "open_memory demo_root_artifacts (demo_bundle ''/db'') = Inr m"
    by (cases "open_memory demo_root_artifacts (demo_bundle ''/db'')") auto
  have r: "\<not> isl (resolved (demo_bundle ''/db''))" by code_simp
  then have out: "resolved (demo_bundle ''/db'') = Inr (projr (resolved (demo_bundle ''/db'')))" by simp
  have ascii: "json_ascii (projr (resolved (demo_bundle ''/db'')))" by code_simp
  have "has_absolute_base (demo_bundle ''/db'')" "json_wf (bm_data (demo_bundle ''/db''))"
    by (simp_all add: has_absolute_base_def demo_bundle_def is_absolute_def path_root_def)
  from relocated_bundle_opens [OF this out ascii m, of "''elsewhere/b.json''" "\<lambda>p. None"] m
  have "\<exists>fl' b'. bundle_save ((demo_bundle ''/db'')\<lparr>bm_data := projr (resolved (demo_bundle ''/db''))\<rparr>) ''elsewhere/b.json'' (\<lambda>p. None)
      = (py_path ''elsewhere/b.json'', fl')
    \<and> bundle_load (read_text fl') ''elsewhere/b.json'' = Inr b'
    \<and> open_memory demo_root_artifacts b' = open_memory demo_root_artifacts (demo_bundle ''/db'')" by metis
  moreover have "py_path ''elsewhere/b.json'' = ''elsewhere/b.json''" by code_simp
  ultimately show ?thesis by simp
qed

end
