(* ===== verification/TokenMap.thy ===== *)
theory TokenMap
  imports V41Constants JsonIndent Discovery
begin

text \<open>
  \<open>scripts/gen_v41_token_map.py\<close>: the frozen map from token ids to compressed ids.  The tokenizer and its normalizer are
  arguments, as is SHA-256; a text is a list of code points.  The lemmas show that two tokens share an id exactly
  when they share a key, that the ids are numbered in the order of first occurrence, and that the artifacts written pass
  the check, and no others do.
\<close>

section \<open>The map\<close>

type_synonym text_points = "nat list"

record tokenizer =
  tk_vocab :: nat
  tk_decode :: "nat \<Rightarrow> text_points"
  tk_id_to_token :: "nat \<Rightarrow> text_points option"
  tk_normalize :: "text_points \<Rightarrow> text_points"

definition REPLACEMENT :: nat where "REPLACEMENT = 65533"

definition token_key :: "tokenizer \<Rightarrow> nat \<Rightarrow> text_points option" where
  "token_key backend token_id =
     (let text = tk_decode backend token_id
      in if REPLACEMENT \<in> set text then tk_id_to_token backend token_id
         else let normalized = tk_normalize backend text in Some (if normalized \<noteq> [] then normalized else text))"

definition map_token :: "tokenizer \<Rightarrow> nat \<Rightarrow> (text_points option, nat) dict \<times> nat list \<Rightarrow> (text_points option, nat) dict \<times> nat list" where
  "map_token backend token_id st =
     (let (key_to_new, lookup) = st; key = token_key backend token_id
      in case dict_get key_to_new key of
           Some new_id \<Rightarrow> (key_to_new, lookup[token_id := new_id])
         | None \<Rightarrow> (let new_id = length key_to_new in (dict_set key new_id key_to_new, lookup[token_id := new_id])))"

definition build_compressed_token_map :: "tokenizer \<Rightarrow> nat \<Rightarrow> nat list \<times> nat" where
  "build_compressed_token_map backend vocab_size =
     (let (key_to_new, lookup) = fold (map_token backend) [0..<vocab_size] ([], replicate vocab_size 0)
      in (lookup, length key_to_new))"

section \<open>The command\<close>

text \<open>\<open>==\<close> of parsed documents: dictionaries without their order, and a boolean equals its number.\<close>

definition json_number :: "json \<Rightarrow> int option" where
  "json_number v = (case v of JInt i \<Rightarrow> Some i | JBool b \<Rightarrow> Some (if b then 1 else 0) | _ \<Rightarrow> None)"

fun json_equal :: "json \<Rightarrow> json \<Rightarrow> bool" where
  "json_equal (JList xs) w = (case w of JList ys \<Rightarrow> list_all2 json_equal xs ys | _ \<Rightarrow> False)"
| "json_equal (JObj ps) w =
     (case w of
        JObj qs \<Rightarrow> length ps = length qs
          \<and> list_all (\<lambda>p. case dict_get qs (fst p) of None \<Rightarrow> False | Some v \<Rightarrow> json_equal (snd p) v) ps
      | _ \<Rightarrow> False)"
| "json_equal v w = (if json_number v \<noteq> None then json_number v = json_number w else v = w)"

definition EXPECTED_COMPRESSED :: nat where "EXPECTED_COMPRESSED = 99092"
definition EXPECTED_VOCAB :: nat where "EXPECTED_VOCAB = 129280"
definition OUT_BIN :: string where "OUT_BIN = ''refs/v41_token_map.bin''"
definition OUT_META :: string where "OUT_META = ''refs/v41_token_map.json''"

text \<open>The comment and the model name are constant strings.\<close>

definition token_map_meta :: "(bytes \<Rightarrow> string) \<Rightarrow> bytes \<Rightarrow> nat \<Rightarrow> nat list \<Rightarrow> nat \<Rightarrow> bytes \<Rightarrow> json" where
  "token_map_meta sha256 raw vocab_size lookup compressed payload =
     JObj [(''_comment'', JStr (''Generated by scripts/gen_v41_token_map.py. Do not edit by hand. '' @
              ''Source: deepseek-ai/DeepSeek-V4.1-Flash tokenizer.json (MIT).'')),
       (''model'', JStr ''deepseek-ai/DeepSeek-V4.1-Flash''),
       (''tokenizer_sha256'', JStr (sha256 raw)), (''tokenizer_bytes'', JInt (int (length raw))),
       (''vocab_size'', JInt (int vocab_size)), (''compressed_vocab_size'', JInt (int compressed)),
       (''pad_token_id'', JInt 2), (''pad_compressed_id'', JInt (int (lookup ! 2))),
       (''dtype'', JStr ''uint32-le''), (''table_bytes'', JInt (int (length payload)))]"

text \<open>\<open>struct.pack("<nI", *lookup)\<close>.\<close>

definition pack_u32s :: "nat list \<Rightarrow> bytes res" where
  "pack_u32s xs = (if list_all (\<lambda>x. x < 2 ^ 32) xs then Inr (concat (map (le_bytes 4) xs)) else Inl StructError)"

text \<open>
  The exit status and the files.  A document that is no JSON makes the check raise; the argument \<open>from_file\<close> is
  \<open>Tokenizer.from_file\<close>.
\<close>

definition token_map_main ::
  "(bytes \<Rightarrow> string) \<Rightarrow> (bytes \<Rightarrow> tokenizer res) \<Rightarrow> string \<Rightarrow> bool \<Rightarrow> files \<Rightarrow> nat res \<times> files" where
  "token_map_main sha256 from_file tok_path check fl =
     (case fl tok_path of
        None \<Rightarrow> (Inr 1, fl)
      | Some raw \<Rightarrow>
          (case from_file raw of
             Inl e \<Rightarrow> (Inl e, fl)
           | Inr tok \<Rightarrow>
               if tk_vocab tok \<noteq> EXPECTED_VOCAB then (Inr 1, fl)
               else let (lookup, compressed) = build_compressed_token_map tok (tk_vocab tok)
                 in if compressed \<noteq> EXPECTED_COMPRESSED then (Inr 1, fl)
                    else (case pack_u32s lookup of
                        Inl e \<Rightarrow> (Inl e, fl)
                      | Inr payload \<Rightarrow>
                          let meta = token_map_meta sha256 raw (tk_vocab tok) lookup compressed payload
                          in if check then
                               (case (fl OUT_BIN, fl OUT_META) of
                                  (Some bin, Some text) \<Rightarrow>
                                    (rbind (loads (utf8_decode text)) (\<lambda>existing.
                                       Inr (if \<not> json_equal existing meta \<or> bin \<noteq> payload then 1 else 0)), fl)
                                | _ \<Rightarrow> (Inr 1, fl))
                             else (Inr 0, fl(OUT_BIN \<mapsto> payload,
                               OUT_META \<mapsto> utf8_text (dumps_indent True 0 meta @ [CHR 0x0A]))))))"

section \<open>Ids are numbered by first occurrence\<close>

text \<open>The number of keys seen before a key first occurs.\<close>

definition key_rank :: "tokenizer \<Rightarrow> text_points option \<Rightarrow> nat" where
  "key_rank backend key = card (token_key backend ` {..<LEAST j. token_key backend j = key})"

lemma key_rank_new:
  assumes "\<And>j. j < n \<Longrightarrow> token_key b j \<noteq> token_key b n"
  shows "key_rank b (token_key b n) = card (token_key b ` {..<n})"
proof -
  have "(LEAST j. token_key b j = token_key b n) = n"
    by (rule Least_equality) (use assms leI in blast)+
  then show ?thesis by (simp add: key_rank_def)
qed

lemma first_key: "token_key b (LEAST j. token_key b j = token_key b i) = token_key b i"
  by (rule LeastI) (rule refl)

lemma key_rank_less:
  assumes "(LEAST j. token_key b j = token_key b i) < (LEAST j. token_key b j = token_key b k)"
  shows "key_rank b (token_key b i) < key_rank b (token_key b k)"
proof -
  let ?f = "\<lambda>i. LEAST j. token_key b j = token_key b i"
  have "token_key b i \<in> token_key b ` {..<?f k}" using assms by (intro image_eqI [where x = "?f i"]) (simp_all add: first_key)
  moreover have "token_key b i \<notin> token_key b ` {..<?f i}"
  proof
    assume "token_key b i \<in> token_key b ` {..<?f i}"
    then obtain j where "j < ?f i" "token_key b j = token_key b i" by force
    then show False using not_less_Least by blast
  qed
  moreover have "token_key b ` {..<?f i} \<subseteq> token_key b ` {..<?f k}" using assms by (intro image_mono) auto
  ultimately have "token_key b ` {..<?f i} \<subset> token_key b ` {..<?f k}" by blast
  then show ?thesis unfolding key_rank_def by (intro psubset_card_mono) simp_all
qed

lemma key_rank_inj: "key_rank b (token_key b i) = key_rank b (token_key b k) \<longleftrightarrow> token_key b i = token_key b k"
  using key_rank_less [of b i k] key_rank_less [of b k i] first_key [of b i] first_key [of b k]
  by (metis less_irrefl linorder_neqE_nat)

lemma key_rank_bound: "i < n \<Longrightarrow> key_rank b (token_key b i) < card (token_key b ` {..<n})"
proof -
  assume i: "i < n"
  let ?f = "LEAST j. token_key b j = token_key b i"
  have f: "?f \<le> i" by (rule Least_le) (rule refl)
  have "token_key b i \<notin> token_key b ` {..<?f}"
  proof
    assume "token_key b i \<in> token_key b ` {..<?f}"
    then obtain j where "j < ?f" "token_key b j = token_key b i" by force
    then show False using not_less_Least by blast
  qed
  moreover have "token_key b ` {..<?f} \<subseteq> token_key b ` {..<n}" using f i by (intro image_mono) auto
  ultimately have "token_key b ` {..<?f} \<subset> token_key b ` {..<n}" using i by blast
  then show ?thesis unfolding key_rank_def by (intro psubset_card_mono) simp_all
qed

definition token_map_inv :: "tokenizer \<Rightarrow> nat \<Rightarrow> nat \<Rightarrow> (text_points option, nat) dict \<times> nat list \<Rightarrow> bool" where
  "token_map_inv b v n st \<longleftrightarrow>
     (\<forall>k. dict_get (fst st) k = (if k \<in> token_key b ` {..<n} then Some (key_rank b k) else None))
     \<and> length (fst st) = card (token_key b ` {..<n})
     \<and> snd st = map (\<lambda>i. key_rank b (token_key b i)) [0..<n] @ replicate (v - n) 0"

lemma map_token_step:
  assumes "token_map_inv b v n st" "n < v"
  shows "token_map_inv b v (Suc n) (map_token b n st)"
proof -
  obtain d lk where st: "st = (d, lk)" by (cases st)
  let ?key = "token_key b n" and ?seen = "token_key b ` {..<n}"
  have seen: "token_key b ` {..<Suc n} = insert ?key ?seen" by (simp add: lessThan_Suc)
  have d: "dict_get d k = (if k \<in> ?seen then Some (key_rank b k) else None)" for k
    using assms(1) by (simp add: token_map_inv_def st)
  have len: "length d = card ?seen" using assms(1) by (simp add: token_map_inv_def st)
  have upd: "lk[n := r] = map (\<lambda>i. key_rank b (token_key b i)) [0..<n] @ r # replicate (v - Suc n) 0" for r
    using assms by (simp add: token_map_inv_def st list_update_append Suc_diff_Suc [symmetric])
  show ?thesis
  proof (cases "?key \<in> ?seen")
    case True
    then have "map_token b n st = (d, lk[n := key_rank b ?key])" by (simp add: map_token_def st Let_def d)
    then show ?thesis using True d len by (simp add: token_map_inv_def seen upd insert_absorb)
  next
    case False
    then have new: "key_rank b ?key = card ?seen" by (intro key_rank_new) (metis imageI lessThan_iff)
    have step: "map_token b n st = (dict_set ?key (length d) d, lk[n := length d])"
      using False by (simp add: map_token_def st Let_def d)
    have "dict_get d ?key = None" using False by (simp add: d)
    then have "length (dict_set ?key (length d) d) = Suc (card ?seen)" by (simp add: dict_set_new len)
    then show ?thesis unfolding step using False d len by (auto simp: token_map_inv_def seen upd new)
  qed
qed

lemma build_token_map:
  "build_compressed_token_map b v = (map (\<lambda>i. key_rank b (token_key b i)) [0..<v], card (token_key b ` {..<v}))"
proof -
  have "token_map_inv b v n (fold (map_token b) [0..<n] ([], replicate v 0))" if "n \<le> v" for n
    using that
  proof (induction n)
    case 0
    then show ?case by (simp add: token_map_inv_def)
  next
    case (Suc n)
    then show ?case using map_token_step [of b v n] by simp
  qed
  from this [of v] show ?thesis
    by (auto simp: token_map_inv_def build_compressed_token_map_def split: prod.split)
qed

section \<open>Properties\<close>

text \<open>
  The compressed map numbers the keys of the tokens by first occurrence, so that two tokens share an id exactly when
  they share a key, the ids are those below their number, and the hash products of the V4.1 multipliers do not overflow on them.
\<close>

theorem token_map_compresses:
  assumes "build_compressed_token_map b v = (lookup, compressed)"
  shows "length lookup = v \<and> compressed = card (token_key b ` {..<v}) \<and> set lookup = {..<compressed}
    \<and> (\<forall>i < v. lookup ! i = card (token_key b ` {..<LEAST j. token_key b j = token_key b i}))
    \<and> (\<forall>i < v. \<forall>j < v. lookup ! i = lookup ! j \<longleftrightarrow> token_key b i = token_key b j)
    \<and> (\<forall>rng c bound mss. rng_laws rng \<and> v41_bound c = Inr bound \<and> v41_multipliers rng c bound = Inr mss
          \<and> vf_compressed_vocab c = int compressed \<and> 0 < compressed \<and> 2 * int compressed \<le> MAX_LONG
        \<longrightarrow> (\<forall>ms \<in> set mss. \<forall>m \<in> set ms. \<forall>t \<in> set lookup. int t * m < 2 ^ 63))"
proof -
  have lk: "lookup = map (\<lambda>i. key_rank b (token_key b i)) [0..<v]" and cv: "compressed = card (token_key b ` {..<v})"
    using assms by (simp_all add: build_token_map)
  have sub: "set lookup \<subseteq> {..<compressed}" using key_rank_bound [of _ v b] by (auto simp: lk cv)
  have "inj_on (key_rank b) (token_key b ` {..<v})" by (auto simp: inj_on_def key_rank_inj)
  then have "card (set lookup) = compressed"
    using card_image [of "key_rank b" "token_key b ` {..<v}"] by (simp add: lk cv image_image atLeast0LessThan)
  then have set: "set lookup = {..<compressed}" using card_subset_eq [OF _ sub] by simp
  have "int t * m < 2 ^ 63"
    if "rng_laws rng" "v41_bound c = Inr bound" "vf_compressed_vocab c = int compressed" "0 < compressed"
      "2 * int compressed \<le> MAX_LONG" "v41_multipliers rng c bound = Inr mss" "ms \<in> set mss" "m \<in> set ms" "t \<in> set lookup" for rng c bound mss ms m t
    using multiplier_no_overflow [OF that(1,2) _ _ that(6-8), of "int t"] that(3-5,9) set by simp
  moreover have "lookup ! i = lookup ! j \<longleftrightarrow> token_key b i = token_key b j" if "i < v" "j < v" for i j
    using that by (simp add: lk key_rank_inj)
  moreover have "lookup ! i = card (token_key b ` {..<LEAST j. token_key b j = token_key b i})" if "i < v" for i
    using that by (simp add: lk key_rank_def)
  moreover have "length lookup = v" by (simp add: lk)
  ultimately show ?thesis using set cv by blast
qed

lemma json_equal_scalar: "json_equal (JStr s) (JStr s)" "json_equal (JInt i) (JInt i)"
  by (simp_all add: json_number_def)

lemma meta_equal:
  "json_equal (token_map_meta h raw v lk cv pl) (token_map_meta h raw v lk cv pl)"
  by (simp add: token_map_meta_def dict_get_def json_number_def)

lemma meta_wf: "json_wf (token_map_meta h raw v lk cv pl)"
  by (simp add: token_map_meta_def)

text \<open>Three tokens, the first and the last with the same normal form.\<close>

definition demo_tokenizer :: tokenizer where
  "demo_tokenizer = \<lparr>tk_vocab = 3, tk_decode = (\<lambda>i. if i = 0 then [65] else if i = 1 then [98] else [97]),
     tk_id_to_token = (\<lambda>i. None), tk_normalize = map (\<lambda>c. if 65 \<le> c \<and> c \<le> 90 then c + 32 else c)\<rparr>"

theorem token_map_compresses_witness:
  "build_compressed_token_map demo_tokenizer 3 = ([0, 1, 0], 2) \<and> set [0, 1, 0] = {..<2::nat}"
proof -
  have "build_compressed_token_map demo_tokenizer 3 = ([0, 1, 0], 2)"
    by (simp add: build_compressed_token_map_def map_token_def token_key_def demo_tokenizer_def REPLACEMENT_def
        numeral_3_eq_3 replicate_Suc dict_get_def dict_set_def)
  from this token_map_compresses [OF this, THEN conjunct2, THEN conjunct2, THEN conjunct1] show ?thesis by (rule conjI)
qed

text \<open>
  C40: with a tokenizer of the expected sizes the command writes both files and the check accepts them: the table is the map,
  four bytes for each token, and whatever files the check accepts have that table.  With other sizes, with and
  without the check, it fails and writes nothing.
\<close>

theorem token_map_frozen:
  assumes "fl tok_path = Some raw" "from_file raw = Inr tok" "tok_path \<noteq> OUT_BIN" "tok_path \<noteq> OUT_META"
    and "build_compressed_token_map tok (tk_vocab tok) = (lookup, compressed)"
  shows "if tk_vocab tok = EXPECTED_VOCAB \<and> compressed = EXPECTED_COMPRESSED
    then \<exists>bin doc. token_map_main sha256 from_file tok_path False fl = (Inr 0, fl(OUT_BIN \<mapsto> bin, OUT_META \<mapsto> doc))
      \<and> token_map_main sha256 from_file tok_path True (fl(OUT_BIN \<mapsto> bin, OUT_META \<mapsto> doc))
          = (Inr 0, fl(OUT_BIN \<mapsto> bin, OUT_META \<mapsto> doc))
      \<and> length bin = 4 * EXPECTED_VOCAB \<and> map from_le (chunks 4 bin) = lookup
      \<and> (\<forall>fl'. fl' tok_path = Some raw \<and> fst (token_map_main sha256 from_file tok_path True fl') = Inr 0
          \<longrightarrow> fl' OUT_BIN = Some bin)
    else \<forall>check. token_map_main sha256 from_file tok_path check fl = (Inr 1, fl)"
proof (cases "tk_vocab tok = EXPECTED_VOCAB \<and> compressed = EXPECTED_COMPRESSED")
  case True
  let ?enc = "le_bytes 4 :: nat \<Rightarrow> bytes"
  have lk: "length lookup = EXPECTED_VOCAB" "t \<in> set lookup \<Longrightarrow> t < 2 ^ 32" for t
    using assms(5) True key_rank_bound [of _ EXPECTED_VOCAB tok]
    by (fastforce simp: build_token_map EXPECTED_COMPRESSED_def)+
  define bin where "bin = concat (map ?enc lookup)"
  define meta where "meta = token_map_meta sha256 raw EXPECTED_VOCAB lookup EXPECTED_COMPRESSED bin"
  define doc where "doc = utf8_text (dumps_indent True 0 meta @ [CHR 0x0A])"
  have pack: "pack_u32s lookup = Inr bin" using lk(2) by (simp add: pack_u32s_def bin_def list_all_iff)
  have distinct: "OUT_BIN \<noteq> OUT_META" by (simp add: OUT_BIN_def OUT_META_def)
  have main: "token_map_main sha256 from_file tok_path check fl' =
      (if check then
         (case (fl' OUT_BIN, fl' OUT_META) of
            (Some b, Some t) \<Rightarrow>
              (rbind (loads (utf8_decode t)) (\<lambda>existing. Inr (if \<not> json_equal existing meta \<or> b \<noteq> bin then 1 else 0)), fl')
          | _ \<Rightarrow> (Inr 1, fl'))
       else (Inr 0, fl'(OUT_BIN \<mapsto> bin, OUT_META \<mapsto> doc)))"
    if "fl' tok_path = Some raw" for check fl'
    using that assms(2,5) True pack
    by (simp add: token_map_main_def Let_def meta_def doc_def split: option.split)
  have "loads (utf8_decode doc) = Inr meta" unfolding doc_def meta_def by (rule loads_indented) (simp_all add: meta_wf)
  moreover have "chunks 4 bin = map ?enc lookup" unfolding bin_def by (rule chunks_concat) auto
  moreover have "map from_le (map ?enc lookup) = lookup"
    using lk(2) from_le_le_bytes_id [of _ 4] by (auto intro: map_idI)
  moreover have "length bin = 4 * EXPECTED_VOCAB"
  proof -
    have "length (concat (map ?enc lookup)) = length (map ?enc lookup) * 4" by (rule length_concat_const) auto
    then show ?thesis using lk(1) by (simp add: bin_def)
  qed
  moreover have "fl' OUT_BIN = Some bin"
    if "fl' tok_path = Some raw" "fst (token_map_main sha256 from_file tok_path True fl') = Inr 0" for fl'
    using that(2) by (auto simp: main [of fl' True, OF that(1)] res_iff split: option.splits if_splits)
  ultimately show ?thesis
    using True main [of fl False, OF assms(1)] main [of "fl(OUT_BIN \<mapsto> bin, OUT_META \<mapsto> doc)" True] assms(1,3,4) distinct
    by (intro if_P [THEN iffD2] exI [of _ bin] exI [of _ doc]) (auto simp: meta_equal meta_def)
next
  case False
  then show ?thesis using assms(1,2,5) by (auto simp: token_map_main_def Let_def)
qed

text \<open>A tokenizer of the expected sizes: its last tokens share the key of the first.\<close>

definition demo_v41_tokenizer :: tokenizer where
  "demo_v41_tokenizer = \<lparr>tk_vocab = EXPECTED_VOCAB, tk_decode = (\<lambda>i. [70000 + (if i < EXPECTED_COMPRESSED then i else 0)]),
     tk_id_to_token = (\<lambda>i. None), tk_normalize = (\<lambda>t. t)\<rparr>"

lemma demo_v41_tokenizer_keys: "card (token_key demo_v41_tokenizer ` {..<EXPECTED_VOCAB}) = EXPECTED_COMPRESSED"
proof -
  have key: "token_key demo_v41_tokenizer i = Some [70000 + (if i < EXPECTED_COMPRESSED then i else 0)]" for i
    by (simp add: token_key_def demo_v41_tokenizer_def REPLACEMENT_def)
  have "token_key demo_v41_tokenizer ` {..<EXPECTED_VOCAB} = (\<lambda>i. Some [70000 + i]) ` {..<EXPECTED_COMPRESSED}"
  proof (intro equalityI subsetI)
    fix k assume "k \<in> token_key demo_v41_tokenizer ` {..<EXPECTED_VOCAB}"
    then obtain i where "k = Some [70000 + (if i < EXPECTED_COMPRESSED then i else 0)]" by (auto simp: key)
    then show "k \<in> (\<lambda>i. Some [70000 + i]) ` {..<EXPECTED_COMPRESSED}"
      by (intro image_eqI [where x = "if i < EXPECTED_COMPRESSED then i else 0"]) (auto simp: EXPECTED_COMPRESSED_def)
  next
    fix k assume "k \<in> (\<lambda>i. Some [70000 + i]) ` {..<EXPECTED_COMPRESSED}"
    then obtain i where "i < EXPECTED_COMPRESSED" "k = Some [70000 + i]" by auto
    then show "k \<in> token_key demo_v41_tokenizer ` {..<EXPECTED_VOCAB}"
      by (intro image_eqI [where x = i]) (auto simp: key EXPECTED_COMPRESSED_def EXPECTED_VOCAB_def)
  qed
  moreover have "inj_on (\<lambda>i. Some [70000 + i :: nat]) {..<EXPECTED_COMPRESSED}" by (simp add: inj_on_def)
  ultimately show ?thesis by (simp add: card_image)
qed

theorem token_map_frozen_witness:
  "\<exists>bin doc. token_map_main (\<lambda>raw. ''00'') (\<lambda>raw. Inr demo_v41_tokenizer) ''t'' False [''t'' \<mapsto> []]
      = (Inr 0, [''t'' \<mapsto> [], OUT_BIN \<mapsto> bin, OUT_META \<mapsto> doc]) \<and> length bin = 4 * EXPECTED_VOCAB"
proof -
  have v: "tk_vocab demo_v41_tokenizer = EXPECTED_VOCAB" by (simp add: demo_v41_tokenizer_def)
  have "build_compressed_token_map demo_v41_tokenizer (tk_vocab demo_v41_tokenizer)
    = (map (\<lambda>i. key_rank demo_v41_tokenizer (token_key demo_v41_tokenizer i)) [0..<EXPECTED_VOCAB], EXPECTED_COMPRESSED)"
    by (simp add: build_token_map v demo_v41_tokenizer_keys)
  from token_map_frozen [OF _ _ _ _ this, of "[''t'' \<mapsto> []]" "''t''" "[]" "\<lambda>raw. Inr demo_v41_tokenizer" "\<lambda>raw. ''00''"] v
  show ?thesis by (auto simp: OUT_BIN_def OUT_META_def)
qed

end
