(* ===== verification/MockTable.thy ===== *)
theory MockTable
  imports ExtractRows PrimeTable JsonIndent Keygen
begin

text \<open>
  \<open>scripts/mock_table_gen.py\<close>: a scaled table of random rows with its specification and layout files.  NumPy's generator is
  an argument.  The lemmas show that a store opens on the files and serves the rows drawn, and that the
  default table is too small for the row ids of its own specification.
\<close>

section \<open>The generator\<close>

definition REAL_SHARDS :: int where "REAL_SHARDS = 128"
definition REAL_ROWS :: int where "REAL_ROWS = 2500012"
definition REAL_WIDTH :: int where "REAL_WIDTH = 160"
definition REAL_MULTIPLIERS :: "int list" where
  "REAL_MULTIPLIERS = [23703573157769, 20109073645365, 8052911324071]"

definition mock_shards :: "int \<Rightarrow> int res" where
  "mock_shards scale = rmap (max 1) (py_div REAL_SHARDS scale)"

definition mock_rows :: "int \<Rightarrow> int res" where
  "mock_rows scale = py_div (REAL_ROWS + scale - 1) scale"

definition mock_spec :: "int \<Rightarrow> int \<Rightarrow> int \<Rightarrow> json" where
  "mock_spec scale n_shards rows =
     JObj [(''model'', JStr ''mock-qwen38-ple''), (''scale'', JInt scale), (''ngram_size'', JInt 3),
       (''ngram_vocab_size_base'', JInt 20000000), (''heads_per_ngram'', JInt 8), (''ple_embed_dim'', JInt 2560),
       (''ple_layer_ids'', JList [JInt 2]), (''split_ngram_parts'', JInt n_shards),
       (''make_ngram_vocab_size_divisible_by'', JInt 128), (''ple_conv_kernel_size'', JInt 4), (''hidden_size'', JInt 2560),
       (''hc_count'', JInt 4), (''vocab_size'', JInt 248320), (''layer_multipliers_i64'', JList (map JInt REAL_MULTIPLIERS)),
       (''shard_rows'', JInt rows), (''shard_width'', JInt REAL_WIDTH), (''shard_dtype'', JStr ''F8_E4M3''),
       (''total_rows'', JInt (rows * n_shards)), (''nsides'', JObj [(''n_shards'', JInt n_shards)])]"

definition mock_layout :: "int \<Rightarrow> int \<Rightarrow> json" where
  "mock_layout n_shards rows =
     JObj [(''type'', JStr ''batch-sharded''), (''shard_pattern'', JStr ''shard_{:03d}.bin''), (''rows_per_shard'', JInt rows),
       (''width'', JInt REAL_WIDTH), (''n_shards'', JInt n_shards)]"

text \<open>
  \<open>draw\<close> is \<open>rng.integers(0, 256, size, dtype=uint8)\<close>, with the generator before and after; a negative size is a
  \<open>ValueError\<close>.
\<close>

fun mock_loop :: "('g \<Rightarrow> nat \<Rightarrow> bytes \<times> 'g) \<Rightarrow> string \<Rightarrow> int \<Rightarrow> nat list \<Rightarrow> 'g \<Rightarrow> files \<Rightarrow> unit res \<times> files" where
  "mock_loop draw out rows [] rng fl = (Inr (), fl)"
| "mock_loop draw out rows (i # shards) rng fl =
     (if rows < 0 then (Inl ValueError, fl)
      else let (data, rng) = draw rng (nat (rows * REAL_WIDTH))
        in mock_loop draw out rows shards rng (fl(path_div out (shard_file i) \<mapsto> data)))"

definition mock_table_gen :: "('g \<Rightarrow> nat \<Rightarrow> bytes \<times> 'g) \<Rightarrow> (int \<Rightarrow> 'g) \<Rightarrow> int \<Rightarrow> string \<Rightarrow> int \<Rightarrow> files \<Rightarrow> unit res \<times> files" where
  "mock_table_gen draw default_rng scale out seed fl =
     (case rbind (mock_shards scale) (\<lambda>n. rmap (\<lambda>rows. (n, rows)) (mock_rows scale)) of
        Inl e \<Rightarrow> (Inl e, fl)
      | Inr (n_shards, rows) \<Rightarrow>
          let fl = fl(path_div out ''spec.json'' \<mapsto> utf8_text (dumps_indent False 0 (mock_spec scale n_shards rows)));
              (r, fl) = mock_loop draw out rows [0..<nat n_shards] (default_rng seed) fl
          in case r of
               Inl e \<Rightarrow> (Inl e, fl)
             | Inr _ \<Rightarrow> (Inr (), fl(path_div out ''layout.json'' \<mapsto> utf8_text (dumps_indent True 0 (mock_layout n_shards rows)))))"

section \<open>The files\<close>

text \<open>What the generator draws for the shards, one after the other.\<close>

fun draws :: "('g \<Rightarrow> nat \<Rightarrow> bytes \<times> 'g) \<Rightarrow> nat \<Rightarrow> nat \<Rightarrow> 'g \<Rightarrow> bytes list" where
  "draws draw sz 0 rng = []"
| "draws draw sz (Suc n) rng = fst (draw rng sz) # draws draw sz n (snd (draw rng sz))"

lemma length_draws [simp]: "length (draws draw sz n rng) = n"
  by (induction n arbitrary: rng) simp_all

lemma mock_loop_files:
  assumes "0 \<le> rows"
  shows "mock_loop draw out rows [k..<k + n] rng fl = (Inr (), fl') \<Longrightarrow>
    (\<forall>i < n. fl' (path_div out (shard_file (k + i))) = Some (draws draw (nat (rows * REAL_WIDTH)) n rng ! i))
    \<and> (\<forall>p. p \<notin> (\<lambda>i. path_div out (shard_file i)) ` {k..<k + n} \<longrightarrow> fl' p = fl p)"
proof (induction n arbitrary: k rng fl)
  case (Suc n)
  obtain data rng' where d: "draw rng (nat (rows * REAL_WIDTH)) = (data, rng')" by (cases "draw rng (nat (rows * REAL_WIDTH))")
  define fl1 where "fl1 = fl(path_div out (shard_file k) \<mapsto> data)"
  have "mock_loop draw out rows [Suc k..<Suc k + n] rng' fl1 = (Inr (), fl')"
    using Suc.prems assms by (simp add: upt_conv_Cons d fl1_def del: upt_Suc)
  from Suc.IH [OF this]
  have ih: "\<And>i. i < n \<Longrightarrow> fl' (path_div out (shard_file (Suc k + i))) = Some (draws draw (nat (rows * REAL_WIDTH)) n rng' ! i)"
    "\<And>p. p \<notin> (\<lambda>i. path_div out (shard_file i)) ` {Suc k..<Suc k + n} \<Longrightarrow> fl' p = fl1 p" by blast+
  have "path_div out (shard_file k) \<notin> (\<lambda>i. path_div out (shard_file i)) ` {Suc k..<Suc k + n}"
    by (auto simp: image_iff out_paths_distinct)
  from ih(2) [OF this] have "fl' (path_div out (shard_file k)) = Some data" by (simp add: fl1_def)
  then have "fl' (path_div out (shard_file (k + i))) = Some (draws draw (nat (rows * REAL_WIDTH)) (Suc n) rng ! i)" if "i < Suc n" for i
    using that ih(1) [of "i - 1"] by (cases i) (simp_all add: d)
  moreover have "fl' p = fl p" if "p \<notin> (\<lambda>i. path_div out (shard_file i)) ` {k..<k + Suc n}" for p
    using ih(2) [of p] that by (auto simp: fl1_def image_iff)
  ultimately show ?case by blast
qed simp

lemma mock_loop_ends: "0 \<le> rows \<Longrightarrow> \<exists>fl'. mock_loop draw out rows is rng fl = (Inr (), fl')"
  by (induction "is" arbitrary: rng fl) (auto split: prod.split)

lemma draws_length:
  "(\<And>g. length (fst (draw g sz)) = sz) \<Longrightarrow> f \<in> set (draws draw sz n rng) \<Longrightarrow> length f = sz"
  by (induction n arbitrary: rng) auto

lemma other_file: "path_div dst (shard_file i) \<noteq> path_div dst ''spec.json''" "path_div dst (shard_file i) \<noteq> path_div dst ''layout.json''"
    "path_div dst ''spec.json'' \<noteq> path_div dst ''layout.json''"
proof -
  have parts: "path_parts (path_div dst ''spec.json'') = path_parts dst @ [''spec.json'']"
      "path_parts (path_div dst ''layout.json'') = path_parts dst @ [''layout.json'']"
    by (rule plain_path_parts; simp)+
  have "shard_file i \<noteq> ''spec.json''" "shard_file i \<noteq> ''layout.json''" by (simp_all add: shard_file_def)
  then have "path_parts (path_div dst (shard_file i)) \<noteq> path_parts (path_div dst ''spec.json'')"
      "path_parts (path_div dst (shard_file i)) \<noteq> path_parts (path_div dst ''layout.json'')"
      "path_parts (path_div dst ''spec.json'') \<noteq> path_parts (path_div dst ''layout.json'')"
    by (simp_all add: parts shard_path_parts)
  then show "path_div dst (shard_file i) \<noteq> path_div dst ''spec.json''" "path_div dst (shard_file i) \<noteq> path_div dst ''layout.json''"
    "path_div dst ''spec.json'' \<noteq> path_div dst ''layout.json''"
    by (auto dest: arg_cong [of _ _ path_parts])
qed

lemma mock_sizes:
  assumes "0 < scale"
  shows "mock_shards scale = Inr (max 1 (128 div scale))" "mock_rows scale = Inr ((2500011 + scale) div scale)"
    "0 < (2500011 + scale) div scale"
  using assms pos_imp_zdiv_nonneg_iff [of scale 2500011]
  by (simp_all add: mock_shards_def mock_rows_def py_div_def REAL_SHARDS_def REAL_ROWS_def add.commute)

text \<open>A key past the last shard makes the gather panic.\<close>

lemma gather_past_end:
  assumes "ns_rows_per_shard s \<noteq> 0" "k \<in> set keys" "length (ns_files s) \<le> k div ns_rows_per_shard s"
  shows "gather_pp s keys = Inl PanicException"
proof -
  let ?read = "\<lambda>(shard, pairs). if shard < length (ns_files s)
      then Inr (gather_rows (ns_files s ! shard) (ns_width s) (ns_rows_per_shard s) pairs None (replicate (PAGE + 2 * ns_width s) 0))
      else Inl PanicException"
  have "\<exists>pairs. (k div ns_rows_per_shard s, pairs) \<in> set (gather_tasks (ns_rows_per_shard s) keys)"
    using assms(2) by (auto simp: gather_tasks_def Let_def)
  then have "\<not> (\<exists>r. rmapM ?read (gather_tasks (ns_rows_per_shard s) keys) = Inr r)"
    using assms(3) by (fastforce simp: rmapM_Inr_iff list_all2_conv_all_nth in_set_conv_nth)
  then obtain e where e: "rmapM ?read (gather_tasks (ns_rows_per_shard s) keys) = Inl e"
    by (cases "rmapM ?read (gather_tasks (ns_rows_per_shard s) keys)") auto
  from rmapM_Inl [OF this] have "e = PanicException" by (auto split: if_splits)
  then show ?thesis using assms e by (auto simp: gather_pp_def Let_def)
qed

lemma mock_sizes_bound:
  assumes "0 < scale"
  shows "0 < max 1 (128 div scale)" "max 1 (128 div scale) \<le> (128 :: int)" "(2500011 + scale) div scale \<le> 2500012"
proof -
  have "128 div scale \<le> 128 div (1 :: int)" by (rule zdiv_mono2) (use assms in auto)
  then show "max 1 (128 div scale) \<le> 128" by simp
  have "2500011 div scale \<le> 2500011 div (1 :: int)" by (rule zdiv_mono2) (use assms in auto)
  then show "(2500011 + scale) div scale \<le> 2500012" using assms by simp
qed simp

text \<open>Row ids of the default sizes lie in the full table, and the last head's past the first 300 million rows.\<close>

lemma default_params_ok: "ple_params_ok REAL_MULTIPLIERS table_sizes (head_offsets (Some table_sizes)) 3 8"
  by (simp add: ple_params_ok_def REAL_MULTIPLIERS_def table_sizes_def table_gaps_def head_offsets_closed)

lemma default_row_ids:
  assumes "ple_rowids tokens REAL_MULTIPLIERS eos (Some table_sizes) (Some (head_offsets (Some table_sizes))) 3 8 history = Inr ids"
    and "row \<in> set ids"
  shows "list_all (\<lambda>r. 0 \<le> r \<and> r < 2 ^ 64) row" "\<exists>r \<in> set row. 300000000 \<le> r"
proof -
  note ok = default_params_ok
  obtain hist i where "row = row_of eos REAL_MULTIPLIERS table_sizes (head_offsets (Some table_sizes)) 3 8 hist i"
    using assms ple_rowids_closed [OF ok, of tokens eos history] by auto
  then have row: "row = map (\<lambda>h. gram_hash eos REAL_MULTIPLIERS hist i (h div 8 + 2) mod table_sizes ! h + head_offsets (Some table_sizes) ! h) [0..<16]"
    by (simp add: row_of_flat)
  have len: "length table_sizes = 16" and pos: "s \<in> set table_sizes \<Longrightarrow> 0 < s" for s
    by (auto simp: table_sizes_def table_gaps_def)
  have mod: "0 \<le> x mod table_sizes ! h" "x mod table_sizes ! h < table_sizes ! h" if "h < 16" for x h
    using pos [OF nth_mem, of h] that len by simp_all
  have bound: "0 \<le> x mod table_sizes ! h + head_offsets (Some table_sizes) ! h
      \<and> x mod table_sizes ! h + head_offsets (Some table_sizes) ! h < 320001446" if "h < 16" for x h
    using head_range_in_table [where sizes = table_sizes and i = h and r = "x mod table_sizes ! h"] pos mod [OF that] len sum_table_sizes that by simp
  show "list_all (\<lambda>r. 0 \<le> r \<and> r < 2 ^ 64) row"
    unfolding list_all_iff
  proof
    fix r assume "r \<in> set row"
    then obtain h where "h < 16" "r = gram_hash eos REAL_MULTIPLIERS hist i (h div 8 + 2) mod table_sizes ! h + head_offsets (Some table_sizes) ! h"
      by (auto simp: row)
    then show "0 \<le> r \<and> r < 2 ^ 64" using bound [of h "gram_hash eos REAL_MULTIPLIERS hist i (h div 8 + 2)"] by simp
  qed
  have "head_offsets (Some table_sizes) ! 15 = sum_list (take 15 table_sizes)" by (rule head_offsets_nth) (simp add: len)
  also have "\<dots> = 300001275" by (simp add: table_sizes_def table_gaps_def)
  finally have "300000000 \<le> row ! 15" using mod(1) [of 15] by (simp add: row)
  moreover have "row ! 15 \<in> set row" by (rule nth_mem) (simp add: row)
  ultimately show "\<exists>r \<in> set row. 300000000 \<le> r" by blast
qed

section \<open>Properties\<close>

text \<open>
  For every positive scale the generator succeeds, its specification reads back, a store opens on its output
  with as many rows as the specification says, and every row fetched is the row that was drawn.
\<close>

theorem mock_table_served:
  assumes "0 < scale" "\<And>g n. length (fst (draw g n)) = n"
    and "n = max 1 (128 div scale)" "rows = (2500011 + scale) div scale"
    and "list_all (\<lambda>r. 0 \<le> r \<and> r < rows * n) rs"
  shows "\<exists>fl' st. mock_table_gen draw default_rng scale out seed fl = (Inr (), fl')
    \<and> loads (utf8_decode (the (fl' (path_div out ''spec.json'')))) = Inr (mock_spec scale n rows)
    \<and> store_open (\<lambda>i. fl' (path_div out (shard_file i))) (nat n) (nat rows) 160 = Inr st
    \<and> int (total_rows st) = rows * n
    \<and> store_fetch st rs = Inr (concat (map (\<lambda>r. py_slice (nat r mod nat rows) 160
        (draws draw (nat rows * 160) (nat n) (default_rng seed) ! (nat r div nat rows))) rs))"
proof -
  define spec where "spec = utf8_text (dumps_indent False 0 (mock_spec scale n rows))"
  define fl0 where "fl0 = fl(path_div out ''spec.json'' \<mapsto> spec)"
  define ds where "ds = draws draw (nat rows * 160) (nat n) (default_rng seed)"
  have pos: "0 < n" "n \<le> 128" "0 < rows" "rows \<le> 2500012"
    using mock_sizes(3) [OF assms(1)] mock_sizes_bound [OF assms(1)] assms(3,4) by simp_all
  then have sz: "nat (rows * REAL_WIDTH) = nat rows * 160" by (simp add: REAL_WIDTH_def nat_mult_distrib)
  obtain fl1 where fl1: "mock_loop draw out rows [0..<nat n] (default_rng seed) fl0 = (Inr (), fl1)"
    using mock_loop_ends [of rows draw out "[0..<nat n]" "default_rng seed" fl0] pos(3) by auto
  have loop: "\<And>i. i < nat n \<Longrightarrow> fl1 (path_div out (shard_file i)) = Some (ds ! i)"
      "fl1 (path_div out ''spec.json'') = Some spec"
    using mock_loop_files [of rows draw out 0 "nat n" "default_rng seed" fl0 fl1] fl1 pos(3) other_file(1) [of out, THEN not_sym]
    by (auto simp: sz ds_def fl0_def image_iff)
  define fl' where "fl' = fl1(path_div out ''layout.json'' \<mapsto> utf8_text (dumps_indent True 0 (mock_layout n rows)))"
  have "mock_table_gen draw default_rng scale out seed fl = (Inr (), fl')"
    using fl1 by (simp add: mock_table_gen_def mock_sizes [OF assms(1)] assms(3,4) fl0_def spec_def fl'_def Let_def)
  moreover have "loads (utf8_decode (the (fl' (path_div out ''spec.json'')))) = Inr (mock_spec scale n rows)"
  proof -
    have "json_wf (mock_spec scale n rows)" "json_ascii (mock_spec scale n rows)"
      by (simp_all add: mock_spec_def REAL_MULTIPLIERS_def)
    from loads_indented [OF this(1) disjI2 [OF this(2)], of "[]" False 0] show ?thesis
      using loop(2) other_file(3) [of out] by (simp add: fl'_def spec_def)
  qed
  moreover have "\<exists>st. store_open (\<lambda>i. fl' (path_div out (shard_file i))) (nat n) (nat rows) 160 = Inr st
    \<and> total_rows st = nat n * nat rows
    \<and> (\<forall>rs. list_all (\<lambda>r. 0 \<le> r \<and> nat r < nat n * nat rows) rs
        \<longrightarrow> store_fetch st rs = Inr (concat (map (\<lambda>r. py_slice (nat r mod nat rows) 160 (ds ! (nat r div nat rows))) rs)))"
  proof -
    have "fl' (path_div out (shard_file i)) = Some (ds ! i)" if "i < nat n" for i
      using loop(1) [OF that] other_file(2) [of out i] by (simp add: fl'_def)
    moreover have "length (ds ! i) = nat rows * 160" if "i < nat n" for i
      using draws_length [of draw "nat rows * 160" "ds ! i" "nat n" "default_rng seed"] assms(2) that by (simp add: ds_def)
    moreover have "nat n * nat rows < 2 ^ 64"
    proof -
      have "nat n * nat rows \<le> 128 * 2500012" by (rule mult_mono) (use pos in auto)
      then show ?thesis by simp
    qed
    ultimately show ?thesis using whole_shards_served [of "nat n" "\<lambda>i. fl' (path_div out (shard_file i))" "(!) ds" "nat rows" 160] by blast
  qed
  moreover have "list_all (\<lambda>r. 0 \<le> r \<and> nat r < nat n * nat rows) rs"
    using assms(5) pos by (auto simp: list_all_iff nat_less_iff mult.commute nat_mult_distrib [symmetric] zless_nat_eq_int_zless)
  ultimately show ?thesis using pos by (auto simp: ds_def mult.commute)
qed

text \<open>Two shards of scale 64, drawn as zeros.\<close>

theorem mock_table_served_witness:
  "\<exists>fl' st. mock_table_gen (\<lambda>g n. (replicate n 0, g)) (\<lambda>seed. ()) 64 ''m'' 42 (\<lambda>p. None) = (Inr (), fl')
    \<and> loads (utf8_decode (the (fl' (path_div ''m'' ''spec.json'')))) = Inr (mock_spec 64 2 39063)
    \<and> store_open (\<lambda>i. fl' (path_div ''m'' (shard_file i))) (nat 2) (nat 39063) 160 = Inr st"
  using mock_table_served [of 64 "\<lambda>g n. (replicate n 0, g)" 2 39063 "[78125]" "\<lambda>seed. ()" "''m''" 42 "\<lambda>p. None"] by auto

text \<open>
  A scaled table cannot answer the addresses of its own specification: for every scale above one, the row ids of any
  token, computed with the base, the heads and the multipliers the specification names, make the fetch panic.
\<close>

theorem mock_ids_out_of_range:
  assumes "1 < scale" "n = max 1 (128 div scale)" "rows = (2500011 + scale) div scale"
    and "store_open dir (nat n) (nat rows) 160 = Inr st"
    and "ple_rowids tokens REAL_MULTIPLIERS eos (Some (head_vocab_sizes PLE_BASE PLE_HEADS))
        (Some (head_offsets (Some (head_vocab_sizes PLE_BASE PLE_HEADS)))) 3 8 history = Inr ids"
    and "row \<in> set ids"
  shows "int (total_rows st) = rows * n \<and> store_fetch st row = Inl PanicException"
proof -
  have pos: "0 < n" "0 < rows" using mock_sizes(3) [of scale] mock_sizes_bound(1) [of scale] assms(1-3) by simp_all
  have "128 div scale \<le> 128 div 2" "2500011 div scale \<le> 2500011 div (2 :: int)"
    by (rule zdiv_mono2; use assms(1) in simp)+
  then have "n \<le> 64" "rows \<le> 1250006" using assms(1-3) by simp_all
  then have small: "rows * n \<le> 1250006 * 64" using pos by (intro mult_mono) auto
  have st: "ns_rows_per_shard st = nat rows" "length (ns_files st) = nat n"
    using assms(4) by (auto simp: store_open_def res_iff dest: list_all2_lengthD)
  note ids = default_row_ids [OF assms(5) [unfolded head_vocab_sizes_default] assms(6)]
  then obtain r where r: "r \<in> set row" "300000000 \<le> r" by blast
  have "rmapM to_u64 row = Inr (map nat row)" by (rule rmapM_Inr) (use ids(1) in \<open>auto simp: to_u64_def list_all_iff\<close>)
  moreover have "gather_pp st (map nat row) = Inl PanicException"
  proof (rule gather_past_end)
    show "ns_rows_per_shard st \<noteq> 0" using st pos by simp
    show "nat r \<in> set (map nat row)" using r(1) by simp
    have "nat n * nat rows = nat (rows * n)" using pos by (simp add: nat_mult_distrib mult.commute)
    also have "\<dots> \<le> nat r" using small r(2) by simp
    finally show "length (ns_files st) \<le> nat r div ns_rows_per_shard st"
      using st pos by (simp add: less_eq_div_iff_mult_less_eq)
  qed
  moreover have "row \<noteq> []" using r(1) by auto
  moreover have "int (total_rows st) = rows * n" using st pos by (simp add: total_rows_def mult.commute)
  ultimately show ?thesis by (simp add: store_fetch_def)
qed

theorem mock_ids_out_of_range_witness:
  "\<exists>ids st. ple_rowids [7] REAL_MULTIPLIERS 0 (Some (head_vocab_sizes PLE_BASE PLE_HEADS))
        (Some (head_offsets (Some (head_vocab_sizes PLE_BASE PLE_HEADS)))) 3 8 None = Inr ids
    \<and> store_open (\<lambda>i. Some []) (nat 8) (nat 156251) 160 = Inr st \<and> store_fetch st (ids ! 0) = Inl PanicException"
proof -
  obtain st where st: "store_open (\<lambda>i. Some []) (nat 8) (nat 156251) 160 = Inr st"
    by (simp add: store_open_def rmapM_Inr [of _ _ "\<lambda>i. []"])
  obtain ids where ids: "ple_rowids [7] REAL_MULTIPLIERS 0 (Some (head_vocab_sizes PLE_BASE PLE_HEADS))
      (Some (head_offsets (Some (head_vocab_sizes PLE_BASE PLE_HEADS)))) 3 8 None = Inr ids" "ids ! 0 \<in> set ids"
    by (simp add: head_vocab_sizes_default ple_rowids_closed [OF default_params_ok])
  from mock_ids_out_of_range [OF _ _ _ st ids, of 16] ids(1) st show ?thesis by auto
qed

end
