(* ===== verification/SpecExtract.thy ===== *)
theory SpecExtract
  imports Discovery JsonIndent "HOL-Library.List_Lexorder"
begin

text \<open>
  \<open>scripts/extract_ple_spec.py\<close>: the specification of a checkpoint's table.  The script finds a tensor by adding up
  the sizes of those before it in the header, where the package reads \<open>data_offsets\<close>.  The lemmas show when the two agree,
  and that an element type the size table does not list makes the script read other bytes.
\<close>

section \<open>Sizes\<close>

definition dtype_sizes :: "(string \<times> int) list" where
  "dtype_sizes = [(''BF16'', 2), (''F8_E4M3'', 1), (''I64'', 8), (''I32'', 4), (''F32'', 4)]"

definition dtype_size :: "json \<Rightarrow> int res" where
  "dtype_size v =
     (case v of
        JStr s \<Rightarrow> Inr (case map_of dtype_sizes s of None \<Rightarrow> 4 | Some n \<Rightarrow> n)
      | JList xs \<Rightarrow> Inl TypeError
      | JObj ps \<Rightarrow> Inl TypeError
      | _ \<Rightarrow> Inr 4)"

text \<open>The number of elements and of bytes; a dimension that is no integer is rejected.\<close>

definition tensor_sizes :: "json \<Rightarrow> string \<Rightarrow> (int \<times> int) res" where
  "tensor_sizes header k =
     rbind (json_item header k) (\<lambda>entry. rbind (json_item entry ''shape'') (\<lambda>shape. rbind (json_iter shape) (\<lambda>ds.
     rbind (rmapM as_index ds) (\<lambda>ds. rbind (json_item entry ''dtype'') (\<lambda>dtype. rbind (dtype_size dtype) (\<lambda>b.
       Inr (prod_list ds, b * prod_list ds)))))))"

definition header_order :: "json \<Rightarrow> string list res" where
  "header_order header = rmap (filter (\<lambda>k. \<not> starts ''__'' k)) (weight_keys header)"

section \<open>\<open>read_tensor\<close>\<close>

fun tensor_pos :: "json \<Rightarrow> string \<Rightarrow> string list \<Rightarrow> int \<Rightarrow> int res" where
  "tensor_pos header name [] pos = Inr pos"
| "tensor_pos header name (k # ks) pos =
     rbind (tensor_sizes header k) (\<lambda>(sz, nbytes).
       if k = name then Inr pos else tensor_pos header name ks (pos + nbytes))"

definition script_read_tensor :: "files \<Rightarrow> string \<Rightarrow> string \<Rightarrow> (json \<times> int) res" where
  "script_read_tensor fl path name =
     rbind (open_file fl path) (\<lambda>f. rbind (read_header f) (\<lambda>(n, header). rbind (header_order header) (\<lambda>order.
     rmap (\<lambda>pos. (header, pos)) (tensor_pos header name order (int n + 8)))))"

section \<open>The scan of \<open>main\<close>\<close>

text \<open>\<open>np.fromfile(f, dtype=int64, count, offset)\<close>: complete items only, all of them for a negative count.\<close>

definition np_fromfile_i64 :: "bytes \<Rightarrow> int \<Rightarrow> int \<Rightarrow> int list res" where
  "np_fromfile_i64 f count offset =
     (if offset < 0 then Inl OSError
      else let bs = drop (nat offset) f; bs = (if count < 0 then bs else take (8 * nat count) bs)
        in Inr (map from_le_signed (filter (\<lambda>c. length c = 8) (chunks 8 bs))))"

record scan =
  sc_multipliers :: "int list option"
  sc_shape :: "json option"
  sc_dtype :: "json option"

definition MULTIPLIERS_MARK :: string where "MULTIPLIERS_MARK = ''layer_multipliers''"
definition SHARD0_MARK :: string where "SHARD0_MARK = ''ngram_embedding.shard_0.weight''"

definition scan_shard0 :: "json \<Rightarrow> string \<Rightarrow> scan \<Rightarrow> scan res" where
  "scan_shard0 header k s =
     (if is_infix SHARD0_MARK k
      then rbind (json_item header k) (\<lambda>entry. rbind (json_item entry ''shape'') (\<lambda>shape.
        rbind (json_item entry ''dtype'') (\<lambda>dtype. Inr (s\<lparr>sc_shape := Some shape, sc_dtype := Some dtype\<rparr>))))
      else Inr s)"

fun scan_tensors :: "bytes \<Rightarrow> json \<Rightarrow> string list \<Rightarrow> int \<Rightarrow> scan \<Rightarrow> scan res" where
  "scan_tensors f header [] pos s = Inr s"
| "scan_tensors f header (k # ks) pos s =
     rbind (tensor_sizes header k) (\<lambda>(sz, nbytes).
     rbind (if is_infix MULTIPLIERS_MARK k then rmap (\<lambda>xs. s\<lparr>sc_multipliers := Some xs\<rparr>) (np_fromfile_i64 f sz pos) else Inr s) (\<lambda>s.
     rbind (scan_shard0 header k s) (scan_tensors f header ks (pos + nbytes))))"

section \<open>The specification\<close>

text \<open>\<open>sorted({f for t, f in weight_map.items() if mark in t})\<close>; a file name that is no string is rejected.\<close>

definition files_with :: "string \<Rightarrow> json \<Rightarrow> string list res" where
  "files_with mark wm =
     (case wm of
        JObj ps \<Rightarrow> rmap (\<lambda>fs. sort (remdups fs)) (rmapM (\<lambda>p. as_name (snd p)) (filter (\<lambda>p. is_infix mark (fst p)) ps))
      | _ \<Rightarrow> Inl AttributeError)"

definition get_null :: "json \<Rightarrow> string \<Rightarrow> json res" where
  "get_null d k = rmap (\<lambda>v. case v of None \<Rightarrow> JNull | Some v \<Rightarrow> v) (json_get d k)"

definition shape_dim :: "json option \<Rightarrow> nat \<Rightarrow> json res" where
  "shape_dim shape i =
     (case shape of
        Some (JList ds) \<Rightarrow> (if ds = [] then Inr JNull else if i < length ds then Inr (ds ! i) else Inl IndexError)
      | Some v \<Rightarrow> (if truthy v then Inl TypeError else Inr JNull)
      | None \<Rightarrow> Inr JNull)"

definition PROJECTIONS :: "string list" where
  "PROJECTIONS = [''key_proj.weight'', ''norm_key.weight'', ''norm_query.weight'', ''norm_conv.weight'',
     ''ple_embedding.ngram_embedding.weight_scale'']"

definition projection_shapes :: "json \<Rightarrow> (string \<times> json) list res" where
  "projection_shapes header =
     rmap concat (rmapM (\<lambda>k. let t = ''model.language_model.layers.1.ple.'' @ k
       in rbind (json_in t header) (\<lambda>present.
         if \<not> present then Inr []
         else rbind (json_item header t) (\<lambda>entry. rbind (json_item entry ''dtype'') (\<lambda>dtype. rbind (json_item entry ''shape'') (\<lambda>shape.
           Inr [(k, JObj [(''dtype'', dtype), (''shape'', shape)])]))))) PROJECTIONS)"

definition CONFIG_FIELDS :: "string list" where
  "CONFIG_FIELDS = [''ngram_size'', ''ngram_vocab_size_base'', ''heads_per_ngram'', ''ple_embed_dim'', ''ple_layer_ids'',
     ''split_ngram_parts'', ''make_ngram_vocab_size_divisible_by'', ''ple_conv_kernel_size'', ''hidden_size'', ''hc_count'', ''vocab_size'']"

definition json_mult :: "json \<Rightarrow> nat \<Rightarrow> json res" where
  "json_mult v n = rmap (\<lambda>i. JInt (i * int n)) (if v = JNull then Inr 0 else as_index v)"

definition build_spec :: "json \<Rightarrow> json \<Rightarrow> string list \<Rightarrow> string list \<Rightarrow> json \<Rightarrow> scan \<Rightarrow> json res" where
  "build_spec cfg wm ple_files ngram_files header s =
     rbind (get_null cfg ''model_type'') (\<lambda>arch. rbind (rmapM (\<lambda>k. rmap (\<lambda>v. (k, v)) (get_null cfg k)) CONFIG_FIELDS) (\<lambda>fields.
     rbind (shape_dim (sc_shape s) 0) (\<lambda>shard_rows. rbind (shape_dim (sc_shape s) 1) (\<lambda>shard_width.
     rbind (case sc_dtype s of None \<Rightarrow> Inl NameError | Some d \<Rightarrow> Inr d) (\<lambda>shard_dtype.
     rbind (json_mult shard_rows (length ngram_files)) (\<lambda>total. rbind (weight_keys wm) (\<lambda>keys. rbind (projection_shapes header) (\<lambda>projections.
       Inr (JObj ((''model'', JStr ''Qwen/Qwen3.8-Flash-Next-FP8'') # (''arch'', arch) # fields @
         [(''layer_multipliers_i64'', case sc_multipliers s of None \<Rightarrow> JNull | Some xs \<Rightarrow> JList (map JInt xs)),
          (''shard_rows'', shard_rows), (''shard_width'', shard_width), (''shard_dtype'', shard_dtype), (''total_rows'', total),
          (''nsides'', JObj [(''ple_tensors'', JInt (int (length (filter (is_infix ''ple.'') keys)))),
             (''ngram_shard_tensors'', JInt (int (length ngram_files))), (''ple_file_count'', JInt (int (length ple_files))),
             (''shard_files'', JList (map JStr ngram_files))]),
          (''projection_shape'', JObj projections)]))))))))))"

definition SPEC_FILE :: string where "SPEC_FILE = ''model-00005-of-00131.safetensors''"

definition extract_spec :: "files \<Rightarrow> string \<Rightarrow> json res" where
  "extract_spec fl d =
     rbind (rbind (load_json fl (config_path d)) (\<lambda>c. json_item c ''text_config'')) (\<lambda>cfg.
     rbind (rbind (load_json fl (index_path d)) (\<lambda>idx. json_item idx ''weight_map'')) (\<lambda>wm.
     rbind (files_with ''ple.'' wm) (\<lambda>ple_files. rbind (files_with ''ngram_embedding'' wm) (\<lambda>ngram_files.
     rbind (open_file fl (path_div d SPEC_FILE)) (\<lambda>f. rbind (read_header f) (\<lambda>(n, header).
     rbind (header_order header) (\<lambda>order.
     rbind (scan_tensors f header order (int n + 8) \<lparr>sc_multipliers = None, sc_shape = None, sc_dtype = None\<rparr>)
       (build_spec cfg wm ple_files ngram_files header))))))))"

text \<open>The text printed, or written to a file.\<close>

definition spec_text :: "json \<Rightarrow> string" where
  "spec_text spec = dumps_indent False 0 spec"

definition extract_ple_spec :: "files \<Rightarrow> string \<Rightarrow> string option \<Rightarrow> string res \<times> files" where
  "extract_ple_spec fl d out =
     (case extract_spec fl d of
        Inl e \<Rightarrow> (Inl e, fl)
      | Inr spec \<Rightarrow> (case out of
          None \<Rightarrow> (Inr (spec_text spec), fl)
        | Some p \<Rightarrow> (Inr [], fl(py_path p \<mapsto> utf8_text (spec_text spec @ [CHR 0x0A])))))"

section \<open>Contiguous headers\<close>

text \<open>The tensors lie one after the other in header order, with the sizes the script computes.\<close>

fun laid_out :: "json \<Rightarrow> string list \<Rightarrow> int \<Rightarrow> bool" where
  "laid_out header [] pos = True"
| "laid_out header (k # ks) pos =
     (case tensor_sizes header k of
        Inl e \<Rightarrow> False
      | Inr (sz, nbytes) \<Rightarrow> 0 \<le> sz
          \<and> rbind (json_item header k) data_offsets = Inr (JInt pos, JInt (pos + nbytes)) \<and> laid_out header ks (pos + nbytes))"

lemma dtype_size_pos: "dtype_size v = Inr b \<Longrightarrow> 0 < b"
  by (auto simp: dtype_size_def dtype_sizes_def split: json.splits option.splits if_splits)

lemma tensor_sizes_pos: "tensor_sizes header k = Inr (sz, nbytes) \<Longrightarrow> 0 \<le> sz \<Longrightarrow> 0 \<le> nbytes"
  by (auto simp: tensor_sizes_def res_iff dest: dtype_size_pos)

lemma scan_shard0_multipliers: "scan_shard0 header k s = Inr s' \<Longrightarrow> sc_multipliers s' = sc_multipliers s"
  by (auto simp: scan_shard0_def res_iff split: if_splits)

text \<open>What the scan reads for the only tensor of multipliers.\<close>

lemma scan_reads:
  assumes "scan_tensors f header ks (base + pos) s = Inr s'" "laid_out header ks pos" "0 \<le> pos"
    and only: "\<And>k. k \<in> set ks \<Longrightarrow> is_infix MULTIPLIERS_MARK k \<longleftrightarrow> k = k0"
  shows "if k0 \<in> set ks
    then \<exists>start sz nbytes xs. 0 \<le> start \<and> 0 \<le> sz \<and> tensor_sizes header k0 = Inr (sz, nbytes)
      \<and> rbind (json_item header k0) data_offsets = Inr (JInt start, JInt (start + nbytes))
      \<and> np_fromfile_i64 f sz (base + start) = Inr xs \<and> sc_multipliers s' = Some xs
    else sc_multipliers s' = sc_multipliers s"
  using assms
proof (induction ks arbitrary: pos s)
  case (Cons k ks)
  obtain sz nbytes where sz: "tensor_sizes header k = Inr (sz, nbytes)" "0 \<le> sz"
      "rbind (json_item header k) data_offsets = Inr (JInt pos, JInt (pos + nbytes))" "laid_out header ks (pos + nbytes)"
    using Cons.prems(2) by (auto split: sum.splits)
  obtain s1 s2 where s: "(if is_infix MULTIPLIERS_MARK k
        then rmap (\<lambda>xs. s\<lparr>sc_multipliers := Some xs\<rparr>) (np_fromfile_i64 f sz (base + pos)) else Inr s) = Inr s1"
      "scan_shard0 header k s1 = Inr s2" "scan_tensors f header ks (base + (pos + nbytes)) s2 = Inr s'"
    using Cons.prems(1) by (auto simp: sz(1) res_iff add.assoc)
  have "0 \<le> pos + nbytes" using Cons.prems(3) tensor_sizes_pos [OF sz(1,2)] by simp
  note ih = Cons.IH [OF s(3) sz(4) this Cons.prems(4)]
  show ?case
  proof (cases "k0 \<in> set ks")
    case True
    then show ?thesis using ih by simp
  next
    case False
    then have m: "sc_multipliers s' = sc_multipliers s1" using ih scan_shard0_multipliers [OF s(2)] by simp
    show ?thesis
    proof (cases "k = k0")
      case True
      then have "is_infix MULTIPLIERS_MARK k" using Cons.prems(4) [of k] by simp
      then obtain xs where "np_fromfile_i64 f sz (base + pos) = Inr xs" "sc_multipliers s1 = Some xs"
        using s(1) by (auto simp: res_iff)
      then show ?thesis using True sz Cons.prems(3) m by auto
    next
      case neq: False
      then have "s1 = s" using s(1) Cons.prems(4) [of k] by simp
      then show ?thesis using neq False m by simp
    qed
  qed
qed simp

lemma chunks_lengths: "length xs = n * w \<Longrightarrow> 0 < w \<Longrightarrow> \<forall>b \<in> set (chunks w xs). length b = w"
proof (induction n arbitrary: xs)
  case (Suc n)
  then have "chunks w xs = take w xs # chunks w (drop w xs)" by (subst chunks.simps) auto
  moreover have "length (drop w xs) = n * w" using Suc.prems by simp
  ultimately show ?case using Suc.IH [of "drop w xs"] Suc.prems by simp
qed simp

lemma np_fromfile_whole:
  assumes "0 \<le> off" "0 \<le> c" "int (length (take (8 * nat c) (drop (nat off) f))) = 8 * c"
  shows "np_fromfile_i64 f c off = Inr (map from_le_signed (chunks 8 (take (8 * nat c) (drop (nat off) f))))"
proof -
  let ?bs = "take (8 * nat c) (drop (nat off) f)"
  have "length ?bs = nat c * 8" using assms(2,3) by linarith
  then have "\<forall>b \<in> set (chunks 8 ?bs). length b = 8" by (intro chunks_lengths) simp_all
  then have "filter (\<lambda>b. length b = 8) (chunks 8 ?bs) = chunks 8 ?bs" by (rule filter_id_conv [THEN iffD2])
  then show ?thesis unfolding np_fromfile_i64_def Let_def using assms(1,2) by (simp only: not_less [symmetric] if_False)
qed

lemma as_index_py_int: "rmapM as_index ds = Inr xs \<Longrightarrow> rmapM py_int ds = Inr xs"
  by (induction ds arbitrary: xs) (auto simp: as_index_def py_int_def split: sum.splits json.splits)

text \<open>A tensor of 64-bit integers whose offsets have the length of its elements.\<close>

lemma read_i64_fromfile:
  assumes "fl path = Some f" "read_header f = Inr (n, header)" "read_i64 fl path k = Inr xs"
    and "tensor_sizes header k = Inr (sz, nbytes)" "0 \<le> sz" "0 \<le> start"
    and "rbind (json_item header k) data_offsets = Inr (JInt start, JInt (start + nbytes))"
    and "rbind (json_item header k) (\<lambda>e. json_item e ''dtype'') = Inr (JStr ''I64'')"
  shows "np_fromfile_i64 f sz (int n + 8 + start) = Inr xs"
proof -
  obtain entry shape ds dims where e: "json_item header k = Inr entry" "json_item entry ''shape'' = Inr shape" "json_iter shape = Inr ds"
      "rmapM as_index ds = Inr dims" "json_item entry ''dtype'' = Inr (JStr ''I64'')" "sz = prod_list dims" "nbytes = 8 * sz"
    using assms(4,8) by (auto simp: tensor_sizes_def res_iff dtype_size_def dtype_sizes_def)
  have gets: "json_get header k = Inr (Some entry)" "json_get entry ''shape'' = Inr (Some shape)" "json_get entry ''dtype'' = Inr (Some (JStr ''I64''))"
    using e(1,2,5) by (auto simp: json_item_def json_get_def split: json.splits option.splits)
  have "entry \<noteq> JNull" using e(2) by (auto simp: json_item_def)
  moreover have offs: "data_offsets entry = Inr (JInt start, JInt (start + nbytes))" using assms(7) e(1) by simp
  moreover have "shape_count shape = Inr sz" using e(3,4,6) as_index_py_int by (simp add: shape_count_def)
  moreover have "nbytes \<noteq> -1" "\<not> nbytes < -1" "0 \<le> 8 + int n + start" using e(7) assms(5,6) by simp_all
  ultimately have "unpack_ints 8 sz (take (nat nbytes) (drop (nat (8 + int n + start)) f)) = Inr xs"
    using assms(3) by (simp add: read_i64_def open_file_def assms(1,2) header_entry_def gets tensor_bytes_def as_index_def read_at_def guard_or_def Let_def)
  moreover have "nat nbytes = 8 * nat sz" using e(7) assms(5) by (simp add: nat_mult_distrib)
  ultimately have u: "unpack_ints 8 sz (take (8 * nat sz) (drop (nat (int n + 8 + start)) f)) = Inr xs" by (simp add: add.commute)
  then have "int (length (take (8 * nat sz) (drop (nat (int n + 8 + start)) f))) = 8 * sz"
    by (auto simp: unpack_ints_def split: if_splits)
  from np_fromfile_whole [OF _ assms(5) this] u assms(6) show ?thesis by (auto simp: unpack_ints_def split: if_splits)
qed

section \<open>Properties\<close>

text \<open>
  When the header lists the tensors as they lie in the file, without gaps and with element types of the size table, the
  script's specification holds the multipliers that discovery reads through \<open>data_offsets\<close>.
\<close>

theorem spec_multipliers_agree:
  assumes "extract_spec fl d = Inr spec" "fl (path_div d SPEC_FILE) = Some f" "read_header f = Inr (n, header)"
    and "header_order header = Inr order" "laid_out header order 0" "k0 \<in> set order"
    and "\<And>k. k \<in> set order \<Longrightarrow> is_infix MULTIPLIERS_MARK k \<longleftrightarrow> k = k0"
    and "rbind (json_item header k0) (\<lambda>e. json_item e ''dtype'') = Inr (JStr ''I64'')"
    and "read_i64 fl (path_div d SPEC_FILE) k0 = Inr xs"
  shows "json_get spec ''layer_multipliers_i64'' = Inr (Some (JList (map JInt xs)))"
proof -
  let ?s0 = "\<lparr>sc_multipliers = None, sc_shape = None, sc_dtype = None\<rparr>"
  obtain cfg wm ple_files ngram_files s where s: "scan_tensors f header order (int n + 8) ?s0 = Inr s"
      "build_spec cfg wm ple_files ngram_files header s = Inr spec"
    using assms(1) by (auto simp: extract_spec_def open_file_def assms(2,3,4) res_iff)
  have "scan_tensors f header order (int n + 8 + 0) ?s0 = Inr s" using s(1) by simp
  from scan_reads [OF this assms(5) order_refl assms(7)] assms(6)
  obtain start sz nbytes ys where r: "0 \<le> start" "0 \<le> sz" "tensor_sizes header k0 = Inr (sz, nbytes)"
      "rbind (json_item header k0) data_offsets = Inr (JInt start, JInt (start + nbytes))"
      "np_fromfile_i64 f sz (int n + 8 + start) = Inr ys" "sc_multipliers s = Some ys" by auto
  have "ys = xs" using read_i64_fromfile [OF assms(2,3,9) r(3,2,1,4) assms(8)] r(5) by simp
  obtain fields where fields: "rmapM (\<lambda>k. rmap (\<lambda>v. (k, v)) (get_null cfg k)) CONFIG_FIELDS = Inr fields"
      "\<exists>arch tail. spec = JObj ((''model'', JStr ''Qwen/Qwen3.8-Flash-Next-FP8'') # (''arch'', arch) # fields
        @ (''layer_multipliers_i64'', JList (map JInt ys)) # tail)"
    using s(2) r(6) by (auto simp: build_spec_def res_iff)
  have "fst ` set fields = set CONFIG_FIELDS"
    using fields(1) by (auto simp: rmapM_Inr_iff list_all2_conv_all_nth res_iff in_set_conv_nth image_iff) (metis fst_conv nth_mem)+
  then have "dict_get fields ''layer_multipliers_i64'' = None"
    by (simp add: dict_get_None_iff CONFIG_FIELDS_def)
  then show ?thesis using fields(2) \<open>ys = xs\<close> by (auto simp: dict_get_Cons dict_get_def map_add_def)
qed

text \<open>Two checkpoints: multipliers first, and multipliers behind two half-precision numbers.  Both have two shards in one file.\<close>

definition tensor_entry :: "string \<Rightarrow> int list \<Rightarrow> int \<Rightarrow> int \<Rightarrow> json" where
  "tensor_entry dtype shape s t =
     JObj [(''dtype'', JStr dtype), (''shape'', JList (map JInt shape)), (''data_offsets'', JList [JInt s, JInt t])]"

definition MULT_KEY :: string where "MULT_KEY = ''ple.layer_multipliers''"
definition SHARD0_KEY :: string where "SHARD0_KEY = ''ple.ngram_embedding.shard_0.weight''"
definition SHARD1_KEY :: string where "SHARD1_KEY = ''ple.ngram_embedding.shard_1.weight''"

lemmas demo_keys = MULT_KEY_def SHARD0_KEY_def SHARD1_KEY_def

definition plain_header :: json where
  "plain_header = JObj [(MULT_KEY, tensor_entry ''I64'' [1] 0 8), (SHARD0_KEY, tensor_entry ''F8_E4M3'' [2, 2] 8 12),
     (SHARD1_KEY, tensor_entry ''F8_E4M3'' [2, 2] 12 16)]"

definition plain_data :: bytes where "plain_data = [5, 0, 0, 0, 0, 0, 0, 0, 1, 2, 3, 4, 5, 6, 7, 8]"

definition half_header :: json where
  "half_header = JObj [(''scale'', tensor_entry ''F16'' [2] 0 4), (MULT_KEY, tensor_entry ''I64'' [1] 4 12),
     (SHARD0_KEY, tensor_entry ''F8_E4M3'' [2, 2] 12 16), (SHARD1_KEY, tensor_entry ''F8_E4M3'' [2, 2] 16 20)]"

definition half_data :: bytes where "half_data = [0, 0, 0, 0] @ plain_data"

definition demo_map :: json where
  "demo_map = JObj (map (\<lambda>k. (k, JStr SPEC_FILE)) [MULT_KEY, SHARD0_KEY, SHARD1_KEY])"

definition spec_files :: "json \<Rightarrow> bytes \<Rightarrow> files" where
  "spec_files header data =
     [config_path ''d'' \<mapsto> utf8_encode (dumps (JObj [(''text_config'', JObj [])])),
      index_path ''d'' \<mapsto> utf8_encode (dumps (JObj [(''weight_map'', demo_map)])),
      path_div ''d'' SPEC_FILE \<mapsto> safetensors header data]"

lemma spec_files_paths:
  "spec_files header data (config_path ''d'') = Some (utf8_encode (dumps (JObj [(''text_config'', JObj [])])))"
  "spec_files header data (index_path ''d'') = Some (utf8_encode (dumps (JObj [(''weight_map'', demo_map)])))"
  "spec_files header data (path_div ''d'' SPEC_FILE) = Some (safetensors header data)"
proof -
  have "config_path ''d'' = ''d/config.json''" "index_path ''d'' = ''d/model.safetensors.index.json''"
      "path_div ''d'' SPEC_FILE = ''d/model-00005-of-00131.safetensors''" by code_simp+
  then show "spec_files header data (config_path ''d'') = Some (utf8_encode (dumps (JObj [(''text_config'', JObj [])])))"
    "spec_files header data (index_path ''d'') = Some (utf8_encode (dumps (JObj [(''weight_map'', demo_map)])))"
    "spec_files header data (path_div ''d'' SPEC_FILE) = Some (safetensors header data)"
    by (simp_all add: spec_files_def del: dumps.simps)
qed

lemma demo_map_wf: "json_wf (JObj [(''weight_map'', demo_map)])" "json_wf (JObj [(''text_config'', JObj [])])"
  by (simp_all add: demo_map_def demo_keys)

lemma extract_spec_demo:
  assumes "json_wf header" "length (dumps header) < 2 ^ 63" "header_order header = Inr order"
  shows "extract_spec (spec_files header data) ''d'' =
    rbind (scan_tensors (safetensors header data) header order (int (length (dumps header)) + 8) \<lparr>sc_multipliers = None, sc_shape = None, sc_dtype = None\<rparr>)
      (build_spec (JObj []) demo_map [SPEC_FILE] [SPEC_FILE] header)"
proof -
  have "files_with ''ple.'' demo_map = Inr [SPEC_FILE]" "files_with ''ngram_embedding'' demo_map = Inr [SPEC_FILE]" by code_simp+
  then show ?thesis
    by (simp add: extract_spec_def load_json_def open_file_def spec_files_paths loads_wire [OF demo_map_wf(1)] loads_wire [OF demo_map_wf(2)]
        json_item_obj dict_get_def read_header_written [OF assms(1,2)] assms(3) del: dumps.simps)
qed

lemma demo_headers:
  "json_wf plain_header" "header_order plain_header = Inr [MULT_KEY, SHARD0_KEY, SHARD1_KEY]" "laid_out plain_header [MULT_KEY, SHARD0_KEY, SHARD1_KEY] 0"
  "json_wf half_header" "header_order half_header = Inr [''scale'', MULT_KEY, SHARD0_KEY, SHARD1_KEY]"
  by code_simp+

lemma demo_header_lengths: "length (dumps plain_header) < 2 ^ 63" "length (dumps half_header) < 2 ^ 63"
proof -
  have "length (dumps plain_header) < 400" "length (dumps half_header) < 400" by code_simp+
  then show "length (dumps plain_header) < 2 ^ 63" "length (dumps half_header) < 2 ^ 63" by simp_all
qed

lemma scan_data:
  assumes "\<And>k sz nbytes. k \<in> set order \<Longrightarrow> tensor_sizes header k = Inr (sz, nbytes) \<Longrightarrow> 0 \<le> nbytes" "0 \<le> pos"
  shows "scan_tensors (safetensors header data) header order (int (length (dumps header)) + 8 + pos) s = scan_tensors data header order pos s"
  using assms
proof (induction order arbitrary: pos s)
  case (Cons k order)
  have "drop (nat (int (length (dumps header)) + 8 + pos)) (safetensors header data) = drop (nat pos) data"
    using Cons.prems(2) by (simp add: safetensors_def Let_def nat_add_distrib add.commute)
  then have read: "np_fromfile_i64 (safetensors header data) c (int (length (dumps header)) + 8 + pos) = np_fromfile_i64 data c pos" for c
    using Cons.prems(2) by (simp add: np_fromfile_i64_def Let_def)
  show ?case
  proof (cases "tensor_sizes header k")
    case (Inr p)
    obtain sz nbytes where p: "p = (sz, nbytes)" by (cases p)
    have pos: "0 \<le> pos + nbytes" using Cons.prems(1) [of k sz nbytes] Inr p Cons.prems(2) by simp
    have "scan_tensors (safetensors header data) header order (int (length (dumps header)) + 8 + (pos + nbytes)) s'
        = scan_tensors data header order (pos + nbytes) s'" for s'
      by (rule Cons.IH [OF _ pos]) (use Cons.prems(1) in auto)
    then have "scan_tensors (safetensors header data) header order (int (length (dumps header)) + 8 + pos + nbytes)
        = scan_tensors data header order (pos + nbytes)" by (intro ext) (simp only: add.assoc)
    then show ?thesis by (simp add: Inr p read)
  qed simp
qed simp

lemma demo_infix: "is_infix MULTIPLIERS_MARK MULT_KEY" "\<not> is_infix MULTIPLIERS_MARK SHARD0_KEY" "\<not> is_infix MULTIPLIERS_MARK SHARD1_KEY"
    "\<not> is_infix MULTIPLIERS_MARK ''scale''"
    "\<not> is_infix SHARD0_MARK MULT_KEY" "is_infix SHARD0_MARK SHARD0_KEY" "\<not> is_infix SHARD0_MARK SHARD1_KEY" "\<not> is_infix SHARD0_MARK ''scale''"
  by code_simp+

lemma demo_sizes:
  "tensor_sizes plain_header MULT_KEY = Inr (1, 8)" "tensor_sizes plain_header SHARD0_KEY = Inr (4, 4)" "tensor_sizes plain_header SHARD1_KEY = Inr (4, 4)"
  "tensor_sizes half_header ''scale'' = Inr (2, 8)" "tensor_sizes half_header MULT_KEY = Inr (1, 8)"
  "tensor_sizes half_header SHARD0_KEY = Inr (4, 4)" "tensor_sizes half_header SHARD1_KEY = Inr (4, 4)"
  by code_simp+

lemma demo_reads: "np_fromfile_i64 plain_data 1 0 = Inr [5]" "np_fromfile_i64 half_data 1 8 = Inr [289077004400066560]"
proof -
  have one: "chunks 8 bs = [bs]" if "length bs = 8" for bs :: bytes using chunks_append [of bs 8 "[]"] that by simp
  show "np_fromfile_i64 plain_data 1 0 = Inr [5]" "np_fromfile_i64 half_data 1 8 = Inr [289077004400066560]"
    by (simp_all add: np_fromfile_i64_def plain_data_def half_data_def Let_def one from_le_signed_def)
qed

lemma demo_entries: "json_item plain_header SHARD0_KEY = Inr (tensor_entry ''F8_E4M3'' [2, 2] 8 12)"
    "json_item half_header SHARD0_KEY = Inr (tensor_entry ''F8_E4M3'' [2, 2] 12 16)"
  by code_simp+

lemma demo_scans:
  "scan_tensors plain_data plain_header [MULT_KEY, SHARD0_KEY, SHARD1_KEY] 0 \<lparr>sc_multipliers = None, sc_shape = None, sc_dtype = None\<rparr>
     = Inr \<lparr>sc_multipliers = Some [5], sc_shape = Some (JList [JInt 2, JInt 2]), sc_dtype = Some (JStr ''F8_E4M3'')\<rparr>"
  "scan_tensors half_data half_header [''scale'', MULT_KEY, SHARD0_KEY, SHARD1_KEY] 0 \<lparr>sc_multipliers = None, sc_shape = None, sc_dtype = None\<rparr>
     = Inr \<lparr>sc_multipliers = Some [289077004400066560], sc_shape = Some (JList [JInt 2, JInt 2]), sc_dtype = Some (JStr ''F8_E4M3'')\<rparr>"
  by (simp_all add: demo_infix demo_sizes demo_reads demo_entries scan_shard0_def)
    (simp_all add: demo_infix demo_sizes scan_shard0_def tensor_entry_def json_item_obj dict_get_def)

definition demo_scan :: "int \<Rightarrow> scan" where
  "demo_scan m = \<lparr>sc_multipliers = Some [m], sc_shape = Some (JList [JInt 2, JInt 2]), sc_dtype = Some (JStr ''F8_E4M3'')\<rparr>"

lemma demo_extracts:
  "extract_spec (spec_files plain_header plain_data) ''d'' = build_spec (JObj []) demo_map [SPEC_FILE] [SPEC_FILE] plain_header (demo_scan 5)"
  "extract_spec (spec_files half_header half_data) ''d''
     = build_spec (JObj []) demo_map [SPEC_FILE] [SPEC_FILE] half_header (demo_scan 289077004400066560)"
proof -
  have pos: "k \<in> {MULT_KEY, SHARD0_KEY, SHARD1_KEY} \<Longrightarrow> tensor_sizes plain_header k = Inr (sz, nb) \<Longrightarrow> 0 \<le> nb"
      "k \<in> {''scale'', MULT_KEY, SHARD0_KEY, SHARD1_KEY} \<Longrightarrow> tensor_sizes half_header k = Inr (sz, nb) \<Longrightarrow> 0 \<le> nb" for k sz nb
    by (auto simp: demo_sizes)
  show "extract_spec (spec_files plain_header plain_data) ''d'' = build_spec (JObj []) demo_map [SPEC_FILE] [SPEC_FILE] plain_header (demo_scan 5)"
    using scan_data [of "[MULT_KEY, SHARD0_KEY, SHARD1_KEY]" plain_header 0 plain_data] pos(1)
    by (simp add: extract_spec_demo [OF demo_headers(1) demo_header_lengths(1) demo_headers(2)] demo_scans demo_scan_def
        del: scan_tensors.simps)
  show "extract_spec (spec_files half_header half_data) ''d''
     = build_spec (JObj []) demo_map [SPEC_FILE] [SPEC_FILE] half_header (demo_scan 289077004400066560)"
    using scan_data [of "[''scale'', MULT_KEY, SHARD0_KEY, SHARD1_KEY]" half_header 0 half_data] pos(2)
    by (simp add: extract_spec_demo [OF demo_headers(4) demo_header_lengths(2) demo_headers(5)] demo_scans demo_scan_def
        del: scan_tensors.simps)
qed

lemma demo_specs:
  "case build_spec (JObj []) demo_map [SPEC_FILE] [SPEC_FILE] plain_header (demo_scan 5) of Inl e \<Rightarrow> False
     | Inr spec \<Rightarrow> json_get spec ''layer_multipliers_i64'' = Inr (Some (JList [JInt 5]))"
  "case build_spec (JObj []) demo_map [SPEC_FILE] [SPEC_FILE] half_header (demo_scan 289077004400066560) of Inl e \<Rightarrow> False
     | Inr spec \<Rightarrow> json_get spec ''layer_multipliers_i64'' = Inr (Some (JList [JInt 289077004400066560]))
         \<and> json_get spec ''shard_rows'' = Inr (Some (JInt 2)) \<and> json_get spec ''total_rows'' = Inr (Some (JInt 2))"
  by code_simp+

lemma holds_i64I:
  assumes "json_wf h" "length (dumps h) < 2 ^ 63" "list_all fits_i64 xs" "take (8 * length xs) (drop s data) = i64_bytes xs"
    and "json_get h k = Inr (Some (tensor_entry ''I64'' [int (length xs)] (int s) (int (s + 8 * length xs))))"
  shows "holds_i64 (safetensors h data) k xs"
  unfolding holds_i64_def
  by (rule exI [of _ h], rule exI [of _ data],
      rule exI [of _ "[(''dtype'', JStr ''I64''), (''shape'', JList (map JInt [int (length xs)])),
        (''data_offsets'', JList [JInt (int s), JInt (int (s + 8 * length xs))])]"], rule exI [of _ s])
    (use assms in \<open>simp add: tensor_entry_def dict_get_def\<close>)

lemma demo_multipliers:
  "read_i64 (spec_files plain_header plain_data) (path_div ''d'' SPEC_FILE) MULT_KEY = Inr [5]"
  "read_i64 (spec_files half_header half_data) (path_div ''d'' SPEC_FILE) MULT_KEY = Inr [5]"
proof -
  have bytes: "i64_bytes [5] = [5, 0, 0, 0, 0, 0, 0, 0]" by code_simp
  have gets: "json_get plain_header MULT_KEY = Inr (Some (tensor_entry ''I64'' [1] 0 8))"
      "json_get half_header MULT_KEY = Inr (Some (tensor_entry ''I64'' [1] 4 12))" by code_simp+
  have "holds_i64 (safetensors plain_header plain_data) MULT_KEY [5]" using gets(1)
    by (intro holds_i64I [where s = 0, OF demo_headers(1) demo_header_lengths(1)]) (simp_all add: bytes fits_i64_def plain_data_def)
  moreover have "holds_i64 (safetensors half_header half_data) MULT_KEY [5]" using gets(2)
    by (intro holds_i64I [where s = 4, OF demo_headers(4) demo_header_lengths(2)])
      (simp_all add: bytes fits_i64_def plain_data_def half_data_def)
  ultimately show "read_i64 (spec_files plain_header plain_data) (path_div ''d'' SPEC_FILE) MULT_KEY = Inr [5]"
    "read_i64 (spec_files half_header half_data) (path_div ''d'' SPEC_FILE) MULT_KEY = Inr [5]"
    by - (rule read_i64_written, rule spec_files_paths(3), assumption)+
qed

theorem spec_multipliers_agree_witness:
  "\<exists>spec. extract_spec (spec_files plain_header plain_data) ''d'' = Inr spec
    \<and> json_get spec ''layer_multipliers_i64'' = Inr (Some (JList (map JInt [5])))"
proof -
  obtain spec where spec: "extract_spec (spec_files plain_header plain_data) ''d'' = Inr spec"
    using demo_specs(1) unfolding demo_extracts(1) by (cases "build_spec (JObj []) demo_map [SPEC_FILE] [SPEC_FILE] plain_header (demo_scan 5)") simp_all
  have only: "is_infix MULTIPLIERS_MARK k \<longleftrightarrow> k = MULT_KEY" if "k \<in> set [MULT_KEY, SHARD0_KEY, SHARD1_KEY]" for k
    using that demo_infix by auto
  have dtype: "rbind (json_item plain_header MULT_KEY) (\<lambda>e. json_item e ''dtype'') = Inr (JStr ''I64'')" by code_simp
  have mem: "MULT_KEY \<in> set [MULT_KEY, SHARD0_KEY, SHARD1_KEY]" by simp
  have "json_get spec ''layer_multipliers_i64'' = Inr (Some (JList (map JInt [5])))"
    by (rule spec_multipliers_agree [OF spec spec_files_paths(3) read_header_written [OF demo_headers(1) demo_header_lengths(1)]
          demo_headers(2,3) mem only dtype demo_multipliers(1)])
  with spec show ?thesis by blast
qed

text \<open>
  Two half-precision numbers ahead of the multipliers make the script read other bytes: discovery reads the multiplier 5 and
  the specification holds 289077004400066560.  The two shards of two rows, in one file, are counted as two rows in all.
\<close>

theorem spec_misreads_half:
  "\<exists>spec. extract_spec (spec_files half_header half_data) ''d'' = Inr spec
    \<and> read_i64 (spec_files half_header half_data) (path_div ''d'' SPEC_FILE) MULT_KEY = Inr [5]
    \<and> json_get spec ''layer_multipliers_i64'' = Inr (Some (JList [JInt 289077004400066560]))
    \<and> json_get spec ''shard_rows'' = Inr (Some (JInt 2)) \<and> json_get spec ''total_rows'' = Inr (Some (JInt 2))"
  using demo_specs(2) demo_multipliers(2) unfolding demo_extracts(2)
  by (cases "build_spec (JObj []) demo_map [SPEC_FILE] [SPEC_FILE] half_header (demo_scan 289077004400066560)") simp_all

end
