(* ===== verification/BcgOutput.thy ===== *)
theory BcgOutput
  imports PyDict
begin

text \<open>
  \<open>scripts/sglang_bcg_output_patch.py\<close> and the four buffer helpers of \<open>research/sgl_breakable_backend_main.py\<close> it wraps, with the
  part of \<open>capture_one\<close> that uses them.  A tensor is its trailing shape and its rows; what fresh memory holds is an argument.
  The lemmas show that the patched helpers carry any output of objects and tensors through the shared buffer, that they
  change nothing for the outputs the originals accept, and that an attribute that is a number is rejected.
  A copy that raises is not modelled further: the buffer may be written in part.
\<close>

section \<open>Outputs\<close>

text \<open>A tensor without dimensions, and one with rows of a trailing shape.\<close>

datatype 'r tensor = Scalar 'r | Rows "nat list" "'r list"

text \<open>\<open>OPlain\<close> is a value of any other type without attributes: a number, a string.\<close>

datatype 'r bcg_output =
    ONone
  | OTensor "'r tensor"
  | OProxy "(string \<times> 'r tensor) list"
  | OTuple "'r bcg_output list"
  | OList "'r bcg_output list"
  | OObj string "(string \<times> 'r bcg_output) list"
  | OPlain int

definition generic_object :: "'r bcg_output \<Rightarrow> bool" where
  "generic_object x = (case x of OObj c attrs \<Rightarrow> True | _ \<Rightarrow> False)"

section \<open>Tensors\<close>

definition new_empty :: "(nat \<Rightarrow> 'r) \<Rightarrow> 'r tensor \<Rightarrow> nat \<Rightarrow> 'r tensor" where
  "new_empty fresh t sz = Rows (case t of Scalar x \<Rightarrow> [] | Rows inner rs \<Rightarrow> inner) (map fresh [0..<sz])"

definition tensor_len :: "'r tensor \<Rightarrow> nat res" where
  "tensor_len t = (case t of Scalar x \<Rightarrow> Inl IndexError | Rows inner rs \<Rightarrow> Inr (length rs))"

definition slice_tensor :: "'r tensor \<Rightarrow> nat \<Rightarrow> 'r tensor res" where
  "slice_tensor t n = (case t of Scalar x \<Rightarrow> Inl IndexError | Rows inner rs \<Rightarrow> Inr (Rows inner (take n rs)))"

text \<open>\<open>buf[:n].copy_(out[:n])\<close>: one row is broadcast; broadcasting the trailing dimensions is not modelled.\<close>

definition copy_rows :: "'r tensor \<Rightarrow> 'r tensor \<Rightarrow> nat \<Rightarrow> 'r tensor res" where
  "copy_rows t buf n =
     (case (t, buf) of
        (Rows inner rs, Rows inner' bs) \<Rightarrow>
          (if inner \<noteq> inner' then Inl NotImplementedError
           else let src = take n rs; m = length (take n bs)
             in if length src = m then Inr (Rows inner' (src @ drop m bs))
                else if length src = 1 then Inr (Rows inner' (replicate m (hd src) @ drop m bs))
                else Inl RuntimeError)
      | _ \<Rightarrow> Inl IndexError)"

section \<open>The helpers\<close>

text \<open>The flag says whether the patch is installed; the helpers call one another through the class, so the wrapped ones at every depth.\<close>

fun alloc_full_buffer :: "(nat \<Rightarrow> 'r) \<Rightarrow> bool \<Rightarrow> 'r bcg_output \<Rightarrow> nat \<Rightarrow> 'r bcg_output res" where
  "alloc_full_buffer fresh patched ONone sz = Inr ONone"
| "alloc_full_buffer fresh patched (OTensor t) sz = Inr (OTensor (new_empty fresh t sz))"
| "alloc_full_buffer fresh patched (OProxy ts) sz = Inr (OProxy (map (\<lambda>(k, t). (k, new_empty fresh t sz)) ts))"
| "alloc_full_buffer fresh patched (OTuple xs) sz = rmap OTuple (rmapM (\<lambda>x. alloc_full_buffer fresh patched x sz) xs)"
| "alloc_full_buffer fresh patched (OList xs) sz = rmap OList (rmapM (\<lambda>x. alloc_full_buffer fresh patched x sz) xs)"
| "alloc_full_buffer fresh patched (OObj c attrs) sz =
     (if patched then rmap (OObj c) (rmapM (\<lambda>p. rmap (Pair (fst p)) (alloc_full_buffer fresh patched (snd p) sz)) attrs)
      else Inl TypeError)"
| "alloc_full_buffer fresh patched (OPlain v) sz = Inl TypeError"

fun slice_output :: "bool \<Rightarrow> 'r bcg_output \<Rightarrow> nat \<Rightarrow> 'r bcg_output res" where
  "slice_output patched ONone n = Inr ONone"
| "slice_output patched (OTensor t) n = rmap OTensor (slice_tensor t n)"
| "slice_output patched (OProxy ts) n = rmap OProxy (rmapM (\<lambda>(k, t). rmap (Pair k) (slice_tensor t n)) ts)"
| "slice_output patched (OTuple xs) n = rmap OTuple (rmapM (\<lambda>x. slice_output patched x n) xs)"
| "slice_output patched (OList xs) n = rmap OList (rmapM (\<lambda>x. slice_output patched x n) xs)"
| "slice_output patched (OObj c attrs) n =
     (if patched then rmap (OObj c) (rmapM (\<lambda>p. rmap (Pair (fst p)) (slice_output patched (snd p) n)) attrs)
      else Inl TypeError)"
| "slice_output patched (OPlain v) n = Inl TypeError"

text \<open>The minimum of the rows of the items that are not \<open>None\<close>; \<open>min\<close> of none is a \<open>ValueError\<close>.\<close>

definition min_rows :: "nat list \<Rightarrow> nat res" where
  "min_rows ns = (if ns = [] then Inl ValueError else Inr (Min (set ns)))"

fun output_rows :: "bool \<Rightarrow> 'r bcg_output \<Rightarrow> nat \<Rightarrow> nat res" where
  "output_rows patched (OTensor t) cap = rmap (min cap) (tensor_len t)"
| "output_rows patched (OProxy ts) cap = rbind (rmapM (\<lambda>p. tensor_len (snd p)) ts) (\<lambda>ns. min_rows (cap # ns))"
| "output_rows patched (OTuple xs) cap =
     (if xs = [] then Inr cap
      else rbind (rmapM (\<lambda>x. if x = ONone then Inr [] else rmap (\<lambda>n. [n]) (output_rows patched x cap)) xs) (\<lambda>ns. min_rows (concat ns)))"
| "output_rows patched (OList xs) cap =
     (if xs = [] then Inr cap
      else rbind (rmapM (\<lambda>x. if x = ONone then Inr [] else rmap (\<lambda>n. [n]) (output_rows patched x cap)) xs) (\<lambda>ns. min_rows (concat ns)))"
| "output_rows patched (OObj c attrs) cap =
     (if patched
      then rbind (rmapM (\<lambda>p. if snd p = ONone then Inr [] else rmap (\<lambda>n. [n]) (output_rows patched (snd p) cap)) attrs)
        (\<lambda>ns. min_rows (cap # concat ns))
      else Inr cap)"
| "output_rows patched x cap = Inr cap"

text \<open>
  The copy gives the buffer after it.  The keys of two dictionaries are compared as sets, and each value of the buffer
  is written in its place; a tuple and a list do not match.
\<close>

definition same_keys :: "(string \<times> 'a) list \<Rightarrow> (string \<times> 'b) list \<Rightarrow> bool" where
  "same_keys a b \<longleftrightarrow> fst ` set a = fst ` set b"

lemma size_zip_left: "(x, y) \<in> set (zip xs ys) \<Longrightarrow> size x < Suc (size_list size xs)"
  by (auto dest!: set_zip_leftD simp: less_Suc_eq_le intro: size_list_estimation')

lemma size_attr: "p \<in> set attrs \<Longrightarrow> size (snd p) < Suc (size_list (size_prod (\<lambda>x. 0) size) attrs)"
  by (cases p) (auto simp: less_Suc_eq_le intro!: size_list_estimation')

function (sequential) copy_output :: "bool \<Rightarrow> 'r bcg_output \<Rightarrow> 'r bcg_output \<Rightarrow> nat \<Rightarrow> 'r bcg_output res" where
  "copy_output patched ONone buf n = (if buf = ONone then Inr ONone else Inl ValueError)"
| "copy_output patched (OTensor t) buf n =
     (case buf of ONone \<Rightarrow> Inl ValueError | OTensor u \<Rightarrow> rmap OTensor (copy_rows t u n) | _ \<Rightarrow> Inl TypeError)"
| "copy_output patched (OProxy ts) buf n =
     (case buf of
        ONone \<Rightarrow> Inl ValueError
      | OProxy us \<Rightarrow>
          (if \<not> same_keys ts us then Inl ValueError
           else rmap (\<lambda>vs. OProxy (dict_update us vs)) (rmapM (\<lambda>p. case dict_get us (fst p) of None \<Rightarrow> Inl KeyError
              | Some u \<Rightarrow> rmap (Pair (fst p)) (copy_rows (snd p) u n)) ts))
      | _ \<Rightarrow> Inl TypeError)"
| "copy_output patched (OTuple xs) buf n =
     (case buf of
        ONone \<Rightarrow> Inl ValueError
      | OTuple ys \<Rightarrow> (if length xs \<noteq> length ys then Inl ValueError
          else rmap OTuple (rmapM (\<lambda>(x, y). copy_output patched x y n) (zip xs ys)))
      | _ \<Rightarrow> Inl TypeError)"
| "copy_output patched (OList xs) buf n =
     (case buf of
        ONone \<Rightarrow> Inl ValueError
      | OList ys \<Rightarrow> (if length xs \<noteq> length ys then Inl ValueError
          else rmap OList (rmapM (\<lambda>(x, y). copy_output patched x y n) (zip xs ys)))
      | _ \<Rightarrow> Inl TypeError)"
| "copy_output patched (OObj c attrs) buf n =
     (case buf of
        ONone \<Rightarrow> Inl ValueError
      | OObj d bttrs \<Rightarrow>
          (if \<not> patched then Inl TypeError
           else if \<not> same_keys attrs bttrs then Inl ValueError
           else rmap (\<lambda>vs. OObj d (dict_update bttrs vs)) (rmapM (\<lambda>p. case dict_get bttrs (fst p) of None \<Rightarrow> Inl KeyError
              | Some y \<Rightarrow> rmap (Pair (fst p)) (copy_output patched (snd p) y n)) attrs))
      | _ \<Rightarrow> Inl TypeError)"
| "copy_output patched (OPlain v) buf n = (if buf = ONone then Inl ValueError else Inl TypeError)"
  by pat_completeness auto
termination
  by (relation "measure (\<lambda>(patched, x, buf, n). size x)") (auto dest: size_zip_left size_attr)

text \<open>\<open>capture_one\<close>: the buffer is made once, from the output of the warm-up; the output stored is a part of it.\<close>

definition capture :: "(nat \<Rightarrow> 'r) \<Rightarrow> bool \<Rightarrow> 'r bcg_output option \<Rightarrow> 'r bcg_output \<Rightarrow> 'r bcg_output \<Rightarrow> nat \<Rightarrow>
    ('r bcg_output \<times> 'r bcg_output) res" where
  "capture fresh patched shared warmup_out out sz =
     rbind (case shared of None \<Rightarrow> alloc_full_buffer fresh patched warmup_out sz | Some b \<Rightarrow> Inr b) (\<lambda>shared.
     rbind (output_rows patched out sz) (\<lambda>out_rows. rbind (copy_output patched out shared out_rows) (\<lambda>shared.
     rbind (slice_output patched shared out_rows) (\<lambda>stored. Inr (shared, stored)))))"

section \<open>Outputs of one row count\<close>

fun tensor_ok :: "nat \<Rightarrow> 'r tensor \<Rightarrow> bool" where
  "tensor_ok r (Scalar x) = False"
| "tensor_ok r (Rows inner rs) = (length rs = r)"

text \<open>Every tensor has the rows, every sequence has an item, every object and proxy has distinct keys, and there is no plain value.\<close>

fun output_ok :: "nat \<Rightarrow> 'r bcg_output \<Rightarrow> bool" where
  "output_ok r ONone = True"
| "output_ok r (OTensor t) = tensor_ok r t"
| "output_ok r (OProxy ts) = (distinct (map fst ts) \<and> list_all (\<lambda>p. tensor_ok r (snd p)) ts)"
| "output_ok r (OTuple xs) = (list_ex (\<lambda>x. x \<noteq> ONone) xs \<and> list_all (output_ok r) xs)"
| "output_ok r (OList xs) = (list_ex (\<lambda>x. x \<noteq> ONone) xs \<and> list_all (output_ok r) xs)"
| "output_ok r (OObj c attrs) = (distinct (map fst attrs) \<and> list_all (\<lambda>p. output_ok r (snd p)) attrs)"
| "output_ok r (OPlain v) = False"

fun has_tensor :: "'r bcg_output \<Rightarrow> bool" where
  "has_tensor (OTensor t) = True"
| "has_tensor (OProxy ts) = (ts \<noteq> [])"
| "has_tensor (OTuple xs) = list_ex has_tensor xs"
| "has_tensor (OList xs) = list_ex has_tensor xs"
| "has_tensor (OObj c attrs) = list_ex (\<lambda>p. has_tensor (snd p)) attrs"
| "has_tensor x = False"

text \<open>The structure without the rows.\<close>

definition tensor_shape :: "'r tensor \<Rightarrow> 'r tensor" where
  "tensor_shape t = (case t of Scalar x \<Rightarrow> Scalar x | Rows inner rs \<Rightarrow> Rows inner [])"

fun shape_of :: "'r bcg_output \<Rightarrow> 'r bcg_output" where
  "shape_of (OTensor t) = OTensor (tensor_shape t)"
| "shape_of (OProxy ts) = OProxy (map (\<lambda>p. (fst p, tensor_shape (snd p))) ts)"
| "shape_of (OTuple xs) = OTuple (map shape_of xs)"
| "shape_of (OList xs) = OList (map shape_of xs)"
| "shape_of (OObj c attrs) = OObj c (map (\<lambda>p. (fst p, shape_of (snd p))) attrs)"
| "shape_of x = x"

lemma shape_none: "shape_of x = ONone \<longleftrightarrow> x = ONone"
  by (cases x) simp_all

lemma list_ex_shape: "map shape_of bs = map shape_of xs \<Longrightarrow> list_ex (\<lambda>x. x \<noteq> ONone) xs \<Longrightarrow> list_ex (\<lambda>x. x \<noteq> ONone) bs"
proof -
  assume "map shape_of bs = map shape_of xs" "list_ex (\<lambda>x. x \<noteq> ONone) xs"
  moreover have "list_ex (\<lambda>x. x \<noteq> ONone) zs = list_ex (\<lambda>x. x \<noteq> ONone) (map shape_of zs)" for zs :: "'a bcg_output list"
    by (simp add: list_ex_iff shape_none)
  ultimately show ?thesis by metis
qed

text \<open>A helper over a sequence, item by item: what it gives, with the buffer's item where there is one.\<close>

lemma rmapM_items:
  assumes "length ys = length xs"
    and "\<And>i. i < length xs \<Longrightarrow> \<exists>b. f (xs ! i) (ys ! i) = Inr b \<and> shape_of b = shape_of (xs ! i) \<and> output_ok sz b \<and> P (xs ! i) b"
  shows "\<exists>bs. rmapM (\<lambda>(x, y). f x y) (zip xs ys) = Inr bs \<and> map shape_of bs = map shape_of xs \<and> list_all (output_ok sz) bs
    \<and> list_all2 P xs bs"
proof -
  obtain g where g: "\<And>i. i < length xs \<Longrightarrow> f (xs ! i) (ys ! i) = Inr (g i) \<and> shape_of (g i) = shape_of (xs ! i) \<and> output_ok sz (g i) \<and> P (xs ! i) (g i)"
    using assms(2) by metis
  have "rmapM (\<lambda>(x, y). f x y) (zip xs ys) = Inr (map g [0..<length xs])"
    using assms(1) g by (simp add: rmapM_Inr_iff list_all2_conv_all_nth)
  moreover have "map shape_of (map g [0..<length xs]) = map shape_of xs" using g by (intro nth_equalityI) auto
  moreover have "list_all (output_ok sz) (map g [0..<length xs])" "list_all2 P xs (map g [0..<length xs])"
    using g by (auto simp: list_all_length list_all2_conv_all_nth)
  ultimately show ?thesis by blast
qed

lemma rmapM_attrs:
  assumes "\<And>i. i < length attrs \<Longrightarrow> \<exists>b. f (attrs ! i) = Inr b \<and> shape_of b = shape_of (snd (attrs ! i)) \<and> output_ok sz b \<and> P (snd (attrs ! i)) b"
  shows "\<exists>bs. rmapM (\<lambda>p. rmap (Pair (fst p)) (f p)) attrs = Inr bs \<and> map fst bs = map fst attrs
    \<and> map (\<lambda>p. (fst p, shape_of (snd p))) bs = map (\<lambda>p. (fst p, shape_of (snd p))) attrs \<and> list_all (\<lambda>p. output_ok sz (snd p)) bs
    \<and> list_all2 (\<lambda>p b. P (snd p) (snd b) \<and> fst b = fst p) attrs bs"
proof -
  obtain g where g: "\<And>i. i < length attrs \<Longrightarrow> f (attrs ! i) = Inr (g i) \<and> shape_of (g i) = shape_of (snd (attrs ! i)) \<and> output_ok sz (g i) \<and> P (snd (attrs ! i)) (g i)"
    using assms by metis
  let ?bs = "map (\<lambda>i. (fst (attrs ! i), g i)) [0..<length attrs]"
  have "rmapM (\<lambda>p. rmap (Pair (fst p)) (f p)) attrs = Inr ?bs"
    using g by (simp add: rmapM_Inr_iff list_all2_conv_all_nth)
  moreover have "map fst ?bs = map fst attrs" "map (\<lambda>p. (fst p, shape_of (snd p))) ?bs = map (\<lambda>p. (fst p, shape_of (snd p))) attrs"
    using g by (auto intro: nth_equalityI)
  moreover have "list_all (\<lambda>p. output_ok sz (snd p)) ?bs" "list_all2 (\<lambda>p b. P (snd p) (snd b) \<and> fst b = fst p) attrs ?bs"
    using g by (auto simp: list_all_length list_all2_conv_all_nth)
  ultimately show ?thesis by blast
qed

lemma zip_self_map: "rmapM (\<lambda>(x, y). f x) (zip xs xs) = rmapM f xs"
  unfolding zip_same_conv_map by (induction xs) (simp_all split: sum.split)

lemma alloc_shape:
  assumes "output_ok r x"
  shows "\<exists>b. alloc_full_buffer fresh True x sz = Inr b \<and> shape_of b = shape_of x \<and> output_ok sz b"
  using assms
proof (induction r x rule: output_ok.induct)
  case (2 r t)
  then show ?case by (cases t) (simp_all add: new_empty_def tensor_shape_def)
next
  case (3 r ts)
  have "tensor_shape (new_empty fresh t sz) = tensor_shape t \<and> tensor_ok sz (new_empty fresh t sz)" if "tensor_ok r t" for t
    using that by (cases t) (simp_all add: new_empty_def tensor_shape_def)
  with 3 show ?case by (auto simp: case_prod_beta comp_def list_all_iff)
next
  case (4 r xs)
  have "\<exists>bs. rmapM (\<lambda>(x, y). alloc_full_buffer fresh True x sz) (zip xs xs) = Inr bs \<and> map shape_of bs = map shape_of xs
      \<and> list_all (output_ok sz) bs \<and> list_all2 (\<lambda>x b. True) xs bs"
    using 4 by (intro rmapM_items) (auto simp: list_all_iff)
  then show ?case using 4(2) list_ex_shape by (fastforce simp: zip_self_map)
next
  case (5 r xs)
  have "\<exists>bs. rmapM (\<lambda>(x, y). alloc_full_buffer fresh True x sz) (zip xs xs) = Inr bs \<and> map shape_of bs = map shape_of xs
      \<and> list_all (output_ok sz) bs \<and> list_all2 (\<lambda>x b. True) xs bs"
    using 5 by (intro rmapM_items) (auto simp: list_all_iff)
  then show ?case using 5(2) list_ex_shape by (fastforce simp: zip_self_map)
next
  case (6 r c attrs)
  have "\<exists>bs. rmapM (\<lambda>p. rmap (Pair (fst p)) (alloc_full_buffer fresh True (snd p) sz)) attrs = Inr bs \<and> map fst bs = map fst attrs
    \<and> map (\<lambda>p. (fst p, shape_of (snd p))) bs = map (\<lambda>p. (fst p, shape_of (snd p))) attrs \<and> list_all (\<lambda>p. output_ok sz (snd p)) bs
    \<and> list_all2 (\<lambda>p b. True \<and> fst b = fst p) attrs bs"
    using 6 by (intro rmapM_attrs) (simp add: list_all_length)
  then show ?case using 6(2) by auto
qed simp_all

section \<open>Row counts\<close>

lemma rows_items:
  assumes "\<And>p. p \<in> set xs \<Longrightarrow> \<exists>m. g p = Inr m \<and> r \<le> m \<and> m \<le> cap \<and> (has_tensor (sel p) \<longrightarrow> m = r)"
  shows "\<exists>ns. rmapM (\<lambda>p. if sel p = ONone then Inr [] else rmap (\<lambda>n. [n]) (g p)) xs = Inr ns
    \<and> (\<forall>n \<in> set (concat ns). r \<le> n \<and> n \<le> cap) \<and> (list_ex (\<lambda>p. sel p \<noteq> ONone) xs \<longrightarrow> concat ns \<noteq> [])
    \<and> (list_ex (\<lambda>p. has_tensor (sel p)) xs \<longrightarrow> r \<in> set (concat ns))"
proof -
  obtain f where f: "\<And>p. p \<in> set xs \<Longrightarrow> g p = Inr (f p) \<and> r \<le> f p \<and> f p \<le> cap \<and> (has_tensor (sel p) \<longrightarrow> f p = r)"
    using assms by metis
  let ?ns = "map (\<lambda>p. if sel p = ONone then [] else [f p]) xs"
  have "rmapM (\<lambda>p. if sel p = ONone then Inr [] else rmap (\<lambda>n. [n]) (g p)) xs = Inr ?ns" by (rule rmapM_Inr) (simp add: f)
  moreover have "\<forall>n \<in> set (concat ?ns). r \<le> n \<and> n \<le> cap" using f by (auto split: if_splits)
  moreover have "r \<in> set (concat ?ns)" if ex: "list_ex (\<lambda>p. has_tensor (sel p)) xs"
  proof -
    obtain p where p: "p \<in> set xs" "has_tensor (sel p)" using ex by (auto simp: list_ex_iff)
    then have "sel p \<noteq> ONone" "f p = r" using f by auto
    then show ?thesis using p(1) by force
  qed
  moreover have "concat ?ns \<noteq> []" if "list_ex (\<lambda>p. sel p \<noteq> ONone) xs" using that by (auto simp: list_ex_iff)
  ultimately show ?thesis by blast
qed

lemma min_rows_bounds:
  assumes "ns \<noteq> []" "\<forall>n \<in> set ns. r \<le> n \<and> n \<le> cap"
  shows "\<exists>m. min_rows ns = Inr m \<and> r \<le> m \<and> m \<le> cap \<and> (r \<in> set ns \<longrightarrow> m = r)"
proof -
  have "Min (set ns) \<in> set ns" using assms(1) by simp
  then have "r \<le> Min (set ns)" "Min (set ns) \<le> cap" using assms(2) by auto
  moreover have "Min (set ns) = r" if "r \<in> set ns" using that assms(2) by (intro Min_eqI) auto
  ultimately show ?thesis using assms(1) by (simp add: min_rows_def)
qed

lemma output_rows_ok:
  assumes "output_ok r x" "r \<le> cap"
  shows "\<exists>m. output_rows True x cap = Inr m \<and> r \<le> m \<and> m \<le> cap \<and> (has_tensor x \<longrightarrow> m = r)"
  using assms
proof (induction r x rule: output_ok.induct)
  case (2 r t)
  then show ?case by (cases t) (auto simp: tensor_len_def)
next
  case (3 r ts)
  have "rmapM (\<lambda>p. tensor_len (snd p)) ts = Inr (map (\<lambda>p. r) ts)"
  proof (rule rmapM_Inr)
    fix p assume "p \<in> set ts"
    then have "tensor_ok r (snd p)" using 3 by (auto simp: list_all_iff)
    then show "tensor_len (snd p) = Inr r" by (cases "snd p") (simp_all add: tensor_len_def)
  qed
  moreover have "\<exists>m. min_rows (cap # map (\<lambda>p. r) ts) = Inr m \<and> r \<le> m \<and> m \<le> cap \<and> (r \<in> set (cap # map (\<lambda>p. r) ts) \<longrightarrow> m = r)"
    using 3(2) by (intro min_rows_bounds) auto
  ultimately show ?case by (cases ts) auto
next
  case (4 r xs)
  obtain ns where ns: "rmapM (\<lambda>x. if x = ONone then Inr [] else rmap (\<lambda>n. [n]) (output_rows True x cap)) xs = Inr ns"
      "\<forall>n \<in> set (concat ns). r \<le> n \<and> n \<le> cap" "concat ns \<noteq> []" "list_ex has_tensor xs \<longrightarrow> r \<in> set (concat ns)"
    using rows_items [of xs "\<lambda>x. output_rows True x cap" r cap "\<lambda>x. x"] 4 by (force simp: list_all_iff)
  have "xs \<noteq> []" using 4(2) by auto
  then show ?case using ns min_rows_bounds [OF ns(3,2)] by auto
next
  case (5 r xs)
  obtain ns where ns: "rmapM (\<lambda>x. if x = ONone then Inr [] else rmap (\<lambda>n. [n]) (output_rows True x cap)) xs = Inr ns"
      "\<forall>n \<in> set (concat ns). r \<le> n \<and> n \<le> cap" "concat ns \<noteq> []" "list_ex has_tensor xs \<longrightarrow> r \<in> set (concat ns)"
    using rows_items [of xs "\<lambda>x. output_rows True x cap" r cap "\<lambda>x. x"] 5 by (force simp: list_all_iff)
  have "xs \<noteq> []" using 5(2) by auto
  then show ?case using ns min_rows_bounds [OF ns(3,2)] by auto
next
  case (6 r c attrs)
  obtain ns where ns: "rmapM (\<lambda>p. if snd p = ONone then Inr [] else rmap (\<lambda>n. [n]) (output_rows True (snd p) cap)) attrs = Inr ns"
      "\<forall>n \<in> set (concat ns). r \<le> n \<and> n \<le> cap" "list_ex (\<lambda>p. has_tensor (snd p)) attrs \<longrightarrow> r \<in> set (concat ns)"
    using rows_items [of attrs "\<lambda>p. output_rows True (snd p) cap" r cap snd] 6 by (force simp: list_all_iff)
  have "\<exists>m. min_rows (cap # concat ns) = Inr m \<and> r \<le> m \<and> m \<le> cap \<and> (r \<in> set (cap # concat ns) \<longrightarrow> m = r)"
    using ns(2) 6(3) by (intro min_rows_bounds) auto
  then show ?case using ns by auto
qed simp_all

section \<open>The copy and the slice\<close>

lemma copy_rows_ok:
  assumes "tensor_ok r t" "tensor_ok sz u" "tensor_shape u = tensor_shape t" "r \<le> sz"
  shows "\<exists>v. copy_rows t u r = Inr v \<and> tensor_shape v = tensor_shape t \<and> tensor_ok sz v \<and> slice_tensor v r = Inr t"
  using assms by (cases t; cases u) (auto simp: copy_rows_def tensor_shape_def slice_tensor_def Let_def)

lemma dict_update_same:
  assumes "map fst vs = map fst d" "distinct (map fst d)"
  shows "dict_update d vs = vs"
proof -
  have "dict_update (pre @ d) vs = pre @ vs"
    if "map fst vs = map fst d" "distinct (map fst (pre @ d))" for pre
    using that
  proof (induction vs arbitrary: d pre)
    case (Cons p vs)
    then obtain q d' where d: "d = q # d'" "fst q = fst p" "map fst vs = map fst d'" by (cases d) auto
    have upd: "AList.update k v (xs @ (k, w) # ys) = xs @ (k, v) # ys" if "k \<notin> fst ` set xs" for k v w and xs ys :: "(_ \<times> _) list"
      using that by (induction xs) auto
    have "dict_set (fst p) (snd p) (pre @ d) = (pre @ [p]) @ d'"
      using upd [of "fst p" pre "snd p" "snd q" d'] Cons.prems(2) d by (cases p; cases q) (auto simp: dict_set_def)
    then show ?case using Cons.IH [of d' "pre @ [p]"] Cons.prems(2) d by simp
  qed simp
  from this [of "[]"] assms show ?thesis by simp
qed

text \<open>What a copy of an output of \<open>r\<close> rows leaves in a buffer of its structure.\<close>

definition copied :: "nat \<Rightarrow> nat \<Rightarrow> 'r bcg_output \<Rightarrow> 'r bcg_output \<Rightarrow> bool" where
  "copied sz m x b \<longleftrightarrow> shape_of b = shape_of x \<and> output_ok sz b \<and> slice_output True b m = Inr x"

lemma copied_slices: "list_all2 (\<lambda>x b. slice_output True b m = Inr x) xs bs \<Longrightarrow> rmapM (\<lambda>b. slice_output True b m) bs = Inr xs"
  by (simp add: rmapM_Inr_iff list_all2_conv_all_nth)

lemma copy_items:
  assumes "\<And>x b. x \<in> set xs \<Longrightarrow> b \<in> set ys \<Longrightarrow> shape_of b = shape_of x \<Longrightarrow> \<exists>b'. copy_output True x b m = Inr b' \<and> copied sz m x b'"
    and "map shape_of ys = map shape_of xs"
  shows "\<exists>bs. rmapM (\<lambda>(x, y). copy_output True x y m) (zip xs ys) = Inr bs \<and> map shape_of bs = map shape_of xs
    \<and> list_all (output_ok sz) bs \<and> rmapM (\<lambda>b. slice_output True b m) bs = Inr xs"
proof -
  have len: "length ys = length xs" using assms(2) by (rule map_eq_imp_length_eq)
  have sh: "shape_of (ys ! i) = shape_of (xs ! i)" if "i < length xs" for i
    using arg_cong [OF assms(2), of "\<lambda>l. l ! i"] that len by simp
  have "\<exists>bs. rmapM (\<lambda>(x, y). copy_output True x y m) (zip xs ys) = Inr bs \<and> map shape_of bs = map shape_of xs \<and> list_all (output_ok sz) bs
      \<and> list_all2 (\<lambda>x b. slice_output True b m = Inr x) xs bs"
  proof (rule rmapM_items [OF len])
    fix i assume "i < length xs"
    then show "\<exists>b. copy_output True (xs ! i) (ys ! i) m = Inr b \<and> shape_of b = shape_of (xs ! i) \<and> output_ok sz b \<and> slice_output True b m = Inr (xs ! i)"
      using assms(1) [of "xs ! i" "ys ! i"] sh [of i] len by (simp add: copied_def)
  qed
  then show ?thesis using copied_slices by blast
qed

lemma dict_get_same:
  assumes "map fst bs = map fst as" "distinct (map fst as)" "i < length as"
  shows "dict_get bs (fst (as ! i)) = Some (snd (bs ! i))"
proof -
  have "length bs = length as" using assms(1) by (rule map_eq_imp_length_eq)
  moreover have "fst (bs ! i) = fst (as ! i)" using arg_cong [OF assms(1), of "\<lambda>l. l ! i"] assms(3) calculation by simp
  ultimately have "(fst (as ! i), snd (bs ! i)) \<in> set bs" using assms(3) by (metis nth_mem prod.collapse)
  then show ?thesis using assms(1,2) by (simp add: dict_get_def)
qed

lemma same_keys_eq: "map fst bs = map fst as \<Longrightarrow> same_keys as bs"
  unfolding same_keys_def by (metis list.set_map)

lemma copy_output_ok:
  assumes "output_ok r x" "output_ok sz b" "shape_of b = shape_of x" "r \<le> sz" "has_tensor x \<longrightarrow> m = r"
  shows "\<exists>b'. copy_output True x b m = Inr b' \<and> copied sz m x b'"
  using assms
proof (induction r x arbitrary: b rule: output_ok.induct)
  case (1 r)
  then show ?case by (simp add: shape_none copied_def)
next
  case (2 r t)
  then obtain u where "b = OTensor u" by (cases b) auto
  then show ?case using 2 copy_rows_ok [of r t sz u] by (auto simp: copied_def)
next
  case (3 r ts)
  then obtain us where b: "b = OProxy us" by (cases b) auto
  let ?shape = "\<lambda>p. (fst p, tensor_shape (snd p))"
  have us: "map ?shape us = map ?shape ts" using 3(3) b by simp
  have "map fst (map ?shape us) = map fst (map ?shape ts)" by (simp only: us)
  then have keys: "map fst us = map fst ts" by (simp add: comp_def)
  have len: "length us = length ts" using us by (rule map_eq_imp_length_eq)
  have m: "m = r" if "ts \<noteq> []" using that 3(5) by simp
  have "\<exists>v. copy_rows (snd (ts ! i)) (snd (us ! i)) m = Inr v \<and> tensor_shape v = tensor_shape (snd (ts ! i)) \<and> tensor_ok sz v
      \<and> slice_tensor v m = Inr (snd (ts ! i))" if "i < length ts" for i
  proof -
    have "m = r" using that m by (cases ts) simp_all
    moreover have "tensor_shape (snd (us ! i)) = tensor_shape (snd (ts ! i))" using arg_cong [OF us, of "\<lambda>l. l ! i"] that len by simp
    ultimately show ?thesis
      using 3(1,2,4) b that len copy_rows_ok [of r "snd (ts ! i)" sz "snd (us ! i)"] by (simp add: list_all_length)
  qed
  then obtain g where g: "\<And>i. i < length ts \<Longrightarrow> copy_rows (snd (ts ! i)) (snd (us ! i)) m = Inr (g i)
      \<and> tensor_shape (g i) = tensor_shape (snd (ts ! i)) \<and> tensor_ok sz (g i) \<and> slice_tensor (g i) m = Inr (snd (ts ! i))" by metis
  define vs where "vs = map (\<lambda>i. (fst (ts ! i), g i)) [0..<length ts]"
  have "rmapM (\<lambda>p. case dict_get us (fst p) of None \<Rightarrow> Inl KeyError | Some u \<Rightarrow> rmap (Pair (fst p)) (copy_rows (snd p) u m)) ts = Inr vs"
    using g dict_get_same [OF keys] 3(1) by (simp add: vs_def rmapM_Inr_iff list_all2_conv_all_nth)
  moreover have vk: "map fst vs = map fst ts" by (auto simp: vs_def intro: nth_equalityI)
  then have "dict_update us vs = vs" using 3(1) keys by (intro dict_update_same) simp_all
  moreover have "rmapM (\<lambda>(k, t). rmap (Pair k) (slice_tensor t m)) vs = Inr ts"
    using g by (simp add: vs_def rmapM_Inr_iff list_all2_conv_all_nth)
  moreover have "map ?shape vs = map ?shape ts" using g by (auto simp: vs_def intro: nth_equalityI)
  moreover have "list_all (\<lambda>p. tensor_ok sz (snd p)) vs" using g by (simp add: vs_def list_all_length)
  ultimately show ?case using same_keys_eq [OF keys] 3(1) vk by (simp add: b copied_def)
next
  case (4 r xs)
  then obtain ys where b: "b = OTuple ys" by (cases b) auto
  have "\<exists>bs. rmapM (\<lambda>(x, y). copy_output True x y m) (zip xs ys) = Inr bs \<and> map shape_of bs = map shape_of xs
    \<and> list_all (output_ok sz) bs \<and> rmapM (\<lambda>b. slice_output True b m) bs = Inr xs"
    using 4 b by (intro copy_items) (auto simp: list_all_iff list_ex_iff)
  moreover have "length ys = length xs" using 4(4) b by (auto dest: map_eq_imp_length_eq)
  ultimately show ?case using 4(2) list_ex_shape by (fastforce simp: b copied_def)
next
  case (5 r xs)
  then obtain ys where b: "b = OList ys" by (cases b) auto
  have "\<exists>bs. rmapM (\<lambda>(x, y). copy_output True x y m) (zip xs ys) = Inr bs \<and> map shape_of bs = map shape_of xs
    \<and> list_all (output_ok sz) bs \<and> rmapM (\<lambda>b. slice_output True b m) bs = Inr xs"
    using 5 b by (intro copy_items) (auto simp: list_all_iff list_ex_iff)
  moreover have "length ys = length xs" using 5(4) b by (auto dest: map_eq_imp_length_eq)
  ultimately show ?case using 5(2) list_ex_shape by (fastforce simp: b copied_def)
next
  case (6 r c attrs)
  then obtain battrs where b: "b = OObj c battrs" by (cases b) auto
  let ?shape = "\<lambda>p. (fst p, shape_of (snd p))"
  have sh: "map ?shape battrs = map ?shape attrs" using 6(4) b by simp
  have "map fst (map ?shape battrs) = map fst (map ?shape attrs)" by (simp only: sh)
  then have keys: "map fst battrs = map fst attrs" by (simp add: comp_def)
  have len: "length battrs = length attrs" using sh by (rule map_eq_imp_length_eq)
  let ?f = "\<lambda>p. case dict_get battrs (fst p) of None \<Rightarrow> Inl KeyError | Some y \<Rightarrow> copy_output True (snd p) y m"
  have "\<exists>bs. rmapM (\<lambda>p. rmap (Pair (fst p)) (?f p)) attrs = Inr bs \<and> map fst bs = map fst attrs
    \<and> map ?shape bs = map ?shape attrs \<and> list_all (\<lambda>p. output_ok sz (snd p)) bs
    \<and> list_all2 (\<lambda>p b. slice_output True (snd b) m = Inr (snd p) \<and> fst b = fst p) attrs bs"
  proof (rule rmapM_attrs)
    fix i assume i: "i < length attrs"
    have "shape_of (snd (battrs ! i)) = shape_of (snd (attrs ! i))" using arg_cong [OF sh, of "\<lambda>l. l ! i"] i len by simp
    moreover have "output_ok sz (snd (battrs ! i))" using 6(3) b i len by (simp add: list_all_length)
    moreover have "output_ok r (snd (attrs ! i))" using 6(2) i by (simp add: list_all_length)
    moreover have "has_tensor (snd (attrs ! i)) \<longrightarrow> m = r" using 6(6) i by (auto simp: list_ex_length)
    ultimately have "\<exists>b'. copy_output True (snd (attrs ! i)) (snd (battrs ! i)) m = Inr b' \<and> copied sz m (snd (attrs ! i)) b'"
      using 6(1) [of "attrs ! i" "snd (battrs ! i)"] 6(5) i by simp
    then show "\<exists>b. ?f (attrs ! i) = Inr b \<and> shape_of b = shape_of (snd (attrs ! i)) \<and> output_ok sz b \<and> slice_output True b m = Inr (snd (attrs ! i))"
      using dict_get_same [OF keys _ i] 6(2) by (auto simp: copied_def)
  qed
  then obtain bs where bs: "rmapM (\<lambda>p. rmap (Pair (fst p)) (?f p)) attrs = Inr bs" "map fst bs = map fst attrs"
      "map ?shape bs = map ?shape attrs" "list_all (\<lambda>p. output_ok sz (snd p)) bs"
      "list_all2 (\<lambda>p b. slice_output True (snd b) m = Inr (snd p) \<and> fst b = fst p) attrs bs" by blast
  have "(\<lambda>p. rmap (Pair (fst p)) (?f p)) = (\<lambda>p. case dict_get battrs (fst p) of None \<Rightarrow> Inl KeyError
      | Some y \<Rightarrow> rmap (Pair (fst p)) (copy_output True (snd p) y m))" by (auto split: option.split)
  then have "rmapM (\<lambda>p. case dict_get battrs (fst p) of None \<Rightarrow> Inl KeyError
      | Some y \<Rightarrow> rmap (Pair (fst p)) (copy_output True (snd p) y m)) attrs = Inr bs" using bs(1) by metis
  moreover have "dict_update battrs bs = bs" using bs(2) keys 6(2) by (intro dict_update_same) simp_all
  moreover have "rmapM (\<lambda>p. rmap (Pair (fst p)) (slice_output True (snd p) m)) bs = Inr attrs"
    using bs(5) by (auto simp: rmapM_Inr_iff list_all2_conv_all_nth prod_eq_iff)
  ultimately show ?case using same_keys_eq [OF keys] bs(2-4) 6(2) by (simp add: b copied_def)
qed simp_all

section \<open>What the patch leaves, and what it rejects\<close>

fun no_object :: "'r bcg_output \<Rightarrow> bool" where
  "no_object (OObj c attrs) = False"
| "no_object (OTuple xs) = list_all no_object xs"
| "no_object (OList xs) = list_all no_object xs"
| "no_object x = True"

fun contains_plain :: "'r bcg_output \<Rightarrow> bool" where
  "contains_plain (OPlain v) = True"
| "contains_plain (OTuple xs) = list_ex contains_plain xs"
| "contains_plain (OList xs) = list_ex contains_plain xs"
| "contains_plain (OObj c attrs) = list_ex (\<lambda>p. contains_plain (snd p)) attrs"
| "contains_plain x = False"

lemma patch_conservative:
  assumes "no_object x"
  shows "alloc_full_buffer fresh True x sz = alloc_full_buffer fresh False x sz" "slice_output True x n = slice_output False x n"
    "output_rows True x cap = output_rows False x cap" "copy_output True x b n = copy_output False x b n"
proof -
  show "alloc_full_buffer fresh True x sz = alloc_full_buffer fresh False x sz" using assms
    by (induction x rule: no_object.induct) (auto simp: list_all_iff cong: rmapM_cong)
  show "slice_output True x n = slice_output False x n" using assms
    by (induction x rule: no_object.induct) (auto simp: list_all_iff cong: rmapM_cong)
  show "output_rows True x cap = output_rows False x cap" using assms
    by (induction x rule: no_object.induct) (auto simp: list_all_iff cong: rmapM_cong if_cong)
  show "copy_output True x b n = copy_output False x b n" using assms
  proof (induction x arbitrary: b rule: no_object.induct)
    case (2 xs)
    then have "rmapM (\<lambda>(x, y). copy_output True x y n) (zip xs ys) = rmapM (\<lambda>(x, y). copy_output False x y n) (zip xs ys)" for ys
      by (intro rmapM_cong) (auto simp: list_all_iff dest: set_zip_leftD)
    then show ?case by (simp split: bcg_output.split)
  next
    case (3 xs)
    then have "rmapM (\<lambda>(x, y). copy_output True x y n) (zip xs ys) = rmapM (\<lambda>(x, y). copy_output False x y n) (zip xs ys)" for ys
      by (intro rmapM_cong) (auto simp: list_all_iff dest: set_zip_leftD)
    then show ?case by (simp split: bcg_output.split)
  qed simp_all
qed

lemma alloc_error: "alloc_full_buffer fresh patched x sz = Inl e \<Longrightarrow> e = TypeError"
proof (induction fresh patched x sz rule: alloc_full_buffer.induct)
  case (6 fresh patched c attrs sz)
  then show ?case by (force simp: res_iff split: if_splits dest!: rmapM_Inl)
qed (force simp: res_iff dest!: rmapM_Inl)+

lemma alloc_no_plain: "alloc_full_buffer fresh patched x sz = Inr b \<Longrightarrow> \<not> contains_plain x"
proof (induction fresh patched x sz arbitrary: b rule: alloc_full_buffer.induct)
  case (6 fresh patched c attrs sz)
  then show ?case by (fastforce simp: res_iff list_ex_iff list_all2_conv_all_nth in_set_conv_nth split: if_splits)
qed (fastforce simp: res_iff list_ex_iff list_all2_conv_all_nth in_set_conv_nth)+

section \<open>Properties\<close>

text \<open>
  With the patch, outputs of objects, sequences and tensors go through the shared buffer unchanged: the buffer made for the
  first size takes the output of that size and then any output of the same structure with no more rows, and what is
  stored of each is the output itself.
\<close>

theorem captured_outputs_stored:
  assumes "output_ok r0 warm" "output_ok r x" "shape_of x = shape_of warm" "r \<le> sz"
    and "output_ok r' x'" "shape_of x' = shape_of warm" "r' \<le> sz'" "sz' \<le> sz"
  shows "\<exists>b b'. capture fresh True None warm x sz = Inr (b, x) \<and> capture fresh True (Some b) warm' x' sz' = Inr (b', x')"
proof -
  obtain b0 where b0: "alloc_full_buffer fresh True warm sz = Inr b0" "shape_of b0 = shape_of warm" "output_ok sz b0"
    using alloc_shape [OF assms(1)] by blast
  have use: "\<exists>b'. capture fresh True (Some b) w y cap = Inr (b', y) \<and> shape_of b' = shape_of y \<and> output_ok sz b'"
    if h: "output_ok q y" "q \<le> cap" "q \<le> sz" "output_ok sz b" "shape_of b = shape_of y" for b w y q cap
  proof -
    obtain m where m: "output_rows True y cap = Inr m" "has_tensor y \<longrightarrow> m = q"
      using output_rows_ok [OF h(1,2)] by blast
    then show ?thesis using copy_output_ok [OF h(1,4,5,3) m(2)] by (auto simp: capture_def copied_def)
  qed
  obtain b where b: "capture fresh True (Some b0) warm x sz = Inr (b, x)" "shape_of b = shape_of x" "output_ok sz b"
    using use [OF assms(2) assms(4) assms(4) b0(3)] b0(2) assms(3) by auto
  then have "capture fresh True None warm x sz = Inr (b, x)" using b0(1) by (simp add: capture_def)
  moreover have "r' \<le> sz" using assms(7,8) by simp
  ultimately show ?thesis using use [OF assms(5) assms(7) _ b(3)] b(2) assms(3,6) by force
qed

text \<open>A dataclass with logits and an optional field, at four rows and at two.\<close>

definition demo_logits :: "nat \<Rightarrow> nat bcg_output" where
  "demo_logits n = OObj ''LogitsProcessorOutput'' [(''next_token_logits'', OTensor (Rows [3] [0..<n])), (''hidden_states'', ONone)]"

theorem captured_outputs_stored_witness:
  "\<exists>b b'. capture (\<lambda>i. 9) True None (demo_logits 4) (demo_logits 4) 4 = Inr (b, demo_logits 4)
    \<and> capture (\<lambda>i. 9) True (Some b) (demo_logits 4) (demo_logits 2) 2 = Inr (b', demo_logits 2)"
  by (rule captured_outputs_stored [of 4 _ 4 _ _ 2]) (simp_all add: demo_logits_def tensor_shape_def)

text \<open>
  C38: An output with a number or a string anywhere, as an attribute of a dataclass for instance, cannot be captured, with the patch
  as without it: allocating its buffer raises \<open>TypeError\<close>.
\<close>

theorem plain_attribute_rejected:
  assumes "contains_plain x"
  shows "capture fresh patched None x out sz = Inl TypeError"
proof -
  have "alloc_full_buffer fresh patched x sz = Inl TypeError"
    using assms alloc_no_plain [of fresh patched x sz] alloc_error [of fresh patched x sz]
    by (cases "alloc_full_buffer fresh patched x sz") auto
  then show ?thesis by (simp add: capture_def)
qed

theorem plain_attribute_rejected_witness:
  "capture (\<lambda>i. 9) True None (OObj ''Out'' [(''logits'', OTensor (Rows [] [1, 2 :: nat])), (''step'', OPlain 3)]) ONone 2 = Inl TypeError"
  by (rule plain_attribute_rejected) simp

end
