(* ===== verification/EnginePrimes.thy ===== *)
theory EnginePrimes
  imports PrimeTable
begin

text \<open>
  The prime search of \<open>Qwen4ExpNGramEmbedding\<close> (\<open>research/vllm_ngram_embedding_main.py\<close>): a deterministic Miller-Rabin test and
  a loop over odd candidates, which is \<open>None\<close> when it never ends.  The lemmas show that the test accepts every prime, so that the
  search ends from every start, and that it finds the sixteen primes of the default table.
\<close>

section \<open>The test and the search\<close>

text \<open>
  Python's three-argument \<open>pow\<close> on a non-negative exponent, and the loop that halves \<open>value - 1\<close>; the loop is entered with
  a positive exponent only.
\<close>

function pow_mod :: "int \<Rightarrow> int \<Rightarrow> int \<Rightarrow> int" where
  "pow_mod b e m =
     (if e \<le> 0 then 1 mod m
      else let h = pow_mod (b * b mod m) (e div 2) m in if e mod 2 = 1 then b * h mod m else h)"
  by pat_completeness auto
termination by (relation "measure (\<lambda>(b, e, m). nat e)") auto

declare pow_mod.simps [simp del]

function odd_part :: "int \<Rightarrow> nat \<Rightarrow> int \<times> nat" where
  "odd_part d s = (if d \<le> 0 \<or> d mod 2 = 1 then (d, s) else odd_part (d div 2) (Suc s))"
  by pat_completeness auto
termination by (relation "measure (\<lambda>(d, s). nat d)") auto

declare odd_part.simps [simp del]

lemma pow_mod_power: "0 \<le> e \<Longrightarrow> pow_mod b e m = b ^ nat e mod m"
proof (induction b e m rule: pow_mod.induct)
  case (1 b e m)
  show ?case
  proof (cases "e \<le> 0")
    case False
    then have "pow_mod (b * b mod m) (e div 2) m = (b * b mod m) ^ nat (e div 2) mod m" by (intro 1) auto
    also have "\<dots> = b ^ (2 * nat (e div 2)) mod m" by (simp add: power_mod power_mult power2_eq_square)
    finally have h: "pow_mod (b * b mod m) (e div 2) m = b ^ (2 * nat (e div 2)) mod m" .
    have e: "nat e = 2 * nat (e div 2) + nat (e mod 2)" using False by (simp add: nat_div_distrib nat_mod_distrib)
    show ?thesis
    proof (cases "e mod 2 = 1")
      case True
      then have "nat e = Suc (2 * nat (e div 2))" using e by simp
      then show ?thesis using False True by (subst pow_mod.simps) (simp add: h mod_mult_right_eq)
    next
      case even: False
      then have "nat e = 2 * nat (e div 2)" using e by (simp add: not_mod_2_eq_1_eq_0)
      then show ?thesis using False even by (subst pow_mod.simps) (simp add: h)
    qed
  qed (use 1 in \<open>simp add: pow_mod.simps\<close>)
qed

fun squares_reach :: "int \<Rightarrow> nat \<Rightarrow> int \<Rightarrow> bool" where
  "squares_reach witness 0 value = False"
| "squares_reach witness (Suc n) value =
     (let witness = pow_mod witness 2 value in witness = value - 1 \<or> squares_reach witness n value)"

definition SMALL_PRIMES :: "int list" where "SMALL_PRIMES = [2, 3, 5, 7, 11, 13, 17, 19, 23, 29, 31, 37]"
definition MR_BASES :: "int list" where "MR_BASES = [2, 325, 9375, 28178, 450775, 9780504, 1795265022]"

definition passes_base :: "int \<Rightarrow> int \<Rightarrow> nat \<Rightarrow> int \<Rightarrow> bool" where
  "passes_base value exponent shifts base \<longleftrightarrow>
     base mod value = 0 \<or>
     (let witness = pow_mod base exponent value
      in witness = 1 \<or> witness = value - 1 \<or> squares_reach witness (shifts - 1) value)"

definition is_prime_64 :: "int \<Rightarrow> bool" where
  "is_prime_64 value =
     (if value < 2 then False
      else case List.find (\<lambda>p. value mod p = 0) SMALL_PRIMES of
             Some p \<Rightarrow> value = p
           | None \<Rightarrow> (let (exponent, shifts) = odd_part (value - 1) 0
               in list_all (passes_base value exponent shifts) MR_BASES))"

partial_function (option) next_odd_prime :: "int \<Rightarrow> int option" where
  "next_odd_prime candidate = (if is_prime_64 candidate then Some candidate else next_odd_prime (candidate + 2))"

fun engine_nth_prime_after :: "int \<Rightarrow> nat \<Rightarrow> int option" where
  "engine_nth_prime_after start 0 = Some start"
| "engine_nth_prime_after start (Suc count) =
     Option.bind (engine_nth_prime_after start count) (\<lambda>prime.
       let candidate = prime + 1
       in if candidate \<le> 2 then Some 2
          else next_odd_prime (if candidate mod 2 = 0 then candidate + 1 else candidate))"


section \<open>Every prime passes\<close>

lemma prime_coprime: "prime_number p \<Longrightarrow> \<not> p dvd a \<Longrightarrow> coprime a p"
  for a p :: int
proof (rule coprimeI)
  fix d assume p: "prime_number p" "\<not> p dvd a" and d: "d dvd a" "d dvd p"
  have "0 < p" using p(1) by (simp add: prime_number_def)
  have "\<bar>d\<bar> \<le> p" using zdvd_imp_le [of "\<bar>d\<bar>" p] d(2) \<open>0 < p\<close> by simp
  moreover have "\<bar>d\<bar> \<noteq> p" using d p(2) by (metis abs_dvd_iff)
  moreover have "\<bar>d\<bar> dvd p" using d(2) by simp
  then have "\<not> \<bar>d\<bar> \<in> {2..<p}" using p(1) unfolding prime_number_def by blast
  moreover have "d \<noteq> 0" using d(2) \<open>0 < p\<close> by auto
  ultimately have "\<bar>d\<bar> = 1" by auto
  then show "is_unit d" by simp
qed

lemma prime_dvd_product: "prime_number p \<Longrightarrow> p dvd a * b \<Longrightarrow> p dvd a \<or> p dvd b"
  for a b p :: int
  using prime_coprime [of p a] coprime_dvd_mult_right_iff [of p a b] by (auto simp: coprime_commute)

lemma fermat:
  fixes a p :: int
  assumes p: "prime_number p" and a: "\<not> p dvd a"
  shows "a ^ nat (p - 1) mod p = 1"
proof -
  have p2: "2 \<le> p" using p by (simp add: prime_number_def)
  let ?S = "{1..<p}" and ?f = "\<lambda>x. a * x mod p"
  have nz: "\<not> p dvd a * x" if "x \<in> ?S" for x
    using prime_dvd_product [OF p, of a x] a that zdvd_imp_le [of p x] by auto
  have inj: "inj_on ?f ?S"
  proof (rule inj_onI)
    fix x y assume xy: "x \<in> ?S" "y \<in> ?S" "?f x = ?f y"
    then have "p dvd a * (x - y)" by (simp add: mod_eq_dvd_iff right_diff_distrib)
    then have "p dvd x - y" using prime_dvd_product [OF p] a by blast
    then show "x = y" using xy(1,2) zdvd_imp_le [of p "x - y"] zdvd_imp_le [of p "y - x"] by (force simp: dvd_diff_commute)
  qed
  have "?f x \<in> ?S" if "x \<in> ?S" for x
  proof -
    have "a * x mod p \<noteq> 0" using nz [OF that] by (simp add: dvd_eq_mod_eq_0)
    moreover have "0 \<le> a * x mod p" "a * x mod p < p" using p2 by simp_all
    ultimately show ?thesis unfolding atLeastLessThan_iff by linarith
  qed
  then have "?f ` ?S \<subseteq> ?S" by blast
  then have img: "?f ` ?S = ?S" using endo_inj_surj [OF _ _ inj] by simp
  have "prod ?f ?S = \<Prod>?S" using prod.reindex [OF inj, of "\<lambda>x. x"] by (simp add: img comp_def)
  then have "(\<Prod>x \<in> ?S. a * x) mod p = \<Prod>?S mod p" by (metis mod_prod_eq)
  then have "p dvd a ^ nat (p - 1) * \<Prod>?S - \<Prod>?S" by (simp add: prod.distrib mod_eq_dvd_iff)
  then have "p dvd (a ^ nat (p - 1) - 1) * \<Prod>?S" by (simp add: left_diff_distrib)
  moreover have "coprime (\<Prod>?S) p"
  proof (rule prod_coprime_left)
    fix x assume "x \<in> ?S"
    then have "\<not> p dvd x" using zdvd_not_zless [of x p] by simp
    then show "coprime x p" by (rule prime_coprime [OF p])
  qed
  ultimately have "p dvd a ^ nat (p - 1) - 1" by (simp add: coprime_dvd_mult_left_iff coprime_commute)
  then have "a ^ nat (p - 1) mod p = 1 mod p" by (simp add: mod_eq_dvd_iff)
  then show ?thesis using p2 by simp
qed

lemma square_root_of_one:
  fixes w p :: int
  assumes p: "prime_number p" and w: "w * w mod p = 1" "0 \<le> w" "w < p"
  shows "w = 1 \<or> w = p - 1"
proof -
  have p2: "2 \<le> p" using p by (simp add: prime_number_def)
  then have "w * w mod p = 1 mod p" using w(1) by simp
  then have "p dvd (w - 1) * (w + 1)" by (simp add: mod_eq_dvd_iff algebra_simps)
  then consider "p dvd w - 1" | "p dvd w + 1" using prime_dvd_product [OF p] by blast
  then show ?thesis
  proof cases
    case 1
    then show ?thesis using zdvd_imp_le [of p "w - 1"] zdvd_imp_le [of p "1 - w"] w(2,3) p2 by (force simp: dvd_diff_commute)
  next
    case 2
    then show ?thesis using zdvd_imp_le [of p "w + 1"] w(2,3) by force
  qed
qed

lemma odd_part_spec: "0 < d \<Longrightarrow> odd_part d s = (e, s') \<Longrightarrow> s \<le> s' \<and> 0 < e \<and> e * 2 ^ (s' - s) = d"
proof (induction d s rule: odd_part.induct)
  case (1 d s)
  show ?case
  proof (cases "d mod 2 = 1")
    case True
    then show ?thesis using 1(2,3) by (simp add: odd_part.simps [of d])
  next
    case False
    then have "odd_part (d div 2) (Suc s) = (e, s')" "0 < d div 2" "2 * (d div 2) = d"
      using 1(2,3) by (simp_all add: odd_part.simps [of d]) presburger+
    then have IH: "Suc s \<le> s'" "0 < e" "e * 2 ^ (s' - Suc s) = d div 2" using 1(1,2) False by auto
    moreover from IH(1) have "s' - s = Suc (s' - Suc s)" by simp
    ultimately show ?thesis using \<open>2 * (d div 2) = d\<close> by simp
  qed
qed

lemma squares_reach_prime:
  assumes p: "prime_number p"
  shows "0 \<le> w \<Longrightarrow> w < p \<Longrightarrow> w ^ 2 ^ n mod p = 1 \<Longrightarrow> w \<noteq> 1 \<Longrightarrow> w \<noteq> p - 1 \<Longrightarrow> squares_reach w (n - 1) p"
proof (induction n arbitrary: w)
  case (Suc n)
  have sq: "pow_mod w 2 p = w * w mod p" by (simp add: pow_mod_power power2_eq_square)
  have p2: "2 \<le> p" using p by (simp add: prime_number_def)
  have ne: "w * w mod p \<noteq> 1" using square_root_of_one [OF p _ Suc.prems(1,2)] Suc.prems(4,5) by blast
  have pw: "(w * w mod p) ^ 2 ^ n mod p = 1"
    using Suc.prems(3) by (simp add: power_mod power_mult power2_eq_square)
  then obtain m where n: "n = Suc m" using ne p2 by (cases n) auto
  show ?case
  proof (cases "w * w mod p = p - 1")
    case True
    then show ?thesis by (simp add: n sq)
  next
    case False
    then have "squares_reach (w * w mod p) (n - 1) p" using Suc.IH [OF _ _ pw ne] p2 by simp
    then show ?thesis by (simp add: n sq)
  qed
qed (use p in \<open>auto simp: prime_number_def\<close>)

lemma prime_passes:
  assumes p: "prime_number p"
  shows "is_prime_64 p"
proof -
  have p2: "2 \<le> p" using p by (simp add: prime_number_def)
  have small: "p = q" if "List.find (\<lambda>q. p mod q = 0) SMALL_PRIMES = Some q" for q
  proof -
    have "q dvd p" "q \<in> set SMALL_PRIMES" using that by (auto simp: find_Some_iff dvd_eq_mod_eq_0)
    moreover from this(2) have "2 \<le> q" by (auto simp: SMALL_PRIMES_def)
    ultimately show ?thesis using p zdvd_imp_le [of q p] p2 by (force simp: prime_number_def)
  qed
  have pass: "passes_base p e s base" if os: "odd_part (p - 1) 0 = (e, s)" and base: "0 \<le> base" for e s base
  proof (cases "base mod p = 0")
    case False
    define w where "w = pow_mod base e p"
    have e: "0 < e" "e * 2 ^ s = p - 1" using odd_part_spec [OF _ os] p2 by auto
    have w: "w = base ^ nat e mod p" using e(1) by (simp add: w_def pow_mod_power)
    then have range: "0 \<le> w" "w < p" using p2 by simp_all
    have "nat (p - 1) = nat e * 2 ^ s" using e by (simp add: nat_mult_distrib nat_power_eq flip: e(2))
    then have "w ^ 2 ^ s mod p = base ^ nat (p - 1) mod p" by (simp add: w power_mod power_mult)
    also have "\<dots> = 1" using fermat [OF p] False by (simp add: dvd_eq_mod_eq_0)
    finally show ?thesis
      using squares_reach_prime [OF p range, of s] by (auto simp: passes_base_def w_def [symmetric])
  qed (simp add: passes_base_def)
  obtain e s where os: "odd_part (p - 1) 0 = (e, s)" by fastforce
  then have "list_all (passes_base p e s) MR_BASES" using pass by (simp add: MR_BASES_def)
  then show ?thesis using p2 small os by (auto simp: is_prime_64_def split: option.split)
qed

section \<open>The search ends\<close>

lemma next_odd_primeI:
  "is_prime_64 (c + 2 * int n) \<Longrightarrow> list_all (\<lambda>j. \<not> is_prime_64 (c + 2 * int j)) [0..<n] \<Longrightarrow> next_odd_prime c = Some (c + 2 * int n)"
proof (induction n arbitrary: c)
  case (Suc n)
  have "list_all (\<lambda>j. \<not> is_prime_64 ((c + 2) + 2 * int j)) [0..<n]"
  proof -
    have "\<not> is_prime_64 (c + 2 * int (Suc j))" if "j < n" for j
      using Suc.prems(2) that unfolding list_all_iff by (metis Suc_less_eq atLeastLessThan_iff set_upt zero_le)
    then show ?thesis by (simp add: list_all_iff add.assoc)
  qed
  moreover have "\<not> is_prime_64 c" using Suc.prems(2) by (simp add: upt_conv_Cons del: upt_Suc)
  ultimately show ?case
    using Suc.IH [of "c + 2"] Suc.prems(1) by (subst next_odd_prime.simps) (simp add: add.assoc)
qed (simp add: next_odd_prime.simps)

text \<open>The first candidate that passes is found, and it is at most the next prime.\<close>

lemma next_odd_prime_ends:
  assumes "odd c" "2 < c"
  shows "\<exists>q. next_odd_prime c = Some q \<and> c \<le> q \<and> q \<le> next_prime_from c \<and> is_prime_64 q
    \<and> (\<forall>v. c \<le> v \<and> v < q \<and> odd v \<longrightarrow> \<not> is_prime_64 v)"
proof -
  have np: "c \<le> next_prime_from c" "is_prime (next_prime_from c)" using next_prime_from_spec [of c] by auto
  have pr: "prime_number (next_prime_from c)" using np(2) by (simp add: is_prime_iff)
  then have "odd (next_prime_from c)" using np(1) assms(2) by (auto simp: prime_number_def)
  then have "even (next_prime_from c - c)" using assms(1) by simp
  then obtain k where "next_prime_from c - c = 2 * k" by (rule dvdE)
  then have k: "next_prime_from c = c + 2 * k" by simp
  define P where "P n = is_prime_64 (c + 2 * int n)" for n
  have Pk: "P (nat k)" using prime_passes [OF pr] np(1) k by (simp add: P_def)
  define n where "n = (LEAST n. P n)"
  have n: "P n" "n \<le> nat k" "\<And>j. j < n \<Longrightarrow> \<not> P j"
    unfolding n_def by (rule LeastI [of P, OF Pk]) (rule Least_le [of P, OF Pk], rule not_less_Least)
  have "next_odd_prime c = Some (c + 2 * int n)"
    by (rule next_odd_primeI) (use n(1,3) in \<open>simp_all add: P_def list_all_iff\<close>)
  moreover have "\<not> is_prime_64 v" if v: "c \<le> v" "v < c + 2 * int n" "odd v" for v
  proof -
    have "even (v - c)" using v(3) assms(1) by simp
    then obtain j where "v - c = 2 * j" by (rule dvdE)
    then have "v = c + 2 * j" by simp
    then show ?thesis using v n(3) [of "nat j"] by (simp add: P_def)
  qed
  ultimately show ?thesis using n(1,2) np(1) k by (intro exI [of _ "c + 2 * int n"]) (auto simp: P_def)
qed

lemma next_prime_from_mono: "p \<le> q \<Longrightarrow> next_prime_from p \<le> next_prime_from q"
  using next_prime_from_spec [of p] next_prime_from_spec [of q] by (meson linorder_not_le order_trans)

lemma next_prime_two: "p \<le> 2 \<Longrightarrow> next_prime_from p = 2"
  by (rule next_prime_from_eqI) (auto simp: is_prime_iff prime_number_def)

section \<open>The primes of the default table\<close>

text \<open>Each search as its first candidate above 20000000 and the number of candidates it rejects.\<close>

definition table_steps :: "(int \<times> nat) list" where
  "table_steps = [(1, 1), (5, 9), (25, 4), (35, 6), (49, 5), (61, 1), (65, 2), (71, 3), (79, 1), (83, 5), (95, 6), (109, 19), (149, 2), (155, 2), (161, 0), (163, 4)]"

lemma table_rejected:
  "list_all (\<lambda>(k, n). list_all (\<lambda>j. \<not> is_prime_64 (20000000 + (k + 2 * int j))) [0..<n]) table_steps"
  by code_simp

lemma table_accepted: "list_all (\<lambda>(k, n). k + 2 * int n \<in> set table_gaps) table_steps"
  by code_simp

lemma next_odd_step: "(k, n) \<in> set table_steps \<Longrightarrow> next_odd_prime (20000000 + k) = Some (20000000 + (k + 2 * int n))"
proof -
  assume kn: "(k, n) \<in> set table_steps"
  then have "k + 2 * int n \<in> set table_gaps" using table_accepted by (auto simp: list_all_iff)
  then have "is_prime_64 (20000000 + (k + 2 * int n))" using prime_passes table_candidate_prime by (simp add: is_prime_iff)
  moreover have "list_all (\<lambda>j. \<not> is_prime_64 (20000000 + (k + 2 * int j))) [0..<n]"
    using table_rejected kn by (fastforce simp: list_all_iff)
  ultimately show ?thesis using next_odd_primeI [of "20000000 + k" n] by (simp add: add.assoc)
qed

lemma next_odd_table:
    "next_odd_prime 20000001 = Some 20000003"
    "next_odd_prime 20000005 = Some 20000023"
    "next_odd_prime 20000025 = Some 20000033"
    "next_odd_prime 20000035 = Some 20000047"
    "next_odd_prime 20000049 = Some 20000059"
    "next_odd_prime 20000061 = Some 20000063"
    "next_odd_prime 20000065 = Some 20000069"
    "next_odd_prime 20000071 = Some 20000077"
    "next_odd_prime 20000079 = Some 20000081"
    "next_odd_prime 20000083 = Some 20000093"
    "next_odd_prime 20000095 = Some 20000107"
    "next_odd_prime 20000109 = Some 20000147"
    "next_odd_prime 20000149 = Some 20000153"
    "next_odd_prime 20000155 = Some 20000159"
    "next_odd_prime 20000161 = Some 20000161"
    "next_odd_prime 20000163 = Some 20000171"
  subgoal using next_odd_step [of 1 1] by (simp add: table_steps_def)
  subgoal using next_odd_step [of 5 9] by (simp add: table_steps_def)
  subgoal using next_odd_step [of 25 4] by (simp add: table_steps_def)
  subgoal using next_odd_step [of 35 6] by (simp add: table_steps_def)
  subgoal using next_odd_step [of 49 5] by (simp add: table_steps_def)
  subgoal using next_odd_step [of 61 1] by (simp add: table_steps_def)
  subgoal using next_odd_step [of 65 2] by (simp add: table_steps_def)
  subgoal using next_odd_step [of 71 3] by (simp add: table_steps_def)
  subgoal using next_odd_step [of 79 1] by (simp add: table_steps_def)
  subgoal using next_odd_step [of 83 5] by (simp add: table_steps_def)
  subgoal using next_odd_step [of 95 6] by (simp add: table_steps_def)
  subgoal using next_odd_step [of 109 19] by (simp add: table_steps_def)
  subgoal using next_odd_step [of 149 2] by (simp add: table_steps_def)
  subgoal using next_odd_step [of 155 2] by (simp add: table_steps_def)
  subgoal using next_odd_step [of 161 0] by (simp add: table_steps_def)
  subgoal using next_odd_step [of 163 4] by (simp add: table_steps_def)
  done

lemma engine_nth_prime_found:
  "\<exists>q. engine_nth_prime_after start n = Some q \<and> q \<le> nth_prime_after start n \<and> (n = 0 \<or> is_prime_64 q)"
proof (induction n)
  case (Suc n)
  then obtain p where p: "engine_nth_prime_after start n = Some p" "p \<le> nth_prime_after start n" by blast
  have up: "next_prime_from (p + 1) \<le> nth_prime_after start (Suc n)"
    unfolding nth_prime_after_Suc using p(2) by (intro next_prime_from_mono) simp
  show ?case
  proof (cases "p + 1 \<le> 2")
    case True
    have "is_prime_64 2" by (rule prime_passes) (simp add: prime_number_def)
    then show ?thesis using p(1) up True next_prime_two [OF True] by (simp del: nth_prime_after.simps)
  next
    case False
    define c where "c = (if (p + 1) mod 2 = 0 then p + 2 else p + 1)"
    have "odd c" unfolding c_def by presburger
    moreover have "2 < c" using False by (simp add: c_def)
    ultimately obtain q where q: "next_odd_prime c = Some q" "q \<le> next_prime_from c" "is_prime_64 q" using next_odd_prime_ends by blast
    have "next_prime_from c \<le> next_prime_from (p + 1)"
    proof (cases "(p + 1) mod 2 = 0")
      case True
      have np: "p + 1 \<le> next_prime_from (p + 1)" "is_prime (next_prime_from (p + 1))" using next_prime_from_spec [of "p + 1"] by auto
      moreover have "\<not> is_prime (p + 1)"
        using True False by (auto simp: is_prime_iff prime_number_def even_iff_mod_2_eq_zero)
      ultimately have "p + 2 \<le> next_prime_from (p + 1)" by (cases "next_prime_from (p + 1) = p + 1") auto
      then have "c \<le> next_prime_from (p + 1)" using True by (simp add: c_def)
      then show ?thesis using next_prime_from_spec [of c] np(2) by (meson linorder_not_le)
    qed (simp add: c_def)
    then have "q \<le> nth_prime_after start (Suc n)" using q(2) up by linarith
    then show ?thesis using p(1) False q(1,3) by (auto simp: c_def Let_def add.assoc simp del: nth_prime_after.simps split: if_splits)
  qed
qed simp

lemma engine_nth_prime_Some: "\<exists>q. engine_nth_prime_after start n = Some q"
  using engine_nth_prime_found [of start n] by blast

section \<open>Properties\<close>

text \<open>
  C37: the prime search of the engine ends from every start and for every count, although its test is only known to accept
  every prime: the number it returns passes the test and is at most the prime the reference returns.
\<close>

theorem engine_search_ends:
  "\<exists>q. engine_nth_prime_after start n = Some q \<and> q \<le> nth_prime_after start n \<and> (n = 0 \<or> is_prime_64 q)"
  by (rule engine_nth_prime_found)

end
