(* ===== verification/EngineIds.thy ===== *)
theory EngineIds
  imports RefHash EnginePrimes
begin

text \<open>
  The n-gram addressing of the serving engine: \<open>Qwen4ExpNGramEmbedding\<close> of
  \<open>research/vllm_ngram_embedding_main.py\<close>, its constructor up to the embedding weights and \<open>compute_ngram_ids\<close> on the CPU.
  A 64-bit integer of torch is an \<open>int\<close> that wraps at \<open>i64\<close>; a tensor of two dimensions is a list of rows.  A prime
  search that never ends is \<open>None\<close>.  The lemmas show that a packed batch of requests gets, for each request, the rows of
  \<open>ple_rowids\<close> in its context, for every configuration.
\<close>

unbundle bit_operations_syntax

section \<open>Constants of a layer\<close>

definition SPLITMIX_GAMMA :: int where "SPLITMIX_GAMMA = 0x9E3779B97F4A7C15"
definition SPLITMIX_M1 :: int where "SPLITMIX_M1 = 0xBF58476D1CE4E5B9"
definition SPLITMIX_M2 :: int where "SPLITMIX_M2 = 0x94D049BB133111EB"
definition PLE_LAYER_PRIME :: int where "PLE_LAYER_PRIME = 10007"

definition mask64 :: "int \<Rightarrow> int" where "mask64 x = x AND (2 ^ 64 - 1)"

definition splitmix64 :: "int \<Rightarrow> int" where
  "splitmix64 value =
     (let value = mask64 (value + SPLITMIX_GAMMA);
          value = mask64 ((value XOR drop_bit 30 value) * SPLITMIX_M1);
          value = mask64 ((value XOR drop_bit 27 value) * SPLITMIX_M2)
      in mask64 (value XOR drop_bit 31 value))"

definition make_layer_multipliers :: "nat \<Rightarrow> int \<Rightarrow> int \<Rightarrow> int \<Rightarrow> int list res" where
  "make_layer_multipliers ngram_size unigram_vocab_size seed ple_dense_layer_id =
     rbind (py_div (2 ^ 63 - 1) unigram_vocab_size) (\<lambda>max_multiplier.
       let half_bound = max 1 (max_multiplier div 2);
           base_seed = seed + PLE_LAYER_PRIME * ple_dense_layer_id
       in Inr (map (\<lambda>index. 2 * (splitmix64 (base_seed + SPLITMIX_GAMMA * (int index + 1)) mod half_bound) + 1) [0..<ngram_size]))"

fun layout_loop :: "int \<Rightarrow> int \<Rightarrow> nat list \<Rightarrow> int \<Rightarrow> (int list \<times> int list \<times> int) option" where
  "layout_loop base first_head [] offset = Some ([], [], offset)"
| "layout_loop base first_head (local_head # heads) offset =
     Option.bind (engine_nth_prime_after (base - 1) (nat (first_head + int local_head + 1))) (\<lambda>size.
       map_option (\<lambda>(sizes, offsets, total). (size # sizes, offset # offsets, total))
         (layout_loop base first_head heads (offset + size)))"

definition make_vocab_layout :: "int \<Rightarrow> nat \<Rightarrow> int \<Rightarrow> (int list \<times> int list \<times> int) option" where
  "make_vocab_layout ngram_vocab_size_base ngram_heads ple_dense_layer_id =
     layout_loop ngram_vocab_size_base (ple_dense_layer_id * int ngram_heads) [0..<ngram_heads] 0"

section \<open>The constructor\<close>

record engine_config =
  ec_ngram_size :: int
  ec_heads_per_ngram :: int
  ec_eos_token_id :: int
  ec_vocab_size :: int
  ec_split_ngram_parts :: "int option"
  ec_seed :: "int option"
  ec_ngram_vocab_size_base :: int
  ec_divisor :: int

record engine =
  ne_ngram_size :: nat
  ne_heads_per_ngram :: nat
  ne_eos :: int
  ne_multipliers :: "int list"
  ne_sizes :: "int list"
  ne_offsets :: "int list"
  ne_padded_rows :: int

text \<open>
  \<open>int(getattr(config, name, default))\<close>: the default is taken only when the attribute is absent, so a present 0 stays 0.
\<close>

definition getattr_int :: "int option \<Rightarrow> int \<Rightarrow> int" where
  "getattr_int attr absent = (case attr of None \<Rightarrow> absent | Some v \<Rightarrow> v)"

text \<open>\<open>torch.tensor(xs, dtype=torch.long)\<close>.\<close>

definition torch_long :: "int list \<Rightarrow> int list res" where
  "torch_long xs = (if list_all (\<lambda>x. - (2 ^ 63) \<le> x \<and> x < 2 ^ 63) xs then Inr xs else Inl RuntimeError)"

definition engine_init :: "engine_config \<Rightarrow> int \<Rightarrow> int \<Rightarrow> engine res option" where
  "engine_init c embedding_dim ple_dense_layer_id =
     (let ngram_heads = (ec_ngram_size c - 1) * ec_heads_per_ngram c
      in if ec_ngram_size c < 2 then Some (Inl ValueError)
         else if ec_heads_per_ngram c \<le> 0 then Some (Inl ValueError)
         else if embedding_dim mod ngram_heads \<noteq> 0 then Some (Inl ValueError)
         else if getattr_int (ec_split_ngram_parts c) 512 \<le> 0 then Some (Inl ValueError)
         else case rbind (make_layer_multipliers (nat (ec_ngram_size c)) (ec_vocab_size c) (getattr_int (ec_seed c) 1234) ple_dense_layer_id)
                torch_long of
                Inl e \<Rightarrow> Some (Inl e)
              | Inr multipliers \<Rightarrow>
                  map_option (\<lambda>(sizes, offsets, total).
                    rbind (torch_long sizes) (\<lambda>sizes. rbind (torch_long offsets) (\<lambda>offsets.
                    rbind (py_div (total + ec_divisor c - 1) (ec_divisor c)) (\<lambda>q.
                      Inr \<lparr>ne_ngram_size = nat (ec_ngram_size c), ne_heads_per_ngram = nat (ec_heads_per_ngram c),
                        ne_eos = ec_eos_token_id c, ne_multipliers = multipliers, ne_sizes = sizes, ne_offsets = offsets,
                        ne_padded_rows = q * ec_divisor c\<rparr>))))
                    (make_vocab_layout (ec_ngram_vocab_size_base c) (nat ngram_heads) ple_dense_layer_id))"

section \<open>The row ids of a batch\<close>

definition i64 :: "int \<Rightarrow> int" where "i64 x = signed_take_bit 63 x"

definition shift_precompute :: "int list \<Rightarrow> int \<Rightarrow> int list" where
  "shift_precompute tokens eos =
     (let positions = map int [0..<length tokens];
          eos_positions = map2 (\<lambda>x p. if x = eos then p else -1) tokens positions;
          previous_eos_inclusive = (case eos_positions of [] \<Rightarrow> [] | x # xs \<Rightarrow> x # np_max_accumulate x xs);
          previous_eos = -1 # butlast previous_eos_inclusive
      in map2 (\<lambda>p q. p - q - 1) positions previous_eos)"

definition shift_apply :: "int list \<Rightarrow> int list \<Rightarrow> nat \<Rightarrow> int \<Rightarrow> int list" where
  "shift_apply tokens position_in_segment shift eos =
     (if shift = 0 then tokens
      else let source = map (\<lambda>p. int p - int shift) [0..<length tokens];
               shifted = map (\<lambda>p. tokens ! nat (max 0 p)) source
           in map2 (\<lambda>(s, p) x. if 0 \<le> s \<and> int shift \<le> p then x else eos) (zip source position_in_segment) shifted)"

text \<open>Indexing a tensor: a negative index counts from the end.\<close>

definition tensor_position :: "nat \<Rightarrow> int \<Rightarrow> nat res" where
  "tensor_position n i =
     (if 0 \<le> i \<and> i < int n then Inr (nat i)
      else if - int n \<le> i \<and> i < 0 then Inr (nat (int n + i))
      else Inl IndexError)"

text \<open>\<open>searchsorted(query_start_loc, positions, right=True) - 1\<close> on sorted starts, clamped from above.\<close>

definition request_index :: "int list \<Rightarrow> int \<Rightarrow> int" where
  "request_index query_start_loc t =
     min (int (length (filter (\<lambda>x. x \<le> t) query_start_loc)) - 1) (int (length query_start_loc) - 1 - 1)"

definition token_cell :: "int list \<Rightarrow> nat \<Rightarrow> nat \<Rightarrow> (int \<times> nat) res" where
  "token_cell query_start_loc num_tokens t =
     (let r = request_index query_start_loc (int t)
      in rbind (tensor_position (length query_start_loc) r) (\<lambda>i.
           Inr (r, nat (min (max 0 (int t - query_start_loc ! i)) (int num_tokens - 1)))))"

definition put_cell :: "(int \<times> nat) \<times> int \<Rightarrow> int list list \<Rightarrow> int list list res" where
  "put_cell cell packed =
     (let ((r, c), x) = cell
      in rbind (tensor_position (length packed) r) (\<lambda>i.
           if c < length (packed ! i) then Inr (packed[i := (packed ! i)[c := x]]) else Inl IndexError))"

text \<open>One entry of a block of ids, at the row and the column of a token.\<close>

definition mixed_at :: "int list \<Rightarrow> int list list list \<Rightarrow> nat \<Rightarrow> nat \<Rightarrow> nat \<Rightarrow> int res" where
  "mixed_at multipliers shifted i c ngram =
     rbind (py_nth multipliers 0) (\<lambda>m0.
       rfoldM (\<lambda>index mixed. rbind (py_nth multipliers index) (\<lambda>m.
           Inr (mixed XOR i64 (shifted ! index ! i ! c * m))))
         [1..<ngram] (i64 (shifted ! 0 ! i ! c * m0)))"

definition torch_remainder :: "int \<Rightarrow> int \<Rightarrow> int res" where
  "torch_remainder a b = (if b = 0 then Inl RuntimeError else Inr (a mod b))"

definition ids_at :: "engine \<Rightarrow> int list list list \<Rightarrow> nat \<Rightarrow> nat \<Rightarrow> int list res" where
  "ids_at E shifted i c =
     rmap concat (rmapM (\<lambda>ngram.
       rbind (mixed_at (ne_multipliers E) shifted i c ngram) (\<lambda>mixed.
         rmapM (\<lambda>(size, off). rmap (\<lambda>r. i64 (r + off)) (torch_remainder mixed size))
           (zip (py_slice (ngram - 2) (ne_heads_per_ngram E) (ne_sizes E))
             (py_slice (ngram - 2) (ne_heads_per_ngram E) (ne_offsets E)))))
       [2..<ne_ngram_size E + 1])"

definition compute_ngram_ids :: "engine \<Rightarrow> int list \<Rightarrow> int list \<Rightarrow> int list list \<Rightarrow> int list list res" where
  "compute_ngram_ids E input_ids query_start_loc ngram_context =
     (let num_reqs = length query_start_loc - 1; num_tokens = length input_ids; eos = ne_eos E
      in if query_start_loc = [] then Inl RuntimeError
         else rbind (rmapM (token_cell query_start_loc num_tokens) [0..<num_tokens]) (\<lambda>cells.
           rbind (rfoldM put_cell (zip cells input_ids) (replicate num_reqs (replicate num_tokens eos))) (\<lambda>packed.
             if length ngram_context < num_reqs then Inl RuntimeError
             else let context = map2 (@) (take num_reqs ngram_context) packed;
                      segments = map (\<lambda>row. shift_precompute row eos) context;
                      shifted = context # map (\<lambda>shift. map2 (\<lambda>row seg. shift_apply row seg shift eos) context segments)
                        [1..<ne_ngram_size E]
               in rmapM (\<lambda>(r, c).
                    rbind (tensor_position num_reqs r) (\<lambda>i.
                      let adjusted = c + ne_ngram_size E - 1
                      in if adjusted < length (context ! i) then ids_at E shifted i adjusted else Inl IndexError)) cells)))"

section \<open>The shift is the segmented shift\<close>

lemma length_shift_precompute [simp]: "length (shift_precompute tokens eos) = length tokens"
  unfolding shift_precompute_def Let_def ref_prev_incl
  by (cases tokens) (auto simp: Let_def dest: arg_cong [where f = length])

lemma shift_precompute_nth:
  assumes "i < length tokens"
  shows "shift_precompute tokens eos ! i
    = int i - (if i = 0 then 0 else prev_incl_loop eos 0 (-1) tokens ! (i - 1) + 1)"
  unfolding shift_precompute_def Let_def ref_prev_incl using assms
  by (cases i) (simp_all add: nth_butlast)

lemma shift_apply_eq: "shift_apply tokens (shift_precompute tokens eos) shift eos = shift_right_ignore_eos tokens shift eos"
proof (cases "shift = 0")
  case False
  show ?thesis
    unfolding shift_apply_def shift_right_ignore_eos_def Let_def using False
    by (auto intro!: nth_equalityI simp: shift_precompute_nth)
qed (simp add: shift_apply_def shift_right_ignore_eos_def)

section \<open>A packed batch\<close>

text \<open>Where the tokens of a request start, and the boundaries the scheduler gives.\<close>

definition start_of :: "int list list \<Rightarrow> nat \<Rightarrow> nat" where
  "start_of ts i = length (concat (take i ts))"

definition query_starts :: "int list list \<Rightarrow> int list" where
  "query_starts ts = map (\<lambda>i. int (start_of ts i)) [0..<length ts + 1]"

lemma start_of_0 [simp]: "start_of ts 0 = 0"
  by (simp add: start_of_def)

lemma start_of_Suc: "i < length ts \<Longrightarrow> start_of ts (Suc i) = start_of ts i + length (ts ! i)"
  by (simp add: start_of_def take_Suc_conv_app_nth)

lemma start_of_mono: "i \<le> j \<Longrightarrow> start_of ts i \<le> start_of ts j"
proof -
  assume "i \<le> j"
  then have "take j ts = take i ts @ take (j - i) (drop i ts)" using take_add [of i "j - i" ts] by simp
  then show ?thesis by (simp add: start_of_def)
qed

lemma start_of_append: "i \<le> length ts \<Longrightarrow> start_of (ts @ us) i = start_of ts i"
  by (simp add: start_of_def)

lemma tokens_by_request:
  "[0..<length (concat ts)] = concat (map (\<lambda>i. map (\<lambda>j. start_of ts i + j) [0..<length (ts ! i)]) [0..<length ts])"
proof (induction ts rule: rev_induct)
  case (snoc t ts)
  let ?f = "\<lambda>ts i. map (\<lambda>j. start_of ts i + j) [0..<length (ts ! i)]"
  have e1: "map (?f (ts @ [t])) [0..<length ts] = map (?f ts) [0..<length ts]"
    by (intro map_cong) (auto simp: start_of_append nth_append)
  have e2: "?f (ts @ [t]) (length ts) = [length (concat ts)..<length (concat ts) + length t]"
    using map_add_upt [of "length (concat ts)" "length t"] by (simp add: start_of_def add.commute del: upt_Suc)
  have e3: "map (?f (ts @ [t])) [0..<length (ts @ [t])] = map (?f (ts @ [t])) [0..<length ts] @ [?f (ts @ [t]) (length ts)]"
    by simp
  have "[0..<length (concat (ts @ [t]))] = [0..<length (concat ts)] @ [length (concat ts)..<length (concat ts) + length t]"
    using upt_add_eq_append [of 0 "length (concat ts)" "length t"] by simp
  then show ?case unfolding e3 e1 e2 concat_append snoc by simp
qed simp

lemma request_index_start:
  assumes "i < length ts" "j < length (ts ! i)"
  shows "request_index (query_starts ts) (int (start_of ts i + j)) = int i"
proof -
  have "filter (\<lambda>k. int (start_of ts k) \<le> int (start_of ts i + j)) [0..<length ts + 1] = [0..<i + 1]"
  proof -
    have le: "start_of ts k \<le> start_of ts i + j \<longleftrightarrow> k < i + 1" if "k < length ts + 1" for k
    proof
      assume a: "start_of ts k \<le> start_of ts i + j"
      show "k < i + 1"
      proof (rule ccontr)
        assume "\<not> k < i + 1"
        then have "start_of ts (Suc i) \<le> start_of ts k" by (intro start_of_mono) simp
        then show False using a start_of_Suc [OF assms(1)] assms(2) by simp
      qed
    next
      assume "k < i + 1"
      then show "start_of ts k \<le> start_of ts i + j" using start_of_mono [of k i ts] by simp
    qed
    have "[0..<length ts + 1] = [0..<i + 1] @ [i + 1..<length ts + 1]"
      using assms(1) upt_add_eq_append [of 0 "i + 1" "length ts - i"] by (simp del: upt_Suc)
    moreover have "filter (\<lambda>k. int (start_of ts k) \<le> int (start_of ts i + j)) [0..<i + 1] = [0..<i + 1]"
      using le assms(1) unfolding filter_id_conv of_nat_le_iff by simp
    moreover have "filter (\<lambda>k. int (start_of ts k) \<le> int (start_of ts i + j)) [i + 1..<length ts + 1] = []"
      using le unfolding filter_empty_conv of_nat_le_iff by (simp del: upt_Suc)
    ultimately show ?thesis by (simp only: filter_append append_Nil2)
  qed
  then have "length (filter (\<lambda>x. x \<le> int (start_of ts i + j)) (query_starts ts)) = i + 1"
    by (simp add: query_starts_def filter_map comp_def del: upt_Suc)
  then show ?thesis using assms(1) by (simp add: request_index_def query_starts_def)
qed

lemma token_cell_start:
  assumes "i < length ts" "j < length (ts ! i)"
  shows "token_cell (query_starts ts) (length (concat ts)) (start_of ts i + j) = Inr (int i, j)"
proof -
  have "start_of ts i + length (ts ! i) \<le> length (concat ts)"
    using start_of_Suc [OF assms(1)] start_of_mono [of "Suc i" "length ts" ts] assms(1)
    by (simp add: start_of_def)
  moreover have "query_starts ts ! i = int (start_of ts i)" "i < length (query_starts ts)"
    using assms(1) by (simp_all add: query_starts_def del: upt_Suc)
  ultimately show ?thesis
    using assms by (simp add: token_cell_def request_index_start [OF assms, unfolded of_nat_add] tensor_position_def)
qed

definition cells_of :: "int list list \<Rightarrow> (int \<times> nat) list" where
  "cells_of ts = concat (map (\<lambda>i. map (\<lambda>j. (int i, j)) [0..<length (ts ! i)]) [0..<length ts])"

lemma cells_of_in: "(r, c) \<in> set (cells_of ts) \<longleftrightarrow> (\<exists>i < length ts. r = int i \<and> c < length (ts ! i))"
  by (force simp: cells_of_def)

lemma token_cells: "rmapM (token_cell (query_starts ts) (length (concat ts))) [0..<length (concat ts)] = Inr (cells_of ts)"
proof -
  have "rmapM f (concat (map (\<lambda>i. map (g i) (js i)) is)) = Inr (concat (map (\<lambda>i. map (h i) (js i)) is))"
    if "\<And>i j. i \<in> set is \<Longrightarrow> j \<in> set (js i) \<Longrightarrow> f (g i j) = Inr (h i j)"
    for f :: "nat \<Rightarrow> (int \<times> nat) res" and g h js and "is" :: "nat list"
    using that
  proof (induction "is")
    case (Cons i "is")
    have "rmapM f (map (g i) (js i)) = Inr (map (h i) (js i))"
      using rmapM_Inr [of "map (g i) (js i)" f "\<lambda>x. projr (f x)"] Cons.prems by (force simp: comp_def)
    then show ?case using Cons by (simp add: rmapM_append)
  qed simp
  note step = this
  show ?thesis
    unfolding tokens_by_request cells_of_def by (rule step) (simp add: token_cell_start)
qed

lemma cells_tokens: "zip (cells_of ts) (concat ts) = map (\<lambda>(r, c). ((r, c), ts ! nat r ! c)) (cells_of ts)"
proof -
  have "zip (concat (map (\<lambda>i. map (\<lambda>j. (int i, j)) [0..<length (ts ! i)]) is)) (concat (map ((!) ts) is))
      = map (\<lambda>(r, c). ((r, c), ts ! nat r ! c)) (concat (map (\<lambda>i. map (\<lambda>j. (int i, j)) [0..<length (ts ! i)]) is))" for "is"
  proof (induction "is")
    case (Cons i "is")
    have "zip (map (\<lambda>j. (int i, j)) [0..<length (ts ! i)]) (ts ! i)
        = map (\<lambda>(r, c). ((r, c), ts ! nat r ! c)) (map (\<lambda>j. (int i, j)) [0..<length (ts ! i)])"
      by (intro nth_equalityI) simp_all
    then show ?case using Cons by (simp add: zip_append)
  qed simp
  from this [of "[0..<length ts]"] show ?thesis by (simp add: cells_of_def map_nth)
qed

text \<open>Writing the tokens into their cells fills each row with its request, padded on the right.\<close>

lemma put_cells:
  assumes "\<forall>(r, c) \<in> set cs. 0 \<le> r \<and> nat r < length packed \<and> c < N" "\<forall>row \<in> set packed. length row = N"
  shows "\<exists>packed'. rfoldM put_cell (map (\<lambda>(r, c). ((r, c), val (nat r) c)) cs) packed = Inr packed'
    \<and> length packed' = length packed \<and> (\<forall>row \<in> set packed'. length row = N)
    \<and> (\<forall>i < length packed. \<forall>c < N. packed' ! i ! c = (if (int i, c) \<in> set cs then val i c else packed ! i ! c))"
  using assms
proof (induction cs arbitrary: packed)
  case (Cons cell cs)
  obtain r c where cell: "cell = (r, c)" by (cases cell)
  define p where "p = packed[nat r := (packed ! nat r)[c := val (nat r) c]]"
  have r: "0 \<le> r" "nat r < length packed" "c < N" using Cons.prems(1) cell by auto
  then have put: "put_cell ((r, c), val (nat r) c) packed = Inr p"
    using Cons.prems(2) by (simp add: put_cell_def tensor_position_def p_def)
  have p: "length p = length packed" "\<forall>row \<in> set p. length row = N"
    using Cons.prems(2) r(2) by (auto simp: p_def dest: set_update_subset_insert [THEN subsetD])
  obtain packed' where IH: "rfoldM put_cell (map (\<lambda>(r, c). ((r, c), val (nat r) c)) cs) p = Inr packed'"
      "length packed' = length packed" "\<forall>row \<in> set packed'. length row = N"
      "\<forall>i < length packed. \<forall>c < N. packed' ! i ! c = (if (int i, c) \<in> set cs then val i c else p ! i ! c)"
    using Cons.IH [of p] Cons.prems(1) p by auto
  have at: "p ! i ! d = (if (int i, d) = (r, c) then val i d else packed ! i ! d)" if "i < length packed" "d < N" for i d
    using that r Cons.prems(2) by (auto simp: p_def nth_list_update)
  show ?case using IH put at by (auto simp: cell)
qed simp

section \<open>The ids of one cell\<close>

lemma i64_small: "0 \<le> x \<Longrightarrow> x < 2 ^ 63 \<Longrightarrow> i64 x = x"
  unfolding i64_def by (rule signed_take_bit_int_eq_self) simp_all

text \<open>The constants of an engine for tokens below \<open>V\<close>: no product and no row id reaches the sign bit.\<close>

definition engine_ok :: "engine \<Rightarrow> int \<Rightarrow> bool" where
  "engine_ok E V \<longleftrightarrow>
     2 \<le> ne_ngram_size E \<and> 0 < ne_heads_per_ngram E \<and> length (ne_multipliers E) = ne_ngram_size E
     \<and> length (ne_sizes E) = (ne_ngram_size E - 1) * ne_heads_per_ngram E \<and> length (ne_offsets E) = length (ne_sizes E)
     \<and> 0 \<le> ne_eos E \<and> ne_eos E < V
     \<and> (\<forall>m \<in> set (ne_multipliers E). 0 \<le> m \<and> (\<forall>x. 0 \<le> x \<and> x < V \<longrightarrow> x * m < 2 ^ 63))
     \<and> (\<forall>h < length (ne_sizes E). 0 < ne_sizes E ! h \<and> 0 \<le> ne_offsets E ! h \<and> ne_sizes E ! h + ne_offsets E ! h \<le> 2 ^ 63)"

lemma shifted_token_range:
  "i < length hist \<Longrightarrow> \<forall>x \<in> set hist. P x \<Longrightarrow> P eos \<Longrightarrow> P (shifted_token eos hist s i)"
  by (auto simp: shifted_token_def)

lemma mixed_at_gram:
  assumes "engine_ok E V" "\<forall>x \<in> set row. 0 \<le> x \<and> x < V" "c < length row" "1 \<le> ngram" "ngram \<le> ne_ngram_size E"
    and "\<And>s. s < ne_ngram_size E \<Longrightarrow> shifted ! s ! i ! c = shifted_token (ne_eos E) row s c"
  shows "mixed_at (ne_multipliers E) shifted i c ngram = Inr (gram_hash (ne_eos E) (ne_multipliers E) row c ngram)"
proof -
  let ?ms = "ne_multipliers E" and ?x = "\<lambda>s. shifted_token (ne_eos E) row s c"
  have len: "length ?ms = ne_ngram_size E" using assms(1) by (simp add: engine_ok_def)
  have prod: "i64 (?x s * ?ms ! s) = ?x s * ?ms ! s" if "s < ne_ngram_size E" for s
  proof (rule i64_small)
    have "0 \<le> ?x s \<and> ?x s < V"
      by (rule shifted_token_range [OF assms(3,2)]) (use assms(1) in \<open>simp add: engine_ok_def\<close>)
    moreover have "?ms ! s \<in> set ?ms" using that len by simp
    ultimately show "0 \<le> ?x s * ?ms ! s" "?x s * ?ms ! s < 2 ^ 63"
      using assms(1) by (auto simp: engine_ok_def)
  qed
  have "rfoldM (\<lambda>index mixed. rbind (py_nth ?ms index) (\<lambda>m. Inr (mixed XOR i64 (shifted ! index ! i ! c * m)))) [1..<ngram] s
      = Inr (fold (\<lambda>index mixed. mixed XOR (?x index * ?ms ! index)) [1..<ngram] s)" for s
    using assms(5,6) len prod by (intro rfoldM_Inr) auto
  then show ?thesis
    using assms(4-6) len prod [of 0] by (auto simp: mixed_at_def gram_hash_def)
qed

lemma rmapM_map_pair:
  "\<forall>h \<in> set hs. f (a h) (b h) = Inr (g h) \<Longrightarrow> rmapM (\<lambda>(x, y). f x y) (map (\<lambda>h. (a h, b h)) hs) = Inr (map g hs)"
  by (induction hs) simp_all

lemma slice_as_map: "k * w + w \<le> length xs \<Longrightarrow> py_slice k w xs = map ((!) xs) [k * w..<k * w + w]"
  by (intro nth_equalityI) (simp_all add: py_slice_def)

lemma ids_at_row:
  assumes "engine_ok E V" "\<forall>x \<in> set row. 0 \<le> x \<and> x < V" "c < length row"
    and "\<And>s. s < ne_ngram_size E \<Longrightarrow> shifted ! s ! i ! c = shifted_token (ne_eos E) row s c"
  shows "ids_at E shifted i c
    = Inr (row_of (ne_eos E) (ne_multipliers E) (ne_sizes E) (ne_offsets E) (ne_ngram_size E) (ne_heads_per_ngram E) row c)"
proof -
  let ?H = "ne_heads_per_ngram E" and ?g = "gram_hash (ne_eos E) (ne_multipliers E) row c"
  have block: "rbind (mixed_at (ne_multipliers E) shifted i c ngram) (\<lambda>mixed.
         rmapM (\<lambda>(size, off). rmap (\<lambda>r. i64 (r + off)) (torch_remainder mixed size))
           (zip (py_slice (ngram - 2) ?H (ne_sizes E)) (py_slice (ngram - 2) ?H (ne_offsets E))))
      = Inr (map (\<lambda>h. ?g ngram mod ne_sizes E ! h + ne_offsets E ! h) [(ngram - 2) * ?H..<(ngram - 2) * ?H + ?H])"
    if ng: "2 \<le> ngram" "ngram \<le> ne_ngram_size E" for ngram
  proof -
    have "(ngram - 2) * ?H + ?H = (ngram - 1) * ?H" using ng(1) by (cases ngram; cases "ngram - 1") simp_all
    also have "\<dots> \<le> (ne_ngram_size E - 1) * ?H" using ng by (intro mult_right_mono) auto
    finally have le: "(ngram - 2) * ?H + ?H \<le> length (ne_sizes E)" "(ngram - 2) * ?H + ?H \<le> length (ne_offsets E)"
      using assms(1) by (simp_all add: engine_ok_def)
    have "rmap (\<lambda>r. i64 (r + ne_offsets E ! h)) (torch_remainder (?g ngram) (ne_sizes E ! h))
        = Inr (?g ngram mod ne_sizes E ! h + ne_offsets E ! h)" if "h < length (ne_sizes E)" for h
    proof -
      have "0 < ne_sizes E ! h" "0 \<le> ne_offsets E ! h" "ne_sizes E ! h + ne_offsets E ! h \<le> 2 ^ 63"
        using assms(1) that by (simp_all add: engine_ok_def)
      moreover from this have "?g ngram mod ne_sizes E ! h < ne_sizes E ! h" "0 \<le> ?g ngram mod ne_sizes E ! h" by simp_all
      ultimately show ?thesis by (simp add: torch_remainder_def i64_small)
    qed
    then have "rmapM (\<lambda>(size, off). rmap (\<lambda>r. i64 (r + off)) (torch_remainder (?g ngram) size))
          (map (\<lambda>h. (ne_sizes E ! h, ne_offsets E ! h)) [(ngram - 2) * ?H..<(ngram - 2) * ?H + ?H])
        = Inr (map (\<lambda>h. ?g ngram mod ne_sizes E ! h + ne_offsets E ! h) [(ngram - 2) * ?H..<(ngram - 2) * ?H + ?H])"
      using le(1) by (simp add: rmapM_map_pair)
    moreover have "mixed_at (ne_multipliers E) shifted i c ngram = Inr (?g ngram)"
      using ng by (intro mixed_at_gram [OF assms(1-3) _ _ assms(4)]) auto
    ultimately show ?thesis unfolding slice_as_map [OF le(1)] slice_as_map [OF le(2)] zip_map_map by (simp add: zip_same_conv_map comp_def)
  qed
  have "rmapM (\<lambda>ngram. rbind (mixed_at (ne_multipliers E) shifted i c ngram) (\<lambda>mixed.
         rmapM (\<lambda>(size, off). rmap (\<lambda>r. i64 (r + off)) (torch_remainder mixed size))
           (zip (py_slice (ngram - 2) ?H (ne_sizes E)) (py_slice (ngram - 2) ?H (ne_offsets E))))) [2..<ne_ngram_size E + 1]
    = Inr (map (\<lambda>ngram. map (\<lambda>h. ?g ngram mod ne_sizes E ! h + ne_offsets E ! h)
        [(ngram - 2) * ?H..<(ngram - 2) * ?H + ?H]) [2..<ne_ngram_size E + 1])"
    by (rule rmapM_Inr) (auto intro!: block)
  then show ?thesis by (simp only: ids_at_def row_of_def rmap_simps)
qed

section \<open>The ids of a batch\<close>

text \<open>The rows of a packed batch: for each request, those of its tokens after its context.\<close>

definition engine_rows :: "engine \<Rightarrow> int list \<Rightarrow> int list \<Rightarrow> int list list" where
  "engine_rows E = rows_after (ne_eos E) (ne_multipliers E) (ne_sizes E) (ne_offsets E) (ne_ngram_size E) (ne_heads_per_ngram E)"

lemma length_engine_rows [simp]: "length (engine_rows E ctx t) = length t"
  by (simp add: engine_rows_def)

lemma rmapM_cells:
  assumes "\<And>i j. i < length ts \<Longrightarrow> j < length (ts ! i) \<Longrightarrow> f (int i, j) = Inr (g i ! j)"
    and "\<And>i. i < length ts \<Longrightarrow> length (g i) = length (ts ! i)"
  shows "rmapM f (cells_of ts) = Inr (concat (map g [0..<length ts]))"
proof -
  have "rmapM f (concat (map (\<lambda>i. map (\<lambda>j. (int i, j)) [0..<length (ts ! i)]) is)) = Inr (concat (map g is))"
    if "\<forall>i \<in> set is. i < length ts" for "is"
    using that
  proof (induction "is")
    case (Cons i "is")
    have "rmapM f (map (\<lambda>j. (int i, j)) [0..<length (ts ! i)]) = Inr (g i)"
    proof -
      have "rmapM (\<lambda>j. f (int i, j)) [0..<length (ts ! i)] = Inr (map ((!) (g i)) [0..<length (ts ! i)])"
        by (rule rmapM_Inr) (use assms(1) Cons.prems in auto)
      moreover have "map ((!) (g i)) [0..<length (ts ! i)] = g i"
        using assms(2) [of i] Cons.prems map_nth [of "g i"] by simp
      moreover have "rmapM f (map h xs) = rmapM (\<lambda>x. f (h x)) xs" for h :: "nat \<Rightarrow> int \<times> nat" and xs
        by (induction xs) (simp_all split: sum.split)
      ultimately show ?thesis by simp
    qed
    then show ?case using Cons by (simp add: rmapM_append)
  qed simp
  then show ?thesis by (simp add: cells_of_def)
qed

lemma compute_ids_requests:
  assumes ok: "engine_ok E V" and len: "length ctxs = length ts"
    and ctx: "\<And>i. i < length ts \<Longrightarrow> length (ctxs ! i) = ne_ngram_size E - 1"
    and small: "\<forall>t \<in> set (ctxs @ ts). \<forall>x \<in> set t. 0 \<le> x \<and> x < V"
  shows "compute_ngram_ids E (concat ts) (query_starts ts) ctxs
    = Inr (concat (map (\<lambda>i. engine_rows E (ctxs ! i) (ts ! i)) [0..<length ts]))"
proof -
  let ?N = "length (concat ts)" and ?R = "length ts" and ?e = "ne_eos E"
  have nR: "length (query_starts ts) - 1 = ?R" "query_starts ts \<noteq> []" by (simp_all add: query_starts_def)
  have le: "length (ts ! i) \<le> ?N" if "i < ?R" for i
    using that start_of_Suc [OF that] start_of_mono [of "Suc i" ?R ts] by (simp add: start_of_def)
  have "\<forall>(r, c) \<in> set (cells_of ts). 0 \<le> r \<and> nat r < length (replicate ?R (replicate ?N ?e)) \<and> c < ?N"
    by (auto simp: cells_of_in intro: order_less_le_trans [OF _ le])
  from put_cells [OF this, of "\<lambda>i c. ts ! i ! c"]
  obtain packed where packed: "rfoldM put_cell (zip (cells_of ts) (concat ts)) (replicate ?R (replicate ?N ?e)) = Inr packed"
      "length packed = ?R" "\<forall>row \<in> set packed. length row = ?N"
      "\<forall>i < ?R. \<forall>c < ?N. packed ! i ! c = (if (int i, c) \<in> set (cells_of ts) then ts ! i ! c else ?e)"
    by (auto simp: cells_tokens)
  have row: "packed ! i = ts ! i @ replicate (?N - length (ts ! i)) ?e" if "i < ?R" for i
    using packed(2-4) that le [OF that] by (intro nth_equalityI) (auto simp: cells_of_in nth_append)
  define cx where "cx = map2 (@) ctxs packed"
  define shifted where "shifted = cx # map (\<lambda>shift. map2 (\<lambda>row seg. shift_apply row seg shift ?e) cx
      (map (\<lambda>row. shift_precompute row ?e) cx)) [1..<ne_ngram_size E]"
  have lc: "length cx = ?R" using len packed(2) by (simp add: cx_def)
  have ci: "cx ! i = ctxs ! i @ ts ! i @ replicate (?N - length (ts ! i)) ?e" if "i < ?R" for i
    using that len packed(2) by (simp add: cx_def row)
  have sh: "shifted ! s ! i = shift_right_ignore_eos (cx ! i) s ?e" if "s < ne_ngram_size E" "i < ?R" for s i
  proof (cases s)
    case 0
    then show ?thesis by (simp add: shifted_def shift_right_ignore_eos_def)
  next
    case (Suc k)
    then show ?thesis using that lc by (simp add: shifted_def shift_apply_eq)
  qed
  have n: "2 \<le> ne_ngram_size E" "0 \<le> ?e" "?e < V" using ok by (simp_all add: engine_ok_def)
  have cell: "ids_at E shifted i (j + ne_ngram_size E - 1) = Inr (engine_rows E (ctxs ! i) (ts ! i) ! j)"
      "j + ne_ngram_size E - 1 < length (cx ! i)" if ij: "i < ?R" "j < length (ts ! i)" for i j
  proof -
    have col: "j + ne_ngram_size E - 1 = length (ctxs ! i) + j" using ctx [OF ij(1)] n by simp
    then have c: "j + ne_ngram_size E - 1 < length (ctxs ! i @ ts ! i)" using ij(2) by simp
    then show lt: "j + ne_ngram_size E - 1 < length (cx ! i)" using ci [OF ij(1)] by simp
    have "\<forall>x \<in> set (cx ! i). 0 \<le> x \<and> x < V"
      using small n(2,3) ij(1) len unfolding ci [OF ij(1)] by (auto simp: nth_mem)
    then have "ids_at E shifted i (j + ne_ngram_size E - 1) = Inr (row_of ?e (ne_multipliers E) (ne_sizes E) (ne_offsets E)
        (ne_ngram_size E) (ne_heads_per_ngram E) (cx ! i) (j + ne_ngram_size E - 1))"
      using lt ij(1) by (intro ids_at_row [OF ok]) (simp_all add: sh shift_right_ignore_eos_closed)
    also have "row_of ?e (ne_multipliers E) (ne_sizes E) (ne_offsets E) (ne_ngram_size E) (ne_heads_per_ngram E) (cx ! i)
        (j + ne_ngram_size E - 1) = engine_rows E (ctxs ! i) (ts ! i) ! j"
      unfolding ci [OF ij(1)] append_assoc [symmetric] col row_of_drop_suffix [OF c [unfolded col]]
      using ij(2) by (simp add: engine_rows_def rows_after_def)
    finally show "ids_at E shifted i (j + ne_ngram_size E - 1) = Inr (engine_rows E (ctxs ! i) (ts ! i) ! j)" .
  qed
  have "rmapM (\<lambda>(r, c). rbind (tensor_position ?R r) (\<lambda>i. let adjusted = c + ne_ngram_size E - 1
        in if adjusted < length (cx ! i) then ids_at E shifted i adjusted else Inl IndexError)) (cells_of ts)
      = Inr (concat (map (\<lambda>i. engine_rows E (ctxs ! i) (ts ! i)) [0..<?R]))"
    by (rule rmapM_cells) (simp_all add: tensor_position_def cell [unfolded One_nat_def] Let_def)
  from this [unfolded shifted_def cx_def] show ?thesis
    using nR len by (simp add: compute_ngram_ids_def token_cells packed(1) Let_def cong: if_cong)
qed

section \<open>What the constructor gives\<close>

lemma next_odd_prime_Some: "next_odd_prime c = Some p \<Longrightarrow> is_prime_64 p"
proof (rule next_odd_prime.raw_induct [of "\<lambda>c p. is_prime_64 p"])
  fix next_odd_prime :: "int \<Rightarrow> int option" and candidate y
  assume "\<And>c p. next_odd_prime c = Some p \<Longrightarrow> is_prime_64 p"
    "(if is_prime_64 candidate then Some candidate else next_odd_prime (candidate + 2)) = Some y"
  then show "is_prime_64 y" by (auto split: if_splits)
qed

lemma is_prime_64_ge: "is_prime_64 p \<Longrightarrow> 2 \<le> p"
  by (auto simp: is_prime_64_def split: if_splits)

lemma engine_nth_prime_ge: "engine_nth_prime_after start n = Some p \<Longrightarrow> 0 < n \<Longrightarrow> 2 \<le> p"
  by (cases n) (auto simp: bind_eq_Some_conv Let_def split: if_splits dest!: next_odd_prime_Some is_prime_64_ge)

lemma layout_loop_bounds:
  "layout_loop base first hs off = Some (sizes, offsets, tot) \<Longrightarrow> 0 \<le> first \<Longrightarrow>
    length sizes = length hs \<and> length offsets = length hs \<and> off \<le> tot
    \<and> (\<forall>h < length hs. 2 \<le> sizes ! h \<and> off \<le> offsets ! h \<and> sizes ! h + offsets ! h \<le> tot)"
proof (induction hs arbitrary: off sizes offsets tot)
  case (Cons l hs)
  obtain size sizes' offsets' where s: "engine_nth_prime_after (base - 1) (nat (first + int l + 1)) = Some size"
      "layout_loop base first hs (off + size) = Some (sizes', offsets', tot)" "sizes = size # sizes'" "offsets = off # offsets'"
    using Cons.prems(1) by (auto simp: bind_eq_Some_conv)
  have "2 \<le> size" using engine_nth_prime_ge [OF s(1)] Cons.prems(2) by simp
  then show ?case using Cons.IH [OF s(2) Cons.prems(2)] by (auto simp: s(3,4) nth_Cons split: nat.split)
qed simp

lemma layer_multipliers_bound:
  assumes "make_layer_multipliers n V seed layer = Inr ms" "0 < V" "V \<le> 2 ^ 63" "m \<in> set ms"
  shows "0 \<le> m \<and> (\<forall>x. 0 \<le> x \<and> x < V \<longrightarrow> x * m < 2 ^ 63)"
proof -
  define M where "M = (2 ^ 63 - 1) div V"
  obtain k where m: "m = 2 * (k mod max 1 (M div 2)) + 1"
    using assms(1,2,4) by (auto simp: make_layer_multipliers_def py_div_def M_def Let_def)
  have k: "0 \<le> k mod max 1 (M div 2)" "k mod max 1 (M div 2) < max 1 (M div 2)" by simp_all
  have "x * m < 2 ^ 63" if x: "0 \<le> x" "x < V" for x
  proof (cases "2 \<le> M")
    case True
    then have "max 1 (M div 2) = M div 2" by (simp add: max_def)
    then have "m \<le> M" using k(2) m by linarith
    then have "x * m \<le> V * M" using x k(1) m by (intro mult_mono) auto
    also have "V * M \<le> 2 ^ 63 - 1"
      using mult_div_mod_eq [of V "2 ^ 63 - 1 :: int"] pos_mod_sign [of V "2 ^ 63 - 1"] assms(2) unfolding M_def by linarith
    finally show ?thesis by simp
  next
    case False
    then have "m = 1" using m k by (simp add: max_def split: if_splits)
    then show ?thesis using x assms(3) by simp
  qed
  then show ?thesis using m k(1) by simp
qed

lemma engine_init_ok:
  assumes "engine_init c edim layer = Some (Inr E)" "0 \<le> layer" "0 < ec_divisor c" "ne_padded_rows E \<le> 2 ^ 63"
    and "0 \<le> ec_eos_token_id c" "ec_eos_token_id c < ec_vocab_size c" "ec_vocab_size c \<le> 2 ^ 63"
  shows "engine_ok E (ec_vocab_size c)"
proof -
  let ?n = "nat (ec_ngram_size c)" and ?H = "nat (ec_heads_per_ngram c)"
  have ok: "2 \<le> ec_ngram_size c" "0 < ec_heads_per_ngram c"
    using assms(1) by (auto simp: engine_init_def Let_def split: if_splits)
  obtain ms sizes offsets tot where
      ms: "make_layer_multipliers ?n (ec_vocab_size c) (getattr_int (ec_seed c) 1234) layer = Inr ms"
    and layout: "layout_loop (ec_ngram_vocab_size_base c) (layer * int (nat ((ec_ngram_size c - 1) * ec_heads_per_ngram c)))
        [0..<nat ((ec_ngram_size c - 1) * ec_heads_per_ngram c)] 0 = Some (sizes, offsets, tot)"
    and E: "E = \<lparr>ne_ngram_size = ?n, ne_heads_per_ngram = ?H, ne_eos = ec_eos_token_id c, ne_multipliers = ms, ne_sizes = sizes,
        ne_offsets = offsets, ne_padded_rows = (tot + ec_divisor c - 1) div ec_divisor c * ec_divisor c\<rparr>"
    using assms(1,3) by (auto simp: engine_init_def make_vocab_layout_def torch_long_def py_div_def Let_def res_iff
        split: if_splits sum.splits)
  have heads: "nat ((ec_ngram_size c - 1) * ec_heads_per_ngram c) = (?n - 1) * ?H"
    using ok by (simp add: nat_mult_distrib nat_diff_distrib)
  define x where "x = tot + ec_divisor c - 1"
  have "x div ec_divisor c * ec_divisor c = x - x mod ec_divisor c" by (rule minus_mod_eq_div_mult [symmetric])
  then have "tot \<le> ne_padded_rows E"
    using pos_mod_bound [OF assms(3), of x] unfolding E by (simp add: x_def)
  then have "length sizes = (?n - 1) * ?H \<and> length offsets = (?n - 1) * ?H
      \<and> (\<forall>h < (?n - 1) * ?H. 2 \<le> sizes ! h \<and> 0 \<le> offsets ! h \<and> sizes ! h + offsets ! h \<le> 2 ^ 63)"
    using layout_loop_bounds [OF layout] assms(2,4) ok unfolding heads by (auto intro: order_trans)
  moreover have "length ms = ?n" using ms assms(5,6) by (auto simp: make_layer_multipliers_def py_div_def Let_def)
  moreover have "\<forall>m \<in> set ms. 0 \<le> m \<and> (\<forall>x. 0 \<le> x \<and> x < ec_vocab_size c \<longrightarrow> x * m < 2 ^ 63)"
    using layer_multipliers_bound [OF ms] assms(5-7) by auto
  ultimately show ?thesis using ok assms(5,6) by (auto simp: engine_ok_def E)
qed

lemma engine_rows_ple:
  assumes "engine_ok E V"
  shows "ple_rowids t (ne_multipliers E) (ne_eos E) (Some (ne_sizes E)) (Some (ne_offsets E)) (ne_ngram_size E) (ne_heads_per_ngram E)
      (Some ctx) = Inr (engine_rows E ctx t)"
proof -
  have "0 < (ne_ngram_size E - 1) * ne_heads_per_ngram E" using assms by (auto simp: engine_ok_def)
  then have "ple_params_ok (ne_multipliers E) (ne_sizes E) (ne_offsets E) (ne_ngram_size E) (ne_heads_per_ngram E)"
    using assms by (auto simp: engine_ok_def ple_params_ok_def in_set_conv_nth)
  then show ?thesis by (simp add: ple_rowids_rows_after engine_rows_def history_of_def)
qed

section \<open>The constants of the checkpoint\<close>

definition QWEN_CONFIG :: engine_config where
  "QWEN_CONFIG = \<lparr>ec_ngram_size = 3, ec_heads_per_ngram = 8, ec_eos_token_id = 248044, ec_vocab_size = 248320,
     ec_split_ngram_parts = Some 128, ec_seed = None, ec_ngram_vocab_size_base = 20000000, ec_divisor = 128\<rparr>"

definition QWEN_ENGINE :: engine where
  "QWEN_ENGINE = \<lparr>ne_ngram_size = PLE_NGRAM_SIZE, ne_heads_per_ngram = PLE_HEADS_PER_NGRAM, ne_eos = PLE_EOS,
     ne_multipliers = DEFAULT_MULTIPLIERS, ne_sizes = table_sizes, ne_offsets = head_offsets (Some table_sizes),
     ne_padded_rows = 128 * 2500012\<rparr>"

lemma qwen_multipliers: "make_layer_multipliers 3 248320 1234 0 = Inr DEFAULT_MULTIPLIERS"
  by code_simp

lemma qwen_layout: "make_vocab_layout 20000000 16 0 = Some (table_sizes, head_offsets (Some table_sizes), 320001446)"
  by (simp add: make_vocab_layout_def eval_nat_numeral next_odd_table Let_def table_sizes_def table_gaps_def head_offsets_def)

lemma qwen_engine: "engine_init QWEN_CONFIG 2560 0 = Some (Inr QWEN_ENGINE)"
proof -
  have "torch_long DEFAULT_MULTIPLIERS = Inr DEFAULT_MULTIPLIERS" "torch_long table_sizes = Inr table_sizes"
      "torch_long (head_offsets (Some table_sizes)) = Inr (head_offsets (Some table_sizes))"
    by code_simp+
  then show ?thesis
    by (simp add: engine_init_def QWEN_CONFIG_def QWEN_ENGINE_def getattr_int_def qwen_multipliers qwen_layout py_div_def ple_consts)
qed

text \<open>
  A present zero is not the default: zero parts are refused, and a seed of zero gives multipliers of its own.
\<close>

lemma zero_parts_refused: "engine_init (QWEN_CONFIG \<lparr>ec_split_ngram_parts := Some 0\<rparr>) 2560 0 = Some (Inl ValueError)"
  by (simp add: engine_init_def QWEN_CONFIG_def getattr_int_def)

lemma zero_seed_multipliers:
  "make_layer_multipliers 3 248320 (getattr_int (ec_seed (QWEN_CONFIG \<lparr>ec_seed := Some 0\<rparr>)) 1234) 0 \<noteq> Inr DEFAULT_MULTIPLIERS"
  by code_simp

section \<open>Properties\<close>

text \<open>
  C6: for every configuration the engine accepts, the ids of a packed batch are, request by request, the rows
  \<open>ple_rowids\<close> gives for the tokens of the request behind its context, with the constants of the engine.
\<close>

theorem engine_batch_ids:
  assumes "engine_init c edim layer = Some (Inr E)" "0 \<le> layer" "0 < ec_divisor c" "ne_padded_rows E \<le> 2 ^ 63"
    and "0 \<le> ec_eos_token_id c" "ec_eos_token_id c < ec_vocab_size c" "ec_vocab_size c \<le> 2 ^ 63"
    and "length ctxs = length ts" "list_all (\<lambda>ctx. int (length ctx) = ec_ngram_size c - 1) ctxs"
    and "list_all (list_all (\<lambda>x. 0 \<le> x \<and> x < ec_vocab_size c)) (ctxs @ ts)"
  shows "compute_ngram_ids E (concat ts) (query_starts ts) ctxs
    = rmap concat (rmapM (\<lambda>(ctx, t). ple_rowids t (ne_multipliers E) (ne_eos E) (Some (ne_sizes E)) (Some (ne_offsets E))
        (ne_ngram_size E) (ne_heads_per_ngram E) (Some ctx)) (zip ctxs ts))"
proof -
  have ok: "engine_ok E (ec_vocab_size c)" by (rule engine_init_ok [OF assms(1-7)])
  have n: "ne_ngram_size E = nat (ec_ngram_size c)"
    using assms(1,3) by (auto simp: engine_init_def Let_def res_iff split: if_splits sum.splits)
  have "compute_ngram_ids E (concat ts) (query_starts ts) ctxs
      = Inr (concat (map (\<lambda>i. engine_rows E (ctxs ! i) (ts ! i)) [0..<length ts]))"
  proof (rule compute_ids_requests [OF ok assms(8)])
    fix i assume "i < length ts"
    then have "int (length (ctxs ! i)) = ec_ngram_size c - 1" using assms(8,9) by (simp add: list_all_length)
    then show "length (ctxs ! i) = ne_ngram_size E - 1" unfolding n by linarith
  qed (use assms(10) in \<open>auto simp: list_all_iff\<close>)
  moreover have "map (\<lambda>i. engine_rows E (ctxs ! i) (ts ! i)) [0..<length ts] = map2 (engine_rows E) ctxs ts"
    using assms(8) by (intro nth_equalityI) simp_all
  ultimately show ?thesis by (simp add: engine_rows_ple [OF ok] rmapM_Inr [where g = "\<lambda>(ctx, t). engine_rows E ctx t"] split_def)
qed

text \<open>Two requests of the checkpoint, one of a single token.\<close>

theorem engine_batch_ids_witness:
  "compute_ngram_ids QWEN_ENGINE (concat [[5, 248044, 7], [9]]) (query_starts [[5, 248044, 7], [9]]) [[248044, 248044], [1, 2]]
    = rmap concat (rmapM (\<lambda>(ctx, t). ple_rowids t (ne_multipliers QWEN_ENGINE) (ne_eos QWEN_ENGINE) (Some (ne_sizes QWEN_ENGINE))
        (Some (ne_offsets QWEN_ENGINE)) (ne_ngram_size QWEN_ENGINE) (ne_heads_per_ngram QWEN_ENGINE) (Some ctx))
        (zip [[248044, 248044], [1, 2]] [[5, 248044, 7], [9]]))"
  by (rule engine_batch_ids [OF qwen_engine]) (simp_all add: QWEN_CONFIG_def QWEN_ENGINE_def)

text \<open>
  Constructing the layer always ends, with the constants or with an exception: the prime searches cannot run
  for ever, for any configuration.
\<close>

theorem engine_init_ends: "\<exists>r. engine_init c edim layer = Some r"
proof -
  have "\<exists>r. layout_loop base first hs off = Some r" for base first hs off
  proof (induction hs arbitrary: off)
    case (Cons l hs)
    obtain q where "engine_nth_prime_after (base - 1) (nat (first + int l + 1)) = Some q"
      using engine_nth_prime_Some by blast
    then show ?case using Cons [of "off + q"] by auto
  qed simp
  then show ?thesis
    by (fastforce simp: engine_init_def make_vocab_layout_def Let_def split: sum.split)
qed

text \<open>
  The constants the engine derives from the configuration of the checkpoint are those EngramDB has: the multipliers, the
  head sizes, the offsets and the row count of the 128 shard files.
\<close>

theorem checkpoint_constants:
  "\<exists>E. engine_init QWEN_CONFIG 2560 0 = Some (Inr E) \<and> ne_multipliers E = DEFAULT_MULTIPLIERS
    \<and> ne_sizes E = head_vocab_sizes PLE_BASE PLE_HEADS \<and> ne_offsets E = head_offsets (Some (head_vocab_sizes PLE_BASE PLE_HEADS))
    \<and> ne_padded_rows E = 128 * 2500012"
  by (simp add: qwen_engine QWEN_ENGINE_def head_vocab_sizes_default)

end
