(* ===== verification/RowidExactness.thy ===== *)
theory RowidExactness
  imports EngineIds
begin

text \<open>
  \<open>scripts/ple_rowid_exactness.py\<close>: the script that compares the row ids of the serving engine (\<open>EngineIds\<close>) with those of the
  native module (\<open>Keygen\<close>) on random tokens.  The random generator is an argument; the printing, the names of the cases
  and the text of a mismatch are not modelled.  The theorem is that the script succeeds for every generator: the
  comparison it samples holds for all tokens of the vocabulary.
\<close>

section \<open>The engine of a configuration\<close>

definition text_cfg_int :: "json \<Rightarrow> string \<Rightarrow> int res" where
  "text_cfg_int cfg k = rbind (json_item cfg k) py_int"

text \<open>\<open>sorted(set(xs)).index(xs[0])\<close>; layer ids that are not integers are not modelled.\<close>

definition dense_index :: "int list \<Rightarrow> int res" where
  "dense_index xs = (case xs of [] \<Rightarrow> Inl IndexError | x # _ \<Rightarrow> Inr (int (card {y \<in> set xs. y < x})))"

definition build_engine_ref :: "json \<Rightarrow> (engine \<times> int) res option" where
  "build_engine_ref text_cfg =
     (case rbind (text_cfg_int text_cfg ''ngram_size'') (\<lambda>ngram_size.
           rbind (text_cfg_int text_cfg ''heads_per_ngram'') (\<lambda>heads_per_ngram.
           rbind (rbind (json_item text_cfg ''ple_layer_ids'') json_iter) (\<lambda>ple_layer_ids.
           rbind (rmapM (\<lambda>v. case v of JInt i \<Rightarrow> Inr i | _ \<Rightarrow> Inl TypeError) ple_layer_ids) (\<lambda>ple_layer_ids.
           rbind (text_cfg_int text_cfg ''eos_token_id'') (\<lambda>eos.
           rbind (text_cfg_int text_cfg ''vocab_size'') (\<lambda>unigram_vocab.
           rbind (rbind (json_get text_cfg ''seed'') (\<lambda>s. case s of None \<Rightarrow> Inr 1234 | Some v \<Rightarrow> py_int v)) (\<lambda>seed.
           rbind (dense_index ple_layer_ids) (\<lambda>dense_id.
           rbind (make_layer_multipliers (nat ngram_size) unigram_vocab seed dense_id) (\<lambda>multipliers.
           rbind (text_cfg_int text_cfg ''ngram_vocab_size_base'') (\<lambda>base.
             Inr (ngram_size, heads_per_ngram, eos, unigram_vocab, dense_id, multipliers, base))))))))))) of
        Inl e \<Rightarrow> Some (Inl e)
      | Inr (ngram_size, heads_per_ngram, eos, unigram_vocab, dense_id, multipliers, base) \<Rightarrow>
          map_option (\<lambda>(sizes, offsets, total).
            rbind (text_cfg_int text_cfg ''make_ngram_vocab_size_divisible_by'') (\<lambda>divisor.
            rbind (py_div (total + divisor - 1) divisor) (\<lambda>q.
            rbind (torch_long sizes) (\<lambda>sizes. rbind (torch_long offsets) (\<lambda>offsets. rbind (torch_long multipliers) (\<lambda>multipliers.
              Inr (\<lparr>ne_ngram_size = nat ngram_size, ne_heads_per_ngram = nat heads_per_ngram, ne_eos = eos,
                ne_multipliers = multipliers, ne_sizes = sizes, ne_offsets = offsets, ne_padded_rows = q * divisor\<rparr>, unigram_vocab)))))))
            (make_vocab_layout base (nat ((ngram_size - 1) * heads_per_ngram)) dense_id))"

section \<open>Cases\<close>

text \<open>\<open>record\<close>: the rows of a case and how many of them differ.\<close>

definition mismatched :: "int list list \<Rightarrow> int list list \<Rightarrow> nat" where
  "mismatched want got =
     (if length want \<noteq> length got then nat \<bar>int (length want) - int (length got)\<bar>
      else length (filter (\<lambda>(a, b). a \<noteq> b) (zip want got)))"

type_synonym 'g run = "'g \<times> (nat \<times> nat) list"

definition record_case :: "int list list res \<Rightarrow> int list list res \<Rightarrow> 'g run \<Rightarrow> 'g run res" where
  "record_case want got st =
     rbind want (\<lambda>w. rbind got (\<lambda>g. Inr (fst st, snd st @ [(length w, mismatched w g)])))"

fun rand_tokens :: "('g \<Rightarrow> int \<Rightarrow> int \<times> 'g) \<Rightarrow> int \<Rightarrow> nat \<Rightarrow> 'g \<Rightarrow> int list \<times> 'g" where
  "rand_tokens randrange vocab 0 rng = ([], rng)"
| "rand_tokens randrange vocab (Suc n) rng =
     (let (x, rng) = randrange rng vocab; (xs, rng) = rand_tokens randrange vocab n rng in (x # xs, rng))"

definition native_cold :: "int list \<Rightarrow> int list list res" where
  "native_cold toks = native_rowids_for_seq [PLE_EOS, PLE_EOS] toks 1"

definition native_after :: "int list \<Rightarrow> int list \<Rightarrow> int list list res" where
  "native_after hist toks = native_rowids_for_seq hist toks 1"

definition single_case :: "engine \<Rightarrow> int list \<Rightarrow> 'g run \<Rightarrow> 'g run res" where
  "single_case E toks st =
     record_case (compute_ngram_ids E toks [0, int (length toks)] [[ne_eos E, ne_eos E]]) (native_cold toks) st"

definition case_a :: "('g \<Rightarrow> int \<Rightarrow> int \<times> 'g) \<Rightarrow> engine \<Rightarrow> int \<Rightarrow> nat \<Rightarrow> 'g run \<Rightarrow> 'g run res" where
  "case_a randrange E vocab n st =
     (let (toks, rng) = rand_tokens randrange vocab n (fst st) in single_case E toks (rng, snd st))"

definition case_b :: "('g \<Rightarrow> int \<Rightarrow> int \<times> 'g) \<Rightarrow> ('g \<Rightarrow> nat \<Rightarrow> nat \<Rightarrow> nat list \<times> 'g) \<Rightarrow> engine \<Rightarrow> int \<Rightarrow> nat \<times> nat \<Rightarrow> 'g run \<Rightarrow> 'g run res" where
  "case_b randrange sample E vocab job st =
     (let (n, n_eos) = job; (toks, rng) = rand_tokens randrange vocab n (fst st); (ps, rng) = sample rng n (min n_eos n)
      in single_case E (fold (\<lambda>p toks. toks[p := ne_eos E]) ps toks) (rng, snd st))"

definition case_end :: "('g \<Rightarrow> int \<Rightarrow> int \<times> 'g) \<Rightarrow> engine \<Rightarrow> int \<Rightarrow> nat \<Rightarrow> 'g run \<Rightarrow> 'g run res" where
  "case_end randrange E vocab pos st =
     (let (toks, rng) = rand_tokens randrange vocab 9 (fst st) in single_case E (toks[pos := ne_eos E]) (rng, snd st))"

fun rand_requests :: "('g \<Rightarrow> int \<Rightarrow> int \<times> 'g) \<Rightarrow> int \<Rightarrow> nat list \<Rightarrow> 'g \<Rightarrow> int list list \<times> 'g" where
  "rand_requests randrange vocab [] rng = ([], rng)"
| "rand_requests randrange vocab (L # lens) rng =
     (let (t, rng) = rand_tokens randrange vocab L rng; (ts, rng) = rand_requests randrange vocab lens rng in (t # ts, rng))"

definition case_c :: "('g \<Rightarrow> int \<Rightarrow> int \<times> 'g) \<Rightarrow> engine \<Rightarrow> int \<Rightarrow> nat list \<Rightarrow> 'g run \<Rightarrow> 'g run res" where
  "case_c randrange E vocab req_lens st =
     (let (ts, rng) = rand_requests randrange vocab req_lens (fst st); flat = concat ts;
          starts = foldl (\<lambda>starts L. starts @ [last starts + int L]) [0] req_lens
      in record_case (compute_ngram_ids E flat starts (replicate (length req_lens) [ne_eos E, ne_eos E]))
           (rmap concat (rmapM (\<lambda>i. native_cold (drop (nat (starts ! i)) (take (nat (starts ! Suc i)) flat))) [0..<length req_lens]))
           (rng, snd st))"

definition history_case :: "engine \<Rightarrow> int list \<Rightarrow> int list \<Rightarrow> 'g run \<Rightarrow> 'g run res" where
  "history_case E hist new st =
     record_case (compute_ngram_ids E new [0, int (length new)] [hist]) (native_after hist new) st"

definition case_d :: "('g \<Rightarrow> int \<Rightarrow> int \<times> 'g) \<Rightarrow> engine \<Rightarrow> int \<Rightarrow> nat \<Rightarrow> 'g run \<Rightarrow> 'g run res" where
  "case_d randrange E vocab n_new st =
     (let (hist, rng) = rand_tokens randrange vocab 2 (fst st); (new, rng) = rand_tokens randrange vocab n_new rng
      in history_case E hist new (rng, snd st))"

definition case_d_eos :: "('g \<Rightarrow> int \<Rightarrow> int \<times> 'g) \<Rightarrow> engine \<Rightarrow> int \<Rightarrow> 'g run \<Rightarrow> 'g run res" where
  "case_d_eos randrange E vocab st =
     (let (t, rng) = rand_tokens randrange vocab 1 (fst st); (new, rng) = rand_tokens randrange vocab 3 rng
      in history_case E (ne_eos E # t) new (rng, snd st))"

definition ctx_for :: "int \<Rightarrow> int list \<Rightarrow> int list" where
  "ctx_for eos prefix = last_n 2 ([eos, eos] @ prefix)"

definition case_e :: "('g \<Rightarrow> int \<Rightarrow> int \<times> 'g) \<Rightarrow> engine \<Rightarrow> int \<Rightarrow> nat \<times> nat \<Rightarrow> 'g run \<Rightarrow> 'g run res" where
  "case_e randrange E vocab job st =
     (let (n, cut) = job; (toks, rng) = rand_tokens randrange vocab n (fst st);
          hist = ctx_for (ne_eos E) (take cut toks); tail = drop cut toks
      in rbind (history_case E hist tail (rng, snd st)) (\<lambda>st.
           record_case (native_cold toks)
             (rbind (native_cold (take cut toks)) (\<lambda>a. rbind (native_after hist tail) (\<lambda>b. Inr (a @ b)))) st))"

section \<open>The script\<close>

definition RUST_MULTIPLIERS :: "int list" where
  "RUST_MULTIPLIERS = [23703573157769, 20109073645365, 8052911324071]"

definition exactness_cases ::
  "('g \<Rightarrow> int \<Rightarrow> int \<times> 'g) \<Rightarrow> ('g \<Rightarrow> nat \<Rightarrow> nat \<Rightarrow> nat list \<times> 'g) \<Rightarrow> engine \<Rightarrow> int \<Rightarrow> 'g \<Rightarrow> 'g run res" where
  "exactness_cases randrange sample E vocab rng =
     rbind (rfoldM (case_a randrange E vocab) [1, 2, 3, 4, 8, 63, 64, 257] (rng, [])) (\<lambda>st.
     rbind (rfoldM (case_b randrange sample E vocab) (List.product [6, 16, 64] [1, 2, 3]) st) (\<lambda>st.
     rbind (rfoldM (case_end randrange E vocab) [0, 8] st) (\<lambda>st.
     rbind (rfoldM (case_c randrange E vocab) [[3, 5], [1, 1, 1], [17, 4, 9, 2], [2, 2]] st) (\<lambda>st.
     rbind (rfoldM (case_d randrange E vocab) [1, 2, 4] st) (\<lambda>st.
     rbind (case_d_eos randrange E vocab st) (\<lambda>st.
       rfoldM (case_e randrange E vocab) [(16, 5), (32, 16), (64, 1), (64, 2), (64, 63)] st))))))"

text \<open>The exit code, with the cases.\<close>

definition ple_rowid_exactness ::
  "('g \<Rightarrow> int \<Rightarrow> int \<times> 'g) \<Rightarrow> ('g \<Rightarrow> nat \<Rightarrow> nat \<Rightarrow> nat list \<times> 'g) \<Rightarrow> json \<Rightarrow> 'g \<Rightarrow> (int \<times> (nat \<times> nat) list) res option" where
  "ple_rowid_exactness randrange sample cfg rng =
     (case json_get cfg ''text_config'' of
        Inl e \<Rightarrow> Some (Inl e)
      | Inr t \<Rightarrow> map_option (\<lambda>r. rbind r (\<lambda>(E, vocab).
          rbind (exactness_cases randrange sample E vocab rng) (\<lambda>(rng, cases).
            let table_rows = 128 * 2500012;
                geometry_ok = (ne_padded_rows E = table_rows \<and> take 3 (ne_sizes E) = [20000003, 20000023, 20000033]);
                failures = (if ne_multipliers E = RUST_MULTIPLIERS then 0 else 1)
                  + length (filter (\<lambda>(n, bad). bad \<noteq> 0) cases) + (if geometry_ok then 0 else 1)
            in Inr (if failures = (0 :: nat) then 0 else 1, cases))))
          (build_engine_ref (case t of None \<Rightarrow> cfg | Some v \<Rightarrow> v)))"

section \<open>Every case agrees\<close>

definition in_vocab :: "int list \<Rightarrow> bool" where
  "in_vocab xs \<longleftrightarrow> (\<forall>x \<in> set xs. 0 \<le> x \<and> x < 248320)"

lemma in_vocab_simps [simp]:
  "in_vocab []" "in_vocab (x # xs) \<longleftrightarrow> 0 \<le> x \<and> x < 248320 \<and> in_vocab xs" "in_vocab (xs @ ys) \<longleftrightarrow> in_vocab xs \<and> in_vocab ys"
  by (auto simp: in_vocab_def)

lemma in_vocab_parts: "in_vocab xs \<Longrightarrow> in_vocab (take n xs) \<and> in_vocab (drop n xs) \<and> in_vocab (last_n n xs)"
  by (auto simp: in_vocab_def last_n_def dest: in_set_takeD in_set_dropD)

lemma in_vocab_eos: "in_vocab [ne_eos QWEN_ENGINE, ne_eos QWEN_ENGINE]" "0 \<le> ne_eos QWEN_ENGINE" "ne_eos QWEN_ENGINE < 248320"
  by (simp_all add: QWEN_ENGINE_def PLE_EOS_def)

lemma in_vocab_update: "in_vocab toks \<Longrightarrow> in_vocab (toks[p := ne_eos QWEN_ENGINE])"
  using in_vocab_eos by (auto simp: in_vocab_def dest!: set_update_subset_insert [THEN subsetD])

lemma in_vocab_updates: "in_vocab toks \<Longrightarrow> in_vocab (fold (\<lambda>p toks. toks[p := ne_eos QWEN_ENGINE]) ps toks)"
  by (induction ps arbitrary: toks) (simp_all add: in_vocab_update)

lemma qwen_ok: "engine_ok QWEN_ENGINE 248320"
  using engine_init_ok [OF qwen_engine] by (simp add: QWEN_CONFIG_def QWEN_ENGINE_def)

lemma qwen_n: "ne_ngram_size QWEN_ENGINE = 3"
  by (simp add: QWEN_ENGINE_def PLE_NGRAM_SIZE_def)

lemma native_engine_rows:
  assumes "in_vocab ctx" "in_vocab t"
  shows "native_rowids_for_seq ctx t 1 = Inr (engine_rows QWEN_ENGINE ctx t)"
proof -
  have "\<forall>x \<in> set (ctx @ t). 0 \<le> x \<and> x < native_token_limit"
    using assms by (auto simp: in_vocab_def native_token_limit_def)
  from native_rowids_for_seq_reference [OF this]
  have "native_rowids_for_seq ctx t 1
      = ple_rowids t DEFAULT_MULTIPLIERS PLE_EOS (Some table_sizes) (Some (head_offsets (Some table_sizes))) 3 8 (Some ctx)"
    by (simp add: ple_rowids_defaults head_vocab_sizes_default PLE_NGRAM_SIZE_def PLE_HEADS_PER_NGRAM_def)
  then show ?thesis
    using engine_rows_ple [OF qwen_ok, of t ctx] by (simp add: QWEN_ENGINE_def PLE_NGRAM_SIZE_def PLE_HEADS_PER_NGRAM_def)
qed

lemma engine_requests:
  assumes "length ctxs = length ts" "\<forall>ctx \<in> set ctxs. length ctx = 2 \<and> in_vocab ctx" "\<forall>t \<in> set ts. in_vocab t"
  shows "compute_ngram_ids QWEN_ENGINE (concat ts) (query_starts ts) ctxs
    = Inr (concat (map (\<lambda>i. engine_rows QWEN_ENGINE (ctxs ! i) (ts ! i)) [0..<length ts]))"
  using assms by (intro compute_ids_requests [OF qwen_ok]) (auto simp: qwen_n in_vocab_def)

lemma engine_single:
  assumes "length ctx = 2" "in_vocab ctx" "in_vocab t"
  shows "compute_ngram_ids QWEN_ENGINE t [0, int (length t)] [ctx] = Inr (engine_rows QWEN_ENGINE ctx t)"
  using engine_requests [of "[ctx]" "[t]"] assms by (simp add: query_starts_def start_of_def)

lemma cold_rows_agree:
  "in_vocab t \<Longrightarrow> native_cold t = Inr (engine_rows QWEN_ENGINE [ne_eos QWEN_ENGINE, ne_eos QWEN_ENGINE] t)"
  using native_engine_rows [of "[PLE_EOS, PLE_EOS]" t] by (simp add: native_cold_def QWEN_ENGINE_def PLE_EOS_def)

lemma native_after_rows: "in_vocab ctx \<Longrightarrow> in_vocab t \<Longrightarrow> native_after ctx t = Inr (engine_rows QWEN_ENGINE ctx t)"
  by (simp add: native_after_def native_engine_rows)

text \<open>No case so far has a mismatch.\<close>

definition all_match :: "'g run \<Rightarrow> bool" where
  "all_match st \<longleftrightarrow> (\<forall>(n, bad) \<in> set (snd st). bad = 0)"

definition keeps :: "('g run \<Rightarrow> 'g run res) \<Rightarrow> bool" where
  "keeps f \<longleftrightarrow> (\<forall>st. all_match st \<longrightarrow> (\<exists>st'. f st = Inr st' \<and> all_match st'))"

lemma mismatched_same [simp]: "mismatched w w = 0"
  by (auto simp: mismatched_def zip_same_conv_map filter_empty_conv)

lemma record_same:
  "all_match (g, cases) \<Longrightarrow> want = Inr w \<Longrightarrow> got = Inr w \<Longrightarrow>
    \<exists>st'. record_case want got (g', cases) = Inr st' \<and> all_match st'"
  by (auto simp: record_case_def all_match_def)

lemma keeps_fold: "(\<And>x. x \<in> set xs \<Longrightarrow> keeps (f x)) \<Longrightarrow> keeps (rfoldM f xs)"
proof (induction xs)
  case (Cons x xs)
  have "\<exists>st'. rfoldM f (x # xs) st = Inr st' \<and> all_match st'" if st: "all_match st" for st
  proof -
    have "keeps (f x)" "keeps (rfoldM f xs)" using Cons by simp_all
    then obtain st1 where st1: "f x st = Inr st1" "all_match st1" "\<exists>st'. rfoldM f xs st1 = Inr st' \<and> all_match st'"
      using st unfolding keeps_def by meson
    then show ?thesis by simp
  qed
  then show ?case unfolding keeps_def by blast
qed (simp add: keeps_def)

lemma single_case_keeps: "in_vocab toks \<Longrightarrow> all_match (g, cases) \<Longrightarrow>
    \<exists>st'. single_case QWEN_ENGINE toks (g', cases) = Inr st' \<and> all_match st'"
  unfolding single_case_def by (rule record_same) (simp_all add: engine_single in_vocab_eos cold_rows_agree)

lemma history_case_keeps: "length hist = 2 \<Longrightarrow> in_vocab hist \<Longrightarrow> in_vocab new \<Longrightarrow> all_match (g, cases) \<Longrightarrow>
    \<exists>st'. history_case QWEN_ENGINE hist new (g', cases) = Inr st' \<and> all_match st'"
  unfolding history_case_def by (rule record_same) (simp_all add: engine_single native_after_rows)

text \<open>The generator draws tokens of the vocabulary.\<close>

definition draws_below :: "('g \<Rightarrow> int \<Rightarrow> int \<times> 'g) \<Rightarrow> bool" where
  "draws_below randrange \<longleftrightarrow> (\<forall>g n. 0 < n \<longrightarrow> 0 \<le> fst (randrange g n) \<and> fst (randrange g n) < n)"

lemma rand_tokens_vocab:
  "draws_below randrange \<Longrightarrow> rand_tokens randrange 248320 n g = (toks, g') \<Longrightarrow> in_vocab toks \<and> length toks = n"
proof (induction n arbitrary: g g' toks)
  case (Suc n)
  obtain x g1 where x: "randrange g 248320 = (x, g1)" by fastforce
  obtain xs g2 where xs: "rand_tokens randrange 248320 n g1 = (xs, g2)" by fastforce
  have "0 \<le> x \<and> x < 248320" using Suc.prems(1) x unfolding draws_below_def by (metis fst_conv zero_less_numeral)
  then show ?case using Suc.IH [OF Suc.prems(1) xs] Suc.prems(2) x xs by auto
qed simp

lemma rand_requests_vocab:
  "draws_below randrange \<Longrightarrow> rand_requests randrange 248320 lens g = (ts, g') \<Longrightarrow>
    (\<forall>t \<in> set ts. in_vocab t) \<and> map length ts = lens"
  by (induction lens arbitrary: g g' ts) (auto split: prod.splits dest!: rand_tokens_vocab)

lemma keepsI: "(\<And>g cases. all_match (g, cases) \<Longrightarrow> \<exists>st'. f (g, cases) = Inr st' \<and> all_match st') \<Longrightarrow> keeps f"
  by (auto simp: keeps_def)

lemma case_a_keeps: "draws_below randrange \<Longrightarrow> keeps (case_a randrange QWEN_ENGINE 248320 n)"
  by (rule keepsI) (auto simp: case_a_def simp del: split_paired_Ex split: prod.split dest!: rand_tokens_vocab intro: single_case_keeps)

lemma case_b_keeps: "draws_below randrange \<Longrightarrow> keeps (case_b randrange sample QWEN_ENGINE 248320 job)"
  by (rule keepsI) (auto simp: case_b_def simp del: split_paired_Ex split: prod.split dest!: rand_tokens_vocab intro: single_case_keeps in_vocab_updates)

lemma case_end_keeps: "draws_below randrange \<Longrightarrow> keeps (case_end randrange QWEN_ENGINE 248320 pos)"
  by (rule keepsI) (auto simp: case_end_def simp del: split_paired_Ex split: prod.split dest!: rand_tokens_vocab intro: single_case_keeps in_vocab_update)

lemma case_d_keeps: "draws_below randrange \<Longrightarrow> keeps (case_d randrange QWEN_ENGINE 248320 n)"
proof (rule keepsI)
  fix g cases assume d: "draws_below randrange" and m: "all_match (g :: 'a, cases)"
  obtain hist g1 where h: "rand_tokens randrange 248320 2 g = (hist, g1)" by fastforce
  obtain new g2 where n: "rand_tokens randrange 248320 n g1 = (new, g2)" by fastforce
  show "\<exists>st'. case_d randrange QWEN_ENGINE 248320 n (g, cases) = Inr st' \<and> all_match st'"
    using history_case_keeps [of hist new, OF _ _ _ m] rand_tokens_vocab [OF d h] rand_tokens_vocab [OF d n] h n by (simp add: case_d_def)
qed

lemma case_d_eos_keeps: "draws_below randrange \<Longrightarrow> keeps (case_d_eos randrange QWEN_ENGINE 248320)"
proof (rule keepsI)
  fix g cases assume d: "draws_below randrange" and m: "all_match (g :: 'a, cases)"
  obtain t g1 where h: "rand_tokens randrange 248320 1 g = (t, g1)" by fastforce
  obtain new g2 where n: "rand_tokens randrange 248320 3 g1 = (new, g2)" by fastforce
  show "\<exists>st'. case_d_eos randrange QWEN_ENGINE 248320 (g, cases) = Inr st' \<and> all_match st'"
    using history_case_keeps [of "ne_eos QWEN_ENGINE # t" new, OF _ _ _ m] rand_tokens_vocab [OF d h] rand_tokens_vocab [OF d n] h n
      in_vocab_eos by (simp add: case_d_eos_def)
qed

lemma starts_loop: "foldl (\<lambda>starts L. starts @ [last starts + int L]) (us @ [a]) lens
    = us @ map (\<lambda>i. a + int (sum_list (take i lens))) [0..<Suc (length lens)]"
proof (induction lens arbitrary: us a)
  case (Cons L lens)
  have "map (\<lambda>i. a + int (sum_list (take i (L # lens)))) [0..<Suc (length (L # lens))]
      = a # map (\<lambda>i. a + int L + int (sum_list (take i lens))) [0..<Suc (length lens)]"
    unfolding list.size(4) add_Suc_right add_0_right by (subst map_upt_Suc) (simp add: add.assoc del: upt_Suc)
  then show ?case using Cons [of "us @ [a]" "a + int L"] by (simp del: upt_Suc)
qed simp

lemma starts_query:
  "foldl (\<lambda>starts L. starts @ [last starts + int L]) [0] (map length ts) = query_starts ts"
  using starts_loop [of "[]" 0 "map length ts"]
  by (simp add: query_starts_def start_of_def length_concat take_map del: upt_Suc)

lemma request_slice: "i < length ts \<Longrightarrow> drop (start_of ts i) (take (start_of ts (Suc i)) (concat ts)) = ts ! i"
proof -
  assume i: "i < length ts"
  have "concat ts = concat (take i ts) @ ts ! i @ concat (drop (Suc i) ts)"
    using i by (metis append_Cons append_Nil concat.simps(2) concat_append id_take_nth_drop)
  then show ?thesis by (simp add: start_of_Suc [OF i]) (simp add: start_of_def)
qed

lemma case_c_keeps: "draws_below randrange \<Longrightarrow> keeps (case_c randrange QWEN_ENGINE 248320 lens)"
proof (rule keepsI)
  fix g cases assume d: "draws_below randrange" and m: "all_match (g :: 'a, cases)"
  obtain ts g' where ts: "rand_requests randrange 248320 lens g = (ts, g')" by fastforce
  have v: "\<forall>t \<in> set ts. in_vocab t" "map length ts = lens" using rand_requests_vocab [OF d ts] by auto
  let ?e = "[ne_eos QWEN_ENGINE, ne_eos QWEN_ENGINE]"
  have engine: "compute_ngram_ids QWEN_ENGINE (concat ts) (query_starts ts) (replicate (length ts) ?e)
      = Inr (concat (map (\<lambda>i. engine_rows QWEN_ENGINE ?e (ts ! i)) [0..<length ts]))"
    using engine_requests [of "replicate (length ts) ?e" ts] v(1) in_vocab_eos
    by (auto intro!: arg_cong [where f = concat])
  have "query_starts ts ! i = int (start_of ts i)" if "i \<le> length ts" for i
    using that by (simp add: query_starts_def nth_append)
  then have "rmapM (\<lambda>i. native_cold (drop (nat (query_starts ts ! i)) (take (nat (query_starts ts ! Suc i)) (concat ts)))) [0..<length ts]
      = Inr (map (\<lambda>i. engine_rows QWEN_ENGINE ?e (ts ! i)) [0..<length ts])"
    using v(1) by (intro rmapM_Inr) (simp add: request_slice cold_rows_agree)
  then show "\<exists>st'. case_c randrange QWEN_ENGINE 248320 lens (g, cases) = Inr st' \<and> all_match st'"
    using engine ts v(2) [symmetric] by (auto simp: case_c_def starts_query simp del: split_paired_Ex intro!: record_same [OF m])
qed

lemma ctx_for_vocab: "in_vocab prefix \<Longrightarrow> in_vocab (ctx_for (ne_eos QWEN_ENGINE) prefix) \<and> length (ctx_for (ne_eos QWEN_ENGINE) prefix) = 2"
  using in_vocab_parts [of "[ne_eos QWEN_ENGINE, ne_eos QWEN_ENGINE] @ prefix" 2] in_vocab_eos by (simp add: ctx_for_def)

lemma chunked_rows:
  "engine_rows QWEN_ENGINE [e, e] prefix @ engine_rows QWEN_ENGINE (ctx_for e prefix) t = engine_rows QWEN_ENGINE [e, e] (prefix @ t)"
  unfolding engine_rows_def ctx_for_def rows_after_append by (subst rows_after_last_n) (simp_all add: qwen_n)

lemma case_e_keeps: "draws_below randrange \<Longrightarrow> keeps (case_e randrange QWEN_ENGINE 248320 job)"
proof (rule keepsI)
  fix g cases assume d: "draws_below randrange" and m: "all_match (g :: 'a, cases)"
  obtain n cut where job: "job = (n, cut)" by fastforce
  obtain toks g' where toks: "rand_tokens randrange 248320 n g = (toks, g')" by fastforce
  let ?h = "ctx_for (ne_eos QWEN_ENGINE) (take cut toks)"
  have v: "in_vocab toks" "in_vocab (take cut toks)" "in_vocab (drop cut toks)" "in_vocab ?h" "length ?h = 2"
    using rand_tokens_vocab [OF d toks] in_vocab_parts ctx_for_vocab by auto
  obtain g2 cases2 where st: "history_case QWEN_ENGINE ?h (drop cut toks) (g', cases) = Inr (g2, cases2)" "all_match (g2, cases2)"
    using history_case_keeps [OF v(5,4,3) m] by (metis surj_pair)
  show "\<exists>st'. case_e randrange QWEN_ENGINE 248320 job (g, cases) = Inr st' \<and> all_match st'"
    using toks st(1) chunked_rows [of "ne_eos QWEN_ENGINE" "take cut toks" "drop cut toks"] v
    by (auto simp: case_e_def job cold_rows_agree native_after_rows simp del: split_paired_Ex intro!: record_same [OF st(2)])
qed

lemma exactness_cases_match:
  assumes "draws_below randrange"
  shows "\<exists>st. exactness_cases randrange sample QWEN_ENGINE 248320 rng = Inr st \<and> all_match st"
proof -
  have ok: "keeps (rfoldM (case_a randrange QWEN_ENGINE 248320) xs)"
      "keeps (rfoldM (case_b randrange sample QWEN_ENGINE 248320) ys)"
      "keeps (rfoldM (case_end randrange QWEN_ENGINE 248320) xs)"
      "keeps (rfoldM (case_c randrange QWEN_ENGINE 248320) zs)"
      "keeps (rfoldM (case_d randrange QWEN_ENGINE 248320) xs)"
      "keeps (case_d_eos randrange QWEN_ENGINE 248320)"
      "keeps (rfoldM (case_e randrange QWEN_ENGINE 248320) ys)" for xs ys zs
    using assms by (auto intro!: keeps_fold case_a_keeps case_b_keeps case_end_keeps case_c_keeps case_d_keeps case_d_eos_keeps case_e_keeps)
  have bind: "keeps (\<lambda>st. rbind (f st) g)" if "keeps f" "keeps g" for f g :: "'a run \<Rightarrow> 'a run res"
    using that unfolding keeps_def by (metis rbind_simps(2))
  have "keeps (\<lambda>st. rbind (rfoldM (case_a randrange QWEN_ENGINE 248320) [1, 2, 3, 4, 8, 63, 64, 257] st) (\<lambda>st.
     rbind (rfoldM (case_b randrange sample QWEN_ENGINE 248320) (List.product [6, 16, 64] [1, 2, 3]) st) (\<lambda>st.
     rbind (rfoldM (case_end randrange QWEN_ENGINE 248320) [0, 8] st) (\<lambda>st.
     rbind (rfoldM (case_c randrange QWEN_ENGINE 248320) [[3, 5], [1, 1, 1], [17, 4, 9, 2], [2, 2]] st) (\<lambda>st.
     rbind (rfoldM (case_d randrange QWEN_ENGINE 248320) [1, 2, 4] st) (\<lambda>st.
     rbind (case_d_eos randrange QWEN_ENGINE 248320 st) (\<lambda>st.
       rfoldM (case_e randrange QWEN_ENGINE 248320) [(16, 5), (32, 16), (64, 1), (64, 2), (64, 63)] st)))))))"
    by (intro bind ok)
  then show ?thesis
    unfolding exactness_cases_def keeps_def by (metis all_match_def empty_iff empty_set snd_conv)
qed

section \<open>Properties\<close>

text \<open>
  C5: on the configuration of the checkpoint the comparison succeeds for every random generator that draws tokens of the
  vocabulary: the constants are identical, and in every case, fresh, with EOS tokens, packed, with a history or
  chunked, no row id of the engine differs from the native one.
\<close>

theorem rowid_exactness_succeeds:
  assumes "draws_below randrange"
    and "json_get cfg ''text_config'' = Inr (Some text_cfg)"
    and "json_item text_cfg ''ngram_size'' = Inr (JInt 3)" "json_item text_cfg ''heads_per_ngram'' = Inr (JInt 8)"
    and "json_item text_cfg ''ple_layer_ids'' = Inr (JList [JInt layer])" "json_item text_cfg ''eos_token_id'' = Inr (JInt 248044)"
    and "json_item text_cfg ''vocab_size'' = Inr (JInt 248320)" "json_get text_cfg ''seed'' = Inr None"
    and "json_item text_cfg ''ngram_vocab_size_base'' = Inr (JInt 20000000)"
    and "json_item text_cfg ''make_ngram_vocab_size_divisible_by'' = Inr (JInt 128)"
  shows "\<exists>cases. ple_rowid_exactness randrange sample cfg rng = Some (Inr (0, cases)) \<and> list_all (\<lambda>(n, bad). bad = 0) cases"
proof -
  have torch: "torch_long DEFAULT_MULTIPLIERS = Inr DEFAULT_MULTIPLIERS" "torch_long table_sizes = Inr table_sizes"
      "torch_long (head_offsets (Some table_sizes)) = Inr (head_offsets (Some table_sizes))"
    by code_simp+
  have "{y \<in> set [layer]. y < layer} = {}" by auto
  then have "dense_index [layer] = Inr 0" unfolding dense_index_def list.case by (simp only: card.empty int_ops(1))
  then have E: "build_engine_ref text_cfg = Some (Inr (QWEN_ENGINE, 248320))"
    using assms(3-10) by (simp add: build_engine_ref_def text_cfg_int_def py_int_def json_iter_def qwen_multipliers qwen_layout
        torch py_div_def QWEN_ENGINE_def PLE_NGRAM_SIZE_def PLE_HEADS_PER_NGRAM_def PLE_EOS_def)
  obtain g cases where c: "exactness_cases randrange sample QWEN_ENGINE 248320 rng = Inr (g, cases)" "all_match (g, cases)"
    using exactness_cases_match [OF assms(1), of sample rng] by auto
  have "filter (\<lambda>(n, bad). bad \<noteq> 0) cases = []" using c(2) by (auto simp: all_match_def filter_empty_conv)
  then have "ple_rowid_exactness randrange sample cfg rng = Some (Inr (0, cases))"
    using assms(2) E c(1) by (simp add: ple_rowid_exactness_def QWEN_ENGINE_def RUST_MULTIPLIERS_def DEFAULT_MULTIPLIERS_def
        table_sizes_def table_gaps_def)
  then show ?thesis using c(2) by (simp add: all_match_def list_all_iff)
qed

text \<open>A generator that counts.\<close>

definition demo_text_config :: json where
  "demo_text_config = JObj [(''ngram_size'', JInt 3), (''heads_per_ngram'', JInt 8), (''ple_layer_ids'', JList [JInt 2]),
     (''eos_token_id'', JInt 248044), (''vocab_size'', JInt 248320), (''ngram_vocab_size_base'', JInt 20000000),
     (''make_ngram_vocab_size_divisible_by'', JInt 128)]"

theorem rowid_exactness_succeeds_witness:
  "\<exists>cases. ple_rowid_exactness (\<lambda>g n. (g mod n, g + 1)) (\<lambda>g n k. ([0..<k], g)) (JObj [(''text_config'', demo_text_config)]) 0
      = Some (Inr (0, cases)) \<and> list_all (\<lambda>(n, bad). bad = 0) cases"
proof (rule rowid_exactness_succeeds [where layer = 2])
  show "draws_below (\<lambda>(g :: int) n. (g mod n, g + 1))" by (simp add: draws_below_def)
  show "json_get (JObj [(''text_config'', demo_text_config)]) ''text_config'' = Inr (Some demo_text_config)"
    by (simp add: json_get_def dict_get_def)
qed (simp_all add: demo_text_config_def json_item_def json_get_def dict_get_def)

end
