(* ===== verification/EngineShards.thy ===== *)
theory EngineShards
  imports ExtractRows
begin

text \<open>
  How the serving engine loads the table: \<open>compute_ple_shard_overlap\<close> and \<open>copy_ple_embedding_shard_\<close> of
  \<open>research/vllm_ple_common_main.py\<close> and \<open>Qwen4ExpNGramEmbedding.load_weights\<close> of \<open>research/vllm_ngram_embedding_main.py\<close>.
  A tensor is its shape with its slices along the first dimension; conversions of element types are not modelled, and the
  loader of the remaining weights is an argument.  The lemmas show that the shards of a checkpoint, in any order, fill
  the rows of a rank, and that those are the rows a store of the same shards serves.
\<close>

section \<open>One shard\<close>

record 'r weight =
  wt_shape :: "nat list"
  wt_rows :: "'r list"

record shard_overlap =
  so_source_start :: int
  so_destination_start :: int
  so_row_count :: int

definition compute_ple_shard_overlap :: "int \<Rightarrow> int \<Rightarrow> int \<Rightarrow> int \<Rightarrow> shard_overlap option res" where
  "compute_ple_shard_overlap checkpoint_start checkpoint_rows tp_start tp_end =
     (if checkpoint_start < 0 \<or> checkpoint_rows < 0 then Inl ValueError
      else if tp_start < 0 \<or> tp_end < tp_start then Inl ValueError
      else let checkpoint_end = checkpoint_start + checkpoint_rows;
               overlap_start = max checkpoint_start tp_start;
               overlap_end = min checkpoint_end tp_end
           in if overlap_end \<le> overlap_start then Inr None
              else Inr (Some \<lparr>so_source_start = overlap_start - checkpoint_start,
                so_destination_start = overlap_start - tp_start, so_row_count = overlap_end - overlap_start\<rparr>))"

text \<open>The destination after the copy, and the rows copied.\<close>

definition copy_ple_embedding_shard ::
  "'r weight \<Rightarrow> 'r weight \<Rightarrow> int \<Rightarrow> int \<Rightarrow> int \<Rightarrow> ('r weight \<times> int) res" where
  "copy_ple_embedding_shard destination loaded_weight checkpoint_start tp_start tp_end =
     (if wt_shape destination = [] \<or> length (wt_shape loaded_weight) \<noteq> length (wt_shape destination) then Inl ValueError
      else if tl (wt_shape destination) \<noteq> tl (wt_shape loaded_weight) then Inl ValueError
      else if int (hd (wt_shape destination)) < tp_end - tp_start then Inl ValueError
      else rbind (compute_ple_shard_overlap checkpoint_start (int (hd (wt_shape loaded_weight))) tp_start tp_end) (\<lambda>overlap.
        case overlap of
          None \<Rightarrow> Inr (destination, 0)
        | Some ov \<Rightarrow>
            let source = take (nat (so_row_count ov)) (drop (nat (so_source_start ov)) (wt_rows loaded_weight));
                start = nat (so_destination_start ov); rows = wt_rows destination
            in Inr (destination\<lparr>wt_rows := take start rows @ source @ drop (start + nat (so_row_count ov)) rows\<rparr>, so_row_count ov)))"

section \<open>Loading\<close>

record 'r ngram_module =
  nm_buffers :: "(string, 'r weight) dict"
  nm_table :: "'r weight"
  nm_org_vocab_size :: int
  nm_embedding_dim :: int
  nm_split_ngram_parts :: int
  nm_tp_start :: int
  nm_tp_end :: int

definition HASHSTATS :: string where "HASHSTATS = ''hashstats_''"
definition SHARD_PREFIX :: string where "SHARD_PREFIX = ''ngram_embedding.shard_''"
definition WEIGHT_SUFFIX :: string where "WEIGHT_SUFFIX = ''.weight''"
definition TABLE_NAME :: string where "TABLE_NAME = ''ngram_embedding.weight''"

definition leaf_name :: "string \<Rightarrow> string" where
  "leaf_name name = rev (takeWhile (\<lambda>c. c \<noteq> CHR ''.'') (rev name))"

definition str_starts :: "string \<Rightarrow> string \<Rightarrow> bool" where
  "str_starts p s \<longleftrightarrow> take (length p) s = p"

definition str_ends :: "string \<Rightarrow> string \<Rightarrow> bool" where
  "str_ends p s \<longleftrightarrow> length p \<le> length s \<and> drop (length s - length p) s = p"

definition str_isdigit :: "string \<Rightarrow> bool" where
  "str_isdigit s \<longleftrightarrow> s \<noteq> [] \<and> list_all is_digit s"

text \<open>The state of the loop: the module, the names loaded and the weights left for the other loader.\<close>

type_synonym 'r load_state = "'r ngram_module \<times> string list \<times> (string \<times> 'r weight) list"

definition load_buffer :: "string \<Rightarrow> 'r weight \<Rightarrow> 'r weight \<Rightarrow> 'r load_state \<Rightarrow> 'r load_state res" where
  "load_buffer name buffer w st =
     (let (m, loaded, regular) = st
      in if wt_shape buffer \<noteq> wt_shape w then Inl ValueError
         else Inr (m\<lparr>nm_buffers := dict_set name (buffer\<lparr>wt_rows := wt_rows w\<rparr>) (nm_buffers m)\<rparr>, loaded @ [name], regular))"

definition load_shard :: "string \<Rightarrow> 'r weight \<Rightarrow> 'r load_state \<Rightarrow> 'r load_state res" where
  "load_shard shard_text w st =
     (let (m, loaded, regular) = st; shard_index = int (digits_val shard_text)
      in if 4300 < length shard_text then Inl ValueError
         else if nm_split_ngram_parts m \<le> shard_index then Inl ValueError
         else rbind (py_div (nm_org_vocab_size m + nm_split_ngram_parts m - 1) (nm_split_ngram_parts m)) (\<lambda>shard_size.
           let checkpoint_start = shard_index * shard_size;
               expected_rows = max 0 (min shard_size (nm_org_vocab_size m - checkpoint_start))
           in if map int (wt_shape w) \<noteq> [expected_rows, nm_embedding_dim m] then Inl ValueError
              else rbind (copy_ple_embedding_shard (nm_table m) w checkpoint_start (nm_tp_start m) (nm_tp_end m)) (\<lambda>(table, n).
                Inr (m\<lparr>nm_table := table\<rparr>, loaded @ [TABLE_NAME], regular))))"

definition load_one :: "string \<times> 'r weight \<Rightarrow> 'r load_state \<Rightarrow> 'r load_state res" where
  "load_one item st =
     (let (name, w) = item; (m, loaded, regular) = st; leaf = leaf_name name
      in if str_starts HASHSTATS leaf \<or> leaf = ''token_lookup'' then Inr st
         else case dict_get (nm_buffers m) name of
                Some buffer \<Rightarrow> load_buffer name buffer w st
              | None \<Rightarrow>
                  (if str_starts SHARD_PREFIX name \<and> str_ends WEIGHT_SUFFIX name
                   then let shard_text = take (length name - length SHARD_PREFIX - length WEIGHT_SUFFIX) (drop (length SHARD_PREFIX) name)
                     in if \<not> str_isdigit shard_text then Inr (m, loaded, regular @ [item]) else load_shard shard_text w st
                   else Inr (m, loaded, regular @ [item])))"

definition load_weights ::
  "((string \<times> 'r weight) list \<Rightarrow> 'r ngram_module \<Rightarrow> (string list \<times> 'r ngram_module) res) \<Rightarrow> (string \<times> 'r weight) list
     \<Rightarrow> 'r ngram_module \<Rightarrow> (string set \<times> 'r ngram_module) res" where
  "load_weights auto_loader weights m =
     rbind (rfoldM load_one weights (m, [], [])) (\<lambda>(m, loaded, regular).
       if regular = [] then Inr (set loaded, m)
       else rmap (\<lambda>(names, m). (set loaded \<union> set names, m)) (auto_loader regular m))"

section \<open>Copying a shard\<close>

text \<open>A tensor of two dimensions that holds its rows.\<close>

definition weight_ok :: "'r weight \<Rightarrow> nat \<Rightarrow> bool" where
  "weight_ok w d \<longleftrightarrow> wt_shape w = [length (wt_rows w), d]"

lemma copy_shard_rows:
  assumes "weight_ok dst d" "weight_ok w d" "0 \<le> lo" "lo \<le> hi" "hi - lo \<le> int (length (wt_rows dst))" "0 \<le> start"
  shows "\<exists>dst' n. copy_ple_embedding_shard dst w start lo hi = Inr (dst', n) \<and> weight_ok dst' d
    \<and> length (wt_rows dst') = length (wt_rows dst)
    \<and> (\<forall>j < length (wt_rows dst). wt_rows dst' ! j =
        (if int j < hi - lo \<and> start \<le> lo + int j \<and> lo + int j < start + int (length (wt_rows w))
         then wt_rows w ! nat (lo + int j - start) else wt_rows dst ! j))"
proof -
  define a where "a = max start lo"
  define b where "b = min (start + int (length (wt_rows w))) hi"
  show ?thesis
  proof (cases "b \<le> a")
    case True
    then show ?thesis
      using assms by (auto simp: copy_ple_embedding_shard_def compute_ple_shard_overlap_def weight_ok_def Let_def a_def b_def
          min_def max_def split: if_splits)
  next
    case False
    define src where "src = take (nat (b - a)) (drop (nat (a - start)) (wt_rows w))"
    define rows where "rows = take (nat (a - lo)) (wt_rows dst) @ src @ drop (nat (a - lo) + nat (b - a)) (wt_rows dst)"
    have ab: "start \<le> a" "lo \<le> a" "a < b" "b \<le> hi" "b \<le> start + int (length (wt_rows w))" using False by (auto simp: a_def b_def)
    have lsrc: "length src = nat (b - a)" using ab by (simp add: src_def)
    have lrows: "length rows = length (wt_rows dst)" using ab assms(5) lsrc by (simp add: rows_def)
    have "rows ! j = (if int j < hi - lo \<and> start \<le> lo + int j \<and> lo + int j < start + int (length (wt_rows w))
        then wt_rows w ! nat (lo + int j - start) else wt_rows dst ! j)" if "j < length (wt_rows dst)" for j
    proof -
      consider "int j < a - lo" | "a - lo \<le> int j" "int j < b - lo" | "b - lo \<le> int j" by linarith
      then show ?thesis
      proof cases
        case 1
        then show ?thesis using ab that by (auto simp: rows_def nth_append a_def)
      next
        case 2
        then have "rows ! j = src ! (j - nat (a - lo))" using ab that lsrc by (simp add: rows_def nth_append) arith
        also have "\<dots> = wt_rows w ! (nat (a - start) + (j - nat (a - lo)))" using 2 ab by (simp add: src_def)
        also have "nat (a - start) + (j - nat (a - lo)) = nat (lo + int j - start)" using 2 ab by arith
        finally show ?thesis using 2 ab by auto
      next
        case 3
        then have "rows ! j = wt_rows dst ! j" using ab that lsrc by (auto simp: rows_def nth_append)
        then show ?thesis using 3 by (auto simp: b_def)
      qed
    qed
    moreover have "copy_ple_embedding_shard dst w start lo hi = Inr (dst\<lparr>wt_rows := rows\<rparr>, b - a)"
      using assms ab False by (simp add: copy_ple_embedding_shard_def compute_ple_shard_overlap_def weight_ok_def Let_def
          rows_def src_def flip: a_def b_def)
    ultimately show ?thesis using assms(1) lrows by (simp add: weight_ok_def)
  qed
qed

section \<open>Loading a checkpoint\<close>

text \<open>A table cut into shards of \<open>rps\<close> rows, and a module whose table has the rows of its rank.\<close>

definition shard_rows :: "'r list \<Rightarrow> nat \<Rightarrow> nat \<Rightarrow> 'r list" where
  "shard_rows T rps i = py_slice i rps T"

definition shard_item :: "'r list \<Rightarrow> nat \<Rightarrow> nat \<Rightarrow> nat \<Rightarrow> string \<times> 'r weight" where
  "shard_item T rps d i = (SHARD_PREFIX @ nat_digits i @ WEIGHT_SUFFIX,
     \<lparr>wt_shape = [length (shard_rows T rps i), d], wt_rows = shard_rows T rps i\<rparr>)"

definition module_ready :: "nat \<Rightarrow> nat \<Rightarrow> nat \<Rightarrow> 'r ngram_module \<Rightarrow> bool" where
  "module_ready n rps d m \<longleftrightarrow>
     map fst (nm_buffers m) = [''layer_multipliers'', ''ngram_heads_offsets'', ''ngram_heads_vocab_sizes'']
     \<and> nm_org_vocab_size m = int (n * rps) \<and> nm_embedding_dim m = int d \<and> nm_split_ngram_parts m = int n
     \<and> 0 \<le> nm_tp_start m \<and> nm_tp_start m \<le> nm_tp_end m
     \<and> weight_ok (nm_table m) d \<and> nm_tp_end m - nm_tp_start m \<le> int (length (wt_rows (nm_table m)))"

lemma shard_rows_nth:
  assumes "length T = n * rps" "i < n"
  shows "length (shard_rows T rps i) = rps" "j < rps \<Longrightarrow> shard_rows T rps i ! j = T ! (i * rps + j)"
proof -
  have "Suc i * rps \<le> n * rps" using assms(2) by (intro mult_right_mono) auto
  then have "i * rps + rps \<le> length T" using assms(1) by simp
  then show "length (shard_rows T rps i) = rps" "j < rps \<Longrightarrow> shard_rows T rps i ! j = T ! (i * rps + j)"
    by (simp_all add: shard_rows_def py_slice_def nth_drop)
qed

lemma shard_name:
  "leaf_name (SHARD_PREFIX @ ds @ WEIGHT_SUFFIX) = ''weight''"
  "str_starts SHARD_PREFIX (SHARD_PREFIX @ ds @ WEIGHT_SUFFIX)" "str_ends WEIGHT_SUFFIX (SHARD_PREFIX @ ds @ WEIGHT_SUFFIX)"
  "take (length (SHARD_PREFIX @ ds @ WEIGHT_SUFFIX) - length SHARD_PREFIX - length WEIGHT_SUFFIX)
     (drop (length SHARD_PREFIX) (SHARD_PREFIX @ ds @ WEIGHT_SUFFIX)) = ds"
  by (simp_all add: leaf_name_def str_starts_def str_ends_def WEIGHT_SUFFIX_def)

lemma shard_key_unbuffered: "module_ready n rps d m \<Longrightarrow> dict_get (nm_buffers m) (SHARD_PREFIX @ ds) = None"
  by (simp add: module_ready_def dict_get_def map_of_eq_None_iff SHARD_PREFIX_def flip: set_map)

lemma shard_count: "0 < n \<Longrightarrow> (int (n * rps) + int n - 1) div int n = int rps"
  by (intro div_pos_pos_trivial [THEN trans] int_div_pos_eq [where r = "int n - 1"]) (auto simp: algebra_simps)

lemma div_range:
  fixes r rps i :: nat
  shows "r div rps = i \<and> 0 < rps \<longleftrightarrow> i * rps \<le> r \<and> r < i * rps + rps"
proof (cases "rps = 0")
  case False
  have "i * rps \<le> r \<and> r < i * rps + rps" if "r div rps = i"
    using that False div_mult_mod_eq [of r rps] mod_less_divisor [of rps r] by (simp, linarith)
  moreover have "r div rps = i" if "i * rps \<le> r" "r < i * rps + rps"
    using that by (intro div_nat_eqI) (simp_all add: mult.commute)
  ultimately show ?thesis using False by blast
qed simp

text \<open>One shard: the rows of the shard that the rank holds are those of the table, the others are left.\<close>

lemma load_one_shard:
  assumes T: "length T = n * rps" and i: "i < n" "length (nat_digits i) \<le> 4300" and m: "module_ready n rps d m"
  shows "\<exists>m'. load_one (shard_item T rps d i) (m, loaded, regular) = Inr (m', loaded @ [TABLE_NAME], regular)
    \<and> module_ready n rps d m' \<and> nm_tp_start m' = nm_tp_start m \<and> nm_tp_end m' = nm_tp_end m
    \<and> (\<forall>r. nm_tp_start m \<le> int r \<and> int r < nm_tp_end m \<longrightarrow> wt_rows (nm_table m') ! nat (int r - nm_tp_start m) =
        (if r div rps = i \<and> 0 < rps then T ! r else wt_rows (nm_table m) ! nat (int r - nm_tp_start m)))"
proof -
  define w where "w = \<lparr>wt_shape = [length (shard_rows T rps i), d], wt_rows = shard_rows T rps i\<rparr>"
  define lo where "lo = nm_tp_start m"
  define hi where "hi = nm_tp_end m"
  have m': "nm_org_vocab_size m = int (n * rps)" "nm_embedding_dim m = int d" "nm_split_ngram_parts m = int n" "0 \<le> lo" "lo \<le> hi"
      "weight_ok (nm_table m) d" "hi - lo \<le> int (length (wt_rows (nm_table m)))"
    using m by (simp_all add: module_ready_def lo_def hi_def)
  have w: "weight_ok w d" "length (wt_rows w) = rps" "wt_shape w = [rps, d]"
    using shard_rows_nth [OF T i(1)] by (simp_all add: weight_ok_def w_def)
  obtain dst k where dst: "copy_ple_embedding_shard (nm_table m) w (int i * int rps) lo hi = Inr (dst, k)" "weight_ok dst d"
      "length (wt_rows dst) = length (wt_rows (nm_table m))"
      "\<And>j. j < length (wt_rows (nm_table m)) \<Longrightarrow> wt_rows dst ! j =
        (if int j < hi - lo \<and> int i * int rps \<le> lo + int j \<and> lo + int j < int i * int rps + int rps
         then wt_rows w ! nat (lo + int j - int i * int rps) else wt_rows (nm_table m) ! j)"
    using copy_shard_rows [OF m'(6) w(1) m'(4,5,7), of "int i * int rps"] w(2) by auto
  have "Suc i * rps \<le> n * rps" using i(1) by (intro mult_right_mono) auto
  then have "int (Suc i * rps) \<le> int (n * rps)" by (simp only: of_nat_le_iff)
  then have rows: "max 0 (min (int rps) (int (n * rps) - int i * int rps)) = int rps" by (simp add: algebra_simps)
  have "load_shard (nat_digits i) w (m, loaded, regular) = Inr (m\<lparr>nm_table := dst\<rparr>, loaded @ [TABLE_NAME], regular)"
    using i nat_digits_props [of i] rows w(3) dst(1) m'(1,2,3) shard_count [of n rps]
    by (simp add: load_shard_def Let_def py_div_def flip: lo_def hi_def del: of_nat_mult)
  moreover have "load_one (shard_item T rps d i) (m, loaded, regular) = load_shard (nat_digits i) w (m, loaded, regular)"
    using nat_digits_props [of i] shard_key_unbuffered [OF m]
    unfolding load_one_def shard_item_def w_def [symmetric] prod.case Let_def shard_name
    by (simp add: HASHSTATS_def str_starts_def str_isdigit_def list_all_iff shard_name)
  moreover have "wt_rows dst ! nat (int r - lo) = (if r div rps = i \<and> 0 < rps then T ! r else wt_rows (nm_table m) ! nat (int r - lo))"
    if r: "lo \<le> int r" "int r < hi" for r
  proof -
    have "nat (int r - lo) < length (wt_rows (nm_table m))" using r m'(7) by linarith
    moreover have "r div rps = i \<and> 0 < rps \<longleftrightarrow> i * rps \<le> r \<and> r < i * rps + rps"
      by (rule div_range)
    moreover have "wt_rows w ! (r - i * rps) = T ! r" if "i * rps \<le> r" "r < i * rps + rps"
      using shard_rows_nth(2) [OF T i(1), of "r - i * rps"] that by (simp add: w_def)
    moreover have "nat (int r - int i * int rps) = r - i * rps" by (simp flip: of_nat_mult add: nat_minus_as_int)
    ultimately show ?thesis using dst(4) [of "nat (int r - lo)"] r by (auto simp flip: of_nat_mult of_nat_add)
  qed
  ultimately show ?thesis using m dst(2,3) by (auto simp: module_ready_def lo_def hi_def)
qed

lemma load_shards:
  assumes "length T = n * rps" "\<forall>i \<in> set is. i < n \<and> length (nat_digits i) \<le> 4300" "module_ready n rps d m"
  shows "\<exists>m'. rfoldM load_one (map (shard_item T rps d) is) (m, loaded, regular) =
      Inr (m', loaded @ replicate (length is) TABLE_NAME, regular) \<and> nm_tp_start m' = nm_tp_start m \<and> nm_tp_end m' = nm_tp_end m
    \<and> (\<forall>r. nm_tp_start m \<le> int r \<and> int r < nm_tp_end m \<longrightarrow> wt_rows (nm_table m') ! nat (int r - nm_tp_start m) =
        (if r div rps \<in> set is \<and> 0 < rps then T ! r else wt_rows (nm_table m) ! nat (int r - nm_tp_start m)))"
  using assms(2,3)
proof (induction "is" arbitrary: m loaded)
  case (Cons i js)
  obtain m1 where m1: "load_one (shard_item T rps d i) (m, loaded, regular) = Inr (m1, loaded @ [TABLE_NAME], regular)"
      "module_ready n rps d m1" "nm_tp_start m1 = nm_tp_start m" "nm_tp_end m1 = nm_tp_end m"
      "\<And>r. nm_tp_start m \<le> int r \<Longrightarrow> int r < nm_tp_end m \<Longrightarrow> wt_rows (nm_table m1) ! nat (int r - nm_tp_start m) =
        (if r div rps = i \<and> 0 < rps then T ! r else wt_rows (nm_table m) ! nat (int r - nm_tp_start m))"
    using load_one_shard [OF assms(1), of i d m loaded regular] Cons.prems by auto
  obtain m2 where m2: "rfoldM load_one (map (shard_item T rps d) js) (m1, loaded @ [TABLE_NAME], regular) =
      Inr (m2, (loaded @ [TABLE_NAME]) @ replicate (length js) TABLE_NAME, regular)"
      "nm_tp_start m2 = nm_tp_start m1" "nm_tp_end m2 = nm_tp_end m1"
      "\<And>r. nm_tp_start m1 \<le> int r \<Longrightarrow> int r < nm_tp_end m1 \<Longrightarrow> wt_rows (nm_table m2) ! nat (int r - nm_tp_start m1) =
        (if r div rps \<in> set js \<and> 0 < rps then T ! r else wt_rows (nm_table m1) ! nat (int r - nm_tp_start m1))"
    using Cons.IH [of m1 "loaded @ [TABLE_NAME]"] Cons.prems m1(2) by auto
  show ?case
  proof (intro exI [of _ m2] conjI allI impI)
    fix r assume r: "nm_tp_start m \<le> int r \<and> int r < nm_tp_end m"
    then show "wt_rows (nm_table m2) ! nat (int r - nm_tp_start m) =
        (if r div rps \<in> set (i # js) \<and> 0 < rps then T ! r else wt_rows (nm_table m) ! nat (int r - nm_tp_start m))"
      using m1(5) [of r] m2(4) [of r] m1(3,4) by simp
  qed (use m1(1,3,4) m2(1,2,3) in simp_all)
qed simp

lemma concat_row:
  "\<lbrakk>\<forall>x \<in> set xs. length x = w; j < length xs\<rbrakk> \<Longrightarrow> py_slice j w (concat xs) = xs ! j"
proof (induction xs arbitrary: j)
  case (Cons x xs)
  then show ?case by (cases j) (simp_all add: py_slice_def)
qed simp

lemma rank_rows:
  assumes "length T = n * rps" "set is = {..<n}" "n * rps < 2 ^ 64" "module_ready n rps d m" "nm_tp_end m \<le> int (n * rps)" "0 < n"
    "0 < rps"
  shows "\<exists>m'. load_weights auto_loader (map (shard_item T rps d) is) m = Inr ({TABLE_NAME}, m')
    \<and> (\<forall>r. nm_tp_start m \<le> int r \<and> int r < nm_tp_end m \<longrightarrow> wt_rows (nm_table m') ! nat (int r - nm_tp_start m) = T ! r)"
proof -
  have "length (nat_digits i) \<le> 4300" if "i < n" for i
  proof -
    have "n * 1 \<le> n * rps" using assms(7) by (intro mult_left_mono) auto
    then have "i < 2 ^ 64" using that assms(3) by linarith
    moreover have "(2::nat) ^ 64 < 10 ^ Suc 19" by simp
    ultimately have "i < 10 ^ Suc 19" by (rule less_trans)
    then have "length (nat_digits i) \<le> Suc 19" by (rule length_nat_digits)
    then show ?thesis by simp
  qed
  then have "\<forall>i \<in> set is. i < n \<and> length (nat_digits i) \<le> 4300" by (simp add: assms(2))
  from load_shards [OF assms(1) this assms(4), of "[]" "[]"]
  obtain m' where m': "rfoldM load_one (map (shard_item T rps d) is) (m, [], []) = Inr (m', [] @ replicate (length is) TABLE_NAME, [])"
      "\<forall>r. nm_tp_start m \<le> int r \<and> int r < nm_tp_end m \<longrightarrow> wt_rows (nm_table m') ! nat (int r - nm_tp_start m) =
        (if r div rps \<in> set is \<and> 0 < rps then T ! r else wt_rows (nm_table m) ! nat (int r - nm_tp_start m))"
    by (elim exE conjE) (rule that)
  have "0 \<in> set is" unfolding assms(2) using assms(6) by simp
  then have "length is \<noteq> 0" by auto
  then have "load_weights auto_loader (map (shard_item T rps d) is) m = Inr ({TABLE_NAME}, m')"
    unfolding load_weights_def m'(1) by (simp add: set_replicate)
  moreover have "wt_rows (nm_table m') ! nat (int r - nm_tp_start m) = T ! r" if r: "nm_tp_start m \<le> int r" "int r < nm_tp_end m" for r
  proof -
    have "int r < int (n * rps)" using r(2) assms(5) by linarith
    then have "r < n * rps" by (simp only: of_nat_less_iff)
    then have "r div rps \<in> set is" using assms(7) by (simp add: assms(2) div_less_iff_less_mult)
    then show ?thesis using m'(2) r assms(7) by simp
  qed
  ultimately show ?thesis by blast
qed

text \<open>
  C36: The serving engine and EngramDB read the same rows from a checkpoint.  The module that loads the shards of a table,
  in any order and with any repetition, holds at every row of its rank the bytes that a native store opened on the same
  shards returns for that row, and the names it reports are the table's alone.
\<close>

theorem engine_table_is_the_store:
  assumes "length T = n * rps" "list_all (\<lambda>row. length row = w) T" "0 < n * rps" "n * rps < 2 ^ 64" "set is = {..<n}"
    "module_ready n rps d m" "nm_tp_end m \<le> int (n * rps)"
  shows "\<exists>m' st. load_weights auto_loader (map (shard_item T rps d) is) m = Inr ({TABLE_NAME}, m')
    \<and> store_open (\<lambda>i. Some (concat (shard_rows T rps i))) n rps w = Inr st
    \<and> list_all (\<lambda>j. store_fetch st [nm_tp_start m + int j] = Inr (wt_rows (nm_table m') ! j)) [0..<nat (nm_tp_end m - nm_tp_start m)]"
proof -
  have pos: "0 < n" "0 < rps" using assms(3) by auto
  obtain m' where m': "load_weights auto_loader (map (shard_item T rps d) is) m = Inr ({TABLE_NAME}, m')"
      "\<And>r. nm_tp_start m \<le> int r \<Longrightarrow> int r < nm_tp_end m \<Longrightarrow> wt_rows (nm_table m') ! nat (int r - nm_tp_start m) = T ! r"
    using rank_rows [OF assms(1,5,4,6,7) pos] by blast
  have row: "\<forall>x \<in> set (shard_rows T rps i). length x = w" for i
    using assms(2) by (auto simp: shard_rows_def py_slice_def list_all_iff dest!: in_set_takeD in_set_dropD)
  have "length (concat (shard_rows T rps i)) = rps * w" if "i < n" for i
    using shard_rows_nth(1) [OF assms(1) that] row [of i] length_concat_const [of "shard_rows T rps i" w] by simp
  then obtain st where st: "store_open (\<lambda>i. Some (concat (shard_rows T rps i))) n rps w = Inr st"
      "\<And>rows. list_all (\<lambda>r. 0 \<le> r \<and> nat r < n * rps) rows \<Longrightarrow> store_fetch st rows =
        Inr (concat (map (\<lambda>r. py_slice (nat r mod rps) w (concat (shard_rows T rps (nat r div rps)))) rows))"
    using whole_shards_served [where t = "\<lambda>i. concat (shard_rows T rps i)", OF refl _ assms(4)] by blast
  have "store_fetch st [nm_tp_start m + int j] = Inr (wt_rows (nm_table m') ! j)" if j: "j < nat (nm_tp_end m - nm_tp_start m)" for j
  proof -
    define r where "r = nat (nm_tp_start m) + j"
    have lo: "0 \<le> nm_tp_start m" using assms(6) by (simp add: module_ready_def)
    then have r: "nm_tp_start m + int j = int r" "nm_tp_start m \<le> int r" "int r < nm_tp_end m" "nat (int r - nm_tp_start m) = j"
      using j by (auto simp: r_def)
    then have "int r < int (n * rps)" using assms(7) by linarith
    then have rn: "r < n * rps" by (simp only: of_nat_less_iff)
    then have i: "r div rps < n" using pos by (simp add: div_less_iff_less_mult)
    have "shard_rows T rps (r div rps) ! (r mod rps) = T ! r" "r mod rps < length (shard_rows T rps (r div rps))"
      using shard_rows_nth(2) [OF assms(1) i, of "r mod rps"] shard_rows_nth(1) [OF assms(1) i] pos(2) by simp_all
    then show ?thesis using st(2) [of "[int r]"] rn r m'(2) [OF r(2,3)] concat_row [OF row] by simp
  qed
  then show ?thesis using m'(1) st(1) by (auto simp: list_all_iff)
qed

text \<open>Two shards of three rows, loaded in the wrong order by a rank that has the rows 2, 3 and 4.\<close>

definition two_shards :: "bytes list" where
  "two_shards = map (\<lambda>i. [of_nat i, 7]) [0..<6]"

definition rank_module :: "bytes ngram_module" where
  "rank_module = \<lparr>nm_buffers = map (\<lambda>k. (k, \<lparr>wt_shape = [], wt_rows = []\<rparr>))
       [''layer_multipliers'', ''ngram_heads_offsets'', ''ngram_heads_vocab_sizes''],
     nm_table = \<lparr>wt_shape = [3, 1], wt_rows = [[0, 0], [0, 0], [0, 0]]\<rparr>, nm_org_vocab_size = 6, nm_embedding_dim = 1,
     nm_split_ngram_parts = 2, nm_tp_start = 2, nm_tp_end = 5\<rparr>"

lemma engine_table_is_the_store_witness:
  "\<exists>m' st. load_weights (\<lambda>_ m. Inr ([], m)) (map (shard_item two_shards 3 1) [1, 0]) rank_module = Inr ({TABLE_NAME}, m')
    \<and> store_open (\<lambda>i. Some (concat (shard_rows two_shards 3 i))) 2 3 2 = Inr st
    \<and> list_all (\<lambda>j. store_fetch st [nm_tp_start rank_module + int j] = Inr (wt_rows (nm_table m') ! j))
        [0..<nat (nm_tp_end rank_module - nm_tp_start rank_module)]"
proof (rule engine_table_is_the_store)
  show "module_ready 2 3 1 rank_module"
    by (simp add: module_ready_def rank_module_def weight_ok_def)
  show "set [1, 0] = {..<2::nat}" by auto
qed (simp_all add: two_shards_def rank_module_def list_all_iff)

end
