(* ===== verification/EngineMmap.thy ===== *)
theory EngineMmap
  imports EngineShards EngineIds
begin

text \<open>
  \<open>MmapPleTable\<close> of \<open>research/vllm_ple_mmap_54129.py\<close>: the table a patched engine reads from memory-mapped shard files.
  \<open>np.memmap\<close>, \<open>np.unique\<close>, \<open>np.empty\<close>, \<open>os.open\<close>, \<open>posix_fadvise\<close> and the order in which the thread pool runs the tasks
  are arguments; the clock is the argument that says whether the statistics are due.  The lemmas show that a gather
  returns the rows a native store serves, whatever the tasks and the prefetch do, and that the prefetch asks for the bytes
  of the rows and no others.
\<close>

section \<open>Runs and segments\<close>

text \<open>\<open>np.flatnonzero(P) + 1\<close> over the neighbours of an array of \<open>n\<close> elements, and the pieces between the breaks.\<close>

definition breaks :: "(nat \<Rightarrow> bool) \<Rightarrow> nat \<Rightarrow> nat list" where
  "breaks P n = map Suc (filter P [0..<n - 1])"

definition pieces :: "nat list \<Rightarrow> nat \<Rightarrow> (nat \<times> nat) list" where
  "pieces brs n = zip (0 # brs) (brs @ [n])"

definition coalesce_runs :: "int list \<Rightarrow> int \<Rightarrow> (int \<times> int) list" where
  "coalesce_runs offsets row_bytes =
     (if offsets = [] then []
      else map (\<lambda>(a, b). (offsets ! a, int (b - a) * row_bytes))
        (pieces (breaks (\<lambda>i. offsets ! Suc i \<noteq> offsets ! i + row_bytes) (length offsets)) (length offsets)))"

section \<open>The table\<close>

record mapped =
  mp_path :: string
  mp_offset :: nat
  mp_rows :: "bytes list"

record mmap_table =
  mt_shard_size :: int
  mt_row_bytes :: nat
  mt_chunk :: nat
  mt_workers :: nat
  mt_readahead :: nat
  mt_serial :: nat
  mt_mm :: "mapped option list"
  mt_rows_total :: int
  mt_fds :: "(string, nat) dict"
  mt_shard_fds :: "nat option list"
  mt_errors :: nat
  mt_bound_warned :: bool
  mt_rows_since_log :: nat
  mt_gathers_since_log :: nat
  mt_serial_since_log :: nat
  mt_closed :: bool

type_synonym shard_map = "(nat, string \<times> nat \<times> nat) dict"

definition open_one_fd :: "(string \<Rightarrow> nat option) \<Rightarrow> nat \<times> string \<times> nat \<times> nat \<Rightarrow> mmap_table \<Rightarrow> mmap_table" where
  "open_one_fd os_open shard t =
     (let (idx, path, _, _) = shard
      in case dict_get (mt_fds t) path of
           Some fd \<Rightarrow> t\<lparr>mt_shard_fds := (mt_shard_fds t)[idx := Some fd]\<rparr>
         | None \<Rightarrow> (case os_open path of
             None \<Rightarrow> t
           | Some fd \<Rightarrow> t\<lparr>mt_fds := dict_set path fd (mt_fds t), mt_shard_fds := (mt_shard_fds t)[idx := Some fd]\<rparr>))"

definition open_readahead_fds :: "(string \<Rightarrow> nat option) \<Rightarrow> shard_map \<Rightarrow> mmap_table \<Rightarrow> mmap_table" where
  "open_readahead_fds os_open shards t = fold (open_one_fd os_open) shards t"

text \<open>\<open>memmap path offset rows row_bytes\<close> are the rows mapped, or what the call raises.\<close>

type_synonym memmap = "string \<Rightarrow> nat \<Rightarrow> nat \<Rightarrow> nat \<Rightarrow> bytes list res"

definition map_one_shard :: "memmap \<Rightarrow> nat \<Rightarrow> nat \<times> string \<times> nat \<times> nat \<Rightarrow> mapped option list \<times> int \<Rightarrow> (mapped option list \<times> int) res" where
  "map_one_shard memmap row_bytes shard acc =
     (let (idx, path, off, rows) = shard; (mm, rows_total) = acc
      in rbind (memmap path off rows row_bytes) (\<lambda>rs.
           Inr (mm[idx := Some \<lparr>mp_path = path, mp_offset = off, mp_rows = rs\<rparr>], rows_total + int rows)))"

definition map_shards :: "memmap \<Rightarrow> nat \<Rightarrow> shard_map \<Rightarrow> (mapped option list \<times> int) res" where
  "map_shards memmap row_bytes shards =
     rfoldM (map_one_shard memmap row_bytes) shards (replicate (Suc (foldr max (map fst shards) 0)) None, 0)"

definition fresh_table :: "int \<Rightarrow> nat \<Rightarrow> int \<Rightarrow> int \<Rightarrow> nat \<Rightarrow> int \<Rightarrow> mapped option list \<Rightarrow> int \<Rightarrow> mmap_table" where
  "fresh_table shard_size row_bytes workers chunk window serial mm rows_total =
     \<lparr>mt_shard_size = shard_size, mt_row_bytes = row_bytes, mt_chunk = nat (max 1 chunk), mt_workers = nat (max 1 workers),
      mt_readahead = window, mt_serial = nat (max 0 serial), mt_mm = mm, mt_rows_total = rows_total, mt_fds = [],
      mt_shard_fds = replicate (length mm) None, mt_errors = 0, mt_bound_warned = False,
      mt_rows_since_log = 0, mt_gathers_since_log = 0, mt_serial_since_log = 0, mt_closed = False\<rparr>"

definition mmap_init ::
  "memmap \<Rightarrow> (string \<Rightarrow> nat option) \<Rightarrow> bool \<Rightarrow> shard_map \<Rightarrow> int \<Rightarrow> nat \<Rightarrow> int \<Rightarrow> int \<Rightarrow> int \<Rightarrow> int \<Rightarrow> mmap_table res" where
  "mmap_init memmap os_open has_fadvise shards shard_size row_bytes workers chunk readahead serial =
     (if shards = [] then Inl ValueError
      else rbind (map_shards memmap row_bytes shards) (\<lambda>(mm, rows_total).
        let window = (if has_fadvise then nat (max 0 readahead) else 0);
            t = fresh_table shard_size row_bytes workers chunk window serial mm rows_total;
            t = (if 0 < window then open_readahead_fds os_open shards t else t)
        in Inr (if 0 < window \<and> mt_fds t = [] then t\<lparr>mt_readahead := 0\<rparr> else t)))"

section \<open>The prefetch\<close>

definition slice :: "nat \<Rightarrow> nat \<Rightarrow> 'a list \<Rightarrow> 'a list" where
  "slice a b xs = take (b - a) (drop a xs)"

text \<open>The runs counted, and the offsets of each segment with its file.\<close>

definition plan_segment :: "mmap_table \<Rightarrow> nat list \<Rightarrow> int list \<Rightarrow> nat \<times> nat \<Rightarrow> nat \<times> (nat \<times> int list) list
    \<Rightarrow> (nat \<times> (nat \<times> int list) list) res" where
  "plan_segment t shard local seg acc =
     (let (s, e) = seg; (runs, segments) = acc
      in rbind (py_nth (mt_mm t) (shard ! s)) (\<lambda>mm. rbind (py_nth (mt_shard_fds t) (shard ! s)) (\<lambda>fd.
           case (mm, fd) of
             (Some m, Some d) \<Rightarrow>
               let offsets = map (\<lambda>l. int (mp_offset m) + l * int (mt_row_bytes t)) (slice s e local);
                   jumps = filter (\<lambda>i. offsets ! Suc i \<noteq> offsets ! i + int (mt_row_bytes t)) [0..<length offsets - 1]
               in Inr (runs + (length jumps + 1), segments @ [(d, offsets)])
           | _ \<Rightarrow> Inr (runs, segments))))"

text \<open>\<open>advise n fd run\<close>: whether the \<open>n\<close>-th call of \<open>posix_fadvise\<close> succeeds.  The calls made are the second result.\<close>

type_synonym advise = "nat \<Rightarrow> nat \<Rightarrow> int \<times> int \<Rightarrow> bool"
type_synonym advised = "(nat \<times> int \<times> int) list"

definition issue_run :: "advise \<Rightarrow> nat \<Rightarrow> int \<times> int \<Rightarrow> mmap_table \<times> advised \<Rightarrow> mmap_table \<times> advised" where
  "issue_run advise fd run acc =
     (let (t, calls) = acc
      in (if advise (length calls) fd run then t
          else t\<lparr>mt_shard_fds := map (\<lambda>f. if f = Some fd then None else f) (mt_shard_fds t)\<rparr>, calls @ [(fd, run)]))"

definition issue_segments :: "advise \<Rightarrow> (nat \<times> int list) list \<Rightarrow> mmap_table \<times> advised \<Rightarrow> mmap_table \<times> advised" where
  "issue_segments advise segments acc =
     fold (\<lambda>(fd, offsets) acc. fold (issue_run advise fd) (coalesce_runs offsets (int (mt_row_bytes (fst acc)))) acc) segments acc"

definition readahead :: "advise \<Rightarrow> (nat \<times> nat) list \<Rightarrow> nat list \<Rightarrow> int list \<Rightarrow> mmap_table \<Rightarrow> (nat \<times> mmap_table \<times> advised) res" where
  "readahead advise segs shard local t =
     rbind (rfoldM (plan_segment t shard local) segs (0, [])) (\<lambda>(runs, segments).
       if mt_readahead t < runs then Inr (runs, t\<lparr>mt_bound_warned := True\<rparr>, [])
       else Inr (runs, issue_segments advise segments (t, [])))"

section \<open>A gather\<close>

type_synonym mmap_task = "nat \<times> nat \<times> nat"

definition py_steps :: "nat \<Rightarrow> nat \<Rightarrow> nat \<Rightarrow> nat list" where
  "py_steps s e w = map (\<lambda>i. s + i * w) [0..<(e - s + w - 1) div w]"

definition gather_chunks :: "nat \<Rightarrow> nat list \<Rightarrow> (nat \<times> nat) list \<Rightarrow> mmap_task list" where
  "gather_chunks chunk shard segs =
     concat (map (\<lambda>(s, e). map (\<lambda>c. (shard ! s, c, min (c + chunk) e)) (py_steps s e chunk)) segs)"

definition run_task :: "mapped option list \<Rightarrow> int list \<Rightarrow> mmap_task \<Rightarrow> bytes list \<Rightarrow> bytes list res" where
  "run_task mm local task out =
     (let (si, a, b) = task
      in rbind (py_nth mm si) (\<lambda>m. case m of
           None \<Rightarrow> Inl IndexError
         | Some m \<Rightarrow> rmap (\<lambda>rows. take a out @ rows @ drop b out)
             (rmapM (\<lambda>l. rbind (tensor_position (length (mp_rows m)) l) (py_nth (mp_rows m))) (slice a b local))))"

definition record_gather :: "bool \<Rightarrow> nat \<Rightarrow> bool \<Rightarrow> mmap_table \<Rightarrow> mmap_table" where
  "record_gather log_due rows serial t =
     (if log_due then t\<lparr>mt_rows_since_log := 0, mt_gathers_since_log := 0, mt_serial_since_log := 0\<rparr>
      else t\<lparr>mt_rows_since_log := mt_rows_since_log t + rows, mt_gathers_since_log := mt_gathers_since_log t + 1,
        mt_serial_since_log := mt_serial_since_log t + (if serial then 1 else 0)\<rparr>)"

text \<open>What the environment decides in a gather.\<close>

record gather_env =
  ge_unique :: "int list \<Rightarrow> int list \<times> nat list"
  ge_empty :: "nat \<Rightarrow> bytes list"
  ge_advise :: advise
  ge_order :: "mmap_task list \<Rightarrow> mmap_task list"
  ge_log_due :: bool

definition copy_rows_of :: "gather_env \<Rightarrow> int list \<Rightarrow> nat list \<Rightarrow> nat list \<Rightarrow> int list \<Rightarrow> (nat \<times> nat) list \<Rightarrow> nat \<Rightarrow> mmap_table
    \<Rightarrow> bytes list res \<times> mmap_table" where
  "copy_rows_of env ids positions shard local segs n t =
     (let serial = (0 < mt_serial t \<and> n \<le> mt_serial t); tasks = gather_chunks (mt_chunk t) shard segs
      in case (if serial \<or> length tasks = 1 then rfoldM (run_task (mt_mm t) local) tasks (ge_empty env n)
               else if mt_closed t then Inl RuntimeError
               else rfoldM (run_task (mt_mm t) local) (ge_order env tasks) (ge_empty env n)) of
           Inl e \<Rightarrow> (Inl e, t\<lparr>mt_errors := mt_errors t + 1\<rparr>)
         | Inr out \<Rightarrow> (rmapM (py_nth out) positions, record_gather (ge_log_due env) (length ids) serial t))"

definition mmap_gather :: "gather_env \<Rightarrow> int list \<Rightarrow> mmap_table \<Rightarrow> bytes list res \<times> advised \<times> mmap_table" where
  "mmap_gather env ids t =
     (if ids = [] then (Inr [], [], t)
      else let (uniq, positions) = ge_unique env ids
        in if hd uniq < 0 \<or> mt_rows_total t \<le> last uniq then (Inl IndexError, [], t\<lparr>mt_errors := mt_errors t + 1\<rparr>)
           else let shard = map (\<lambda>u. nat (u div mt_shard_size t)) uniq;
                    local = map (\<lambda>u. u - u div mt_shard_size t * mt_shard_size t) uniq;
                    n = length uniq;
                    segs = pieces (breaks (\<lambda>i. shard ! Suc i \<noteq> shard ! i) n) n
             in if 0 < mt_readahead t
                then (case readahead (ge_advise env) segs shard local t of
                    Inl e \<Rightarrow> if e = OSError \<or> e = ValueError
                      then let (r, t) = copy_rows_of env ids positions shard local segs n t in (r, [], t)
                      else (Inl e, [], t)
                  | Inr (_, t, calls) \<Rightarrow> let (r, t) = copy_rows_of env ids positions shard local segs n t in (r, calls, t))
                else let (r, t) = copy_rows_of env ids positions shard local segs n t in (r, [], t))"

definition mmap_close :: "mmap_table \<Rightarrow> mmap_table" where
  "mmap_close t =
     (if mt_closed t then t
      else t\<lparr>mt_closed := True, mt_mm := replicate (length (mt_mm t)) None, mt_fds := [],
        mt_shard_fds := replicate (length (mt_shard_fds t)) None\<rparr>)"

section \<open>The pieces cover the array\<close>

lemma sorted_breaks: "sorted_wrt (<) (breaks P n)"
  by (simp add: breaks_def sorted_wrt_map sorted_wrt_filter)

lemma breaks_in: "c \<in> set (breaks P n) \<longleftrightarrow> 0 < c \<and> c < n \<and> P (c - 1)"
  by (cases c) (auto simp: breaks_def)

lemma pieces_from:
  "\<lbrakk>sorted_wrt (<) (a # brs); last (a # brs) < n\<rbrakk> \<Longrightarrow>
     concat (map (\<lambda>(a, b). [a..<b]) (zip (a # brs) (brs @ [n]))) = [a..<n]
     \<and> (\<forall>(s, e) \<in> set (zip (a # brs) (brs @ [n])). a \<le> s \<and> s < e \<and> e \<le> n \<and> (\<forall>c \<in> set brs. \<not> (s < c \<and> c < e)))"
proof (induction brs arbitrary: a)
  case (Cons b brs)
  have le: "a < b" "\<forall>c \<in> set brs. b < c" using Cons.prems by auto
  have bn: "b \<le> n"
  proof (cases "brs = []")
    case False
    then have "b < last brs" using le(2) by simp
    then show ?thesis using Cons.prems(2) False by simp
  qed (use Cons.prems(2) in simp)
  have "\<forall>(s, e) \<in> set (zip (b # brs) (brs @ [n])). a \<le> s \<and> s < e \<and> e \<le> n \<and> (\<forall>c \<in> set (b # brs). \<not> (s < c \<and> c < e))"
    using Cons.IH [of b] Cons.prems le bn by fastforce
  moreover have "\<forall>c \<in> set (b # brs). \<not> (a < c \<and> c < b)" using le by auto
  moreover have "concat (map (\<lambda>(a, b). [a..<b]) (zip (a # b # brs) ((b # brs) @ [n]))) = [a..<n]"
    using Cons.IH [of b] Cons.prems le bn upt_add_eq_append [of a b "n - b"] by simp
  ultimately show ?case using le bn by simp
qed simp

lemma pieces_breaks:
  assumes "0 < n"
  shows "concat (map (\<lambda>(a, b). [a..<b]) (pieces (breaks P n) n)) = [0..<n]"
    and "(s, e) \<in> set (pieces (breaks P n) n) \<Longrightarrow> s < e \<and> e \<le> n \<and> (\<forall>i. s \<le> i \<and> Suc i < e \<longrightarrow> \<not> P i)"
proof -
  have "last (0 # breaks P n) < n" using assms breaks_in [of "last (breaks P n)" P n] by auto
  moreover have "sorted_wrt (<) (0 # breaks P n)" using sorted_breaks by (auto simp: breaks_in)
  ultimately have *: "concat (map (\<lambda>(a, b). [a..<b]) (pieces (breaks P n) n)) = [0..<n]
     \<and> (\<forall>(s, e) \<in> set (pieces (breaks P n) n). 0 \<le> s \<and> s < e \<and> e \<le> n \<and> (\<forall>c \<in> set (breaks P n). \<not> (s < c \<and> c < e)))"
    unfolding pieces_def by (intro pieces_from)
  then show "concat (map (\<lambda>(a, b). [a..<b]) (pieces (breaks P n) n)) = [0..<n]" by blast
  assume "(s, e) \<in> set (pieces (breaks P n) n)"
  then have se: "s < e" "e \<le> n" "\<forall>c \<in> set (breaks P n). \<not> (s < c \<and> c < e)" using * by auto
  have "\<not> P i" if "s \<le> i" "Suc i < e" for i
    using se(3) that breaks_in [of "Suc i" P n] se(2) by auto
  then show "s < e \<and> e \<le> n \<and> (\<forall>i. s \<le> i \<and> Suc i < e \<longrightarrow> \<not> P i)" using se by blast
qed

lemma slice_nth: "e \<le> length xs \<Longrightarrow> map ((!) xs) [s..<e] = slice s e xs"
  by (rule nth_equalityI) (auto simp: slice_def)

lemma concat_map_nested: "concat (map f (concat xss)) = concat (map (\<lambda>xs. concat (map f xs)) xss)"
  by (induction xss) simp_all

lemma pieces_slices:
  assumes "xs \<noteq> []" "n = length xs"
  shows "concat (map (\<lambda>(a, b). concat (map f (slice a b xs))) (pieces (breaks P n) n)) = concat (map f xs)"
proof -
  have n: "0 < n" using assms by simp
  have "concat (map (\<lambda>(a, b). concat (map f (slice a b xs))) (pieces (breaks P n) n))
      = concat (map (\<lambda>(a, b). concat (map (\<lambda>i. f (xs ! i)) [a..<b])) (pieces (breaks P n) n))"
    using pieces_breaks(2) [OF n] assms(2)
    by (intro arg_cong [of _ _ concat] map_cong) (auto simp: slice_nth [symmetric] comp_def)
  also have "\<dots> = concat (map (\<lambda>i. f (xs ! i)) (concat (map (\<lambda>(a, b). [a..<b]) (pieces (breaks P n) n))))"
    by (simp add: concat_map_nested comp_def case_prod_unfold)
  also have "\<dots> = concat (map f (map ((!) xs) [0..<length xs]))"
    unfolding pieces_breaks(1) [OF n] by (simp add: assms(2) comp_def)
  finally show ?thesis by (simp only: map_nth)
qed

section \<open>The prefetch asks for the bytes of the rows\<close>

lemma int_range_append: "a \<le> b + 1 \<Longrightarrow> b \<le> c \<Longrightarrow> [a..b] @ [b + 1..c] = [a..c]" for a b c :: int
proof (cases "a \<le> b")
  case False
  assume "a \<le> b + 1"
  with False have "a = b + 1" by simp
  then show ?thesis by simp
qed (simp add: upto_split2 [of a b c])

text \<open>A run of rows that abut is the range of its rows.\<close>

lemma abutting_range:
  assumes "0 \<le> w" "\<And>i. Suc i < length xs \<Longrightarrow> xs ! Suc i = xs ! i + w" "xs \<noteq> []"
  shows "[hd xs..hd xs + int (length xs) * w - 1] = concat (map (\<lambda>x. [x..x + w - 1]) xs)"
  using assms
proof (induction xs)
  case (Cons x xs)
  show ?case
  proof (cases xs)
    case (Cons y ys)
    have y: "y = x + w" using Cons.prems(2) [of 0] local.Cons by simp
    have "xs ! Suc i = xs ! i + w" if "Suc i < length xs" for i using Cons.prems(2) [of "Suc i"] that by simp
    then have "[y..y + int (length xs) * w - 1] = concat (map (\<lambda>x. [x..x + w - 1]) xs)"
      using Cons.IH Cons.prems(1) local.Cons by simp
    moreover have "[x..x + w - 1] @ [y..y + int (length xs) * w - 1] = [x..x + int (Suc (length xs)) * w - 1]"
      using int_range_append [of x "x + w - 1" "y + int (length xs) * w - 1"] y Cons.prems(1) by (simp add: algebra_simps)
    ultimately show ?thesis by simp
  qed simp
qed simp

lemma coalesce_covers:
  assumes "0 \<le> w"
  shows "concat (map (\<lambda>(off, len). [off..off + len - 1]) (coalesce_runs offsets w)) = concat (map (\<lambda>off. [off..off + w - 1]) offsets)"
proof (cases "offsets = []")
  case False
  define n where "n = length offsets"
  define P where "P = (\<lambda>i. offsets ! Suc i \<noteq> offsets ! i + w)"
  have n: "0 < n" using False by (simp add: n_def)
  have run: "[offsets ! a..offsets ! a + int (b - a) * w - 1] = concat (map (\<lambda>off. [off..off + w - 1]) (slice a b offsets))"
    if "(a, b) \<in> set (pieces (breaks P n) n)" for a b
  proof -
    have ab: "a < b" "b \<le> n" "\<forall>i. a \<le> i \<and> Suc i < b \<longrightarrow> \<not> P i" using pieces_breaks(2) [OF n that] by auto
    then have "length (slice a b offsets) = b - a" "hd (slice a b offsets) = offsets ! a" "slice a b offsets \<noteq> []"
      by (auto simp: slice_def n_def hd_conv_nth)
    moreover have "slice a b offsets ! Suc i = slice a b offsets ! i + w" if "Suc i < length (slice a b offsets)" for i
      using ab that unfolding slice_def by (simp add: n_def P_def)
    ultimately show ?thesis using abutting_range [OF assms, of "slice a b offsets"] by simp
  qed
  have "concat (map (\<lambda>(off, len). [off..off + len - 1]) (coalesce_runs offsets w))
      = concat (map (\<lambda>(a, b). [offsets ! a..offsets ! a + int (b - a) * w - 1]) (pieces (breaks P n) n))"
    using False by (simp add: coalesce_runs_def n_def P_def comp_def case_prod_unfold)
  also have "\<dots> = concat (map (\<lambda>(a, b). concat (map (\<lambda>off. [off..off + w - 1]) (slice a b offsets))) (pieces (breaks P n) n))"
    using run by (intro arg_cong [of _ _ concat] map_cong) auto
  finally show ?thesis using pieces_slices [OF False n_def] by simp
qed (simp add: coalesce_runs_def)

section \<open>The tasks fill the rows\<close>

lemma py_steps_cover:
  assumes "0 < w" "s \<le> j" "j < e"
  shows "\<exists>c \<in> set (py_steps s e w). c \<le> j \<and> j < min (c + w) e"
proof -
  define i where "i = (j - s) div w"
  have "i * w \<le> j - s" "j - s < i * w + w" using div_range [of "j - s" w i] assms(1) by (simp_all add: i_def)
  moreover have "i < (e - s + w - 1) div w"
  proof -
    have "i + 1 = (j - s + w) div w" using assms(1) by (simp add: i_def)
    also have "\<dots> \<le> (e - s + w - 1) div w" using assms by (intro div_le_mono) linarith
    finally show ?thesis by simp
  qed
  ultimately show ?thesis using assms by (intro bexI [of _ "s + i * w"]) (auto simp: py_steps_def)
qed

lemma py_steps_in:
  assumes "0 < w" "c \<in> set (py_steps s e w)"
  shows "s \<le> c \<and> c < e"
proof -
  have "c \<in> (\<lambda>i. s + i * w) ` {0..<(e - s + w - 1) div w}" using assms(2) by (simp only: py_steps_def set_map set_upt)
  then obtain i where i: "c = s + i * w" "i < (e - s + w - 1) div w" by (elim imageE) (rule that, assumption, simp only: atLeastLessThan_iff)
  then have "Suc i * w \<le> e - s + w - 1" using assms(1) by (simp add: Suc_le_eq [symmetric] less_eq_div_iff_mult_less_eq del: mult_Suc)
  then show ?thesis using i(1) assms(1) unfolding mult_Suc by linarith
qed

definition paste :: "bytes list \<Rightarrow> mmap_task \<Rightarrow> bytes list \<Rightarrow> bytes list" where
  "paste R task out = (let (si, a, b) = task in take a out @ slice a b R @ drop b out)"

lemma paste_all:
  assumes "list_all (\<lambda>(si, a, b). a \<le> b \<and> b \<le> length R) tasks" "length out = length R"
  shows "length (fold (paste R) tasks out) = length R
    \<and> (\<forall>j < length R. fold (paste R) tasks out ! j = (if \<exists>(si, a, b) \<in> set tasks. a \<le> j \<and> j < b then R ! j else out ! j))"
  using assms
proof (induction tasks arbitrary: out)
  case (Cons task tasks)
  obtain si a b where task: "task = (si, a, b)" by (cases task)
  have ab: "a \<le> b" "b \<le> length R" using Cons.prems(1) task by auto
  have len: "length (paste R task out) = length R" using ab Cons.prems(2) by (simp add: paste_def task slice_def)
  have "paste R task out ! j = (if a \<le> j \<and> j < b then R ! j else out ! j)" if "j < length R" for j
    using ab that Cons.prems(2) by (auto simp: paste_def task slice_def nth_append)
  then show ?case using Cons.IH [OF _ len] Cons.prems(1) task by auto
qed simp

section \<open>A gather returns the rows\<close>

text \<open>The documented behaviour of the environment.\<close>

definition unique_law :: "(int list \<Rightarrow> int list \<times> nat list) \<Rightarrow> bool" where
  "unique_law unique \<longleftrightarrow> (\<forall>ids. sorted (fst (unique ids)) \<and> set (fst (unique ids)) = set ids
     \<and> length (snd (unique ids)) = length ids
     \<and> (\<forall>i < length ids. snd (unique ids) ! i < length (fst (unique ids)) \<and> fst (unique ids) ! (snd (unique ids) ! i) = ids ! i))"

definition gather_env_ok :: "gather_env \<Rightarrow> bool" where
  "gather_env_ok env \<longleftrightarrow> unique_law (ge_unique env) \<and> (\<forall>n. length (ge_empty env n) = n) \<and> (\<forall>ts. set (ge_order env ts) = set ts)"

text \<open>A table whose mapped shards are those of the rows \<open>T\<close>.\<close>

definition mmap_serves :: "bytes list \<Rightarrow> nat \<Rightarrow> nat \<Rightarrow> mmap_table \<Rightarrow> bool" where
  "mmap_serves T n rps t \<longleftrightarrow> length T = n * rps \<and> 0 < rps \<and> mt_shard_size t = int rps \<and> mt_rows_total t = int (n * rps)
     \<and> length (mt_mm t) = n \<and> length (mt_shard_fds t) = n \<and> 0 < mt_chunk t \<and> \<not> mt_closed t
     \<and> (\<forall>i < n. \<exists>m. mt_mm t ! i = Some m \<and> mp_rows m = shard_rows T rps i)"

lemma rmapM_map_arg: "rmapM f (map g xs) = rmapM (\<lambda>x. f (g x)) xs"
  by (induction xs) (auto split: sum.splits)

lemma run_task_paste:
  assumes "mmap_serves T n rps t" "\<forall>u \<in> set uniq. 0 \<le> u \<and> u < int (n * rps)"
    and "a < b" "b \<le> length uniq" "\<forall>j. a \<le> j \<and> j < b \<longrightarrow> nat (uniq ! j div int rps) = si"
  shows "run_task (mt_mm t) (map (\<lambda>u. u - u div int rps * int rps) uniq) (si, a, b) out
    = Inr (paste (map (\<lambda>u. T ! nat u) uniq) (si, a, b) out)"
proof -
  have rps: "0 < rps" using assms(1) by (simp add: mmap_serves_def)
  have row: "si < n \<and> u - u div int rps * int rps < int rps \<and> 0 \<le> u - u div int rps * int rps
      \<and> shard_rows T rps si ! nat (u - u div int rps * int rps) = T ! nat u"
    if u: "u \<in> set (slice a b uniq)" for u
  proof -
    obtain j where j: "a \<le> j" "j < b" "u = uniq ! j"
      using u assms(4) by (auto simp: slice_nth [symmetric])
    then have ur: "0 \<le> u" "u < int (n * rps)" "nat (u div int rps) = si" using assms(2,4,5) by auto
    define k where "k = nat u"
    have k: "u = int k" "k < n * rps" using ur(1,2) unfolding k_def by (simp, linarith)
    then have si: "si = k div rps" using ur(3) by (simp flip: zdiv_int)
    then have "si < n" using k(2) rps by (simp add: div_less_iff_less_mult)
    moreover have "u - u div int rps * int rps = int (k mod rps)" using k(1) by (simp add: minus_div_mult_eq_mod zmod_int)
    ultimately show ?thesis
      using shard_rows_nth(2) [of T n rps si "k mod rps"] assms(1) rps si k by (simp add: mmap_serves_def)
  qed
  have "a \<in> {a..<b}" using assms(3) by simp
  then have "uniq ! a \<in> set (slice a b uniq)" using assms(3,4) slice_nth [of b uniq a, symmetric] by auto
  then have "si < n" using row by blast
  then obtain m where m: "mt_mm t ! si = Some m" "mp_rows m = shard_rows T rps si" "si < length (mt_mm t)"
    using assms(1) by (auto simp: mmap_serves_def)
  have len: "length (shard_rows T rps si) = rps" using shard_rows_nth(1) [of T n rps si] assms(1) \<open>si < n\<close> by (simp add: mmap_serves_def)
  have "rmapM (\<lambda>l. rbind (tensor_position (length (mp_rows m)) l) (py_nth (mp_rows m)))
      (map (\<lambda>u. u - u div int rps * int rps) (slice a b uniq)) = Inr (map (\<lambda>u. T ! nat u) (slice a b uniq))"
    unfolding rmapM_map_arg using row len m(2) by (intro rmapM_Inr) (auto simp: tensor_position_def py_nth_def nat_less_iff)
  then show ?thesis using m by (simp add: run_task_def paste_def slice_def take_map drop_map)
qed

text \<open>The prefetch touches nothing a gather reads, and fails only for a shard that is not a slot.\<close>

definition same_rows :: "mmap_table \<Rightarrow> mmap_table \<Rightarrow> bool" where
  "same_rows t t' \<longleftrightarrow> mt_mm t' = mt_mm t \<and> mt_shard_size t' = mt_shard_size t \<and> mt_rows_total t' = mt_rows_total t
     \<and> mt_chunk t' = mt_chunk t \<and> mt_serial t' = mt_serial t \<and> mt_closed t' = mt_closed t
     \<and> length (mt_shard_fds t') = length (mt_shard_fds t)"

lemma same_rows_serves: "same_rows t t' \<Longrightarrow> mmap_serves T n rps t \<Longrightarrow> mmap_serves T n rps t'"
  by (simp add: same_rows_def mmap_serves_def)

lemma issue_same: "same_rows t (fst (issue_segments advise segments (t, calls)))"
proof -
  have run: "same_rows t (fst acc) \<Longrightarrow> same_rows t (fst (issue_run advise fd run acc))" for fd run acc
    by (auto simp: same_rows_def issue_run_def Let_def split: prod.splits)
  have runs: "same_rows t (fst acc) \<Longrightarrow> same_rows t (fst (fold (issue_run advise fd) rs acc))" for fd rs acc
    by (induction rs arbitrary: acc) (simp_all add: run)
  have "same_rows t (fst acc) \<Longrightarrow> same_rows t (fst (issue_segments advise segments acc))" for acc
    by (induction segments arbitrary: acc) (auto simp: issue_segments_def runs split: prod.splits)
  then show ?thesis by (simp add: same_rows_def)
qed

lemma readahead_same:
  assumes "list_all (\<lambda>(s, e). shard ! s < length (mt_mm t) \<and> shard ! s < length (mt_shard_fds t)) segs"
  shows "\<exists>runs t' calls. readahead advise segs shard local t = Inr (runs, t', calls) \<and> same_rows t t'"
proof -
  have "\<exists>acc'. rfoldM (plan_segment t shard local) segs acc = Inr acc'" for acc
    using assms
  proof (induction segs arbitrary: acc)
    case (Cons seg segs)
    then have "\<exists>acc'. plan_segment t shard local seg acc = Inr acc'"
      by (auto simp: plan_segment_def Let_def split: prod.splits option.splits)
    then show ?case using Cons by auto
  qed simp
  then obtain runs segments where "rfoldM (plan_segment t shard local) segs (0, []) = Inr (runs, segments)" by (metis surj_pair)
  then show ?thesis using issue_same [of t advise segments "[]"]
    by (cases "issue_segments advise segments (t, [])") (auto simp: readahead_def same_rows_def)
qed

lemma copy_rows_all:
  assumes "mmap_serves T n rps t" "gather_env_ok env" "\<forall>u \<in> set uniq. 0 \<le> u \<and> u < int (n * rps)" "uniq \<noteq> []"
    and "length positions = length ids" "\<forall>i < length ids. positions ! i < length uniq \<and> uniq ! (positions ! i) = ids ! i"
  defines "shard \<equiv> map (\<lambda>u. nat (u div int rps)) uniq" and "local \<equiv> map (\<lambda>u. u - u div int rps * int rps) uniq"
  shows "\<exists>t'. copy_rows_of env ids positions shard local (pieces (breaks (\<lambda>i. shard ! Suc i \<noteq> shard ! i) (length uniq)) (length uniq))
      (length uniq) t = (Inr (map (\<lambda>u. T ! nat u) ids), t') \<and> same_rows t t'"
proof -
  define N where "N = length uniq"
  define R where "R = map (\<lambda>u. T ! nat u) uniq"
  define P where "P = (\<lambda>i. shard ! Suc i \<noteq> shard ! i)"
  define segs where "segs = pieces (breaks P N) N"
  define tasks where "tasks = gather_chunks (mt_chunk t) shard segs"
  have N: "0 < N" "length R = N" "length shard = N" using assms(4) by (simp_all add: N_def R_def shard_def)
  have chunk: "0 < mt_chunk t" "\<not> mt_closed t" using assms(1) by (auto simp: mmap_serves_def)
  have seg: "s < e \<and> e \<le> N \<and> (\<forall>j. s \<le> j \<and> j < e \<longrightarrow> shard ! j = shard ! s)" if "(s, e) \<in> set segs" for s e
  proof -
    have se: "s < e" "e \<le> N" "\<forall>i. s \<le> i \<and> Suc i < e \<longrightarrow> \<not> P i" using pieces_breaks(2) [OF N(1)] that by (auto simp: segs_def)
    have "shard ! (s + k) = shard ! s" if "s + k < e" for k
      using that by (induction k) (use se(3) in \<open>auto simp: P_def\<close>)
    then have "shard ! j = shard ! s" if "s \<le> j" "j < e" for j using that le_Suc_ex [of s j] by auto
    then show ?thesis using se by blast
  qed
  have task: "\<exists>si a b. tk = (si, a, b) \<and> a < b \<and> b \<le> N \<and> (\<forall>j. a \<le> j \<and> j < b \<longrightarrow> shard ! j = si)" if tk: "tk \<in> set tasks" for tk
  proof -
    obtain s e c where se: "(s, e) \<in> set segs" "c \<in> set (py_steps s e (mt_chunk t))" "tk = (shard ! s, c, min (c + mt_chunk t) e)"
      using tk unfolding tasks_def gather_chunks_def by auto
    have c: "s \<le> c" "c < e" using py_steps_in [OF chunk(1) se(2)] by auto
    have e: "e \<le> N" using seg [OF se(1)] by (elim conjE)
    have same: "\<forall>j. s \<le> j \<and> j < e \<longrightarrow> shard ! j = shard ! s" using seg [OF se(1)] by (elim conjE)
    have "\<forall>j. c \<le> j \<and> j < min (c + mt_chunk t) e \<longrightarrow> shard ! j = shard ! s"
    proof (intro allI impI)
      fix j assume "c \<le> j \<and> j < min (c + mt_chunk t) e"
      then have "s \<le> j \<and> j < e" using c(1) by simp
      then show "shard ! j = shard ! s" by (rule same [rule_format])
    qed
    moreover have "c < min (c + mt_chunk t) e" "min (c + mt_chunk t) e \<le> N" using c e chunk(1) by auto
    ultimately show ?thesis unfolding se(3) by (intro exI conjI) (rule refl)
  qed
  have run: "run_task (mt_mm t) local tk out = Inr (paste R tk out)" if tk: "tk \<in> set tasks" for tk out
  proof -
    obtain si a b where k: "tk = (si, a, b)" "a < b" "b \<le> N" "\<forall>j. a \<le> j \<and> j < b \<longrightarrow> shard ! j = si" using task [OF tk] by blast
    then have "\<forall>j. a \<le> j \<and> j < b \<longrightarrow> nat (uniq ! j div int rps) = si" by (simp add: shard_def N_def)
    from run_task_paste [OF assms(1,3) k(2) k(3) [unfolded N_def] this] show ?thesis
      unfolding k(1) R_def local_def .
  qed
  have covered: "\<exists>(si, a, b) \<in> set tasks. a \<le> j \<and> j < b" if j: "j < N" for j
  proof -
    have "j \<in> set (concat (map (\<lambda>(a, b). [a..<b]) segs))" unfolding segs_def pieces_breaks(1) [OF N(1)] using j by simp
    then obtain s e where se: "(s, e) \<in> set segs" "s \<le> j" "j < e" by auto
    then obtain c where "c \<in> set (py_steps s e (mt_chunk t))" "c \<le> j" "j < min (c + mt_chunk t) e"
      using py_steps_cover [OF chunk(1)] by blast
    then show ?thesis using se(1)
      by (intro bexI [of _ "(shard ! s, c, min (c + mt_chunk t) e)"]) (auto simp: tasks_def gather_chunks_def intro!: bexI [of _ "(s, e)"])
  qed
  have filled: "rfoldM (run_task (mt_mm t) local) ts (ge_empty env N) = Inr R" if ts: "set ts = set tasks" for ts
  proof -
    have "list_all (\<lambda>(si, a, b). a \<le> b \<and> b \<le> length R) ts" using task ts N(2) by (force simp: list_all_iff)
    then have "length (fold (paste R) ts (ge_empty env N)) = length R \<and> (\<forall>j < length R. fold (paste R) ts (ge_empty env N) ! j = R ! j)"
      using paste_all [of R ts "ge_empty env N"] covered assms(2) N(2) ts by (simp add: gather_env_ok_def)
    then have "fold (paste R) ts (ge_empty env N) = R" by (intro nth_equalityI) auto
    then show ?thesis using rfoldM_Inr [of ts "run_task (mt_mm t) local" "paste R"] run ts by simp
  qed
  have "rmapM (py_nth R) positions = Inr (map (\<lambda>u. T ! nat u) ids)"
  proof -
    have "rmapM (py_nth R) positions = Inr (map (\<lambda>p. R ! p) positions)"
      using assms(5,6) N by (intro rmapM_Inr) (auto simp: in_set_conv_nth py_nth_def N_def)
    also have "map (\<lambda>p. R ! p) positions = map (\<lambda>u. T ! nat u) ids"
      using assms(5,6) by (intro nth_equalityI) (auto simp: R_def)
    finally show ?thesis .
  qed
  moreover have "same_rows t (record_gather d k s t)" for d k s by (simp add: same_rows_def record_gather_def)
  ultimately show ?thesis
    using filled [of tasks] filled [of "ge_order env tasks"] assms(2) chunk(2)
    by (simp add: copy_rows_of_def Let_def gather_env_ok_def flip: N_def P_def segs_def tasks_def)
qed

lemma mmap_gather_all:
  assumes "mmap_serves T n rps t" "gather_env_ok env" "list_all (\<lambda>r. 0 \<le> r \<and> r < int (n * rps)) ids"
  shows "\<exists>calls t'. mmap_gather env ids t = (Inr (map (\<lambda>r. T ! nat r) ids), calls, t') \<and> mmap_serves T n rps t'"
proof (cases "ids = []")
  case False
  obtain uniq positions where u: "ge_unique env ids = (uniq, positions)" by fastforce
  have law: "unique_law (ge_unique env)" using assms(2) by (simp add: gather_env_ok_def)
  have "set uniq = set ids" "sorted uniq" "length positions = length ids"
    "\<forall>i < length ids. positions ! i < length uniq \<and> uniq ! (positions ! i) = ids ! i"
    using law [unfolded unique_law_def, rule_format, of ids] u by auto
  note uq = this
  have range: "\<forall>u \<in> set uniq. 0 \<le> u \<and> u < int (n * rps)" using assms(3) uq(1) by (simp add: list_all_iff)
  have ne: "uniq \<noteq> []" using False uq(1) by auto
  define shard where "shard = map (\<lambda>u. nat (u div int rps)) uniq"
  define local where "local = map (\<lambda>u. u - u div int rps * int rps) uniq"
  define segs where "segs = pieces (breaks (\<lambda>i. shard ! Suc i \<noteq> shard ! i) (length uniq)) (length uniq)"
  have sv: "mt_shard_size t = int rps" "mt_rows_total t = int (n * rps)" "length (mt_mm t) = n" "length (mt_shard_fds t) = n" "0 < rps"
    using assms(1) by (simp_all add: mmap_serves_def)
  have copied: "\<exists>t''. copy_rows_of env ids positions shard local segs (length uniq) t' = (Inr (map (\<lambda>r. T ! nat r) ids), t'')
      \<and> mmap_serves T n rps t''" if "mmap_serves T n rps t'" for t'
    using copy_rows_all [OF that assms(2) range ne uq(3,4)] same_rows_serves [OF _ that]
    unfolding shard_def local_def segs_def by blast
  have start: "\<not> (hd uniq < 0 \<or> mt_rows_total t \<le> last uniq)" using range ne sv(2) by (simp add: not_le not_less)
  have slots: "list_all (\<lambda>(s, e). shard ! s < length (mt_mm t) \<and> shard ! s < length (mt_shard_fds t)) segs"
  proof -
    have "shard ! s < n" if "(s, e) \<in> set segs" for s e
    proof -
      have "0 < length uniq" using ne by simp
      from pieces_breaks(2) [OF this that [unfolded segs_def]] have s: "s < length uniq" by (elim conjE) linarith
      then have "0 \<le> uniq ! s" "uniq ! s < int n * int rps" using range by auto
      moreover have "uniq ! s div int rps * int rps \<le> uniq ! s"
        using div_mult_mod_eq [of "uniq ! s" "int rps"] pos_mod_sign [of "int rps" "uniq ! s"] sv(5) by linarith
      ultimately have "uniq ! s div int rps * int rps < int n * int rps" by linarith
      then have "uniq ! s div int rps < int n" using sv(5) by simp
      then show ?thesis using s sv(5) \<open>0 \<le> uniq ! s\<close> by (simp add: shard_def nat_less_iff pos_imp_zdiv_nonneg_iff)
    qed
    then show ?thesis by (auto simp: list_all_iff sv(3,4))
  qed
  obtain runs t' calls where r: "readahead (ge_advise env) segs shard local t = Inr (runs, t', calls)" "same_rows t t'"
    using readahead_same [OF slots] by blast
  obtain t1 where t1: "copy_rows_of env ids positions shard local segs (length uniq) t' = (Inr (map (\<lambda>r. T ! nat r) ids), t1)"
      "mmap_serves T n rps t1"
    using copied [OF same_rows_serves [OF r(2) assms(1)]] by blast
  obtain t2 where t2: "copy_rows_of env ids positions shard local segs (length uniq) t = (Inr (map (\<lambda>r. T ! nat r) ids), t2)"
      "mmap_serves T n rps t2"
    using copied [OF assms(1)] by blast
  have "mmap_gather env ids t =
      (if 0 < mt_readahead t
       then (case readahead (ge_advise env) segs shard local t of
           Inl e \<Rightarrow> if e = OSError \<or> e = ValueError
             then let (r, t) = copy_rows_of env ids positions shard local segs (length uniq) t in (r, [], t)
             else (Inl e, [], t)
         | Inr (_, t, calls) \<Rightarrow> let (r, t) = copy_rows_of env ids positions shard local segs (length uniq) t in (r, calls, t))
       else let (r, t) = copy_rows_of env ids positions shard local segs (length uniq) t in (r, [], t))"
    unfolding mmap_gather_def u sv(1) Let_def prod.case shard_def [symmetric] local_def [symmetric] segs_def [symmetric]
    using False start by (simp only: if_False)
  then show ?thesis using r(1) t1 t2 by (cases "0 < mt_readahead t") simp_all
qed (use assms(1) in \<open>simp add: mmap_gather_def\<close>)

text \<open>Gathers one after the other.\<close>

fun gather_sequence :: "(gather_env \<times> int list) list \<Rightarrow> mmap_table \<Rightarrow> bytes list res list \<times> mmap_table" where
  "gather_sequence [] t = ([], t)"
| "gather_sequence ((env, ids) # jobs) t =
     (let (r, calls, t) = mmap_gather env ids t; (rs, t) = gather_sequence jobs t in (r # rs, t))"

lemma gather_sequence_all:
  assumes "mmap_serves T n rps t" "list_all (\<lambda>(env, ids). gather_env_ok env \<and> list_all (\<lambda>r. 0 \<le> r \<and> r < int (n * rps)) ids) jobs"
  shows "fst (gather_sequence jobs t) = map (\<lambda>(env, ids). Inr (map (\<lambda>r. T ! nat r) ids)) jobs"
  using assms
proof (induction jobs arbitrary: t)
  case (Cons job jobs)
  obtain env ids where job: "job = (env, ids)" by (cases job)
  have "gather_env_ok env" "list_all (\<lambda>r. 0 \<le> r \<and> r < int (n * rps)) ids" using Cons.prems(2) job by simp_all
  from mmap_gather_all [OF Cons.prems(1) this]
  obtain calls t' where g: "mmap_gather env ids t = (Inr (map (\<lambda>r. T ! nat r) ids), calls, t')" "mmap_serves T n rps t'" by blast
  then show ?case using Cons.IH [OF g(2)] Cons.prems(2) job by (cases "gather_sequence jobs t'") (simp add: Let_def)
qed simp

section \<open>Opening the table\<close>

text \<open>\<open>np.memmap\<close> of a file that has the range maps its rows.\<close>

definition memmap_law :: "memmap \<Rightarrow> (string \<Rightarrow> bytes option) \<Rightarrow> bool" where
  "memmap_law memmap fs \<longleftrightarrow> (\<forall>path off rows w f. fs path = Some f \<and> off + rows * w \<le> length f
     \<longrightarrow> memmap path off rows w = Inr (map (\<lambda>j. py_slice j w (drop off f)) [0..<rows]))"

text \<open>The entry of shard \<open>i\<close>, and the bytes it has in its file.\<close>

definition shard_entry :: "(nat \<Rightarrow> string) \<Rightarrow> (nat \<Rightarrow> nat) \<Rightarrow> nat \<Rightarrow> nat \<Rightarrow> nat \<times> string \<times> nat \<times> nat" where
  "shard_entry path off rps i = (i, path i, off i, rps)"

definition shard_bytes :: "(string \<Rightarrow> bytes option) \<Rightarrow> (nat \<Rightarrow> string) \<Rightarrow> (nat \<Rightarrow> nat) \<Rightarrow> nat \<Rightarrow> nat \<Rightarrow> bytes option" where
  "shard_bytes fs path off k i = map_option (\<lambda>f. take k (drop (off i) f)) (fs (path i))"

lemma map_shards_all:
  assumes "\<And>i. i \<in> set is \<Longrightarrow> memmap (path i) (off i) rps w = Inr (rows i)" "\<forall>i \<in> set is. i < length mm"
  shows "\<exists>mm' tot'. rfoldM (map_one_shard memmap w) (map (shard_entry path off rps) is) (mm, tot) = Inr (mm', tot')
     \<and> tot' = tot + int (length is * rps)
     \<and> length mm' = length mm
     \<and> (\<forall>i < length mm. mm' ! i = (if i \<in> set is then Some \<lparr>mp_path = path i, mp_offset = off i, mp_rows = rows i\<rparr> else mm ! i))"
  using assms
proof (induction "is" arbitrary: mm tot)
  case (Cons i js)
  have i: "i < length mm" using Cons.prems(2) by simp
  show ?case
    using Cons.IH [of "mm[i := Some \<lparr>mp_path = path i, mp_offset = off i, mp_rows = rows i\<rparr>]" "tot + int rps"] Cons.prems i
    by (auto simp: shard_entry_def map_one_shard_def nth_list_update algebra_simps)
qed simp

lemma open_fds_frame:
  "same_rows t (open_readahead_fds os_open shards t)"
proof -
  have "same_rows t0 t \<Longrightarrow> same_rows t0 (open_one_fd os_open shard t)" for t0 t shard
    by (auto simp: open_one_fd_def same_rows_def Let_def split: prod.splits option.splits)
  then have "same_rows t0 t \<Longrightarrow> same_rows t0 (fold (open_one_fd os_open) shards t)" for t0 t
    by (induction shards arbitrary: t) simp_all
  then show ?thesis by (simp add: open_readahead_fds_def same_rows_def)
qed

lemma foldr_max: "0 < n \<Longrightarrow> \<forall>i \<in> set is. i < n \<Longrightarrow> foldr max is 0 < (n :: nat)" "i \<in> set is \<Longrightarrow> (i :: nat) \<le> foldr max is 0"
  by (induction "is") auto

lemma mmap_init_serves:
  assumes "memmap_law memmap fs" "length T = n * rps" "\<forall>row \<in> set T. length row = w" "0 < n" "0 < rps" "distinct is" "set is = {..<n}"
    and "\<And>i. i < n \<Longrightarrow> shard_bytes fs path off (rps * w) i = Some (concat (shard_rows T rps i))" "0 < w"
  shows "\<exists>t. mmap_init memmap os_open fadvise (map (shard_entry path off rps) is) (int rps) w workers chunk window serial = Inr t
    \<and> mmap_serves T n rps t"
proof -
  have mapped: "memmap (path i) (off i) rps w = Inr (shard_rows T rps i)" if i: "i < n" for i
  proof -
    obtain f where f: "fs (path i) = Some f" "take (rps * w) (drop (off i) f) = concat (shard_rows T rps i)"
      using assms(8) [OF i] by (auto simp: shard_bytes_def)
    have rows: "length (shard_rows T rps i) = rps" "\<forall>x \<in> set (shard_rows T rps i). length x = w"
      using shard_rows_nth(1) [OF assms(2) i] assms(3) by (auto simp: shard_rows_def py_slice_def dest!: in_set_takeD in_set_dropD)
    then have "length (take (rps * w) (drop (off i) f)) = rps * w"
      unfolding f(2) using length_concat_const [of "shard_rows T rps i" w] by simp
    then have len: "rps * w \<le> length f - off i" by (simp add: min_def split: if_splits)
    have "0 < rps * w" using assms(5,9) by simp
    then have fits: "off i + rps * w \<le> length f" using len by linarith
    have slice: "py_slice j w (drop (off i) f) = shard_rows T rps i ! j" if j: "j < rps" for j
    proof -
      have "Suc j * w \<le> rps * w" using j by (intro mult_right_mono) auto
      then have "py_slice j w (drop (off i) f) = py_slice j w (take (rps * w) (drop (off i) f))"
        by (simp add: py_slice_def drop_take)
      then show ?thesis unfolding f(2) using concat_row [OF rows(2), of j] j rows(1) by simp
    qed
    have "map (\<lambda>j. py_slice j w (drop (off i) f)) [0..<rps] = shard_rows T rps i"
      using slice rows(1) by (intro nth_equalityI) auto
    moreover have "memmap (path i) (off i) rps w = Inr (map (\<lambda>j. py_slice j w (drop (off i) f)) [0..<rps])"
      using assms(1) f(1) fits by (simp add: memmap_law_def)
    ultimately show ?thesis by simp
  qed
  have "foldr max is 0 < n" "n - 1 \<le> foldr max is 0" using foldr_max [of n "is"] foldr_max(2) [of "n - 1" "is"] assms(4,7) by auto
  then have slots: "Suc (foldr max is 0) = n" using assms(4) by linarith
  have len: "length is = n" using assms(6,7) distinct_card [of "is"] by simp
  obtain mm tot where mm: "rfoldM (map_one_shard memmap w) (map (shard_entry path off rps) is) (replicate n None, 0) = Inr (mm, tot)"
      "tot = int (n * rps)" "length mm = n"
      "\<And>i. i < n \<Longrightarrow> mm ! i = Some \<lparr>mp_path = path i, mp_offset = off i, mp_rows = shard_rows T rps i\<rparr>"
    using map_shards_all [of "is" memmap path off rps w "shard_rows T rps" "replicate n None" 0] mapped assms(7) len by auto
  have keys: "map fst (map (shard_entry path off rps) is) = is" by (simp add: shard_entry_def comp_def)
  have shards: "map_shards memmap w (map (shard_entry path off rps) is) = Inr (mm, tot)"
    unfolding map_shards_def keys slots by (rule mm(1))
  have ne: "map (shard_entry path off rps) is \<noteq> []" using len assms(4) by auto
  have frame: "mmap_serves T n rps t \<Longrightarrow> mmap_serves T n rps (open_readahead_fds os_open shs t)" for t shs
    by (rule same_rows_serves [OF open_fds_frame])
  have fresh: "mmap_serves T n rps (fresh_table (int rps) w workers chunk win serial mm tot)" for win
    using mm(2,3,4) assms(2,5) by (simp add: mmap_serves_def fresh_table_def)
  have drop: "mmap_serves T n rps t \<Longrightarrow> mmap_serves T n rps (t\<lparr>mt_readahead := 0\<rparr>)" for t by (simp add: mmap_serves_def)
  show ?thesis
    using ne shards frame [OF fresh] drop [OF frame [OF fresh]] fresh by (simp add: mmap_init_def Let_def)
qed

lemma table_row:
  assumes "length T = n * rps" "\<forall>row \<in> set T. length row = w" "k < n * rps" "0 < rps"
  shows "py_slice (k mod rps) w (concat (shard_rows T rps (k div rps))) = T ! k"
proof -
  have i: "k div rps < n" using assms(3,4) by (simp add: div_less_iff_less_mult)
  have "\<forall>x \<in> set (shard_rows T rps (k div rps)). length x = w"
    using assms(2) by (auto simp: shard_rows_def py_slice_def dest!: in_set_takeD in_set_dropD)
  then show ?thesis
    using concat_row [of "shard_rows T rps (k div rps)" w "k mod rps"] shard_rows_nth [OF assms(1) i] assms(4) by simp
qed

text \<open>
  C32: A table mapped from the shard files of a checkpoint and the native store opened on the same bytes serve the same rows:
  every gather of a sequence, whatever the order and the repetitions of its ids, the chunks and the order of its tasks,
  the prefetch window and its failures, returns in the order of the ids the bytes the store returns for them.
\<close>

theorem mmap_table_is_the_store:
  assumes "memmap_law memmap fs" "length T = n * rps" "list_all (\<lambda>row. length row = w) T" "0 < n * rps" "n * rps < 2 ^ 64" "0 < w"
    and "distinct is" "set is = {..<n}"
    and "list_all (\<lambda>i. shard_bytes fs path off (rps * w) i = Some (concat (shard_rows T rps i))) [0..<n]"
    and "list_all (\<lambda>(env, ids). gather_env_ok env \<and> list_all (\<lambda>r. 0 \<le> r \<and> r < int (n * rps)) ids) jobs"
  shows "\<exists>t st. mmap_init memmap os_open fadvise (map (shard_entry path off rps) is) (int rps) w workers chunk window serial = Inr t
    \<and> store_open (shard_bytes fs path off (rps * w)) n rps w = Inr st
    \<and> map (rmap concat) (fst (gather_sequence jobs t)) = map (\<lambda>(env, ids). store_fetch st ids) jobs"
proof -
  have pos: "0 < n" "0 < rps" using assms(4) by auto
  have T: "\<forall>row \<in> set T. length row = w" using assms(3) by (simp add: list_all_iff)
  have files: "shard_bytes fs path off (rps * w) i = Some (concat (shard_rows T rps i))" if "i < n" for i
    using assms(9) that by (simp add: list_all_iff)
  obtain t where t: "mmap_init memmap os_open fadvise (map (shard_entry path off rps) is) (int rps) w workers chunk window serial = Inr t"
      "mmap_serves T n rps t"
    using mmap_init_serves [OF assms(1,2) T pos assms(7,8) files assms(6)] by blast
  have "length (concat (shard_rows T rps i)) = rps * w" if "i < n" for i
    using shard_rows_nth(1) [OF assms(2) that] length_concat_const [of "shard_rows T rps i" w] T
    by (auto simp: shard_rows_def py_slice_def dest!: in_set_takeD in_set_dropD)
  then obtain st where st: "store_open (shard_bytes fs path off (rps * w)) n rps w = Inr st"
      "\<And>ids. list_all (\<lambda>r. 0 \<le> r \<and> nat r < n * rps) ids \<Longrightarrow> store_fetch st ids =
        Inr (concat (map (\<lambda>r. py_slice (nat r mod rps) w (concat (shard_rows T rps (nat r div rps)))) ids))"
    using whole_shards_served [where t = "\<lambda>i. concat (shard_rows T rps i)", OF files _ assms(5)] by blast
  have "store_fetch st ids = Inr (concat (map (\<lambda>r. T ! nat r) ids))" if ids: "list_all (\<lambda>r. 0 \<le> r \<and> r < int (n * rps)) ids" for ids
  proof -
    have "py_slice (nat r mod rps) w (concat (shard_rows T rps (nat r div rps))) = T ! nat r" if "r \<in> set ids" for r
      using table_row [OF assms(2) T, of "nat r"] ids that pos(2) by (auto simp: list_all_iff nat_less_iff)
    moreover have "list_all (\<lambda>r. 0 \<le> r \<and> nat r < n * rps) ids" using ids by (auto simp: list_all_iff nat_less_iff)
    ultimately show ?thesis using st(2) [of ids] by (simp cong: map_cong)
  qed
  then have "map (rmap concat) (fst (gather_sequence jobs t)) = map (\<lambda>(env, ids). store_fetch st ids) jobs"
    unfolding gather_sequence_all [OF t(2) assms(10)] using assms(10) by (auto simp: list_all_iff)
  then show ?thesis using t(1) st(1) by blast
qed

text \<open>Two files of different layouts, an order of the tasks that is reversed, and a prefetch whose every call fails.\<close>

definition demo_files2 :: "string \<Rightarrow> bytes option" where
  "demo_files2 p = (if p = ''a'' then Some [9, 9, 3, 7, 4, 7, 5, 7] else if p = ''b'' then Some [0, 7, 1, 7, 2, 7] else None)"

definition demo_memmap :: memmap where
  "demo_memmap path off rows w =
     (case demo_files2 path of None \<Rightarrow> Inl OSError
      | Some f \<Rightarrow> if off + rows * w \<le> length f then Inr (map (\<lambda>j. py_slice j w (drop off f)) [0..<rows]) else Inl ValueError)"

definition demo_unique :: "int list \<Rightarrow> int list \<times> nat list" where
  "demo_unique ids = (let u = sort (remdups ids) in (u, map (\<lambda>x. length (takeWhile (\<lambda>y. y \<noteq> x) u)) ids))"

definition demo_env :: gather_env where
  "demo_env = \<lparr>ge_unique = demo_unique, ge_empty = (\<lambda>n. replicate n []), ge_advise = (\<lambda>_ _ _. False), ge_order = rev, ge_log_due = False\<rparr>"

lemma demo_env_good: "gather_env_ok demo_env"
proof -
  have "length (takeWhile (\<lambda>y. y \<noteq> x) u) < length u \<and> u ! length (takeWhile (\<lambda>y. y \<noteq> x) u) = x" if "x \<in> set u" for x :: int and u
    using that by (induction u) auto
  from this [of "ids ! i" "sort (remdups ids)" for ids i]
  have "length (takeWhile (\<lambda>y. y \<noteq> ids ! i) (sort (remdups ids))) < length (remdups ids)
      \<and> sort (remdups ids) ! length (takeWhile (\<lambda>y. y \<noteq> ids ! i) (sort (remdups ids))) = ids ! i"
    if "i < length ids" for ids :: "int list" and i
    using that by simp
  then show ?thesis by (simp add: gather_env_ok_def unique_law_def demo_env_def demo_unique_def Let_def)
qed

theorem mmap_table_is_the_store_witness:
  "\<exists>t st. mmap_init demo_memmap (\<lambda>_. Some 3) True (map (shard_entry (\<lambda>i. if i = 0 then ''b'' else ''a'') (\<lambda>i. if i = 0 then 0 else 2) 3) [1, 0])
      (int 3) 2 4 2 8 0 = Inr t
    \<and> store_open (shard_bytes demo_files2 (\<lambda>i. if i = 0 then ''b'' else ''a'') (\<lambda>i. if i = 0 then 0 else 2) (3 * 2)) 2 3 2 = Inr st
    \<and> map (rmap concat) (fst (gather_sequence [(demo_env, [5, 0, 3, 0]), (demo_env, [4])] t))
      = map (\<lambda>(env, ids). store_fetch st ids) [(demo_env, [5, 0, 3, 0]), (demo_env, [4])]"
proof (rule mmap_table_is_the_store)
  show "memmap_law demo_memmap demo_files2" by (simp add: memmap_law_def demo_memmap_def)
  show "length two_shards = 2 * 3" "list_all (\<lambda>row. length row = 2) two_shards" by (simp_all add: two_shards_def list_all_iff)
  show "set [1, 0] = {..<2::nat}" by auto
  show "list_all (\<lambda>i. shard_bytes demo_files2 (\<lambda>i. if i = 0 then ''b'' else ''a'') (\<lambda>i. if i = 0 then 0 else 2) (3 * 2) i
      = Some (concat (shard_rows two_shards 3 i))) [0..<2]"
    by (simp add: shard_bytes_def demo_files2_def shard_rows_def two_shards_def py_slice_def upt_rec numeral_eq_Suc)
qed (simp_all add: demo_env_good)

section \<open>The prefetch is bounded\<close>

definition run_count :: "nat \<Rightarrow> (nat \<times> int list) list \<Rightarrow> nat" where
  "run_count w segments = sum_list (map (\<lambda>(fd, offsets). length (coalesce_runs offsets (int w))) segments)"

lemma length_coalesce:
  "length (coalesce_runs offsets w) \<le> length (filter (\<lambda>i. offsets ! Suc i \<noteq> offsets ! i + w) [0..<length offsets - 1]) + 1"
  by (simp add: coalesce_runs_def pieces_def breaks_def)

lemma issue_runs_length:
  "length (snd (fold (issue_run advise fd) rs acc)) = length (snd acc) + length rs
   \<and> mt_row_bytes (fst (fold (issue_run advise fd) rs acc)) = mt_row_bytes (fst acc)"
  by (induction rs arbitrary: acc) (auto simp: issue_run_def Let_def split: prod.splits)

lemma issue_segments_length:
  "length (snd (issue_segments advise segments acc)) = length (snd acc) + run_count (mt_row_bytes (fst acc)) segments"
proof (induction segments arbitrary: acc)
  case (Cons seg segments)
  obtain fd offsets where seg: "seg = (fd, offsets)" by (cases seg)
  let ?acc = "fold (issue_run advise fd) (coalesce_runs offsets (int (mt_row_bytes (fst acc)))) acc"
  have "issue_segments advise (seg # segments) acc = issue_segments advise segments ?acc" by (simp add: issue_segments_def seg)
  then show ?case using Cons.IH [of ?acc] by (simp add: issue_runs_length run_count_def seg)
qed (simp add: issue_segments_def run_count_def)

lemma plan_segment_count:
  assumes "plan_segment t shard local seg acc = Inr acc'"
  shows "acc' = acc \<or> (\<exists>d offsets. acc' = (fst acc + (length (filter (\<lambda>i. offsets ! Suc i \<noteq> offsets ! i + int (mt_row_bytes t))
      [0..<length offsets - 1]) + 1), snd acc @ [(d, offsets)]))"
proof -
  obtain s e where seg: "seg = (s, e)" by (cases seg)
  define offsets where "offsets m = map (\<lambda>l. int (mp_offset m) + l * int (mt_row_bytes t)) (slice s e local)" for m
  show ?thesis
    using assms unfolding plan_segment_def seg Let_def prod.case offsets_def [symmetric]
    by (auto simp: res_iff split: prod.splits option.splits)
qed

lemma readahead_bounded:
  assumes "readahead advise segs shard local t = Inr (runs, t', calls)"
  shows "length calls \<le> mt_readahead t"
proof -
  obtain segments where plan: "rfoldM (plan_segment t shard local) segs (0, []) = Inr (runs, segments)"
    and rest: "(if mt_readahead t < runs then Inr (runs, t\<lparr>mt_bound_warned := True\<rparr>, [])
       else Inr (runs, issue_segments advise segments (t, []))) = (Inr (runs, t', calls) :: (nat \<times> mmap_table \<times> advised) res)"
    using assms by (auto simp: readahead_def res_iff split: if_splits)
  have "run_count (mt_row_bytes t) (snd acc') \<le> fst acc'"
    if "plan_segment t shard local seg acc = Inr acc'" "run_count (mt_row_bytes t) (snd acc) \<le> fst acc" for seg acc acc'
    using plan_segment_count [OF that(1)] that(2) add_mono [OF that(2) length_coalesce] by (auto simp: run_count_def)
  then have "run_count (mt_row_bytes t) segments \<le> runs"
    using rfoldM_invariant [OF plan, of "\<lambda>acc. run_count (mt_row_bytes t) (snd acc) \<le> fst acc"] by (simp add: run_count_def)
  then show ?thesis using rest issue_segments_length [of advise segments "(t, [])"] by (auto split: if_splits)
qed

text \<open>
  C33: A gather issues at most as many prefetch calls as the window allows, whatever the ids, the table and the
  environment, and none for an id out of range.
\<close>

theorem prefetch_within_window:
  "length (fst (snd (mmap_gather env ids t))) \<le> mt_readahead t"
  by (cases "ids = []") (auto simp: mmap_gather_def Let_def readahead_bounded split: prod.splits sum.splits)

text \<open>
  The runs handed to the kernel are the bytes of the rows, in the order of the rows: none is missing, none is read
  twice, and no gap between rows is bridged.
\<close>

theorem prefetch_covers_rows:
  "concat (map (\<lambda>(off, len). [off..off + len - 1]) (coalesce_runs offsets (int w)))
    = concat (map (\<lambda>off. [off..off + int w - 1]) offsets)"
  by (rule coalesce_covers) simp

section \<open>Warming the page cache\<close>

definition PREWARM_BLOCK :: nat where "PREWARM_BLOCK = 67108864"
definition PREWARM_HEADROOM :: int where "PREWARM_HEADROOM = 8589934592"

text \<open>The reads of one shard; a read returns what is asked for, up to the end of the file.\<close>

function prewarm_reads :: "bytes \<Rightarrow> nat \<Rightarrow> nat \<Rightarrow> nat \<Rightarrow> nat" where
  "prewarm_reads f pos stop remaining =
     (if pos < stop \<and> 0 < remaining
      then let got = length (take (min PREWARM_BLOCK (min (stop - pos) remaining)) (drop pos f))
        in if got = 0 then 0 else got + prewarm_reads f (pos + got) stop (remaining - got)
      else 0)"
  by pat_completeness auto
termination
  by (relation "measure (\<lambda>(f, pos, stop, remaining). remaining)") auto

declare prewarm_reads.simps [simp del]

definition prewarm_shard :: "(string \<Rightarrow> bytes option) \<Rightarrow> nat \<Rightarrow> mapped option \<Rightarrow> nat \<times> nat \<Rightarrow> (nat \<times> nat) res" where
  "prewarm_shard fs row_bytes m acc =
     (let (remaining, read_total) = acc
      in case m of
           None \<Rightarrow> Inr acc
         | Some m \<Rightarrow>
             if remaining = 0 then Inr acc
             else case fs (mp_path m) of
                    None \<Rightarrow> Inl OSError
                  | Some f \<Rightarrow>
                      let start = mp_offset m; got = prewarm_reads f start (start + length (mp_rows m) * row_bytes) remaining
                      in Inr (remaining - got, read_total + got))"

definition prewarm :: "(string \<Rightarrow> bytes option) \<Rightarrow> int \<Rightarrow> mmap_table \<Rightarrow> nat res" where
  "prewarm fs max_bytes t =
     (if max_bytes \<le> 0 then Inr 0
      else rmap snd (rfoldM (prewarm_shard fs (mt_row_bytes t)) (mt_mm t) (nat max_bytes, 0)))"

definition compute_prewarm_bound :: "int \<Rightarrow> int \<Rightarrow> int" where
  "compute_prewarm_bound all_bytes mem_available_bytes = min all_bytes (max 0 (mem_available_bytes - PREWARM_HEADROOM))"

lemma prewarm_reads_all: "stop \<le> length f \<Longrightarrow> prewarm_reads f pos stop remaining = min (stop - pos) remaining"
proof (induction f pos stop remaining rule: prewarm_reads.induct)
  case (1 f pos stop remaining)
  define got where "got = length (take (min PREWARM_BLOCK (min (stop - pos) remaining)) (drop pos f))"
  show ?case
  proof (cases "pos < stop \<and> 0 < remaining")
    case True
    have got: "got = min PREWARM_BLOCK (min (stop - pos) remaining)" using 1(2) by (simp add: got_def)
    then have "got \<noteq> 0" using True by (simp add: PREWARM_BLOCK_def)
    then have "prewarm_reads f pos stop remaining = got + prewarm_reads f (pos + got) stop (remaining - got)"
      using True prewarm_reads.simps [of f pos stop remaining] unfolding Let_def got_def [symmetric] by (simp only: if_True if_False simp_thms)
    also have "prewarm_reads f (pos + got) stop (remaining - got) = min (stop - (pos + got)) (remaining - got)"
      using 1(1) [OF True got_def \<open>got \<noteq> 0\<close> 1(2)] .
    finally have "prewarm_reads f pos stop remaining = got + min (stop - (pos + got)) (remaining - got)" .
    moreover have "got \<le> stop - pos" "got \<le> remaining" unfolding got by simp_all
    ultimately show ?thesis by linarith
  next
    case False
    then show ?thesis by (subst prewarm_reads.simps) auto
  qed
qed

definition mapped_bytes :: "nat \<Rightarrow> mapped option list \<Rightarrow> nat" where
  "mapped_bytes w mm = sum_list (map (\<lambda>m. case m of None \<Rightarrow> 0 | Some m \<Rightarrow> length (mp_rows m) * w) mm)"

definition mapped_present :: "(string \<Rightarrow> bytes option) \<Rightarrow> nat \<Rightarrow> mapped option \<Rightarrow> bool" where
  "mapped_present fs w m = (case m of None \<Rightarrow> True | Some m \<Rightarrow>
     (case fs (mp_path m) of None \<Rightarrow> False | Some f \<Rightarrow> mp_offset m + length (mp_rows m) * w \<le> length f))"

lemma prewarm_shards:
  assumes "list_all (mapped_present fs w) mm"
  shows "rfoldM (prewarm_shard fs w) mm (remaining, done_bytes)
    = Inr (remaining - mapped_bytes w mm, done_bytes + min remaining (mapped_bytes w mm))"
  using assms
proof (induction mm arbitrary: remaining done_bytes)
  case (Cons m mm)
  have "prewarm_shard fs w m (remaining, done_bytes) = Inr (remaining - mapped_bytes w [m], done_bytes + min remaining (mapped_bytes w [m]))"
    using Cons.prems prewarm_reads_all
    by (auto simp: prewarm_shard_def mapped_present_def mapped_bytes_def Let_def min.commute split: option.splits)
  then show ?case using Cons by (simp add: mapped_bytes_def)
qed (simp add: mapped_bytes_def)

text \<open>
  Warming with the computed bound reads the whole table when it fits beside 8 GiB of free memory, and else exactly
  the memory above that headroom: nothing when there is none.
\<close>

theorem prewarm_leaves_headroom:
  assumes "list_all (mapped_present fs (mt_row_bytes t)) (mt_mm t)"
  shows "prewarm fs (compute_prewarm_bound (int (mapped_bytes (mt_row_bytes t) (mt_mm t))) available) t
    = Inr (min (mapped_bytes (mt_row_bytes t) (mt_mm t)) (nat (available - PREWARM_HEADROOM)))"
  using prewarm_shards [OF assms] by (auto simp: prewarm_def compute_prewarm_bound_def min_def max_def nat_le_iff)

lemma prewarm_leaves_headroom_witness:
  "prewarm demo_files2 (compute_prewarm_bound (int (mapped_bytes 2 [Some \<lparr>mp_path = ''b'', mp_offset = 0, mp_rows = [[0, 7], [1, 7], [2, 7]]\<rparr>]))
      (PREWARM_HEADROOM + 5)) (fresh_table 3 2 1 1 0 0 [Some \<lparr>mp_path = ''b'', mp_offset = 0, mp_rows = [[0, 7], [1, 7], [2, 7]]\<rparr>] 3) = Inr 5"
  using prewarm_leaves_headroom [of demo_files2
      "fresh_table 3 2 1 1 0 0 [Some \<lparr>mp_path = ''b'', mp_offset = 0, mp_rows = [[0, 7], [1, 7], [2, 7]]\<rparr>] 3" "PREWARM_HEADROOM + 5"]
  by (simp add: fresh_table_def mapped_present_def demo_files2_def mapped_bytes_def)

end
