(* ===== verification/V41Hash.thy ===== *)
theory V41Hash
  imports EngineIds V41Constants
begin

text \<open>
  \<open>refs/v41_engram.py\<close>: the bucket layout of DeepSeek-V4.1 and the module \<open>NgramHashState\<close> that hashes the n-grams of a
  batch through a cache of compressed tokens.  SymPy's \<open>isprime\<close>, NumPy's seeded generator, the compressed token map
  (\<open>TokenMap\<close>) and the memory the cache is allocated in are arguments.  The lemmas show that the layout has the frozen primes
  (\<open>V41Constants\<close>), that every id lies in the bucket range of its column, and that a sequence fed in pieces gets the ids
  of the whole.
\<close>

unbundle bit_operations_syntax

section \<open>The layout\<close>

record engram_args =
  ea_layer_ids :: "int list"
  ea_max_ngram_size :: nat
  ea_n_heads :: nat
  ea_vocab_size :: int
  ea_num_embeddings :: "int list"
  ea_head_dim :: int
  ea_compressed_vocab_size :: int
  ea_pad_id :: nat

record engram_layout =
  el_max_ngram_size :: nat
  el_layer_ids :: "int list"
  el_num_embeddings :: "int list"
  el_primes :: "int list list list"
  el_n_heads :: nat
  el_head_dim :: int

definition find_next_prime :: "(int \<Rightarrow> bool) \<Rightarrow> int \<Rightarrow> int list \<Rightarrow> int option" where
  "find_next_prime isprime start seen_primes = unseen_prime_from isprime seen_primes (start + 1)"

text \<open>\<open>for _ in range(n)\<close> around a step that may not end.\<close>

fun repeat_step :: "nat \<Rightarrow> ('s \<Rightarrow> 's option) \<Rightarrow> 's \<Rightarrow> 's option" where
  "repeat_step 0 f s = Some s"
| "repeat_step (Suc n) f s = Option.bind (f s) (repeat_step n f)"

definition add_head :: "(int \<Rightarrow> bool) \<Rightarrow> int list \<times> int \<times> int list \<Rightarrow> (int list \<times> int \<times> int list) option" where
  "add_head isprime st =
     (let (sizes, current, seen) = st
      in map_option (\<lambda>p. (sizes @ [p], p, seen @ [p])) (find_next_prime isprime current seen))"

definition add_ngram :: "(int \<Rightarrow> bool) \<Rightarrow> int \<Rightarrow> nat \<Rightarrow> int list list \<times> int list \<Rightarrow> (int list list \<times> int list) option" where
  "add_ngram isprime vocab_size n_heads st =
     (let (per_ngram, seen) = st
      in map_option (\<lambda>(sizes, current, seen). (per_ngram @ [sizes], seen)) (repeat_step n_heads (add_head isprime) ([], vocab_size - 1, seen)))"

definition add_layer :: "(int \<Rightarrow> bool) \<Rightarrow> engram_args \<Rightarrow> int list list list \<times> int list \<Rightarrow> (int list list list \<times> int list) option" where
  "add_layer isprime a st =
     (let (primes, seen) = st
      in map_option (\<lambda>(per_ngram, seen). (primes @ [per_ngram], seen))
        (repeat_step (ea_max_ngram_size a - 1) (add_ngram isprime (ea_vocab_size a) (ea_n_heads a)) ([], seen)))"

text \<open>The outer option is termination, the inner one the result.\<close>

definition from_args :: "(int \<Rightarrow> bool) \<Rightarrow> engram_args \<Rightarrow> engram_layout option option" where
  "from_args isprime a =
     (if ea_layer_ids a = [] then Some None
      else map_option (\<lambda>(primes, seen). Some \<lparr>el_max_ngram_size = ea_max_ngram_size a, el_layer_ids = ea_layer_ids a,
             el_num_embeddings = ea_num_embeddings a, el_primes = primes, el_n_heads = ea_n_heads a, el_head_dim = ea_head_dim a\<rparr>)
        (repeat_step (length (ea_layer_ids a)) (add_layer isprime a) ([], [])))"

definition compute_hash_multipliers :: "(int \<Rightarrow> int \<Rightarrow> nat \<Rightarrow> int list) \<Rightarrow> int list \<Rightarrow> nat \<Rightarrow> int \<Rightarrow> int list list res" where
  "compute_hash_multipliers rng layer_ids max_ngram_size tokenizer_vocab_size =
     rbind (py_div (2 ^ 63 - 1) tokenizer_vocab_size) (\<lambda>q.
       let multiplier_bound = max 1 (q div 2)
       in if layer_ids = [] then Inl RuntimeError
          else rmapM (\<lambda>layer_id. rmap (map (\<lambda>v. v * 2 + 1)) (numpy_integers rng (10007 * layer_id) multiplier_bound (int max_ngram_size)))
            layer_ids)"

section \<open>The module\<close>

record hash_state =
  hs_max_ngram_size :: nat
  hs_pad_id :: int
  hs_primes :: "int list list list"
  hs_offsets :: "int list list"
  hs_multipliers :: "int list list"
  hs_token_map :: "int list"
  hs_cache :: "int list list"

definition DEAD :: int where "DEAD = -1"

text \<open>\<open>np.cumsum([0, *sizes[:-1]])\<close>.\<close>

fun running_sums :: "int \<Rightarrow> int list \<Rightarrow> int list" where
  "running_sums acc [] = []"
| "running_sums acc (x # xs) = (acc + x) # running_sums (acc + x) xs"

definition bucket_offsets :: "int list \<Rightarrow> int list" where
  "bucket_offsets sizes = running_sums 0 (0 # butlast sizes)"

definition hash_state_init ::
  "(int \<Rightarrow> int \<Rightarrow> nat \<Rightarrow> int list) \<Rightarrow> int list \<times> int \<Rightarrow> int list list \<Rightarrow> engram_args \<Rightarrow> engram_layout \<Rightarrow> hash_state res" where
  "hash_state_init rng compressed cache a layout =
     (let (token_map, vocab_size) = compressed
      in if vocab_size \<noteq> ea_compressed_vocab_size a then Inl AssertionError
         else rbind (py_nth token_map (ea_pad_id a)) (\<lambda>pad_id.
           let flat = map concat (el_primes layout); offsets = map bucket_offsets flat
           in rbind (compute_hash_multipliers rng (el_layer_ids layout) (el_max_ngram_size layout) vocab_size) (\<lambda>multipliers.
              rbind (torch_long (concat flat)) (\<lambda>_. rbind (torch_long token_map) (\<lambda>token_map.
                Inr \<lparr>hs_max_ngram_size = el_max_ngram_size layout, hs_pad_id = pad_id, hs_primes = el_primes layout, hs_offsets = offsets,
                  hs_multipliers = multipliers, hs_token_map = token_map, hs_cache = cache\<rparr>)))))"

text \<open>The compressed tokens of a row, dead where the mask is false.\<close>

definition compress_row :: "hash_state \<Rightarrow> int list \<Rightarrow> bool list \<Rightarrow> int list res" where
  "compress_row S toks live =
     rmapM (\<lambda>(x, alive). rmap (\<lambda>i. if alive then hs_token_map S ! i else DEAD) (tensor_position (length (hs_token_map S)) x)) (zip toks live)"

text \<open>The look-back from position \<open>p\<close> of a row of the cache: once blocked, it stays blocked.\<close>

fun lookback :: "int \<Rightarrow> int list \<Rightarrow> nat \<Rightarrow> bool \<Rightarrow> nat list \<Rightarrow> int list" where
  "lookback pad row p blocked [] = []"
| "lookback pad row p blocked (shift # shifts) =
     (let source = row ! nat (max 0 (int p - int shift));
          blocked = (blocked \<or> p < shift \<or> source = DEAD)
      in (if blocked then pad else source) # lookback pad row p blocked shifts)"

text \<open>The hashes of a layer, one lookback at a time.\<close>

fun roll_hashes :: "int \<Rightarrow> int list \<Rightarrow> int list list \<Rightarrow> int list res" where
  "roll_hashes rolling (x # xs) (ps # pss) =
     (let rolling = rolling XOR x
      in rbind (rmapM (torch_remainder rolling) ps) (\<lambda>hs. rmap (\<lambda>rest. hs @ rest) (roll_hashes rolling xs pss)))"
| "roll_hashes rolling _ _ = Inr []"

definition layer_ids_at :: "int list \<Rightarrow> int list \<Rightarrow> int list list \<Rightarrow> int list \<Rightarrow> int list res" where
  "layer_ids_at tokens multipliers primes offsets =
     (case map2 (\<lambda>t m. i64 (t * m)) tokens multipliers of
        [] \<Rightarrow> Inl RuntimeError
      | x # xs \<Rightarrow> rmap (\<lambda>hs. map2 (\<lambda>h off. i64 (h + off)) hs offsets) (roll_hashes x xs primes))"

definition position_ids :: "hash_state \<Rightarrow> int list \<Rightarrow> nat \<Rightarrow> int list list res" where
  "position_ids S row p =
     (let tokens = lookback (hs_pad_id S) row p False [0..<hs_max_ngram_size S]
      in rmapM (\<lambda>(multipliers, primes, offsets). layer_ids_at tokens multipliers primes offsets)
        (zip (hs_multipliers S) (zip (hs_primes S) (hs_offsets S))))"

definition hash_forward :: "hash_state \<Rightarrow> nat \<Rightarrow> int list list \<Rightarrow> nat \<Rightarrow> bool list list option
    \<Rightarrow> (int list list list list \<times> hash_state) res" where
  "hash_forward S seqlen input_ids start_pos token_mask =
     (let batch = length input_ids;
          live = (case token_mask of None \<Rightarrow> map (map (\<lambda>_. True)) input_ids | Some m \<Rightarrow> m)
      in rbind (rmapM (\<lambda>(toks, l). compress_row S toks l) (zip input_ids live)) (\<lambda>compressed.
           if length (hs_cache S) < batch \<or> (seqlen \<noteq> 0 \<and> \<not> list_all (\<lambda>row. start_pos + seqlen \<le> length row) (hs_cache S)) then Inl RuntimeError
           else if hs_max_ngram_size S < 2 then Inl RuntimeError
           else let rows = map2 (\<lambda>row new. take start_pos row @ new @ drop (start_pos + seqlen) row) (take batch (hs_cache S)) compressed
             in rmap (\<lambda>ids. (ids, S\<lparr>hs_cache := rows @ drop batch (hs_cache S)\<rparr>))
               (rmapM (\<lambda>row. rmapM (position_ids S row) [start_pos..<start_pos + seqlen]) rows)))"

section \<open>The layout has the frozen primes\<close>

lemma add_heads:
  "repeat_step n (add_head isprime) (sizes, current, seen)
    = map_option (\<lambda>(s, seen'). (sizes @ s, last (current # s), seen')) (v41_heads isprime n current seen)"
proof (induction n arbitrary: sizes current seen)
  case (Suc n)
  show ?case
  proof (cases "v41_next_prime isprime current seen")
    case (Some p)
    then have "add_head isprime (sizes, current, seen) = Some (sizes @ [p], p, seen @ [p])"
      by (simp add: add_head_def find_next_prime_def v41_next_prime_def)
    then show ?thesis using Some by (simp add: Suc option.map_comp comp_def case_prod_unfold)
  qed (simp add: add_head_def find_next_prime_def v41_next_prime_def)
qed simp

lemma add_ngrams:
  "repeat_step m (add_ngram isprime v h) (per_ngram, seen)
    = map_option (\<lambda>(r, seen'). (per_ngram @ r, seen')) (v41_orders isprime v h m seen)"
proof (induction m arbitrary: per_ngram seen)
  case (Suc m)
  have "add_ngram isprime v h (per_ngram, seen)
      = map_option (\<lambda>(sizes, seen'). (per_ngram @ [sizes], seen')) (v41_heads isprime h (v - 1) seen)"
    by (simp add: add_ngram_def add_heads option.map_comp comp_def case_prod_unfold)
  then show ?case
    by (cases "v41_heads isprime h (v - 1) seen") (auto simp: Suc option.map_comp comp_def case_prod_unfold)
qed simp

lemma add_layers:
  "repeat_step l (add_layer isprime a) (ps, seen) = map_option (\<lambda>(r, seen'). (ps @ r, seen'))
     (v41_layers isprime (ea_vocab_size a) (ea_n_heads a) (ea_max_ngram_size a - 1) l seen)"
proof (induction l arbitrary: ps seen)
  case (Suc l)
  have "add_layer isprime a (ps, seen) = map_option (\<lambda>(per_ngram, seen'). (ps @ [per_ngram], seen'))
      (v41_orders isprime (ea_vocab_size a) (ea_n_heads a) (ea_max_ngram_size a - 1) seen)"
    by (simp add: add_layer_def add_ngrams option.map_comp comp_def case_prod_unfold)
  then show ?case
    by (cases "v41_orders isprime (ea_vocab_size a) (ea_n_heads a) (ea_max_ngram_size a - 1) seen")
      (auto simp: Suc option.map_comp comp_def case_prod_unfold)
qed simp

text \<open>The arguments that a configuration of the generator stands for.\<close>

definition args_of :: "v41_config \<Rightarrow> engram_args" where
  "args_of c = \<lparr>ea_layer_ids = vf_layer_ids c, ea_max_ngram_size = nat (vf_max_ngram_size c), ea_n_heads = nat (vf_n_heads c),
     ea_vocab_size = vf_vocab_size c, ea_num_embeddings = vf_declared_rows c, ea_head_dim = vf_head_dim c,
     ea_compressed_vocab_size = vf_compressed_vocab c, ea_pad_id = nat (vf_pad_token_id c)\<rparr>"

lemma from_args_frozen:
  assumes "v41_build isprime rng c = Some (Inr k)" "vf_layer_ids c \<noteq> []"
  shows "\<exists>L. from_args isprime (args_of c) = Some (Some L) \<and> el_primes L = vc_primes k
    \<and> compute_hash_multipliers rng (el_layer_ids L) (el_max_ngram_size L) (vf_compressed_vocab c) = Inr (vc_multipliers k)"
proof -
  obtain primes seen bound where k: "v41_layers isprime (vf_vocab_size c) (nat (vf_n_heads c)) (nat (vf_max_ngram_size c - 1))
      (length (vf_layer_ids c)) [] = Some (primes, seen)" "v41_bound c = Inr bound" "vc_primes k = primes"
      "v41_multipliers rng c bound = Inr (vc_multipliers k)"
    using assms(1) by (auto simp: v41_build_def res_iff Let_def split: if_splits)
  have n: "nat (vf_max_ngram_size c) - 1 = nat (vf_max_ngram_size c - 1)" by linarith
  define L where "L = \<lparr>el_max_ngram_size = nat (vf_max_ngram_size c), el_layer_ids = vf_layer_ids c,
    el_num_embeddings = vf_declared_rows c, el_primes = primes, el_n_heads = nat (vf_n_heads c), el_head_dim = vf_head_dim c\<rparr>"
  have "repeat_step (length (vf_layer_ids c)) (add_layer isprime (args_of c)) ([], []) = Some (primes, seen)"
    using k(1) by (simp add: add_layers args_of_def n del: One_nat_def)
  then have "from_args isprime (args_of c) = Some (Some L)" using assms(2) by (simp add: from_args_def args_of_def L_def)
  moreover have "compute_hash_multipliers rng (el_layer_ids L) (el_max_ngram_size L) (vf_compressed_vocab c) = Inr (vc_multipliers k)"
  proof -
    have "int (nat (vf_max_ngram_size c)) = vf_max_ngram_size c"
      using k(4) assms(2) by (cases "vf_layer_ids c") (auto simp: v41_multipliers_def numpy_integers_def split: if_splits)
    then show ?thesis using k(2,4) assms(2)
      by (auto simp: compute_hash_multipliers_def v41_multipliers_def v41_bound_def MAX_LONG_def PRIME_SEED_def L_def res_iff Let_def)
  qed
  ultimately show ?thesis using k(3) by (auto simp: L_def)
qed

section \<open>Ids lie in the buckets of their columns\<close>

text \<open>
  The buckets of a layer lie one after the other in the order of its primes, from row 0 on: bucket \<open>j\<close> starts at the sum
  of the primes before it and ends where the next one starts. The range is that of the layout of the table and not of the
  offsets the module computes.
\<close>

definition in_buckets :: "int list list \<Rightarrow> int list \<Rightarrow> bool" where
  "in_buckets primes ids \<longleftrightarrow>
     (let ps = concat primes
      in length ids = length ps
         \<and> list_all (\<lambda>j. sum_list (take j ps) \<le> ids ! j \<and> ids ! j < sum_list (take (Suc j) ps) \<and> ids ! j < layer_rows primes)
             [0..<length ps])"

lemma running_sums_nth:
  "j < length ps \<Longrightarrow> running_sums acc (x # butlast ps) ! j = acc + x + sum_list (take j ps)"
proof (induction ps arbitrary: acc x j)
  case (Cons p ps)
  then show ?case by (cases j) (auto split: if_splits)
qed simp

lemma length_bucket_offsets: "ps \<noteq> [] \<Longrightarrow> length (bucket_offsets ps) = length ps"
proof -
  have "length (running_sums acc ys) = length ys" for acc ys by (induction ys arbitrary: acc) simp_all
  then show "ps \<noteq> [] \<Longrightarrow> length (bucket_offsets ps) = length ps" by (simp add: bucket_offsets_def Suc_le_eq)
qed

lemma bucket_offsets_nth: "j < length ps \<Longrightarrow> bucket_offsets ps ! j = sum_list (take j ps)"
  using running_sums_nth [of j ps 0 0] by (simp del: running_sums.simps add: bucket_offsets_def)

lemma sum_concat_layer_rows: "sum_list (concat primes) = layer_rows primes"
  by (induction primes) (simp_all add: layer_rows_def)

lemma bucket_bounds:
  assumes "\<forall>p \<in> set ps. (0::int) < p" "j < length ps"
  shows "0 \<le> sum_list (take j ps)" "sum_list (take (Suc j) ps) = sum_list (take j ps) + ps ! j"
    "sum_list (take (Suc j) ps) \<le> sum_list ps"
proof -
  have nn: "\<And>p. p \<in> set ps \<Longrightarrow> 0 \<le> p" using assms(1) by (auto intro: less_imp_le)
  show "0 \<le> sum_list (take j ps)" using sum_take_mono [of ps 0 j, OF nn] by simp
  show "sum_list (take (Suc j) ps) = sum_list (take j ps) + ps ! j" using assms(2) by (simp add: take_Suc_conv_app_nth)
  show "sum_list (take (Suc j) ps) \<le> sum_list ps" using sum_take_mono [of ps "Suc j" "length ps", OF nn] assms(2) by simp
qed

lemma roll_hashes_ok:
  assumes "\<forall>ps \<in> set pss. \<forall>p \<in> set ps. 0 < p" "length xs = length pss"
  shows "\<exists>hs. roll_hashes r xs pss = Inr hs \<and> list_all2 (\<lambda>h p. 0 \<le> h \<and> h < p) hs (concat pss)"
  using assms
proof (induction pss arbitrary: r xs)
  case (Cons ps pss)
  obtain x ys where xs: "xs = x # ys" using Cons.prems(2) by (cases xs) auto
  have "rmapM (torch_remainder (r XOR x)) ps = Inr (map (\<lambda>p. (r XOR x) mod p) ps)"
    using Cons.prems(1) by (intro rmapM_Inr) (auto simp: torch_remainder_def)
  moreover obtain hs where "roll_hashes (r XOR x) ys pss = Inr hs" "list_all2 (\<lambda>h p. 0 \<le> h \<and> h < p) hs (concat pss)"
    using Cons.IH [of ys "r XOR x"] Cons.prems xs by auto
  moreover have "list_all2 (\<lambda>h p. 0 \<le> h \<and> h < p) (map (\<lambda>p. (r XOR x) mod p) ps) ps"
    using Cons.prems(1) by (simp add: list_all2_conv_all_nth)
  ultimately show ?case by (auto simp: xs intro: list_all2_appendI)
qed simp

lemma layer_ids_buckets:
  assumes "\<forall>p \<in> set (concat primes). 0 < p" "layer_rows primes \<le> 2 ^ 63" "length tokens = Suc (length primes)"
    "length multipliers = Suc (length primes)" "concat primes \<noteq> []"
  shows "\<exists>ids. layer_ids_at tokens multipliers primes (bucket_offsets (concat primes)) = Inr ids \<and> in_buckets primes ids"
proof -
  obtain x xs where xs: "map2 (\<lambda>t m. i64 (t * m)) tokens multipliers = x # xs" "length xs = length primes"
    using assms(3,4) by (cases "map2 (\<lambda>t m. i64 (t * m)) tokens multipliers")
      (auto dest: arg_cong [where f = length])
  obtain hs where hs: "roll_hashes x xs primes = Inr hs" "list_all2 (\<lambda>h p. 0 \<le> h \<and> h < p) hs (concat primes)"
    using roll_hashes_ok [of primes xs x] assms(1) xs(2) by auto
  define ps where "ps = concat primes"
  let ?offs = "bucket_offsets ps"
  have pos: "\<forall>p \<in> set ps. 0 < p" using assms(1) by (simp add: ps_def)
  have sums: "sum_list ps = layer_rows primes" by (simp add: ps_def sum_concat_layer_rows)
  have len: "length ?offs = length ps" "length hs = length ps"
    using assms(5) list_all2_lengthD [OF hs(2)] by (simp_all add: length_bucket_offsets ps_def del: length_concat)
  have "i64 (hs ! j + ?offs ! j) = hs ! j + sum_list (take j ps) \<and> 0 \<le> hs ! j \<and> hs ! j < ps ! j
      \<and> sum_list (take (Suc j) ps) = sum_list (take j ps) + ps ! j \<and> sum_list (take (Suc j) ps) \<le> layer_rows primes"
    if "j < length ps" for j
    using list_all2_nthD2 [OF hs(2), of j] bucket_bounds [OF pos that] that assms(2) sums
    by (simp add: ps_def [symmetric] bucket_offsets_nth i64_small del: length_concat)
  then have "in_buckets primes (map2 (\<lambda>h off. i64 (h + off)) hs ?offs)"
    using len by (fastforce simp: in_buckets_def list_all_length Let_def ps_def [symmetric] simp del: length_concat)
  then show ?thesis using hs(1) by (simp add: layer_ids_at_def xs(1) ps_def)
qed

section \<open>A forward of valid tokens\<close>

text \<open>The shapes a module of a checkpoint has.\<close>

definition hash_ready :: "hash_state \<Rightarrow> bool" where
  "hash_ready S \<longleftrightarrow> 2 \<le> hs_max_ngram_size S \<and> length (hs_multipliers S) = length (hs_primes S)
     \<and> hs_offsets S = map (\<lambda>pl. bucket_offsets (concat pl)) (hs_primes S)
     \<and> (\<forall>ms \<in> set (hs_multipliers S). length ms = hs_max_ngram_size S)
     \<and> (\<forall>pl \<in> set (hs_primes S). length pl = hs_max_ngram_size S - 1 \<and> concat pl \<noteq> [] \<and> (\<forall>p \<in> set (concat pl). 0 < p) \<and> layer_rows pl \<le> 2 ^ 63)"

lemma rmapM_total:
  "(\<And>x. x \<in> set xs \<Longrightarrow> \<exists>y. f x = Inr y \<and> Q x y) \<Longrightarrow> \<exists>ys. rmapM f xs = Inr ys \<and> list_all2 Q xs ys"
proof (induction xs)
  case (Cons x xs)
  obtain y where "f x = Inr y" "Q x y" using Cons.prems [of x] by auto
  moreover obtain ys where "rmapM f xs = Inr ys" "list_all2 Q xs ys" using Cons.IH Cons.prems by (meson list.set_intros(2))
  ultimately show ?case by auto
qed simp

lemma length_lookback [simp]: "length (lookback pad row p blocked shifts) = length shifts"
  by (induction shifts arbitrary: blocked) (simp_all add: Let_def)

lemma position_ids_ready:
  assumes "hash_ready S"
  shows "\<exists>ids. position_ids S row p = Inr ids \<and> list_all2 in_buckets (hs_primes S) ids"
proof -
  let ?tokens = "lookback (hs_pad_id S) row p False [0..<hs_max_ngram_size S]"
  let ?layers = "zip (hs_multipliers S) (zip (hs_primes S) (hs_offsets S))"
  have len: "length (hs_multipliers S) = length (hs_primes S)" "length (hs_offsets S) = length (hs_primes S)" "2 \<le> hs_max_ngram_size S"
    using assms by (auto simp: hash_ready_def)
  have "\<exists>ids. (\<lambda>(ms, pl, offs). layer_ids_at ?tokens ms pl offs) l = Inr ids \<and> in_buckets (fst (snd l)) ids" if l: "l \<in> set ?layers" for l
  proof -
    obtain ms pl offs where eq: "l = (ms, pl, offs)" by (cases l) auto
    then have "ms \<in> set (hs_multipliers S)" "pl \<in> set (hs_primes S)" "offs = bucket_offsets (concat pl)"
      using l assms by (auto simp: set_zip hash_ready_def)
    moreover from this have "Suc (length pl) = hs_max_ngram_size S" using assms len(3) by (auto simp: hash_ready_def)
    ultimately show ?thesis
      using layer_ids_buckets [of pl ?tokens ms] assms by (auto simp: eq hash_ready_def)
  qed
  then have "\<exists>ids. rmapM (\<lambda>(ms, pl, offs). layer_ids_at ?tokens ms pl offs) ?layers = Inr ids
      \<and> list_all2 (\<lambda>l. in_buckets (fst (snd l))) ?layers ids"
    by (rule rmapM_total)
  then obtain ids where ids: "rmapM (\<lambda>(ms, pl, offs). layer_ids_at ?tokens ms pl offs) ?layers = Inr ids"
      "list_all2 (\<lambda>l. in_buckets (fst (snd l))) ?layers ids"
    by blast
  have "list_all2 in_buckets (hs_primes S) ids" using ids(2) len by (auto simp: list_all2_conv_all_nth)
  then show ?thesis using ids(1) by (auto simp: position_ids_def Let_def)
qed

definition ids_of :: "hash_state \<Rightarrow> int list \<Rightarrow> nat \<Rightarrow> int list list" where
  "ids_of S row p = (case position_ids S row p of Inl _ \<Rightarrow> [] | Inr ids \<Rightarrow> ids)"

definition compressed_of :: "hash_state \<Rightarrow> int list \<Rightarrow> bool list \<Rightarrow> int list" where
  "compressed_of S toks live = map2 (\<lambda>x alive. if alive then hs_token_map S ! nat x else DEAD) toks live"

definition put_tokens :: "nat \<Rightarrow> int list \<Rightarrow> int list \<Rightarrow> int list" where
  "put_tokens start row new = take start row @ new @ drop (start + length new) row"

text \<open>A batch of rows of \<open>L\<close> valid tokens with their masks, and room for it in the cache.\<close>

definition hash_batch_ok :: "hash_state \<Rightarrow> nat \<Rightarrow> nat \<Rightarrow> int list list \<Rightarrow> bool list list \<Rightarrow> bool" where
  "hash_batch_ok S start L toks live \<longleftrightarrow> length live = length toks \<and> list_all (\<lambda>t. length t = L \<and> list_all (\<lambda>x. 0 \<le> x \<and> x < int (length (hs_token_map S))) t) toks
     \<and> list_all (\<lambda>l. length l = L) live \<and> length toks \<le> length (hs_cache S) \<and> list_all (\<lambda>row. start + L \<le> length row) (hs_cache S)"

definition cache_after :: "hash_state \<Rightarrow> nat \<Rightarrow> int list list \<Rightarrow> bool list list \<Rightarrow> int list list" where
  "cache_after S start toks live = map2 (put_tokens start) (take (length toks) (hs_cache S)) (map2 (compressed_of S) toks live)"

lemma hash_forward_ready:
  assumes "hash_ready S" "hash_batch_ok S start L toks live"
  shows "hash_forward S L toks start (Some live) = Inr (map (\<lambda>row. map (ids_of S row) [start..<start + L]) (cache_after S start toks live),
    S\<lparr>hs_cache := cache_after S start toks live @ drop (length toks) (hs_cache S)\<rparr>)"
proof -
  have ids: "position_ids S row p = Inr (ids_of S row p)" for row p
    using position_ids_ready [OF assms(1), of row p] by (auto simp: ids_of_def)
  have "compress_row S t l = Inr (compressed_of S t l)" if "(t, l) \<in> set (zip toks live)" for t l
  proof -
    have "\<forall>x \<in> set t. 0 \<le> x \<and> x < int (length (hs_token_map S))"
      using that assms(2) by (auto simp: hash_batch_ok_def list_all_iff dest: set_zip_leftD)
    then show ?thesis unfolding compress_row_def compressed_of_def
      by (intro rmapM_Inr) (auto simp: tensor_position_def dest: set_zip_leftD)
  qed
  then have comp: "rmapM (\<lambda>(t, l). compress_row S t l) (zip toks live) = Inr (map2 (compressed_of S) toks live)"
    by (intro rmapM_Inr) auto
  have len: "length c = L" if "c \<in> set (map2 (compressed_of S) toks live)" for c
    using that assms(2) by (auto simp: hash_batch_ok_def compressed_of_def list_all_iff set_zip)
  have rows: "map2 (\<lambda>row new. take start row @ new @ drop (start + L) row) (take (length toks) (hs_cache S)) (map2 (compressed_of S) toks live)
      = cache_after S start toks live"
    unfolding cache_after_def using len by (intro map_cong) (auto simp: put_tokens_def dest: set_zip_rightD)
  have "rmapM (\<lambda>row. rmapM (position_ids S row) [start..<start + L]) rs = Inr (map (\<lambda>row. map (ids_of S row) [start..<start + L]) rs)" for rs
    using ids by (intro rmapM_Inr) simp
  then show ?thesis
    using assms comp rows by (auto simp: hash_forward_def Let_def hash_ready_def hash_batch_ok_def)
qed

section \<open>A sequence in pieces\<close>

lemma lookback_local:
  "(\<And>q. q \<le> p \<Longrightarrow> row ! q = row' ! q) \<Longrightarrow> lookback pad row p blocked shifts = lookback pad row' p blocked shifts"
proof (induction shifts arbitrary: blocked)
  case (Cons s ss)
  have "nat (max 0 (int p - int s)) \<le> p" by linarith
  then have "row ! nat (max 0 (int p - int s)) = row' ! nat (max 0 (int p - int s))" by (rule Cons.prems)
  then show ?case using Cons by (simp add: Let_def)
qed simp

lemma ids_of_local: "(\<And>q. q \<le> p \<Longrightarrow> row ! q = row' ! q) \<Longrightarrow> ids_of S row p = ids_of S row' p"
  using lookback_local [of p row row'] by (simp add: ids_of_def position_ids_def)

lemma put_tokens_append:
  "start + length a + length b \<le> length row \<Longrightarrow> put_tokens (start + length a) (put_tokens start row a) b = put_tokens start row (a @ b)"
  by (simp add: put_tokens_def ac_simps)

lemma put_tokens_before:
  assumes "start + length a + length b \<le> length row" "q < start + length a"
  shows "put_tokens start row (a @ b) ! q = put_tokens start row a ! q"
proof (cases "q < start")
  case False
  then have "q - start < length a" using assms(2) by linarith
  then show ?thesis using assms False by (simp add: put_tokens_def nth_append)
qed (use assms in \<open>simp add: put_tokens_def nth_append\<close>)

lemma length_put_tokens: "start + length new \<le> length row \<Longrightarrow> length (put_tokens start row new) = length row"
  by (simp add: put_tokens_def)

lemma position_ids_cache [simp]: "ids_of (S\<lparr>hs_cache := c\<rparr>) row p = ids_of S row p"
  by (simp add: ids_of_def position_ids_def)

lemma hash_ready_cache [simp]: "hash_ready (S\<lparr>hs_cache := c\<rparr>) = hash_ready S"
  by (simp add: hash_ready_def)

lemma compressed_append:
  "length a = length l \<Longrightarrow> compressed_of S (a @ b) (l @ m) = compressed_of S a l @ compressed_of S b m"
  by (simp add: compressed_of_def)

lemma length_compressed [simp]: "length (compressed_of S a l) = min (length a) (length l)"
  by (simp add: compressed_of_def)

lemma forward_pieces:
  assumes "hash_ready S" "hash_batch_ok S start L xs lx" "length ys = length xs"
    and "hash_batch_ok S (start + L) M ys ly"
  shows "hash_forward S (L + M) (map2 (@) xs ys) start (Some (map2 (@) lx ly)) =
    rbind (hash_forward S L xs start (Some lx)) (\<lambda>(a, S'). rbind (hash_forward S' M ys (start + L) (Some ly)) (\<lambda>(b, S'').
      Inr (map2 (@) a b, S'')))"
proof -
  let ?n = "length xs"
  have x: "length lx = ?n" "?n \<le> length (hs_cache S)" "\<And>i. i < ?n \<Longrightarrow> length (xs ! i) = L \<and> length (lx ! i) = L"
    using assms(2) by (auto simp: hash_batch_ok_def list_all_length)
  have y: "length ly = ?n" "\<And>i. i < ?n \<Longrightarrow> length (ys ! i) = M \<and> length (ly ! i) = M"
      "\<And>i. i < length (hs_cache S) \<Longrightarrow> start + L + M \<le> length (hs_cache S ! i)"
    using assms(3,4) by (auto simp: hash_batch_ok_def list_all_length)
  define S1 where "S1 = S\<lparr>hs_cache := cache_after S start xs lx @ drop ?n (hs_cache S)\<rparr>"
  have row: "cache_after S start xs lx ! i = put_tokens start (hs_cache S ! i) (compressed_of S (xs ! i) (lx ! i))"
      "length (cache_after S start xs lx ! i) = length (hs_cache S ! i)" if "i < ?n" for i
    using that x y(3) [of i] by (simp_all add: cache_after_def length_put_tokens)
  have n1: "length (cache_after S start xs lx) = ?n" using x by (simp add: cache_after_def)
  have ok1: "hash_batch_ok S1 (start + L) M ys ly"
  proof -
    have "start + L + M \<le> length r" if "r \<in> set (hs_cache S1)" for r
    proof -
      from that consider "r \<in> set (cache_after S start xs lx)" | "r \<in> set (hs_cache S)"
        by (auto simp: S1_def dest: in_set_dropD)
      then show ?thesis
      proof cases
        case 1
        then obtain i where "i < ?n" "r = cache_after S start xs lx ! i" by (metis in_set_conv_nth n1)
        then show ?thesis using row(2) [of i] y(3) [of i] x(2) by simp
      qed (use y(3) in \<open>auto simp: in_set_conv_nth\<close>)
    qed
    then show ?thesis using assms(3,4) x(2) n1 by (auto simp: hash_batch_ok_def S1_def list_all_iff)
  qed
  have okw: "hash_batch_ok S start (L + M) (map2 (@) xs ys) (map2 (@) lx ly)"
  proof -
    have valid: "list_all (\<lambda>v. 0 \<le> v \<and> v < int (length (hs_token_map S))) (xs ! i @ ys ! i)" if "i < ?n" for i
      using that assms(2,3,4) by (auto simp: hash_batch_ok_def list_all_length [of _ xs] list_all_length [of _ ys])
    show ?thesis
      unfolding hash_batch_ok_def list_all_length [of _ "map2 (@) xs ys"] list_all_length [of _ "map2 (@) lx ly"]
        list_all_length [of _ "hs_cache S"]
      using x y assms(3) valid by (simp add: add.assoc)
  qed
  have cache1: "cache_after S1 (start + L) ys ly = cache_after S start (map2 (@) xs ys) (map2 (@) lx ly)"
  proof (rule nth_equalityI)
    show "length (cache_after S1 (start + L) ys ly) = length (cache_after S start (map2 (@) xs ys) (map2 (@) lx ly))"
      using x y assms(3) n1 by (simp add: cache_after_def S1_def)
    fix i assume "i < length (cache_after S1 (start + L) ys ly)"
    then have i: "i < ?n" using x y assms(3) n1 by (simp add: cache_after_def S1_def)
    have same: "compressed_of S1 = compressed_of S" by (simp add: fun_eq_iff compressed_of_def S1_def case_prod_unfold)
    have "hs_cache S1 ! i = cache_after S start xs lx ! i" "?n \<le> length (hs_cache S1)"
      using i n1 x(2) by (simp_all add: S1_def nth_append)
    then have "cache_after S1 (start + L) ys ly ! i
        = put_tokens (start + L) (put_tokens start (hs_cache S ! i) (compressed_of S (xs ! i) (lx ! i))) (compressed_of S (ys ! i) (ly ! i))"
      using i y(1) assms(3) row(1) [OF i] by (simp add: cache_after_def [of S1] same)
    also have "\<dots> = put_tokens start (hs_cache S ! i) (compressed_of S (xs ! i) (lx ! i) @ compressed_of S (ys ! i) (ly ! i))"
      using put_tokens_append [of start "compressed_of S (xs ! i) (lx ! i)" "compressed_of S (ys ! i) (ly ! i)" "hs_cache S ! i"] i x y by simp
    also have "\<dots> = cache_after S start (map2 (@) xs ys) (map2 (@) lx ly) ! i"
      using i x y assms(3) by (simp add: cache_after_def compressed_append)
    finally show "cache_after S1 (start + L) ys ly ! i = cache_after S start (map2 (@) xs ys) (map2 (@) lx ly) ! i" .
  qed
  let ?rows = "cache_after S start (map2 (@) xs ys) (map2 (@) lx ly)"
  have ids: "map (\<lambda>r. map (ids_of S r) [start..<start + (L + M)]) ?rows
      = map2 (@) (map (\<lambda>r. map (ids_of S r) [start..<start + L]) (cache_after S start xs lx))
          (map (\<lambda>r. map (ids_of S r) [start + L..<start + L + M]) ?rows)"
  proof (rule nth_equalityI)
    fix i assume "i < length (map (\<lambda>r. map (ids_of S r) [start..<start + (L + M)]) ?rows)"
    then have i: "i < ?n" "i < length ?rows" using x y assms(3) by (simp_all add: cache_after_def)
    have "?rows ! i = put_tokens start (hs_cache S ! i) (compressed_of S (xs ! i) (lx ! i) @ compressed_of S (ys ! i) (ly ! i))"
      using i x y assms(3) by (simp add: cache_after_def compressed_append)
    then have "ids_of S (?rows ! i) p = ids_of S (cache_after S start xs lx ! i) p" if "p < start + L" for p
      using that i(1) x y row(1) [OF i(1)] y(3) [of i]
      by (intro ids_of_local) (simp add: put_tokens_before)
    moreover have "[start..<start + (L + M)] = [start..<start + L] @ [start + L..<start + L + M]"
      using upt_add_eq_append [of start "start + L" M] by (simp add: add.assoc)
    ultimately show "map (\<lambda>r. map (ids_of S r) [start..<start + (L + M)]) ?rows ! i
      = map2 (@) (map (\<lambda>r. map (ids_of S r) [start..<start + L]) (cache_after S start xs lx))
          (map (\<lambda>r. map (ids_of S r) [start + L..<start + L + M]) ?rows) ! i"
      using i n1 by simp
  qed (use n1 x y assms(3) in \<open>simp add: cache_after_def\<close>)
  have n2: "length (map2 (@) xs ys) = ?n" using assms(3) by simp
  have "hash_forward S1 M ys (start + L) (Some ly) = Inr (map (\<lambda>r. map (ids_of S r) [start + L..<start + L + M]) ?rows,
      S\<lparr>hs_cache := ?rows @ drop ?n (hs_cache S)\<rparr>)"
    using hash_forward_ready [OF _ ok1] assms(1,3) cache1 n1 by (simp add: S1_def)
  then show ?thesis
    unfolding hash_forward_ready [OF assms(1,2)] hash_forward_ready [OF assms(1) okw] n2
    by (simp add: ids flip: S1_def)
qed

section \<open>The module of a checkpoint\<close>

lemma from_args_layout:
  assumes "\<And>v. isprime v \<longleftrightarrow> prime_number v" "ea_layer_ids a \<noteq> []"
  shows "from_args isprime a = Some (Some \<lparr>el_max_ngram_size = ea_max_ngram_size a, el_layer_ids = ea_layer_ids a,
      el_num_embeddings = ea_num_embeddings a,
      el_primes = expected_primes (ea_vocab_size a - 1) 0 (length (ea_layer_ids a)) (ea_max_ngram_size a - 1) (ea_n_heads a),
      el_n_heads = ea_n_heads a, el_head_dim = ea_head_dim a\<rparr>)"
  using v41_layers_block [OF assms(1), where b = "ea_vocab_size a - 1" and H = "ea_n_heads a" and m = "ea_max_ngram_size a - 1"
    and L = "length (ea_layer_ids a)" and k = 0] assms(2)
  by (simp add: from_args_def add_layers block_def [of _ _ 0])

lemma init_ready:
  assumes "\<And>v. isprime v \<longleftrightarrow> prime_number v" "rng_laws rng" "2 \<le> ea_max_ngram_size a" "0 < ea_n_heads a"
    and "from_args isprime a = Some (Some L)" "hash_state_init rng compressed cache a L = Inr S"
    and "list_all (\<lambda>pl. layer_rows pl \<le> 2 ^ 63) (el_primes L)"
  shows "hash_ready S"
proof -
  let ?m = "ea_max_ngram_size a - 1"
  let ?ps = "expected_primes (ea_vocab_size a - 1) 0 (length (ea_layer_ids a)) ?m (ea_n_heads a)"
  have ids: "ea_layer_ids a \<noteq> []" using assms(5) by (auto simp: from_args_def)
  have L: "el_primes L = ?ps" "el_max_ngram_size L = ea_max_ngram_size a" "el_layer_ids L = ea_layer_ids a"
    using assms(5) from_args_layout [OF assms(1) ids] by auto
  obtain mults where mults: "compute_hash_multipliers rng (ea_layer_ids a) (ea_max_ngram_size a) (snd compressed) = Inr mults"
      and S: "hs_max_ngram_size S = ea_max_ngram_size a" "hs_primes S = ?ps" "hs_offsets S = map bucket_offsets (map concat ?ps)"
        "hs_multipliers S = mults"
    using assms(6) L by (auto simp: hash_state_init_def Let_def res_iff split: prod.splits if_splits)
  obtain q where q: "0 < max 1 (q div 2)"
      "rmapM (\<lambda>id. rmap (map (\<lambda>v. v * 2 + 1)) (numpy_integers rng (10007 * id) (max 1 (q div 2)) (int (ea_max_ngram_size a))))
        (ea_layer_ids a) = Inr mults"
    using mults by (auto simp: compute_hash_multipliers_def res_iff Let_def split: if_splits)
  have "length ms = ea_max_ngram_size a" if ms: "ms \<in> set mults" for ms
  proof -
    obtain id where "rmap (map (\<lambda>v. v * 2 + 1)) (numpy_integers rng (10007 * id) (max 1 (q div 2)) (int (ea_max_ngram_size a))) = Inr ms"
      using q(2) ms by (auto simp: rmapM_Inr_iff list_all2_conv_all_nth in_set_conv_nth)
    then show ?thesis using assms(2) q(1) by (auto simp: numpy_integers_def rng_laws_def split: if_splits)
  qed
  moreover have "length mults = length (ea_layer_ids a)" by (rule rmapM_length [OF q(2)])
  moreover have "length pl = ?m \<and> concat pl \<noteq> [] \<and> (\<forall>p \<in> set (concat pl). 0 < p)" if pl: "pl \<in> set ?ps" for pl
  proof -
    obtain l where l: "pl = map (\<lambda>j. block (ea_vocab_size a - 1) (0 + (l * ?m + j) * ea_n_heads a) (ea_n_heads a)) [0..<?m]"
      using pl by (auto simp: expected_primes_def)
    have "0 < p" if pb: "p \<in> set (block b k n)" for p b k n
    proof -
      obtain i where "p = nth_prime_after b (k + i + 1)" using pb unfolding block_def by (auto simp del: nth_prime_after.simps)
      then have "prime_number p" using nth_prime_after_is_prime [of "k + i + 1" b] by (simp add: is_prime_iff del: nth_prime_after.simps)
      then show ?thesis by (simp add: prime_number_def)
    qed
    moreover have "concat pl \<noteq> []" using assms(3,4) by (auto simp: l block_def intro!: exI [of _ 0])
    ultimately show ?thesis by (auto simp: l)
  qed
  ultimately show ?thesis
    using S assms(3,7) L(1) by (auto simp: hash_ready_def list_all_iff expected_primes_def simp del: concat_eq_Nil_conv)
qed

text \<open>
  The layout of the reference is the frozen one: whenever the generator of the constants succeeds on a configuration,
  the reference derives from it the same primes and the same multipliers.
\<close>

theorem v41_layout_frozen:
  assumes "v41_build isprime rng c = Some (Inr k)" "vf_layer_ids c \<noteq> []"
  shows "\<exists>L. from_args isprime (args_of c) = Some (Some L) \<and> el_primes L = vc_primes k
    \<and> compute_hash_multipliers rng (el_layer_ids L) (el_max_ngram_size L) (vf_compressed_vocab c) = Inr (vc_multipliers k)"
  by (rule from_args_frozen [OF assms])

text \<open>
  C35: A forward of a batch of valid tokens returns, and every hash id lies in the bucket of its n-gram size and head: the
  rows of its layer that follow all the buckets before it, as many as its prime, and below the row count of the layer,
  whatever the cache held before and the tokens that are masked. Two columns of a layer never share a row.
\<close>

theorem v41_hash_in_buckets:
  assumes "\<And>v. isprime v \<longleftrightarrow> prime_number v" "rng_laws rng" "2 \<le> ea_max_ngram_size a" "0 < ea_n_heads a"
    and "from_args isprime a = Some (Some L)" "hash_state_init rng compressed cache a L = Inr S"
    and "list_all (\<lambda>pl. layer_rows pl \<le> 2 ^ 63) (el_primes L)" "hash_batch_ok S start n toks live"
  shows "\<exists>out S'. hash_forward S n toks start (Some live) = Inr (out, S') \<and> length out = length toks
    \<and> list_all (\<lambda>row. length row = n \<and> list_all (list_all2 in_buckets (el_primes L)) row) out"
proof -
  have ready: "hash_ready S" by (rule init_ready [OF assms(1-7)])
  have "hs_primes S = el_primes L" using assms(6) by (auto simp: hash_state_init_def Let_def res_iff split: prod.splits if_splits)
  then have "list_all2 in_buckets (el_primes L) (ids_of S row p)" for row p
    using position_ids_ready [OF ready, of row p] by (auto simp: ids_of_def)
  moreover have "length (cache_after S start toks live) = length toks" using assms(8) by (simp add: cache_after_def hash_batch_ok_def)
  ultimately show ?thesis unfolding hash_forward_ready [OF ready assms(8)] by (auto simp: list_all_iff)
qed

text \<open>
  C34: A sequence hashed in pieces gets the ids of the whole: a forward of a batch at a position equals the forward of its
  first tokens followed by that of the rest behind them, and leaves the same cache.
\<close>

theorem v41_hash_pieces:
  assumes "\<And>v. isprime v \<longleftrightarrow> prime_number v" "rng_laws rng" "2 \<le> ea_max_ngram_size a" "0 < ea_n_heads a"
    and "from_args isprime a = Some (Some L)" "hash_state_init rng compressed cache a L = Inr S"
    and "list_all (\<lambda>pl. layer_rows pl \<le> 2 ^ 63) (el_primes L)"
    and "hash_batch_ok S start n xs lx" "hash_batch_ok S (start + n) k ys ly" "length ys = length xs"
  shows "hash_forward S (n + k) (map2 (@) xs ys) start (Some (map2 (@) lx ly)) =
    rbind (hash_forward S n xs start (Some lx)) (\<lambda>(a, S'). rbind (hash_forward S' k ys (start + n) (Some ly)) (\<lambda>(b, S'').
      Inr (map2 (@) a b, S'')))"
  by (rule forward_pieces [OF init_ready [OF assms(1-7)] assms(8,10,9)])

text \<open>One layer of one head with the bucket of the prime 11, a masked token, and a cache that held something else.\<close>

definition hash_args :: engram_args where
  "hash_args = \<lparr>ea_layer_ids = [1], ea_max_ngram_size = 2, ea_n_heads = 1, ea_vocab_size = 10, ea_num_embeddings = [11],
     ea_head_dim = 4, ea_compressed_vocab_size = 3, ea_pad_id = 0\<rparr>"

definition demo_layout :: engram_layout where
  "demo_layout = \<lparr>el_max_ngram_size = 2, el_layer_ids = [1], el_num_embeddings = [11], el_primes = [[[11]]], el_n_heads = 1, el_head_dim = 4\<rparr>"

definition demo_state :: hash_state where
  "demo_state = \<lparr>hs_max_ngram_size = 2, hs_pad_id = 0, hs_primes = [[[11]]], hs_offsets = [[0]], hs_multipliers = [[1, 1]],
     hs_token_map = [0, 1, 1, 2], hs_cache = [[9, 9, 9, 9]]\<rparr>"

lemma demo_primes: "expected_primes 9 0 1 1 1 = [[[11]]]"
proof -
  have "nth_prime_after 9 1 = 11" by code_simp
  then show ?thesis by (simp add: expected_primes_def block_def del: nth_prime_after.simps)
qed

lemma demo_layout_from: "from_args is_prime hash_args = Some (Some demo_layout)"
  using demo_primes from_args_layout [of is_prime hash_args] is_prime_iff by (simp add: hash_args_def demo_layout_def)

lemma demo_state_init:
  "hash_state_init (\<lambda>s h n. replicate n 0) ([0, 1, 1, 2], 3) [[9, 9, 9, 9]] hash_args demo_layout = Inr demo_state"
proof -
  have "replicate 2 (0 :: int) = [0, 0]" by code_simp
  then show ?thesis
    by (simp add: hash_state_init_def hash_args_def demo_layout_def demo_state_def compute_hash_multipliers_def numpy_integers_def py_div_def py_nth_def
        torch_long_def bucket_offsets_def)
qed

lemma demo_batches: "hash_batch_ok demo_state 0 2 [[0, 3]] [[True, True]]" "hash_batch_ok demo_state (0 + 2) 1 [[2]] [[False]]"
  by (simp_all add: hash_batch_ok_def demo_state_def)

theorem v41_hash_pieces_witness:
  "hash_forward demo_state (2 + 1) (map2 (@) [[0, 3]] [[2]]) 0 (Some (map2 (@) [[True, True]] [[False]])) =
    rbind (hash_forward demo_state 2 [[0, 3]] 0 (Some [[True, True]])) (\<lambda>(a, S'). rbind (hash_forward S' 1 [[2]] (0 + 2) (Some [[False]])) (\<lambda>(b, S'').
      Inr (map2 (@) a b, S'')))"
  by (rule v41_hash_pieces [OF is_prime_iff demo_rng_laws _ _ demo_layout_from demo_state_init _ demo_batches])
    (simp_all add: hash_args_def demo_layout_def layer_rows_def)

theorem v41_hash_in_buckets_witness:
  "\<exists>out S'. hash_forward demo_state 2 [[0, 3]] 0 (Some [[True, True]]) = Inr (out, S') \<and> length out = length [[0, 3 :: int]]
    \<and> list_all (\<lambda>row. length row = 2 \<and> list_all (list_all2 in_buckets (el_primes demo_layout)) row) out"
  by (rule v41_hash_in_buckets [OF is_prime_iff demo_rng_laws _ _ demo_layout_from demo_state_init _ demo_batches(1)])
    (simp_all add: hash_args_def demo_layout_def layer_rows_def)

definition demo_frozen :: v41_config where
  "demo_frozen = \<lparr>vf_layer_ids = [1], vf_max_ngram_size = 2, vf_n_heads = 1, vf_vocab_size = 10, vf_head_dim = 4,
     vf_compressed_vocab = 3, vf_declared_rows = [11], vf_pad_token_id = 0\<rparr>"

theorem v41_layout_frozen_witness:
  "\<exists>k L. v41_build is_prime (\<lambda>s h n. replicate n 0) demo_frozen = Some (Inr k) \<and> from_args is_prime (args_of demo_frozen) = Some (Some L)
    \<and> el_primes L = vc_primes k
    \<and> compute_hash_multipliers (\<lambda>s h n. replicate n 0) (el_layer_ids L) (el_max_ngram_size L) 3 = Inr (vc_multipliers k)"
proof -
  have "v41_layers is_prime 10 1 1 1 [] = Some ([[[11]]], block 9 0 1)"
    using v41_layers_block [of is_prime 9 1 1 1 0] is_prime_iff demo_primes by (simp add: block_def [of _ _ 0])
  then obtain k where k: "v41_build is_prime (\<lambda>s h n. replicate n 0) demo_frozen = Some (Inr k)"
    by (auto simp: v41_build_def demo_frozen_def v41_bound_def v41_multipliers_def numpy_integers_def PRIME_SEED_def py_div_def
        layer_rows_def Let_def)
  then show ?thesis using v41_layout_frozen [OF k] by (auto simp: demo_frozen_def)
qed

end
