(* ===== verification/Spec2Isabelle.thy ===== *)
theory Spec2Isabelle
  imports Prelude PleMath Bytes PyDict RowStore PrimeTable Keygen Tensor Gather PleMemory PleSequence
    SlotLookup SlotIndex DiskSlotIndex DiskIndexBuild DiskTable MultiHead PleAdapter Pool Tables
    Json JsonValue PyPath Service NgramMemory Bundle Registry Discovery Adapter ModelPatch OfficialLoader ViewBuild ViewKeys RefHash GatherPlan ExtractRows V41Constants
    JsonIndent BundleSave TokenMap MockTable SpecExtract BcgOutput EnginePrimes EngineIds RowidExactness EngineShards EngineMmap V41Hash
begin

text \<open>
  EngramDB keeps the per-layer n-gram embeddings (PLE) of a language model on disk.  A token position is
  hashed, with the tokens before it, to one row id for each head; the rows are read from shard files, or
  from a view of records found through a slot index, decoded and given to the model.  This development
  models the Python package \<open>src/python/engramdb\<close>, the parts of the Rust crates its calls reach or that make its inputs, and
  the scripts that generate the artifacts the package reads.

  \<^bold>\<open>The parts and how they call one another.\<close>

  \<^item> Addressing.  \<open>PleMath\<close> is \<open>ple_math.py\<close>: primes, head sizes and offsets, the EOS-segmented shift and
    \<open>ple_rowids\<close>.  \<open>Keygen\<close> is the Rust crate \<open>engramdb-keygen\<close> on 64-bit words and the entry points of
    \<open>__init__.py\<close>, which fall back from one to the other.  \<open>PrimeTable\<close> evaluates the default head sizes.
  \<^item> Storage.  \<open>Bytes\<close> has the integer encodings of \<open>struct\<close> and \<open>tobytes\<close>.  \<open>RowStore\<close> is the gather of
    \<open>engramdb-io\<close> behind \<open>Store.fetch\<close> and the view reader behind \<open>View.read_record(s)\<close>.  \<open>Tensor\<close> states what
    is used of PyTorch, and \<open>Gather\<close> is \<open>vllm.py\<close>, which reads rows into tensors.
  \<^item> Slot indexes.  \<open>SlotIndex\<close> is \<open>slot_index.py\<close> over NumPy's sort and search; \<open>DiskSlotIndex\<close> and
    \<open>DiskIndexBuild\<close> are \<open>disk_slot_index.py\<close>: the two-pass build, the three layouts, the bucket cache.
  \<^item> Memories.  \<open>PleMemory\<close> and \<open>PleSequence\<close> are \<open>ple_memory.py\<close>: a validated memory over a store, a view
    with an index or a sequential view; streaming sequences and their bounded container.
    \<open>NgramMemory\<close> is \<open>addressable_memory.py\<close>, the memory of exact n-grams.
  \<^item> Model modules.  \<open>DiskTable\<close> and \<open>ModelPatch\<close> are \<open>vllm_plugin.py\<close> (and \<open>install_sglang_ple\<close>): the cached table
    with background prefetches, and the patches of a model.  \<open>PleAdapter\<close> is \<open>ple_adapter.py\<close>, a table with the
    addressing in front.  \<open>MultiHead\<close> is \<open>integrations.py\<close>.  \<open>OfficialLoader\<close> is \<open>official_loader.py\<close>, which
    puts adapters in place of a model's modules and loads its checkpoint without the table.
  \<^item> Service.  \<open>Pool\<close> is \<open>pool.py\<close>, the handle pool as methods and as a step relation of threads; \<open>Tables\<close> is
    \<open>tables.py\<close> and \<open>arrow_utils.py\<close>; \<open>Service\<close> is \<open>server.py\<close> and \<open>service_client.py\<close>: a client request goes over
    the wire to the server, the registry of tables, a pooled handle and the row store.
  \<^item> Deployment.  \<open>Json\<close>, \<open>JsonValue\<close> and \<open>PyPath\<close> have what is used of \<open>json\<close> and \<open>pathlib\<close>.  \<open>Bundle\<close> is \<open>bundle.py\<close>,
    \<open>Registry\<close> is \<open>target_reader.py\<close>, \<open>Discovery\<close> is \<open>ple_discovery.py\<close>, and \<open>Adapter\<close> is \<open>adapter.py\<close> with the page
    reader of \<open>sglang.py\<close>.  \<open>BundleSave\<close> adds \<open>BundleManifest.save\<close> over the indented documents of \<open>JsonIndent\<close>.
  \<^item> Builders.  \<open>ViewBuild\<close> is the view builders of \<open>engramdb-io\<close>, \<open>GatherPlan\<close> its other gather strategies and the prefetch planner.
    \<open>ViewKeys\<close> is \<open>scripts/gen_view_keys.py\<close>, \<open>ExtractRows\<close> \<open>extract_ple_rows.py\<close>, \<open>SpecExtract\<close> \<open>extract_ple_spec.py\<close> and
    \<open>MockTable\<close> \<open>mock_table_gen.py\<close>: a table is cut out of a checkpoint, or made up, with its specification.
  \<^item> References.  \<open>RefHash\<close> is \<open>scripts/ref_ple_hash.py\<close> with the golden file; \<open>V41Constants\<close> and \<open>TokenMap\<close> are the generators of
    the frozen constants and the frozen token map of DeepSeek-V4.1, and \<open>V41Hash\<close> is the reference
    \<open>refs/v41_engram.py\<close>.  \<open>BcgOutput\<close> is
    \<open>scripts/sglang_bcg_output_patch.py\<close> over the buffer helpers it wraps.
  \<^item> Serving engine.  \<open>EnginePrimes\<close>, \<open>EngineIds\<close> and \<open>EngineShards\<close> are the class \<open>Qwen4ExpNGramEmbedding\<close> of
    \<open>research/vllm_ngram_embedding_main.py\<close> and the shard helpers of \<open>vllm_ple_common_main.py\<close>: the constants, the row ids
    of a packed batch on the CPU, and the loading of the table.  \<open>RowidExactness\<close> is \<open>scripts/ple_rowid_exactness.py\<close>,
    which compares that class with \<open>Keygen\<close>.  \<open>EngineMmap\<close> is \<open>MmapPleTable\<close> of \<open>research/vllm_ple_mmap_54129.py\<close>, the
    engine's own reader of the shard files.

  \<^bold>\<open>How the code is represented.\<close>  A class is a record with its attributes as fields, and a method a definition from the
  object and its arguments to the result and the object after it.  What a method can raise is the left side of a
  sum (\<open>py_error\<close> of \<open>Prelude\<close>); a method that changes its object before raising returns both.  Python's
  integers are \<open>int\<close>, the natives' are words; a dictionary is an association list in insertion order
  (\<open>PyDict\<close>); a bounded \<open>OrderedDict\<close> is one with an eviction loop.  A loop over data is a \<open>fold\<close> or a recursion
  on it.  Floats are rationals: rounding is not modelled, and no statement rests on it.  The concurrent parts are
  explicit: a prefetch is a future the environment completes at any later step, the pool's threads
  interleave by the relation \<open>pool_step\<close>, and a byte stream comes in pieces cut anywhere.

  \<^bold>\<open>What is a parameter.\<close>  PyTorch, NumPy's sort and search, pyarrow, BLAKE2b, the file system, and the classes of
  transformers, safetensors, vLLM, SGLang and engram-peft are arguments of the definitions that use
  them; the named predicates (\<open>torch_laws\<close>, \<open>numpy_laws\<close>, \<open>shaping_laws\<close> and so on) state their documented
  behaviour, and each has a concrete instance in its theory that the witnesses use.

  \<^bold>\<open>Interfaces.\<close>  The locale \<open>row_store\<close> (\<open>RowStore\<close>) is the contract of a reader of rows; it is interpreted by the
  native store and the native view, and the clients' lemmas (the gather, the memory, the sequences, the cached table, the multi-head
  module, the adapter) are proved in it once.  The locale \<open>slot_lookup\<close> (\<open>SlotLookup\<close>) is the contract of
  a slot index, interpreted by \<open>SlotIndex\<close> and by \<open>DiskSlotIndex\<close>.

  \<^bold>\<open>What the lemmas show.\<close>  Addressing: the code computes the mathematical n-gram hash, streaming agrees with one
  shot, row ids stay in their head's range, and the native path agrees with the Python one below the
  wrap-around bound.  Storage: a gather is the concatenation of the rows asked for, with or without
  deduplication; indexes are exact for every row set, hash and layout, and their cache is invisible.
  Memories and modules: every split of a token stream gives the rows of the whole; containers stay bounded;
  a cached table returns the stored rows, whatever the timing of its prefetches, or fails only when its cache is too
  small.  Service: no handle is ever in two places, none is lost while the pool is open, and a returned one can be taken by the
  thread that waits; the server refines framed request and reply,
  answers every request, and a fetch from the client returns the stored rows.  Deployment: a manifest's
  memory reads the manifest's rows and still does after it was moved, discovery reads back the tensors, the registry's latest versions
  exist, the installers change exactly the modules they select, the loader never loads a table tensor.  Builders and
  references: what a builder writes, the readers serve; every gather strategy gives the same rows; the references
  compute the same hash; the frozen artifacts pass their own checks; a cached n-gram hash fed in pieces is that of the whole.  The engine: its unbounded prime search ends, it
  derives the constants EngramDB has, its ids for a packed batch are those of \<open>ple_rowids\<close>, the comparison script
  succeeds for every random generator, and the table it loads or maps has the rows the native store serves, whatever the
  order of its tasks and the failures of its bounded prefetch.

  \<^bold>\<open>Bounds and fuel.\<close>  The loops end by measures, proved; the only fuel is the nesting bound of the JSON
  parser, the length of the document plus one, which every document fits.  The no-wrap bound of the native hash is
  the largest token for which the sum of products stays below \<open>2 ^ 64\<close> (\<open>Keygen\<close>).  The frames of the
  service carry at most \<open>2 ^ 32 - 1\<close> bytes, and the statements about them carry that bound.

  \<^bold>\<open>Not modelled.\<close>  The page readers, thread pool and C interface of the Rust crates and their command line and benchmarks,
  which the Python package does not call.  Sockets, timeouts and wall-clock statistics: the handlers are modelled
  over the bytes they read and write.  The benchmark, probe and injection scripts under \<open>scripts\<close>, \<open>probes\<close> and
  \<open>integrations\<close>, which drive external engines and measure them, and the copies of third-party sources under
  \<open>research\<close> and \<open>refs\<close> apart from the parts named above: whole models, schedulers and configuration tables of other
  projects that nothing in the repository imports, and of the engine the CUDA kernels, the GPU prefetches and the forward.
\<close>

end
